(* ===== verification/Prelude.thy ===== *)
theory Prelude
  imports Main "HOL-Library.Word"
begin

section \<open>Shared vocabulary of the development\<close>

text \<open>
  What every component of the library shares: the names of the machine types, the atomic
  operations of the C++ standard library, the shape of a concurrent component (a step function
  over events, run over an explicit list of events), and the two contracts such a component is
  proved against (\<open>counted_machine\<close>, \<open>guarded_machine\<close>).

  A concurrent component is modelled by interleaving. An event names the thread that moves; one
  event is one access to a shared atomic (or one critical section of a \<open>std::mutex\<close>), together
  with the thread-local code up to the next such access. Memory orders are not modelled: the
  interleaving is sequentially consistent.
\<close>

named_theorems machine_simps \<open>unfolding of the step functions and their helpers\<close>
named_theorems atomic_simps \<open>unfolding of the operations on atomics\<close>

type_synonym tid = nat
type_synonym u64 = "64 word"
type_synonym i64 = "64 word"
type_synonym i32 = "32 word"
type_synonym u16 = "16 word"
type_synonym addr = "64 word"
type_synonym links = "addr \<Rightarrow> addr"

subsection \<open>How the code can fail\<close>

text \<open>
  A failed \<open>assert\<close>, \<open>WHEELS_ASSERT\<close> or \<open>WHEELS_VERIFY\<close>, a \<open>WHEELS_PANIC\<close>, a read of memory
  that is not alive, and a walk along links that does not end are values, never undefined terms.
\<close>

datatype fault =
    AssertFailed string
  | Panic string
  | UseAfterFree
  | NullDereference
  | DivergentLoop

datatype 's outcome =
    Disabled      \<comment> \<open>the event cannot happen here: the thread is elsewhere, or is blocked\<close>
  | Next 's
  | Fault fault

fun exec :: "('ev \<Rightarrow> 's \<Rightarrow> 's outcome) \<Rightarrow> 'ev list \<Rightarrow> 's \<Rightarrow> 's outcome" where
  "exec step [] s = Next s"
| "exec step (e # es) s =
     (case step e s of
        Next s' \<Rightarrow> exec step es s'
      | Disabled \<Rightarrow> Disabled
      | Fault x \<Rightarrow> Fault x)"

fun_cases exec_ConsE: "exec step (e # es) s = Next t"

lemma exec_append:
  "exec step (es @ fs) s =
     (case exec step es s of
        Next s' \<Rightarrow> exec step fs s'
      | Disabled \<Rightarrow> Disabled
      | Fault x \<Rightarrow> Fault x)"
  by (induction es arbitrary: s) (auto split: outcome.splits)

lemma exec_snoc_Next:
  "exec step (es @ [e]) s = Next t \<longleftrightarrow> (\<exists>u. exec step es s = Next u \<and> step e u = Next t)"
  by (auto simp: exec_append split: outcome.splits)

text \<open>\<open>lands_in P r\<close>: the step is not a failure, and if it happens it leads to a state of \<open>P\<close>.\<close>

fun lands_in :: "('s \<Rightarrow> bool) \<Rightarrow> 's outcome \<Rightarrow> bool" where
  "lands_in P (Next s) \<longleftrightarrow> P s"
| "lands_in P Disabled \<longleftrightarrow> True"
| "lands_in P (Fault x) \<longleftrightarrow> False"

lemma lands_in_mono: "lands_in P r \<Longrightarrow> (\<And>s. r = Next s \<Longrightarrow> P s \<Longrightarrow> Q s) \<Longrightarrow> lands_in Q r"
  by (cases r) auto

subsection \<open>Runs that avoid an event\<close>

text \<open>
  Some contracts bind the caller: an event must not happen in a certain state. \<open>avoids step bad es s\<close>:
  the run \<open>es\<close> from \<open>s\<close> makes no step that is \<open>bad\<close> where it is made. The steps themselves stay those
  of the code; \<open>barring step bad\<close>, the machine without the bad steps, has the same runs as long as they
  are avoided, so that an invariant of it serves the runs of the code.
\<close>

fun avoids :: "('ev \<Rightarrow> 's \<Rightarrow> 's outcome) \<Rightarrow> ('ev \<Rightarrow> 's \<Rightarrow> bool) \<Rightarrow> 'ev list \<Rightarrow> 's \<Rightarrow> bool" where
  "avoids step bad [] s \<longleftrightarrow> True"
| "avoids step bad (e # es) s \<longleftrightarrow>
     \<not> bad e s \<and> (case step e s of Next s' \<Rightarrow> avoids step bad es s' | Disabled \<Rightarrow> True | Fault x \<Rightarrow> True)"

definition barring :: "('ev \<Rightarrow> 's \<Rightarrow> 'r outcome) \<Rightarrow> ('ev \<Rightarrow> 's \<Rightarrow> bool) \<Rightarrow> 'ev \<Rightarrow> 's \<Rightarrow> 'r outcome" where
  "barring step bad e s = (if bad e s then Disabled else step e s)"

lemma barring_Next: "barring step bad e s = Next t \<longleftrightarrow> \<not> bad e s \<and> step e s = Next t"
  by (simp add: barring_def)

lemma barring_ok [simp]: "\<not> bad e s \<Longrightarrow> barring step bad e s = step e s"
  by (simp add: barring_def)

lemma exec_barring: "avoids step bad es s \<Longrightarrow> exec (barring step bad) es s = exec step es s"
  by (induction es arbitrary: s) (auto split: outcome.splits)

lemma avoids_append:
  "avoids step bad (es @ fs) s \<longleftrightarrow>
     avoids step bad es s \<and> (case exec step es s of Next t \<Rightarrow> avoids step bad fs t | Disabled \<Rightarrow> True | Fault x \<Rightarrow> True)"
  by (induction es arbitrary: s) (auto split: outcome.splits)

subsection \<open>The contracts of a machine\<close>

text \<open>
  \<open>counted_machine\<close>: an invariant that may depend on the number of steps already made, for runs
  below a bound. It is the form for components whose machine integers must not wrap around:
  \<open>inv n s\<close> bounds them by \<open>n\<close>.
\<close>

locale counted_machine =
  fixes step :: "'ev \<Rightarrow> 's \<Rightarrow> 's outcome"
    and init :: 's
    and inv :: "nat \<Rightarrow> 's \<Rightarrow> bool"
    and bound :: nat
  assumes cm_init: "inv 0 init"
    and cm_step: "inv n s \<Longrightarrow> n < bound \<Longrightarrow> step e s = Next t \<Longrightarrow> inv (Suc n) t"
    and cm_no_fault: "inv n s \<Longrightarrow> n < bound \<Longrightarrow> step e s \<noteq> Fault x"
begin

lemma cm_exec_inv_from:
  "exec step es s = Next t \<Longrightarrow> inv n s \<Longrightarrow> n + length es \<le> bound \<Longrightarrow> inv (n + length es) t"
proof (induction es arbitrary: s n)
  case Nil
  then show ?case by simp
next
  case (Cons e es)
  from Cons.prems(1) obtain u where u: "step e s = Next u" "exec step es u = Next t"
    by (auto split: outcome.splits)
  with Cons.prems have "inv (Suc n) u" by (intro cm_step [OF Cons.prems(2) _ u(1)]) simp
  from Cons.IH [OF u(2) this] Cons.prems(3) show ?case by simp
qed

lemma cm_exec_inv: "exec step es init = Next t \<Longrightarrow> length es \<le> bound \<Longrightarrow> inv (length es) t"
  using cm_exec_inv_from [of es init t 0] cm_init by simp

lemma cm_exec_no_fault_from:
  "inv n s \<Longrightarrow> n + length es \<le> bound \<Longrightarrow> exec step es s \<noteq> Fault x"
proof (induction es arbitrary: s n)
  case Nil
  then show ?case by simp
next
  case (Cons e es)
  then have "step e s \<noteq> Fault x" by (intro cm_no_fault) auto
  moreover have "exec step es u \<noteq> Fault x" if "step e s = Next u" for u
    using Cons.IH [of "Suc n" u] cm_step [OF Cons.prems(1) _ that] Cons.prems(2) by simp
  ultimately show ?case by (auto split: outcome.splits)
qed

lemma cm_exec_no_fault: "length es \<le> bound \<Longrightarrow> exec step es init \<noteq> Fault x"
  using cm_exec_no_fault_from [of 0 init es x] cm_init by simp

end

text \<open>\<open>guarded_machine\<close>: an inductive invariant that holds for runs of any length.\<close>

locale guarded_machine =
  fixes step :: "'ev \<Rightarrow> 's \<Rightarrow> 's outcome"
    and init :: 's
    and inv :: "'s \<Rightarrow> bool"
  assumes gm_init: "inv init"
    and gm_step: "inv s \<Longrightarrow> step e s = Next t \<Longrightarrow> inv t"
    and gm_no_fault: "inv s \<Longrightarrow> step e s \<noteq> Fault x"
begin

lemma gm_counted: "counted_machine step init (\<lambda>_. inv) n"
  by unfold_locales (use gm_init gm_step gm_no_fault in blast)+

lemma gm_exec_inv: "exec step es init = Next t \<Longrightarrow> inv t"
  using counted_machine.cm_exec_inv [OF gm_counted [of "length es"], of es t] by simp

lemma gm_exec_no_fault: "exec step es init \<noteq> Fault x"
  using counted_machine.cm_exec_no_fault [OF gm_counted [of "length es"], of es x] by simp

end

lemma counted_machineI:
  fixes inv :: "nat \<Rightarrow> 's \<Rightarrow> bool"
  assumes "inv 0 init" and step: "\<And>n s e. inv n s \<Longrightarrow> n < bound \<Longrightarrow> lands_in (inv (Suc n)) (step e s)"
  shows "counted_machine step init inv bound"
proof
  fix n s e t assume "inv n s" "n < bound" "step e s = Next t"
  with step [of n s e] show "inv (Suc n) t" by simp
next
  fix n s e x assume "inv n s" "n < bound"
  with step [of n s e] show "step e s \<noteq> Fault x" by auto
qed (rule assms)

lemma guarded_machineI:
  fixes inv :: "'s \<Rightarrow> bool"
  assumes "inv init" and step: "\<And>s e. inv s \<Longrightarrow> lands_in inv (step e s)"
  shows "guarded_machine step init inv"
proof
  fix s e t assume "inv s" "step e s = Next t"
  with step [of s e] show "inv t" by simp
next
  fix s e x assume "inv s"
  with step [of s e] show "step e s \<noteq> Fault x" by auto
qed (rule assms)

text \<open>
  \<open>machine_refinement\<close>: every step of a machine is, seen through \<open>abs\<close>, a step of an abstract machine
  or no change; so every run is a run of the abstract machine.
\<close>

locale machine_refinement = counted_machine step init inv bound
  for step :: "'ev \<Rightarrow> 's \<Rightarrow> 's outcome" and init :: 's and inv :: "nat \<Rightarrow> 's \<Rightarrow> bool" and bound :: nat +
  fixes astep :: "'aev \<Rightarrow> 'a \<Rightarrow> 'a outcome"
    and abs :: "'s \<Rightarrow> 'a"
  assumes mr_step: "inv n s \<Longrightarrow> n < bound \<Longrightarrow> step e s = Next t \<Longrightarrow>
      abs t = abs s \<or> (\<exists>a. astep a (abs s) = Next (abs t))"
begin

lemma mr_exec_from:
  "exec step es s = Next t \<Longrightarrow> inv n s \<Longrightarrow> n + length es \<le> bound \<Longrightarrow>
    \<exists>as. exec astep as (abs s) = Next (abs t)"
proof (induction es arbitrary: s n)
  case Nil
  then have "exec astep [] (abs s) = Next (abs t)" by simp
  then show ?case by blast
next
  case (Cons e es)
  then obtain u where u: "step e s = Next u" "exec step es u = Next t"
    by (auto split: outcome.splits)
  have n: "n < bound" "Suc n + length es \<le> bound" using Cons.prems(3) by simp_all
  with Cons.prems(2) u(1) have "inv (Suc n) u" by (blast intro: cm_step)
  with Cons.IH u(2) n(2) obtain as where as: "exec astep as (abs u) = Next (abs t)" by blast
  from mr_step [OF Cons.prems(2) n(1) u(1)] show ?case
  proof
    assume "abs u = abs s"
    with as show ?thesis by metis
  next
    assume "\<exists>a. astep a (abs s) = Next (abs u)"
    then obtain a where "astep a (abs s) = Next (abs u)" by blast
    with as have "exec astep (a # as) (abs s) = Next (abs t)" by simp
    then show ?thesis by blast
  qed
qed

lemma mr_exec:
  "exec step es init = Next t \<Longrightarrow> length es \<le> bound \<Longrightarrow> \<exists>as. exec astep as (abs init) = Next (abs t)"
  using mr_exec_from [OF _ cm_init] by simp

end

subsection \<open>Atomics of the standard library\<close>

text \<open>
  Each operation takes the value of the cell and returns the result and the new value.
  \<open>compare_exchange\<close> returns success, the new value of the cell and the new value of
  \<open>expected\<close>; the weak form may fail although the cell holds the expected value, which is the
  flag \<open>spurious\<close> chosen by the environment.
\<close>

definition atomic_cas_strong :: "'v \<Rightarrow> 'v \<Rightarrow> 'v \<Rightarrow> bool \<times> 'v \<times> 'v" where
  "atomic_cas_strong cell expected desired =
     (if cell = expected then (True, desired, expected) else (False, cell, cell))"

definition atomic_cas_weak :: "bool \<Rightarrow> 'v \<Rightarrow> 'v \<Rightarrow> 'v \<Rightarrow> bool \<times> 'v \<times> 'v" where
  "atomic_cas_weak spurious cell expected desired =
     (if cell = expected \<and> \<not> spurious then (True, desired, expected) else (False, cell, cell))"

definition atomic_exchange :: "'v \<Rightarrow> 'v \<Rightarrow> 'v \<times> 'v" where
  "atomic_exchange cell desired = (cell, desired)"

definition atomic_fetch_add :: "('w::len) word \<Rightarrow> 'w word \<Rightarrow> 'w word \<times> 'w word" where
  "atomic_fetch_add cell n = (cell, cell + n)"

definition atomic_fetch_sub :: "('w::len) word \<Rightarrow> 'w word \<Rightarrow> 'w word \<times> 'w word" where
  "atomic_fetch_sub cell n = (cell, cell - n)"

lemmas [atomic_simps] =
  atomic_cas_strong_def atomic_cas_weak_def atomic_exchange_def
  atomic_fetch_add_def atomic_fetch_sub_def

subsection \<open>Counters at their width\<close>

text \<open>
  A \<open>size_t\<close> counter that only a bounded number of steps has touched represents an integer of
  small absolute value; these rules read it.
\<close>

lemma counter_zero_iff: "- (2 ^ 63) < k \<Longrightarrow> k < 2 ^ 63 \<Longrightarrow> (word_of_int k :: u64) = 0 \<longleftrightarrow> k = 0"
  by (auto simp: word_of_int_eq_0_iff)

lemma counter_less_iff:
  "0 \<le> k \<Longrightarrow> k < 2 ^ 63 \<Longrightarrow> d < 2 ^ 63 \<Longrightarrow> (of_nat d :: u64) < word_of_int k \<longleftrightarrow> int d < k"
  by (simp add: word_less_def uint_word_of_int unsigned_of_nat take_bit_nat_eq_self take_bit_int_eq_self)

lemma refs_zero_iff: "m < 2 ^ 64 \<Longrightarrow> (of_nat m :: u64) = 0 \<longleftrightarrow> m = 0"
  by (auto simp: word_of_nat_eq_0_iff dest: nat_dvd_not_less)

lemma refs_one_iff: "m < 2 ^ 64 \<Longrightarrow> (of_nat m :: u64) = 1 \<longleftrightarrow> m = 1"
  by (simp add: word_unat_eq_iff unsigned_of_nat take_bit_nat_eq_self)

subsection \<open>Facts on lists\<close>

lemma concat_snoc [simp]: "concat (xss @ [xs]) = concat xss @ xs"
  by simp

lemma distinct_snoc [simp]: "distinct (xs @ [x]) \<longleftrightarrow> distinct xs \<and> x \<notin> set xs"
  by auto

end
