(* ===== verification/Intrusive_List.thy ===== *)
theory Intrusive_List
  imports Prelude
begin

section \<open>Intrusive lists\<close>

text \<open>
  The code links its nodes (tasks, waiting fibers) through a \<open>next_\<close> field inside the node and
  keeps them in \<open>wheels::IntrusiveForwardList\<close>, a class of the third-party package
  \<open>wheels\<close> that the repository does not contain. The class is therefore a parameter of the model:
  a record of its operations (\<open>intrusive\<close>), and the laws its clients rely on as the locale
  \<open>intrusive_list\<close>. A node is an address, \<open>0\<close> is \<open>nullptr\<close>, and the \<open>next_\<close> fields of all nodes are
  one map \<open>links\<close>. A list operation may write the links of the nodes it holds and of its argument,
  and of no other node.
\<close>

named_theorems chain_simps \<open>rules on chains of links\<close>

subsection \<open>Chains: what a walk from a node finds\<close>

primrec chain :: "links \<Rightarrow> addr \<Rightarrow> addr list \<Rightarrow> bool" where
  "chain h a [] \<longleftrightarrow> a = 0"
| "chain h a (x # xs) \<longleftrightarrow> a = x \<and> x \<noteq> 0 \<and> chain h (h x) xs"

lemma chain_null [simp]: "chain h 0 xs \<longleftrightarrow> xs = []"
  by (cases xs) auto

lemma chain_start: "chain h a xs \<Longrightarrow> a \<noteq> 0 \<Longrightarrow> \<exists>ys. xs = a # ys \<and> chain h (h a) ys"
  by (cases xs) auto

lemma chain_not_null: "chain h a xs \<Longrightarrow> 0 \<notin> set xs"
  by (induction xs arbitrary: a) auto

lemma chain_empty_iff: "chain h a xs \<Longrightarrow> xs = [] \<longleftrightarrow> a = 0"
  by (cases xs) auto

lemma chain_unique: "chain h a xs \<Longrightarrow> chain h a ys \<Longrightarrow> xs = ys"
proof (induction xs arbitrary: a ys)
  case Nil
  then show ?case by simp
next
  case (Cons x xs)
  then show ?case by (cases ys) auto
qed

lemma chain_cong: "(\<And>a. a \<in> set xs \<Longrightarrow> h' a = h a) \<Longrightarrow> chain h' p xs \<longleftrightarrow> chain h p xs"
  by (induction xs arbitrary: p) auto

lemma chain_frame [simp, chain_simps]: "y \<notin> set xs \<Longrightarrow> chain (h(y := z)) a xs \<longleftrightarrow> chain h a xs"
  by (rule chain_cong) auto

lemma chain_suffix: "chain h a (xs @ y # ys) \<Longrightarrow> chain h y (y # ys)"
  by (induction xs arbitrary: a) auto

lemma chain_distinct: "chain h a xs \<Longrightarrow> distinct xs"
proof (induction xs arbitrary: a)
  case Nil
  then show ?case by simp
next
  case (Cons x xs)
  have "x \<notin> set xs"
  proof
    assume "x \<in> set xs"
    then obtain ys zs where xs: "xs = ys @ x # zs" by (blast dest: split_list)
    with Cons.prems have "chain h x (x # zs)" by (auto dest: chain_suffix)
    moreover from Cons.prems have "chain h x (x # xs)" by simp
    ultimately have "x # zs = x # xs" by (rule chain_unique)
    with xs show False by simp
  qed
  with Cons show ?case by auto
qed

lemma chain_push [chain_simps]:
  "chain h a xs \<Longrightarrow> y \<noteq> 0 \<Longrightarrow> y \<notin> set xs \<Longrightarrow> chain (h(y := a)) y (y # xs)"
  by simp

lemma chain_extend:
  "chain h a xs \<Longrightarrow> xs \<noteq> [] \<Longrightarrow> y \<noteq> 0 \<Longrightarrow> y \<notin> set xs \<Longrightarrow> chain (h(last xs := y, y := 0)) a (xs @ [y])"
proof (induction xs arbitrary: a)
  case Nil
  then show ?case by simp
next
  case (Cons x xs)
  show ?case
  proof (cases "xs = []")
    case True
    with Cons.prems show ?thesis by auto
  next
    case False
    from Cons.prems(1) have "x \<notin> set xs" using chain_distinct [of h a "x # xs"] by simp
    with False have "x \<noteq> last xs" by (metis last_in_set)
    with False Cons show ?thesis by auto
  qed
qed

subsection \<open>The operations of the list class, and their laws\<close>

record 'l intrusive =
  il_next :: "links \<Rightarrow> addr \<Rightarrow> addr"
  il_set_next :: "links \<Rightarrow> addr \<Rightarrow> addr \<Rightarrow> links"
  il_reset_next :: "links \<Rightarrow> addr \<Rightarrow> links"
  il_new :: 'l
  il_push_back :: "links \<Rightarrow> 'l \<Rightarrow> addr \<Rightarrow> links \<times> 'l"
  il_push_front :: "links \<Rightarrow> 'l \<Rightarrow> addr \<Rightarrow> links \<times> 'l"
  il_pop_front :: "links \<Rightarrow> 'l \<Rightarrow> addr \<times> links \<times> 'l"
  il_has_items :: "'l \<Rightarrow> bool"
  il_is_empty :: "'l \<Rightarrow> bool"
  il_size :: "'l \<Rightarrow> nat"

text \<open>\<open>rep h l xs\<close>: under the links \<open>h\<close>, the list object \<open>l\<close> holds the nodes \<open>xs\<close>, front first.\<close>

locale intrusive_list =
  fixes L :: "'l intrusive"
    and rep :: "links \<Rightarrow> 'l \<Rightarrow> addr list \<Rightarrow> bool"
  assumes next_law [simp]: "il_next L h n = h n"
    and set_next_law [simp]: "il_set_next L h n m = h(n := m)"
    and reset_next_law [simp]: "il_reset_next L h n = h(n := 0)"
    and rep_new: "rep h (il_new L) []"
    and rep_nodes: "rep h l xs \<Longrightarrow> distinct xs \<and> 0 \<notin> set xs"
    and rep_frame: "rep h l xs \<Longrightarrow> (\<And>a. a \<in> set xs \<Longrightarrow> h' a = h a) \<Longrightarrow> rep h' l xs"
    and rep_has_items: "rep h l xs \<Longrightarrow> il_has_items L l \<longleftrightarrow> xs \<noteq> []"
    and rep_is_empty: "rep h l xs \<Longrightarrow> il_is_empty L l \<longleftrightarrow> xs = []"
    and rep_size: "rep h l xs \<Longrightarrow> il_size L l = length xs"
    and rep_push_back: "rep h l xs \<Longrightarrow> n \<noteq> 0 \<Longrightarrow> n \<notin> set xs \<Longrightarrow> il_push_back L h l n = (h', l') \<Longrightarrow>
          rep h' l' (xs @ [n]) \<and> (\<forall>a. a \<notin> set (n # xs) \<longrightarrow> h' a = h a)"
    and rep_push_front: "rep h l xs \<Longrightarrow> n \<noteq> 0 \<Longrightarrow> n \<notin> set xs \<Longrightarrow> il_push_front L h l n = (h', l') \<Longrightarrow>
          rep h' l' (n # xs) \<and> (\<forall>a. a \<notin> set (n # xs) \<longrightarrow> h' a = h a)"
    and rep_pop_front: "rep h l (x # xs) \<Longrightarrow> il_pop_front L h l = (n, h', l') \<Longrightarrow>
          n = x \<and> rep h' l' xs \<and> (\<forall>a. a \<notin> set (x # xs) \<longrightarrow> h' a = h a)"
begin

lemma rep_frame_upd: "rep h l xs \<Longrightarrow> n \<notin> set xs \<Longrightarrow> rep (h(n := m)) l xs"
  by (erule rep_frame) auto

lemma push_back_ex:
  assumes "rep h l xs" "n \<noteq> 0" "n \<notin> set xs"
  shows "\<exists>h' l'. il_push_back L h l n = (h', l') \<and> rep h' l' (xs @ [n]) \<and>
    (\<forall>a. a \<notin> set (n # xs) \<longrightarrow> h' a = h a)"
  using rep_push_back [OF assms] by (cases "il_push_back L h l n") auto

lemma push_front_ex:
  assumes "rep h l xs" "n \<noteq> 0" "n \<notin> set xs"
  shows "\<exists>h' l'. il_push_front L h l n = (h', l') \<and> rep h' l' (n # xs) \<and>
    (\<forall>a. a \<notin> set (n # xs) \<longrightarrow> h' a = h a)"
  using rep_push_front [OF assms] by (cases "il_push_front L h l n") auto

lemma pop_front_ex:
  assumes "rep h l (x # xs)"
  shows "\<exists>h' l'. il_pop_front L h l = (x, h', l') \<and> rep h' l' xs \<and>
    (\<forall>a. a \<notin> set (x # xs) \<longrightarrow> h' a = h a)"
  using rep_pop_front [OF assms] by (cases "il_pop_front L h l") auto

end

subsection \<open>Walking a chain of nodes\<close>

text \<open>
  The loop of \<open>ConsumeAll\<close>, \<open>AppendToList\<close> and \<open>CreateWaiterList\<close>: read the next link, hand the
  node to \<open>func\<close>, go on with the link read before. \<open>func\<close> may overwrite the node's link, so the
  order of the two reads and writes matters. \<open>None\<close> is a walk that does not end.
\<close>

partial_function (option) walk ::
    "'l intrusive \<Rightarrow> (links \<times> 'x \<Rightarrow> addr \<Rightarrow> links \<times> 'x) \<Rightarrow> addr \<Rightarrow> links \<times> 'x \<Rightarrow> (links \<times> 'x) option" where
  "walk L func current st =
     (if current = 0 then Some st
      else let next = il_next L (fst st) current in walk L func next (func st current))"

lemma walk_null [simp]: "walk L func 0 st = Some st"
  by (simp add: walk.simps)

lemma walk_node: "n \<noteq> 0 \<Longrightarrow> walk L func n st = walk L func (il_next L (fst st) n) (func st n)"
  by (subst walk.simps) (simp add: Let_def)

definition push_back_item :: "'l intrusive \<Rightarrow> links \<times> 'l \<Rightarrow> addr \<Rightarrow> links \<times> 'l" where
  "push_back_item L st n = il_push_back L (fst st) (snd st) n"

definition push_front_item :: "'l intrusive \<Rightarrow> links \<times> 'l \<Rightarrow> addr \<Rightarrow> links \<times> 'l" where
  "push_front_item L st n = il_push_front L (fst st) (snd st) n"

context intrusive_list
begin

lemma walk_push_back:
  "chain h cur xs \<Longrightarrow> rep h l ys \<Longrightarrow> set xs \<inter> set ys = {} \<Longrightarrow>
    \<exists>h' l'. walk L (push_back_item L) cur (h, l) = Some (h', l') \<and> rep h' l' (ys @ xs) \<and>
      (\<forall>a. a \<notin> set (ys @ xs) \<longrightarrow> h' a = h a)"
proof (induction xs arbitrary: h cur l ys)
  case Nil
  then show ?case by auto
next
  case (Cons x xs)
  then have cur: "cur = x" "x \<noteq> 0" "chain h (h x) xs" "x \<notin> set ys" by auto
  have x: "x \<notin> set xs" using chain_distinct [OF Cons.prems(1)] by simp
  obtain h1 l1 where p: "il_push_back L h l x = (h1, l1)" "rep h1 l1 (ys @ [x])"
      "\<forall>a. a \<notin> set (x # ys) \<longrightarrow> h1 a = h a"
    using push_back_ex [OF Cons.prems(2) cur(2,4)] by blast
  have c: "chain h1 (h x) xs"
    using p(3) x Cons.prems(3) cur(3) by (subst chain_cong [where h = h]) auto
  have "set xs \<inter> set (ys @ [x]) = {}" using Cons.prems(3) x by auto
  from Cons.IH [OF c p(2) this] obtain h2 l2
    where w: "walk L (push_back_item L) (h x) (h1, l1) = Some (h2, l2)" "rep h2 l2 ((ys @ [x]) @ xs)"
      "\<forall>a. a \<notin> set ((ys @ [x]) @ xs) \<longrightarrow> h2 a = h1 a" by blast
  have "walk L (push_back_item L) cur (h, l) = Some (h2, l2)"
    using cur p(1) w(1) by (simp add: walk_node push_back_item_def)
  moreover have "\<forall>a. a \<notin> set (ys @ x # xs) \<longrightarrow> h2 a = h a" using w(3) p(3) by auto
  ultimately show ?case using w(2) by auto
qed

lemma walk_push_front:
  "chain h cur xs \<Longrightarrow> rep h l ys \<Longrightarrow> set xs \<inter> set ys = {} \<Longrightarrow>
    \<exists>h' l'. walk L (push_front_item L) cur (h, l) = Some (h', l') \<and> rep h' l' (rev xs @ ys) \<and>
      (\<forall>a. a \<notin> set (xs @ ys) \<longrightarrow> h' a = h a)"
proof (induction xs arbitrary: h cur l ys)
  case Nil
  then show ?case by auto
next
  case (Cons x xs)
  then have cur: "cur = x" "x \<noteq> 0" "chain h (h x) xs" "x \<notin> set ys" by auto
  have x: "x \<notin> set xs" using chain_distinct [OF Cons.prems(1)] by simp
  obtain h1 l1 where p: "il_push_front L h l x = (h1, l1)" "rep h1 l1 (x # ys)"
      "\<forall>a. a \<notin> set (x # ys) \<longrightarrow> h1 a = h a"
    using push_front_ex [OF Cons.prems(2) cur(2,4)] by blast
  have c: "chain h1 (h x) xs"
    using p(3) x Cons.prems(3) cur(3) by (subst chain_cong [where h = h]) auto
  have "set xs \<inter> set (x # ys) = {}" using Cons.prems(3) x by auto
  from Cons.IH [OF c p(2) this] obtain h2 l2
    where w: "walk L (push_front_item L) (h x) (h1, l1) = Some (h2, l2)" "rep h2 l2 (rev xs @ x # ys)"
      "\<forall>a. a \<notin> set (xs @ x # ys) \<longrightarrow> h2 a = h1 a" by blast
  have "walk L (push_front_item L) cur (h, l) = Some (h2, l2)"
    using cur p(1) w(1) by (simp add: walk_node push_front_item_def)
  moreover have "\<forall>a. a \<notin> set ((x # xs) @ ys) \<longrightarrow> h2 a = h a" using w(3) p(3) by auto
  ultimately show ?case using w(2) by auto
qed

end

text \<open>
  The loop \<open>while (list.HasItems()) func(list.PopFront())\<close>: the nodes in the order they are popped, and
  the emptied list.
\<close>

partial_function (option) drain :: "'l intrusive \<Rightarrow> links \<times> 'l \<Rightarrow> (addr list \<times> links \<times> 'l) option" where
  "drain L st =
     (if \<not> il_has_items L (snd st) then Some ([], st)
      else let (n, st') = il_pop_front L (fst st) (snd st) in
        Option.bind (drain L st') (\<lambda>(ns, st''). Some (n # ns, st'')))"

context intrusive_list
begin

lemma drain_all:
  "rep h l xs \<Longrightarrow> \<exists>h' l'. drain L (h, l) = Some (xs, h', l') \<and> rep h' l' [] \<and>
     (\<forall>a. a \<notin> set xs \<longrightarrow> h' a = h a)"
proof (induction xs arbitrary: h l)
  case Nil
  then show ?case by (subst drain.simps) (auto simp: rep_has_items)
next
  case (Cons x xs)
  obtain h1 l1 where p: "il_pop_front L h l = (x, h1, l1)" "rep h1 l1 xs"
      "\<forall>a. a \<notin> set (x # xs) \<longrightarrow> h1 a = h a"
    using pop_front_ex [OF Cons.prems] by blast
  from Cons.IH [OF p(2)] obtain h2 l2 where d: "drain L (h1, l1) = Some (xs, h2, l2)" "rep h2 l2 []"
      "\<forall>a. a \<notin> set xs \<longrightarrow> h2 a = h1 a" by blast
  have "drain L (h, l) = Some (x # xs, h2, l2)"
    using rep_has_items [OF Cons.prems] p(1) d(1) by (subst drain.simps) simp
  with d p(3) show ?case by auto
qed

end

subsection \<open>A list of the contract: head and tail pointers\<close>

text \<open>
  An instance of the contract that links its nodes through \<open>links\<close>, as an intrusive list does. It
  shows that the laws can be met, and it is what the witnesses of the library run on.
\<close>

type_synonym ptr_list_object = "addr \<times> addr \<times> nat"

definition ptr_list :: "ptr_list_object intrusive" where
  "ptr_list = \<lparr>
     il_next = (\<lambda>h n. h n),
     il_set_next = (\<lambda>h n m. h(n := m)),
     il_reset_next = (\<lambda>h n. h(n := 0)),
     il_new = (0, 0, 0),
     il_push_back = (\<lambda>h (p, q, k) n.
        if p = 0 then (h(n := 0), (n, n, 1)) else (h(q := n, n := 0), (p, n, Suc k))),
     il_push_front = (\<lambda>h (p, q, k) n. (h(n := p), (n, if p = 0 then n else q, Suc k))),
     il_pop_front = (\<lambda>h (p, q, k). (p, h, (h p, q, k - 1))),
     il_has_items = (\<lambda>(p, q, k). p \<noteq> 0),
     il_is_empty = (\<lambda>(p, q, k). p = 0),
     il_size = (\<lambda>(p, q, k). k)\<rparr>"

fun ptr_rep :: "links \<Rightarrow> ptr_list_object \<Rightarrow> addr list \<Rightarrow> bool" where
  "ptr_rep h (p, q, k) xs \<longleftrightarrow> chain h p xs \<and> (xs \<noteq> [] \<longrightarrow> q = last xs) \<and> k = length xs"

lemma ptr_rep_push_back:
  assumes "ptr_rep h l xs" "n \<noteq> 0" "n \<notin> set xs" "il_push_back ptr_list h l n = (h', l')"
  shows "ptr_rep h' l' (xs @ [n]) \<and> (\<forall>a. a \<notin> set (n # xs) \<longrightarrow> h' a = h a)"
proof -
  obtain p q k where l: "l = (p, q, k)" by (cases l)
  show ?thesis
  proof (cases "xs = []")
    case True
    with assms l show ?thesis by (auto simp: ptr_list_def)
  next
    case False
    with assms(1) l have c: "chain h p xs" "q = last xs" "p \<noteq> 0" "k = length xs"
      by (auto simp: chain_empty_iff)
    from chain_extend [OF c(1) False assms(2,3)] assms(4) l c False show ?thesis
      by (auto simp: ptr_list_def)
  qed
qed

interpretation ptr: intrusive_list ptr_list ptr_rep
proof unfold_locales
  fix h l xs and h' :: links
  assume "ptr_rep h l xs" and eq: "\<And>a. a \<in> set xs \<Longrightarrow> h' a = h a"
  then show "ptr_rep h' l xs" using chain_cong [of xs h' h] by (cases l) auto
next
  fix h l xs n h' l'
  assume "ptr_rep h l xs" "n \<noteq> 0" "n \<notin> set xs" "il_push_back ptr_list h l n = (h', l')"
  then show "ptr_rep h' l' (xs @ [n]) \<and> (\<forall>a. a \<notin> set (n # xs) \<longrightarrow> h' a = h a)"
    by (rule ptr_rep_push_back)
qed (auto simp: ptr_list_def chain_empty_iff chain_not_null chain_distinct chain_push split: if_splits)

text \<open>What evaluates a run on this instance.\<close>

lemmas ptr_run_simps =
  atomic_simps ptr_list_def walk_node push_back_item_def push_front_item_def

end
