(* ===== verification/Fiber_Mutex.thy ===== *)
theory Fiber_Mutex
  imports Intrusive_List
begin

section \<open>The lock-free mutex of the fibers\<close>

text \<open>
  \<open>fibers/sync/mutex.h\<close>. One word \<open>state_\<close> is \<open>0\<close> (unlocked), \<open>1\<close> (locked, no new waiters) or the
  address of the most recent waiter, whose \<open>next_\<close> leads to the earlier ones. The owner keeps a
  private list \<open>waiters_\<close> of waiters it has already taken from that word.

  A fiber moves by events. \<open>mx_handle\<close> holds the \<open>Locker\<close> objects that are alive (they live on the
  stacks of the waiting fibers) with their \<open>handle_\<close>; a \<open>Locker\<close> is created at an address the
  environment chooses among those not in use, and is never at \<open>0\<close> or \<open>1\<close> (objects are aligned).
  Handing the lock over (\<open>Unlocker\<close>: schedule myself, run the next fiber at once) makes the next
  fiber the owner and ends its \<open>Locker\<close>.
\<close>

definition mx_unlocked :: u64 where "mx_unlocked = 0"
definition mx_locked_no_waiters :: u64 where "mx_locked_no_waiters = 1"

datatype mutex_pc =
    MxIdle
  | MxLoad addr            \<comment> \<open>\<open>TryLockOrEnqueue\<close>: about to load \<open>state_\<close>\<close>
  | MxTryLock addr         \<comment> \<open>it has seen \<open>Unlocked\<close>: about to call \<open>TryLock\<close>\<close>
  | MxEnqueue addr u64     \<comment> \<open>it has seen a locked state and linked the node: about to exchange\<close>
  | MxParked addr
  | MxOwner
  | MxRelLoad              \<comment> \<open>\<open>Release\<close>: about to load \<open>state_\<close>\<close>
  | MxRelUnlock            \<comment> \<open>it has seen \<open>LockedNoWaiters\<close>: about to exchange for \<open>Unlocked\<close>\<close>
  | MxRelTake              \<comment> \<open>it has seen waiters: about to take them\<close>

record 'l mutex =
  mx_state :: u64
  mx_waiters :: 'l
  mx_links :: links
  mx_handle :: "addr \<Rightarrow> tid option"
  mx_pc :: "tid \<Rightarrow> mutex_pc"

datatype mutex_event = MxEvTryLock tid | MxEvLock tid addr | MxEvUnlock tid | MxEvRun tid

definition mutex_init :: "'l intrusive \<Rightarrow> 'l mutex" where
  "mutex_init L = \<lparr>mx_state = mx_unlocked, mx_waiters = il_new L, mx_links = (\<lambda>_. 0),
     mx_handle = (\<lambda>_. None), mx_pc = (\<lambda>_. MxIdle)\<rparr>"

subsection \<open>The operations\<close>

definition mx_goto :: "tid \<Rightarrow> mutex_pc \<Rightarrow> 'l mutex \<Rightarrow> 'l mutex" where
  "mx_goto t p s = s\<lparr>mx_pc := (mx_pc s)(t := p)\<rparr>"

definition mx_try_lock :: "'l mutex \<Rightarrow> bool \<times> 'l mutex" where
  "mx_try_lock s =
     (let (ok, st, _) = atomic_cas_strong (mx_state s) mx_unlocked mx_locked_no_waiters
      in (ok, s\<lparr>mx_state := st\<rparr>))"

definition mx_lock :: "tid \<Rightarrow> addr \<Rightarrow> 'l mutex \<Rightarrow> 'l mutex outcome" where
  "mx_lock t n s =
     (if mx_pc s t \<noteq> MxIdle \<or> n = 0 \<or> n = 1 \<or> mx_handle s n \<noteq> None then Disabled
      else let (ok, s1) = mx_try_lock s in
        if ok then Next (mx_goto t MxOwner s1)
        else Next (mx_goto t (MxLoad n) (s1\<lparr>mx_handle := (mx_handle s1)(n := Some t)\<rparr>)))"

definition mx_try_lock_or_enqueue :: "'l intrusive \<Rightarrow> tid \<Rightarrow> 'l mutex \<Rightarrow> 'l mutex outcome" where
  "mx_try_lock_or_enqueue L t s =
     (case mx_pc s t of
        MxLoad n \<Rightarrow>
          (let state = mx_state s in
           if state = mx_unlocked then Next (mx_goto t (MxTryLock n) s)
           else if state = mx_locked_no_waiters
           then Next (mx_goto t (MxEnqueue n state) (s\<lparr>mx_links := il_reset_next L (mx_links s) n\<rparr>))
           else Next (mx_goto t (MxEnqueue n state) (s\<lparr>mx_links := il_set_next L (mx_links s) n state\<rparr>)))
      | MxTryLock n \<Rightarrow>
          (let (ok, s1) = mx_try_lock s in
           if ok then Next (mx_goto t MxOwner (s1\<lparr>mx_handle := (mx_handle s1)(n := None)\<rparr>))
           else Next (mx_goto t (MxLoad n) s1))
      | MxEnqueue n state \<Rightarrow>
          (let (ok, st, _) = atomic_cas_strong (mx_state s) state n; s1 = s\<lparr>mx_state := st\<rparr> in
           if ok then Next (mx_goto t (MxParked n) s1) else Next (mx_goto t (MxLoad n) s1))
      | _ \<Rightarrow> Disabled)"

definition mx_append_to_list :: "'l intrusive \<Rightarrow> addr \<Rightarrow> 'l mutex \<Rightarrow> 'l mutex outcome" where
  "mx_append_to_list L head s =
     (if \<not> il_is_empty L (mx_waiters s) then Fault (AssertFailed ''waiters_.IsEmpty()'')
      else case walk L (push_back_item L) head (mx_links s, mx_waiters s) of
        None \<Rightarrow> Fault DivergentLoop
      | Some (h, l) \<Rightarrow> Next (s\<lparr>mx_links := h, mx_waiters := l\<rparr>))"

definition mx_resume_next_waiter :: "'l intrusive \<Rightarrow> tid \<Rightarrow> 'l mutex \<Rightarrow> 'l mutex outcome" where
  "mx_resume_next_waiter L t s =
     (if \<not> il_has_items L (mx_waiters s) then Fault (AssertFailed ''waiters_.HasItems()'')
      else let (n, h, l) = il_pop_front L (mx_links s) (mx_waiters s) in
        case mx_handle s n of
          None \<Rightarrow> Fault UseAfterFree
        | Some u \<Rightarrow> Next (mx_goto u MxOwner (mx_goto t MxIdle
            (s\<lparr>mx_links := h, mx_waiters := l, mx_handle := (mx_handle s)(n := None)\<rparr>))))"

definition mx_unlock :: "'l intrusive \<Rightarrow> tid \<Rightarrow> 'l mutex \<Rightarrow> 'l mutex outcome" where
  "mx_unlock L t s =
     (if mx_pc s t \<noteq> MxOwner then Disabled
      else if il_has_items L (mx_waiters s) then mx_resume_next_waiter L t s
      else Next (mx_goto t MxRelLoad s))"

definition mx_release :: "'l intrusive \<Rightarrow> tid \<Rightarrow> 'l mutex \<Rightarrow> 'l mutex outcome" where
  "mx_release L t s =
     (case mx_pc s t of
        MxRelLoad \<Rightarrow>
          (if mx_state s = mx_locked_no_waiters then Next (mx_goto t MxRelUnlock s)
           else Next (mx_goto t MxRelTake s))
      | MxRelUnlock \<Rightarrow>
          (let (ok, st, _) = atomic_cas_strong (mx_state s) mx_locked_no_waiters mx_unlocked;
               s1 = s\<lparr>mx_state := st\<rparr> in
           if ok then Next (mx_goto t MxIdle s1) else Next (mx_goto t MxRelLoad s1))
      | MxRelTake \<Rightarrow>
          (let (head, st) = atomic_exchange (mx_state s) mx_locked_no_waiters in
           case mx_append_to_list L head (s\<lparr>mx_state := st\<rparr>) of
             Next s1 \<Rightarrow> mx_resume_next_waiter L t s1
           | Disabled \<Rightarrow> Disabled
           | Fault x \<Rightarrow> Fault x)
      | _ \<Rightarrow> Disabled)"

fun mutex_step :: "'l intrusive \<Rightarrow> mutex_event \<Rightarrow> 'l mutex \<Rightarrow> 'l mutex outcome" where
  "mutex_step L (MxEvTryLock t) s =
     (if mx_pc s t \<noteq> MxIdle then Disabled
      else let (ok, s1) = mx_try_lock s in Next (if ok then mx_goto t MxOwner s1 else s1))"
| "mutex_step L (MxEvLock t n) s = mx_lock t n s"
| "mutex_step L (MxEvUnlock t) s = mx_unlock L t s"
| "mutex_step L (MxEvRun t) s =
     (case mx_pc s t of
        MxLoad _ \<Rightarrow> mx_try_lock_or_enqueue L t s
      | MxTryLock _ \<Rightarrow> mx_try_lock_or_enqueue L t s
      | MxEnqueue _ _ \<Rightarrow> mx_try_lock_or_enqueue L t s
      | _ \<Rightarrow> mx_release L t s)"

lemmas [machine_simps] =
  mx_unlocked_def mx_locked_no_waiters_def mutex_init_def mx_goto_def mx_try_lock_def mx_lock_def
  mx_try_lock_or_enqueue_def mx_append_to_list_def mx_resume_next_waiter_def mx_unlock_def
  mx_release_def

subsection \<open>The invariant\<close>

fun mx_holds :: "mutex_pc \<Rightarrow> bool" where
  "mx_holds MxOwner = True"
| "mx_holds MxRelLoad = True"
| "mx_holds MxRelUnlock = True"
| "mx_holds MxRelTake = True"
| "mx_holds _ = False"

definition mx_top :: "u64 \<Rightarrow> addr" where
  "mx_top st = (if st = mx_locked_no_waiters then 0 else st)"

text \<open>
  \<open>xs\<close> are the waiters that \<open>state_\<close> leads to, latest first; \<open>ws\<close> are those of \<open>waiters_\<close>;
  \<open>own\<close> is the fiber that holds the lock. First what holds of one fiber, by where it is.
\<close>

definition mx_locker_alive :: "'l mutex \<Rightarrow> tid \<Rightarrow> addr \<Rightarrow> bool" where
  "mx_locker_alive s t n \<longleftrightarrow> mx_handle s n = Some t \<and> n \<noteq> 0 \<and> n \<noteq> 1"

fun mx_pc_ok :: "addr list \<Rightarrow> addr list \<Rightarrow> 'l mutex \<Rightarrow> tid \<Rightarrow> mutex_pc \<Rightarrow> bool" where
  "mx_pc_ok xs ws s t MxIdle \<longleftrightarrow> True"
| "mx_pc_ok xs ws s t MxOwner \<longleftrightarrow> True"
| "mx_pc_ok xs ws s t (MxLoad n) \<longleftrightarrow> mx_locker_alive s t n"
| "mx_pc_ok xs ws s t (MxTryLock n) \<longleftrightarrow> mx_locker_alive s t n"
| "mx_pc_ok xs ws s t (MxEnqueue n st) \<longleftrightarrow>
     mx_locker_alive s t n \<and> st \<noteq> 0 \<and> mx_links s n = mx_top st"
| "mx_pc_ok xs ws s t (MxParked n) \<longleftrightarrow> mx_locker_alive s t n \<and> n \<in> set (xs @ ws)"
| "mx_pc_ok xs ws s t MxRelLoad \<longleftrightarrow> ws = []"
| "mx_pc_ok xs ws s t MxRelUnlock \<longleftrightarrow> ws = []"
| "mx_pc_ok xs ws s t MxRelTake \<longleftrightarrow> ws = [] \<and> mx_state s \<noteq> 1"

definition mutex_inv_with ::
    "(links \<Rightarrow> 'l \<Rightarrow> addr list \<Rightarrow> bool) \<Rightarrow> tid option \<Rightarrow> addr list \<Rightarrow> addr list \<Rightarrow> 'l mutex \<Rightarrow> bool" where
  "mutex_inv_with rep own xs ws s \<longleftrightarrow>
     (\<forall>t. mx_holds (mx_pc s t) \<longleftrightarrow> own = Some t) \<and>
     (mx_state s = 0 \<longleftrightarrow> own = None) \<and>
     (own = None \<longrightarrow> ws = []) \<and>
     chain (mx_links s) (mx_top (mx_state s)) xs \<and>
     rep (mx_links s) (mx_waiters s) ws \<and>
     distinct (xs @ ws) \<and>
     (\<forall>n\<in>set (xs @ ws). \<exists>t. mx_handle s n = Some t \<and> mx_pc s t = MxParked n) \<and>
     (\<forall>t. mx_pc_ok xs ws s t (mx_pc s t))"

definition mutex_inv :: "(links \<Rightarrow> 'l \<Rightarrow> addr list \<Rightarrow> bool) \<Rightarrow> 'l mutex \<Rightarrow> bool" where
  "mutex_inv rep s \<longleftrightarrow> (\<exists>own xs ws. mutex_inv_with rep own xs ws s)"

subsection \<open>One step keeps the invariant\<close>

lemma mx_top_simps [simp]: "mx_top 0 = 0" "mx_top 1 = 0" "st \<noteq> 1 \<Longrightarrow> mx_top st = st"
  by (auto simp: mx_top_def mx_locked_no_waiters_def)

lemma mx_pc_ok_stable:
  assumes "mx_pc_ok xs ws s t p"
    and "\<And>n. mx_locker_alive s t n \<Longrightarrow> mx_handle s' n = mx_handle s n"
    and "\<And>n st. p = MxEnqueue n st \<Longrightarrow> mx_locker_alive s t n \<Longrightarrow> mx_links s' n = mx_links s n"
    and "\<And>n. p = MxParked n \<Longrightarrow> n \<in> set (xs @ ws) \<Longrightarrow> n \<in> set (xs' @ ws')"
    and "mx_holds p \<Longrightarrow> ws' = ws \<and> (mx_state s \<noteq> 1 \<longrightarrow> mx_state s' \<noteq> 1)"
  shows "mx_pc_ok xs' ws' s' t p"
  using assms by (cases p) (auto simp: mx_locker_alive_def)

lemma mxI_holds: "mutex_inv_with rep own xs ws s \<Longrightarrow> mx_holds (mx_pc s t) \<longleftrightarrow> own = Some t"
  and mxI_state: "mutex_inv_with rep own xs ws s \<Longrightarrow> mx_state s = 0 \<longleftrightarrow> own = None"
  and mxI_free: "mutex_inv_with rep own xs ws s \<Longrightarrow> own = None \<Longrightarrow> ws = []"
  and mxI_chain: "mutex_inv_with rep own xs ws s \<Longrightarrow> chain (mx_links s) (mx_top (mx_state s)) xs"
  and mxI_rep: "mutex_inv_with rep own xs ws s \<Longrightarrow> rep (mx_links s) (mx_waiters s) ws"
  and mxI_distinct: "mutex_inv_with rep own xs ws s \<Longrightarrow> distinct (xs @ ws)"
  and mxI_parked: "mutex_inv_with rep own xs ws s \<Longrightarrow> n \<in> set (xs @ ws) \<Longrightarrow>
      \<exists>t. mx_handle s n = Some t \<and> mx_pc s t = MxParked n"
  and mxI_ok: "mutex_inv_with rep own xs ws s \<Longrightarrow> mx_pc_ok xs ws s t (mx_pc s t)"
  by (simp_all add: mutex_inv_with_def)

lemma mutex_inv_moveI:
  assumes I: "mutex_inv_with rep own xs ws s"
    and pc: "mx_pc s' = (mx_pc s)(t := p)"
    and own: "mx_holds p \<longleftrightarrow> own' = Some t" "\<And>u. u \<noteq> t \<Longrightarrow> own' = Some u \<longleftrightarrow> own = Some u"
    and state: "mx_state s' = 0 \<longleftrightarrow> own' = None" "own' = None \<Longrightarrow> ws' = []"
    and lists: "chain (mx_links s') (mx_top (mx_state s')) xs'" "rep (mx_links s') (mx_waiters s') ws'"
      "distinct (xs' @ ws')"
    and t: "mx_pc_ok xs' ws' s' t p"
    and parked: "\<And>n. n \<in> set (xs' @ ws') \<Longrightarrow> n \<in> set (xs @ ws) \<or> p = MxParked n"
      "\<And>n. n \<in> set (xs @ ws) \<Longrightarrow> n \<in> set (xs' @ ws')" "\<And>n. mx_pc s t \<noteq> MxParked n"
    and handle: "\<And>u n. u \<noteq> t \<Longrightarrow> mx_locker_alive s u n \<Longrightarrow> mx_handle s' n = mx_handle s n"
    and links: "\<And>u n st. u \<noteq> t \<Longrightarrow> mx_pc s u = MxEnqueue n st \<Longrightarrow> mx_locker_alive s u n \<Longrightarrow> mx_links s' n = mx_links s n"
    and holder: "\<And>u. u \<noteq> t \<Longrightarrow> own = Some u \<Longrightarrow> ws' = ws \<and> (mx_state s \<noteq> 1 \<longrightarrow> mx_state s' \<noteq> 1)"
  shows "mutex_inv_with rep own' xs' ws' s'"
  unfolding mutex_inv_with_def
proof (intro conjI allI ballI)
  fix u show "mx_holds (mx_pc s' u) \<longleftrightarrow> own' = Some u"
    using own mxI_holds [OF I, of u] by (auto simp: pc)
next
  fix n assume n: "n \<in> set (xs' @ ws')"
  from parked(1) [OF this] show "\<exists>u. mx_handle s' n = Some u \<and> mx_pc s' u = MxParked n"
  proof
    assume "n \<in> set (xs @ ws)"
    with mxI_parked [OF I] obtain u where u: "mx_handle s n = Some u" "mx_pc s u = MxParked n" by blast
    with parked(3) have "u \<noteq> t" by auto
    moreover from u mxI_ok [OF I, of u] have "mx_locker_alive s u n" by simp
    ultimately show ?thesis using handle u pc by auto
  next
    assume "p = MxParked n"
    with t show ?thesis by (auto simp: pc mx_locker_alive_def)
  qed
next
  fix u show "mx_pc_ok xs' ws' s' u (mx_pc s' u)"
  proof (cases "u = t")
    case True
    with t show ?thesis by (simp add: pc)
  next
    case False
    have "mx_pc_ok xs' ws' s' u (mx_pc s u)"
      using mxI_holds [OF I, of u] False
      by (intro mx_pc_ok_stable [OF mxI_ok [OF I, of u]]) (use parked(2) in \<open>auto simp: handle links holder\<close>)
    with False show ?thesis by (simp add: pc)
  qed
qed (use state lists in auto)
lemma mutex_invI: "mutex_inv_with rep own xs ws s \<Longrightarrow> mutex_inv rep s"
  by (auto simp: mutex_inv_def)

context intrusive_list
begin

lemma mutex_inv_try_lock:
  assumes I: "mutex_inv_with rep own xs ws s" and s0: "mx_state s = 0" and t: "mx_pc s t = MxIdle"
  shows "mutex_inv_with rep (Some t) [] [] (mx_goto t MxOwner (s\<lparr>mx_state := 1\<rparr>))"
proof -
  have [simp]: "own = None" "ws = []" "xs = []" using mxI_state [OF I] s0 mxI_free [OF I] mxI_chain [OF I] by auto
  show ?thesis
    by (rule mutex_inv_moveI [OF I]) (use mxI_rep [OF I] t in \<open>auto simp: mx_goto_def\<close>)
qed

lemma mutex_inv_try_lock_retry:
  assumes I: "mutex_inv_with rep own xs ws s" and s0: "mx_state s = 0" and t: "mx_pc s t = MxTryLock n"
  shows "mutex_inv_with rep (Some t) [] [] (mx_goto t MxOwner (s\<lparr>mx_state := 1, mx_handle := (mx_handle s)(n := None)\<rparr>))"
proof -
  have [simp]: "own = None" "ws = []" "xs = []" using mxI_state [OF I] s0 mxI_free [OF I] mxI_chain [OF I] by auto
  have "mx_locker_alive s t n" using mxI_ok [OF I, of t] t by simp
  then show ?thesis
    by (intro mutex_inv_moveI [OF I]) (use mxI_rep [OF I] t in \<open>auto simp: mx_goto_def mx_locker_alive_def\<close>)
qed

lemma mutex_inv_lock_slow:
  assumes I: "mutex_inv_with rep own xs ws s" and t: "mx_pc s t = MxIdle" and n: "mx_handle s n = None" "n \<noteq> 0" "n \<noteq> 1"
  shows "mutex_inv_with rep own xs ws (mx_goto t (MxLoad n) (s\<lparr>mx_handle := (mx_handle s)(n := Some t)\<rparr>))"
proof -
  have "own \<noteq> Some t" using mxI_holds [OF I, of t] t by simp
  then show ?thesis
    by (intro mutex_inv_moveI [OF I])
      (use mxI_rep [OF I] mxI_state [OF I] mxI_free [OF I] mxI_chain [OF I] mxI_distinct [OF I] t n in \<open>auto simp: mx_goto_def mx_locker_alive_def\<close>)
qed


lemma mutex_inv_goto:
  assumes I: "mutex_inv_with rep own xs ws s" and t: "\<And>n. mx_pc s t \<noteq> MxParked n"
    and p: "mx_holds p \<longleftrightarrow> mx_holds (mx_pc s t)" "mx_pc_ok xs ws s t p" "\<And>n. p \<noteq> MxParked n"
  shows "mutex_inv_with rep own xs ws (mx_goto t p s)"
proof -
  have "mx_pc_ok xs ws (mx_goto t p s) t p" using p(2) by (cases p) (auto simp: mx_goto_def mx_locker_alive_def)
  then show ?thesis
    by (intro mutex_inv_moveI [OF I])
      (use mxI_rep [OF I] mxI_state [OF I] mxI_free [OF I] mxI_chain [OF I] mxI_distinct [OF I]
        mxI_holds [OF I, of t] t p in \<open>auto simp: mx_goto_def\<close>)
qed

lemma mutex_inv_link:
  assumes I: "mutex_inv_with rep own xs ws s" and t: "mx_pc s t = MxLoad n" and s0: "mx_state s \<noteq> 0"
  shows "mutex_inv_with rep own xs ws (mx_goto t (MxEnqueue n (mx_state s))
     (s\<lparr>mx_links := (mx_links s)(n := mx_top (mx_state s))\<rparr>))"
proof -
  have n: "mx_locker_alive s t n" using mxI_ok [OF I, of t] t by simp
  have nin: "n \<notin> set xs" "n \<notin> set ws"
    using mxI_parked [OF I, of n] n t by (auto simp: mx_locker_alive_def)
  have "own \<noteq> Some t" using mxI_holds [OF I, of t] t by simp
  with n nin show ?thesis
    by (intro mutex_inv_moveI [OF I])
      (use mxI_rep [OF I] mxI_state [OF I] mxI_free [OF I] mxI_chain [OF I] mxI_distinct [OF I]
        s0 t in \<open>auto simp: mx_goto_def mx_locker_alive_def intro: rep_frame_upd\<close>)
qed

lemma mutex_inv_enqueue:
  assumes I: "mutex_inv_with rep own xs ws s" and t: "mx_pc s t = MxEnqueue n (mx_state s)"
  shows "mutex_inv_with rep own (n # xs) ws (mx_goto t (MxParked n) (s\<lparr>mx_state := n\<rparr>))"
proof -
  have n: "mx_locker_alive s t n" "mx_state s \<noteq> 0" "mx_links s n = mx_top (mx_state s)"
    using mxI_ok [OF I, of t] t by auto
  have nin: "n \<notin> set xs" "n \<notin> set ws"
    using mxI_parked [OF I, of n] n t by (auto simp: mx_locker_alive_def)
  have "own \<noteq> Some t" "own \<noteq> None" using mxI_holds [OF I, of t] mxI_state [OF I] t n by auto
  with n nin show ?thesis
    by (intro mutex_inv_moveI [OF I])
      (use mxI_rep [OF I] mxI_chain [OF I] mxI_distinct [OF I]
         t in \<open>auto simp: mx_goto_def mx_locker_alive_def\<close>)
qed

lemma mutex_inv_unlock:
  assumes I: "mutex_inv_with rep own xs ws s" and t: "mx_pc s t = MxRelUnlock" and s1: "mx_state s = 1"
  shows "mutex_inv_with rep None [] [] (mx_goto t MxIdle (s\<lparr>mx_state := 0\<rparr>))"
proof -
  have ws: "own = Some t" "ws = []" "xs = []"
    using mxI_ok [OF I, of t] mxI_holds [OF I, of t] t mxI_chain [OF I] s1 by auto
  then show ?thesis
    by (intro mutex_inv_moveI [OF I]) (use mxI_rep [OF I] t in \<open>auto simp: mx_goto_def\<close>)
qed

lemma mutex_inv_hand_over:
  assumes I: "mutex_inv_with rep (Some t) xs (n # ws) s"
    and pop: "il_pop_front L (mx_links s) (mx_waiters s) = (m, h, l)"
  shows "m = n \<and> (\<exists>u. u \<noteq> t \<and> mx_handle s n = Some u \<and> mx_pc s u = MxParked n \<and>
    mutex_inv_with rep (Some u) xs ws (mx_goto u MxOwner (mx_goto t MxIdle
            (s\<lparr>mx_links := h, mx_waiters := l, mx_handle := (mx_handle s)(n := None)\<rparr>))))"
proof -
  from rep_pop_front [OF mxI_rep [OF I] pop]
  have m: "m = n" and r: "rep h l ws" and fr: "\<And>a. a \<notin> set (n # ws) \<Longrightarrow> h a = mx_links s a" by auto
  obtain u where u: "mx_handle s n = Some u" "mx_pc s u = MxParked n" using mxI_parked [OF I, of n] by auto
  have ut: "u \<noteq> t" using mxI_holds [OF I, of t] u by auto
  have hold: "\<not> mx_holds (mx_pc s v)" if "v \<noteq> t" for v using mxI_holds [OF I, of v] that by simp
  let ?s = "mx_goto u MxOwner (mx_goto t MxIdle
            (s\<lparr>mx_links := h, mx_waiters := l, mx_handle := (mx_handle s)(n := None)\<rparr>))"
  have d: "distinct (xs @ ws)" "n \<notin> set (xs @ ws)" using mxI_distinct [OF I] by auto
  have "mutex_inv_with rep (Some u) xs ws ?s"
    unfolding mutex_inv_with_def
  proof (intro conjI allI ballI)
    fix v show "mx_holds (mx_pc ?s v) \<longleftrightarrow> Some u = Some v" using hold [of v] ut by (auto simp: mx_goto_def)
  next
    show "chain (mx_links ?s) (mx_top (mx_state ?s)) xs"
      using mxI_chain [OF I] fr mxI_distinct [OF I] by (subst chain_cong [of _ _ "mx_links s"]) (fastforce simp: mx_goto_def)+
  next
    fix x assume x: "x \<in> set (xs @ ws)"
    with mxI_parked [OF I, of x] obtain v where v: "mx_handle s x = Some v" "mx_pc s v = MxParked x" by auto
    have "x \<noteq> n" using x d by auto
    moreover have "v \<noteq> t" "v \<noteq> u" using v u hold mxI_holds [OF I, of t] \<open>x \<noteq> n\<close> by auto
    ultimately show "\<exists>v. mx_handle ?s x = Some v \<and> mx_pc ?s v = MxParked x" using v by (auto simp: mx_goto_def)
  next
    fix v show "mx_pc_ok xs ws ?s v (mx_pc ?s v)"
    proof (cases "v = t \<or> v = u")
      case False
      have "mx_links ?s a = mx_links s a" if "mx_pc s v = MxEnqueue a st" "mx_locker_alive s v a" for a st
      proof -
        have "a \<notin> set (n # ws)" using mxI_parked [OF I, of a] that by (auto simp: mx_locker_alive_def)
        then show ?thesis using fr by (simp add: mx_goto_def)
      qed
      then have "mx_pc_ok xs ws ?s v (mx_pc s v)"
        using False hold u mxI_ok [OF I, of v]
        by (intro mx_pc_ok_stable [OF mxI_ok [OF I, of v]]) (auto simp: mx_goto_def mx_locker_alive_def)
      with False show ?thesis by (simp add: mx_goto_def)
    qed (auto simp: mx_goto_def)
  qed (use r mxI_state [OF I] d in \<open>auto simp: mx_goto_def\<close>)
  with m u ut show ?thesis by blast
qed

lemma mutex_inv_take:
  assumes I: "mutex_inv_with rep own xs ws s" and t: "mx_pc s t = MxRelTake"
  shows "\<exists>h l. xs \<noteq> [] \<and> mx_append_to_list L (mx_state s) (s\<lparr>mx_state := 1\<rparr>) =
      Next (s\<lparr>mx_state := 1, mx_links := h, mx_waiters := l\<rparr>) \<and>
    mutex_inv_with rep (Some t) [] xs (mx_goto t MxOwner (s\<lparr>mx_state := 1, mx_links := h, mx_waiters := l\<rparr>))"
proof -
  have ws: "own = Some t" "ws = []" "mx_state s \<noteq> 1"
    using mxI_ok [OF I, of t] mxI_holds [OF I, of t] t by auto
  then have c: "chain (mx_links s) (mx_state s) xs" and x: "xs \<noteq> []"
    using mxI_chain [OF I] mxI_state [OF I] by auto
  obtain h l where w: "walk L (push_back_item L) (mx_state s) (mx_links s, mx_waiters s) = Some (h, l)"
      "rep h l xs" "\<And>a. a \<notin> set xs \<Longrightarrow> h a = mx_links s a"
    using walk_push_back [OF c mxI_rep [OF I]] ws by auto
  have "il_is_empty L (mx_waiters s)" using rep_is_empty [OF mxI_rep [OF I]] ws by simp
  with w have "mx_append_to_list L (mx_state s) (s\<lparr>mx_state := 1\<rparr>) =
      Next (s\<lparr>mx_state := 1, mx_links := h, mx_waiters := l\<rparr>)"
    by (simp add: mx_append_to_list_def)
  moreover have "mutex_inv_with rep (Some t) [] xs (mx_goto t MxOwner (s\<lparr>mx_state := 1, mx_links := h, mx_waiters := l\<rparr>))"
  proof (rule mutex_inv_moveI [OF I])
    fix u n st assume "mx_pc s u = MxEnqueue n st" "mx_locker_alive s u n"
    then have "n \<notin> set xs" using mxI_parked [OF I, of n] by (auto simp: mx_locker_alive_def)
    then show "mx_links (mx_goto t MxOwner (s\<lparr>mx_state := 1, mx_links := h, mx_waiters := l\<rparr>)) n = mx_links s n"
      using w(3) by (simp add: mx_goto_def)
  qed (use ws w(2) mxI_distinct [OF I] t in \<open>auto simp: mx_goto_def\<close>)
  ultimately show ?thesis using x by blast
qed


lemma mutex_inv_unlock_call:
  assumes I: "mutex_inv_with rep own xs ws s"
  shows "lands_in (mutex_inv rep) (mx_unlock L t s)"
proof (cases "mx_pc s t = MxOwner \<and> ws \<noteq> []")
  case True
  then obtain n ws' where ws: "ws = n # ws'" by (cases ws) auto
  have own: "own = Some t" using mxI_holds [OF I, of t] True by simp
  obtain m h l where p: "il_pop_front L (mx_links s) (mx_waiters s) = (m, h, l)"
    by (cases "il_pop_front L (mx_links s) (mx_waiters s)") auto
  from mutex_inv_hand_over [OF I [unfolded own ws] p]
  show ?thesis using True p rep_has_items [OF mxI_rep [OF I]]
    by (auto simp: mx_unlock_def mx_resume_next_waiter_def intro: mutex_invI)
next
  case False
  with mutex_inv_goto [OF I, of t MxRelLoad] show ?thesis
    using rep_has_items [OF mxI_rep [OF I]] by (auto simp: mx_unlock_def intro: mutex_invI)
qed

lemma mutex_take_step:
  assumes I: "mutex_inv_with rep own xs ws s" and t: "mx_pc s t = MxRelTake"
  shows "\<exists>n ns u s'. xs = n # ns \<and> mx_release L t s = Next s' \<and> mx_handle s n = Some u \<and>
    mx_pc s u = MxParked n \<and> mx_pc s' u = MxOwner \<and> mx_pc s' t = MxIdle \<and>
    mutex_inv_with rep (Some u) [] ns s'"
proof -
  from mutex_inv_take [OF I t] obtain h l where
    x: "xs \<noteq> []" and a: "mx_append_to_list L (mx_state s) (s\<lparr>mx_state := 1\<rparr>) =
      Next (s\<lparr>mx_state := 1, mx_links := h, mx_waiters := l\<rparr>)"
    and J: "mutex_inv_with rep (Some t) [] xs (mx_goto t MxOwner (s\<lparr>mx_state := 1, mx_links := h, mx_waiters := l\<rparr>))"
    by blast
  let ?s = "s\<lparr>mx_state := 1, mx_links := h, mx_waiters := l\<rparr>"
  from x obtain n ns where xs: "xs = n # ns" by (cases xs) auto
  obtain m h' l' where p: "il_pop_front L h l = (m, h', l')" by (cases "il_pop_front L h l") auto
  have hi: "il_has_items L l" using rep_has_items [OF mxI_rep [OF J]] x by (simp add: mx_goto_def)
  from mutex_inv_hand_over [OF J [unfolded xs], of m h' l'] p obtain u where u: "m = n" "u \<noteq> t"
    "mx_handle s n = Some u" "mx_pc s u = MxParked n"
    "mutex_inv_with rep (Some u) [] ns (mx_goto u MxOwner (mx_goto t MxIdle
       ((mx_goto t MxOwner ?s)\<lparr>mx_links := h', mx_waiters := l', mx_handle := (mx_handle s)(n := None)\<rparr>)))"
    by (auto simp: mx_goto_def split: if_splits)
  let ?t = "mx_goto u MxOwner (mx_goto t MxIdle
       (?s\<lparr>mx_links := h', mx_waiters := l', mx_handle := (mx_handle s)(n := None)\<rparr>))"
  have "mx_release L t s = Next ?t"
    using a hi p u(1,3) t
    by (simp add: mx_release_def atomic_simps mx_locked_no_waiters_def mx_resume_next_waiter_def)
  moreover have "mutex_inv_with rep (Some u) [] ns ?t" using u(5) by (simp add: mx_goto_def)
  moreover have "mx_pc ?t u = MxOwner" "mx_pc ?t t = MxIdle" using u(2) by (auto simp: mx_goto_def)
  ultimately show ?thesis using xs u(3,4) by blast
qed

lemma mutex_inv_release:
  assumes I: "mutex_inv_with rep own xs ws s"
  shows "lands_in (mutex_inv rep) (mx_release L t s)"
proof (cases "mx_pc s t")
  case MxRelLoad
  then have ws: "ws = []" using mxI_ok [OF I, of t] by simp
  show ?thesis
    using mutex_inv_goto [OF I, of t MxRelUnlock] mutex_inv_goto [OF I, of t MxRelTake] MxRelLoad ws
    by (auto simp: mx_release_def mx_locked_no_waiters_def intro: mutex_invI)
next
  case MxRelUnlock
  then have ws: "ws = []" using mxI_ok [OF I, of t] by simp
  have "mx_goto t MxRelLoad (s\<lparr>mx_state := mx_state s\<rparr>) = mx_goto t MxRelLoad s" by simp
  with mutex_inv_unlock [OF I MxRelUnlock] mutex_inv_goto [OF I, of t MxRelLoad] MxRelUnlock ws
  show ?thesis
    by (auto simp: mx_release_def mx_locked_no_waiters_def mx_unlocked_def atomic_simps intro: mutex_invI)
next
  case MxRelTake
  from mutex_take_step [OF I this] show ?thesis by (auto intro: mutex_invI)
qed (simp_all add: mx_release_def)

lemma mutex_inv_try_lock_or_enqueue:
  assumes I: "mutex_inv_with rep own xs ws s"
  shows "lands_in (mutex_inv rep) (mx_try_lock_or_enqueue L t s)"
proof (cases "mx_pc s t")
  case (MxLoad n)
  then have "mx_locker_alive s t n" using mxI_ok [OF I, of t] by simp
  with mutex_inv_goto [OF I, of t "MxTryLock n"] mutex_inv_link [OF I MxLoad] MxLoad show ?thesis
    by (auto simp: mx_try_lock_or_enqueue_def mx_locked_no_waiters_def mx_unlocked_def Let_def intro: mutex_invI)
next
  case (MxTryLock n)
  then have "mx_locker_alive s t n" using mxI_ok [OF I, of t] by simp
  with mutex_inv_goto [OF I, of t "MxLoad n"] mutex_inv_try_lock_retry [OF I _ MxTryLock] MxTryLock show ?thesis
    by (auto simp: mx_try_lock_or_enqueue_def mx_try_lock_def atomic_simps mx_locked_no_waiters_def mx_unlocked_def intro: mutex_invI)
next
  case (MxEnqueue n st)
  then have "mx_locker_alive s t n" using mxI_ok [OF I, of t] by simp
  with mutex_inv_goto [OF I, of t "MxLoad n"] mutex_inv_enqueue [OF I, of t n] MxEnqueue show ?thesis
    by (auto simp: mx_try_lock_or_enqueue_def atomic_simps intro: mutex_invI)
qed (simp_all add: mx_try_lock_or_enqueue_def)

lemma mutex_inv_lock_call:
  assumes I: "mutex_inv_with rep own xs ws s"
  shows "lands_in (mutex_inv rep) (mx_lock t n s)"
  using mutex_inv_try_lock [OF I, of t] mutex_inv_lock_slow [OF I, of t n]
  by (auto simp: mx_lock_def mx_try_lock_def atomic_simps mx_locked_no_waiters_def mx_unlocked_def intro: mutex_invI)

lemma mutex_inv_step: "mutex_inv rep s \<Longrightarrow> lands_in (mutex_inv rep) (mutex_step L e s)"
proof (cases e)
  case (MxEvTryLock t)
  assume "mutex_inv rep s"
  then obtain own xs ws where I: "mutex_inv_with rep own xs ws s" by (auto simp: mutex_inv_def)
  with mutex_inv_try_lock [OF I, of t] MxEvTryLock show ?thesis
    by (auto intro: mutex_invI simp: mx_try_lock_def atomic_simps mx_locked_no_waiters_def mx_unlocked_def)
qed (auto simp: mutex_inv_def split: mutex_pc.splits
    intro: mutex_inv_lock_call mutex_inv_unlock_call mutex_inv_release mutex_inv_try_lock_or_enqueue)

lemma mutex_inv_init: "mutex_inv rep (mutex_init L)"
  unfolding mutex_inv_def
  by (intro exI [of _ None] exI [of _ "[]"])
    (simp add: mutex_inv_with_def mutex_init_def mx_unlocked_def rep_new)

lemma mutex_machine: "guarded_machine (mutex_step L) (mutex_init L) (mutex_inv rep)"
  by (rule guarded_machineI [OF mutex_inv_init mutex_inv_step])

end

sublocale intrusive_list \<subseteq> mutex: guarded_machine "mutex_step L" "mutex_init L" "mutex_inv rep"
  by (rule mutex_machine)

context intrusive_list
begin

lemma mutex_reach: "exec (mutex_step L) es (mutex_init L) = Next s \<Longrightarrow> \<exists>own xs ws. mutex_inv_with rep own xs ws s"
  using mutex.gm_exec_inv [of es s] by (simp add: mutex_inv_def)

lemma mutex_no_fault: "exec (mutex_step L) es (mutex_init L) \<noteq> Fault x"
  by (rule mutex.gm_exec_no_fault)

end

subsection \<open>What a release by the owner achieves\<close>

context intrusive_list
begin

lemma mutex_release_parked:
  assumes I: "mutex_inv_with rep (Some t) xs ws s" and t: "mx_pc s t = MxOwner" and p: "xs @ ws \<noteq> []"
  shows "\<exists>k s' u n. k \<le> 2 \<and> exec (mutex_step L) (MxEvUnlock t # replicate k (MxEvRun t)) s = Next s' \<and>
    mx_pc s u = MxParked n \<and> n = hd (ws @ xs) \<and> mx_pc s' u = MxOwner \<and> mx_pc s' t = MxIdle"
proof (cases ws)
  case (Cons n ws')
  obtain m h l where pf: "il_pop_front L (mx_links s) (mx_waiters s) = (m, h, l)"
    by (cases "il_pop_front L (mx_links s) (mx_waiters s)") auto
  from mutex_inv_hand_over [OF I [unfolded Cons] pf] obtain u where u: "m = n" "u \<noteq> t"
     "mx_handle s n = Some u" "mx_pc s u = MxParked n" by blast
  with pf t rep_has_items [OF mxI_rep [OF I]] Cons
  have "\<exists>s'. exec (mutex_step L) (MxEvUnlock t # replicate 0 (MxEvRun t)) s = Next s' \<and> mx_pc s' u = MxOwner \<and> mx_pc s' t = MxIdle"
    by (simp add: mx_unlock_def mx_resume_next_waiter_def mx_goto_def)
  with u Cons show ?thesis by (intro exI [of _ 0]) auto
next
  case Nil
  with p have xs: "xs \<noteq> []" by simp
  then have st: "mx_state s \<noteq> 1" using mxI_chain [OF I] by auto
  let ?s = "mx_goto t MxRelTake s"
  have J: "mutex_inv_with rep (Some t) xs ws ?s"
    using mutex_inv_goto [OF I, of t MxRelTake] t Nil st by simp
  have t': "mx_pc ?s t = MxRelTake" by (simp add: mx_goto_def)
  from mutex_take_step [OF J t'] obtain n ns u s' where u: "xs = n # ns" "mx_release L t ?s = Next s'"
    "mx_pc ?s u = MxParked n" "mx_pc s' u = MxOwner" "mx_pc s' t = MxIdle" by blast
  then have v: "mx_pc s u = MxParked n" by (simp add: mx_goto_def split: if_splits)
  have "exec (mutex_step L) (MxEvUnlock t # replicate 1 (MxEvRun t)) s = Next ?s"
    using t Nil rep_has_items [OF mxI_rep [OF I]] st
    by (simp add: mx_unlock_def mx_release_def mx_locked_no_waiters_def mx_goto_def)
  moreover have "mutex_step L (MxEvRun t) ?s = Next s'" using t' u(2) by simp
  ultimately have "exec (mutex_step L) ((MxEvUnlock t # replicate 1 (MxEvRun t)) @ [MxEvRun t]) s = Next s'"
    unfolding exec_snoc_Next by blast
  then have "exec (mutex_step L) (MxEvUnlock t # replicate 2 (MxEvRun t)) s = Next s'"
    by (simp add: numeral_2_eq_2)
  with u v Nil show ?thesis by (intro exI [of _ 2] exI [of _ s'] exI [of _ u] exI [of _ n]) simp
qed

end

context intrusive_list
begin

lemma mutex_release_free:
  assumes I: "mutex_inv_with rep (Some t) [] [] s" and t: "mx_pc s t = MxOwner"
  shows "\<exists>s'. exec (mutex_step L) [MxEvUnlock t, MxEvRun t, MxEvRun t] s = Next s' \<and>
    mx_state s' = mx_unlocked \<and> mx_pc s' t = MxIdle"
proof -
  have "mx_state s = 1" using mxI_chain [OF I] mxI_state [OF I] by (auto simp: mx_top_def mx_locked_no_waiters_def split: if_splits)
  then show ?thesis
    using t rep_has_items [OF mxI_rep [OF I]]
    by (simp add: mx_unlock_def mx_release_def mx_locked_no_waiters_def mx_unlocked_def mx_goto_def atomic_simps)
qed

end

subsection \<open>Properties\<close>

text \<open>A run in which fiber 1 holds the lock and fibers 2 and 3 have queued up.\<close>

definition mutex_contended_run :: "mutex_event list" where
  "mutex_contended_run = [MxEvLock 1 16, MxEvLock 2 32, MxEvRun 2, MxEvRun 2, MxEvLock 3 48, MxEvRun 3, MxEvRun 3]"

text \<open>
  C1. Mutual exclusion: in every state that any interleaving of \<open>Lock\<close>, \<open>TryLock\<close> and \<open>Unlock\<close> calls can
  reach, at most one fiber holds the mutex (owns it or is inside \<open>Release\<close>).
\<close>

theorem mutex_mutual_exclusion:
  assumes "intrusive_list L rep"
    and "exec (mutex_step L) es (mutex_init L) = Next s"
    and "mx_holds (mx_pc s t)" and "mx_holds (mx_pc s u)"
  shows "t = u"
proof -
  from intrusive_list.mutex_reach [OF assms(1,2)] obtain own xs ws
    where "mutex_inv_with rep own xs ws s" by blast
  with assms(3,4) show ?thesis by (auto simp: mxI_holds)
qed

theorem mutex_mutual_exclusion_witness:
  "\<exists>s. exec (mutex_step ptr_list) (mutex_contended_run @ [MxEvUnlock 1, MxEvRun 1, MxEvRun 1]) (mutex_init ptr_list) = Next s \<and>
     mx_pc s 3 = MxOwner \<and> \<not> mx_holds (mx_pc s 2)"
proof -
  have "\<exists>s. exec (mutex_step ptr_list) (mutex_contended_run @ [MxEvUnlock 1, MxEvRun 1, MxEvRun 1]) (mutex_init ptr_list) = Next s \<and>
     mx_pc s 3 = MxOwner"
    by (simp add: machine_simps ptr_run_simps mutex_contended_run_def)
  then obtain s where s: "exec (mutex_step ptr_list) (mutex_contended_run @ [MxEvUnlock 1, MxEvRun 1, MxEvRun 1]) (mutex_init ptr_list) = Next s"
     "mx_pc s 3 = MxOwner" by blast
  with mutex_mutual_exclusion [OF ptr.intrusive_list_axioms s(1), of 3 2] show ?thesis by auto
qed

text \<open>
  No call fails: neither assertion of the code can fail, no \<open>Locker\<close> is read after its fiber left
  \<open>Lock\<close>, and the walk over the taken waiters ends.
\<close>

theorem mutex_no_failure:
  assumes "intrusive_list L rep"
  shows "exec (mutex_step L) es (mutex_init L) \<noteq> Fault x"
  by (rule intrusive_list.mutex_no_fault [OF assms])

theorem mutex_no_failure_witness:
  "exec (mutex_step ptr_list) (mutex_contended_run @ [MxEvUnlock 1, MxEvRun 1, MxEvRun 1, MxEvUnlock 3]) (mutex_init ptr_list) \<noteq> Fault UseAfterFree"
  by (rule mutex_no_failure [OF ptr.intrusive_list_axioms])




text \<open>
  C2. No waiter is forgotten: if a fiber is parked when the owner calls \<open>Unlock\<close>, then after at most two
  more steps of the owner, when nobody interferes with them, a parked fiber owns the mutex and the former owner is out of
  the call.
\<close>

theorem mutex_unlock_hands_over:
  assumes "intrusive_list L rep"
    and "exec (mutex_step L) es (mutex_init L) = Next s"
    and "mx_pc s t = MxOwner" and "mx_pc s v = MxParked m"
  shows "\<exists>k s' u n. k \<le> 2 \<and> exec (mutex_step L) (MxEvUnlock t # replicate k (MxEvRun t)) s = Next s' \<and>
    mx_pc s u = MxParked n \<and> mx_pc s' u = MxOwner \<and> mx_pc s' t = MxIdle"
proof -
  from intrusive_list.mutex_reach [OF assms(1,2)] obtain own xs ws
    where I: "mutex_inv_with rep own xs ws s" by blast
  have "own = Some t" using mxI_holds [OF I, of t] assms(3) by simp
  moreover have "m \<in> set (xs @ ws)" using mxI_ok [OF I, of v] assms(4) by simp
  ultimately show ?thesis
    using intrusive_list.mutex_release_parked [OF assms(1), of t xs ws s] I assms(3)
    by (cases "xs @ ws") auto
qed

theorem mutex_unlock_hands_over_witness:
  "\<exists>s k s' u n. exec (mutex_step ptr_list) mutex_contended_run (mutex_init ptr_list) = Next s \<and>
     exec (mutex_step ptr_list) (MxEvUnlock 1 # replicate k (MxEvRun 1)) s = Next s' \<and>
     mx_pc s u = MxParked n \<and> mx_pc s' u = MxOwner \<and> mx_pc s' 1 = MxIdle"
proof -
  have "\<exists>s. exec (mutex_step ptr_list) mutex_contended_run (mutex_init ptr_list) = Next s \<and>
     mx_pc s 1 = MxOwner \<and> mx_pc s 2 = MxParked 32"
    by (simp add: machine_simps ptr_run_simps mutex_contended_run_def)
  then obtain s where s: "exec (mutex_step ptr_list) mutex_contended_run (mutex_init ptr_list) = Next s"
     "mx_pc s 1 = MxOwner" "mx_pc s 2 = MxParked 32" by blast
  from mutex_unlock_hands_over [OF ptr.intrusive_list_axioms s] s(1) show ?thesis by blast
qed

text \<open>
  If nobody is parked, \<open>Unlock\<close> run without interference leaves the mutex unlocked.
\<close>

theorem mutex_unlock_frees:
  assumes "intrusive_list L rep"
    and "exec (mutex_step L) es (mutex_init L) = Next s"
    and "mx_pc s t = MxOwner" and "\<And>v m. mx_pc s v \<noteq> MxParked m"
  shows "\<exists>s'. exec (mutex_step L) [MxEvUnlock t, MxEvRun t, MxEvRun t] s = Next s' \<and>
    mx_state s' = mx_unlocked \<and> mx_pc s' t = MxIdle"
proof -
  from intrusive_list.mutex_reach [OF assms(1,2)] obtain own xs ws
    where I: "mutex_inv_with rep own xs ws s" by blast
  have own: "own = Some t" using mxI_holds [OF I, of t] assms(3) by simp
  have "xs @ ws = []" using mxI_parked [OF I, of "hd (xs @ ws)"] assms(4) hd_in_set by blast
  with I own have "mutex_inv_with rep (Some t) [] [] s" by simp
  from intrusive_list.mutex_release_free [OF assms(1) this assms(3)] show ?thesis .
qed

theorem mutex_unlock_frees_witness:
  "\<exists>s s'. exec (mutex_step ptr_list) [MxEvLock 1 16] (mutex_init ptr_list) = Next s \<and>
     exec (mutex_step ptr_list) [MxEvUnlock 1, MxEvRun 1, MxEvRun 1] s = Next s' \<and> mx_state s' = mx_unlocked"
proof -
  have "\<exists>s. exec (mutex_step ptr_list) [MxEvLock 1 16] (mutex_init ptr_list) = Next s \<and>
     mx_pc s 1 = MxOwner \<and> (\<forall>v m. mx_pc s v \<noteq> MxParked m)"
    by (simp add: machine_simps ptr_run_simps)
  then obtain s where s: "exec (mutex_step ptr_list) [MxEvLock 1 16] (mutex_init ptr_list) = Next s"
     "mx_pc s 1 = MxOwner" "\<And>v m. mx_pc s v \<noteq> MxParked m" by blast
  from mutex_unlock_frees [OF ptr.intrusive_list_axioms s] s(1) show ?thesis by blast
qed

text \<open>
  The order of service: the waiters taken from \<open>state_\<close> are served latest first. The step that takes
  the chain \<open>ns\<close> makes the fiber of its first (most recent) node the owner and keeps the others, in the
  same order, in \<open>waiters_\<close>.
\<close>

theorem mutex_serves_latest_first:
  assumes "intrusive_list L rep"
    and "exec (mutex_step L) es (mutex_init L) = Next s"
    and "mx_pc s t = MxRelTake" and "chain (mx_links s) (mx_state s) ns"
  shows "\<exists>u s'. mutex_step L (MxEvRun t) s = Next s' \<and> ns \<noteq> [] \<and> mx_handle s (hd ns) = Some u \<and>
    mx_pc s' u = MxOwner \<and> rep (mx_links s') (mx_waiters s') (tl ns)"
proof -
  from intrusive_list.mutex_reach [OF assms(1,2)] obtain own xs ws
    where I: "mutex_inv_with rep own xs ws s" by blast
  have "mx_state s \<noteq> 1" using mxI_ok [OF I, of t] assms(3) by simp
  then have "xs = ns" using mxI_chain [OF I] assms(4) by (auto intro: chain_unique)
  with intrusive_list.mutex_take_step [OF assms(1) I assms(3)] assms(3) show ?thesis
    by (auto dest: mxI_rep)
qed

theorem mutex_serves_latest_first_witness:
  "\<exists>s s'. exec (mutex_step ptr_list) (mutex_contended_run @ [MxEvUnlock 1, MxEvRun 1]) (mutex_init ptr_list) = Next s \<and>
     mutex_step ptr_list (MxEvRun 1) s = Next s' \<and> mx_pc s' 3 = MxOwner \<and>
     ptr_rep (mx_links s') (mx_waiters s') [32]"
proof -
  let ?run = "exec (mutex_step ptr_list) (mutex_contended_run @ [MxEvUnlock 1, MxEvRun 1]) (mutex_init ptr_list)"
  have "\<exists>s. ?run = Next s \<and> mx_pc s 1 = MxRelTake \<and> chain (mx_links s) (mx_state s) [48, 32] \<and> mx_handle s 48 = Some 3"
    by (simp add: machine_simps ptr_run_simps mutex_contended_run_def)
  then obtain s where s: "?run = Next s" "mx_pc s 1 = MxRelTake" "chain (mx_links s) (mx_state s) [48, 32]" "mx_handle s 48 = Some 3"
    by blast
  from mutex_serves_latest_first [OF ptr.intrusive_list_axioms s(1-3)] s show ?thesis by auto
qed

end
