(* ===== verification/Lockfree_Queue.thy ===== *)
theory Lockfree_Queue
  imports Intrusive_List
begin

section \<open>The lock-free stack and queue of intrusive nodes\<close>

text \<open>
  \<open>concurrency/lockfree/lockfree_intrusive_stack.h\<close> and \<open>lockfree_intrusive_queue.h\<close>: many producers
  link their nodes on top of \<open>head_\<close> by compare-and-swap, the consumer exchanges the whole chain for
  \<open>nullptr\<close> and reverses it. The operations here are on the word \<open>head_\<close> and the links; they are the
  steps of the components that own such a queue (the strand).

  \<open>stack_holds h head xs\<close>: from \<open>head\<close> the links lead through \<open>xs\<close>, the latest node first.
  \<open>queue_holds\<close> is the same in the order the queue hands the nodes out.
\<close>

subsection \<open>The operations\<close>

text \<open>One iteration of the loop of \<open>Push\<close>. \<open>expected\<close> is \<open>node->next_\<close> itself, so a failed exchange
  links the node to the head just seen.\<close>

definition stack_push_attempt ::
    "'l intrusive \<Rightarrow> bool \<Rightarrow> addr \<Rightarrow> addr \<times> links \<Rightarrow> bool \<times> addr \<times> links" where
  "stack_push_attempt L spurious node st =
     (let (head, h) = st;
          (ok, head', expected) = atomic_cas_weak spurious head (il_next L h node) node
      in (ok, head', il_set_next L h node expected))"

definition stack_consume_all ::
    "'l intrusive \<Rightarrow> (links \<times> 'x \<Rightarrow> addr \<Rightarrow> links \<times> 'x) \<Rightarrow> addr \<times> links \<Rightarrow> 'x \<Rightarrow> (addr \<times> links \<times> 'x) option" where
  "stack_consume_all L func st x =
     (let (top, head') = atomic_exchange (fst st) 0 in
      case walk L func top (snd st, x) of None \<Rightarrow> None | Some (h, y) \<Rightarrow> Some (head', h, y))"

definition stack_is_empty :: "addr \<times> links \<Rightarrow> bool" where
  "stack_is_empty st \<longleftrightarrow> fst st = 0"

definition stack_has_items :: "addr \<times> links \<Rightarrow> bool" where
  "stack_has_items st \<longleftrightarrow> \<not> stack_is_empty st"

definition queue_put_attempt ::
    "'l intrusive \<Rightarrow> bool \<Rightarrow> addr \<Rightarrow> addr \<times> links \<Rightarrow> bool \<times> addr \<times> links" where
  "queue_put_attempt L spurious value st = stack_push_attempt L spurious value st"

definition queue_take_all :: "'l intrusive \<Rightarrow> addr \<times> links \<Rightarrow> (addr \<times> links \<times> 'l) option" where
  "queue_take_all L st = stack_consume_all L (push_front_item L) st (il_new L)"

definition queue_is_empty :: "addr \<times> links \<Rightarrow> bool" where
  "queue_is_empty st \<longleftrightarrow> stack_is_empty st"

definition queue_has_items :: "addr \<times> links \<Rightarrow> bool" where
  "queue_has_items st \<longleftrightarrow> \<not> queue_is_empty st"

lemmas [machine_simps] =
  stack_push_attempt_def stack_consume_all_def stack_is_empty_def stack_has_items_def
  queue_put_attempt_def queue_take_all_def queue_is_empty_def queue_has_items_def

subsection \<open>What they do\<close>

definition stack_holds :: "addr \<times> links \<Rightarrow> addr list \<Rightarrow> bool" where
  "stack_holds st xs \<longleftrightarrow> chain (snd st) (fst st) xs"

definition queue_holds :: "addr \<times> links \<Rightarrow> addr list \<Rightarrow> bool" where
  "queue_holds st xs \<longleftrightarrow> stack_holds st (rev xs)"

lemma queue_holds_nil [simp]: "queue_holds (0, h) xs \<longleftrightarrow> xs = []"
  by (simp add: queue_holds_def stack_holds_def)

lemma queue_holds_frame:
  "queue_holds (p, h) xs \<Longrightarrow> (\<And>a. a \<in> set xs \<Longrightarrow> h' a = h a) \<Longrightarrow> queue_holds (p, h') xs"
  using chain_cong [of "rev xs" h' h p] by (simp add: queue_holds_def stack_holds_def)

lemma queue_holds_nodes: "queue_holds st xs \<Longrightarrow> distinct xs \<and> 0 \<notin> set xs"
  using chain_distinct [of "snd st" "fst st" "rev xs"] chain_not_null [of "snd st" "fst st" "rev xs"]
  by (simp add: queue_holds_def stack_holds_def)

lemma queue_empty_iff: "queue_holds st xs \<Longrightarrow> queue_is_empty st \<longleftrightarrow> xs = []"
  using chain_empty_iff [of "snd st" "fst st" "rev xs"]
  by (auto simp: queue_holds_def stack_holds_def queue_is_empty_def stack_is_empty_def)

context intrusive_list
begin

lemma push_attempt_step:
  assumes "queue_holds (head, h) xs" "n \<noteq> 0" "n \<notin> set xs"
    and "queue_put_attempt L spurious n (head, h) = (ok, head', h')"
  shows "(\<forall>a. a \<noteq> n \<longrightarrow> h' a = h a) \<and> queue_holds (head', h') (if ok then xs @ [n] else xs) \<and>
    (ok \<longleftrightarrow> head = h n \<and> \<not> spurious) \<and> (\<not> ok \<longrightarrow> h' n = head)"
  using assms
  by (auto simp: queue_put_attempt_def stack_push_attempt_def atomic_cas_weak_def queue_holds_def
      stack_holds_def Let_def split: if_splits)

lemma take_all_step:
  assumes "queue_holds (head, h) xs"
  shows "\<exists>h' l. queue_take_all L (head, h) = Some (0, h', l) \<and> rep h' l xs \<and>
    (\<forall>a. a \<notin> set xs \<longrightarrow> h' a = h a)"
proof -
  have "chain h head (rev xs)" using assms by (simp add: queue_holds_def stack_holds_def)
  from walk_push_front [OF this rep_new [of h]]
  show ?thesis by (auto simp: queue_take_all_def stack_consume_all_def atomic_exchange_def)
qed

end

end
