(* ===== verification/Strand.thy ===== *)
theory Strand
  imports Lockfree_Queue
begin

section \<open>The strand\<close>

text \<open>
  \<open>executors/strand.{h,cpp}\<close>: tasks are put into the lock-free queue and counted; the activation that
  counts the first one submits the strand itself to the underlying executor, and \<open>Run\<close> executes the
  tasks of one batch and submits the strand again if there are more.

  An activation (\<open>tid\<close>) is one call of \<open>Strand::Execute\<close> or of \<open>StrandImpl::Run\<close>; a thread that
  submits from inside a task has two. The underlying executor is the environment: after
  \<open>executor_.Execute(this)\<close> the strand is \<open>sd_scheduled\<close> once more, and the environment later starts
  \<open>Run\<close> or \<open>Discard\<close> on any free activation. The body of a task is the time between the event that pops
  it and the next event of the same activation. \<open>sd_busy\<close> says which nodes are linked or about to be:
  a task may submit itself again while it runs. \<open>sd_callers\<close> says which activations are inside \<open>Execute\<close>:
  the owner of the \<open>Strand\<close> object may destroy it (\<open>SdEvDrop\<close>) only when there is none. \<open>sd_submitted\<close>,
  \<open>sd_ran\<close> and \<open>sd_discarded\<close> record what happened, in order; no operation reads them.
\<close>

datatype 'l strand_pc =
    SdIdle
  | SdPush addr            \<comment> \<open>\<open>Execute\<close>: inside \<open>tasks_.Put\<close>\<close>
  | SdCount                \<comment> \<open>about to increment \<open>counter_\<close>\<close>
  | SdSubmit               \<comment> \<open>the counter was zero: about to call \<open>RunNextBatch\<close>\<close>
  | SdTake                 \<comment> \<open>\<open>Run\<close>: about to take all tasks\<close>
  | SdLoop 'l u64          \<comment> \<open>in its loop, with \<open>items\<close> and \<open>completed\<close>\<close>
  | SdTask 'l u64 addr     \<comment> \<open>inside the task\<close>
  | SdAgain                \<comment> \<open>there are more tasks: about to call \<open>RunNextBatch\<close>\<close>
  | SdRelease              \<comment> \<open>about to release its reference\<close>

record 'l strand =
  sd_head :: addr
  sd_links :: links
  sd_counter :: u64
  sd_refs :: u64
  sd_alive :: bool
  sd_handle :: bool
  sd_scheduled :: nat
  sd_callers :: "tid set"
  sd_busy :: "addr \<Rightarrow> tid option"
  sd_pc :: "tid \<Rightarrow> 'l strand_pc"
  sd_submitted :: "addr list"
  sd_ran :: "addr list"
  sd_discarded :: "addr list"

datatype strand_event =
    SdEvExecute tid addr
  | SdEvRun tid bool
  | SdEvStart tid
  | SdEvDiscard tid
  | SdEvDrop

definition strand_init :: "'l strand" where
  "strand_init = \<lparr>sd_head = 0, sd_links = (\<lambda>_. 0), sd_counter = 0, sd_refs = 1, sd_alive = True,
     sd_handle = True, sd_scheduled = 0, sd_callers = {}, sd_busy = (\<lambda>_. None), sd_pc = (\<lambda>_. SdIdle),
     sd_submitted = [], sd_ran = [], sd_discarded = []\<rparr>"

subsection \<open>The operations\<close>

definition sd_goto :: "tid \<Rightarrow> 'l strand_pc \<Rightarrow> 'l strand \<Rightarrow> 'l strand" where
  "sd_goto t p s = s\<lparr>sd_pc := (sd_pc s)(t := p)\<rparr>"

definition sd_return :: "tid \<Rightarrow> 'l strand \<Rightarrow> 'l strand" where
  "sd_return t s = sd_goto t SdIdle (s\<lparr>sd_callers := sd_callers s - {t}\<rparr>)"

definition sd_run_next_batch :: "'l strand \<Rightarrow> 'l strand" where
  "sd_run_next_batch s = s\<lparr>sd_refs := snd (atomic_fetch_add (sd_refs s) 1), sd_scheduled := Suc (sd_scheduled s)\<rparr>"

definition sd_release_ref :: "'l strand \<Rightarrow> 'l strand" where
  "sd_release_ref s =
     (let (old, refs) = atomic_fetch_sub (sd_refs s) 1 in
      s\<lparr>sd_refs := refs, sd_alive := (if old = 1 then False else sd_alive s)\<rparr>)"

definition sd_execute :: "'l intrusive \<Rightarrow> tid \<Rightarrow> bool \<Rightarrow> 'l strand \<Rightarrow> 'l strand outcome" where
  "sd_execute L t spurious s =
     (case sd_pc s t of
        SdPush n \<Rightarrow>
          (let (ok, head, h) = queue_put_attempt L spurious n (sd_head s, sd_links s);
               s1 = s\<lparr>sd_head := head, sd_links := h\<rparr> in
           if ok then Next (sd_goto t SdCount (s1\<lparr>sd_submitted := sd_submitted s @ [n]\<rparr>)) else Next s1)
      | SdCount \<Rightarrow>
          (let (old, c) = atomic_fetch_add (sd_counter s) 1; s1 = s\<lparr>sd_counter := c\<rparr> in
           if old = 0 then Next (sd_goto t SdSubmit s1) else Next (sd_return t s1))
      | SdSubmit \<Rightarrow> Next (sd_return t (sd_run_next_batch s))
      | _ \<Rightarrow> Disabled)"

definition sd_run :: "'l intrusive \<Rightarrow> tid \<Rightarrow> 'l strand \<Rightarrow> 'l strand outcome" where
  "sd_run L t s =
     (case sd_pc s t of
        SdTake \<Rightarrow>
          (case queue_take_all L (sd_head s, sd_links s) of
             None \<Rightarrow> Fault DivergentLoop
           | Some (head, h, items) \<Rightarrow> Next (sd_goto t (SdLoop items 0) (s\<lparr>sd_head := head, sd_links := h\<rparr>)))
      | SdLoop items completed \<Rightarrow>
          (if il_has_items L items
           then let (n, h, items') = il_pop_front L (sd_links s) items in
             Next (sd_goto t (SdTask items' completed n) (s\<lparr>sd_links := h, sd_busy := (sd_busy s)(n := None)\<rparr>))
           else let (old, c) = atomic_fetch_sub (sd_counter s) completed; s1 = s\<lparr>sd_counter := c\<rparr> in
             Next (sd_goto t (if completed < old then SdAgain else SdRelease) s1))
      | SdTask items completed n \<Rightarrow>
          Next (sd_goto t (SdLoop items (completed + 1))
            (s\<lparr>sd_ran := sd_ran s @ [n]\<rparr>))
      | SdAgain \<Rightarrow> Next (sd_goto t SdRelease (sd_run_next_batch s))
      | SdRelease \<Rightarrow> Next (sd_goto t SdIdle (sd_release_ref s))
      | _ \<Rightarrow> Disabled)"

definition sd_discard :: "'l intrusive \<Rightarrow> 'l strand \<Rightarrow> 'l strand outcome" where
  "sd_discard L s =
     (case queue_take_all L (sd_head s, sd_links s) of
        None \<Rightarrow> Fault DivergentLoop
      | Some (head, h, items) \<Rightarrow>
          (case drain L (h, items) of
             None \<Rightarrow> Fault DivergentLoop
           | Some (ns, h', _) \<Rightarrow>
               Next (s\<lparr>sd_head := head, sd_links := h', sd_discarded := sd_discarded s @ ns,
                 sd_busy := (\<lambda>a. if a \<in> set ns then None else sd_busy s a)\<rparr>)))"

fun strand_step :: "'l intrusive \<Rightarrow> strand_event \<Rightarrow> 'l strand \<Rightarrow> 'l strand outcome" where
  "strand_step L (SdEvExecute t n) s =
     (if sd_pc s t = SdIdle \<and> sd_handle s \<and> n \<noteq> 0 \<and> sd_busy s n = None
      then Next (sd_goto t (SdPush n)
        (s\<lparr>sd_callers := insert t (sd_callers s), sd_busy := (sd_busy s)(n := Some t)\<rparr>))
      else Disabled)"
| "strand_step L (SdEvRun t spurious) s =
     (if sd_pc s t = SdIdle then Disabled
      else if \<not> sd_alive s then Fault UseAfterFree
      else case sd_execute L t spurious s of Disabled \<Rightarrow> sd_run L t s | r \<Rightarrow> r)"
| "strand_step L (SdEvStart t) s =
     (if sd_pc s t = SdIdle \<and> 0 < sd_scheduled s
      then Next (sd_goto t SdTake (s\<lparr>sd_scheduled := sd_scheduled s - 1\<rparr>))
      else Disabled)"
| "strand_step L (SdEvDiscard t) s =
     (if sd_pc s t \<noteq> SdIdle \<or> sd_scheduled s = 0 then Disabled
      else if \<not> sd_alive s then Fault UseAfterFree
      else sd_discard L (s\<lparr>sd_scheduled := sd_scheduled s - 1\<rparr>))"
| "strand_step L SdEvDrop s =
     (if \<not> sd_handle s \<or> sd_callers s \<noteq> {} then Disabled
      else if \<not> sd_alive s then Fault UseAfterFree
      else Next (sd_release_ref (s\<lparr>sd_handle := False\<rparr>)))"

lemmas [machine_simps] =
  strand_init_def sd_goto_def sd_return_def sd_run_next_batch_def sd_release_ref_def sd_execute_def
  sd_run_def sd_discard_def


subsection \<open>The invariant\<close>

text \<open>
  There is at most one token to run the strand: nobody has it, an activation has it (from the moment it
  counts the first task to the end of its batch), the underlying executor has it, or it was lost
  in a \<open>Discard\<close>. The other ghosts: the nodes in the queue, the rest of the batch, the task being run,
  how many of the batch are completed but not yet subtracted from \<open>counter_\<close>, whether the token holds a
  reference, the activations that have put a task but not yet counted it, and those that are
  about to release a reference.
\<close>

datatype strand_token = SdNobody | SdActivation tid | SdExecutor | SdLost

record strand_ghost =
  sg_own :: strand_token
  sg_queue :: "addr list"
  sg_items :: "addr list"
  sg_task :: "addr list"
  sg_done :: nat
  sg_held :: bool
  sg_pend :: "tid set"
  sg_rel :: "tid set"

fun sd_has_token :: "'l strand_pc \<Rightarrow> bool" where
  "sd_has_token SdSubmit = True"
| "sd_has_token SdTake = True"
| "sd_has_token (SdLoop _ _) = True"
| "sd_has_token (SdTask _ _ _) = True"
| "sd_has_token SdAgain = True"
| "sd_has_token _ = False"

fun sd_in_execute :: "'l strand_pc \<Rightarrow> bool" where
  "sd_in_execute (SdPush _) = True"
| "sd_in_execute SdCount = True"
| "sd_in_execute SdSubmit = True"
| "sd_in_execute _ = False"

definition sd_flags :: "strand_ghost \<Rightarrow> tid set \<Rightarrow> tid \<Rightarrow> 'l strand_pc \<Rightarrow> bool" where
  "sd_flags g callers t p \<longleftrightarrow>
     (t \<in> callers \<longleftrightarrow> sd_in_execute p) \<and> (sg_own g = SdActivation t \<longleftrightarrow> sd_has_token p) \<and>
     (t \<in> sg_pend g \<longleftrightarrow> p = SdCount) \<and> (t \<in> sg_rel g \<longleftrightarrow> p = SdRelease)"

definition sg_no_batch :: "strand_ghost \<Rightarrow> bool" where
  "sg_no_batch g \<longleftrightarrow> sg_items g = [] \<and> sg_task g = [] \<and> sg_done g = 0"

definition sg_nodes :: "strand_ghost \<Rightarrow> addr list" where
  "sg_nodes g = sg_task g @ sg_items g @ sg_queue g"

definition sg_linked :: "strand_ghost \<Rightarrow> addr list" where
  "sg_linked g = sg_items g @ sg_queue g"

fun sd_local :: "(links \<Rightarrow> 'l \<Rightarrow> addr list \<Rightarrow> bool) \<Rightarrow> strand_ghost \<Rightarrow> 'l strand \<Rightarrow> tid \<Rightarrow> 'l strand_pc \<Rightarrow> bool" where
  "sd_local rep g s t (SdPush n) \<longleftrightarrow> n \<noteq> 0 \<and> sd_busy s n = Some t \<and> n \<notin> set (sg_linked g)"
| "sd_local rep g s t SdSubmit \<longleftrightarrow> \<not> sg_held g \<and> sg_no_batch g"
| "sd_local rep g s t SdTake \<longleftrightarrow> sg_held g \<and> sg_no_batch g"
| "sd_local rep g s t (SdLoop l c) \<longleftrightarrow>
     sg_held g \<and> sg_task g = [] \<and> rep (sd_links s) l (sg_items g) \<and> c = of_nat (sg_done g)"
| "sd_local rep g s t (SdTask l c n) \<longleftrightarrow>
     sg_held g \<and> sg_task g = [n] \<and> rep (sd_links s) l (sg_items g) \<and> c = of_nat (sg_done g)"
| "sd_local rep g s t SdAgain \<longleftrightarrow> sg_held g \<and> sg_no_batch g"
| "sd_local rep g s t _ \<longleftrightarrow> True"

definition sd_balance :: "strand_ghost \<Rightarrow> 'l strand \<Rightarrow> int" where
  "sd_balance g s =
     int (length (sd_submitted s)) - int (card (sg_pend g)) - int (length (sd_ran s)) + int (sg_done g)"

definition sd_references :: "strand_ghost \<Rightarrow> 'l strand \<Rightarrow> nat" where
  "sd_references g s = of_bool (sd_handle s) + card (sg_rel g) + of_bool (sg_held g)"

definition sd_lists_ok :: "strand_ghost \<Rightarrow> 'l strand \<Rightarrow> bool" where
  "sd_lists_ok g s \<longleftrightarrow>
     queue_holds (sd_head s, sd_links s) (sg_queue g) \<and> distinct (sg_linked g) \<and>
     (\<forall>a\<in>set (sg_linked g). a \<noteq> 0 \<and> sd_busy s a \<noteq> None) \<and>
     sd_submitted s = sd_ran s @ sd_discarded s @ sg_nodes g \<and>
     (sd_discarded s = [] \<longleftrightarrow> sg_own g \<noteq> SdLost)"

definition sd_counts_ok :: "nat \<Rightarrow> strand_ghost \<Rightarrow> 'l strand \<Rightarrow> bool" where
  "sd_counts_ok n g s \<longleftrightarrow>
     finite (sg_pend g) \<and> finite (sg_rel g) \<and>
     sd_counter s = word_of_int (sd_balance g s) \<and> (sg_own g = SdNobody \<longleftrightarrow> sd_balance g s \<le> 0) \<and>
     sd_refs s = of_nat (sd_references g s) \<and> (sd_alive s \<longleftrightarrow> 0 < sd_references g s) \<and>
     length (sd_submitted s) \<le> n \<and> card (sg_pend g) \<le> n \<and> length (sd_ran s) \<le> n \<and> sg_done g \<le> n \<and> card (sg_rel g) \<le> n"

definition sd_token_ok :: "strand_ghost \<Rightarrow> 'l strand \<Rightarrow> bool" where
  "sd_token_ok g s \<longleftrightarrow>
     sd_scheduled s = (if sg_own g = SdExecutor then 1 else 0) \<and>
     (sg_own g = SdNobody \<longrightarrow> \<not> sg_held g) \<and> (sg_own g = SdExecutor \<or> sg_own g = SdLost \<longrightarrow> sg_held g) \<and>
     ((\<forall>t. sg_own g \<noteq> SdActivation t) \<longrightarrow> sg_no_batch g) \<and>
     (sd_callers s \<noteq> {} \<longrightarrow> sd_handle s)"

definition strand_inv_with ::
    "(links \<Rightarrow> 'l \<Rightarrow> addr list \<Rightarrow> bool) \<Rightarrow> nat \<Rightarrow> strand_ghost \<Rightarrow> 'l strand \<Rightarrow> bool" where
  "strand_inv_with rep n g s \<longleftrightarrow>
     (\<forall>t. sd_flags g (sd_callers s) t (sd_pc s t) \<and> sd_local rep g s t (sd_pc s t)) \<and>
     sd_lists_ok g s \<and> sd_counts_ok n g s \<and> sd_token_ok g s"

definition strand_inv :: "(links \<Rightarrow> 'l \<Rightarrow> addr list \<Rightarrow> bool) \<Rightarrow> nat \<Rightarrow> 'l strand \<Rightarrow> bool" where
  "strand_inv rep n s \<longleftrightarrow> (\<exists>g. strand_inv_with rep n g s)"

subsection \<open>One step keeps the invariant\<close>

lemma strand_invI: "strand_inv_with rep n g s \<Longrightarrow> strand_inv rep n s"
  by (auto simp: strand_inv_def)

lemma sdI_flags: "strand_inv_with rep n g s \<Longrightarrow> sd_flags g (sd_callers s) t (sd_pc s t)"
  and sdI_local: "strand_inv_with rep n g s \<Longrightarrow> sd_local rep g s t (sd_pc s t)"
  and sdI_lists: "strand_inv_with rep n g s \<Longrightarrow> sd_lists_ok g s"
  and sdI_counts: "strand_inv_with rep n g s \<Longrightarrow> sd_counts_ok n g s"
  and sdI_token: "strand_inv_with rep n g s \<Longrightarrow> sd_token_ok g s"
  by (simp_all add: strand_inv_with_def)

lemmas sd_unfold = sd_flags_def sd_lists_ok_def sd_counts_ok_def sd_token_ok_def sd_balance_def
  sd_references_def sg_nodes_def sg_linked_def sg_no_batch_def

definition sd_elsewhere :: "tid \<Rightarrow> strand_ghost \<Rightarrow> 'l strand \<Rightarrow> strand_ghost \<Rightarrow> 'l strand \<Rightarrow> bool" where
  "sd_elsewhere t g s g' s' \<longleftrightarrow>
     (\<forall>u. u \<noteq> t \<longrightarrow>
        (u \<in> sd_callers s' \<longleftrightarrow> u \<in> sd_callers s) \<and> (sg_own g' = SdActivation u \<longleftrightarrow> sg_own g = SdActivation u) \<and>
        (u \<in> sg_pend g' \<longleftrightarrow> u \<in> sg_pend g) \<and> (u \<in> sg_rel g' \<longleftrightarrow> u \<in> sg_rel g) \<and>
        (\<forall>a. sd_busy s a = Some u \<longrightarrow> a \<notin> set (sg_linked g) \<longrightarrow> sd_busy s' a = Some u \<and> a \<notin> set (sg_linked g')) \<and>
        (sg_own g = SdActivation u \<longrightarrow>
          sg_held g' = sg_held g \<and> sg_items g' = sg_items g \<and> sg_task g' = sg_task g \<and> sg_done g' = sg_done g \<and>
          (\<forall>a\<in>set (sg_items g). sd_links s' a = sd_links s a)))"

context intrusive_list
begin

lemma sd_local_elsewhere:
  assumes "sd_local rep g s u p" "sd_flags g (sd_callers s) u p" "sd_elsewhere t g s g' s'" "u \<noteq> t"
  shows "sd_local rep g' s' u p"
proof (cases p)
  case (SdLoop l c)
  with assms show ?thesis
    by (auto simp: sd_elsewhere_def sd_flags_def elim!: rep_frame)
next
  case (SdTask l c a)
  with assms show ?thesis
    by (auto simp: sd_elsewhere_def sd_flags_def elim!: rep_frame)
qed (use assms in \<open>auto simp: sd_elsewhere_def sd_flags_def sg_no_batch_def\<close>)

lemma strand_moveI:
  assumes I: "strand_inv_with rep n g s"
    and pc: "sd_pc s' = (sd_pc s)(t := p)"
    and me: "sd_flags g' (sd_callers s') t p" "sd_local rep g' s' t p"
    and others: "sd_elsewhere t g s g' s'"
    and core: "sd_lists_ok g' s'" "sd_counts_ok (Suc n) g' s'" "sd_token_ok g' s'"
  shows "strand_inv_with rep (Suc n) g' s'"
  unfolding strand_inv_with_def
proof (intro conjI allI)
  fix u
  show "sd_flags g' (sd_callers s') u (sd_pc s' u)"
    using me(1) others sdI_flags [OF I, of u] by (cases "u = t") (auto simp: pc sd_flags_def sd_elsewhere_def)
  show "sd_local rep g' s' u (sd_pc s' u)"
    using me(2) sd_local_elsewhere [OF sdI_local [OF I, of u] sdI_flags [OF I, of u] others]
    by (cases "u = t") (auto simp: pc)
qed (rule core)+


lemma strand_inv_execute:
  assumes I: "strand_inv_with rep n g s" and t: "sd_pc s t = SdIdle" "sd_handle s" "a \<noteq> 0" "sd_busy s a = None"
  shows "strand_inv_with rep (Suc n) g (sd_goto t (SdPush a)
    (s\<lparr>sd_callers := insert t (sd_callers s), sd_busy := (sd_busy s)(a := Some t)\<rparr>))" (is "strand_inv_with _ _ _ ?s")
proof (rule strand_moveI [OF I, where t = t and p = "SdPush a"])
  have a: "a \<notin> set (sg_linked g)" using sdI_lists [OF I] t by (auto simp: sd_lists_ok_def)
  show "sd_flags g (sd_callers ?s) t (SdPush a)" using sdI_flags [OF I, of t] t by (simp add: sd_goto_def sd_flags_def)
  show "sd_local rep g ?s t (SdPush a)" using a t by (simp add: sd_goto_def)
  show "sd_elsewhere t g s g ?s" using t by (auto simp: sd_goto_def sd_elsewhere_def)
  show "sd_lists_ok g ?s" using sdI_lists [OF I] by (simp add: sd_goto_def sd_lists_ok_def)
  show "sd_counts_ok (Suc n) g ?s" using sdI_counts [OF I] by (simp add: sd_goto_def sd_counts_ok_def sd_balance_def sd_references_def)
  show "sd_token_ok g ?s" using sdI_token [OF I] t by (simp add: sd_goto_def sd_token_ok_def)
qed (simp add: sd_goto_def)

lemma strand_inv_put_ok:
  assumes I: "strand_inv_with rep n g s" and t: "sd_pc s t = SdPush a"
    and put: "queue_put_attempt L b a (sd_head s, sd_links s) = (True, head, h)"
  shows "strand_inv_with rep (Suc n) (g\<lparr>sg_queue := sg_queue g @ [a], sg_pend := insert t (sg_pend g)\<rparr>)
    (sd_goto t SdCount (s\<lparr>sd_head := head, sd_links := h, sd_submitted := sd_submitted s @ [a]\<rparr>))"
    (is "strand_inv_with _ _ ?g ?s")
proof (rule strand_moveI [OF I, where t = t and p = SdCount])
  have a: "a \<noteq> 0" "sd_busy s a = Some t" "a \<notin> set (sg_linked g)" using sdI_local [OF I, of t] t by auto
  have f: "t \<in> sd_callers s" "sg_own g \<noteq> SdActivation t" "t \<notin> sg_pend g" "t \<notin> sg_rel g"
    using sdI_flags [OF I, of t] t by (simp_all add: sd_flags_def)
  have "queue_holds (sd_head s, sd_links s) (sg_queue g)" using sdI_lists [OF I] by (simp add: sd_lists_ok_def)
  from push_attempt_step [OF this a(1) _ put] a(3)
  have h: "\<forall>x. x \<noteq> a \<longrightarrow> h x = sd_links s x" "queue_holds (head, h) (sg_queue g @ [a])"
    by (auto simp: sg_nodes_def sg_linked_def)
  show "sd_flags ?g (sd_callers ?s) t SdCount" using f by (simp add: sd_goto_def sd_flags_def)
  show "sd_elsewhere t g s ?g ?s" using a h(1) by (auto simp: sd_goto_def sd_elsewhere_def sg_nodes_def sg_linked_def)
  show "sd_lists_ok ?g ?s" using sdI_lists [OF I] a h(2) by (auto simp: sd_goto_def sd_lists_ok_def sg_nodes_def sg_linked_def)
  show "sd_counts_ok (Suc n) ?g ?s" using sdI_counts [OF I] f
    by (simp add: sd_goto_def sd_counts_ok_def sd_balance_def sd_references_def sd_flags_def)
  show "sd_token_ok ?g ?s" using sdI_token [OF I] by (simp add: sd_goto_def sd_token_ok_def sg_no_batch_def)
qed (simp_all add: sd_goto_def)

lemma strand_inv_put_fail:
  assumes I: "strand_inv_with rep n g s" and t: "sd_pc s t = SdPush a"
    and put: "queue_put_attempt L b a (sd_head s, sd_links s) = (False, head, h)"
  shows "strand_inv_with rep (Suc n) g (s\<lparr>sd_head := head, sd_links := h\<rparr>)"
    (is "strand_inv_with _ _ _ ?s")
proof (rule strand_moveI [OF I, where t = t and p = "SdPush a"])
  have a: "a \<noteq> 0" "sd_busy s a = Some t" "a \<notin> set (sg_linked g)" using sdI_local [OF I, of t] t by auto
  have "queue_holds (sd_head s, sd_links s) (sg_queue g)" using sdI_lists [OF I] by (simp add: sd_lists_ok_def)
  from push_attempt_step [OF this a(1) _ put] a(3)
  have h: "\<forall>x. x \<noteq> a \<longrightarrow> h x = sd_links s x" "queue_holds (head, h) (sg_queue g)"
    by (auto simp: sg_nodes_def sg_linked_def)
  show "sd_flags g (sd_callers ?s) t (SdPush a)" using sdI_flags [OF I, of t] t by (simp add: sd_flags_def)
  show "sd_local rep g ?s t (SdPush a)" using a by simp
  show "sd_elsewhere t g s g ?s" using a h(1) by (auto simp: sd_elsewhere_def sg_nodes_def sg_linked_def)
  show "sd_lists_ok g ?s" using sdI_lists [OF I] h(2) by (simp add: sd_lists_ok_def)
  show "sd_counts_ok (Suc n) g ?s" using sdI_counts [OF I] by (simp add: sd_counts_ok_def sd_balance_def sd_references_def)
  show "sd_token_ok g ?s" using sdI_token [OF I] by (simp add: sd_token_ok_def)
qed (use t in \<open>simp add: fun_upd_idem\<close>)

lemma sd_balance_bound: "strand_inv_with rep n g s \<Longrightarrow> n < 2 ^ 61 \<Longrightarrow> \<bar>sd_balance g s\<bar> < 2 ^ 62"
  using sdI_counts [of rep n g s] by (auto simp: sd_counts_ok_def sd_balance_def)

lemma strand_inv_count:
  assumes I: "strand_inv_with rep n g s" and t: "sd_pc s t = SdCount" and n: "n < 2 ^ 61"
  shows "strand_inv_with rep (Suc n)
    (if sd_counter s = 0 then g\<lparr>sg_pend := sg_pend g - {t}, sg_own := SdActivation t\<rparr> else g\<lparr>sg_pend := sg_pend g - {t}\<rparr>)
    (if sd_counter s = 0 then sd_goto t SdSubmit (s\<lparr>sd_counter := sd_counter s + 1\<rparr>)
     else sd_return t (s\<lparr>sd_counter := sd_counter s + 1\<rparr>))"
    (is "strand_inv_with _ _ ?g ?s")
proof -
  have f: "t \<in> sd_callers s" "sg_own g \<noteq> SdActivation t" "t \<in> sg_pend g" "t \<notin> sg_rel g"
    using sdI_flags [OF I, of t] t by (simp_all add: sd_flags_def)
  have fin: "finite (sg_pend g)" using sdI_counts [OF I] by (simp add: sd_counts_ok_def)
  then have c: "card (sg_pend g - {t}) = card (sg_pend g) - 1" "0 < card (sg_pend g)"
    using f by (auto simp: card_gt_0_iff)
  have "sd_counter s = word_of_int (sd_balance g s)" using sdI_counts [OF I] by (simp add: sd_counts_ok_def)
  then have z: "sd_counter s = 0 \<longleftrightarrow> sd_balance g s = 0"
    using sd_balance_bound [OF I n] by (simp add: counter_zero_iff)
  have own: "sg_own g = SdNobody \<longleftrightarrow> sd_balance g s \<le> 0" using sdI_counts [OF I] by (simp add: sd_counts_ok_def)
  have b: "sd_balance ?g ?s = sd_balance g s + 1" using c by (simp add: sd_balance_def sd_goto_def sd_return_def)
  show ?thesis
  proof (cases "sd_counter s = 0")
    case True
    with own z have nobody: "sg_own g = SdNobody" by simp
    show ?thesis
    proof (rule strand_moveI [OF I, where t = t and p = SdSubmit])
      show "sd_flags ?g (sd_callers ?s) t SdSubmit" using f True by (simp add: sd_goto_def sd_flags_def)
      show "sd_local rep ?g ?s t SdSubmit" using True sdI_token [OF I] nobody by (simp add: sd_token_ok_def sg_no_batch_def)
      show "sd_elsewhere t g s ?g ?s" using True nobody by (simp add: sd_goto_def sd_elsewhere_def sg_nodes_def sg_linked_def)
      show "sd_lists_ok ?g ?s" using True sdI_lists [OF I] nobody by (simp add: sd_goto_def sd_lists_ok_def sg_nodes_def sg_linked_def)
      show "sd_counts_ok (Suc n) ?g ?s" using sdI_counts [OF I] True b z c
        by (auto simp: sd_goto_def sd_counts_ok_def sd_references_def)
      show "sd_token_ok ?g ?s" using sdI_token [OF I] True nobody by (simp add: sd_goto_def sd_token_ok_def)
    qed (simp add: True sd_goto_def)
  next
    case False
    show ?thesis
    proof (rule strand_moveI [OF I, where t = t and p = SdIdle])
      show "sd_flags ?g (sd_callers ?s) t SdIdle" using f False by (simp add: sd_goto_def sd_return_def sd_flags_def)
      show "sd_elsewhere t g s ?g ?s" using False by (auto simp: sd_goto_def sd_return_def sd_elsewhere_def sg_nodes_def sg_linked_def)
      show "sd_lists_ok ?g ?s" using False sdI_lists [OF I] by (simp add: sd_goto_def sd_return_def sd_lists_ok_def sg_nodes_def sg_linked_def)
      show "sd_counts_ok (Suc n) ?g ?s" using sdI_counts [OF I] False b z c
        by (auto simp: sd_goto_def sd_return_def sd_counts_ok_def sd_references_def)
      show "sd_token_ok ?g ?s" using sdI_token [OF I] False f(1) by (auto simp: sd_goto_def sd_return_def sd_token_ok_def sg_no_batch_def)
    qed (simp_all add: False sd_goto_def sd_return_def)
  qed
qed

lemma strand_inv_submit:
  assumes I: "strand_inv_with rep n g s" and t: "sd_pc s t = SdSubmit"
  shows "strand_inv_with rep (Suc n) (g\<lparr>sg_own := SdExecutor, sg_held := True\<rparr>) (sd_return t (sd_run_next_batch s))"
    (is "strand_inv_with _ _ ?g ?s")
proof (rule strand_moveI [OF I, where t = t and p = SdIdle])
  have f: "t \<in> sd_callers s" "sg_own g = SdActivation t" "t \<notin> sg_pend g" "t \<notin> sg_rel g"
    using sdI_flags [OF I, of t] t by (simp_all add: sd_flags_def)
  have l: "\<not> sg_held g" "sg_no_batch g" using sdI_local [OF I, of t] t by simp_all
  show "sd_flags ?g (sd_callers ?s) t SdIdle" using f by (simp add: sd_goto_def sd_return_def sd_run_next_batch_def sd_flags_def)
  show "sd_elsewhere t g s ?g ?s" using f by (auto simp: sd_goto_def sd_return_def sd_run_next_batch_def sd_elsewhere_def sg_nodes_def sg_linked_def)
  show "sd_lists_ok ?g ?s" using f sdI_lists [OF I] by (simp add: sd_goto_def sd_return_def sd_run_next_batch_def sd_lists_ok_def sg_nodes_def sg_linked_def)
  show "sd_counts_ok (Suc n) ?g ?s" using sdI_counts [OF I] f l sdI_token [OF I]
    by (auto simp: sd_goto_def sd_return_def sd_run_next_batch_def sd_counts_ok_def sd_references_def sd_balance_def sd_token_ok_def atomic_fetch_add_def)
  show "sd_token_ok ?g ?s" using sdI_token [OF I] f l by (auto simp: sd_goto_def sd_return_def sd_run_next_batch_def sd_token_ok_def sg_no_batch_def)
qed (simp_all add: sd_goto_def sd_return_def sd_run_next_batch_def)


lemma strand_inv_take:
  assumes I: "strand_inv_with rep n g s" and t: "sd_pc s t = SdTake"
    and take: "queue_take_all L (sd_head s, sd_links s) = Some (head, h, items)"
  shows "strand_inv_with rep (Suc n) (g\<lparr>sg_items := sg_queue g, sg_queue := []\<rparr>)
    (sd_goto t (SdLoop items 0) (s\<lparr>sd_head := head, sd_links := h\<rparr>))"
    (is "strand_inv_with _ _ ?g ?s")
proof (rule strand_moveI [OF I, where t = t and p = "SdLoop items 0"])
  have f: "t \<notin> sd_callers s" "sg_own g = SdActivation t" "t \<notin> sg_pend g" "t \<notin> sg_rel g"
    using sdI_flags [OF I, of t] t by (simp_all add: sd_flags_def)
  have l: "sg_held g" "sg_no_batch g" using sdI_local [OF I, of t] t by simp_all
  have "queue_holds (sd_head s, sd_links s) (sg_queue g)" using sdI_lists [OF I] by (simp add: sd_lists_ok_def)
  from take_all_step [OF this] take have h: "head = 0" "rep h items (sg_queue g)" by auto
  show "sd_flags ?g (sd_callers ?s) t (SdLoop items 0)" using f by (simp add: sd_goto_def sd_flags_def)
  show "sd_local rep ?g ?s t (SdLoop items 0)" using h l by (simp add: sd_goto_def sg_no_batch_def)
  show "sd_elsewhere t g s ?g ?s" using f l by (auto simp: sd_goto_def sd_elsewhere_def sg_nodes_def sg_linked_def sg_no_batch_def)
  show "sd_lists_ok ?g ?s" using h l sdI_lists [OF I] by (simp add: sd_goto_def sd_lists_ok_def sg_nodes_def sg_linked_def sg_no_batch_def)
  show "sd_counts_ok (Suc n) ?g ?s" using sdI_counts [OF I]
    by (simp add: sd_goto_def sd_counts_ok_def sd_references_def sd_balance_def)
  show "sd_token_ok ?g ?s" using sdI_token [OF I] f by (simp add: sd_goto_def sd_token_ok_def)
qed (simp add: sd_goto_def)

lemma strand_inv_pop:
  assumes I: "strand_inv_with rep n g s" and t: "sd_pc s t = SdLoop items c" and has: "il_has_items L items"
    and pop: "il_pop_front L (sd_links s) items = (a, h, items')"
  shows "strand_inv_with rep (Suc n) (g\<lparr>sg_task := [a], sg_items := tl (sg_items g)\<rparr>)
    (sd_goto t (SdTask items' c a) (s\<lparr>sd_links := h, sd_busy := (sd_busy s)(a := None)\<rparr>))"
    (is "strand_inv_with _ _ ?g ?s")
proof (rule strand_moveI [OF I, where t = t and p = "SdTask items' c a"])
  have f: "t \<notin> sd_callers s" "sg_own g = SdActivation t" "t \<notin> sg_pend g" "t \<notin> sg_rel g"
    using sdI_flags [OF I, of t] t by (simp_all add: sd_flags_def)
  have l: "sg_held g" "sg_task g = []" "rep (sd_links s) items (sg_items g)" "c = of_nat (sg_done g)"
    using sdI_local [OF I, of t] t by simp_all
  have "sg_items g \<noteq> []" using rep_has_items [OF l(3)] has by simp
  then obtain x xs where xs: "sg_items g = x # xs" by (cases "sg_items g") auto
  from rep_pop_front [OF l(3) [unfolded xs] pop]
  have p: "x = a" "rep h items' xs" "\<forall>b. b \<notin> set (a # xs) \<longrightarrow> h b = sd_links s b" by auto
  have lists: "queue_holds (sd_head s, sd_links s) (sg_queue g)" "distinct (sg_linked g)"
    using sdI_lists [OF I] by (simp_all add: sd_lists_ok_def)
  have q: "queue_holds (sd_head s, h) (sg_queue g)"
    using lists(2) p(1,3) xs l(2) by (intro queue_holds_frame [OF lists(1)]) (auto simp: sg_nodes_def sg_linked_def)
  show "sd_flags ?g (sd_callers ?s) t (SdTask items' c a)" using f by (simp add: sd_goto_def sd_flags_def)
  show "sd_local rep ?g ?s t (SdTask items' c a)" using l p xs by (simp add: sd_goto_def)
  show "sd_elsewhere t g s ?g ?s" using f l xs p(1) by (auto simp: sd_goto_def sd_elsewhere_def sg_nodes_def sg_linked_def)
  show "sd_lists_ok ?g ?s" using q l xs p(1) sdI_lists [OF I] by (auto simp: sd_goto_def sd_lists_ok_def sg_nodes_def sg_linked_def)
  show "sd_counts_ok (Suc n) ?g ?s" using sdI_counts [OF I]
    by (simp add: sd_goto_def sd_counts_ok_def sd_references_def sd_balance_def)
  show "sd_token_ok ?g ?s" using sdI_token [OF I] f by (simp add: sd_goto_def sd_token_ok_def)
qed (simp add: sd_goto_def)

lemma strand_inv_task_done:
  assumes I: "strand_inv_with rep n g s" and t: "sd_pc s t = SdTask items c a"
  shows "strand_inv_with rep (Suc n) (g\<lparr>sg_task := [], sg_done := Suc (sg_done g)\<rparr>)
    (sd_goto t (SdLoop items (c + 1)) (s\<lparr>sd_ran := sd_ran s @ [a]\<rparr>))"
    (is "strand_inv_with _ _ ?g ?s")
proof (rule strand_moveI [OF I, where t = t and p = "SdLoop items (c + 1)"])
  have f: "t \<notin> sd_callers s" "sg_own g = SdActivation t" "t \<notin> sg_pend g" "t \<notin> sg_rel g"
    using sdI_flags [OF I, of t] t by (simp_all add: sd_flags_def)
  have l: "sg_held g" "sg_task g = [a]" "rep (sd_links s) items (sg_items g)" "c = of_nat (sg_done g)"
    using sdI_local [OF I, of t] t by simp_all
  show "sd_flags ?g (sd_callers ?s) t (SdLoop items (c + 1))" using f by (simp add: sd_goto_def sd_flags_def)
  show "sd_local rep ?g ?s t (SdLoop items (c + 1))" using l by (simp add: sd_goto_def)
  show "sd_elsewhere t g s ?g ?s" using f l by (auto simp: sd_goto_def sd_elsewhere_def sg_nodes_def sg_linked_def)
  show "sd_lists_ok ?g ?s" using l f sdI_lists [OF I] by (auto simp: sd_goto_def sd_lists_ok_def sg_nodes_def sg_linked_def)
  show "sd_counts_ok (Suc n) ?g ?s" using sdI_counts [OF I]
    by (auto simp: sd_goto_def sd_counts_ok_def sd_references_def sd_balance_def)
  show "sd_token_ok ?g ?s" using sdI_token [OF I] f by (simp add: sd_goto_def sd_token_ok_def)
qed (simp add: sd_goto_def)

lemma sd_card_bound: "strand_inv_with rep n g s \<Longrightarrow> n < 2 ^ 61 \<Longrightarrow> sg_done g < 2 ^ 61 \<and> sd_references g s < 2 ^ 62"
  using sdI_counts [of rep n g s] by (auto simp: sd_counts_ok_def sd_references_def)

lemma strand_inv_batch_done:
  assumes I: "strand_inv_with rep n g s" and t: "sd_pc s t = SdLoop items c" and has: "\<not> il_has_items L items"
    and n: "n < 2 ^ 61"
  shows "strand_inv_with rep (Suc n)
    (if c < sd_counter s then g\<lparr>sg_done := 0\<rparr>
     else g\<lparr>sg_done := 0, sg_own := SdNobody, sg_held := False, sg_rel := insert t (sg_rel g)\<rparr>)
    (sd_goto t (if c < sd_counter s then SdAgain else SdRelease) (s\<lparr>sd_counter := sd_counter s - c\<rparr>))"
    (is "strand_inv_with _ _ ?g ?s")
proof -
  have f: "t \<notin> sd_callers s" "sg_own g = SdActivation t" "t \<notin> sg_pend g" "t \<notin> sg_rel g"
    using sdI_flags [OF I, of t] t by (simp_all add: sd_flags_def)
  have l: "sg_held g" "sg_task g = []" "rep (sd_links s) items (sg_items g)" "c = of_nat (sg_done g)"
    using sdI_local [OF I, of t] t by simp_all
  have items: "sg_items g = []" using rep_has_items [OF l(3)] has by simp
  have k: "sd_counter s = word_of_int (sd_balance g s)" "0 < sd_balance g s"
    using sdI_counts [OF I] f(2) by (auto simp: sd_counts_ok_def)
  have less: "c < sd_counter s \<longleftrightarrow> int (sg_done g) < sd_balance g s"
    using k sd_balance_bound [OF I n] sd_card_bound [OF I n] l(4) by (simp add: counter_less_iff)
  have b: "sd_balance ?g ?s = sd_balance g s - int (sg_done g)" by (simp add: sd_balance_def sd_goto_def)
  have fin: "card (insert t (sg_rel g)) = Suc (card (sg_rel g))"
    using f(4) sdI_counts [OF I] by (simp add: sd_counts_ok_def)
  show ?thesis
  proof (cases "c < sd_counter s")
    case True
    show ?thesis
    proof (rule strand_moveI [OF I, where t = t and p = SdAgain])
      show "sd_flags ?g (sd_callers ?s) t SdAgain" using f True by (simp add: sd_goto_def sd_flags_def)
      show "sd_local rep ?g ?s t SdAgain" using True l items by (simp add: sg_no_batch_def)
      show "sd_elsewhere t g s ?g ?s" using True f by (simp add: sd_goto_def sd_elsewhere_def sg_nodes_def sg_linked_def)
      show "sd_lists_ok ?g ?s" using True sdI_lists [OF I] by (simp add: sd_goto_def sd_lists_ok_def sg_nodes_def sg_linked_def)
      show "sd_counts_ok (Suc n) ?g ?s" using sdI_counts [OF I] True less b k l(4) f
        by (simp add: sd_goto_def sd_counts_ok_def sd_references_def)
      show "sd_token_ok ?g ?s" using sdI_token [OF I] True f by (simp add: sd_goto_def sd_token_ok_def)
    qed (simp add: True sd_goto_def)
  next
    case False
    show ?thesis
    proof (rule strand_moveI [OF I, where t = t and p = SdRelease])
      show "sd_flags ?g (sd_callers ?s) t SdRelease" using f False by (simp add: sd_goto_def sd_flags_def)
      show "sd_local rep ?g ?s t SdRelease" by simp
      show "sd_elsewhere t g s ?g ?s" using False f by (auto simp: sd_goto_def sd_elsewhere_def sg_nodes_def sg_linked_def)
      show "sd_lists_ok ?g ?s" using False f sdI_lists [OF I] by (simp add: sd_goto_def sd_lists_ok_def sg_nodes_def sg_linked_def)
      show "sd_counts_ok (Suc n) ?g ?s" using sdI_counts [OF I] False less b k l f fin
        by (auto simp: sd_goto_def sd_counts_ok_def sd_references_def)
      show "sd_token_ok ?g ?s" using sdI_token [OF I] False f l items by (simp add: sd_goto_def sd_token_ok_def sg_no_batch_def)
    qed (simp add: False sd_goto_def)
  qed
qed

lemma strand_inv_again:
  assumes I: "strand_inv_with rep n g s" and t: "sd_pc s t = SdAgain"
  shows "strand_inv_with rep (Suc n) (g\<lparr>sg_own := SdExecutor, sg_rel := insert t (sg_rel g)\<rparr>)
    (sd_goto t SdRelease (sd_run_next_batch s))"
    (is "strand_inv_with _ _ ?g ?s")
proof (rule strand_moveI [OF I, where t = t and p = SdRelease])
  have f: "t \<notin> sd_callers s" "sg_own g = SdActivation t" "t \<notin> sg_pend g" "t \<notin> sg_rel g"
    using sdI_flags [OF I, of t] t by (simp_all add: sd_flags_def)
  have l: "sg_held g" "sg_no_batch g" using sdI_local [OF I, of t] t by simp_all
  have fin: "card (insert t (sg_rel g)) = Suc (card (sg_rel g))"
    using f(4) sdI_counts [OF I] by (simp add: sd_counts_ok_def)
  show "sd_flags ?g (sd_callers ?s) t SdRelease" using f by (simp add: sd_goto_def sd_run_next_batch_def sd_flags_def)
  show "sd_elsewhere t g s ?g ?s" using f by (auto simp: sd_goto_def sd_run_next_batch_def sd_elsewhere_def sg_nodes_def sg_linked_def)
  show "sd_lists_ok ?g ?s" using f sdI_lists [OF I] by (simp add: sd_goto_def sd_run_next_batch_def sd_lists_ok_def sg_nodes_def sg_linked_def)
  show "sd_counts_ok (Suc n) ?g ?s" using sdI_counts [OF I] f l fin
    by (auto simp: sd_goto_def sd_run_next_batch_def sd_counts_ok_def sd_references_def sd_balance_def atomic_fetch_add_def)
  show "sd_token_ok ?g ?s" using sdI_token [OF I] f l
    by (simp add: sd_goto_def sd_run_next_batch_def sd_token_ok_def sg_no_batch_def)
qed (simp_all add: sd_goto_def sd_run_next_batch_def)

lemma strand_inv_release:
  assumes I: "strand_inv_with rep n g s" and t: "sd_pc s t = SdRelease" and n: "n < 2 ^ 61"
  shows "strand_inv_with rep (Suc n) (g\<lparr>sg_rel := sg_rel g - {t}\<rparr>) (sd_goto t SdIdle (sd_release_ref s))"
    (is "strand_inv_with _ _ ?g ?s")
proof (rule strand_moveI [OF I, where t = t and p = SdIdle])
  have f: "t \<notin> sd_callers s" "sg_own g \<noteq> SdActivation t" "t \<notin> sg_pend g" "t \<in> sg_rel g"
    using sdI_flags [OF I, of t] t by (simp_all add: sd_flags_def)
  have "finite (sg_rel g)" using sdI_counts [OF I] by (simp add: sd_counts_ok_def)
  then have c: "card (sg_rel g - {t}) = card (sg_rel g) - 1" "0 < card (sg_rel g)"
    using f by (auto simp: card_gt_0_iff)
  then have r: "sd_references ?g ?s = sd_references g s - 1" "0 < sd_references g s"
    by (simp_all add: sd_references_def sd_goto_def sd_release_ref_def atomic_fetch_sub_def)
  have one: "sd_refs s = 1 \<longleftrightarrow> sd_references g s = 1"
    using sdI_counts [OF I] sd_card_bound [OF I n] by (simp add: sd_counts_ok_def refs_one_iff)
  have b: "sd_balance ?g ?s = sd_balance g s" by (simp add: sd_balance_def sd_goto_def sd_release_ref_def atomic_fetch_sub_def)
  show "sd_flags ?g (sd_callers ?s) t SdIdle" using f by (simp add: sd_goto_def sd_release_ref_def atomic_fetch_sub_def sd_flags_def)
  show "sd_elsewhere t g s ?g ?s" using f by (auto simp: sd_goto_def sd_release_ref_def atomic_fetch_sub_def sd_elsewhere_def sg_nodes_def sg_linked_def)
  show "sd_lists_ok ?g ?s" using f sdI_lists [OF I] by (simp add: sd_goto_def sd_release_ref_def atomic_fetch_sub_def sd_lists_ok_def sg_nodes_def sg_linked_def)
  show "sd_counts_ok (Suc n) ?g ?s" using sdI_counts [OF I] r b one c
    by (auto simp: sd_goto_def sd_release_ref_def sd_counts_ok_def atomic_fetch_sub_def of_nat_diff)
  show "sd_token_ok ?g ?s" using sdI_token [OF I]
    by (simp add: sd_goto_def sd_release_ref_def atomic_fetch_sub_def sd_token_ok_def sg_no_batch_def)
qed (simp_all add: sd_goto_def sd_release_ref_def atomic_fetch_sub_def)


lemma strand_inv_start:
  assumes I: "strand_inv_with rep n g s" and t: "sd_pc s t = SdIdle" "0 < sd_scheduled s"
  shows "strand_inv_with rep (Suc n) (g\<lparr>sg_own := SdActivation t\<rparr>)
    (sd_goto t SdTake (s\<lparr>sd_scheduled := sd_scheduled s - 1\<rparr>))"
    (is "strand_inv_with _ _ ?g ?s")
proof (rule strand_moveI [OF I, where t = t and p = SdTake])
  have f: "t \<notin> sd_callers s" "t \<notin> sg_pend g" "t \<notin> sg_rel g"
    using sdI_flags [OF I, of t] t by (simp_all add: sd_flags_def)
  have own: "sg_own g = SdExecutor" "sd_scheduled s = 1" "sg_held g" "sg_no_batch g"
    using sdI_token [OF I] t(2) by (auto simp: sd_token_ok_def split: if_splits)
  show "sd_flags ?g (sd_callers ?s) t SdTake" using f by (simp add: sd_goto_def sd_flags_def)
  show "sd_local rep ?g ?s t SdTake" using own by (simp add: sg_no_batch_def)
  show "sd_elsewhere t g s ?g ?s" using own by (auto simp: sd_goto_def sd_elsewhere_def sg_nodes_def sg_linked_def)
  show "sd_lists_ok ?g ?s" using own sdI_lists [OF I] by (simp add: sd_goto_def sd_lists_ok_def sg_nodes_def sg_linked_def)
  show "sd_counts_ok (Suc n) ?g ?s" using sdI_counts [OF I] own
    by (simp add: sd_goto_def sd_counts_ok_def sd_references_def sd_balance_def)
  show "sd_token_ok ?g ?s" using sdI_token [OF I] own by (simp add: sd_goto_def sd_token_ok_def)
qed (simp add: sd_goto_def)

lemma strand_inv_drop:
  assumes I: "strand_inv_with rep n g s" and h: "sd_handle s" "sd_callers s = {}" and n: "n < 2 ^ 61"
  shows "strand_inv_with rep (Suc n) g (sd_release_ref (s\<lparr>sd_handle := False\<rparr>))"
    (is "strand_inv_with _ _ _ ?s")
proof (rule strand_moveI [OF I, where t = 0 and p = "sd_pc s 0"])
  have r: "sd_references g ?s = sd_references g s - 1" "0 < sd_references g s"
    using h by (simp_all add: sd_references_def sd_release_ref_def atomic_fetch_sub_def)
  have one: "sd_refs s = 1 \<longleftrightarrow> sd_references g s = 1"
    using sdI_counts [OF I] sd_card_bound [OF I n] by (simp add: sd_counts_ok_def refs_one_iff)
  have b: "sd_balance g ?s = sd_balance g s" by (simp add: sd_balance_def sd_release_ref_def atomic_fetch_sub_def)
  show "sd_flags g (sd_callers ?s) 0 (sd_pc s 0)"
    using sdI_flags [OF I, of 0] by (simp add: sd_release_ref_def atomic_fetch_sub_def)
  show "sd_local rep g ?s 0 (sd_pc s 0)"
    using sdI_local [OF I, of 0] by (cases "sd_pc s 0") (simp_all add: sd_release_ref_def atomic_fetch_sub_def)
  show "sd_elsewhere 0 g s g ?s" by (auto simp: sd_release_ref_def atomic_fetch_sub_def sd_elsewhere_def)
  show "sd_lists_ok g ?s" using sdI_lists [OF I] by (simp add: sd_release_ref_def atomic_fetch_sub_def sd_lists_ok_def)
  show "sd_counts_ok (Suc n) g ?s" using sdI_counts [OF I] r b one
    by (auto simp: sd_release_ref_def sd_counts_ok_def atomic_fetch_sub_def of_nat_diff)
  show "sd_token_ok g ?s" using sdI_token [OF I] h
    by (simp add: sd_release_ref_def atomic_fetch_sub_def sd_token_ok_def)
qed (simp add: sd_release_ref_def atomic_fetch_sub_def)

lemma sd_discard_result:
  assumes q: "queue_holds (sd_head s, sd_links s) q"
  shows "\<exists>h. sd_discard L s = Next (s\<lparr>sd_head := 0, sd_links := h, sd_discarded := sd_discarded s @ q,
      sd_busy := (\<lambda>a. if a \<in> set q then None else sd_busy s a)\<rparr>)"
proof -
  from take_all_step [OF q] obtain h l where h: "queue_take_all L (sd_head s, sd_links s) = Some (0, h, l)" "rep h l q"
    by blast
  from drain_all [OF h(2)] obtain h' l' where "drain L (h, l) = Some (q, h', l')" by blast
  with h(1) show ?thesis by (auto simp: sd_discard_def)
qed

lemma strand_inv_discard:
  assumes I: "strand_inv_with rep n g s" and t: "sd_pc s t = SdIdle" "0 < sd_scheduled s"
  shows "\<exists>s'. sd_discard L (s\<lparr>sd_scheduled := sd_scheduled s - 1\<rparr>) = Next s' \<and>
    strand_inv_with rep (Suc n) (g\<lparr>sg_own := SdLost, sg_queue := []\<rparr>) s'"
proof -
  have q: "queue_holds (sd_head s, sd_links s) (sg_queue g)" using sdI_lists [OF I] by (simp add: sd_lists_ok_def)
  then obtain h where d: "sd_discard L (s\<lparr>sd_scheduled := sd_scheduled s - 1\<rparr>) = Next
      (s\<lparr>sd_scheduled := sd_scheduled s - 1, sd_head := 0, sd_links := h, sd_discarded := sd_discarded s @ sg_queue g,
        sd_busy := (\<lambda>a. if a \<in> set (sg_queue g) then None else sd_busy s a)\<rparr>)" (is "_ = Next ?s")
    using sd_discard_result [of "s\<lparr>sd_scheduled := sd_scheduled s - 1\<rparr>" "sg_queue g"] by (auto cong: if_cong)
  let ?g = "g\<lparr>sg_own := SdLost, sg_queue := []\<rparr>"
  have own: "sg_own g = SdExecutor" "sd_scheduled s = 1" "sg_held g" "sg_no_batch g"
    using sdI_token [OF I] t(2) by (auto simp: sd_token_ok_def split: if_splits)
  have k: "0 < sd_balance g s" using sdI_counts [OF I] own by (auto simp: sd_counts_ok_def)
  have "sd_discarded s = []" using sdI_lists [OF I] own by (simp add: sd_lists_ok_def)
  with k own have ne: "sg_queue g \<noteq> []"
    using sdI_lists [OF I] by (auto simp: sd_balance_def sd_lists_ok_def sg_nodes_def sg_linked_def sg_no_batch_def)
  have "strand_inv_with rep (Suc n) ?g ?s"
  proof (rule strand_moveI [OF I, where t = t and p = SdIdle])
    show "sd_flags ?g (sd_callers ?s) t SdIdle" using sdI_flags [OF I, of t] t by (simp add: sd_flags_def)
    show "sd_elsewhere t g s ?g ?s" using own by (auto simp: sd_elsewhere_def sg_nodes_def sg_linked_def)
    show "sd_lists_ok ?g ?s" using own ne sdI_lists [OF I] by (simp add: sd_lists_ok_def sg_nodes_def sg_linked_def sg_no_batch_def)
    show "sd_counts_ok (Suc n) ?g ?s" using sdI_counts [OF I] own k
      by (simp add: sd_counts_ok_def sd_references_def sd_balance_def)
    show "sd_token_ok ?g ?s" using sdI_token [OF I] own by (simp add: sd_token_ok_def sg_no_batch_def)
  qed (use t in \<open>simp_all add: fun_upd_idem\<close>)
  with d show ?thesis by blast
qed

lemma strand_alive:
  assumes I: "strand_inv_with rep n g s" and t: "sd_pc s t \<noteq> SdIdle"
  shows "sd_alive s"
proof -
  have "0 < sd_references g s"
  proof (cases "sd_in_execute (sd_pc s t) \<or> sd_pc s t = SdRelease")
    case True
    with sdI_flags [OF I, of t] sdI_token [OF I] sdI_counts [OF I] show ?thesis
      by (auto simp: sd_flags_def sd_token_ok_def sd_counts_ok_def sd_references_def card_gt_0_iff)
  next
    case False
    with t sdI_local [OF I, of t] show ?thesis by (cases "sd_pc s t") (auto simp: sd_references_def)
  qed
  with sdI_counts [OF I] show ?thesis by (simp add: sd_counts_ok_def)
qed

lemma strand_step_run_inv:
  assumes I: "strand_inv_with rep n g s" and n: "n < 2 ^ 61"
  shows "lands_in (strand_inv rep (Suc n)) (strand_step L (SdEvRun t b) s)"
proof (cases "sd_pc s t")
  case (SdPush a)
  obtain ok head h where put: "queue_put_attempt L b a (sd_head s, sd_links s) = (ok, head, h)"
    by (cases "queue_put_attempt L b a (sd_head s, sd_links s)")
  with SdPush show ?thesis
    using strand_alive [OF I, of t] strand_inv_put_ok [OF I SdPush, of b head h]
      strand_inv_put_fail [OF I SdPush, of b head h]
    by (cases ok) (auto simp: sd_execute_def dest!: strand_invI)
next
  case SdCount
  with strand_alive [OF I, of t] strand_inv_count [OF I SdCount n] show ?thesis
    by (cases "sd_counter s = 0") (auto simp: sd_execute_def atomic_simps Let_def dest!: strand_invI)
next
  case SdSubmit
  with strand_alive [OF I, of t] strand_inv_submit [OF I SdSubmit] show ?thesis
    by (auto simp: sd_execute_def dest!: strand_invI)
next
  case SdTake
  have "queue_holds (sd_head s, sd_links s) (sg_queue g)" using sdI_lists [OF I] by (simp add: sd_lists_ok_def)
  from take_all_step [OF this] obtain h l where "queue_take_all L (sd_head s, sd_links s) = Some (0, h, l)" by blast
  with SdTake strand_alive [OF I, of t] strand_inv_take [OF I SdTake this] show ?thesis
    by (auto simp: sd_execute_def sd_run_def dest!: strand_invI)
next
  case (SdLoop items c)
  obtain a h items' where pop: "il_pop_front L (sd_links s) items = (a, h, items')"
    by (cases "il_pop_front L (sd_links s) items")
  with SdLoop strand_alive [OF I, of t] strand_inv_pop [OF I SdLoop _ pop] strand_inv_batch_done [OF I SdLoop _ n]
  show ?thesis
    by (auto simp: sd_execute_def sd_run_def atomic_simps dest!: strand_invI)
next
  case (SdTask items c a)
  with strand_alive [OF I, of t] strand_inv_task_done [OF I SdTask] show ?thesis
    by (auto simp: sd_execute_def sd_run_def dest!: strand_invI)
next
  case SdAgain
  with strand_alive [OF I, of t] strand_inv_again [OF I SdAgain] show ?thesis
    by (auto simp: sd_execute_def sd_run_def dest!: strand_invI)
next
  case SdRelease
  with strand_alive [OF I, of t] strand_inv_release [OF I SdRelease n] show ?thesis
    by (auto simp: sd_execute_def sd_run_def dest!: strand_invI)
qed simp

lemma strand_step_inv:
  assumes I: "strand_inv rep n s" and n: "n < 2 ^ 61"
  shows "lands_in (strand_inv rep (Suc n)) (strand_step L e s)"
proof -
  from I obtain g where I: "strand_inv_with rep n g s" by (auto simp: strand_inv_def)
  have alive: "sd_alive s" if "sd_handle s \<or> 0 < sd_scheduled s"
    using that sdI_counts [OF I] sdI_token [OF I]
    by (auto simp: sd_counts_ok_def sd_token_ok_def sd_references_def split: if_splits)
  show ?thesis
  proof (cases e)
    case (SdEvExecute t a)
    with strand_inv_execute [OF I, of t a] show ?thesis by (auto dest!: strand_invI)
  next
    case (SdEvRun t b)
    with strand_step_run_inv [OF I n] show ?thesis by simp
  next
    case (SdEvStart t)
    with strand_inv_start [OF I, of t] show ?thesis by (auto dest!: strand_invI)
  next
    case (SdEvDiscard t)
    with strand_inv_discard [OF I, of t] alive show ?thesis by (auto dest!: strand_invI)
  next
    case SdEvDrop
    with strand_inv_drop [OF I] n alive show ?thesis by (auto dest!: strand_invI)
  qed
qed

lemma strand_inv_init: "strand_inv rep 0 strand_init"
proof -
  have "strand_inv_with rep 0 \<lparr>sg_own = SdNobody, sg_queue = [], sg_items = [], sg_task = [], sg_done = 0,
     sg_held = False, sg_pend = {}, sg_rel = {}\<rparr> strand_init"
    by (simp add: strand_inv_with_def strand_init_def sd_unfold)
  then show ?thesis by (rule strand_invI)
qed

end

sublocale intrusive_list \<subseteq> strand: counted_machine "strand_step L" strand_init "strand_inv rep" "2 ^ 61"
  by (rule counted_machineI [OF strand_inv_init strand_step_inv])


subsection \<open>What a strand is: a serial executor\<close>

text \<open>
  The abstract machine: tasks are submitted, and the next task that has not been run is run; once the
  pending tasks have been discarded nothing runs any more.
\<close>

record serial =
  sr_submitted :: "addr list"
  sr_ran :: "addr list"
  sr_discarded :: "addr list"

datatype serial_event = SrSubmit addr | SrRunNext | SrDiscardPending

fun serial_step :: "serial_event \<Rightarrow> serial \<Rightarrow> serial outcome" where
  "serial_step (SrSubmit a) s = Next (s\<lparr>sr_submitted := sr_submitted s @ [a]\<rparr>)"
| "serial_step SrRunNext s =
     (if sr_discarded s = [] \<and> length (sr_ran s) < length (sr_submitted s)
      then Next (s\<lparr>sr_ran := sr_ran s @ [sr_submitted s ! length (sr_ran s)]\<rparr>) else Disabled)"
| "serial_step SrDiscardPending s =
     (if sr_discarded s = [] then Next (s\<lparr>sr_discarded := drop (length (sr_ran s)) (sr_submitted s)\<rparr>) else Disabled)"

definition serial_init :: serial where
  "serial_init = \<lparr>sr_submitted = [], sr_ran = [], sr_discarded = []\<rparr>"

definition strand_abs :: "'l strand \<Rightarrow> serial" where
  "strand_abs s = \<lparr>sr_submitted = sd_submitted s, sr_ran = sd_ran s, sr_discarded = sd_discarded s\<rparr>"

lemma sd_task_next:
  assumes I: "strand_inv_with rep n g s" and t: "sd_pc s t = SdTask items c a"
  shows "sd_discarded s = [] \<and> length (sd_ran s) < length (sd_submitted s) \<and> sd_submitted s ! length (sd_ran s) = a"
proof -
  have "sg_own g = SdActivation t" "sg_task g = [a]"
    using sdI_flags [OF I, of t] sdI_local [OF I, of t] t by (simp_all add: sd_flags_def)
  with sdI_lists [OF I] show ?thesis by (simp add: sd_lists_ok_def sg_nodes_def sg_linked_def)
qed

context intrusive_list
begin

lemma strand_step_abs:
  assumes I: "strand_inv rep n s" and "n < 2 ^ 61" and step: "strand_step L e s = Next s'"
  shows "strand_abs s' = strand_abs s \<or> (\<exists>a. serial_step a (strand_abs s) = Next (strand_abs s'))"
proof -
  from I obtain g where I: "strand_inv_with rep n g s" by (auto simp: strand_inv_def)
  show ?thesis
  proof (cases e)
    case (SdEvRun t b)
    note step = step [unfolded SdEvRun]
    show ?thesis
    proof (cases "sd_pc s t")
      case (SdPush a)
      then have "strand_abs s' = strand_abs s \<or> serial_step (SrSubmit a) (strand_abs s) = Next (strand_abs s')"
        using step by (auto simp: sd_execute_def sd_goto_def strand_abs_def Let_def split: if_splits prod.splits)
      then show ?thesis by blast
    next
      case (SdTask items c a)
      then have "serial_step SrRunNext (strand_abs s) = Next (strand_abs s')"
        using step sd_task_next [OF I SdTask]
        by (auto simp: sd_execute_def sd_run_def sd_goto_def strand_abs_def split: if_splits)
      then show ?thesis by blast
    qed (use step in \<open>auto simp: sd_execute_def sd_run_def sd_goto_def sd_return_def strand_abs_def
        sd_run_next_batch_def sd_release_ref_def atomic_simps Let_def split: if_splits option.splits prod.splits\<close>)
  next
    case (SdEvDiscard t)
    let ?s = "s\<lparr>sd_scheduled := sd_scheduled s - 1\<rparr>"
    have sch: "0 < sd_scheduled s" "sd_discard L ?s = Next s'"
      using step SdEvDiscard by (auto split: if_splits)
    have q: "queue_holds (sd_head s, sd_links s) (sg_queue g)" using sdI_lists [OF I] by (simp add: sd_lists_ok_def)
    have own: "sg_own g = SdExecutor" "sg_no_batch g"
      using sdI_token [OF I] sch(1) by (auto simp: sd_token_ok_def split: if_splits)
    from sd_discard_result [of ?s "sg_queue g"] q sch(2)
    have "strand_abs s' = (strand_abs s)\<lparr>sr_discarded := sd_discarded s @ sg_queue g\<rparr>"
      by (auto simp: strand_abs_def)
    then have "serial_step SrDiscardPending (strand_abs s) = Next (strand_abs s')"
      using own sdI_lists [OF I] by (auto simp: strand_abs_def sd_lists_ok_def sg_nodes_def sg_linked_def sg_no_batch_def)
    then show ?thesis by blast
  qed (use step in \<open>auto simp: sd_goto_def sd_release_ref_def atomic_simps strand_abs_def split: if_splits\<close>)
qed

end

sublocale intrusive_list \<subseteq> strand: machine_refinement "strand_step L" strand_init "strand_inv rep" "2 ^ 61" serial_step strand_abs
  by unfold_locales (rule strand_step_abs)

context intrusive_list
begin

lemma strand_reach:
  assumes "exec (strand_step L) es strand_init = Next s" and "length es \<le> 2 ^ 61"
  shows "\<exists>g. strand_inv_with rep (length es) g s"
  using strand.cm_exec_inv [OF assms] by (auto simp: strand_inv_def)

lemma strand_refines:
  "exec (strand_step L) es strand_init = Next s \<Longrightarrow> length es \<le> 2 ^ 61 \<Longrightarrow>
    \<exists>as. exec serial_step as serial_init = Next (strand_abs s)"
  using strand.mr_exec [of es s] by (simp add: strand_abs_def strand_init_def serial_init_def)

lemma strand_safe: "length es \<le> 2 ^ 61 \<Longrightarrow> exec (strand_step L) es strand_init \<noteq> Fault x"
  by (rule strand.cm_exec_no_fault)

lemma strand_lost_from:
  "exec (strand_step L) es s = Next s' \<Longrightarrow> strand_inv rep n s \<Longrightarrow> n + length es \<le> 2 ^ 61 \<Longrightarrow> sd_discarded s \<noteq> [] \<Longrightarrow>
    sd_ran s' = sd_ran s \<and> sd_discarded s' = sd_discarded s"
proof (induction es arbitrary: s n)
  case Nil
  then show ?case by simp
next
  case (Cons e es)
  then obtain u where u: "strand_step L e s = Next u" "exec (strand_step L) es u = Next s'"
    by (auto split: outcome.splits)
  have n: "n < 2 ^ 61" "Suc n + length es \<le> 2 ^ 61" using Cons.prems(3) by simp_all
  have J: "strand_inv rep (Suc n) u" using strand_step_inv [OF Cons.prems(2) n(1), of e] u(1) by simp
  obtain a where "strand_abs u = strand_abs s \<or> serial_step a (strand_abs s) = Next (strand_abs u)"
    using strand_step_abs [OF Cons.prems(2) n(1) u(1)] by blast
  then have "sd_ran u = sd_ran s \<and> sd_discarded u = sd_discarded s"
    using Cons.prems(4) by (cases a) (auto simp: strand_abs_def)
  with Cons.IH [OF u(2) J n(2)] Cons.prems(4) show ?case by simp
qed

end

lemma strand_idle_token:
  assumes I: "strand_inv_with rep n g s" and idle: "\<forall>t. sd_pc s t = SdIdle" and "sd_scheduled s = 0" "sd_discarded s = []"
  shows "sg_own g = SdNobody \<and> sg_pend g = {} \<and> sg_rel g = {} \<and> sg_no_batch g \<and> \<not> sg_held g"
proof -
  have f: "sg_own g \<noteq> SdActivation t \<and> t \<notin> sg_pend g \<and> t \<notin> sg_rel g" for t
    using sdI_flags [OF I, of t] idle by (simp add: sd_flags_def)
  have "sg_own g = SdNobody"
    using f sdI_token [OF I] sdI_lists [OF I] assms(3,4)
    by (cases "sg_own g") (auto simp: sd_token_ok_def sd_lists_ok_def)
  with f sdI_token [OF I] show ?thesis by (auto simp: sd_token_ok_def)
qed

subsection \<open>Concrete runs\<close>

text \<open>
  Two submissions, the second one put but not yet counted while the first batch runs both tasks; the
  subtraction of \<open>completed\<close> makes the counter wrap below zero, and the late increment brings it back.
\<close>

definition strand_submit_two :: "strand_event list" where
  "strand_submit_two = [SdEvExecute 1 16, SdEvExecute 2 32, SdEvRun 2 True, SdEvRun 1 False, SdEvRun 1 False, SdEvRun 1 False,
     SdEvRun 2 False, SdEvRun 2 False, SdEvStart 3, SdEvRun 3 False, SdEvRun 3 False]"

definition strand_finish_two :: "strand_event list" where
  "strand_finish_two = strand_submit_two @ [SdEvRun 3 False, SdEvRun 3 False, SdEvRun 3 False, SdEvRun 3 False,
     SdEvRun 2 False, SdEvRun 3 False, SdEvDrop]"

definition strand_discard_run :: "strand_event list" where
  "strand_discard_run = [SdEvExecute 1 16, SdEvRun 1 False, SdEvRun 1 False, SdEvRun 1 False, SdEvDiscard 2]"

lemma strand_two_tasks:
  "\<exists>s l c. exec (strand_step ptr_list) strand_submit_two strand_init = Next s \<and> sd_pc s 3 = SdTask l c 16 \<and>
     sd_pc s 2 = SdCount \<and> sd_submitted s = [16, 32] \<and> sd_ran s = []"
  by (simp add: machine_simps ptr_run_simps strand_submit_two_def)

lemma strand_two_finished:
  "\<exists>s. exec (strand_step ptr_list) strand_finish_two strand_init = Next s \<and> (\<forall>t. sd_pc s t = SdIdle) \<and>
     sd_scheduled s = 0 \<and> sd_discarded s = [] \<and> sd_submitted s = [16, 32] \<and> \<not> sd_handle s"
  by (simp add: machine_simps ptr_run_simps strand_submit_two_def strand_finish_two_def exec_append insert_Diff_if)

lemma strand_discarded:
  "\<exists>s. exec (strand_step ptr_list) strand_discard_run strand_init = Next s \<and> sd_discarded s = [16] \<and>
     (\<exists>s'. exec (strand_step ptr_list) [SdEvExecute 3 48, SdEvRun 3 False, SdEvRun 3 False, SdEvDrop] s = Next s' \<and>
       sd_ran s' = sd_ran s \<and> sd_submitted s' = [16, 48])"
  by (simp add: machine_simps ptr_run_simps drain.simps strand_discard_run_def)

context intrusive_list
begin

lemma strand_all_ran:
  assumes "exec (strand_step L) es strand_init = Next s" and "length es \<le> 2 ^ 61"
    and "\<forall>t. sd_pc s t = SdIdle" and "sd_scheduled s = 0" and "sd_discarded s = []"
  shows "sd_ran s = sd_submitted s"
proof -
  from strand_reach [OF assms(1,2)] obtain g where I: "strand_inv_with rep (length es) g s" by blast
  from strand_idle_token [OF I assms(3-5)] sdI_counts [OF I] sdI_lists [OF I] assms(5) show ?thesis
    by (simp add: sd_counts_ok_def sd_lists_ok_def sd_balance_def sg_no_batch_def sg_nodes_def sg_linked_def)
qed

lemma strand_scheduled_once: "exec (strand_step L) es strand_init = Next s \<Longrightarrow> length es \<le> 2 ^ 61 \<Longrightarrow> sd_scheduled s \<le> 1"
  using strand_reach [of es s] sdI_token by (fastforce simp: sd_token_ok_def)

lemma strand_no_callers:
  assumes "exec (strand_step L) es strand_init = Next s" and "length es \<le> 2 ^ 61" and "sd_callers s = {}"
  shows "\<not> sd_in_execute (sd_pc s t)"
  using strand_reach [OF assms(1,2)] sdI_flags [of rep "length es" _ s t] assms(3) by (auto simp: sd_flags_def)

end

subsection \<open>Properties\<close>

text \<open>
  C3. Tasks of a strand never run at the same time: at most one activation is inside a task, whatever the
  submitters do and on however many threads the underlying executor runs the strand. (The bound on the
  number of steps keeps the \<open>size_t\<close> counter from wrapping around.)
\<close>

theorem strand_serial:
  assumes "intrusive_list L rep" and "exec (strand_step L) es strand_init = Next s" and "length es \<le> 2 ^ 61"
    and "sd_pc s t = SdTask items c a" and "sd_pc s u = SdTask items' c' b"
  shows "t = u"
proof -
  from intrusive_list.strand_reach [OF assms(1-3)] obtain g where "strand_inv_with rep (length es) g s" by blast
  from sdI_flags [OF this, of t] sdI_flags [OF this, of u] assms(4,5) show ?thesis by (simp add: sd_flags_def)
qed

theorem strand_serial_witness:
  "\<exists>s. exec (strand_step ptr_list) strand_submit_two strand_init = Next s \<and> (\<forall>u l c b. sd_pc s u = SdTask l c b \<longrightarrow> u = 3)"
proof -
  from strand_two_tasks obtain s l c where s: "exec (strand_step ptr_list) strand_submit_two strand_init = Next s"
    "sd_pc s 3 = SdTask l c 16" by blast
  have "length strand_submit_two \<le> 2 ^ 61" by (simp add: strand_submit_two_def)
  from strand_serial [OF ptr.intrusive_list_axioms s(1) this _ s(2)] s show ?thesis by blast
qed

text \<open>
  C4. A strand is a serial executor: every run of the lock-free code, seen through what was submitted, run
  and discarded, is a run of the abstract machine that executes the tasks one after the other in the
  order of their submission, each once.
\<close>

theorem strand_refines_serial:
  assumes "intrusive_list L rep" and "exec (strand_step L) es strand_init = Next s" and "length es \<le> 2 ^ 61"
  shows "\<exists>as. exec serial_step as serial_init = Next (strand_abs s)"
  by (rule intrusive_list.strand_refines [OF assms])

theorem strand_refines_serial_witness:
  "\<exists>s as. exec (strand_step ptr_list) strand_finish_two strand_init = Next s \<and>
     exec serial_step as serial_init = Next (strand_abs s)"
proof -
  from strand_two_finished obtain s where s: "exec (strand_step ptr_list) strand_finish_two strand_init = Next s" by blast
  have "length strand_finish_two \<le> 2 ^ 61" by (simp add: strand_submit_two_def strand_finish_two_def)
  from strand_refines_serial [OF ptr.intrusive_list_axioms s this] s show ?thesis by blast
qed

text \<open>
  C5. No task is lost, unless the executor discards the strand: when no call is in progress, the strand is not scheduled
  and nothing was discarded, every submitted task has run, in order of submission.
\<close>

theorem strand_runs_everything:
  assumes "intrusive_list L rep" and "exec (strand_step L) es strand_init = Next s" and "length es \<le> 2 ^ 61"
    and "\<forall>t. sd_pc s t = SdIdle" and "sd_scheduled s = 0" and "sd_discarded s = []"
  shows "sd_ran s = sd_submitted s"
  by (rule intrusive_list.strand_all_ran [OF assms])

theorem strand_runs_everything_witness:
  "\<exists>s. exec (strand_step ptr_list) strand_finish_two strand_init = Next s \<and> sd_ran s = [16, 32]"
proof -
  from strand_two_finished obtain s where s: "exec (strand_step ptr_list) strand_finish_two strand_init = Next s"
    "\<forall>t. sd_pc s t = SdIdle" "sd_scheduled s = 0" "sd_discarded s = []" "sd_submitted s = [16, 32]" by blast
  have "length strand_finish_two \<le> 2 ^ 61" by (simp add: strand_submit_two_def strand_finish_two_def)
  from strand_runs_everything [OF ptr.intrusive_list_axioms s(1) this s(2-4)] s show ?thesis by auto
qed

text \<open>
  No operation touches a destroyed strand, and no walk over its tasks diverges.
\<close>

theorem strand_no_failure:
  assumes "intrusive_list L rep" and "length es \<le> 2 ^ 61"
  shows "exec (strand_step L) es strand_init \<noteq> Fault x"
  by (rule intrusive_list.strand_safe [OF assms])

theorem strand_no_failure_witness:
  "exec (strand_step ptr_list) strand_finish_two strand_init \<noteq> Fault UseAfterFree"
  by (rule strand_no_failure [OF ptr.intrusive_list_axioms]) (simp add: strand_submit_two_def strand_finish_two_def)

text \<open>
  The strand is freed exactly when it should be: after its owner has dropped it and everything has
  come to rest, the object is destroyed.
\<close>

theorem strand_destroyed:
  assumes "intrusive_list L rep" and "exec (strand_step L) es strand_init = Next s" and "length es \<le> 2 ^ 61"
    and "\<forall>t. sd_pc s t = SdIdle" and "sd_scheduled s = 0" and "sd_discarded s = []"
  shows "sd_alive s \<longleftrightarrow> sd_handle s"
proof -
  from intrusive_list.strand_reach [OF assms(1-3)] obtain g where I: "strand_inv_with rep (length es) g s" by blast
  from strand_idle_token [OF I assms(4-6)] sdI_counts [OF I] show ?thesis
    by (simp add: sd_counts_ok_def sd_references_def)
qed

theorem strand_destroyed_witness:
  "\<exists>s. exec (strand_step ptr_list) strand_finish_two strand_init = Next s \<and> \<not> sd_alive s"
proof -
  from strand_two_finished obtain s where s: "exec (strand_step ptr_list) strand_finish_two strand_init = Next s"
    "\<forall>t. sd_pc s t = SdIdle" "sd_scheduled s = 0" "sd_discarded s = []" "\<not> sd_handle s" by blast
  have "length strand_finish_two \<le> 2 ^ 61" by (simp add: strand_submit_two_def strand_finish_two_def)
  from strand_destroyed [OF ptr.intrusive_list_axioms s(1) this s(2-4)] s show ?thesis by auto
qed

text \<open>
  \<open>Discard\<close> neither subtracts the discarded tasks from the counter nor releases the reference: once the
  underlying executor has discarded a strand, no later submission is ever run, and the strand is
  never destroyed.
\<close>

theorem strand_discard_is_final:
  assumes "intrusive_list L rep" and "exec (strand_step L) es strand_init = Next s" and "sd_discarded s \<noteq> []"
    and "exec (strand_step L) es' s = Next s'" and "length es + length es' \<le> 2 ^ 61"
  shows "sd_ran s' = sd_ran s \<and> sd_alive s'"
proof -
  have "length es \<le> 2 ^ 61" using assms(5) by simp
  from intrusive_list.strand_reach [OF assms(1,2) this] have I: "strand_inv rep (length es) s"
    by (auto dest: strand_invI)
  note lost = intrusive_list.strand_lost_from [OF assms(1,4) I assms(5,3)]
  have "exec (strand_step L) (es @ es') strand_init = Next s'" using assms(2,4) by (simp add: exec_append)
  from intrusive_list.strand_reach [OF assms(1) this] assms(5)
  obtain g where J: "strand_inv_with rep (length (es @ es')) g s'" by auto
  from lost assms(3) sdI_lists [OF J] have "sg_own g = SdLost" by (auto simp: sd_lists_ok_def)
  with sdI_token [OF J] sdI_counts [OF J] have "sd_alive s'"
    by (simp add: sd_token_ok_def sd_counts_ok_def sd_references_def)
  with lost show ?thesis by blast
qed

theorem strand_discard_is_final_witness:
  "\<exists>s s'. exec (strand_step ptr_list) strand_discard_run strand_init = Next s \<and>
     exec (strand_step ptr_list) [SdEvExecute 3 48, SdEvRun 3 False, SdEvRun 3 False, SdEvDrop] s = Next s' \<and>
     sd_ran s' = sd_ran s \<and> sd_alive s'"
proof -
  from strand_discarded obtain s s' where s: "exec (strand_step ptr_list) strand_discard_run strand_init = Next s"
    "sd_discarded s = [16]" "exec (strand_step ptr_list) [SdEvExecute 3 48, SdEvRun 3 False, SdEvRun 3 False, SdEvDrop] s = Next s'"
    by blast
  from strand_discard_is_final [OF ptr.intrusive_list_axioms s(1) _ s(3)] s show ?thesis
    by (auto simp: strand_discard_run_def)
qed

end
