(* ===== verification/Result.thy ===== *)
theory Result
  imports Prelude
begin

section \<open>Results and errors\<close>

text \<open>
  \<open>common/result.h\<close> and \<open>common/result/\<close>: \<open>Error\<close> is a variant of nothing, an exception or an error
  code; \<open>Result<T>\<close> is raw storage for a value next to an \<open>Error\<close>, with hand-written copying, moving and
  destruction; \<open>make_result\<close> builds results.

  The type \<open>'e\<close> is the type of exception objects. A null \<open>exception_ptr\<close> is \<open>None\<close>. The element type \<open>T\<close>
  is \<open>'a\<close>; what its move leaves behind in the source is the parameter \<open>mv\<close>. Its constructors
  are taken not to throw. Storage is checked: reading or destroying an object that is not
  there, and constructing over a live one, is a fault. Result objects live in a store so that an
  assignment can have the same object on both sides.
\<close>

subsection \<open>Calls that return, throw, or have no defined behaviour\<close>

record error_code =
  ec_value :: i32
  ec_category :: string

datatype 'e thrown = Rethrown 'e | SystemError error_code

datatype ('e, 'a) call = Returns 'a | Throws "'e thrown" | Undefined fault

fun call_bind :: "('e, 'a) call \<Rightarrow> ('a \<Rightarrow> ('e, 'b) call) \<Rightarrow> ('e, 'b) call" where
  "call_bind (Returns x) f = f x"
| "call_bind (Throws e) f = Throws e"
| "call_bind (Undefined x) f = Undefined x"

lemma call_bind_returns [simp]: "call_bind c f = Returns y \<longleftrightarrow> (\<exists>x. c = Returns x \<and> f x = Returns y)"
  by (cases c) auto

lemma call_bind_assoc: "call_bind (call_bind c f) g = call_bind c (\<lambda>x. call_bind (f x) g)"
  by (cases c) auto

subsection \<open>Error\<close>

datatype 'e error = NoError | HoldsException "'e option" | HoldsCode error_code

fun err_has_exception :: "'e error \<Rightarrow> bool" where
  "err_has_exception (HoldsException _) = True"
| "err_has_exception _ = False"

fun err_has_error_code :: "'e error \<Rightarrow> bool" where
  "err_has_error_code (HoldsCode _) = True"
| "err_has_error_code _ = False"

definition err_has_error :: "'e error \<Rightarrow> bool" where
  "err_has_error e \<longleftrightarrow> err_has_error_code e \<or> err_has_exception e"

fun err_error_code :: "'e error \<Rightarrow> ('e, error_code) call" where
  "err_error_code (HoldsCode c) = Returns c"
| "err_error_code _ = Undefined (AssertFailed ''HasErrorCode()'')"

fun err_throw_if_error :: "'e error \<Rightarrow> ('e, unit) call" where
  "err_throw_if_error (HoldsException (Some e)) = Throws (Rethrown e)"
| "err_throw_if_error (HoldsException None) = Undefined NullDereference"
| "err_throw_if_error (HoldsCode c) = Throws (SystemError c)"
| "err_throw_if_error NoError = Returns ()"

text \<open>Moving a variant moves the value it holds and keeps the alternative; a moved \<open>exception_ptr\<close> is null.\<close>

fun err_moved :: "'e error \<Rightarrow> 'e error" where
  "err_moved (HoldsException _) = HoldsException None"
| "err_moved e = e"

lemma err_has_error_simps [simp]:
  "\<not> err_has_error NoError" "err_has_error (HoldsException p)" "err_has_error (HoldsCode c)"
  by (simp_all add: err_has_error_def)

lemma err_moved_has_error [simp]: "err_has_error (err_moved e) \<longleftrightarrow> err_has_error e"
  by (cases e) simp_all

lemma err_no_error_iff: "\<not> err_has_error e \<longleftrightarrow> e = NoError"
  by (cases e) simp_all

subsection \<open>ValueStorage\<close>

datatype 'a storage = Raw | Holds 'a

fun vs_construct :: "'a \<Rightarrow> 'a storage \<Rightarrow> ('e, 'a storage) call" where
  "vs_construct v Raw = Returns (Holds v)"
| "vs_construct v (Holds _) = Undefined (Panic ''constructed over a live object'')"

fun vs_ref :: "'a storage \<Rightarrow> ('e, 'a) call" where
  "vs_ref (Holds v) = Returns v"
| "vs_ref Raw = Undefined UseAfterFree"

fun vs_destroy :: "'a storage \<Rightarrow> ('e, 'a storage) call" where
  "vs_destroy (Holds _) = Returns Raw"
| "vs_destroy Raw = Undefined UseAfterFree"

subsection \<open>Result objects\<close>

record ('e, 'a) result_object =
  ro_value :: "'a storage"
  ro_error :: "'e error"

type_synonym ('e, 'a) results = "nat \<Rightarrow> ('e, 'a) result_object option"

definition res_has_error :: "('e, 'a) result_object \<Rightarrow> bool" where
  "res_has_error r \<longleftrightarrow> err_has_error (ro_error r)"

definition res_is_ok :: "('e, 'a) result_object \<Rightarrow> bool" where
  "res_is_ok r \<longleftrightarrow> \<not> res_has_error r"

definition res_has_value :: "('e, 'a) result_object \<Rightarrow> bool" where
  "res_has_value r \<longleftrightarrow> \<not> res_has_error r"

definition res_throw_if_error :: "('e, 'a) result_object \<Rightarrow> ('e, unit) call" where
  "res_throw_if_error r = err_throw_if_error (ro_error r)"

definition res_error_code :: "('e, 'a) result_object \<Rightarrow> ('e, error_code) call" where
  "res_error_code r = err_error_code (ro_error r)"

definition res_match_error_code :: "('e, 'a) result_object \<Rightarrow> i32 \<Rightarrow> ('e, bool) call" where
  "res_match_error_code r expected = call_bind (err_error_code (ro_error r)) (\<lambda>c. Returns (ec_value c = expected))"

definition res_value_unsafe :: "('e, 'a) result_object \<Rightarrow> ('e, 'a) call" where
  "res_value_unsafe r = vs_ref (ro_value r)"

definition res_value_or_throw :: "('e, 'a) result_object \<Rightarrow> ('e, 'a) call" where
  "res_value_or_throw r = call_bind (res_throw_if_error r) (\<lambda>_. vs_ref (ro_value r))"

text \<open>\<open>Unwrap\<close> and the conversion of an rvalue: the value is moved out of the object.\<close>

definition res_take_value :: "('a \<Rightarrow> 'a) \<Rightarrow> ('e, 'a) result_object \<Rightarrow> ('e, 'a \<times> ('e, 'a) result_object) call" where
  "res_take_value mv r = call_bind (res_value_or_throw r) (\<lambda>v. Returns (v, r\<lparr>ro_value := Holds (mv v)\<rparr>))"

definition res_empty :: "('e, 'a) result_object" where
  "res_empty = \<lparr>ro_value = Raw, ro_error = NoError\<rparr>"

definition res_ok :: "'a \<Rightarrow> ('e, 'a) result_object \<Rightarrow> ('e, ('e, 'a) result_object) call" where
  "res_ok v r = call_bind (vs_construct v (ro_value r)) (\<lambda>st. Returns (r\<lparr>ro_value := st\<rparr>))"

definition res_fail :: "'e error \<Rightarrow> ('e, ('e, 'a) result_object) call" where
  "res_fail e =
     (if err_has_error e then Returns \<lparr>ro_value = Raw, ro_error = e\<rparr>
      else Undefined (AssertFailed ''error.HasError()''))"

definition res_destroy_value_if_exists :: "('e, 'a) result_object \<Rightarrow> ('e, ('e, 'a) result_object) call" where
  "res_destroy_value_if_exists r =
     (if res_is_ok r then call_bind (vs_destroy (ro_value r)) (\<lambda>st. Returns (r\<lparr>ro_value := st\<rparr>)) else Returns r)"

text \<open>
  \<open>MoveImpl\<close> and \<open>CopyImpl\<close> on the store: each read and write goes to the object where it is now, so
  they mean what the code means also when \<open>d\<close> and \<open>s\<close> are the same object.
\<close>

definition res_get :: "('e, 'a) results \<Rightarrow> nat \<Rightarrow> ('e, ('e, 'a) result_object) call" where
  "res_get H i = (case H i of Some r \<Rightarrow> Returns r | None \<Rightarrow> Undefined UseAfterFree)"

definition res_move_impl :: "('a \<Rightarrow> 'a) \<Rightarrow> nat \<Rightarrow> nat \<Rightarrow> ('e, 'a) results \<Rightarrow> ('e, ('e, 'a) results) call" where
  "res_move_impl mv d s H =
     call_bind (res_get H d) (\<lambda>rd. call_bind (res_get H s) (\<lambda>rs.
       let e = ro_error rs;
           H1 = (if d = s then H else H(s \<mapsto> rs\<lparr>ro_error := err_moved e\<rparr>, d \<mapsto> rd\<lparr>ro_error := e\<rparr>)) in
       call_bind (res_get H1 s) (\<lambda>rs.
         if \<not> res_has_value rs then Returns H1
         else call_bind (res_value_unsafe rs) (\<lambda>v.
           call_bind (res_get H1 d) (\<lambda>rd. call_bind (vs_construct v (ro_value rd)) (\<lambda>st.
             Returns (H1(s \<mapsto> rs\<lparr>ro_value := Holds (mv v)\<rparr>, d \<mapsto> rd\<lparr>ro_value := st\<rparr>))))))))"

definition res_copy_impl :: "nat \<Rightarrow> nat \<Rightarrow> ('e, 'a) results \<Rightarrow> ('e, ('e, 'a) results) call" where
  "res_copy_impl d s H =
     call_bind (res_get H d) (\<lambda>rd. call_bind (res_get H s) (\<lambda>rs.
       let H1 = H(d \<mapsto> rd\<lparr>ro_error := ro_error rs\<rparr>) in
       call_bind (res_get H1 s) (\<lambda>rs.
         if \<not> res_has_value rs then Returns H1
         else call_bind (res_value_unsafe rs) (\<lambda>v.
           call_bind (res_get H1 d) (\<lambda>rd. call_bind (vs_construct v (ro_value rd)) (\<lambda>st.
             Returns (H1(d \<mapsto> rd\<lparr>ro_value := st\<rparr>))))))))"

definition res_destroy_value_at :: "nat \<Rightarrow> ('e, 'a) results \<Rightarrow> ('e, ('e, 'a) results) call" where
  "res_destroy_value_at d H =
     call_bind (res_get H d) (\<lambda>rd. call_bind (res_destroy_value_if_exists rd) (\<lambda>r. Returns (H(d \<mapsto> r))))"

definition res_move_construct where
  "res_move_construct mv d s H = res_move_impl mv d s (H(d \<mapsto> res_empty))"

definition res_copy_construct where
  "res_copy_construct d s H = res_copy_impl d s (H(d \<mapsto> res_empty))"

definition res_move_assign :: "('a \<Rightarrow> 'a) \<Rightarrow> nat \<Rightarrow> nat \<Rightarrow> ('e, 'a) results \<Rightarrow> ('e, ('e, 'a) results) call" where
  "res_move_assign mv d s H = call_bind (res_destroy_value_at d H) (res_move_impl mv d s)"

definition res_copy_assign :: "nat \<Rightarrow> nat \<Rightarrow> ('e, 'a) results \<Rightarrow> ('e, ('e, 'a) results) call" where
  "res_copy_assign d s H = call_bind (res_destroy_value_at d H) (res_copy_impl d s)"

definition res_destruct :: "nat \<Rightarrow> ('e, 'a) results \<Rightarrow> ('e, ('e, 'a) results) call" where
  "res_destruct d H = call_bind (res_destroy_value_at d H) (\<lambda>H'. Returns (H'(d := None)))"

subsection \<open>Status: a result without a value\<close>

type_synonym 'e status = "'e error"

definition status_ok :: "'e status" where
  "status_ok = NoError"

definition status_fail :: "'e error \<Rightarrow> ('e, 'e status) call" where
  "status_fail e = (if err_has_error e then Returns e else Undefined (AssertFailed ''error.HasError()''))"

definition status_is_ok :: "'e status \<Rightarrow> bool" where
  "status_is_ok st \<longleftrightarrow> \<not> err_has_error st"

definition status_error_code :: "'e status \<Rightarrow> ('e, error_code) call" where
  "status_error_code st = err_error_code st"

definition status_match_error_code :: "'e status \<Rightarrow> i32 \<Rightarrow> ('e, bool) call" where
  "status_match_error_code st expected = call_bind (err_error_code st) (\<lambda>c. Returns (ec_value c = expected))"

definition status_unwrap :: "'e status \<Rightarrow> ('e, unit) call" where
  "status_unwrap st = err_throw_if_error st"

subsection \<open>make\_result\<close>

text \<open>A \<open>Failure\<close> is its error; the conversion to \<open>Result<T>\<close> fails a result with it.\<close>

definition failure_to_result :: "'e error \<Rightarrow> ('e, ('e, 'a) result_object) call" where
  "failure_to_result e = res_fail e"

definition mk_fail_code :: "error_code \<Rightarrow> ('e, 'e error) call" where
  "mk_fail_code c = (if ec_value c \<noteq> 0 then Returns (HoldsCode c) else Undefined (AssertFailed ''error''))"

definition mk_fail :: "'e error \<Rightarrow> ('e, 'e error) call" where
  "mk_fail e = (if err_has_error e then Returns e else Undefined (AssertFailed ''error.HasError()''))"

definition mk_not_implemented :: "('e, 'e error) call" where
  "mk_not_implemented = mk_fail_code \<lparr>ec_value = 95, ec_category = ''generic''\<rparr>"

definition mk_current_exception :: "'e option \<Rightarrow> 'e error" where
  "mk_current_exception current = HoldsException current"

definition mk_to_status :: "error_code \<Rightarrow> ('e, 'e status) call" where
  "mk_to_status c = (if ec_value c \<noteq> 0 then call_bind (mk_fail_code c) status_fail else Returns status_ok)"

definition mk_propagate_error :: "('e, 'a) result_object \<Rightarrow> 'e error" where
  "mk_propagate_error r = ro_error r"

definition mk_just_status :: "('e, 'a) result_object \<Rightarrow> ('e, 'e status) call" where
  "mk_just_status r = (if res_is_ok r then Returns status_ok else status_fail (ro_error r))"

text \<open>
  \<open>Invoker::Invoke\<close>: \<open>f\<close> is the call of the function on its arguments. \<open>catch (...)\<close> captures whatever was
  thrown; \<open>sys\<close> is the exception object of a \<open>std::system_error\<close>.
\<close>

fun thrown_object :: "(error_code \<Rightarrow> 'e) \<Rightarrow> 'e thrown \<Rightarrow> 'e" where
  "thrown_object sys (Rethrown e) = e"
| "thrown_object sys (SystemError c) = sys c"

definition mk_invoke :: "(error_code \<Rightarrow> 'e) \<Rightarrow> ('e, 'a) call \<Rightarrow> ('e, ('e, 'a) result_object) call" where
  "mk_invoke sys f =
     (case f of
        Returns v \<Rightarrow> res_ok v res_empty
      | Throws x \<Rightarrow> res_fail (mk_current_exception (Some (thrown_object sys x)))
      | Undefined x \<Rightarrow> Undefined x)"

definition mk_invoke_void :: "(error_code \<Rightarrow> 'e) \<Rightarrow> ('e, unit) call \<Rightarrow> ('e, 'e status) call" where
  "mk_invoke_void sys f =
     (case f of
        Returns _ \<Rightarrow> Returns status_ok
      | Throws x \<Rightarrow> status_fail (mk_current_exception (Some (thrown_object sys x)))
      | Undefined x \<Rightarrow> Undefined x)"

definition mk_throw :: "'e \<Rightarrow> 'e error" where
  "mk_throw e = mk_current_exception (Some e)"

text \<open>A code is found again in the status that \<open>JustStatus\<close> makes of a result, and \<open>MatchErrorCode\<close> of a code is the comparison.\<close>

lemma just_status_error_code:
  assumes "mk_just_status r = Returns st" and "err_has_error_code (ro_error r)"
  shows "status_error_code st = res_error_code r \<and> status_match_error_code st expected = res_match_error_code r expected"
  using assms by (cases "ro_error r")
    (auto simp: mk_just_status_def status_fail_def res_is_ok_def res_has_error_def status_error_code_def res_error_code_def
      status_match_error_code_def res_match_error_code_def)

lemma to_status_matches:
  "ec_value c \<noteq> 0 \<Longrightarrow> call_bind (mk_to_status c) (\<lambda>st. status_match_error_code st (ec_value c)) = Returns True"
  "call_bind (mk_to_status c) (\<lambda>st. status_match_error_code st v) =
     (if ec_value c = 0 then Undefined (AssertFailed ''HasErrorCode()'') else Returns (ec_value c = v))"
  by (simp_all add: mk_to_status_def mk_fail_code_def status_fail_def status_match_error_code_def status_ok_def)

lemmas [machine_simps] =
  res_get_def res_move_impl_def res_copy_impl_def res_destroy_value_at_def res_move_construct_def
  res_copy_construct_def res_move_assign_def res_copy_assign_def res_destruct_def res_ok_def res_fail_def
  res_destroy_value_if_exists_def res_is_ok_def res_has_value_def res_has_error_def res_empty_def
  res_value_unsafe_def

subsection \<open>Programs over result objects\<close>

text \<open>
  An event is one construction, assignment or destruction; \<open>d\<close> is the object it builds or
  overwrites and \<open>s\<close> its source. Objects are built where none is, and named only while they exist.
\<close>

datatype ('e, 'a) result_event =
    ReOk nat 'a
  | ReFail nat "'e error"
  | ReMoveNew nat nat
  | ReCopyNew nat nat
  | ReMoveTo nat nat
  | ReCopyTo nat nat
  | ReDestroy nat

fun call_outcome :: "('e, 's) call \<Rightarrow> 's outcome" where
  "call_outcome (Returns s) = Next s"
| "call_outcome (Throws e) = Fault (Panic ''exception'')"
| "call_outcome (Undefined x) = Fault x"

fun res_step :: "('a \<Rightarrow> 'a) \<Rightarrow> ('e, 'a) result_event \<Rightarrow> ('e, 'a) results \<Rightarrow> ('e, 'a) results outcome" where
  "res_step mv (ReOk d v) H =
     (if H d \<noteq> None then Disabled else call_outcome (call_bind (res_ok v res_empty) (\<lambda>r. Returns (H(d \<mapsto> r)))))"
| "res_step mv (ReFail d e) H =
     (if H d \<noteq> None then Disabled else call_outcome (call_bind (res_fail e) (\<lambda>r. Returns (H(d \<mapsto> r)))))"
| "res_step mv (ReMoveNew d s) H =
     (if H d \<noteq> None \<or> H s = None then Disabled else call_outcome (res_move_construct mv d s H))"
| "res_step mv (ReCopyNew d s) H =
     (if H d \<noteq> None \<or> H s = None then Disabled else call_outcome (res_copy_construct d s H))"
| "res_step mv (ReMoveTo d s) H =
     (if H d = None \<or> H s = None then Disabled else call_outcome (res_move_assign mv d s H))"
| "res_step mv (ReCopyTo d s) H =
     (if H d = None \<or> H s = None then Disabled else call_outcome (res_copy_assign d s H))"
| "res_step mv (ReDestroy d) H = (if H d = None then Disabled else call_outcome (res_destruct d H))"

text \<open>No object is assigned to itself, and \<open>Fail\<close> is given an error.\<close>

fun res_disciplined :: "('e, 'a) result_event \<Rightarrow> bool" where
  "res_disciplined (ReMoveTo d s) \<longleftrightarrow> d \<noteq> s"
| "res_disciplined (ReCopyTo d s) \<longleftrightarrow> d \<noteq> s"
| "res_disciplined (ReFail d e) \<longleftrightarrow> err_has_error e"
| "res_disciplined _ \<longleftrightarrow> True"

definition res_disciplined_step where
  "res_disciplined_step mv e H = (if res_disciplined e then res_step mv e H else Disabled)"

definition res_wf :: "('e, 'a) result_object \<Rightarrow> bool" where
  "res_wf r \<longleftrightarrow> (res_is_ok r \<longleftrightarrow> ro_value r \<noteq> Raw)"

definition results_wf :: "('e, 'a) results \<Rightarrow> bool" where
  "results_wf H \<longleftrightarrow> (\<forall>i r. H i = Some r \<longrightarrow> res_wf r)"

lemma results_wfD: "results_wf H \<Longrightarrow> H i = Some r \<Longrightarrow> res_wf r"
  by (auto simp: results_wf_def)

lemma results_wf_upd: "results_wf H \<Longrightarrow> res_wf r \<Longrightarrow> results_wf (H(i \<mapsto> r))"
  by (auto simp: results_wf_def)

text \<open>A well-formed result either holds a value and no error, or an error and no value.\<close>

lemma res_wf_cases:
  assumes "res_wf r"
  obtains v where "r = \<lparr>ro_value = Holds v, ro_error = NoError\<rparr>"
    | e where "r = \<lparr>ro_value = Raw, ro_error = e\<rparr>" "err_has_error e"
  using assms
  by (cases r; cases "ro_value r"; cases "ro_error r") (auto simp: res_wf_def res_is_ok_def res_has_error_def)

definition res_after_move :: "('a \<Rightarrow> 'a) \<Rightarrow> ('e, 'a) result_object \<Rightarrow> ('e, 'a) result_object" where
  "res_after_move mv r = \<lparr>ro_value = (case ro_value r of Raw \<Rightarrow> Raw | Holds v \<Rightarrow> Holds (mv v)), ro_error = err_moved (ro_error r)\<rparr>"

lemma res_after_move_wf: "res_wf r \<Longrightarrow> res_wf (res_after_move mv r)"
  by (auto simp: res_wf_def res_after_move_def res_is_ok_def res_has_error_def split: storage.splits)

lemma res_move_impl_fresh:
  assumes "H d = Some \<lparr>ro_value = Raw, ro_error = err\<rparr>" "H s = Some r" "res_wf r" "d \<noteq> s"
  shows "res_move_impl mv d s H = Returns (H(s \<mapsto> res_after_move mv r, d \<mapsto> r))"
  using assms(3)
  by (cases rule: res_wf_cases) (use assms(1,2,4) in \<open>auto simp: machine_simps res_after_move_def Let_def fun_eq_iff\<close>)

lemma res_copy_impl_fresh:
  assumes "H d = Some \<lparr>ro_value = Raw, ro_error = err\<rparr>" "H s = Some r" "res_wf r" "d \<noteq> s"
  shows "res_copy_impl d s H = Returns (H(d \<mapsto> r))"
  using assms(3)
  by (cases rule: res_wf_cases) (use assms(1,2,4) in \<open>auto simp: machine_simps Let_def fun_eq_iff\<close>)

lemma res_destroy_value_wf:
  assumes "H d = Some r" "res_wf r"
  shows "res_destroy_value_at d H = Returns (H(d \<mapsto> \<lparr>ro_value = Raw, ro_error = ro_error r\<rparr>))"
  using assms(2) by (cases rule: res_wf_cases) (use assms(1) in \<open>auto simp: machine_simps fun_eq_iff\<close>)

lemma res_move_assign_wf:
  assumes "H d = Some rd" "res_wf rd" "H s = Some r" "res_wf r" "d \<noteq> s"
  shows "res_move_assign mv d s H = Returns (H(s \<mapsto> res_after_move mv r, d \<mapsto> r))"
  using assms
  by (simp add: res_move_assign_def res_destroy_value_wf res_move_impl_fresh [where err = "ro_error rd" and r = r] fun_upd_twist)

lemma res_copy_assign_wf:
  assumes "H d = Some rd" "res_wf rd" "H s = Some r" "res_wf r" "d \<noteq> s"
  shows "res_copy_assign d s H = Returns (H(d \<mapsto> r))"
  using assms
  by (simp add: res_copy_assign_def res_destroy_value_wf res_copy_impl_fresh [where err = "ro_error rd" and r = r])

lemma res_step_wf:
  assumes H: "results_wf H" and e: "res_disciplined e"
  shows "lands_in results_wf (res_step mv e H)"
proof (cases e)
  case (ReOk d v)
  with H show ?thesis
    by (auto simp: machine_simps res_wf_def intro!: results_wf_upd)
next
  case (ReFail d x)
  with H e show ?thesis
    by (auto simp: machine_simps res_wf_def intro!: results_wf_upd)
next
  case (ReMoveNew d s)
  show ?thesis
  proof (cases "H d = None \<and> H s \<noteq> None")
    case True
    then obtain r where r: "H s = Some r" "d \<noteq> s" by (cases "d = s") auto
    with results_wfD [OF H r(1)] have "res_move_construct mv d s H = Returns (H(s \<mapsto> res_after_move mv r, d \<mapsto> r))"
      using res_move_impl_fresh [of "H(d \<mapsto> res_empty)" d NoError s r mv]
      by (simp add: res_move_construct_def res_empty_def fun_upd_twist)
    with ReMoveNew True r results_wfD [OF H r(1)] H show ?thesis
      by (auto intro!: results_wf_upd res_after_move_wf)
  qed (use ReMoveNew in auto)
next
  case (ReCopyNew d s)
  show ?thesis
  proof (cases "H d = None \<and> H s \<noteq> None")
    case True
    then obtain r where r: "H s = Some r" "d \<noteq> s" by (cases "d = s") auto
    with results_wfD [OF H r(1)] have "res_copy_construct d s H = Returns (H(d \<mapsto> r))"
      using res_copy_impl_fresh [of "H(d \<mapsto> res_empty)" d NoError s r]
      by (simp add: res_copy_construct_def res_empty_def)
    with ReCopyNew True r results_wfD [OF H r(1)] H show ?thesis
      by (auto intro!: results_wf_upd)
  qed (use ReCopyNew in auto)
next
  case (ReMoveTo d s)
  with e H show ?thesis
    by (auto simp: res_move_assign_wf results_wfD intro!: results_wf_upd res_after_move_wf)
next
  case (ReCopyTo d s)
  with e H show ?thesis
    by (auto simp: res_copy_assign_wf results_wfD intro!: results_wf_upd)
next
  case (ReDestroy d)
  with H show ?thesis
    by (auto simp: res_destruct_def res_destroy_value_wf results_wfD results_wf_def)
qed

interpretation results: guarded_machine "res_disciplined_step mv" "Map.empty :: ('e, 'a) results" results_wf for mv
  by (rule guarded_machineI) (auto simp: results_wf_def res_disciplined_step_def res_step_wf)

lemma exec_disciplined:
  "list_all res_disciplined es \<Longrightarrow> exec (res_step mv) es H = exec (res_disciplined_step mv) es H"
  by (induction es arbitrary: H) (auto simp: res_disciplined_step_def split: outcome.splits)

subsection \<open>Properties\<close>

text \<open>
  C8. Value lifetimes: in any program that never assigns a result to itself, no value is read or destroyed
  where there is none and none is constructed over a live one, and at every moment each result
  object holds a value exactly when it holds no error - moved-from objects included.
\<close>

theorem result_lifetimes:
  assumes "list_all res_disciplined es"
  shows "lands_in (\<lambda>H. \<forall>i r. H i = Some r \<longrightarrow> (res_is_ok r \<longleftrightarrow> ro_value r \<noteq> Raw)) (exec (res_step mv) es Map.empty)"
proof (cases "exec (res_step mv) es Map.empty")
  case (Next H)
  with results.gm_exec_inv [of mv es H] show ?thesis
    by (simp add: exec_disciplined [OF assms] results_wf_def res_wf_def)
next
  case (Fault x)
  with results.gm_exec_no_fault [of mv es x] show ?thesis by (simp add: exec_disciplined [OF assms])
qed simp

theorem result_lifetimes_witness:
  "\<exists>H. exec (res_step (\<lambda>_. 0)) [ReOk 0 (7::int), ReFail 1 (HoldsException (Some True)), ReMoveTo 1 0, ReCopyNew 2 1, ReMoveTo 0 2, ReDestroy 1]
      Map.empty = Next H \<and> (\<forall>i r. H i = Some r \<longrightarrow> (res_is_ok r \<longleftrightarrow> ro_value r \<noteq> Raw)) \<and>
      H 0 = Some \<lparr>ro_value = Holds 7, ro_error = NoError\<rparr> \<and> H 1 = None"
proof -
  let ?es = "[ReOk 0 (7::int), ReFail 1 (HoldsException (Some True)), ReMoveTo 1 0, ReCopyNew 2 1, ReMoveTo 0 2, ReDestroy 1]"
  have "\<exists>H. exec (res_step (\<lambda>_. 0)) ?es Map.empty = Next H \<and>
      H 0 = Some \<lparr>ro_value = Holds 7, ro_error = NoError\<rparr> \<and> H 1 = None"
    by (simp add: machine_simps Let_def)
  moreover have "list_all res_disciplined ?es" by simp
  ultimately show ?thesis using result_lifetimes [of ?es "\<lambda>_. 0"] by auto
qed

text \<open>
  Moving a result into another: the target becomes exactly what the source was, the source keeps its
  kind (a moved-from value or a moved-from error of the same alternative), and no other object changes.
\<close>

theorem result_move_assign:
  assumes "H d = Some rd" and "res_wf rd" and "H s = Some r" and "res_wf r" and "d \<noteq> s"
  shows "\<exists>H'. res_move_assign mv d s H = Returns H' \<and> H' d = Some r \<and> H' s = Some (res_after_move mv r) \<and>
    (res_is_ok (res_after_move mv r) \<longleftrightarrow> res_is_ok r) \<and> (\<forall>i. i \<noteq> d \<longrightarrow> i \<noteq> s \<longrightarrow> H' i = H i)"
  using res_move_assign_wf [OF assms, of mv] assms(5)
  by (auto simp: res_after_move_def res_is_ok_def res_has_error_def)

theorem result_move_assign_witness:
  "\<exists>H'. res_move_assign (\<lambda>_. 0) 1 0
      [0 \<mapsto> \<lparr>ro_value = Holds (7::int), ro_error = NoError\<rparr>, 1 \<mapsto> \<lparr>ro_value = Raw, ro_error = HoldsException (Some True)\<rparr>] = Returns H' \<and>
    H' 1 = Some \<lparr>ro_value = Holds 7, ro_error = NoError\<rparr> \<and> H' 0 = Some \<lparr>ro_value = Holds 0, ro_error = NoError\<rparr>"
proof -
  let ?H = "[0 \<mapsto> \<lparr>ro_value = Holds (7::int), ro_error = NoError\<rparr>, 1 \<mapsto> \<lparr>ro_value = Raw, ro_error = HoldsException (Some True)\<rparr>] :: (bool, int) results"
  have "\<exists>H'. res_move_assign (\<lambda>_. 0) 1 0 ?H = Returns H' \<and> H' 1 = Some \<lparr>ro_value = Holds 7, ro_error = NoError\<rparr> \<and>
      H' 0 = Some (res_after_move (\<lambda>_. 0) \<lparr>ro_value = Holds 7, ro_error = NoError\<rparr>)"
    using result_move_assign [of ?H 1 "\<lparr>ro_value = Raw, ro_error = HoldsException (Some True)\<rparr>" 0
        "\<lparr>ro_value = Holds 7, ro_error = NoError\<rparr>" "\<lambda>_. 0"]
    by (auto simp: res_wf_def res_is_ok_def res_has_error_def)
  then show ?thesis by (simp add: res_after_move_def)
qed

text \<open>
  Assigning a result that holds a value to itself is undefined, for copy and move alike: the value is
  destroyed first and then read.
\<close>

theorem result_self_assign:
  assumes "H d = Some r" and "res_wf r" and "res_is_ok r"
  shows "res_copy_assign d d H = Undefined UseAfterFree \<and> res_move_assign mv d d H = Undefined UseAfterFree"
proof -
  have "ro_error r = NoError" using assms(3) by (simp add: res_is_ok_def res_has_error_def err_no_error_iff)
  then show ?thesis
    using assms(1) res_destroy_value_wf [where H = H and d = d and r = r] assms(2)
    by (simp add: res_copy_assign_def res_move_assign_def res_move_impl_def res_copy_impl_def res_get_def
        res_has_value_def res_has_error_def res_value_unsafe_def Let_def)
qed

theorem result_self_assign_witness:
  "res_copy_assign 0 0 ([0 \<mapsto> \<lparr>ro_value = Holds (7::int), ro_error = NoError\<rparr>] :: (bool, int) results) = Undefined UseAfterFree"
  using result_self_assign [of "[0 \<mapsto> \<lparr>ro_value = Holds (7::int), ro_error = NoError\<rparr>] :: (bool, int) results" 0
      "\<lparr>ro_value = Holds 7, ro_error = NoError\<rparr>" id]
  by (auto simp: res_wf_def res_is_ok_def res_has_error_def)

text \<open>
  \<open>Invoke\<close> followed by \<open>ValueOrThrow\<close> is the call itself: the value returned, or the same exception
  object thrown. \<open>Invoke\<close> never throws.
\<close>

theorem invoke_value_or_throw:
  "call_bind (mk_invoke sys f) res_value_or_throw =
     (case f of Throws x \<Rightarrow> Throws (Rethrown (thrown_object sys x)) | _ \<Rightarrow> f) \<and>
   mk_invoke sys f \<noteq> Throws y"
  by (cases f) (auto simp: mk_invoke_def mk_current_exception_def res_ok_def res_fail_def res_empty_def
      res_value_or_throw_def res_throw_if_error_def)

text \<open>
  The conversions of \<open>make_result\<close>: \<open>ToStatus\<close> is Ok exactly for a zero code, \<open>JustStatus\<close> forgets the
  value and nothing else, and \<open>PropagateError\<close> turned into any other result carries the same error.
\<close>

theorem make_result_conversions:
  fixes r :: "('e, 'a) result_object"
  shows "call_bind (mk_to_status c) status_unwrap = (if ec_value c = 0 then Returns () else Throws (SystemError c)) \<and>
    (\<exists>st. mk_just_status r = Returns st \<and> (status_is_ok st \<longleftrightarrow> res_is_ok r) \<and> status_unwrap st = res_throw_if_error r) \<and>
    (failure_to_result (mk_propagate_error r) :: ('e, ('e, 'b) result_object) call) =
      (if res_has_error r then Returns \<lparr>ro_value = Raw, ro_error = ro_error r\<rparr> else Undefined (AssertFailed ''error.HasError()''))"
  by (cases "ro_error r")
    (auto simp: mk_to_status_def mk_fail_code_def status_fail_def status_ok_def status_unwrap_def status_is_ok_def mk_just_status_def
      res_is_ok_def res_has_error_def res_throw_if_error_def failure_to_result_def mk_propagate_error_def res_fail_def)

end
