(* ===== verification/String_Reader.thy ===== *)
theory String_Reader
  imports Prelude "HOL-Library.Sublist"
begin

section \<open>Reading text\<close>

text \<open>
  \<open>common/string_reader.h\<close> and \<open>common/convert.h\<close>. A \<open>StringReader\<close> is the part of its source that is still
  unread. An operation that asserts returns \<open>fault + _\<close>. Character classes are those of the C locale; a
  character above 127 belongs to none. \<open>std::from_chars\<close> on \<open>int\<close> is written out: the value is \<open>None\<close> when
  the function does not write it, which in this code is an uninitialised variable. \<open>std::stod\<close> is written out up to the
  text it converts, and throws; the floating-point value of that text is a parameter.
\<close>

definition is_space :: "char \<Rightarrow> bool" where
  "is_space c \<longleftrightarrow> of_char c = (32 :: nat) \<or> (9 \<le> (of_char c :: nat) \<and> of_char c \<le> (13 :: nat))"

definition is_digit :: "char \<Rightarrow> bool" where
  "is_digit c \<longleftrightarrow> 48 \<le> (of_char c :: nat) \<and> of_char c \<le> (57 :: nat)"

definition is_alnum :: "char \<Rightarrow> bool" where
  "is_alnum c \<longleftrightarrow> is_digit c \<or> (65 \<le> (of_char c :: nat) \<and> of_char c \<le> (90 :: nat)) \<or>
     (97 \<le> (of_char c :: nat) \<and> of_char c \<le> (122 :: nat))"

definition newline :: char where "newline = CHR 0x0A"
definition carriage_return :: char where "carriage_return = CHR 0x0D"

fun sum_bind :: "'e + 'a \<Rightarrow> ('a \<Rightarrow> 'e + 'b) \<Rightarrow> 'e + 'b" where
  "sum_bind (Inl e) f = Inl e"
| "sum_bind (Inr x) f = f x"

subsection \<open>Looking at the next character\<close>

fun sr_next_char :: "string \<Rightarrow> fault + char" where
  "sr_next_char [] = Inl (AssertFailed ''source_.length() > 0'')"
| "sr_next_char (c # s) = Inr c"

definition sr_has_next :: "string \<Rightarrow> bool" where
  "sr_has_next s \<longleftrightarrow> s \<noteq> []"

definition sr_is_empty :: "string \<Rightarrow> bool" where
  "sr_is_empty s \<longleftrightarrow> s = []"

definition sr_length :: "string \<Rightarrow> nat" where
  "sr_length s = length s"

definition sr_next :: "char \<Rightarrow> string \<Rightarrow> fault + bool" where
  "sr_next ch s = sum_bind (sr_next_char s) (\<lambda>c. Inr (c = ch))"

definition sr_next_digit :: "string \<Rightarrow> fault + bool" where
  "sr_next_digit s = sum_bind (sr_next_char s) (\<lambda>c. Inr (is_digit c))"

definition sr_next_alpha :: "string \<Rightarrow> fault + bool" where
  "sr_next_alpha s = sum_bind (sr_next_char s) (\<lambda>c. Inr (is_alnum c))"

definition sr_next_space :: "string \<Rightarrow> fault + bool" where
  "sr_next_space s = sr_next CHR '' '' s"

subsection \<open>Skipping\<close>

definition sr_skip :: "nat \<Rightarrow> string \<Rightarrow> fault + string" where
  "sr_skip count s = (if count \<le> length s then Inr (drop count s) else Inl (AssertFailed ''source_.length() >= count''))"

definition sr_skip_one :: "string \<Rightarrow> fault + string" where
  "sr_skip_one s = sr_skip 1 s"

fun sr_skip_spaces :: "string \<Rightarrow> string" where
  "sr_skip_spaces [] = []"
| "sr_skip_spaces (c # s) = (if is_space c then sr_skip_spaces s else c # s)"

fun sr_skip_digits :: "string \<Rightarrow> string" where
  "sr_skip_digits [] = []"
| "sr_skip_digits (c # s) = (if is_digit c then sr_skip_digits s else c # s)"

text \<open>\<open>find_first_of\<close> and \<open>find\<close>: the offset, or nothing for \<open>npos\<close>.\<close>

fun find_first_of :: "char \<Rightarrow> string \<Rightarrow> nat option" where
  "find_first_of ch [] = None"
| "find_first_of ch (c # s) = (if c = ch then Some 0 else map_option Suc (find_first_of ch s))"

fun find_substring :: "string \<Rightarrow> string \<Rightarrow> nat option" where
  "find_substring p [] = (if p = [] then Some 0 else None)"
| "find_substring p (c # s) = (if take (length p) (c # s) = p then Some 0 else map_option Suc (find_substring p s))"

definition sr_skip_until :: "char \<Rightarrow> string \<Rightarrow> string" where
  "sr_skip_until ch s = (let offset = (case find_first_of ch s of None \<Rightarrow> length s | Some n \<Rightarrow> n) in drop offset s)"

definition sr_skip_after :: "char \<Rightarrow> string \<Rightarrow> string" where
  "sr_skip_after ch s =
     (let offset = (case find_first_of ch s of None \<Rightarrow> length s | Some n \<Rightarrow> min (n + 1) (length s)) in drop offset s)"

definition sr_skip_until_space :: "string \<Rightarrow> string" where
  "sr_skip_until_space s = sr_skip_until CHR '' '' s"

definition sr_skip_after_space :: "string \<Rightarrow> string" where
  "sr_skip_after_space s = sr_skip_after CHR '' '' s"

definition sr_skip_line :: "string \<Rightarrow> string" where
  "sr_skip_line s =
     (case sr_skip_after newline s of [] \<Rightarrow> [] | c # t \<Rightarrow> if c = carriage_return then t else c # t)"

definition sr_skip_until_str :: "string \<Rightarrow> string \<Rightarrow> string" where
  "sr_skip_until_str p s = (let offset = (case find_substring p s of None \<Rightarrow> length s | Some n \<Rightarrow> n) in drop offset s)"

subsection \<open>Reading\<close>

definition sr_read_one :: "string \<Rightarrow> fault + char \<times> string" where
  "sr_read_one s = sum_bind (sr_next_char s) (\<lambda>c. sum_bind (sr_skip_one s) (\<lambda>t. Inr (c, t)))"

definition sr_read_until :: "char \<Rightarrow> string \<Rightarrow> string \<times> string" where
  "sr_read_until ch s =
     (case s of
        [] \<Rightarrow> ([], s)
      | c # _ \<Rightarrow>
          if c = ch then ([], s)
          else case find_first_of ch s of
            None \<Rightarrow> ([], drop (length s) s)
          | Some offset \<Rightarrow> (take offset s, drop offset s))"

definition sr_read_until_space :: "string \<Rightarrow> string \<times> string" where
  "sr_read_until_space s = sr_read_until CHR '' '' s"

definition sr_read_to_end_line :: "string \<Rightarrow> string \<times> string" where
  "sr_read_to_end_line s = (let (result, t) = sr_read_until newline s in (result, sr_skip_line t))"

definition digit_value :: "char \<Rightarrow> int" where
  "digit_value c = int (of_char c) - 48"

definition decimal_value :: "string \<Rightarrow> int" where
  "decimal_value ds = foldl (\<lambda>n c. 10 * n + digit_value c) 0 ds"

definition from_chars_int :: "string \<Rightarrow> int option \<times> nat" where
  "from_chars_int s =
     (let negative = (s \<noteq> [] \<and> hd s = CHR ''-'');
          ds = takeWhile is_digit (if negative then tl s else s);
          n = (if negative then - decimal_value ds else decimal_value ds) in
      if ds = [] then (None, 0)
      else (if - (2 ^ 31) \<le> n \<and> n < 2 ^ 31 then Some n else None, length ds + (if negative then 1 else 0)))"

definition sr_read_int :: "string \<Rightarrow> int option \<times> string" where
  "sr_read_int s = (let (value, offset) = from_chars_int s in (value, drop offset s))"

subsection \<open>\<open>ReadDouble\<close> and \<open>std::stod\<close>\<close>

text \<open>What \<open>ReadDouble\<close> leaves unread: behind the digits, a point or a comma, and the digits behind it.\<close>

definition sr_skip_double :: "string \<Rightarrow> string" where
  "sr_skip_double s =
     (let t = sr_skip_digits s in
      case t of [] \<Rightarrow> [] | c # u \<Rightarrow> if c = CHR ''.'' \<or> c = CHR '','' then sr_skip_digits u else t)"

text \<open>
  \<open>std::stod\<close> converts the longest beginning of the text that is a number to \<open>strtod\<close>: blanks are skipped, then there is a
  sign or none, and then a decimal number with an exponent or without, a hexadecimal one, an infinity or a NaN. When
  there is none it throws \<open>std::invalid_argument\<close>.
\<close>

definition is_hex_digit :: "char \<Rightarrow> bool" where
  "is_hex_digit c \<longleftrightarrow> is_digit c \<or> (65 \<le> (of_char c :: nat) \<and> of_char c \<le> (70 :: nat)) \<or>
     (97 \<le> (of_char c :: nat) \<and> of_char c \<le> (102 :: nat))"

definition lower_char :: "char \<Rightarrow> char" where
  "lower_char c = (if 65 \<le> (of_char c :: nat) \<and> of_char c \<le> (90 :: nat) then char_of ((of_char c :: nat) + 32) else c)"

definition starts_like :: "string \<Rightarrow> string \<Rightarrow> bool" where
  "starts_like p s \<longleftrightarrow> map lower_char (take (length p) s) = p"

definition number_digits :: "(char \<Rightarrow> bool) \<Rightarrow> string \<Rightarrow> string" where
  "number_digits P s =
     (let a = takeWhile P s in
      case drop (length a) s of
        [] \<Rightarrow> a
      | c # u \<Rightarrow>
          if c = CHR ''.'' then (let b = takeWhile P u in if a = [] \<and> b = [] then [] else a @ c # b) else a)"

definition number_sign :: "string \<Rightarrow> string" where
  "number_sign s = (case s of [] \<Rightarrow> [] | c # u \<Rightarrow> if c = CHR ''+'' \<or> c = CHR ''-'' then [c] else [])"

definition number_exponent :: "char \<Rightarrow> string \<Rightarrow> string" where
  "number_exponent mark s =
     (case s of
        [] \<Rightarrow> []
      | c # u \<Rightarrow>
          if lower_char c \<noteq> mark then []
          else let sg = number_sign u; ds = takeWhile is_digit (drop (length sg) u) in if ds = [] then [] else c # sg @ ds)"

definition decimal_subject :: "string \<Rightarrow> string" where
  "decimal_subject s =
     (let ds = number_digits is_digit s in if ds = [] then [] else ds @ number_exponent CHR ''e'' (drop (length ds) s))"

definition hex_subject :: "string \<Rightarrow> string" where
  "hex_subject s =
     (if \<not> starts_like ''0x'' s then []
      else let ds = number_digits is_hex_digit (drop 2 s) in
        if ds = [] then [] else take 2 s @ ds @ number_exponent CHR ''p'' (drop (2 + length ds) s))"

definition named_subject :: "string \<Rightarrow> string" where
  "named_subject s =
     (if starts_like ''infinity'' s then take 8 s
      else if starts_like ''inf'' s then take 3 s
      else if \<not> starts_like ''nan'' s then []
      else let u = drop 3 s; w = takeWhile (\<lambda>c. is_alnum c \<or> c = CHR ''_'') (drop 1 u) in
        if take 1 u = ''('' \<and> take 1 (drop (1 + length w) u) = '')'' then take (5 + length w) s else take 3 s)"

definition stod_subject :: "string \<Rightarrow> string option" where
  "stod_subject text =
     (let s = sr_skip_spaces text; sg = number_sign s; v = drop (length sg) s;
          n = (if hex_subject v \<noteq> [] then hex_subject v else if decimal_subject v \<noteq> [] then decimal_subject v else named_subject v) in
      if n = [] then None else Some (sg @ n))"

text \<open>\<open>dbl\<close>: the floating-point number nearest to what such a text denotes, or nothing when it is out of range.\<close>

definition sr_stod :: "(string \<Rightarrow> 'd option) \<Rightarrow> string \<Rightarrow> fault + 'd" where
  "sr_stod dbl text =
     (case stod_subject text of
        None \<Rightarrow> Inl (Panic ''std::invalid_argument'')
      | Some n \<Rightarrow> (case dbl n of None \<Rightarrow> Inl (Panic ''std::out_of_range'') | Some d \<Rightarrow> Inr d))"

text \<open>
  \<open>string.data()\<close> is only where the view begins: the text that is converted goes on behind the view, to the next null
  character in memory. \<open>behind\<close> is what memory holds there. The reader has moved when \<open>stod\<close> throws.
\<close>

definition c_text :: "string \<Rightarrow> string" where
  "c_text memory = takeWhile (\<lambda>c. c \<noteq> CHR 0x00) memory"

definition sr_read_double :: "(string \<Rightarrow> 'd option) \<Rightarrow> string \<Rightarrow> string \<Rightarrow> (fault + 'd) \<times> string" where
  "sr_read_double dbl behind s = (sr_stod dbl (c_text (s @ behind)), sr_skip_double s)"

text \<open>\<open>ConvertTo<int>\<close> drops the error of \<open>from_chars\<close>: the optional is always engaged.\<close>

definition convert_to_int :: "string \<Rightarrow> int option option" where
  "convert_to_int s = Some (fst (from_chars_int s))"

subsection \<open>Sequences of calls\<close>

text \<open>The calls of the class, by what they leave unread.\<close>

datatype reader_call =
    RcNextChar | RcNext char | RcNextDigit | RcNextAlpha | RcNextSpace
  | RcSkip nat | RcSkipOne | RcSkipSpaces | RcSkipDigits | RcSkipUntil char | RcSkipAfter char | RcSkipUntilSpace | RcSkipAfterSpace
  | RcSkipLine | RcSkipUntilStr string
  | RcReadOne | RcReadUntil char | RcReadUntilSpace | RcReadToEndLine | RcReadInt | RcReadDouble

fun sr_call :: "(string \<Rightarrow> 'd option) \<Rightarrow> string \<Rightarrow> reader_call \<Rightarrow> string \<Rightarrow> fault + string" where
  "sr_call dbl behind RcNextChar s = sum_bind (sr_next_char s) (\<lambda>_. Inr s)"
| "sr_call dbl behind (RcNext ch) s = sum_bind (sr_next ch s) (\<lambda>_. Inr s)"
| "sr_call dbl behind RcNextDigit s = sum_bind (sr_next_digit s) (\<lambda>_. Inr s)"
| "sr_call dbl behind RcNextAlpha s = sum_bind (sr_next_alpha s) (\<lambda>_. Inr s)"
| "sr_call dbl behind RcNextSpace s = sum_bind (sr_next_space s) (\<lambda>_. Inr s)"
| "sr_call dbl behind (RcSkip n) s = sr_skip n s"
| "sr_call dbl behind RcSkipOne s = sr_skip_one s"
| "sr_call dbl behind RcSkipSpaces s = Inr (sr_skip_spaces s)"
| "sr_call dbl behind RcSkipDigits s = Inr (sr_skip_digits s)"
| "sr_call dbl behind (RcSkipUntil ch) s = Inr (sr_skip_until ch s)"
| "sr_call dbl behind (RcSkipAfter ch) s = Inr (sr_skip_after ch s)"
| "sr_call dbl behind RcSkipUntilSpace s = Inr (sr_skip_until_space s)"
| "sr_call dbl behind RcSkipAfterSpace s = Inr (sr_skip_after_space s)"
| "sr_call dbl behind RcSkipLine s = Inr (sr_skip_line s)"
| "sr_call dbl behind (RcSkipUntilStr p) s = Inr (sr_skip_until_str p s)"
| "sr_call dbl behind RcReadOne s = map_sum id snd (sr_read_one s)"
| "sr_call dbl behind (RcReadUntil ch) s = Inr (snd (sr_read_until ch s))"
| "sr_call dbl behind RcReadUntilSpace s = Inr (snd (sr_read_until_space s))"
| "sr_call dbl behind RcReadToEndLine s = Inr (snd (sr_read_to_end_line s))"
| "sr_call dbl behind RcReadInt s = Inr (snd (sr_read_int s))"
| "sr_call dbl behind RcReadDouble s = (let (result, t) = sr_read_double dbl behind s in sum_bind result (\<lambda>_. Inr t))"

fun sr_calls :: "(string \<Rightarrow> 'd option) \<Rightarrow> string \<Rightarrow> reader_call list \<Rightarrow> string \<Rightarrow> fault + string" where
  "sr_calls dbl behind [] s = Inr s"
| "sr_calls dbl behind (c # cs) s = sum_bind (sr_call dbl behind c s) (sr_calls dbl behind cs)"

text \<open>How many characters a call takes for granted.\<close>

fun rc_needs :: "reader_call \<Rightarrow> nat" where
  "rc_needs (RcSkip n) = n"
| "rc_needs (RcNext ch) = 1"
| "rc_needs c = (if c \<in> {RcNextChar, RcNextDigit, RcNextAlpha, RcNextSpace, RcSkipOne, RcReadOne} then 1 else 0)"

subsection \<open>Decimal numerals\<close>

definition digit_char :: "nat \<Rightarrow> char" where
  "digit_char d = char_of (48 + d)"

fun decimal_nat :: "nat \<Rightarrow> string" where
  "decimal_nat n = (if n < 10 then [digit_char n] else decimal_nat (n div 10) @ [digit_char (n mod 10)])"


declare decimal_nat.simps [simp del]

definition decimal_int :: "int \<Rightarrow> string" where
  "decimal_int i = (if i < 0 then CHR ''-'' # decimal_nat (nat (- i)) else decimal_nat (nat i))"

subsection \<open>Lemmas\<close>

lemma find_first_of_append [simp]:
  "ch \<notin> set xs \<Longrightarrow> find_first_of ch (xs @ ch # ys) = Some (length xs)"
  by (induction xs) auto

lemma find_first_of_none [simp]: "find_first_of ch s = None \<longleftrightarrow> ch \<notin> set s"
  by (induction s) auto

lemma sr_read_until_append [simp]:
  "ch \<notin> set xs \<Longrightarrow> sr_read_until ch (xs @ ch # ys) = (xs, ch # ys)"
  by (cases xs) (auto simp: sr_read_until_def)

lemma sr_read_until_none: "ch \<notin> set s \<Longrightarrow> sr_read_until ch s = ([], [])"
  by (cases s) (auto simp: sr_read_until_def split: option.splits)

lemma sr_skip_after_append [simp]: "ch \<notin> set xs \<Longrightarrow> sr_skip_after ch (xs @ ch # ys) = ys"
  by (simp add: sr_skip_after_def)

lemma sr_skip_after_one [simp]: "sr_skip_after ch (ch # ys) = ys"
  using sr_skip_after_append [of ch "[]" ys] by simp

lemma sr_skip_one_cons [simp]: "sr_skip_one (c # s) = Inr s" "sr_skip_one [] = Inl (AssertFailed ''source_.length() >= count'')"
  by (simp_all add: sr_skip_one_def sr_skip_def)

lemma sr_skip_spaces_id: "s = [] \<or> \<not> is_space (hd s) \<Longrightarrow> sr_skip_spaces s = s"
  by (cases s) auto

lemma sr_skip_spaces_length: "length (sr_skip_spaces s) \<le> length s"
  by (induction s) auto

lemma sr_read_until_length: "length (snd (sr_read_until ch s)) \<le> length s"
  by (cases s) (auto simp: sr_read_until_def split: option.splits)

lemma sr_skip_line_length: "length (sr_skip_line s) \<le> length s"
  by (auto simp: sr_skip_line_def sr_skip_after_def Let_def split: list.splits option.splits dest!: arg_cong [where f = length])

lemma sr_read_to_end_line_length: "length (snd (sr_read_to_end_line s)) \<le> length s"
  using sr_read_until_length [of newline s] sr_skip_line_length [of "snd (sr_read_until newline s)"]
  by (simp add: sr_read_to_end_line_def case_prod_beta)

lemma digit_char: "d < 10 \<Longrightarrow> is_digit (digit_char d) \<and> digit_value (digit_char d) = int d"
  by (auto simp: digit_char_def is_digit_def digit_value_def)

lemma decimal_value_snoc [simp]: "decimal_value (ds @ [c]) = 10 * decimal_value ds + digit_value c"
  by (simp add: decimal_value_def)

lemma decimal_nat_ok: "list_all is_digit (decimal_nat n) \<and> decimal_nat n \<noteq> [] \<and> decimal_value (decimal_nat n) = int n"
proof (induction n rule: decimal_nat.induct)
  case (1 n)
  note dn = decimal_nat.simps [of n]
  show ?case
  proof (cases "n < 10")
    case True
    with digit_char [of n] show ?thesis
      by (simp add: dn decimal_value_def)
  next
    case False
    have "10 * int (n div 10) + int (n mod 10) = int n" by presburger
    with False 1 digit_char [of "n mod 10"] show ?thesis
      by (simp add: dn)
  qed
qed

lemma takeWhile_digits: "list_all is_digit ds \<Longrightarrow> (rest = [] \<or> \<not> is_digit (hd rest)) \<Longrightarrow> takeWhile is_digit (ds @ rest) = ds"
  by (induction ds) (auto intro: takeWhile_eq_Nil_iff [THEN iffD2])

lemma split_at_first:
  "ch \<notin> set xs \<Longrightarrow> takeWhile (\<lambda>c. c \<noteq> ch) (xs @ ch # ys) = xs \<and> dropWhile (\<lambda>c. c \<noteq> ch) (xs @ ch # ys) = ch # ys"
  by (induction xs) auto

lemma minus_no_digit: "\<not> is_digit CHR ''-''"
  by (simp add: is_digit_def)


text \<open>\<open>ReadUntil\<close> splits the text at the delimiter, and loses the text when there is none.\<close>

lemma read_until_splits:
  "sr_read_until ch s = (if ch \<in> set s then (takeWhile (\<lambda>c. c \<noteq> ch) s, dropWhile (\<lambda>c. c \<noteq> ch) s) else ([], []))"
proof (cases "ch \<in> set s")
  case True
  then obtain xs ys where s: "s = xs @ ch # ys" "ch \<notin> set xs" by (metis split_list_first)
  then show ?thesis by (simp add: split_at_first)
qed (simp add: sr_read_until_none)

subsection \<open>Properties\<close>

text \<open>
  \<open>ReadInt\<close> reads back the decimal text of any \<open>int\<close> and stops right behind it.
\<close>

theorem read_int_roundtrip:
  assumes "- (2 ^ 31) \<le> i" and "i < 2 ^ 31" and "rest = [] \<or> \<not> is_digit (hd rest)"
  shows "sr_read_int (decimal_int i @ rest) = (Some i, rest)"
proof -
  have w: "list_all is_digit (decimal_nat n)" "decimal_nat n \<noteq> []" "decimal_value (decimal_nat n) = int n" for n
    using decimal_nat_ok [of n] by auto
  have hd: "hd (decimal_nat n @ rest) \<noteq> CHR ''-''" for n
    using w(1,2) [of n] minus_no_digit by (cases "decimal_nat n") auto
  show ?thesis
  proof (cases "i < 0")
    case True
    then have "from_chars_int (decimal_int i @ rest) = (Some i, length (decimal_int i))"
      using w [of "nat (- i)"] assms takeWhile_digits [of "decimal_nat (nat (- i))" rest]
      by (simp add: from_chars_int_def decimal_int_def Let_def)
    then show ?thesis by (simp add: sr_read_int_def)
  next
    case False
    then have "from_chars_int (decimal_int i @ rest) = (Some i, length (decimal_int i))"
      using w [of "nat i"] hd [of "nat i"] assms takeWhile_digits [of "decimal_nat (nat i)" rest]
      by (simp add: from_chars_int_def decimal_int_def Let_def)
    then show ?thesis by (simp add: sr_read_int_def)
  qed
qed

theorem read_int_roundtrip_witness:
  "sr_read_int (decimal_int (- 42) @ '' apples'') = (Some (- 42), '' apples'')"
  by (rule read_int_roundtrip) (simp_all add: is_digit_def)

text \<open>On a text without a number the variable that \<open>ReadInt\<close> and \<open>ConvertTo\<close> return is never written.\<close>

lemma convert_to_int_garbage: "s = [] \<or> (\<not> is_digit (hd s) \<and> hd s \<noteq> CHR ''-'') \<Longrightarrow> convert_to_int s = Some None"
  by (cases s) (auto simp: convert_to_int_def from_chars_int_def Let_def)

text \<open>No call leaves the source, and one that is given what it needs does not fail.\<close>

lemma skip_spaces_suffix: "suffix (sr_skip_spaces s) s"
  by (induction s) (auto intro: suffix_ConsI)

lemma skip_digits_suffix: "suffix (sr_skip_digits s) s"
  by (induction s) (auto intro: suffix_ConsI)

lemma skip_after_suffix: "suffix (sr_skip_after ch s) s"
  by (simp add: sr_skip_after_def suffix_drop Let_def)

lemma skip_line_suffix: "suffix (sr_skip_line s) s"
  using skip_after_suffix [of newline s] by (auto simp: sr_skip_line_def intro: suffix_ConsD split: list.splits)

lemma read_until_suffix: "suffix (snd (sr_read_until ch s)) s"
  by (auto simp: sr_read_until_def intro: suffix_ConsI suffix_drop split: list.splits option.splits)

lemma skip_double_suffix: "suffix (sr_skip_double s) s"
proof -
  have "suffix (sr_skip_digits u) s" if "sr_skip_digits s = c # u" for c u
    using skip_digits_suffix [of u] skip_digits_suffix [of s] that by (metis suffix_ConsD suffix_order.order_trans)
  then show ?thesis using skip_digits_suffix [of s] by (auto simp: sr_skip_double_def Let_def split: list.splits)
qed

lemma sr_next_char_eq: "sr_next_char s = (if s = [] then Inl (AssertFailed ''source_.length() > 0'') else Inr (hd s))"
  by (cases s) simp_all

lemmas sr_look_defs = sr_next_char_eq sr_next_def sr_next_digit_def sr_next_alpha_def sr_next_space_def

lemmas reader_suffixes = suffix_drop skip_spaces_suffix skip_digits_suffix skip_after_suffix skip_line_suffix read_until_suffix skip_double_suffix

lemma sr_call_suffix: "sr_call dbl behind c s = Inr t \<Longrightarrow> suffix t s"
proof (cases c)
  case RcReadToEndLine
  assume "sr_call dbl behind c s = Inr t"
  with RcReadToEndLine have "t = sr_skip_line (snd (sr_read_until newline s))" by (auto simp: sr_read_to_end_line_def split_def Let_def)
  then show ?thesis using skip_line_suffix read_until_suffix by (metis suffix_order.order_trans)
next
  case RcReadDouble
  assume "sr_call dbl behind c s = Inr t"
  with RcReadDouble have "t = sr_skip_double s"
    by (cases "sr_stod dbl (c_text (s @ behind))") (simp_all add: sr_read_double_def)
  then show ?thesis by (simp add: skip_double_suffix)
qed (auto simp: sr_look_defs sr_skip_def sr_skip_one_def sr_skip_until_def sr_skip_until_space_def sr_skip_after_space_def
    sr_skip_until_str_def sr_read_one_def sr_read_until_space_def sr_read_int_def split_def Let_def reader_suffixes split: if_splits)

text \<open>Why a call fails on what is unread: its assertion, or, for \<open>ReadDouble\<close>, the two exceptions of \<open>std::stod\<close>.\<close>

definition rc_failure :: "(string \<Rightarrow> 'd option) \<Rightarrow> string \<Rightarrow> reader_call \<Rightarrow> string \<Rightarrow> fault option" where
  "rc_failure dbl behind c s =
     (if length s < rc_needs c
      then Some (AssertFailed (case c of
          RcSkip n \<Rightarrow> ''source_.length() >= count''
        | RcSkipOne \<Rightarrow> ''source_.length() >= count''
        | _ \<Rightarrow> ''source_.length() > 0''))
      else if c = RcReadDouble
      then (case stod_subject (c_text (s @ behind)) of
          None \<Rightarrow> Some (Panic ''std::invalid_argument'')
        | Some n \<Rightarrow> if dbl n = None then Some (Panic ''std::out_of_range'') else None)
      else None)"

lemma sr_call_fails: "sr_call dbl behind c s = Inl x \<longleftrightarrow> rc_failure dbl behind c s = Some x"
proof (cases "c = RcReadDouble")
  case True
  then show ?thesis
    by (cases "stod_subject (c_text (s @ behind))")
      (auto simp: rc_failure_def sr_read_double_def sr_stod_def split: option.splits)
qed (cases c; auto simp: rc_failure_def sr_look_defs sr_skip_def sr_skip_one_def sr_read_one_def Suc_le_eq split: if_splits)


text \<open>
  Examples, with the texts themselves as numbers. A word is no number; a comma is skipped, but ends the number; a sign and an exponent
  belong to the number, but are not skipped; and a source that ends in a digit is read on into what lies behind it.
\<close>

lemma read_double_examples:
  "sr_read_double Some [] ''apples'' = (Inl (Panic ''std::invalid_argument''), ''apples'')"
  "sr_read_double Some [] ''42.1 55'' = (Inr ''42.1'', '' 55'')"
  "sr_read_double Some [] ''1,5'' = (Inr ''1'', [])"
  "sr_read_double Some [] ''-2e3'' = (Inr ''-2e3'', ''-2e3'')"
  by code_simp+

lemma read_double_reads_behind:
  "sr_read_double Some ''5 apples'' ''1'' = (Inr ''15'', [])"
  by code_simp

end
