(* ===== verification/Http_Header.thy ===== *)
theory Http_Header
  imports String_Reader
begin

section \<open>HTTP headers and status\<close>

text \<open>
  \<open>net/http/header.{h,cpp}\<close>, \<open>net/http/status.{h,cpp}\<close>, \<open>net/http/response.h\<close>: the parser of the header
  text that libcurl has collected, the table of status codes and the response object. \<open>Dictionary\<close> (an
  unordered map of strings) is a map.
\<close>

type_synonym dictionary = "string \<Rightarrow> string option"

subsection \<open>Headers\<close>

lemma sr_skip_one_shorter: "sr_skip_one s = Inr t \<Longrightarrow> length s = Suc (length t)"
  by (cases s) auto

function header_parse_lines :: "string \<Rightarrow> dictionary \<Rightarrow> fault + dictionary" where
  "header_parse_lines reader d =
     (let r1 = sr_skip_spaces reader in
      if \<not> sr_has_next r1 then Inr d
      else let (key, r2) = sr_read_until CHR '':'' r1 in
        case sr_skip_one r2 of
          Inl x \<Rightarrow> Inl x
        | Inr r3 \<Rightarrow>
            let (val, r4) = sr_read_to_end_line (sr_skip_spaces r3) in
            header_parse_lines r4 (d(key \<mapsto> val)))"
  by pat_completeness auto
termination
proof (relation "measure (\<lambda>(reader, d). length reader)")
  fix reader d r1 key val :: string and kr :: "string \<times> string" and r2 r3 r4 :: string and vr :: "string \<times> string"
  fix d :: dictionary
  assume r: "r1 = sr_skip_spaces reader" "(key, r2) = kr" "kr = sr_read_until CHR '':'' r1"
    "sr_skip_one r2 = Inr r3" "vr = sr_read_to_end_line (sr_skip_spaces r3)" "(val, r4) = vr"
  have "length r1 \<le> length reader" using r(1) by (simp add: sr_skip_spaces_length)
  moreover have "length r2 \<le> length r1" using sr_read_until_length [of "CHR '':''" r1] r(2,3) by (metis snd_conv)
  moreover have "length r2 = Suc (length r3)" by (rule sr_skip_one_shorter [OF r(4)])
  moreover have "length r4 \<le> length (sr_skip_spaces r3)" using sr_read_to_end_line_length [of "sr_skip_spaces r3"] r(5,6) by (metis snd_conv)
  moreover have "length (sr_skip_spaces r3) \<le> length r3" by (rule sr_skip_spaces_length)
  ultimately show "((r4, d(key \<mapsto> val)), reader, d) \<in> measure (\<lambda>(reader, d). length reader)" by simp
qed simp

declare header_parse_lines.simps [simp del]

definition header_parse :: "string \<Rightarrow> fault + dictionary" where
  "header_parse s = header_parse_lines (sr_skip_line (sr_skip_until_str ''HTTP'' s)) Map.empty"

definition header_lookup :: "dictionary \<Rightarrow> string \<Rightarrow> string" where
  "header_lookup d key = (case d key of Some v \<Rightarrow> v | None \<Rightarrow> [])"

subsection \<open>What is parsed\<close>

text \<open>
  A field that the parser gives back as it is: the name is not empty, does not begin with a space and has no
  colon; the value is not empty, does not begin with a space and has no newline.
\<close>

definition field_ok :: "string \<times> string \<Rightarrow> bool" where
  "field_ok f \<longleftrightarrow>
     fst f \<noteq> [] \<and> \<not> is_space (hd (fst f)) \<and> CHR '':'' \<notin> set (fst f) \<and>
     snd f \<noteq> [] \<and> \<not> is_space (hd (snd f)) \<and> newline \<notin> set (snd f)"

definition render_field :: "string \<times> string \<Rightarrow> string" where
  "render_field f = fst f @ '': '' @ snd f @ [newline]"

definition render_header :: "string \<Rightarrow> (string \<times> string) list \<Rightarrow> string" where
  "render_header line fs = ''HTTP'' @ line @ [newline] @ concat (map render_field fs)"

lemma space_chars [simp]: "is_space newline" "is_space carriage_return" "is_space CHR '' ''" "\<not> is_space CHR '':''"
  by (simp_all add: is_space_def newline_def carriage_return_def)

lemma newline_neq [simp]: "newline \<noteq> CHR '':''" "CHR '':'' \<noteq> newline" "newline \<noteq> CHR '' ''" "newline \<noteq> carriage_return" "carriage_return \<noteq> newline"
  by (simp_all add: newline_def carriage_return_def)

lemma sr_skip_line_text: "newline \<notin> set xs \<Longrightarrow> ys = [] \<or> hd ys \<noteq> carriage_return \<Longrightarrow> sr_skip_line (xs @ newline # ys) = ys"
  by (cases ys) (auto simp: sr_skip_line_def)

lemma sr_skip_line_cr: "newline \<notin> set xs \<Longrightarrow> sr_skip_line (xs @ newline # carriage_return # ys) = ys"
  by (auto simp: sr_skip_line_def)

lemma sr_skip_spaces_app: "xs \<noteq> [] \<Longrightarrow> \<not> is_space (hd xs) \<Longrightarrow> sr_skip_spaces (xs @ ys) = xs @ ys"
  by (cases xs) auto

lemma header_parse_space: "is_space c \<Longrightarrow> header_parse_lines (c # s) d = header_parse_lines s d"
  by (subst (1 2) header_parse_lines.simps) simp

lemma header_parse_blank [simp]: "list_all is_space s \<Longrightarrow> header_parse_lines s d = Inr d"
proof (induction s)
  case Nil
  then show ?case by (subst header_parse_lines.simps) (simp add: sr_has_next_def)
qed (simp add: header_parse_space)

text \<open>The end of a line: a carriage return after it is skipped, here or as a space later.\<close>

lemma header_parse_skip_line:
  "newline \<notin> set xs \<Longrightarrow> header_parse_lines (sr_skip_line (xs @ newline # rest)) d = header_parse_lines rest d"
  by (cases rest) (auto simp: sr_skip_line_def header_parse_space)

text \<open>One line \<open>name:\<close>, then spaces, then text up to the end of the line it is on.\<close>

lemma header_parse_line:
  assumes k: "k \<noteq> []" "\<not> is_space (hd k)" "CHR '':'' \<notin> set k"
    and ws: "list_all is_space ws" and v: "v \<noteq> []" "\<not> is_space (hd v)" "newline \<notin> set v"
  shows "header_parse_lines (k @ CHR '':'' # ws @ v @ newline # rest) d = header_parse_lines rest (d(k \<mapsto> v))"
proof -
  let ?s = "k @ CHR '':'' # ws @ v @ newline # rest"
  have a: "sr_skip_spaces ?s = ?s" using k by (simp add: sr_skip_spaces_app)
  have b: "sr_read_until CHR '':'' ?s = (k, CHR '':'' # ws @ v @ newline # rest)" using k by simp
  have c: "sr_skip_spaces (ws @ v @ newline # rest) = v @ newline # rest"
    using ws v by (induction ws) (auto simp: sr_skip_spaces_app)
  have d: "sr_read_to_end_line (v @ newline # rest) = (v, sr_skip_line (newline # rest))"
    using v by (simp add: sr_read_to_end_line_def)
  have "header_parse_lines ?s d = header_parse_lines (sr_skip_line ([] @ newline # rest)) (d(k \<mapsto> v))"
    by (subst header_parse_lines.simps) (simp add: a b c d sr_has_next_def Let_def)
  then show ?thesis by (simp only: header_parse_skip_line list.set empty_iff not_False_eq_True)
qed

lemma header_parse_field:
  assumes "field_ok f"
  shows "header_parse_lines (render_field f @ rest) d = header_parse_lines rest (d(fst f \<mapsto> snd f))"
  using header_parse_line [of "fst f" "[CHR '' '']" "snd f" rest d] assms
  by (simp add: field_ok_def render_field_def)

lemma header_parse_fields:
  "list_all field_ok fs \<Longrightarrow>
    header_parse_lines (concat (map render_field fs) @ rest) d = header_parse_lines rest (d ++ map_of (rev fs))"
proof (induction fs arbitrary: d)
  case (Cons f fs)
  then have "header_parse_lines (concat (map render_field (f # fs)) @ rest) d =
      header_parse_lines rest (d(fst f \<mapsto> snd f) ++ map_of (rev fs))"
    by (simp add: header_parse_field)
  also have "d(fst f \<mapsto> snd f) ++ map_of (rev fs) = d ++ map_of (rev (f # fs))"
    by (cases f) (auto simp: map_add_def fun_eq_iff split: option.splits)
  finally show ?case .
qed simp

lemma header_parse_status_line:
  "newline \<notin> set line \<Longrightarrow> header_parse (''HTTP'' @ line @ newline # rest) = header_parse_lines rest Map.empty"
  using header_parse_skip_line [of "''HTTP'' @ line" rest Map.empty]
  by (simp add: header_parse_def sr_skip_until_str_def newline_def)

text \<open>A header as it comes over the wire: every line ends with a carriage return and a newline.\<close>

definition wire_header :: "string \<Rightarrow> (string \<times> string) list \<Rightarrow> string" where
  "wire_header line fs =
     ''HTTP'' @ line @ [carriage_return, newline] @
     concat (map (\<lambda>(k, v). k @ '': '' @ v @ [carriage_return, newline]) fs) @ [carriage_return, newline]"

subsection \<open>Status\<close>

text \<open>\<open>HttpStatus::Code\<close> is an enumeration over \<open>uint16_t\<close>: any 16-bit number is one.\<close>

type_synonym http_status = u16

definition http_status_from_code :: "int \<Rightarrow> http_status" where
  "http_status_from_code code = word_of_int code"

definition http_code_ok :: http_status where "http_code_ok = 200"
definition http_code_not_found :: http_status where "http_code_not_found = 404"
definition http_code_bad_request :: http_status where "http_code_bad_request = 400"

definition http_status_table :: "(http_status \<times> string) list" where
  "http_status_table = [
     (0, ''Invalid status''),
     (200, ''200 OK''),
     (201, ''201 Created''),
     (204, ''204 NoContent''),
     (400, ''400 BadRequest''),
     (404, ''404 Not Found''),
     (409, ''409 Conflict''),
     (500, ''500 Internal Server Error''),
     (502, ''502 Bad Gateway''),
     (503, ''503 Service Unavailable''),
     (504, ''504 Gateway Timeout''),
     (507, ''507 Insufficient Storage''),
     (509, ''509 Bandwidth Limit Exceeded''),
     (520, ''520 Web Server Is Down''),
     (522, ''522 Connection Timed Out''),
     (523, ''523 Origin Is Unreachable''),
     (524, ''524 A Timeout Occurred''),
     (525, ''525 SSL Handshake Failed''),
     (526, ''526 Invalid SSL Certificate'')]"

definition http_status_to_string :: "http_status \<Rightarrow> string" where
  "http_status_to_string st =
     (case map_of http_status_table st of
        Some s \<Rightarrow> s
      | None \<Rightarrow> ''Unknown HttpStatusCode ('' @ decimal_nat (unat st) @ '')'')"

subsection \<open>Responses\<close>

record 'm http_response =
  hr_status :: http_status
  hr_header :: dictionary
  hr_metrics :: 'm
  hr_url :: string
  hr_content :: string

definition http_response_is_ok :: "'m http_response \<Rightarrow> bool" where
  "http_response_is_ok r \<longleftrightarrow> hr_status r = http_code_ok"

text \<open>
  The end of \<open>HttpRequest::Run\<close> and \<open>Http::Get\<close>: the response made of what libcurl reported. \<open>code\<close> is
  its response code, \<open>header\<close> and \<open>content\<close> what the write callback collected.
\<close>

definition write_function :: "string \<Rightarrow> string \<Rightarrow> nat \<times> string" where
  "write_function chunk buf = (length chunk, buf @ chunk)"

definition http_collect :: "string list \<Rightarrow> string" where
  "http_collect chunks = foldl (\<lambda>buf c. snd (write_function c buf)) [] chunks"

definition http_make_response :: "int \<Rightarrow> string list \<Rightarrow> 'm \<Rightarrow> string \<Rightarrow> string list \<Rightarrow> fault + 'm http_response" where
  "http_make_response code header metrics url content =
     sum_bind (header_parse (http_collect header)) (\<lambda>h.
       Inr \<lparr>hr_status = http_status_from_code code, hr_header = h, hr_metrics = metrics, hr_url = url,
         hr_content = http_collect content\<rparr>)"

lemma http_collect: "http_collect chunks = concat chunks"
proof -
  have "foldl (\<lambda>buf c. snd (write_function c buf)) acc chunks = acc @ concat chunks" for acc
    by (induction chunks arbitrary: acc) (auto simp: write_function_def)
  then show ?thesis by (simp add: http_collect_def)
qed

lemma decimal_nat_3:
  assumes "100 \<le> n" "n < 1000"
  shows "decimal_nat n = [digit_char (n div 100), digit_char (n div 10 mod 10), digit_char (n mod 10)]"
proof -
  have "n div 10 div 10 = n div 100" by (simp add: div_mult2_eq [symmetric])
  moreover have "10 \<le> n div 10" "n div 100 < 10" using assms by auto
  ultimately show ?thesis
    using assms decimal_nat.simps [of n] decimal_nat.simps [of "n div 10"] decimal_nat.simps [of "n div 10 div 10"] by simp
qed

lemma digit_chars [simp]:
  "digit_char 0 = CHR ''0''" "digit_char (Suc 0) = CHR ''1''" "digit_char 2 = CHR ''2''" "digit_char 3 = CHR ''3''"
  "digit_char 4 = CHR ''4''" "digit_char 5 = CHR ''5''" "digit_char 6 = CHR ''6''" "digit_char 7 = CHR ''7''"
  "digit_char 8 = CHR ''8''" "digit_char 9 = CHR ''9''"
  by (simp_all add: digit_char_def char_of_def bit_Suc_0_iff)

subsection \<open>Properties\<close>

text \<open>
  C9. Parsing what was rendered gives the fields back, for well-formed fields and lines that end in a newline alone: when no name
  and no value is empty or begins with a blank, no name contains a colon, and no value and not the status line contains a
  newline, the map has exactly the fields, the last value winning for a repeated name. (With the line ends of HTTP, and for
  empty values, it does not: see below.)
\<close>

theorem header_roundtrip:
  assumes "newline \<notin> set line" and "list_all field_ok fs"
  shows "header_parse (render_header line fs) = Inr (map_of (rev fs))"
  using header_parse_status_line [OF assms(1), of "concat (map render_field fs)"]
    header_parse_fields [OF assms(2), of "[]" Map.empty]
  by (simp add: render_header_def)

theorem header_roundtrip_witness:
  "header_parse (render_header ''/1.1 200 OK'' [(''Server'', ''x: y''), (''A'', ''1''), (''A'', ''2'')]) =
     Inr (map_of [(''A'', ''2''), (''A'', ''1''), (''Server'', ''x: y'')])"
  using header_roundtrip [of "''/1.1 200 OK''" "[(''Server'', ''x: y''), (''A'', ''1''), (''A'', ''2'')]"]
  by (simp add: field_ok_def newline_def is_space_def)

text \<open>
  On a header with the line ends of HTTP every value keeps a trailing carriage return: \<open>SkipLine\<close> looks
  for it after the newline instead of before.
\<close>

theorem header_crlf_keeps_cr:
  assumes "newline \<notin> set line" and "list_all field_ok fs"
  shows "header_parse (wire_header line fs) = Inr (map_of (rev (map (\<lambda>(k, v). (k, v @ [carriage_return])) fs)))"
proof -
  let ?fs = "map (\<lambda>(k, v). (k, v @ [carriage_return])) fs"
  have ok: "list_all field_ok ?fs" using assms(2) by (induction fs) (auto simp: field_ok_def)
  have eq: "concat (map (\<lambda>(k, v). k @ '': '' @ v @ [carriage_return, newline]) fs) = concat (map render_field ?fs)"
    by (induction fs) (auto simp: render_field_def)
  have hdr: "wire_header line fs =
      ''HTTP'' @ (line @ [carriage_return]) @ newline # (concat (map render_field ?fs) @ [carriage_return, newline])"
    unfolding wire_header_def eq by simp
  have "newline \<notin> set (line @ [carriage_return])" using assms(1) by simp
  then have "header_parse (wire_header line fs) =
      header_parse_lines (concat (map render_field ?fs) @ [carriage_return, newline]) Map.empty"
    unfolding hdr by (rule header_parse_status_line)
  also have "\<dots> = Inr (map_of (rev ?fs))"
    using header_parse_fields [OF ok, of "[carriage_return, newline]" Map.empty] by (simp only: header_parse_blank) simp
  finally show ?thesis .
qed

theorem header_crlf_keeps_cr_witness:
  "header_parse (wire_header ''/1.1 200 OK'' [(''Content-Type'', ''text/html'')]) =
     Inr (map_of [(''Content-Type'', ''text/html'' @ [carriage_return])])"
  using header_crlf_keeps_cr [of "''/1.1 200 OK''" "[(''Content-Type'', ''text/html'')]"]
  by (simp add: field_ok_def newline_def is_space_def)

text \<open>
  A field with an empty value takes the next line as its value: the spaces skipped after the colon
  include the end of the line. The next field is lost.
\<close>

theorem header_empty_value:
  assumes "newline \<notin> set line" and "k \<noteq> []" "\<not> is_space (hd k)" "CHR '':'' \<notin> set k"
    and "field_ok f" and "newline \<notin> set (fst f)"
  shows "header_parse (''HTTP'' @ line @ newline # k @ '':'' @ newline # render_field f) =
    Inr [k \<mapsto> fst f @ '': '' @ snd f]"
  using header_parse_status_line [OF assms(1), of "k @ '':'' @ newline # render_field f"]
    header_parse_line [OF assms(2-4), of "[newline]" "fst f @ '': '' @ snd f" "[]" Map.empty] assms(5,6)
  by (simp add: field_ok_def render_field_def)

theorem header_empty_value_witness:
  "header_parse (''HTTP'' @ ''/1.1 200 OK'' @ newline # ''Etag'' @ '':'' @ newline # render_field (''Age'', ''7'')) =
    Inr [''Etag'' \<mapsto> ''Age: 7'']"
  using header_empty_value [of "''/1.1 200 OK''" "''Etag''" "(''Age'', ''7'')"]
  by (simp add: field_ok_def newline_def is_space_def)

text \<open>
  A line without a colon at the end of the header fails the assertion of \<open>SkipOne\<close> (and is undefined
  behaviour without assertions).
\<close>

lemma header_no_colon:
  assumes "newline \<notin> set line" and "list_all field_ok fs" and "CHR '':'' \<notin> set bad" and "\<not> list_all is_space bad"
  shows "header_parse (render_header line fs @ bad) = Inl (AssertFailed ''source_.length() >= count'')"
proof -
  have ne: "sr_skip_spaces bad \<noteq> []" and sub: "set (sr_skip_spaces bad) \<subseteq> set bad"
    using assms(4) by (induction bad) auto
  with assms(3) have "sr_read_until CHR '':'' (sr_skip_spaces bad) = ([], [])"
    by (intro sr_read_until_none) blast
  with ne have "header_parse_lines bad d = Inl (AssertFailed ''source_.length() >= count'')" for d
    by (subst header_parse_lines.simps) (simp add: sr_has_next_def Let_def)
  with header_parse_status_line [OF assms(1), of "concat (map render_field fs) @ bad"]
    header_parse_fields [OF assms(2), of bad Map.empty]
  show ?thesis by (simp add: render_header_def)
qed

text \<open>
  The text of a status names its code: a known one begins with the three digits, any other code is
  written out.
\<close>

lemma status_string_names_code:
  assumes "0 < i" and "i < 2 ^ 16"
  shows "let s = http_status_to_string (http_status_from_code i) in
    if word_of_int i \<in> fst ` set http_status_table then take 3 s = decimal_nat (nat i)
    else s = ''Unknown HttpStatusCode ('' @ decimal_nat (nat i) @ '')''"
proof (cases "(word_of_int i :: u16) \<in> fst ` set http_status_table")
  case True
  have u: "unat (word_of_int i :: u16) = nat i" using assms by (simp add: unsigned_of_int take_bit_int_eq_self)
  have nz: "(word_of_int i :: u16) \<noteq> 0" using u assms by auto
  have "\<forall>(st, s) \<in> set http_status_table. st \<noteq> 0 \<longrightarrow> take 3 s = decimal_nat (unat st)"
    by (simp add: http_status_table_def decimal_nat_3)
  moreover obtain s where "map_of http_status_table (word_of_int i) = Some s"
    using True by (metis map_of_eq_None_iff option.exhaust)
  moreover from this have "(word_of_int i, s) \<in> set http_status_table" by (rule map_of_SomeD)
  ultimately show ?thesis
    using True nz u by (auto simp: Let_def http_status_to_string_def http_status_from_code_def)
next
  case False
  then have "map_of http_status_table (word_of_int i) = None" by (simp add: map_of_eq_None_iff)
  with False assms show ?thesis
    by (simp add: Let_def http_status_to_string_def http_status_from_code_def unsigned_of_int take_bit_int_eq_self)
qed

end
