(* ===== verification/Blocking_Queue.thy ===== *)
theory Blocking_Queue
  imports Intrusive_List
begin

section \<open>Blocking queues\<close>

text \<open>
  \<open>concurrency/intrusive/blocking_queue.h\<close> (\<open>MPMCBlockingQueue\<close>, of intrusive nodes) and
  \<open>concurrency/blocking_queue.h\<close> (\<open>UnboundedBlockingQueue\<close>, of values in a deque). Each operation holds the
  queue's mutex from beginning to end, or until it waits on \<open>not_empty_\<close>; one definition is one such
  critical section. The threads asleep in \<open>not_empty_.wait\<close> are a set. \<open>notify_one\<close> wakes one of
  them if there is one: which one is chosen outside (\<open>wake\<close>).
\<close>

datatype 'a take_result = TookItem 'a | TookNothing | MustWait

fun wake_ok :: "tid set \<Rightarrow> tid option \<Rightarrow> bool" where
  "wake_ok asleep None \<longleftrightarrow> asleep = {}"
| "wake_ok asleep (Some t) \<longleftrightarrow> t \<in> asleep"

subsection \<open>The intrusive queue\<close>

record 'l blocking_queue =
  bq_items :: 'l
  bq_closed :: bool
  bq_asleep :: "tid set"

definition bq_new :: "'l intrusive \<Rightarrow> 'l blocking_queue" where
  "bq_new L = \<lparr>bq_items = il_new L, bq_closed = False, bq_asleep = {}\<rparr>"

definition bq_put :: "'l intrusive \<Rightarrow> addr \<Rightarrow> tid option \<Rightarrow> links \<times> 'l blocking_queue \<Rightarrow> bool \<times> links \<times> 'l blocking_queue" where
  "bq_put L item wake st =
     (let (h, q) = st in
      if bq_closed q then (False, h, q)
      else let (h', l) = il_push_back L h (bq_items q) item in
        (True, h', q\<lparr>bq_items := l, bq_asleep := bq_asleep q - set_option wake\<rparr>))"

definition bq_take :: "'l intrusive \<Rightarrow> tid \<Rightarrow> links \<times> 'l blocking_queue \<Rightarrow> addr take_result \<times> links \<times> 'l blocking_queue" where
  "bq_take L t st =
     (let (h, q) = st in
      if il_is_empty L (bq_items q)
      then if bq_closed q then (TookNothing, h, q) else (MustWait, h, q\<lparr>bq_asleep := insert t (bq_asleep q)\<rparr>)
      else let (n, h', l) = il_pop_front L h (bq_items q) in (TookItem n, h', q\<lparr>bq_items := l\<rparr>))"

text \<open>The end of \<open>CloseImpl\<close>, and all of it for the closing that discards: the items in the order the
  disposer gets them.\<close>

definition bq_close :: "'l blocking_queue \<Rightarrow> 'l blocking_queue" where
  "bq_close q = q\<lparr>bq_closed := True, bq_asleep := {}\<rparr>"

definition bq_close_discard :: "'l intrusive \<Rightarrow> links \<times> 'l blocking_queue \<Rightarrow> (addr list \<times> links \<times> 'l blocking_queue) option" where
  "bq_close_discard L st =
     (case drain L (fst st, bq_items (snd st)) of
        None \<Rightarrow> None
      | Some (ns, h, l) \<Rightarrow> Some (ns, h, bq_close ((snd st)\<lparr>bq_items := l\<rparr>)))"

subsection \<open>The queue of values\<close>

record 'a value_queue =
  vq_buffer :: "'a list"
  vq_closed :: bool
  vq_asleep :: "tid set"

definition vq_new :: "'a value_queue" where
  "vq_new = \<lparr>vq_buffer = [], vq_closed = False, vq_asleep = {}\<rparr>"

definition vq_put :: "'a \<Rightarrow> tid option \<Rightarrow> 'a value_queue \<Rightarrow> bool \<times> 'a value_queue" where
  "vq_put v wake q =
     (if vq_closed q then (False, q)
      else (True, q\<lparr>vq_buffer := vq_buffer q @ [v], vq_asleep := vq_asleep q - set_option wake\<rparr>))"

definition vq_take_locked :: "'a value_queue \<Rightarrow> fault + 'a \<times> 'a value_queue" where
  "vq_take_locked q =
     (case vq_buffer q of
        [] \<Rightarrow> Inl (AssertFailed ''Buffer is empty'')
      | v # vs \<Rightarrow> Inr (v, q\<lparr>vq_buffer := vs\<rparr>))"

definition vq_take :: "tid \<Rightarrow> 'a value_queue \<Rightarrow> fault + 'a take_result \<times> 'a value_queue" where
  "vq_take t q =
     (if vq_buffer q = []
      then Inr (if vq_closed q then (TookNothing, q) else (MustWait, q\<lparr>vq_asleep := insert t (vq_asleep q)\<rparr>))
      else case vq_take_locked q of Inl x \<Rightarrow> Inl x | Inr (v, q') \<Rightarrow> Inr (TookItem v, q'))"

definition vq_close :: "'a value_queue \<Rightarrow> 'a value_queue" where
  "vq_close q = q\<lparr>vq_closed := True, vq_buffer := [], vq_asleep := {}\<rparr>"

definition vq_shutdown :: "'a value_queue \<Rightarrow> 'a list \<times> 'a value_queue" where
  "vq_shutdown q = (vq_buffer q, q\<lparr>vq_closed := True, vq_buffer := [], vq_asleep := {}\<rparr>)"

lemmas [machine_simps] =
  bq_new_def bq_put_def bq_take_def bq_close_def bq_close_discard_def
  vq_new_def vq_put_def vq_take_locked_def vq_take_def vq_close_def vq_shutdown_def

subsection \<open>The contract of a blocking queue\<close>

text \<open>
  \<open>holds q xs c\<close>: the queue holds the items \<open>xs\<close>, oldest first, and is closed iff \<open>c\<close>. \<open>ok xs x\<close>: \<open>x\<close> may be
  put into a queue that holds \<open>xs\<close> (an intrusive node must not be in it already).
\<close>

locale blocking_fifo =
  fixes put :: "'a \<Rightarrow> 'q \<Rightarrow> bool \<times> 'q"
    and take :: "'q \<Rightarrow> ('a take_result \<times> 'q) option"
    and close :: "'q \<Rightarrow> ('a list \<times> 'q) option"
    and holds :: "'q \<Rightarrow> 'a list \<Rightarrow> bool \<Rightarrow> bool"
    and ok :: "'a list \<Rightarrow> 'a \<Rightarrow> bool"
  assumes put_open: "holds q xs False \<Longrightarrow> ok xs x \<Longrightarrow> \<exists>q'. put x q = (True, q') \<and> holds q' (xs @ [x]) False"
    and put_closed: "holds q xs True \<Longrightarrow> put x q = (False, q)"
    and take_item: "holds q (x # xs) c \<Longrightarrow> \<exists>q'. take q = Some (TookItem x, q') \<and> holds q' xs c"
    and take_empty: "holds q [] c \<Longrightarrow> \<exists>q'. take q = Some (if c then TookNothing else MustWait, q') \<and> holds q' [] c"
    and close_all: "holds q xs c \<Longrightarrow> \<exists>q'. close q = Some (xs, q') \<and> holds q' [] True"
begin

primrec put_all :: "'a list \<Rightarrow> 'q \<Rightarrow> 'q" where
  "put_all [] q = q"
| "put_all (x # xs) q = put_all xs (snd (put x q))"

primrec take_n :: "nat \<Rightarrow> 'q \<Rightarrow> ('a take_result list \<times> 'q) option" where
  "take_n 0 q = Some ([], q)"
| "take_n (Suc n) q =
     (case take q of
        None \<Rightarrow> None
      | Some (r, q') \<Rightarrow> (case take_n n q' of None \<Rightarrow> None | Some (rs, q'') \<Rightarrow> Some (r # rs, q'')))"

lemma put_all_holds:
  "holds q ys False \<Longrightarrow> (\<And>as x bs. xs = as @ x # bs \<Longrightarrow> ok (ys @ as) x) \<Longrightarrow> holds (put_all xs q) (ys @ xs) False"
proof (induction xs arbitrary: q ys)
  case Nil
  then show ?case by simp
next
  case (Cons x xs)
  have "ok ys x" using Cons.prems(2) [of "[]" x xs] by simp
  with put_open Cons.prems(1) obtain q' where q': "put x q = (True, q')" "holds q' (ys @ [x]) False" by blast
  have "ok ((ys @ [x]) @ as) y" if "xs = as @ y # bs" for as y bs
    using Cons.prems(2) [of "x # as" y bs] that by simp
  from Cons.IH [OF q'(2) this] q'(1) show ?case by simp
qed

lemma take_n_holds:
  "holds q (xs @ ys) c \<Longrightarrow> \<exists>q'. take_n (length xs) q = Some (map TookItem xs, q') \<and> holds q' ys c"
proof (induction xs arbitrary: q)
  case Nil
  then show ?case by simp
next
  case (Cons x xs)
  then obtain q' where q': "take q = Some (TookItem x, q')" "holds q' (xs @ ys) c"
    using take_item by (metis append_Cons)
  from Cons.IH [OF q'(2)] q'(1) show ?case by auto
qed

text \<open>First in, first out, across any way the items are put and taken in between.\<close>

lemma fifo:
  assumes "holds q [] False" and "\<And>as x bs. xs = as @ x # bs \<Longrightarrow> ok as x"
  shows "\<exists>q'. take_n (length xs) (put_all xs q) = Some (map TookItem xs, q') \<and> holds q' [] False"
  using take_n_holds [of "put_all xs q" xs "[]" False] put_all_holds [of q "[]" xs] assms by simp

end

subsection \<open>Both queues meet it\<close>

definition vq_holds :: "'a value_queue \<Rightarrow> 'a list \<Rightarrow> bool \<Rightarrow> bool" where
  "vq_holds q xs c \<longleftrightarrow> vq_buffer q = xs \<and> vq_closed q = c"

interpretation vq: blocking_fifo "\<lambda>v. vq_put v wake" "\<lambda>q. case vq_take t q of Inl _ \<Rightarrow> None | Inr r \<Rightarrow> Some r"
    "\<lambda>q. Some (vq_shutdown q)" vq_holds "\<lambda>_ _. True" for wake t
  by unfold_locales (auto simp: vq_holds_def vq_put_def vq_take_def vq_take_locked_def vq_shutdown_def)

definition bq_holds :: "(links \<Rightarrow> 'l \<Rightarrow> addr list \<Rightarrow> bool) \<Rightarrow> links \<times> 'l blocking_queue \<Rightarrow> addr list \<Rightarrow> bool \<Rightarrow> bool" where
  "bq_holds rep st xs c \<longleftrightarrow> rep (fst st) (bq_items (snd st)) xs \<and> bq_closed (snd st) = c"

definition bq_node_ok :: "addr list \<Rightarrow> addr \<Rightarrow> bool" where
  "bq_node_ok xs n \<longleftrightarrow> n \<noteq> 0 \<and> n \<notin> set xs"

context intrusive_list
begin

lemma bq_put_open:
  assumes "bq_holds rep (h, q) xs False" "bq_node_ok xs n"
  shows "\<exists>h' l. bq_put L n wake (h, q) = (True, h', q\<lparr>bq_items := l, bq_asleep := bq_asleep q - set_option wake\<rparr>) \<and>
    rep h' l (xs @ [n]) \<and> (\<forall>a. a \<notin> set (n # xs) \<longrightarrow> h' a = h a)"
  using push_back_ex [of h "bq_items q" xs n] assms by (auto simp: bq_holds_def bq_node_ok_def bq_put_def)

lemma bq_take_item:
  assumes "bq_holds rep (h, q) (x # xs) c"
  shows "\<exists>h' l. bq_take L t (h, q) = (TookItem x, h', q\<lparr>bq_items := l\<rparr>) \<and> rep h' l xs \<and>
    (\<forall>a. a \<notin> set (x # xs) \<longrightarrow> h' a = h a)"
  using pop_front_ex [of h "bq_items q" x xs] rep_is_empty [of h "bq_items q" "x # xs"] assms
  by (auto simp: bq_holds_def bq_take_def)

lemma bq_take_empty:
  assumes "bq_holds rep (h, q) [] c"
  shows "bq_take L t (h, q) =
    (if c then (TookNothing, h, q) else (MustWait, h, q\<lparr>bq_asleep := insert t (bq_asleep q)\<rparr>))"
  using rep_is_empty [of h "bq_items q" "[]"] assms by (auto simp: bq_holds_def bq_take_def)

lemma bq_contract:
  "blocking_fifo (\<lambda>n. bq_put L n wake) (\<lambda>st. Some (bq_take L t st)) (bq_close_discard L) (bq_holds rep) bq_node_ok"
proof
  fix st xs n assume "bq_holds rep st xs False" "bq_node_ok xs n"
  then show "\<exists>st'. bq_put L n wake st = (True, st') \<and> bq_holds rep st' (xs @ [n]) False"
    using bq_put_open [of "fst st" "snd st" xs n wake] by (cases st) (auto simp: bq_holds_def)
next
  fix st x xs c assume "bq_holds rep st (x # xs) c"
  then show "\<exists>st'. Some (bq_take L t st) = Some (TookItem x, st') \<and> bq_holds rep st' xs c"
    using bq_take_item [of "fst st" "snd st" x xs c t] by (cases st) (auto simp: bq_holds_def)
next
  fix st c assume "bq_holds rep st [] c"
  then show "\<exists>st'. Some (bq_take L t st) = Some (if c then TookNothing else MustWait, st') \<and> bq_holds rep st' [] c"
    using bq_take_empty [of "fst st" "snd st" c t] by (cases st) (auto simp: bq_holds_def)
next
  fix st xs c assume "bq_holds rep st xs c"
  then show "\<exists>st'. bq_close_discard L st = Some (xs, st') \<and> bq_holds rep st' [] True"
    using drain_all [of "fst st" "bq_items (snd st)" xs] by (auto simp: bq_holds_def bq_close_discard_def bq_close_def)
qed (auto simp: bq_holds_def bq_put_def)

end

sublocale intrusive_list \<subseteq> bq: blocking_fifo "\<lambda>n. bq_put L n None" "\<lambda>st. Some (bq_take L 0 st)" "bq_close_discard L"
    "bq_holds rep" bq_node_ok
  by (rule bq_contract)

end
