(* ===== verification/Thread_Pool.thy ===== *)
theory Thread_Pool
  imports Blocking_Queue "HOL-Library.Multiset"
begin

section \<open>The thread pool\<close>

text \<open>
  \<open>executors/thread_pool.{h,cpp}\<close> and \<open>concurrency/atomic_counter.h\<close>: worker threads that take tasks from a
  blocking queue, and a counter of outstanding tasks on which \<open>WaitIdle\<close> sleeps. A thread is a worker
  (\<open>tp_threads\<close>) or an activation of a public method. Whoever holds the queue's mutex for several
  steps (\<open>Stop\<close>, while it discards) is \<open>tp_lock\<close>; the other critical sections are single steps.
  \<open>tp_busy\<close> says which nodes are linked or about to be: a task may submit itself again while it runs.
  \<open>tp_submitted\<close>, \<open>tp_started\<close>, \<open>tp_ran\<close>, \<open>tp_discarded\<close> record what happened; no operation reads them.
\<close>

subsection \<open>The counter\<close>

record atomic_counter =
  ac_counter :: u64
  ac_asleep :: "tid set"

definition ac_new :: atomic_counter where
  "ac_new = \<lparr>ac_counter = 0, ac_asleep = {}\<rparr>"

definition ac_add :: "u64 \<Rightarrow> atomic_counter \<Rightarrow> atomic_counter" where
  "ac_add n c = c\<lparr>ac_counter := snd (atomic_fetch_add (ac_counter c) n)\<rparr>"

text \<open>\<open>Done\<close>: the decrement, which says whether to go on to \<open>notify_all\<close>, and that critical section.\<close>

definition ac_done :: "atomic_counter \<Rightarrow> bool \<times> atomic_counter" where
  "ac_done c = (let (old, n) = atomic_fetch_sub (ac_counter c) 1 in (old = 1, c\<lparr>ac_counter := n\<rparr>))"

definition ac_notify :: "atomic_counter \<Rightarrow> atomic_counter" where
  "ac_notify c = c\<lparr>ac_asleep := {}\<rparr>"

text \<open>One test of the loop of \<open>WaitZero\<close>: \<open>True\<close> if it is left.\<close>

definition ac_wait_zero :: "tid \<Rightarrow> atomic_counter \<Rightarrow> bool \<times> atomic_counter" where
  "ac_wait_zero t c = (if 0 < ac_counter c then (False, c\<lparr>ac_asleep := insert t (ac_asleep c)\<rparr>) else (True, c))"

subsection \<open>The pool\<close>

datatype pool_pc =
    TpIdle
  | TpPut addr          \<comment> \<open>\<open>Execute\<close>: counted, about to put the task\<close>
  | TpDone bool         \<comment> \<open>about to call \<open>counter_.Done()\<close>; \<open>True\<close> for a worker\<close>
  | TpNotify bool       \<comment> \<open>inside \<open>Done\<close>, about to notify\<close>
  | TpTake              \<comment> \<open>worker, about to lock the queue in \<open>Take\<close>\<close>
  | TpAsleep            \<comment> \<open>worker, in \<open>not_empty_.wait\<close>\<close>
  | TpRun addr
  | TpExited
  | TpWait              \<comment> \<open>\<open>WaitIdle\<close>: about to test the counter\<close>
  | TpWaitAsleep        \<comment> \<open>in \<open>all_done_.wait\<close>\<close>
  | TpStop              \<comment> \<open>\<open>Stop\<close>: holds the queue's mutex, discarding\<close>
  | TpStopNotify
  | TpJoin

record 'l pool =
  tp_counter :: atomic_counter
  tp_queue :: "'l blocking_queue"
  tp_links :: links
  tp_lock :: "tid option"
  tp_threads :: "tid list"
  tp_workers :: "tid list"
  tp_busy :: "addr \<Rightarrow> bool"
  tp_pc :: "tid \<Rightarrow> pool_pc"
  tp_submitted :: "addr list"
  tp_put :: "addr list"
  tp_started :: "addr list"
  tp_ran :: "addr list"
  tp_discarded :: "addr list"
  tp_refused :: "addr list"

datatype pool_event =
    TpEvExecute tid addr
  | TpEvWaitIdle tid
  | TpEvStop tid
  | TpEvRun tid "tid option"
  | TpEvSpurious tid

text \<open>The constructor starts one worker per element of \<open>ts\<close>, each at the beginning of \<open>WorkerRoutine\<close>.\<close>

definition pool_init :: "'l intrusive \<Rightarrow> tid list \<Rightarrow> 'l pool" where
  "pool_init L ts = \<lparr>tp_counter = ac_new, tp_queue = bq_new L, tp_links = (\<lambda>_. 0), tp_lock = None,
     tp_threads = ts, tp_workers = ts, tp_busy = (\<lambda>_. False),
     tp_pc = (\<lambda>t. if t \<in> set ts then TpTake else TpIdle),
     tp_submitted = [], tp_put = [], tp_started = [], tp_ran = [], tp_discarded = [], tp_refused = []\<rparr>"

definition tp_goto :: "tid \<Rightarrow> pool_pc \<Rightarrow> 'l pool \<Rightarrow> 'l pool" where
  "tp_goto t p s = s\<lparr>tp_pc := (tp_pc s)(t := p)\<rparr>"

definition tp_after_done :: "bool \<Rightarrow> pool_pc" where
  "tp_after_done worker = (if worker then TpTake else TpIdle)"

definition tp_wake_pc :: "tid option \<Rightarrow> 'l pool \<Rightarrow> 'l pool" where
  "tp_wake_pc wake s = (case wake of None \<Rightarrow> s | Some w \<Rightarrow> tp_goto w TpTake s)"

definition tp_wake_all :: "tid set \<Rightarrow> pool_pc \<Rightarrow> 'l pool \<Rightarrow> 'l pool" where
  "tp_wake_all ws p s = s\<lparr>tp_pc := (\<lambda>t. if t \<in> ws then p else tp_pc s t)\<rparr>"

definition tp_execute :: "'l intrusive \<Rightarrow> tid \<Rightarrow> tid option \<Rightarrow> 'l pool \<Rightarrow> 'l pool outcome" where
  "tp_execute L t wake s =
     (case tp_pc s t of
        TpPut n \<Rightarrow>
          (if tp_lock s \<noteq> None then Disabled
           else let (ok, h, q) = bq_put L n wake (tp_links s, tp_queue s) in
             if ok
             then if \<not> wake_ok (bq_asleep (tp_queue s)) wake then Disabled
               else Next (tp_wake_pc wake (tp_goto t TpIdle (s\<lparr>tp_links := h, tp_queue := q, tp_put := tp_put s @ [n]\<rparr>)))
             else Next (tp_goto t (TpDone False)
               (s\<lparr>tp_busy := (tp_busy s)(n := False), tp_refused := tp_refused s @ [n]\<rparr>)))
      | _ \<Rightarrow> Disabled)"

definition tp_counter_done :: "tid \<Rightarrow> 'l pool \<Rightarrow> 'l pool outcome" where
  "tp_counter_done t s =
     (case tp_pc s t of
        TpDone w \<Rightarrow>
          (let (zero, c) = ac_done (tp_counter s) in
           Next (tp_goto t (if zero then TpNotify w else tp_after_done w) (s\<lparr>tp_counter := c\<rparr>)))
      | TpNotify w \<Rightarrow>
          Next (tp_wake_all (ac_asleep (tp_counter s)) TpWait
            (tp_goto t (tp_after_done w) (s\<lparr>tp_counter := ac_notify (tp_counter s)\<rparr>)))
      | _ \<Rightarrow> Disabled)"

definition tp_worker_routine :: "'l intrusive \<Rightarrow> tid \<Rightarrow> 'l pool \<Rightarrow> 'l pool outcome" where
  "tp_worker_routine L t s =
     (case tp_pc s t of
        TpTake \<Rightarrow>
          (if tp_lock s \<noteq> None then Disabled
           else let (r, h, q) = bq_take L t (tp_links s, tp_queue s); s1 = s\<lparr>tp_links := h, tp_queue := q\<rparr> in
             case r of
               TookItem n \<Rightarrow> Next (tp_goto t (TpRun n) (s1\<lparr>tp_busy := (tp_busy s)(n := False), tp_started := tp_started s @ [n]\<rparr>))
             | TookNothing \<Rightarrow> Next (tp_goto t TpExited s1)
             | MustWait \<Rightarrow> Next (tp_goto t TpAsleep s1))
      | TpRun n \<Rightarrow>
          Next (tp_goto t (TpDone True) (s\<lparr>tp_ran := tp_ran s @ [n]\<rparr>))
      | _ \<Rightarrow> Disabled)"

definition tp_wait_idle :: "tid \<Rightarrow> 'l pool \<Rightarrow> 'l pool outcome" where
  "tp_wait_idle t s =
     (let (leave, c) = ac_wait_zero t (tp_counter s) in
      Next (tp_goto t (if leave then TpIdle else TpWaitAsleep) (s\<lparr>tp_counter := c\<rparr>)))"

definition tp_stop :: "'l intrusive \<Rightarrow> tid \<Rightarrow> 'l pool \<Rightarrow> 'l pool outcome" where
  "tp_stop L t s =
     (case tp_pc s t of
        TpStop \<Rightarrow>
          (if il_has_items L (bq_items (tp_queue s))
           then let (n, h, l) = il_pop_front L (tp_links s) (bq_items (tp_queue s));
                    (zero, c) = ac_done (tp_counter s) in
             Next (tp_goto t (if zero then TpStopNotify else TpStop)
               (s\<lparr>tp_links := h, tp_queue := (tp_queue s)\<lparr>bq_items := l\<rparr>, tp_counter := c,
                 tp_busy := (tp_busy s)(n := False), tp_discarded := tp_discarded s @ [n]\<rparr>))
           else Next (tp_wake_all (bq_asleep (tp_queue s)) TpTake
             (tp_goto t TpJoin (s\<lparr>tp_queue := bq_close (tp_queue s), tp_lock := None\<rparr>))))
      | TpStopNotify \<Rightarrow>
          Next (tp_wake_all (ac_asleep (tp_counter s)) TpWait
            (tp_goto t TpStop (s\<lparr>tp_counter := ac_notify (tp_counter s)\<rparr>)))
      | TpJoin \<Rightarrow>
          (if \<forall>w\<in>set (tp_workers s). tp_pc s w = TpExited then Next (tp_goto t TpIdle (s\<lparr>tp_workers := []\<rparr>))
           else Disabled)
      | _ \<Rightarrow> Disabled)"

fun pool_step :: "'l intrusive \<Rightarrow> pool_event \<Rightarrow> 'l pool \<Rightarrow> 'l pool outcome" where
  "pool_step L (TpEvExecute t n) s =
     (if tp_pc s t = TpIdle \<and> n \<noteq> 0 \<and> \<not> tp_busy s n
      then Next (tp_goto t (TpPut n) (s\<lparr>tp_counter := ac_add 1 (tp_counter s), tp_busy := (tp_busy s)(n := True),
        tp_submitted := tp_submitted s @ [n]\<rparr>))
      else Disabled)"
| "pool_step L (TpEvWaitIdle t) s = (if tp_pc s t = TpIdle then Next (tp_goto t TpWait s) else Disabled)"
| "pool_step L (TpEvStop t) s =
     (if tp_pc s t = TpIdle \<and> tp_lock s = None then Next (tp_goto t TpStop (s\<lparr>tp_lock := Some t\<rparr>)) else Disabled)"
| "pool_step L (TpEvRun t wake) s =
     (case tp_pc s t of
        TpPut _ \<Rightarrow> tp_execute L t wake s
      | TpDone _ \<Rightarrow> tp_counter_done t s
      | TpNotify _ \<Rightarrow> tp_counter_done t s
      | TpTake \<Rightarrow> tp_worker_routine L t s
      | TpRun _ \<Rightarrow> tp_worker_routine L t s
      | TpWait \<Rightarrow> tp_wait_idle t s
      | TpStop \<Rightarrow> tp_stop L t s
      | TpStopNotify \<Rightarrow> tp_stop L t s
      | TpJoin \<Rightarrow> tp_stop L t s
      | _ \<Rightarrow> Disabled)"
| "pool_step L (TpEvSpurious t) s =
     (case tp_pc s t of
        TpAsleep \<Rightarrow> Next (tp_goto t TpTake (s\<lparr>tp_queue := (tp_queue s)\<lparr>bq_asleep := bq_asleep (tp_queue s) - {t}\<rparr>\<rparr>))
      | TpWaitAsleep \<Rightarrow>
          Next (tp_goto t TpWait (s\<lparr>tp_counter := (tp_counter s)\<lparr>ac_asleep := ac_asleep (tp_counter s) - {t}\<rparr>\<rparr>))
      | _ \<Rightarrow> Disabled)"

text \<open>The destructor verifies that \<open>Stop\<close> was called.\<close>

definition pool_destroy :: "'l pool \<Rightarrow> unit outcome" where
  "pool_destroy s = (if tp_workers s = [] then Next () else Fault (Panic ''Most likely, you forgot to call ThreadPool::Stop()''))"

lemmas [machine_simps] =
  ac_new_def ac_add_def ac_done_def ac_notify_def ac_wait_zero_def pool_init_def tp_goto_def tp_after_done_def
  tp_wake_pc_def tp_wake_all_def tp_execute_def tp_counter_done_def tp_worker_routine_def tp_wait_idle_def tp_stop_def

subsection \<open>The invariant\<close>

definition tp_putting :: "'l pool \<Rightarrow> (tid \<times> addr) set" where
  "tp_putting s = {(t, n). tp_pc s t = TpPut n}"

definition tp_running :: "'l pool \<Rightarrow> (tid \<times> addr) set" where
  "tp_running s = {(t, n). tp_pc s t = TpRun n}"

definition tp_finishing :: "'l pool \<Rightarrow> tid set" where
  "tp_finishing s = {t. \<exists>w. tp_pc s t = TpDone w}"

definition tp_ready :: "'l pool \<Rightarrow> tid set" where
  "tp_ready s = {t. tp_pc s t = TpTake}"

fun tp_worker_pc :: "pool_pc \<Rightarrow> bool" where
  "tp_worker_pc TpTake = True"
| "tp_worker_pc TpAsleep = True"
| "tp_worker_pc (TpRun _) = True"
| "tp_worker_pc TpExited = True"
| "tp_worker_pc (TpDone w) = w"
| "tp_worker_pc (TpNotify w) = w"
| "tp_worker_pc _ = False"

fun tp_notifying :: "pool_pc \<Rightarrow> bool" where
  "tp_notifying (TpNotify _) = True"
| "tp_notifying TpStopNotify = True"
| "tp_notifying _ = False"

text \<open>The outstanding tasks: counted and not yet put, running, about to be subtracted, or in the queue.\<close>

definition tp_outstanding :: "addr list \<Rightarrow> 'l pool \<Rightarrow> nat" where
  "tp_outstanding xs s = card (tp_putting s) + card (tp_running s) + card (tp_finishing s) + length xs"

definition tp_nodes_ok :: "addr list \<Rightarrow> 'l pool \<Rightarrow> bool" where
  "tp_nodes_ok xs s \<longleftrightarrow>
     distinct xs \<and> (\<forall>n\<in>set xs. tp_busy s n) \<and>
     (\<forall>(t, n)\<in>tp_putting s. n \<noteq> 0 \<and> tp_busy s n \<and> n \<notin> set xs) \<and>
     (\<forall>(t, n)\<in>tp_putting s. \<forall>(u, m)\<in>tp_putting s. n = m \<longrightarrow> t = u)"

definition tp_counts_ok :: "nat \<Rightarrow> addr list \<Rightarrow> 'l pool \<Rightarrow> bool" where
  "tp_counts_ok k xs s \<longleftrightarrow>
     finite (tp_putting s) \<and> finite (tp_running s) \<and> finite (tp_finishing s) \<and>
     ac_counter (tp_counter s) = of_nat (tp_outstanding xs s) \<and> tp_outstanding xs s \<le> k"

definition tp_sleep_ok :: "addr list \<Rightarrow> 'l pool \<Rightarrow> bool" where
  "tp_sleep_ok xs s \<longleftrightarrow>
     bq_asleep (tp_queue s) = {t. tp_pc s t = TpAsleep} \<and> ac_asleep (tp_counter s) = {t. tp_pc s t = TpWaitAsleep} \<and>
     finite (tp_ready s) \<and> (bq_asleep (tp_queue s) = {} \<or> length xs \<le> card (tp_ready s)) \<and>
     (ac_asleep (tp_counter s) = {} \<or> 0 < tp_outstanding xs s \<or> (\<exists>t. tp_notifying (tp_pc s t)))"

definition tp_close_ok :: "addr list \<Rightarrow> 'l pool \<Rightarrow> bool" where
  "tp_close_ok xs s \<longleftrightarrow>
     (bq_closed (tp_queue s) \<longrightarrow> xs = [] \<and> bq_asleep (tp_queue s) = {}) \<and>
     (\<forall>t. tp_lock s = Some t \<longleftrightarrow> tp_pc s t = TpStop \<or> tp_pc s t = TpStopNotify) \<and>
     (tp_discarded s \<noteq> [] \<longrightarrow> bq_closed (tp_queue s) \<or> tp_lock s \<noteq> None) \<and>
     (\<forall>t. tp_pc s t = TpExited \<or> tp_pc s t = TpJoin \<longrightarrow> bq_closed (tp_queue s)) \<and>
     (\<forall>t. t \<in> set (tp_threads s) \<longleftrightarrow> tp_worker_pc (tp_pc s t)) \<and>
     (tp_workers s = tp_threads s \<or> tp_workers s = [] \<and> (\<forall>t\<in>set (tp_threads s). tp_pc s t = TpExited))"

definition tp_logs_ok :: "addr list \<Rightarrow> 'l pool \<Rightarrow> bool" where
  "tp_logs_ok xs s \<longleftrightarrow>
     tp_put s = tp_started s @ tp_discarded s @ xs \<and>
     mset (tp_submitted s) = mset (tp_put s) + mset (tp_refused s) + image_mset snd (mset_set (tp_putting s)) \<and>
     mset (tp_started s) = mset (tp_ran s) + image_mset snd (mset_set (tp_running s))"

definition pool_inv_with :: "(links \<Rightarrow> 'l \<Rightarrow> addr list \<Rightarrow> bool) \<Rightarrow> nat \<Rightarrow> addr list \<Rightarrow> 'l pool \<Rightarrow> bool" where
  "pool_inv_with rep k xs s \<longleftrightarrow>
     rep (tp_links s) (bq_items (tp_queue s)) xs \<and> tp_nodes_ok xs s \<and> tp_counts_ok k xs s \<and> tp_sleep_ok xs s \<and>
     tp_close_ok xs s \<and> tp_logs_ok xs s"

definition pool_inv :: "(links \<Rightarrow> 'l \<Rightarrow> addr list \<Rightarrow> bool) \<Rightarrow> nat \<Rightarrow> 'l pool \<Rightarrow> bool" where
  "pool_inv rep k s \<longleftrightarrow> (\<exists>xs. pool_inv_with rep k xs s)"

lemma pool_invI: "pool_inv_with rep k xs s \<Longrightarrow> pool_inv rep k s"
  by (auto simp: pool_inv_def)

lemmas tp_sets = tp_putting_def tp_running_def tp_finishing_def tp_ready_def

lemma tpI_rep: "pool_inv_with rep k xs s \<Longrightarrow> rep (tp_links s) (bq_items (tp_queue s)) xs"
  and tpI_nodes: "pool_inv_with rep k xs s \<Longrightarrow> tp_nodes_ok xs s"
  and tpI_counts: "pool_inv_with rep k xs s \<Longrightarrow> tp_counts_ok k xs s"
  and tpI_sleep: "pool_inv_with rep k xs s \<Longrightarrow> tp_sleep_ok xs s"
  and tpI_close: "pool_inv_with rep k xs s \<Longrightarrow> tp_close_ok xs s"
  and tpI_logs: "pool_inv_with rep k xs s \<Longrightarrow> tp_logs_ok xs s"
  by (simp_all add: pool_inv_with_def)

text \<open>A step that neither touches tasks nor sleepers nor workers keeps most of the invariant.\<close>

definition tp_same_sets :: "'l pool \<Rightarrow> 'l pool \<Rightarrow> bool" where
  "tp_same_sets s s' \<longleftrightarrow> tp_putting s' = tp_putting s \<and> tp_running s' = tp_running s \<and>
     tp_finishing s' = tp_finishing s \<and> tp_ready s' = tp_ready s"

lemma tp_close_okI:
  assumes "tp_close_ok xs s" and "tp_threads s' = tp_threads s" and "tp_workers s' = tp_workers s"
    and "\<And>t. t \<in> set (tp_threads s) \<longleftrightarrow> tp_worker_pc (tp_pc s' t)"
    and "\<And>t. tp_pc s t = TpExited \<Longrightarrow> tp_pc s' t = TpExited"
    and "\<And>t. tp_lock s' = Some t \<longleftrightarrow> tp_pc s' t = TpStop \<or> tp_pc s' t = TpStopNotify"
    and "bq_closed (tp_queue s') \<Longrightarrow> xs' = [] \<and> bq_asleep (tp_queue s') = {}"
    and "tp_discarded s' \<noteq> [] \<Longrightarrow> bq_closed (tp_queue s') \<or> tp_lock s' \<noteq> None"
    and "\<And>t. tp_pc s' t = TpExited \<or> tp_pc s' t = TpJoin \<Longrightarrow> bq_closed (tp_queue s')"
  shows "tp_close_ok xs' s'"
  unfolding tp_close_ok_def
proof (intro conjI allI impI)
  show "tp_workers s' = tp_threads s' \<or> tp_workers s' = [] \<and> (\<forall>t\<in>set (tp_threads s'). tp_pc s' t = TpExited)"
    using assms(1-3,5) unfolding tp_close_ok_def by metis
qed (use assms in \<open>simp_all\<close>)

lemma tp_worker_iff: "pool_inv_with rep k xs s \<Longrightarrow> t \<in> set (tp_threads s) \<longleftrightarrow> tp_worker_pc (tp_pc s t)"
  and tp_lock_iff: "pool_inv_with rep k xs s \<Longrightarrow> tp_lock s = Some t \<longleftrightarrow> tp_pc s t = TpStop \<or> tp_pc s t = TpStopNotify"
  and tp_closed_empty: "pool_inv_with rep k xs s \<Longrightarrow> bq_closed (tp_queue s) \<Longrightarrow> xs = [] \<and> bq_asleep (tp_queue s) = {}"
  and tp_discarded_closed: "pool_inv_with rep k xs s \<Longrightarrow> tp_discarded s \<noteq> [] \<Longrightarrow> bq_closed (tp_queue s) \<or> tp_lock s \<noteq> None"
  and tp_exited_closed: "pool_inv_with rep k xs s \<Longrightarrow> tp_pc s t = TpExited \<or> tp_pc s t = TpJoin \<Longrightarrow> bq_closed (tp_queue s)"
  using tpI_close [of rep k xs s] by (auto simp: tp_close_ok_def)

lemma tp_asleep_iff: "pool_inv_with rep k xs s \<Longrightarrow> t \<in> bq_asleep (tp_queue s) \<longleftrightarrow> tp_pc s t = TpAsleep"
  and tp_wait_asleep_iff: "pool_inv_with rep k xs s \<Longrightarrow> t \<in> ac_asleep (tp_counter s) \<longleftrightarrow> tp_pc s t = TpWaitAsleep"
  using tpI_sleep [of rep k xs s] by (auto simp: tp_sleep_ok_def)

lemmas tp_iffs = tp_worker_iff tp_lock_iff tp_closed_empty tp_discarded_closed tp_exited_closed tp_asleep_iff tp_wait_asleep_iff

lemma tp_put_node:
  assumes "pool_inv_with rep k xs s" and "tp_pc s t = TpPut n"
  shows "n \<noteq> 0" "tp_busy s n" "n \<notin> set xs"
    and "\<And>u. tp_pc s u = TpPut n \<Longrightarrow> u = t"
  using tpI_nodes [OF assms(1)] assms(2) unfolding tp_nodes_ok_def tp_sets by blast+

lemma tp_nodes_okI:
  assumes "distinct xs'" "\<And>n. n \<in> set xs' \<Longrightarrow> tp_busy s' n"
    and "\<And>t n. tp_pc s' t = TpPut n \<Longrightarrow> n \<noteq> 0 \<and> tp_busy s' n \<and> n \<notin> set xs'"
    and "\<And>t u n. tp_pc s' t = TpPut n \<Longrightarrow> tp_pc s' u = TpPut n \<Longrightarrow> t = u"
  shows "tp_nodes_ok xs' s'"
  using assms unfolding tp_nodes_ok_def tp_sets by blast

lemma tp_nodes_ok_sub:
  assumes I: "pool_inv_with rep k xs s"
    and sub: "\<And>u m. tp_pc s' u = TpPut m \<Longrightarrow>
      (tp_pc s u = TpPut m) \<and> tp_busy s' m \<and> m \<notin> set xs'"
    and "distinct xs'" "\<And>m. m \<in> set xs' \<Longrightarrow> tp_busy s' m"
  shows "tp_nodes_ok xs' s'"
proof (rule tp_nodes_okI)
  fix u m assume "tp_pc s' u = TpPut m"
  with sub tp_put_node(1) [OF I] show "m \<noteq> 0 \<and> tp_busy s' m \<and> m \<notin> set xs'" by blast
next
  fix u v m
  assume "tp_pc s' u = TpPut m" "tp_pc s' v = TpPut m"
  with sub tp_put_node(4) [OF I] show "u = v" by blast
qed (use assms(3,4) in auto)

lemma tp_sleep_okI:
  assumes "\<And>u. u \<in> bq_asleep (tp_queue s') \<longleftrightarrow> tp_pc s' u = TpAsleep"
    and "\<And>u. u \<in> ac_asleep (tp_counter s') \<longleftrightarrow> tp_pc s' u = TpWaitAsleep"
    and "finite (tp_ready s')" "bq_asleep (tp_queue s') = {} \<or> length xs' \<le> card (tp_ready s')"
    and "ac_asleep (tp_counter s') = {} \<or> 0 < tp_outstanding xs' s' \<or> (\<exists>t. tp_notifying (tp_pc s' t))"
  shows "tp_sleep_ok xs' s'"
  using assms by (auto simp: tp_sleep_ok_def)

lemma tp_ready_finite: "pool_inv_with rep k xs s \<Longrightarrow> finite (tp_ready s)"
  and tp_ready_enough: "pool_inv_with rep k xs s \<Longrightarrow> bq_asleep (tp_queue s) = {} \<or> length xs \<le> card (tp_ready s)"
  and tp_notified: "pool_inv_with rep k xs s \<Longrightarrow>
    ac_asleep (tp_counter s) = {} \<or> 0 < tp_outstanding xs s \<or> (\<exists>t. tp_notifying (tp_pc s t))"
  unfolding pool_inv_with_def tp_sleep_ok_def by blast+

lemma tp_distinct: "pool_inv_with rep k xs s \<Longrightarrow> distinct xs"
  and tp_queued_busy: "pool_inv_with rep k xs s \<Longrightarrow> n \<in> set xs \<Longrightarrow> tp_busy s n"
  using tpI_nodes [of rep k xs s] by (auto simp: tp_nodes_ok_def)

subsection \<open>One step keeps the invariant\<close>

lemma pool_inv_quiet:
  assumes I: "pool_inv_with rep k xs s"
    and t: "tp_pc s t = q" "tp_pc s' = (tp_pc s)(t := p)"
    and qp: "(q, p) \<in> {(TpIdle, TpWait), (TpIdle, TpStop), (TpWait, TpIdle)}"
    and lock: "tp_lock s' = (if p = TpStop then Some t else tp_lock s)" "p = TpStop \<Longrightarrow> tp_lock s = None"
    and rest: "tp_counter s' = tp_counter s" "tp_queue s' = tp_queue s" "tp_links s' = tp_links s" "tp_threads s' = tp_threads s"
      "tp_workers s' = tp_workers s" "tp_busy s' = tp_busy s" "tp_submitted s' = tp_submitted s" "tp_put s' = tp_put s"
      "tp_started s' = tp_started s" "tp_ran s' = tp_ran s" "tp_discarded s' = tp_discarded s" "tp_refused s' = tp_refused s"
  shows "pool_inv_with rep (Suc k) xs s'"
proof -
  have sets: "tp_putting s' = tp_putting s" "tp_running s' = tp_running s" "tp_finishing s' = tp_finishing s" "tp_ready s' = tp_ready s"
    using t qp by (auto simp: tp_sets split: if_splits)
  have out: "tp_outstanding xs s' = tp_outstanding xs s" by (simp add: tp_outstanding_def sets)
  have "tp_nodes_ok xs s'" using tpI_nodes [OF I] by (simp add: tp_nodes_ok_def sets rest)
  moreover have "tp_counts_ok (Suc k) xs s'" using tpI_counts [OF I] by (simp add: tp_counts_ok_def sets out rest)
  moreover have "tp_sleep_ok xs s'"
  proof (rule tp_sleep_okI)
    show "ac_asleep (tp_counter s') = {} \<or> 0 < tp_outstanding xs s' \<or> (\<exists>u. tp_notifying (tp_pc s' u))"
      using tp_notified [OF I] t qp by (auto simp: rest out) (metis tp_notifying.simps)+
  qed (use t qp tp_iffs [OF I] tp_ready_finite [OF I] tp_ready_enough [OF I] in \<open>auto simp: rest sets\<close>)
  moreover have "tp_close_ok xs s'"
    using t qp lock tp_iffs [OF I] by (intro tp_close_okI [OF tpI_close [OF I]]) (auto simp: rest split: if_splits)
  moreover have "tp_logs_ok xs s'" using tpI_logs [OF I] by (simp add: tp_logs_ok_def sets rest)
  ultimately show ?thesis using tpI_rep [OF I] by (simp add: pool_inv_with_def rest)
qed

lemma pool_inv_execute:
  assumes I: "pool_inv_with rep k xs s" and t: "tp_pc s t = TpIdle" "n \<noteq> 0" "\<not> tp_busy s n"
  shows "pool_inv_with rep (Suc k) xs (tp_goto t (TpPut n) (s\<lparr>tp_counter := ac_add 1 (tp_counter s),
    tp_busy := (tp_busy s)(n := True), tp_submitted := tp_submitted s @ [n]\<rparr>))" (is "pool_inv_with _ _ _ ?s")
proof -
  have new: "(t, n) \<notin> tp_putting s" using t by (simp add: tp_sets)
  have sets: "tp_putting ?s = insert (t, n) (tp_putting s)" "tp_running ?s = tp_running s"
    "tp_finishing ?s = tp_finishing s" "tp_ready ?s = tp_ready s"
    using t by (auto simp: tp_sets tp_goto_def split: if_splits)
  have fin: "finite (tp_putting s)" using tpI_counts [OF I] by (simp add: tp_counts_ok_def)
  have out: "tp_outstanding xs ?s = Suc (tp_outstanding xs s)" using new fin by (simp add: tp_outstanding_def sets)
  have n: "n \<notin> set xs" using t tp_queued_busy [OF I] by blast
  have "tp_nodes_ok xs ?s"
    using t n tp_distinct [OF I] tp_queued_busy [OF I] tp_put_node [OF I]
    by (intro tp_nodes_okI) (auto simp: tp_goto_def split: if_splits)
  moreover have "tp_counts_ok (Suc k) xs ?s" using tpI_counts [OF I] fin
    by (simp add: tp_counts_ok_def sets out) (simp add: tp_goto_def ac_add_def atomic_fetch_add_def)
  moreover have "tp_sleep_ok xs ?s"
    using t tp_iffs [OF I] tp_ready_finite [OF I] tp_ready_enough [OF I]
    by (intro tp_sleep_okI) (auto simp: sets out, auto simp: tp_goto_def ac_add_def split: if_splits)
  moreover have "tp_close_ok xs ?s"
    using t tp_iffs [OF I] by (intro tp_close_okI [OF tpI_close [OF I]]) (auto simp: tp_goto_def split: if_splits)
  moreover have "tp_logs_ok xs ?s" using tpI_logs [OF I] new fin by (simp add: tp_logs_ok_def sets) (simp add: tp_goto_def)
  ultimately show ?thesis using tpI_rep [OF I] by (simp add: pool_inv_with_def tp_goto_def)
qed


context intrusive_list
begin

lemma pool_inv_put_refused:
  assumes I: "pool_inv_with rep k xs s" and t: "tp_pc s t = TpPut n"
  shows "pool_inv_with rep (Suc k) xs (tp_goto t (TpDone False)
    (s\<lparr>tp_busy := (tp_busy s)(n := False), tp_refused := tp_refused s @ [n]\<rparr>))" (is "pool_inv_with _ _ _ ?s")
proof -
  have old: "(t, n) \<in> tp_putting s" and new: "t \<notin> tp_finishing s" using t by (auto simp: tp_sets)
  have sets: "tp_putting ?s = tp_putting s - {(t, n)}" "tp_running ?s = tp_running s"
    "tp_finishing ?s = insert t (tp_finishing s)" "tp_ready ?s = tp_ready s"
    using t by (auto simp: tp_sets tp_goto_def split: if_splits)
  have fin: "finite (tp_putting s)" "finite (tp_finishing s)" using tpI_counts [OF I] by (simp_all add: tp_counts_ok_def)
  have "card (tp_putting s) = Suc (card (tp_putting s - {(t, n)}))" using card_Suc_Diff1 [OF fin(1) old] by simp
  with new fin have out: "tp_outstanding xs ?s = tp_outstanding xs s" by (simp add: tp_outstanding_def sets)
  note node = tp_put_node [OF I t]
  have "tp_nodes_ok xs ?s"
    using t node tp_distinct [OF I] tp_queued_busy [OF I] tp_put_node [OF I]
    by (intro tp_nodes_okI) (auto simp: tp_goto_def split: if_splits)
  moreover have "tp_counts_ok (Suc k) xs ?s" using tpI_counts [OF I]
    by (simp add: tp_counts_ok_def sets out) (simp add: tp_goto_def)
  moreover have "tp_sleep_ok xs ?s"
    using t tp_iffs [OF I] tp_ready_finite [OF I] tp_ready_enough [OF I] out new fin
    by (intro tp_sleep_okI) (auto simp: sets tp_outstanding_def, auto simp: tp_goto_def split: if_splits)
  moreover have "tp_close_ok xs ?s"
    using t tp_iffs [OF I] by (intro tp_close_okI [OF tpI_close [OF I]]) (auto simp: tp_goto_def split: if_splits)
  moreover have "tp_logs_ok xs ?s"
    using tpI_logs [OF I] mset_set.remove [OF fin(1) old] by (simp add: tp_logs_ok_def sets) (simp add: tp_goto_def)
  ultimately show ?thesis using tpI_rep [OF I] by (simp add: pool_inv_with_def tp_goto_def)
qed

lemma pool_inv_put:
  assumes I: "pool_inv_with rep k xs s" and t: "tp_pc s t = TpPut n" and open_: "\<not> bq_closed (tp_queue s)" "tp_lock s = None"
    and put: "bq_put L n wake (tp_links s, tp_queue s) = (ok, h, q)" and wake: "wake_ok (bq_asleep (tp_queue s)) wake"
  shows "ok \<and> pool_inv_with rep (Suc k) (xs @ [n])
    (tp_wake_pc wake (tp_goto t TpIdle (s\<lparr>tp_links := h, tp_queue := q, tp_put := tp_put s @ [n]\<rparr>)))" (is "_ \<and> pool_inv_with _ _ _ ?s")
proof -
  have old: "(t, n) \<in> tp_putting s" using t by (auto simp: tp_sets)
  note node = tp_put_node [OF I t]
  have "bq_holds rep (tp_links s, tp_queue s) xs False" using tpI_rep [OF I] open_ by (simp add: bq_holds_def)
  from bq_put_open [OF this, of n wake] node put obtain l
    where "ok" "q = (tp_queue s)\<lparr>bq_items := l, bq_asleep := bq_asleep (tp_queue s) - set_option wake\<rparr>" "rep h l (xs @ [n])"
    by (auto simp: bq_node_ok_def)
  then have q: "ok" "bq_asleep q = bq_asleep (tp_queue s) - set_option wake" "\<not> bq_closed q" "rep h (bq_items q) (xs @ [n])"
    using open_ by simp_all
  have w: "tp_pc s w = TpAsleep" "w \<noteq> t" if "wake = Some w" for w
    using wake that t tp_asleep_iff [OF I, of w] by auto
  have pc: "tp_pc ?s = (\<lambda>u. if wake = Some u then TpTake else if u = t then TpIdle else tp_pc s u)"
    using w by (auto simp: tp_wake_pc_def tp_goto_def split: option.splits)
  have rest [simp]: "tp_queue ?s = q" "tp_links ?s = h" "tp_counter ?s = tp_counter s" "tp_threads ?s = tp_threads s" "tp_workers ?s = tp_workers s"
    "tp_busy ?s = tp_busy s" "tp_submitted ?s = tp_submitted s" "tp_put ?s = tp_put s @ [n]" "tp_started ?s = tp_started s"
    "tp_ran ?s = tp_ran s" "tp_discarded ?s = tp_discarded s" "tp_refused ?s = tp_refused s" "tp_lock ?s = tp_lock s"
    by (auto simp: tp_wake_pc_def tp_goto_def split: option.splits)
  have sets: "tp_putting ?s = tp_putting s - {(t, n)}" "tp_running ?s = tp_running s"
    "tp_finishing ?s = tp_finishing s" "tp_ready ?s = set_option wake \<union> tp_ready s"
    using t w by (auto simp: tp_sets pc split: if_splits)
  have fin: "finite (tp_putting s)" "finite (tp_ready s)"
    using tpI_counts [OF I] tp_ready_finite [OF I] by (simp_all add: tp_counts_ok_def)
  have "card (tp_putting s) = Suc (card (tp_putting s - {(t, n)}))" using card_Suc_Diff1 [OF fin(1) old] by simp
  then have out: "tp_outstanding (xs @ [n]) ?s = tp_outstanding xs s" by (simp add: tp_outstanding_def sets)
  have ready: "bq_asleep q = {} \<or> length (xs @ [n]) \<le> card (tp_ready ?s)"
  proof (cases wake)
    case None
    with wake q(2) show ?thesis by simp
  next
    case (Some u)
    then have "u \<notin> tp_ready s" using w(1) by (simp add: tp_sets)
    with fin(2) Some have "card (set_option wake \<union> tp_ready s) = Suc (card (tp_ready s))" by simp
    then have "card (tp_ready ?s) = Suc (card (tp_ready s))" by (simp only: sets(4))
    moreover have "bq_asleep (tp_queue s) \<noteq> {}" using Some wake by auto
    ultimately show ?thesis using tp_ready_enough [OF I] by simp
  qed
  have open_pc: "tp_pc s u \<noteq> TpExited \<and> tp_pc s u \<noteq> TpJoin" for u
    using tp_exited_closed [OF I, of u] open_ by auto
  have note_: "(\<exists>u. tp_notifying (tp_pc s u)) \<longrightarrow> (\<exists>u. tp_notifying (tp_pc ?s u))"
    using t w unfolding pc by (metis tp_notifying.simps(4,7))
  have "tp_nodes_ok (xs @ [n]) ?s"
  proof (rule tp_nodes_ok_sub [OF I])
    fix u m assume "tp_pc ?s u = TpPut m"
    then have u: "tp_pc s u = TpPut m" "u \<noteq> t" by (auto simp: pc split: if_splits)
    with node(4) have "m \<noteq> n" by blast
    with u tp_put_node(2,3) [OF I u(1)] show "(tp_pc s u = TpPut m) \<and> tp_busy ?s m \<and> m \<notin> set (xs @ [n])"
      by simp
  qed (use node tp_distinct [OF I] tp_queued_busy [OF I] in auto)
  moreover have "tp_counts_ok (Suc k) (xs @ [n]) ?s" using tpI_counts [OF I]
    by (simp add: tp_counts_ok_def out) (simp add: sets)
  moreover have "tp_sleep_ok (xs @ [n]) ?s"
  proof (rule tp_sleep_okI)
    show "ac_asleep (tp_counter ?s) = {} \<or> 0 < tp_outstanding (xs @ [n]) ?s \<or> (\<exists>u. tp_notifying (tp_pc ?s u))"
      using tp_notified [OF I] note_ unfolding out rest by blast
  next
    show "finite (tp_ready ?s)" unfolding sets using fin by simp
    show "bq_asleep (tp_queue ?s) = {} \<or> length (xs @ [n]) \<le> card (tp_ready ?s)" unfolding rest by (rule ready)
  qed (use t w tp_asleep_iff [OF I] tp_wait_asleep_iff [OF I] in \<open>auto simp: q(2) pc split: if_splits\<close>)
  moreover have "tp_close_ok (xs @ [n]) ?s"
    using t w open_ open_pc tp_worker_iff [OF I] tp_lock_iff [OF I] tp_discarded_closed [OF I]
    by (intro tp_close_okI [OF tpI_close [OF I]]) (auto simp: q pc split: if_splits)
  moreover have "tp_logs_ok (xs @ [n]) ?s"
    using tpI_logs [OF I] mset_set.remove [OF fin(1) old] unfolding tp_logs_ok_def sets rest by simp
  ultimately show ?thesis using q by (simp add: pool_inv_with_def)
qed


lemma ac_done_zero:
  assumes I: "pool_inv_with rep k xs s" and "0 < tp_outstanding xs s" and k: "k < 2 ^ 64"
  shows "fst (ac_done (tp_counter s)) \<longleftrightarrow> tp_outstanding xs s = 1"
    and "snd (ac_done (tp_counter s)) = (tp_counter s)\<lparr>ac_counter := of_nat (tp_outstanding xs s - 1)\<rparr>"
  using tpI_counts [OF I] assms(2,3)
  by (auto simp: ac_done_def atomic_fetch_sub_def tp_counts_ok_def refs_one_iff of_nat_diff)

lemma pool_inv_done:
  assumes I: "pool_inv_with rep k xs s" and t: "tp_pc s t = TpDone w" and k: "k < 2 ^ 64"
    and d: "ac_done (tp_counter s) = (zero, c)"
  shows "pool_inv_with rep (Suc k) xs (tp_goto t (if zero then TpNotify w else tp_after_done w) (s\<lparr>tp_counter := c\<rparr>))"
    (is "pool_inv_with _ _ _ ?s")
proof -
  have old: "t \<in> tp_finishing s" and new: "t \<notin> tp_ready s" using t by (auto simp: tp_sets)
  have sets: "tp_putting ?s = tp_putting s" "tp_running ?s = tp_running s"
    "tp_finishing ?s = tp_finishing s - {t}" "tp_ready ?s = (if \<not> zero \<and> w then insert t (tp_ready s) else tp_ready s)"
    using t by (auto simp: tp_sets tp_goto_def tp_after_done_def split: if_splits)
  have fin: "finite (tp_finishing s)" "finite (tp_ready s)"
    using tpI_counts [OF I] tp_ready_finite [OF I] by (simp_all add: tp_counts_ok_def)
  have c1: "card (tp_finishing s) = Suc (card (tp_finishing s - {t}))" using card_Suc_Diff1 [OF fin(1) old] by simp
  then have out: "tp_outstanding xs ?s = tp_outstanding xs s - 1" "0 < tp_outstanding xs s"
    by (simp_all add: tp_outstanding_def sets)
  from ac_done_zero [OF I out(2) k] d
  have c: "zero \<longleftrightarrow> tp_outstanding xs s = 1" "c = (tp_counter s)\<lparr>ac_counter := of_nat (tp_outstanding xs s - 1)\<rparr>" by simp_all
  have w: "w \<longleftrightarrow> t \<in> set (tp_threads s)" using tp_worker_iff [OF I, of t] t by simp
  have card_ready: "card (tp_ready s) \<le> card (tp_ready ?s)" unfolding sets(4) using fin(2) by (simp add: card_insert_le)
  have "tp_nodes_ok xs ?s"
    using t tp_distinct [OF I] tp_queued_busy [OF I] tp_put_node [OF I]
    by (intro tp_nodes_okI) (auto simp: tp_goto_def tp_after_done_def split: if_splits)
  moreover have "tp_counts_ok (Suc k) xs ?s" using tpI_counts [OF I] c(2)
    unfolding tp_counts_ok_def sets(1-3) out(1) by (auto simp: tp_goto_def)
  moreover have "tp_sleep_ok xs ?s"
  proof (rule tp_sleep_okI)
    show "ac_asleep (tp_counter ?s) = {} \<or> 0 < tp_outstanding xs ?s \<or> (\<exists>u. tp_notifying (tp_pc ?s u))"
    proof (cases zero)
      case True
      then have "tp_notifying (tp_pc ?s t)" by (simp add: tp_goto_def)
      then show ?thesis by blast
    next
      case False
      with c(1) out show ?thesis by simp
    qed
    show "bq_asleep (tp_queue ?s) = {} \<or> length xs \<le> card (tp_ready ?s)"
      using tp_ready_enough [OF I] card_ready by (auto simp: tp_goto_def)
    show "finite (tp_ready ?s)" unfolding sets(4) using fin by simp
  qed (use t c tp_iffs [OF I] in \<open>auto simp: tp_goto_def tp_after_done_def split: if_splits\<close>)
  moreover have "tp_close_ok xs ?s"
    using t w tp_iffs [OF I] by (intro tp_close_okI [OF tpI_close [OF I]]) (auto simp: tp_goto_def tp_after_done_def split: if_splits)
  moreover have "tp_logs_ok xs ?s"
    using tpI_logs [OF I] unfolding tp_logs_ok_def sets(1-3) by (simp add: tp_goto_def)
  ultimately show ?thesis using tpI_rep [OF I] by (simp add: pool_inv_with_def tp_goto_def)
qed

text \<open>\<open>notify_all\<close> of the counter, then on to \<open>p\<close>.\<close>

lemma pool_inv_notify:
  assumes I: "pool_inv_with rep k xs s" and t: "tp_pc s t = q" "(q, p) \<in> {(TpNotify w, tp_after_done w), (TpStopNotify, TpStop)}"
  shows "pool_inv_with rep (Suc k) xs (tp_wake_all (ac_asleep (tp_counter s)) TpWait
    (tp_goto t p (s\<lparr>tp_counter := ac_notify (tp_counter s)\<rparr>)))" (is "pool_inv_with _ _ _ ?s")
proof -
  have pc: "tp_pc ?s = (\<lambda>u. if tp_pc s u = TpWaitAsleep then TpWait else if u = t then p else tp_pc s u)"
    using tp_wait_asleep_iff [OF I] by (auto simp: tp_wake_all_def tp_goto_def)
  have rest [simp]: "tp_queue ?s = tp_queue s" "tp_links ?s = tp_links s" "tp_counter ?s = (tp_counter s)\<lparr>ac_asleep := {}\<rparr>"
    "tp_threads ?s = tp_threads s" "tp_workers ?s = tp_workers s"
    "tp_busy ?s = tp_busy s" "tp_submitted ?s = tp_submitted s" "tp_put ?s = tp_put s" "tp_started ?s = tp_started s"
    "tp_ran ?s = tp_ran s" "tp_discarded ?s = tp_discarded s" "tp_refused ?s = tp_refused s" "tp_lock ?s = tp_lock s"
    by (simp_all add: tp_wake_all_def tp_goto_def ac_notify_def)
  have sets: "tp_putting ?s = tp_putting s" "tp_running ?s = tp_running s" "tp_finishing ?s = tp_finishing s"
    "tp_ready ?s = (if p = TpTake then insert t (tp_ready s) else tp_ready s)"
    using t by (auto simp: tp_sets pc tp_after_done_def split: if_splits)
  have out: "tp_outstanding xs ?s = tp_outstanding xs s" by (simp add: tp_outstanding_def sets)
  have fin: "finite (tp_ready s)" by (rule tp_ready_finite [OF I])
  have card_ready: "card (tp_ready s) \<le> card (tp_ready ?s)" unfolding sets(4) using fin by (simp add: card_insert_le)
  have w: "tp_worker_pc p \<longleftrightarrow> t \<in> set (tp_threads s)" using tp_worker_iff [OF I, of t] t by (auto simp: tp_after_done_def)
  have "tp_nodes_ok xs ?s"
    using t tp_distinct [OF I] tp_queued_busy [OF I] tp_put_node [OF I]
    by (intro tp_nodes_okI) (auto simp: pc tp_after_done_def split: if_splits)
  moreover have "tp_counts_ok (Suc k) xs ?s" using tpI_counts [OF I] by (simp add: tp_counts_ok_def sets(1-3) out)
  moreover have "tp_sleep_ok xs ?s"
  proof (rule tp_sleep_okI)
    show "bq_asleep (tp_queue ?s) = {} \<or> length xs \<le> card (tp_ready ?s)"
      using tp_ready_enough [OF I] card_ready by auto
    show "finite (tp_ready ?s)" unfolding sets(4) using fin by simp
  qed (use t tp_iffs [OF I] in \<open>auto simp: pc tp_after_done_def split: if_splits\<close>)
  moreover have "tp_close_ok xs ?s"
    using t w tp_iffs [OF I] by (intro tp_close_okI [OF tpI_close [OF I]]) (auto simp: pc tp_after_done_def split: if_splits)
  moreover have "tp_logs_ok xs ?s" using tpI_logs [OF I] by (simp add: tp_logs_ok_def sets(1-3))
  ultimately show ?thesis using tpI_rep [OF I] by (simp add: pool_inv_with_def)
qed

lemma pool_inv_take_item:
  assumes I: "pool_inv_with rep k (n # xs) s" and t: "tp_pc s t = TpTake" and lock: "tp_lock s = None"
    and l: "rep h l xs"
  shows "pool_inv_with rep (Suc k) xs (tp_goto t (TpRun n)
    (s\<lparr>tp_links := h, tp_queue := (tp_queue s)\<lparr>bq_items := l\<rparr>, tp_busy := (tp_busy s)(n := False), tp_started := tp_started s @ [n]\<rparr>))" (is "pool_inv_with _ _ _ ?s")
proof -
  have old: "t \<in> tp_ready s" and new: "(t, n) \<notin> tp_running s" using t by (auto simp: tp_sets)
  have sets: "tp_putting ?s = tp_putting s" "tp_running ?s = insert (t, n) (tp_running s)"
    "tp_finishing ?s = tp_finishing s" "tp_ready ?s = tp_ready s - {t}"
    using t by (auto simp: tp_sets tp_goto_def split: if_splits)
  have fin: "finite (tp_running s)" "finite (tp_ready s)"
    using tpI_counts [OF I] tp_ready_finite [OF I] by (simp_all add: tp_counts_ok_def)
  have out: "tp_outstanding xs ?s = tp_outstanding (n # xs) s" using fin new by (simp add: tp_outstanding_def sets)
  have c: "card (tp_ready s) = Suc (card (tp_ready s - {t}))" using card_Suc_Diff1 [OF fin(2) old] by simp
  have open_: "\<not> bq_closed (tp_queue s)" using tp_closed_empty [OF I] by auto
  then have nd: "tp_discarded s = []" using tp_discarded_closed [OF I] lock by auto
  have n: "n \<notin> set xs" "tp_busy s n" "distinct xs" "n \<noteq> 0"
    using tp_distinct [OF I] tp_queued_busy [OF I, of n] rep_nodes [OF tpI_rep [OF I]] by auto
  have nn: "tp_pc s u \<noteq> TpPut n" for u
    using tp_put_node(3) [OF I, of u n] by auto
  have "tp_nodes_ok xs ?s"
    using t n nn tp_queued_busy [OF I] tp_put_node [OF I]
    by (intro tp_nodes_okI) (auto simp: tp_goto_def split: if_splits)
  moreover have "tp_counts_ok (Suc k) xs ?s" using tpI_counts [OF I] fin
    by (simp add: tp_counts_ok_def out) (simp add: sets, simp add: tp_goto_def)
  moreover have "tp_sleep_ok xs ?s"
  proof (rule tp_sleep_okI)
    show "ac_asleep (tp_counter ?s) = {} \<or> 0 < tp_outstanding xs ?s \<or> (\<exists>u. tp_notifying (tp_pc ?s u))"
      unfolding out by (simp add: tp_outstanding_def)
  qed (use t tp_iffs [OF I] tp_ready_enough [OF I] c fin in \<open>auto simp: sets, auto simp: tp_goto_def split: if_splits\<close>)
  moreover have "tp_close_ok xs ?s"
    using t open_ nd lock tp_iffs [OF I] by (intro tp_close_okI [OF tpI_close [OF I]]) (auto simp: tp_goto_def split: if_splits)
  moreover have "tp_logs_ok xs ?s"
    using tpI_logs [OF I] fin new nd by (simp add: tp_logs_ok_def sets) (simp add: tp_goto_def)
  ultimately show ?thesis using l by (simp add: pool_inv_with_def tp_goto_def)
qed

text \<open>A worker that finds the queue empty: it leaves if the queue is closed, and sleeps otherwise.\<close>

lemma pool_inv_take_empty:
  assumes I: "pool_inv_with rep k [] s" and t: "tp_pc s t = TpTake" and lock: "tp_lock s = None"
  shows "pool_inv_with rep (Suc k) []
    (if bq_closed (tp_queue s) then tp_goto t TpExited s
     else tp_goto t TpAsleep (s\<lparr>tp_queue := (tp_queue s)\<lparr>bq_asleep := insert t (bq_asleep (tp_queue s))\<rparr>\<rparr>))"
    (is "pool_inv_with _ _ _ ?s")
proof -
  have sets: "tp_putting ?s = tp_putting s" "tp_running ?s = tp_running s" "tp_finishing ?s = tp_finishing s"
    "tp_ready ?s = tp_ready s - {t}"
    using t by (auto simp: tp_sets tp_goto_def split: if_splits)
  have out: "tp_outstanding [] ?s = tp_outstanding [] s" by (simp add: tp_outstanding_def sets)
  have nn: "tp_notifying (tp_pc ?s u) \<longleftrightarrow> tp_notifying (tp_pc s u)" for u using t by (auto simp: tp_goto_def)
  have "tp_nodes_ok [] ?s"
    using t tp_put_node [OF I] by (intro tp_nodes_okI) (auto simp: tp_goto_def split: if_splits)
  moreover have "tp_counts_ok (Suc k) [] ?s" using tpI_counts [OF I]
    by (simp add: tp_counts_ok_def out sets(1-3)) (simp add: tp_goto_def)
  moreover have "tp_sleep_ok [] ?s"
  proof (rule tp_sleep_okI)
    show "ac_asleep (tp_counter ?s) = {} \<or> 0 < tp_outstanding [] ?s \<or> (\<exists>u. tp_notifying (tp_pc ?s u))"
      using tp_notified [OF I] by (simp add: nn out) (simp add: tp_goto_def)
    show "finite (tp_ready ?s)" unfolding sets(4) using tp_ready_finite [OF I] by simp
  qed (use t tp_iffs [OF I] in \<open>auto simp: tp_goto_def split: if_splits\<close>)
  moreover have "tp_close_ok [] ?s"
    using t lock tp_iffs [OF I] by (intro tp_close_okI [OF tpI_close [OF I]]) (auto simp: tp_goto_def split: if_splits)
  moreover have "tp_logs_ok [] ?s" using tpI_logs [OF I] by (simp add: tp_logs_ok_def sets(1-3)) (simp add: tp_goto_def)
  ultimately show ?thesis using tpI_rep [OF I] by (simp add: pool_inv_with_def tp_goto_def)
qed

lemma pool_inv_run:
  assumes I: "pool_inv_with rep k xs s" and t: "tp_pc s t = TpRun n"
  shows "pool_inv_with rep (Suc k) xs (tp_goto t (TpDone True)
    (s\<lparr>tp_ran := tp_ran s @ [n]\<rparr>))" (is "pool_inv_with _ _ _ ?s")
proof -
  have old: "(t, n) \<in> tp_running s" and new: "t \<notin> tp_finishing s" using t by (auto simp: tp_sets)
  have sets: "tp_putting ?s = tp_putting s" "tp_running ?s = tp_running s - {(t, n)}"
    "tp_finishing ?s = insert t (tp_finishing s)" "tp_ready ?s = tp_ready s"
    using t by (auto simp: tp_sets tp_goto_def split: if_splits)
  have fin: "finite (tp_running s)" "finite (tp_finishing s)" using tpI_counts [OF I] by (simp_all add: tp_counts_ok_def)
  have "card (tp_running s) = Suc (card (tp_running s - {(t, n)}))" using card_Suc_Diff1 [OF fin(1) old] by simp
  with new fin have out: "tp_outstanding xs ?s = tp_outstanding xs s" by (simp add: tp_outstanding_def sets)
  have "tp_nodes_ok xs ?s"
    using t tp_distinct [OF I] tp_queued_busy [OF I] tp_put_node [OF I]
    by (intro tp_nodes_okI) (auto simp: tp_goto_def split: if_splits)
  moreover have "tp_counts_ok (Suc k) xs ?s" using tpI_counts [OF I]
    by (simp add: tp_counts_ok_def sets out) (simp add: tp_goto_def)
  moreover have "tp_sleep_ok xs ?s"
    using t tp_iffs [OF I] tp_ready_finite [OF I] tp_ready_enough [OF I] out new fin
    by (intro tp_sleep_okI) (auto simp: sets tp_outstanding_def, auto simp: tp_goto_def split: if_splits)
  moreover have "tp_close_ok xs ?s"
    using t tp_iffs [OF I] by (intro tp_close_okI [OF tpI_close [OF I]]) (auto simp: tp_goto_def split: if_splits)
  moreover have "tp_logs_ok xs ?s"
    using tpI_logs [OF I] mset_set.remove [OF fin(1) old] by (simp add: tp_logs_ok_def sets) (simp add: tp_goto_def)
  ultimately show ?thesis using tpI_rep [OF I] by (simp add: pool_inv_with_def tp_goto_def)
qed


lemma tp_outstanding_zero_iff:
  assumes I: "pool_inv_with rep k xs s" and k: "k < 2 ^ 64"
  shows "0 < ac_counter (tp_counter s) \<longleftrightarrow> 0 < tp_outstanding xs s"
proof -
  have "ac_counter (tp_counter s) = of_nat (tp_outstanding xs s)" "tp_outstanding xs s < 2 ^ 64"
    using tpI_counts [OF I] k by (simp_all add: tp_counts_ok_def)
  then show ?thesis using refs_zero_iff [of "tp_outstanding xs s"] by (simp add: word_neq_0_conv [symmetric])
qed

text \<open>A thread falls asleep or wakes up, on either condition variable.\<close>

lemma pool_inv_sleeper:
  assumes I: "pool_inv_with rep k xs s" and pc: "tp_pc s' = (tp_pc s)(t := p)"
    and move: "(tp_pc s t, p) \<in> {(TpWait, TpWaitAsleep), (TpWaitAsleep, TpWait), (TpAsleep, TpTake)}"
    and c: "tp_counter s' = (tp_counter s)\<lparr>ac_asleep := (if p = TpWaitAsleep then insert t (ac_asleep (tp_counter s))
      else ac_asleep (tp_counter s) - {t})\<rparr>"
    and q: "tp_queue s' = (tp_queue s)\<lparr>bq_asleep := bq_asleep (tp_queue s) - {t}\<rparr>"
    and pos: "p = TpWaitAsleep \<Longrightarrow> 0 < tp_outstanding xs s"
    and rest: "tp_links s' = tp_links s" "tp_threads s' = tp_threads s" "tp_lock s' = tp_lock s"
      "tp_workers s' = tp_workers s" "tp_busy s' = tp_busy s" "tp_submitted s' = tp_submitted s" "tp_put s' = tp_put s"
      "tp_started s' = tp_started s" "tp_ran s' = tp_ran s" "tp_discarded s' = tp_discarded s" "tp_refused s' = tp_refused s"
  shows "pool_inv_with rep (Suc k) xs s'"
proof -
  have sets: "tp_putting s' = tp_putting s" "tp_running s' = tp_running s" "tp_finishing s' = tp_finishing s"
    "tp_ready s' = (if p = TpTake then insert t (tp_ready s) else tp_ready s)"
    using move by (auto simp: tp_sets pc split: if_splits)
  have out: "tp_outstanding xs s' = tp_outstanding xs s" by (simp add: tp_outstanding_def sets)
  have nn: "tp_notifying (tp_pc s' u) \<longleftrightarrow> tp_notifying (tp_pc s u)" for u using move by (auto simp: pc)
  have fin: "finite (tp_ready s)" by (rule tp_ready_finite [OF I])
  have card_ready: "card (tp_ready s) \<le> card (tp_ready s')" unfolding sets(4) using fin by (simp add: card_insert_le)
  have w: "tp_worker_pc p \<longleftrightarrow> t \<in> set (tp_threads s)" using tp_worker_iff [OF I, of t] move by auto
  have "tp_nodes_ok xs s'"
  proof (rule tp_nodes_ok_sub [OF I])
    fix u m assume "tp_pc s' u = TpPut m"
    then have u: "tp_pc s u = TpPut m" using move by (auto simp: pc split: if_splits)
    with tp_put_node(2,3) [OF I u] show "(tp_pc s u = TpPut m) \<and> tp_busy s' m \<and> m \<notin> set xs"
      by (simp add: rest)
  qed (use tp_distinct [OF I] tp_queued_busy [OF I] in \<open>auto simp: rest\<close>)
  moreover have "tp_counts_ok (Suc k) xs s'" using tpI_counts [OF I]
    unfolding tp_counts_ok_def sets(1-3) out by (simp add: c)
  moreover have "tp_sleep_ok xs s'"
  proof (rule tp_sleep_okI)
    show "bq_asleep (tp_queue s') = {} \<or> length xs \<le> card (tp_ready s')"
      using tp_ready_enough [OF I] card_ready by (auto simp: q)
    show "finite (tp_ready s')" unfolding sets(4) using fin by simp
    show "ac_asleep (tp_counter s') = {} \<or> 0 < tp_outstanding xs s' \<or> (\<exists>u. tp_notifying (tp_pc s' u))"
      using tp_notified [OF I] pos unfolding nn out by (auto simp: c)
  qed (use move tp_asleep_iff [OF I] tp_wait_asleep_iff [OF I] in \<open>auto simp: pc c q split: if_splits\<close>)
  moreover have "tp_close_ok xs s'"
    using move w tp_iffs [OF I] by (intro tp_close_okI [OF tpI_close [OF I]]) (auto simp: rest pc q split: if_splits)
  moreover have "tp_logs_ok xs s'" using tpI_logs [OF I] by (simp add: tp_logs_ok_def sets(1-3) rest)
  ultimately show ?thesis using tpI_rep [OF I] by (simp add: pool_inv_with_def rest q)
qed

lemma pool_inv_discard_item:
  assumes I: "pool_inv_with rep k (n # xs) s" and t: "tp_pc s t = TpStop" and k: "k < 2 ^ 64"
    and d: "ac_done (tp_counter s) = (zero, c)" and l: "rep h l xs"
  shows "pool_inv_with rep (Suc k) xs (tp_goto t (if zero then TpStopNotify else TpStop)
    (s\<lparr>tp_links := h, tp_queue := (tp_queue s)\<lparr>bq_items := l\<rparr>, tp_counter := c,
       tp_busy := (tp_busy s)(n := False), tp_discarded := tp_discarded s @ [n]\<rparr>))" (is "pool_inv_with _ _ _ ?s")
proof -
  have pc: "tp_pc ?s = (tp_pc s)(t := if zero then TpStopNotify else TpStop)" by (simp add: tp_goto_def)
  have rest [simp]: "tp_links ?s = h" "tp_queue ?s = (tp_queue s)\<lparr>bq_items := l\<rparr>" "tp_counter ?s = c"
    "tp_busy ?s = (tp_busy s)(n := False)" "tp_discarded ?s = tp_discarded s @ [n]" "tp_threads ?s = tp_threads s"
    "tp_workers ?s = tp_workers s" "tp_lock ?s = tp_lock s" "tp_submitted ?s = tp_submitted s" "tp_put ?s = tp_put s"
    "tp_started ?s = tp_started s" "tp_ran ?s = tp_ran s" "tp_refused ?s = tp_refused s"
    by (simp_all add: tp_goto_def)
  have sets: "tp_putting ?s = tp_putting s" "tp_running ?s = tp_running s" "tp_finishing ?s = tp_finishing s" "tp_ready ?s = tp_ready s"
    using t by (auto simp: tp_sets pc split: if_splits)
  have out: "tp_outstanding xs ?s = tp_outstanding (n # xs) s - 1" "0 < tp_outstanding (n # xs) s"
    by (simp_all add: tp_outstanding_def sets)
  from ac_done_zero [OF I out(2) k] d
  have c: "zero \<longleftrightarrow> tp_outstanding (n # xs) s = 1" "ac_counter c = of_nat (tp_outstanding (n # xs) s - 1)"
      "ac_asleep c = ac_asleep (tp_counter s)" by simp_all
  have lock: "tp_lock s = Some t" using tp_lock_iff [OF I, of t] t by simp
  have n: "n \<notin> set xs" using tp_distinct [OF I] by simp
  have nn: "tp_pc s u \<noteq> TpPut n" for u
    using tp_put_node(3) [OF I, of u n] by auto
  have "tp_nodes_ok xs ?s"
  proof (rule tp_nodes_ok_sub [OF I])
    fix u m assume "tp_pc ?s u = TpPut m"
    then have u: "tp_pc s u = TpPut m" by (auto simp: pc split: if_splits)
    with nn [of u] have "m \<noteq> n" by blast
    with u tp_put_node(2,3) [OF I u] show "(tp_pc s u = TpPut m) \<and> tp_busy ?s m \<and> m \<notin> set xs"
      by simp
  qed (use n tp_distinct [OF I] tp_queued_busy [OF I] in auto)
  moreover have "tp_counts_ok (Suc k) xs ?s" using tpI_counts [OF I] c(2)
    unfolding tp_counts_ok_def sets out(1) rest by auto
  moreover have "tp_sleep_ok xs ?s"
  proof (rule tp_sleep_okI)
    show "ac_asleep (tp_counter ?s) = {} \<or> 0 < tp_outstanding xs ?s \<or> (\<exists>u. tp_notifying (tp_pc ?s u))"
    proof (cases zero)
      case True
      then have "tp_notifying (tp_pc ?s t)" unfolding pc by simp
      then show ?thesis by blast
    next
      case False
      with c(1) out show ?thesis by simp
    qed
    show "finite (tp_ready ?s)" unfolding sets by (rule tp_ready_finite [OF I])
    show "bq_asleep (tp_queue ?s) = {} \<or> length xs \<le> card (tp_ready ?s)"
      unfolding sets using tp_ready_enough [OF I] by auto
  qed (unfold pc rest, use t c(3) tp_asleep_iff [OF I] tp_wait_asleep_iff [OF I] in \<open>auto split: if_splits\<close>)
  moreover have "tp_close_ok xs ?s"
    using t lock tp_iffs [OF I] by (intro tp_close_okI [OF tpI_close [OF I]]; unfold pc rest) (auto split: if_splits)
  moreover have "tp_logs_ok xs ?s"
    using tpI_logs [OF I] unfolding tp_logs_ok_def sets rest by simp
  ultimately show ?thesis using l by (simp add: pool_inv_with_def)
qed

lemma pool_inv_close:
  assumes I: "pool_inv_with rep k [] s" and t: "tp_pc s t = TpStop"
  shows "pool_inv_with rep (Suc k) [] (tp_wake_all (bq_asleep (tp_queue s)) TpTake
    (tp_goto t TpJoin (s\<lparr>tp_queue := bq_close (tp_queue s), tp_lock := None\<rparr>)))" (is "pool_inv_with _ _ _ ?s")
proof -
  have pc: "tp_pc ?s = (\<lambda>u. if tp_pc s u = TpAsleep then TpTake else if u = t then TpJoin else tp_pc s u)"
    using tp_asleep_iff [OF I] by (auto simp: tp_wake_all_def tp_goto_def)
  have rest [simp]: "tp_queue ?s = (tp_queue s)\<lparr>bq_closed := True, bq_asleep := {}\<rparr>" "tp_links ?s = tp_links s" "tp_counter ?s = tp_counter s"
    "tp_threads ?s = tp_threads s" "tp_workers ?s = tp_workers s"
    "tp_busy ?s = tp_busy s" "tp_submitted ?s = tp_submitted s" "tp_put ?s = tp_put s" "tp_started ?s = tp_started s"
    "tp_ran ?s = tp_ran s" "tp_discarded ?s = tp_discarded s" "tp_refused ?s = tp_refused s" "tp_lock ?s = None"
    by (simp_all add: tp_wake_all_def tp_goto_def bq_close_def)
  have sets: "tp_putting ?s = tp_putting s" "tp_running ?s = tp_running s" "tp_finishing ?s = tp_finishing s"
    "tp_ready ?s = tp_ready s \<union> {u. tp_pc s u = TpAsleep}"
    using t by (auto simp: tp_sets pc split: if_splits)
  have out: "tp_outstanding [] ?s = tp_outstanding [] s" by (simp add: tp_outstanding_def sets)
  have "{u. tp_pc s u = TpAsleep} \<subseteq> set (tp_threads s)" using tp_worker_iff [OF I] by auto
  then have fin: "finite (tp_ready ?s)" unfolding sets using tp_ready_finite [OF I] by (auto intro: finite_subset)
  have lock: "tp_lock s = Some t" using tp_lock_iff [OF I, of t] t by simp
  have other: "u = t" if "tp_pc s u = TpStop \<or> tp_pc s u = TpStopNotify" for u
    using tp_lock_iff [OF I, of u] lock that by simp
  have nn: "tp_notifying (tp_pc ?s u) \<longleftrightarrow> tp_notifying (tp_pc s u)" for u using t by (auto simp: pc)
  have "tp_nodes_ok [] ?s"
  proof (rule tp_nodes_ok_sub [OF I])
    fix u m assume "tp_pc ?s u = TpPut m"
    then have u: "tp_pc s u = TpPut m" by (auto simp: pc split: if_splits)
    with tp_put_node(2) [OF I u] show "(tp_pc s u = TpPut m) \<and> tp_busy ?s m \<and> m \<notin> set []" by simp
  qed auto
  moreover have "tp_counts_ok (Suc k) [] ?s" using tpI_counts [OF I] unfolding tp_counts_ok_def sets(1-3) out by simp
  moreover have "tp_sleep_ok [] ?s"
  proof (rule tp_sleep_okI)
    show "ac_asleep (tp_counter ?s) = {} \<or> 0 < tp_outstanding [] ?s \<or> (\<exists>u. tp_notifying (tp_pc ?s u))"
      using tp_notified [OF I] unfolding nn out rest .
  qed (use fin t tp_wait_asleep_iff [OF I] in \<open>auto simp: pc split: if_splits\<close>)
  moreover have "tp_close_ok [] ?s"
    using t lock other tp_iffs [OF I] by (intro tp_close_okI [OF tpI_close [OF I]]) (auto simp: pc split: if_splits)
  moreover have "tp_logs_ok [] ?s" using tpI_logs [OF I] by (simp add: tp_logs_ok_def sets(1-3))
  ultimately show ?thesis using tpI_rep [OF I] by (simp add: pool_inv_with_def)
qed

lemma pool_inv_join:
  assumes I: "pool_inv_with rep k xs s" and t: "tp_pc s t = TpJoin" and w: "\<forall>w\<in>set (tp_workers s). tp_pc s w = TpExited"
  shows "pool_inv_with rep (Suc k) xs (tp_goto t TpIdle (s\<lparr>tp_workers := []\<rparr>))" (is "pool_inv_with _ _ _ ?s")
proof -
  have pc: "tp_pc ?s = (tp_pc s)(t := TpIdle)" by (simp add: tp_goto_def)
  have sets: "tp_putting ?s = tp_putting s" "tp_running ?s = tp_running s" "tp_finishing ?s = tp_finishing s" "tp_ready ?s = tp_ready s"
    using t by (auto simp: tp_sets pc split: if_splits)
  have out: "tp_outstanding xs ?s = tp_outstanding xs s" by (simp add: tp_outstanding_def sets)
  have nn: "tp_notifying (tp_pc ?s u) \<longleftrightarrow> tp_notifying (tp_pc s u)" for u using t by (auto simp: pc)
  have "\<forall>w\<in>set (tp_threads s). tp_pc s w = TpExited" using tpI_close [OF I] w by (auto simp: tp_close_ok_def)
  moreover have "t \<notin> set (tp_threads s)" using tp_worker_iff [OF I, of t] t by simp
  ultimately have exited: "\<forall>w\<in>set (tp_threads ?s). tp_pc ?s w = TpExited" by (auto simp: tp_goto_def)
  have "tp_nodes_ok xs ?s"
    using tpI_nodes [OF I] unfolding tp_nodes_ok_def sets by (simp add: tp_goto_def)
  moreover have "tp_counts_ok (Suc k) xs ?s" using tpI_counts [OF I]
    unfolding tp_counts_ok_def sets out by (simp add: tp_goto_def)
  moreover have "tp_sleep_ok xs ?s"
  proof (rule tp_sleep_okI)
    show "ac_asleep (tp_counter ?s) = {} \<or> 0 < tp_outstanding xs ?s \<or> (\<exists>u. tp_notifying (tp_pc ?s u))"
      using tp_notified [OF I] unfolding nn out by (simp add: tp_goto_def)
    show "finite (tp_ready ?s)" unfolding sets by (rule tp_ready_finite [OF I])
    show "bq_asleep (tp_queue ?s) = {} \<or> length xs \<le> card (tp_ready ?s)"
      unfolding sets using tp_ready_enough [OF I] by (simp add: tp_goto_def)
  qed (use t tp_iffs [OF I] in \<open>auto simp: tp_goto_def split: if_splits\<close>)
  moreover have "tp_close_ok xs ?s"
    unfolding tp_close_ok_def
  proof (intro conjI)
    show "tp_workers ?s = tp_threads ?s \<or> tp_workers ?s = [] \<and> (\<forall>t\<in>set (tp_threads ?s). tp_pc ?s t = TpExited)"
      using exited by (simp add: tp_goto_def)
  qed (use t tp_iffs [OF I] in \<open>auto simp: tp_goto_def split: if_splits\<close>)
  moreover have "tp_logs_ok xs ?s" using tpI_logs [OF I] unfolding tp_logs_ok_def sets by (simp add: tp_goto_def)
  ultimately show ?thesis using tpI_rep [OF I] by (simp add: pool_inv_with_def tp_goto_def)
qed


lemma pool_inv_run_worker:
  assumes I: "pool_inv_with rep k xs s" and t: "tp_pc s t = TpTake"
  shows "lands_in (pool_inv rep (Suc k)) (tp_worker_routine L t s)"
proof (cases "tp_lock s")
  case (Some u)
  with t show ?thesis by (simp add: tp_worker_routine_def)
next
  case None
  have h: "bq_holds rep (tp_links s, tp_queue s) xs (bq_closed (tp_queue s))"
    using tpI_rep [OF I] by (simp add: bq_holds_def)
  show ?thesis
  proof (cases xs)
    case Nil
    have "bq_take L t (tp_links s, tp_queue s) = (if bq_closed (tp_queue s) then (TookNothing, tp_links s, tp_queue s)
        else (MustWait, tp_links s, (tp_queue s)\<lparr>bq_asleep := insert t (bq_asleep (tp_queue s))\<rparr>))"
      by (rule bq_take_empty [OF h [unfolded Nil]])
    with pool_inv_take_empty [OF I [unfolded Nil] t None] t None show ?thesis
      by (auto simp: tp_worker_routine_def dest!: pool_invI split: if_splits)
  next
    case (Cons n ys)
    from bq_take_item [OF h [unfolded Cons], of t] obtain h' l
      where "bq_take L t (tp_links s, tp_queue s) = (TookItem n, h', (tp_queue s)\<lparr>bq_items := l\<rparr>)" "rep h' l ys" by blast
    with pool_inv_take_item [OF I [unfolded Cons] t None] t None show ?thesis
      by (auto simp: tp_worker_routine_def dest!: pool_invI)
  qed
qed

lemma pool_inv_run_stop:
  assumes I: "pool_inv_with rep k xs s" and k: "k < 2 ^ 64"
  shows "lands_in (pool_inv rep (Suc k)) (tp_stop L t s)"
proof (cases "tp_pc s t")
  case TpStop
  obtain zero c where d: "ac_done (tp_counter s) = (zero, c)" by (cases "ac_done (tp_counter s)")
  show ?thesis
  proof (cases xs)
    case Nil
    with rep_has_items [OF tpI_rep [OF I]] have "\<not> il_has_items L (bq_items (tp_queue s))" by simp
    with pool_inv_close [OF I [unfolded Nil] TpStop] TpStop show ?thesis
      by (auto simp: tp_stop_def dest!: pool_invI)
  next
    case (Cons n ys)
    with rep_has_items [OF tpI_rep [OF I]] have has: "il_has_items L (bq_items (tp_queue s))" by simp
    from pop_front_ex [OF tpI_rep [OF I, unfolded Cons]] obtain h l
      where p: "il_pop_front L (tp_links s) (bq_items (tp_queue s)) = (n, h, l)" "rep h l ys" by blast
    from pool_invI [OF pool_inv_discard_item [OF I [unfolded Cons] TpStop k d p(2)]] TpStop has p(1) d show ?thesis
      by (simp add: tp_stop_def)
  qed
next
  case TpStopNotify
  with pool_inv_notify [OF I TpStopNotify, of TpStop] show ?thesis by (auto simp: tp_stop_def dest!: pool_invI)
next
  case TpJoin
  with pool_inv_join [OF I TpJoin] show ?thesis by (auto simp: tp_stop_def dest!: pool_invI)
qed (simp_all add: tp_stop_def)

lemma pool_step_run_inv:
  assumes I: "pool_inv_with rep k xs s" and k: "k < 2 ^ 64"
  shows "lands_in (pool_inv rep (Suc k)) (pool_step L (TpEvRun t wake) s)"
proof (cases "tp_pc s t")
  case (TpPut n)
  show ?thesis
  proof (cases "tp_lock s")
    case (Some u)
    with TpPut show ?thesis by (simp add: tp_execute_def)
  next
    case None
    obtain ok h q where put: "bq_put L n wake (tp_links s, tp_queue s) = (ok, h, q)"
      by (cases "bq_put L n wake (tp_links s, tp_queue s)")
    show ?thesis
    proof (cases "bq_closed (tp_queue s)")
      case True
      with pool_inv_put_refused [OF I TpPut] TpPut None show ?thesis
        by (auto simp: tp_execute_def bq_put_def dest!: pool_invI)
    next
      case False
      show ?thesis
      proof (cases "wake_ok (bq_asleep (tp_queue s)) wake")
        case True
        from pool_inv_put [OF I TpPut False None put True] TpPut None put True show ?thesis
          by (auto simp: tp_execute_def dest!: pool_invI)
      next
        case wrong: False
        have "ok" using put False by (auto simp: bq_put_def split: prod.splits)
        with wrong TpPut None put show ?thesis by (simp add: tp_execute_def)
      qed
    qed
  qed
next
  case (TpDone w)
  obtain zero c where d: "ac_done (tp_counter s) = (zero, c)" by (cases "ac_done (tp_counter s)")
  from pool_invI [OF pool_inv_done [OF I TpDone k d]] TpDone d show ?thesis by (simp add: tp_counter_done_def)
next
  case (TpNotify w)
  with pool_inv_notify [OF I TpNotify, of "tp_after_done w"] show ?thesis
    by (auto simp: tp_counter_done_def dest!: pool_invI)
next
  case TpTake
  with pool_inv_run_worker [OF I TpTake] show ?thesis by simp
next
  case (TpRun n)
  with pool_inv_run [OF I TpRun] show ?thesis by (auto simp: tp_worker_routine_def dest!: pool_invI)
next
  case TpWait
  show ?thesis
  proof (cases "0 < ac_counter (tp_counter s)")
    case True
    with tp_outstanding_zero_iff [OF I k] have "0 < tp_outstanding xs s" by simp
    then have "pool_inv_with rep (Suc k) xs (tp_goto t TpWaitAsleep
        (s\<lparr>tp_counter := (tp_counter s)\<lparr>ac_asleep := insert t (ac_asleep (tp_counter s))\<rparr>\<rparr>))"
      using TpWait tp_asleep_iff [OF I, of t]
      by (intro pool_inv_sleeper [OF I, where t = t and p = TpWaitAsleep]) (auto simp: tp_goto_def)
    with True TpWait show ?thesis by (auto simp: tp_wait_idle_def ac_wait_zero_def dest!: pool_invI)
  next
    case False
    have "pool_inv_with rep (Suc k) xs (tp_goto t TpIdle s)"
      using TpWait by (intro pool_inv_quiet [OF I, where t = t and p = TpIdle]) (auto simp: tp_goto_def)
    with False TpWait show ?thesis by (auto simp: tp_wait_idle_def ac_wait_zero_def dest!: pool_invI)
  qed
qed (use pool_inv_run_stop [OF I k, of t] in simp_all)

lemma pool_step_inv:
  assumes I: "pool_inv rep k s" and k: "k < 2 ^ 64"
  shows "lands_in (pool_inv rep (Suc k)) (pool_step L e s)"
proof -
  from I obtain xs where I: "pool_inv_with rep k xs s" by (auto simp: pool_inv_def)
  show ?thesis
  proof (cases e)
    case (TpEvExecute t n)
    with pool_inv_execute [OF I, of t n] show ?thesis by (auto dest!: pool_invI)
  next
    case (TpEvWaitIdle t)
    moreover have "tp_pc s t = TpIdle \<Longrightarrow> pool_inv_with rep (Suc k) xs (tp_goto t TpWait s)"
      by (intro pool_inv_quiet [OF I, where t = t and p = TpWait]) (auto simp: tp_goto_def)
    ultimately show ?thesis by (auto dest!: pool_invI)
  next
    case (TpEvStop t)
    moreover have "tp_pc s t = TpIdle \<Longrightarrow> tp_lock s = None \<Longrightarrow> pool_inv_with rep (Suc k) xs (tp_goto t TpStop (s\<lparr>tp_lock := Some t\<rparr>))"
      by (intro pool_inv_quiet [OF I, where t = t and p = TpStop]) (auto simp: tp_goto_def)
    ultimately show ?thesis by (auto dest!: pool_invI)
  next
    case (TpEvRun t wake)
    with pool_step_run_inv [OF I k] show ?thesis by simp
  next
    case (TpEvSpurious t)
    moreover have "pool_inv_with rep (Suc k) xs (tp_goto t TpTake
        (s\<lparr>tp_queue := (tp_queue s)\<lparr>bq_asleep := bq_asleep (tp_queue s) - {t}\<rparr>\<rparr>))" if "tp_pc s t = TpAsleep"
      using that tp_wait_asleep_iff [OF I, of t]
      by (intro pool_inv_sleeper [OF I, where t = t and p = TpTake]) (auto simp: tp_goto_def)
    moreover have "pool_inv_with rep (Suc k) xs (tp_goto t TpWait
        (s\<lparr>tp_counter := (tp_counter s)\<lparr>ac_asleep := ac_asleep (tp_counter s) - {t}\<rparr>\<rparr>))" if "tp_pc s t = TpWaitAsleep"
      using that tp_asleep_iff [OF I, of t]
      by (intro pool_inv_sleeper [OF I, where t = t and p = TpWait]) (auto simp: tp_goto_def)
    ultimately show ?thesis by (auto dest!: pool_invI split: pool_pc.splits)
  qed
qed

lemma pool_inv_init: "pool_inv rep 0 (pool_init L ts)"
proof -
  have sets: "tp_putting (pool_init L ts) = {}" "tp_running (pool_init L ts) = {}" "tp_finishing (pool_init L ts) = {}"
    "tp_ready (pool_init L ts) = set ts"
    by (auto simp: tp_sets pool_init_def split: if_splits)
  have "pool_inv_with rep 0 [] (pool_init L ts)"
    unfolding pool_inv_with_def
    by (intro conjI)
      (auto simp: tp_nodes_ok_def tp_counts_ok_def tp_sleep_ok_def tp_close_ok_def tp_logs_ok_def tp_outstanding_def sets,
        auto simp: pool_init_def bq_new_def ac_new_def rep_new split: if_splits)
  then show ?thesis by (rule pool_invI)
qed

end

sublocale intrusive_list \<subseteq> pool: counted_machine "pool_step L" "pool_init L ts" "pool_inv rep" "2 ^ 64" for ts
  by (rule counted_machineI [OF pool_inv_init pool_step_inv])

context intrusive_list
begin

lemma pool_reach:
  assumes "exec (pool_step L) es (pool_init L ts) = Next s" and "length es \<le> 2 ^ 64"
  shows "\<exists>xs. pool_inv_with rep (length es) xs s"
  using pool.cm_exec_inv [OF assms] by (auto simp: pool_inv_def)

end

lemma tp_nothing_outstanding:
  assumes I: "pool_inv_with rep k xs s" and "tp_outstanding xs s = 0"
  shows "mset (tp_submitted s) = mset (tp_ran s) + mset (tp_discarded s) + mset (tp_refused s) \<and> xs = [] \<and> tp_running s = {}"
proof -
  have "tp_putting s = {}" "tp_running s = {}" "xs = []"
    using tpI_counts [OF I] assms(2) by (auto simp: tp_outstanding_def tp_counts_ok_def)
  with tpI_logs [OF I] show ?thesis by (simp add: tp_logs_ok_def)
qed

text \<open>The step in which \<open>WaitIdle\<close> returns: nothing is outstanding.\<close>

lemma wait_idle_outstanding:
  assumes L: "intrusive_list L rep" and run: "exec (pool_step L) es (pool_init L ts) = Next s" and k: "length es < 2 ^ 64"
    and t: "tp_pc s t = TpWait" "pool_step L (TpEvRun t wake) s = Next s'" "tp_pc s' t = TpIdle"
  shows "s' = tp_goto t TpIdle s \<and> (\<exists>xs. pool_inv_with rep (length es) xs s \<and> tp_outstanding xs s = 0)"
proof -
  from intrusive_list.pool_reach [OF L run] k obtain xs where I: "pool_inv_with rep (length es) xs s" by auto
  have "\<not> 0 < ac_counter (tp_counter s)" and "s' = tp_goto t TpIdle s"
    using t by (auto simp: tp_wait_idle_def ac_wait_zero_def tp_goto_def split: if_splits)
  with intrusive_list.tp_outstanding_zero_iff [OF L I k] I show ?thesis by auto
qed

subsection \<open>Concrete runs\<close>

text \<open>A pool of workers 1 and 2: a task is executed while worker 2 sleeps, and a client waits for idleness.\<close>

definition pool_run_one :: "pool_event list" where
  "pool_run_one = [TpEvRun 2 None, TpEvExecute 7 16, TpEvExecute 8 32, TpEvRun 7 (Some 2), TpEvRun 8 None, TpEvWaitIdle 9, TpEvRun 9 None,
     TpEvRun 1 None, TpEvRun 2 None, TpEvRun 1 None, TpEvRun 1 None, TpEvRun 2 None, TpEvRun 2 None, TpEvRun 2 None]"

definition pool_stop_run :: "pool_event list" where
  "pool_stop_run = [TpEvRun 2 None, TpEvRun 1 None, TpEvExecute 7 16, TpEvExecute 8 32, TpEvRun 7 (Some 1), TpEvRun 8 (Some 2),
     TpEvRun 1 None, TpEvStop 9, TpEvRun 9 None, TpEvRun 9 None, TpEvRun 2 None, TpEvRun 1 None, TpEvRun 1 None, TpEvRun 1 None, TpEvRun 1 None]"

lemma pool_run_one_result:
  "\<exists>s. exec (pool_step ptr_list) pool_run_one (pool_init ptr_list [1, 2]) = Next s \<and> tp_pc s 9 = TpWait \<and>
     (\<exists>s'. pool_step ptr_list (TpEvRun 9 None) s = Next s' \<and> tp_pc s' 9 = TpIdle \<and> tp_submitted s' = [16, 32] \<and>
        tp_discarded s' = [] \<and> tp_refused s' = [])"
  by (simp add: machine_simps ptr_run_simps pool_run_one_def)

lemma pool_stop_run_result:
  "\<exists>s. exec (pool_step ptr_list) pool_stop_run (pool_init ptr_list [1, 2]) = Next s \<and> tp_pc s 9 = TpJoin \<and>
     (\<exists>s'. pool_step ptr_list (TpEvRun 9 None) s = Next s' \<and> tp_submitted s' = [16, 32] \<and> tp_ran s' = [16])"
  by (simp add: machine_simps ptr_run_simps pool_stop_run_def)

text \<open>Worker 3 sleeps on while worker 2 has been woken for the one task in the queue; client 9 sleeps until idle.\<close>

definition pool_sleepers_run :: "pool_event list" where
  "pool_sleepers_run = [TpEvRun 2 None, TpEvRun 3 None, TpEvExecute 7 16, TpEvRun 7 (Some 2), TpEvWaitIdle 9, TpEvRun 9 None]"

lemma pool_sleepers_run_result:
  "\<exists>s. exec (pool_step ptr_list) pool_sleepers_run (pool_init ptr_list [2, 3]) = Next s \<and> tp_pc s 3 = TpAsleep \<and>
     il_has_items ptr_list (bq_items (tp_queue s)) \<and>
     (\<exists>s'. exec (pool_step ptr_list) [TpEvRun 2 None, TpEvRun 2 None, TpEvRun 2 None] s = Next s' \<and>
        tp_pc s' 9 = TpWaitAsleep \<and> ac_counter (tp_counter s') = 0)"
  by (simp add: machine_simps ptr_run_simps pool_sleepers_run_def)

subsection \<open>Properties\<close>

text \<open>
  C11. \<open>WaitIdle\<close> is right: at the moment it returns, every task submitted so far has been run, discarded or
  refused; none is queued, running, or between the counter and the queue.
\<close>

theorem pool_wait_idle:
  assumes "intrusive_list L rep" and "exec (pool_step L) es (pool_init L ts) = Next s" and "length es < 2 ^ 64"
    and "tp_pc s t = TpWait" and "pool_step L (TpEvRun t wake) s = Next s'" and "tp_pc s' t = TpIdle"
  shows "mset (tp_submitted s') = mset (tp_ran s') + mset (tp_discarded s') + mset (tp_refused s') \<and> tp_running s' = {}"
proof -
  from wait_idle_outstanding [OF assms] obtain xs where I: "pool_inv_with rep (length es) xs s" "tp_outstanding xs s = 0"
    and s': "s' = tp_goto t TpIdle s" by blast
  from tp_nothing_outstanding [OF I] show ?thesis unfolding s' by (auto simp: tp_goto_def tp_running_def)
qed

theorem pool_wait_idle_witness:
  "\<exists>s s'. exec (pool_step ptr_list) pool_run_one (pool_init ptr_list [1, 2]) = Next s \<and>
     pool_step ptr_list (TpEvRun 9 None) s = Next s' \<and> mset (tp_ran s') = {#16, 32#}"
proof -
  from pool_run_one_result obtain s s' where s: "exec (pool_step ptr_list) pool_run_one (pool_init ptr_list [1, 2]) = Next s"
    "tp_pc s 9 = TpWait" "pool_step ptr_list (TpEvRun 9 None) s = Next s'" "tp_pc s' 9 = TpIdle"
    "tp_submitted s' = [16, 32]" "tp_discarded s' = []" "tp_refused s' = []" by blast
  have "length pool_run_one < 2 ^ 64" by (simp add: pool_run_one_def)
  from pool_wait_idle [OF ptr.intrusive_list_axioms s(1) this s(2-4)] s show ?thesis by auto
qed

text \<open>
  \<open>ThreadPool::Current()\<close> of a thread (\<open>this_thread_pool\<close>): a worker sets it before its routine, and nothing resets it. A task
  is always run where it is the pool.
\<close>

definition tp_current :: "tid \<Rightarrow> 'l pool \<Rightarrow> bool" where
  "tp_current t s \<longleftrightarrow> t \<in> set (tp_threads s)"

lemma task_runs_on_worker:
  assumes "intrusive_list L rep" and "exec (pool_step L) es (pool_init L ts) = Next s" and "length es \<le> 2 ^ 64" and "tp_pc s t = TpRun n"
  shows "tp_current t s"
proof -
  from intrusive_list.pool_reach [OF assms(1-3)] obtain xs where "pool_inv_with rep (length es) xs s" by blast
  from tp_worker_iff [OF this, of t] assms(4) show ?thesis by (simp add: tp_current_def)
qed

text \<open>
  C12. No wake-up of a worker is lost: whenever a task is queued while some worker sleeps, a worker is awake and
  on its way to take a task. (One \<open>notify_one\<close> per task is enough.)
\<close>

theorem pool_no_lost_wakeup:
  assumes "intrusive_list L rep" and "exec (pool_step L) es (pool_init L ts) = Next s" and "length es \<le> 2 ^ 64"
    and "tp_pc s w = TpAsleep" and "il_has_items L (bq_items (tp_queue s))"
  shows "\<exists>u. tp_pc s u = TpTake \<and> u \<in> set (tp_threads s)"
proof -
  from intrusive_list.pool_reach [OF assms(1-3)] obtain xs where I: "pool_inv_with rep (length es) xs s" by blast
  have "xs \<noteq> []" using intrusive_list.rep_has_items [OF assms(1) tpI_rep [OF I]] assms(5) by simp
  moreover have "bq_asleep (tp_queue s) \<noteq> {}" using tp_asleep_iff [OF I, of w] assms(4) by auto
  ultimately have "tp_ready s \<noteq> {}" using tp_ready_enough [OF I] by auto
  then obtain u where "tp_pc s u = TpTake" by (auto simp: tp_ready_def)
  with tp_worker_iff [OF I, of u] show ?thesis by auto
qed

theorem pool_no_lost_wakeup_witness:
  "\<exists>s u. exec (pool_step ptr_list) pool_sleepers_run (pool_init ptr_list [2, 3]) = Next s \<and> tp_pc s 3 = TpAsleep \<and> tp_pc s u = TpTake"
proof -
  from pool_sleepers_run_result obtain s where s: "exec (pool_step ptr_list) pool_sleepers_run (pool_init ptr_list [2, 3]) = Next s"
    "tp_pc s 3 = TpAsleep" "il_has_items ptr_list (bq_items (tp_queue s))" by blast
  have "length pool_sleepers_run \<le> 2 ^ 64" by (simp add: pool_sleepers_run_def)
  from pool_no_lost_wakeup [OF ptr.intrusive_list_axioms s(1) this s(2,3)] s show ?thesis by blast
qed

text \<open>
  No wake-up of \<open>WaitIdle\<close> is lost: if a client still sleeps there while the counter is zero, some thread is
  about to notify it.
\<close>

theorem pool_idle_is_notified:
  assumes "intrusive_list L rep" and "exec (pool_step L) es (pool_init L ts) = Next s" and "length es < 2 ^ 64"
    and "tp_pc s t = TpWaitAsleep" and "ac_counter (tp_counter s) = 0"
  shows "\<exists>u. tp_notifying (tp_pc s u)"
proof -
  have k: "length es \<le> 2 ^ 64" using assms(3) by simp
  from intrusive_list.pool_reach [OF assms(1,2) k] obtain xs where I: "pool_inv_with rep (length es) xs s" by blast
  have "ac_asleep (tp_counter s) \<noteq> {}" using tp_wait_asleep_iff [OF I, of t] assms(4) by auto
  with tp_notified [OF I] intrusive_list.tp_outstanding_zero_iff [OF assms(1) I assms(3)] assms(5) show ?thesis by auto
qed

theorem pool_idle_is_notified_witness:
  "\<exists>s u. exec (pool_step ptr_list) (pool_sleepers_run @ [TpEvRun 2 None, TpEvRun 2 None, TpEvRun 2 None]) (pool_init ptr_list [2, 3]) = Next s \<and>
     tp_pc s 9 = TpWaitAsleep \<and> tp_notifying (tp_pc s u)"
proof -
  from pool_sleepers_run_result obtain s where
    s: "exec (pool_step ptr_list) (pool_sleepers_run @ [TpEvRun 2 None, TpEvRun 2 None, TpEvRun 2 None]) (pool_init ptr_list [2, 3]) = Next s"
      "tp_pc s 9 = TpWaitAsleep" "ac_counter (tp_counter s) = 0" by (auto simp: exec_append)
  have "length (pool_sleepers_run @ [TpEvRun 2 None, TpEvRun 2 None, TpEvRun 2 None]) < 2 ^ 64" by (simp add: pool_sleepers_run_def)
  from pool_idle_is_notified [OF ptr.intrusive_list_axioms s(1) this s(2,3)] s show ?thesis by blast
qed

text \<open>
  C13. Tasks are started in the order they were put, each at most once, and a task that was put is started,
  discarded by \<open>Stop\<close>, or still queued.
\<close>

theorem pool_fifo:
  assumes "intrusive_list L rep" and "exec (pool_step L) es (pool_init L ts) = Next s" and "length es \<le> 2 ^ 64"
  shows "\<exists>queued. tp_put s = tp_started s @ tp_discarded s @ queued \<and> rep (tp_links s) (bq_items (tp_queue s)) queued"
  using intrusive_list.pool_reach [OF assms] by (auto simp: pool_inv_with_def tp_logs_ok_def)

theorem pool_fifo_witness:
  "\<exists>s queued. exec (pool_step ptr_list) pool_sleepers_run (pool_init ptr_list [2, 3]) = Next s \<and>
     tp_put s = tp_started s @ tp_discarded s @ queued"
proof -
  from pool_sleepers_run_result obtain s where s: "exec (pool_step ptr_list) pool_sleepers_run (pool_init ptr_list [2, 3]) = Next s" by blast
  have "length pool_sleepers_run \<le> 2 ^ 64" by (simp add: pool_sleepers_run_def)
  from pool_fifo [OF ptr.intrusive_list_axioms s this] s show ?thesis by blast
qed

text \<open>
  When \<open>Stop\<close> returns, every worker has left, no task is running or queued, and the queue refuses further
  tasks; what was put has been run or discarded.
\<close>

theorem pool_stopped:
  assumes "intrusive_list L rep" and "exec (pool_step L) es (pool_init L ts) = Next s" and "length es \<le> 2 ^ 64"
    and "tp_pc s t = TpJoin" and "pool_step L (TpEvRun t wake) s = Next s'"
  shows "(\<forall>w\<in>set (tp_threads s'). tp_pc s' w = TpExited) \<and> tp_running s' = {} \<and> bq_closed (tp_queue s') \<and>
    mset (tp_put s') = mset (tp_ran s') + mset (tp_discarded s')"
proof -
  from intrusive_list.pool_reach [OF assms(1-3)] obtain xs where I: "pool_inv_with rep (length es) xs s" by blast
  have w: "\<forall>w\<in>set (tp_workers s). tp_pc s w = TpExited" and s': "s' = tp_goto t TpIdle (s\<lparr>tp_workers := []\<rparr>)"
    using assms(4,5) by (auto simp: tp_stop_def split: if_splits)
  have ex: "\<forall>w\<in>set (tp_threads s). tp_pc s w = TpExited" using tpI_close [OF I] w by (auto simp: tp_close_ok_def)
  have "t \<notin> set (tp_threads s)" using tp_worker_iff [OF I, of t] assms(4) by simp
  moreover have "tp_pc s u \<noteq> TpRun n" for u n using tp_worker_iff [OF I, of u] ex by auto
  then have "tp_running s = {}" by (simp add: tp_running_def)
  moreover have "bq_closed (tp_queue s)" using tp_exited_closed [OF I, of t] assms(4) by simp
  moreover from this have "xs = []" using tp_closed_empty [OF I] by simp
  ultimately show ?thesis using ex tpI_logs [OF I] unfolding s' by (auto simp: tp_goto_def tp_running_def tp_logs_ok_def)
qed

theorem pool_stopped_witness:
  "\<exists>s s'. exec (pool_step ptr_list) pool_stop_run (pool_init ptr_list [1, 2]) = Next s \<and>
     pool_step ptr_list (TpEvRun 9 None) s = Next s' \<and> tp_running s' = {} \<and> mset (tp_put s') = mset (tp_ran s') + mset (tp_discarded s')"
proof -
  from pool_stop_run_result obtain s s' where s: "exec (pool_step ptr_list) pool_stop_run (pool_init ptr_list [1, 2]) = Next s"
    "tp_pc s 9 = TpJoin" "pool_step ptr_list (TpEvRun 9 None) s = Next s'" by blast
  have "length pool_stop_run \<le> 2 ^ 64" by (simp add: pool_stop_run_def)
  from pool_stopped [OF ptr.intrusive_list_axioms s(1) this s(2,3)] s show ?thesis by blast
qed

end
