(* ===== verification/Stamped_Ptr.thy ===== *)
theory Stamped_Ptr
  imports Prelude
begin

unbundle bit_operations_syntax

section \<open>Stamped pointers\<close>

text \<open>
  \<open>concurrency/lockfree/stamped_ptr.h\<close>: a pointer and a 16-bit stamp packed into one 64-bit word, so that
  both change in one atomic operation. A pointer of x86-64 is canonical: its upper 16 bits repeat
  bit 47. All arithmetic is on 64-bit words, as in the code.
\<close>

record stamped =
  sp_raw :: addr
  sp_stamp :: u64

definition sp_is_null :: "stamped \<Rightarrow> bool" where
  "sp_is_null p \<longleftrightarrow> sp_raw p = 0"

definition sp_bool :: "stamped \<Rightarrow> bool" where
  "sp_bool p \<longleftrightarrow> sp_raw p \<noteq> 0"

definition sp_increment :: "stamped \<Rightarrow> stamped" where
  "sp_increment p = \<lparr>sp_raw = sp_raw p, sp_stamp = sp_stamp p + 1\<rparr>"

definition sp_decrement :: "u64 \<Rightarrow> stamped \<Rightarrow> stamped outcome" where
  "sp_decrement v p =
     (if \<not> 0 \<le> sp_stamp p - v then Fault (AssertFailed ''Stamp < 0'')
      else Next \<lparr>sp_raw = sp_raw p, sp_stamp = sp_stamp p - v\<rparr>)"

subsection \<open>The packer\<close>

definition pk_free_bits :: nat where "pk_free_bits = 16"
definition pk_shift :: nat where "pk_shift = 64 - pk_free_bits"

definition pk_mask :: u64 where
  "pk_mask = push_bit pk_shift (push_bit pk_free_bits 1 - 1)"

definition pk_max_stamp :: u64 where
  "pk_max_stamp = push_bit pk_free_bits 1 - 1"

definition pk_get_bit :: "u64 \<Rightarrow> nat \<Rightarrow> u64" where
  "pk_get_bit m index = drop_bit index m AND 1"

definition pk_set_free_bits :: "u64 \<Rightarrow> u64" where
  "pk_set_free_bits m = m OR pk_mask"

definition pk_clear_free_bits :: "u64 \<Rightarrow> u64" where
  "pk_clear_free_bits m = m AND NOT pk_mask"

definition pk_to_canonical :: "u64 \<Rightarrow> u64" where
  "pk_to_canonical p = (if pk_get_bit p 47 \<noteq> 0 then pk_set_free_bits p else pk_clear_free_bits p)"

definition pk_get_stamp :: "u64 \<Rightarrow> u64" where
  "pk_get_stamp w = drop_bit pk_shift w"

definition pk_get_raw :: "u64 \<Rightarrow> addr" where
  "pk_get_raw w = pk_to_canonical w"

definition pk_pack :: "stamped \<Rightarrow> u64" where
  "pk_pack p = pk_clear_free_bits (sp_raw p) OR push_bit pk_shift (sp_stamp p)"

definition pk_unpack :: "u64 \<Rightarrow> stamped" where
  "pk_unpack w = \<lparr>sp_raw = pk_get_raw w, sp_stamp = pk_get_stamp w\<rparr>"

subsection \<open>The atomic stamped pointer\<close>

text \<open>Each operation takes the packed word of the cell, and returns its result and the new word.\<close>

definition asp_init :: "stamped \<Rightarrow> u64" where
  "asp_init p = pk_pack p"

definition asp_store :: "stamped \<Rightarrow> u64 \<Rightarrow> u64" where
  "asp_store p cell = pk_pack p"

definition asp_load :: "u64 \<Rightarrow> stamped" where
  "asp_load cell = pk_unpack cell"

definition asp_exchange :: "stamped \<Rightarrow> u64 \<Rightarrow> stamped \<times> u64" where
  "asp_exchange target cell = (let (old, cell') = atomic_exchange cell (pk_pack target) in (pk_unpack old, cell'))"

definition asp_cas_weak :: "bool \<Rightarrow> stamped \<Rightarrow> stamped \<Rightarrow> u64 \<Rightarrow> bool \<times> stamped \<times> u64" where
  "asp_cas_weak spurious expected desired cell =
     (let (ok, cell', seen) = atomic_cas_weak spurious cell (pk_pack expected) (pk_pack desired) in
      (ok, if ok then expected else pk_unpack seen, cell'))"

subsection \<open>Bits\<close>

definition canonical :: "addr \<Rightarrow> bool" where
  "canonical p \<longleftrightarrow> (\<forall>i. 48 \<le> i \<longrightarrow> i < 64 \<longrightarrow> bit p i = bit p 47)"

definition stamped_ok :: "stamped \<Rightarrow> bool" where
  "stamped_ok p \<longleftrightarrow> canonical (sp_raw p) \<and> sp_stamp p < 2 ^ 16"

lemma bit_pk_mask: "bit pk_mask i \<longleftrightarrow> 48 \<le> i \<and> i < 64"
proof -
  have "pk_mask = push_bit 48 (mask 16)" by (simp add: pk_mask_def pk_shift_def pk_free_bits_def mask_eq_exp_minus_1)
  show ?thesis unfolding \<open>pk_mask = _\<close> bit_push_bit_iff bit_mask_iff by auto
qed

lemma bit_pk_clear: "bit (pk_clear_free_bits w) i \<longleftrightarrow> i < 48 \<and> bit w i"
  by (auto simp: pk_clear_free_bits_def bit_and_iff bit_not_iff bit_pk_mask dest: bit_imp_le_length)

lemma bit_pk_set: "bit (pk_set_free_bits w) i \<longleftrightarrow> bit w i \<or> (48 \<le> i \<and> i < 64)"
  by (auto simp: pk_set_free_bits_def bit_or_iff bit_pk_mask)

lemma pk_get_bit_iff: "pk_get_bit w i \<noteq> 0 \<longleftrightarrow> bit w i"
  by (simp add: pk_get_bit_def and_one_eq odd_iff_mod_2_eq_one [symmetric] bit_iff_odd_drop_bit)

lemma bit_pk_canonical: "i < 64 \<Longrightarrow> bit (pk_to_canonical w) i \<longleftrightarrow> (if i < 48 then bit w i else bit w 47)"
  by (auto simp: pk_to_canonical_def pk_get_bit_iff bit_pk_clear bit_pk_set)

lemma bit_pk_pack: "i < 64 \<Longrightarrow> bit (pk_pack p) i \<longleftrightarrow> (if i < 48 then bit (sp_raw p) i else bit (sp_stamp p) (i - 48))"
  by (auto simp: pk_pack_def bit_or_iff bit_pk_clear bit_push_bit_iff pk_shift_def pk_free_bits_def)

lemma bit_pk_stamp: "bit (pk_get_stamp w) i \<longleftrightarrow> bit w (48 + i)"
  by (simp add: pk_get_stamp_def bit_drop_bit_eq pk_shift_def pk_free_bits_def)

lemma small_stamp_bits: "s < 2 ^ 16 \<Longrightarrow> bit (s :: u64) i \<Longrightarrow> i < 16"
proof -
  assume s: "s < 2 ^ 16" and i: "bit s i"
  have "take_bit 16 (unat s) = unat s" using s by (simp add: take_bit_nat_eq_self word_less_nat_alt)
  moreover have "bit (unat s) i" using i by (simp add: bit_unsigned_iff)
  ultimately show "i < 16" by (metis bit_take_bit_iff)
qed

lemma canonical_to_canonical: "canonical (pk_to_canonical w)"
  by (simp add: canonical_def bit_pk_canonical)

lemma canonical_null [simp]: "canonical 0"
  by (simp add: canonical_def)


text \<open>Packing loses nothing but what does not fit; unpacking loses nothing at all.\<close>

lemma unpack_pack:
  assumes "stamped_ok p"
  shows "pk_unpack (pk_pack p) = p"
proof -
  have c: "\<And>i. 48 \<le> i \<Longrightarrow> i < 64 \<Longrightarrow> bit (sp_raw p) i = bit (sp_raw p) 47" and s: "\<And>i. bit (sp_stamp p) i \<Longrightarrow> i < 16"
    using assms small_stamp_bits by (auto simp: stamped_ok_def canonical_def)
  have "pk_get_raw (pk_pack p) = sp_raw p"
    by (rule bit_word_eqI) (auto simp: pk_get_raw_def bit_pk_canonical bit_pk_pack c)
  moreover have "pk_get_stamp (pk_pack p) = sp_stamp p"
  proof (rule bit_word_eqI)
    fix i assume "i < LENGTH(64)"
    then show "bit (pk_get_stamp (pk_pack p)) i = bit (sp_stamp p) i"
      using s [of i] bit_imp_le_length [of "pk_pack p" "48 + i"] by (auto simp: bit_pk_stamp bit_pk_pack)
  qed
  ultimately show ?thesis by (simp add: pk_unpack_def)
qed

lemma pack_unpack [simp]: "pk_pack (pk_unpack w) = w"
  by (rule bit_word_eqI) (auto simp: pk_unpack_def bit_pk_pack pk_get_raw_def bit_pk_canonical bit_pk_stamp)

lemma unpack_ok [simp]: "stamped_ok (pk_unpack w)"
proof -
  have "unat w < 2 ^ LENGTH(64)" by (rule unsigned_less)
  then have "pk_get_stamp w < 2 ^ 16"
    by (simp add: pk_get_stamp_def word_less_nat_alt drop_bit_eq_div pk_shift_def pk_free_bits_def unat_div)
  then show ?thesis by (simp add: stamped_ok_def pk_unpack_def pk_get_raw_def canonical_to_canonical)
qed

lemma pack_eq_iff: "stamped_ok p \<Longrightarrow> stamped_ok q \<Longrightarrow> pk_pack p = pk_pack q \<longleftrightarrow> p = q"
  by (metis unpack_pack)


subsection \<open>The contract of an atomic cell\<close>

text \<open>
  What the lock-free components rely on: the cell stands for one value of a type, and an operation acts on
  it as a single step. \<open>ok\<close> says which values fit.
\<close>

locale atomic_cell =
  fixes rd :: "'c \<Rightarrow> 'v"
    and store :: "'v \<Rightarrow> 'c \<Rightarrow> 'c"
    and exchange :: "'v \<Rightarrow> 'c \<Rightarrow> 'v \<times> 'c"
    and cas :: "bool \<Rightarrow> 'v \<Rightarrow> 'v \<Rightarrow> 'c \<Rightarrow> bool \<times> 'v \<times> 'c"
    and ok :: "'v \<Rightarrow> bool"
  assumes load_ok: "ok (rd c)"
    and load_store: "ok v \<Longrightarrow> rd (store v c) = v"
    and exchange_law: "ok v \<Longrightarrow> exchange v c = (old, c') \<Longrightarrow> old = rd c \<and> rd c' = v"
    and cas_success: "ok e \<Longrightarrow> ok d \<Longrightarrow> cas spurious e d c = (True, e', c') \<Longrightarrow> rd c = e \<and> rd c' = d \<and> e' = e"
    and cas_failure: "ok e \<Longrightarrow> ok d \<Longrightarrow> cas spurious e d c = (False, e', c') \<Longrightarrow> c' = c \<and> e' = rd c"
    and cas_progress: "ok e \<Longrightarrow> ok d \<Longrightarrow> rd c = e \<Longrightarrow> fst (cas False e d c)"
begin

text \<open>A loop of weak exchanges that computes the new value from the last one seen: it succeeds as soon as
  nobody interferes, and then it has replaced exactly the value it read.\<close>

fun update_loop :: "bool list \<Rightarrow> ('v \<Rightarrow> 'v) \<Rightarrow> 'v \<Rightarrow> 'c \<Rightarrow> ('v \<times> 'c) option" where
  "update_loop [] f e c = None"
| "update_loop (s # ss) f e c =
     (let (done, e', c') = cas s e (f e) c in if done then Some (e', c') else update_loop ss f e' c')"

lemma update_loop_result:
  "(\<And>v. ok v \<Longrightarrow> ok (f v)) \<Longrightarrow> ok e \<Longrightarrow> update_loop ss f e c = Some (v, c') \<Longrightarrow> v = rd c \<and> rd c' = f v"
proof (induction ss arbitrary: e c)
  case Nil
  then show ?case by simp
next
  case (Cons s ss)
  obtain ok' e' c1 where cas: "cas s e (f e) c = (ok', e', c1)" by (cases "cas s e (f e) c")
  show ?case
  proof (cases ok')
    case True
    with Cons.prems cas cas_success [of e "f e" s c e' c1] show ?thesis by auto
  next
    case False
    with cas cas_failure [of e "f e" s c e' c1] Cons.prems have "c1 = c" "e' = rd c" by auto
    with Cons.IH [of "rd c" c] Cons.prems False cas load_ok [of c] show ?thesis by simp
  qed
qed

lemma update_loop_ends: "(\<And>v. ok v \<Longrightarrow> ok (f v)) \<Longrightarrow> ok e \<Longrightarrow> update_loop [False, False] f e c \<noteq> None"
proof (cases "rd c = e")
  case True
  assume "\<And>v. ok v \<Longrightarrow> ok (f v)" "ok e"
  with True cas_progress [of e "f e" c] show ?thesis by (auto split: prod.splits)
next
  case False
  assume f: "\<And>v. ok v \<Longrightarrow> ok (f v)" and e: "ok e"
  obtain ok' e' c1 where cas: "cas False e (f e) c = (ok', e', c1)" by (cases "cas False e (f e) c")
  show ?thesis
  proof (cases ok')
    case True
    with cas show ?thesis by simp
  next
    case False
    with cas cas_failure [of e "f e" False c e' c1] f e have "c1 = c" "e' = rd c" by auto
    with cas False cas_progress [of "rd c" "f (rd c)" c] f load_ok show ?thesis by (auto split: prod.splits)
  qed
qed

end

interpretation asp: atomic_cell asp_load asp_store asp_exchange asp_cas_weak stamped_ok
proof
  fix e d :: stamped and spurious and c :: u64 and e' c'
  assume ok: "stamped_ok e" "stamped_ok d"
  show "asp_cas_weak spurious e d c = (True, e', c') \<Longrightarrow> asp_load c = e \<and> asp_load c' = d \<and> e' = e"
    using ok by (auto simp: asp_cas_weak_def atomic_cas_weak_def asp_load_def unpack_pack split: if_splits)
  show "asp_cas_weak spurious e d c = (False, e', c') \<Longrightarrow> c' = c \<and> e' = asp_load c"
    by (auto simp: asp_cas_weak_def atomic_cas_weak_def asp_load_def split: if_splits)
  show "asp_load c = e \<Longrightarrow> fst (asp_cas_weak False e d c)"
    by (auto simp: asp_cas_weak_def atomic_cas_weak_def asp_load_def)
qed (auto simp: asp_load_def asp_store_def asp_exchange_def atomic_exchange_def unpack_pack)

subsection \<open>Properties\<close>

text \<open>
  C14. Packing and unpacking are inverse: every canonical pointer with a stamp of at most 16 bits comes back
  unchanged, and every 64-bit word is the packing of such a pair.
\<close>

theorem stamped_roundtrip:
  assumes "canonical (sp_raw p)" and "sp_stamp p < 2 ^ 16"
  shows "pk_unpack (pk_pack p) = p \<and> pk_pack (pk_unpack w) = w"
  using assms by (simp add: unpack_pack stamped_ok_def)

theorem stamped_roundtrip_witness:
  "pk_unpack (pk_pack \<lparr>sp_raw = 0xFFFF800012345678, sp_stamp = 42\<rparr>) = \<lparr>sp_raw = 0xFFFF800012345678, sp_stamp = 42\<rparr>"
proof -
  have "canonical (pk_to_canonical 0xFFFF800012345678)" by (rule canonical_to_canonical)
  then have "canonical 0xFFFF800012345678"
    by (simp add: pk_to_canonical_def pk_get_bit_def pk_set_free_bits_def pk_mask_def pk_shift_def pk_free_bits_def)
  with stamped_roundtrip [of "\<lparr>sp_raw = 0xFFFF800012345678, sp_stamp = 42\<rparr>"] show ?thesis by simp
qed

text \<open>
  A compare-exchange on stamped pointers compares and replaces pointer and stamp together: it succeeds
  only if both are as expected, and then the cell holds exactly the desired pair.
\<close>

theorem stamped_cas:
  assumes "stamped_ok e" and "stamped_ok d"
  shows "asp_cas_weak False e d c = (if asp_load c = e then (True, e, pk_pack d) else (False, asp_load c, c))"
  using assms by (auto simp: asp_cas_weak_def atomic_cas_weak_def asp_load_def unpack_pack)

theorem stamped_cas_witness:
  "asp_cas_weak False \<lparr>sp_raw = 16, sp_stamp = 1\<rparr> \<lparr>sp_raw = 32, sp_stamp = 0\<rparr> (pk_pack \<lparr>sp_raw = 16, sp_stamp = 2\<rparr>) =
     (False, \<lparr>sp_raw = 16, sp_stamp = 2\<rparr>, pk_pack \<lparr>sp_raw = 16, sp_stamp = 2\<rparr>)"
proof -
  have "stamped_ok \<lparr>sp_raw = pk_to_canonical 16, sp_stamp = s\<rparr>" if "s < 2 ^ 16" for s
    using that by (simp add: stamped_ok_def canonical_to_canonical)
  then have ok: "stamped_ok \<lparr>sp_raw = 16, sp_stamp = s\<rparr>" if "s < 2 ^ 16" for s
    using that by (simp add: pk_to_canonical_def pk_get_bit_def pk_clear_free_bits_def pk_mask_def pk_shift_def pk_free_bits_def)
  have "stamped_ok \<lparr>sp_raw = pk_to_canonical 32, sp_stamp = 0\<rparr>" by (simp add: stamped_ok_def canonical_to_canonical)
  then have d: "stamped_ok \<lparr>sp_raw = 32, sp_stamp = 0\<rparr>"
    by (simp add: pk_to_canonical_def pk_get_bit_def pk_clear_free_bits_def pk_mask_def pk_shift_def pk_free_bits_def)
  have l: "asp_load (pk_pack \<lparr>sp_raw = 16, sp_stamp = 2\<rparr>) = \<lparr>sp_raw = 16, sp_stamp = 2\<rparr>"
    using ok [of 2] by (simp add: asp_load_def unpack_pack)
  show ?thesis using stamped_cas [OF ok [of 1] d, of "pk_pack \<lparr>sp_raw = 16, sp_stamp = 2\<rparr>"] l by simp
qed

text \<open>
  The two limits of the representation: the assertion of \<open>DecrementStamp\<close> can never fail, since the
  difference is unsigned, so a stamp goes below zero silently; and a stamp of \<open>kMaxStamp + 1\<close> is
  packed as zero.
\<close>

theorem stamp_limits:
  "sp_decrement v p \<noteq> Fault x \<and> sp_decrement 1 \<lparr>sp_raw = a, sp_stamp = 0\<rparr> = Next \<lparr>sp_raw = a, sp_stamp = - 1\<rparr> \<and>
   pk_pack (sp_increment \<lparr>sp_raw = a, sp_stamp = pk_max_stamp\<rparr>) = pk_pack \<lparr>sp_raw = a, sp_stamp = 0\<rparr>"
proof -
  have z: "(18446744073709551616 :: u64) = 0" by simp
  show ?thesis
    by (simp add: sp_decrement_def sp_increment_def pk_pack_def pk_max_stamp_def pk_free_bits_def pk_shift_def, unfold z, simp)
qed

end
