(* ===== verification/Shared_State.thy ===== *)
theory Shared_State
  imports Prelude
begin

unbundle bit_operations_syntax

section \<open>The shared state of a future and its promise\<close>

text \<open>
  \<open>concurrency/rendezvous.h\<close>, \<open>futures/core/detail/shared_state.h\<close>, \<open>futures/core/callback.h\<close>. The producer
  (\<open>Promise::Set\<close>) and the consumer (\<open>Future::Subscribe\<close> or \<open>GetResult\<close>) meet at one atomic word: each
  stores its part and then sets its bit, and whoever sets the second bit hands the callback
  with the result to the executor.

  \<open>HoldState\<close> gives the promise and the future one use each: taking the state out of an empty one panics. The
  two calls run concurrently, one access to shared memory per step (\<open>ct_step\<close>). Callbacks (\<open>'c\<close>), results
  (\<open>'r\<close>) and executors (\<open>'x\<close>) are opaque here.
\<close>

subsection \<open>Rendezvous\<close>

definition rv_initial :: i64 where "rv_initial = 0"
definition rv_consumer :: i64 where "rv_consumer = 1"
definition rv_producer :: i64 where "rv_producer = 2"
definition rv_rendezvous :: i64 where "rv_rendezvous = rv_producer OR rv_consumer"

definition rv_produce :: "i64 \<Rightarrow> (fault + bool) \<times> i64" where
  "rv_produce st =
     (if st = rv_initial then Inr False
      else if st = rv_consumer then Inr True
      else Inl (Panic ''Unexpected state''), st OR rv_producer)"

definition rv_consume :: "i64 \<Rightarrow> (fault + bool) \<times> i64" where
  "rv_consume st =
     (if st = rv_initial then Inr False
      else if st = rv_producer then Inr True
      else Inl (Panic ''Unexpected state''), st OR rv_consumer)"

definition rv_produced :: "i64 \<Rightarrow> bool" where
  "rv_produced st \<longleftrightarrow> st = rv_producer"

subsection \<open>SharedState\<close>

record ('x, 'c, 'r) shared_state =
  ss_executor :: 'x
  ss_callback :: "'c option"
  ss_result :: "'r option"
  ss_state :: i64

definition ss_new :: "'x \<Rightarrow> ('x, 'c, 'r) shared_state" where
  "ss_new x = \<lparr>ss_executor = x, ss_callback = None, ss_result = None, ss_state = rv_initial\<rparr>"

definition ss_has_result :: "('x, 'c, 'r) shared_state \<Rightarrow> bool" where
  "ss_has_result s \<longleftrightarrow> rv_produced (ss_state s)"

definition ss_set_executor :: "'x \<Rightarrow> ('x, 'c, 'r) shared_state \<Rightarrow> ('x, 'c, 'r) shared_state" where
  "ss_set_executor x s = s\<lparr>ss_executor := x\<rparr>"

text \<open>The two halves of \<open>SetResult\<close> and of \<open>SetCallback\<close>: the store, and the rendezvous.\<close>

definition ss_emplace :: "'r \<Rightarrow> ('x, 'c, 'r) shared_state \<Rightarrow> ('x, 'c, 'r) shared_state" where
  "ss_emplace r s = s\<lparr>ss_result := Some r\<rparr>"

definition ss_produce :: "('x, 'c, 'r) shared_state \<Rightarrow> (fault + bool) \<times> ('x, 'c, 'r) shared_state" where
  "ss_produce s = (let (b, st) = rv_produce (ss_state s) in (b, s\<lparr>ss_state := st\<rparr>))"

definition ss_store_callback :: "'c option \<Rightarrow> ('x, 'c, 'r) shared_state \<Rightarrow> fault + ('x, 'c, 'r) shared_state" where
  "ss_store_callback c s =
     (if c = None then Inl (AssertFailed ''Expected not null'') else Inr (s\<lparr>ss_callback := c\<rparr>))"

definition ss_consume :: "('x, 'c, 'r) shared_state \<Rightarrow> (fault + bool) \<times> ('x, 'c, 'r) shared_state" where
  "ss_consume s = (let (b, st) = rv_consume (ss_state s) in (b, s\<lparr>ss_state := st\<rparr>))"

text \<open>\<open>InvokeCallback\<close>: what the executor is given.\<close>

definition ss_invoke_callback :: "('x, 'c, 'r) shared_state \<Rightarrow> fault + ('x \<times> 'c \<times> 'r)" where
  "ss_invoke_callback s =
     (case ss_callback s of
        None \<Rightarrow> Inl NullDereference
      | Some c \<Rightarrow> (case ss_result s of None \<Rightarrow> Inl NullDereference | Some r \<Rightarrow> Inr (ss_executor s, c, r)))"

definition ss_get_result :: "('x, 'c, 'r) shared_state \<Rightarrow> (fault + 'r) \<times> ('x, 'c, 'r) shared_state" where
  "ss_get_result s =
     (let (b, s') = ss_consume s in
      (case b of
         Inl x \<Rightarrow> Inl x
       | Inr False \<Rightarrow> Inl (Panic ''Future is not completed'')
       | Inr True \<Rightarrow> (case ss_result s' of None \<Rightarrow> Inl NullDereference | Some r \<Rightarrow> Inr r), s'))"

subsection \<open>HoldState\<close>

definition hold_release :: "'p option \<Rightarrow> (fault + 'p) \<times> 'p option" where
  "hold_release h =
     (case h of
        None \<Rightarrow> (Inl (Panic ''No shared state. Most likely shared state was released''), None)
      | Some p \<Rightarrow> (Inr p, None))"

definition hold_access :: "'p option \<Rightarrow> fault + 'p" where
  "hold_access h =
     (case h of None \<Rightarrow> Inl (Panic ''No shared state. Most likely shared state was released'') | Some p \<Rightarrow> Inr p)"

definition hold_has_state :: "'p option \<Rightarrow> bool" where
  "hold_has_state h \<longleftrightarrow> h \<noteq> None"

subsection \<open>The contract: one producer and one consumer\<close>

datatype 'r producer = PrFresh | PrEmplace 'r | PrProduce | PrInvoke | PrDone

datatype ('c, 'r) consumer = CoFresh | CoStore 'c | CoConsume | CoInvoke | CoDone | CoGet | CoGot 'r

record ('x, 'c, 'r) contract =
  ct_shared :: "('x, 'c, 'r) shared_state"
  ct_promise :: "unit option"
  ct_future :: "unit option"
  ct_producer :: "'r producer"
  ct_consumer :: "('c, 'r) consumer"
  ct_tasks :: "('x \<times> 'c \<times> 'r) list"

definition contract_new :: "'x \<Rightarrow> ('x, 'c, 'r) contract" where
  "contract_new x = \<lparr>ct_shared = ss_new x, ct_promise = Some (), ct_future = Some (),
     ct_producer = PrFresh, ct_consumer = CoFresh, ct_tasks = []\<rparr>"

inductive ct_step :: "('x, 'c, 'r) contract \<Rightarrow> ('x, 'c, 'r) contract outcome \<Rightarrow> bool" where
  ct_set: "hold_release (ct_promise s) = (Inr (), h) \<Longrightarrow> ct_step s (Next (s\<lparr>ct_promise := h, ct_producer := PrEmplace r\<rparr>))"
| ct_emplace: "ct_producer s = PrEmplace r \<Longrightarrow>
    ct_step s (Next (s\<lparr>ct_shared := ss_emplace r (ct_shared s), ct_producer := PrProduce\<rparr>))"
| ct_produce: "ct_producer s = PrProduce \<Longrightarrow> ss_produce (ct_shared s) = (Inr second, s') \<Longrightarrow>
    ct_step s (Next (s\<lparr>ct_shared := s', ct_producer := (if second then PrInvoke else PrDone)\<rparr>))"
| ct_produce_fault: "ct_producer s = PrProduce \<Longrightarrow> ss_produce (ct_shared s) = (Inl x, s') \<Longrightarrow> ct_step s (Fault x)"
| ct_producer_invoke: "ct_producer s = PrInvoke \<Longrightarrow> ss_invoke_callback (ct_shared s) = Inr task \<Longrightarrow>
    ct_step s (Next (s\<lparr>ct_tasks := ct_tasks s @ [task], ct_producer := PrDone\<rparr>))"
| ct_producer_fault: "ct_producer s = PrInvoke \<Longrightarrow> ss_invoke_callback (ct_shared s) = Inl x \<Longrightarrow> ct_step s (Fault x)"
| ct_via: "hold_access (ct_future s) = Inr () \<Longrightarrow> ct_step s (Next (s\<lparr>ct_shared := ss_set_executor e (ct_shared s)\<rparr>))"
| ct_subscribe: "hold_release (ct_future s) = (Inr (), h) \<Longrightarrow> ct_step s (Next (s\<lparr>ct_future := h, ct_consumer := CoStore c\<rparr>))"
| ct_store: "ct_consumer s = CoStore c \<Longrightarrow> ss_store_callback (Some c) (ct_shared s) = Inr s' \<Longrightarrow>
    ct_step s (Next (s\<lparr>ct_shared := s', ct_consumer := CoConsume\<rparr>))"
| ct_consume: "ct_consumer s = CoConsume \<Longrightarrow> ss_consume (ct_shared s) = (Inr second, s') \<Longrightarrow>
    ct_step s (Next (s\<lparr>ct_shared := s', ct_consumer := (if second then CoInvoke else CoDone)\<rparr>))"
| ct_consume_fault: "ct_consumer s = CoConsume \<Longrightarrow> ss_consume (ct_shared s) = (Inl x, s') \<Longrightarrow> ct_step s (Fault x)"
| ct_consumer_invoke: "ct_consumer s = CoInvoke \<Longrightarrow> ss_invoke_callback (ct_shared s) = Inr task \<Longrightarrow>
    ct_step s (Next (s\<lparr>ct_tasks := ct_tasks s @ [task], ct_consumer := CoDone\<rparr>))"
| ct_consumer_fault: "ct_consumer s = CoInvoke \<Longrightarrow> ss_invoke_callback (ct_shared s) = Inl x \<Longrightarrow> ct_step s (Fault x)"
| ct_get: "hold_release (ct_future s) = (Inr (), h) \<Longrightarrow> ct_step s (Next (s\<lparr>ct_future := h, ct_consumer := CoGet\<rparr>))"
| ct_get_result: "ct_consumer s = CoGet \<Longrightarrow> ss_get_result (ct_shared s) = (Inr r, s') \<Longrightarrow>
    ct_step s (Next (s\<lparr>ct_shared := s', ct_consumer := CoGot r\<rparr>))"
| ct_get_fault: "ct_consumer s = CoGet \<Longrightarrow> ss_get_result (ct_shared s) = (Inl x, s') \<Longrightarrow> ct_step s (Fault x)"

inductive_cases ct_stepE: "ct_step s (Next t)"
inductive_cases ct_faultE: "ct_step s (Fault x)"

inductive ct_reach :: "'x \<Rightarrow> ('x, 'c, 'r) contract \<Rightarrow> bool" for x where
  ct_reach_new: "ct_reach x (contract_new x)"
| ct_reach_step: "ct_reach x s \<Longrightarrow> ct_step s (Next t) \<Longrightarrow> ct_reach x t"

subsection \<open>The invariant\<close>

text \<open>\<open>P\<close>: the producer has set its bit; \<open>C\<close>: the consumer has.\<close>

fun ct_produced :: "'r producer \<Rightarrow> bool" where
  "ct_produced PrInvoke = True"
| "ct_produced PrDone = True"
| "ct_produced _ = False"

fun ct_consumed :: "('c, 'r) consumer \<Rightarrow> bool" where
  "ct_consumed CoInvoke = True"
| "ct_consumed CoDone = True"
| "ct_consumed (CoGot _) = True"
| "ct_consumed _ = False"

definition ct_bits :: "bool \<Rightarrow> bool \<Rightarrow> i64" where
  "ct_bits p c = (if p then (if c then 3 else 2) else (if c then 1 else 0))"

fun ct_emplaced :: "'r producer \<Rightarrow> bool" where
  "ct_emplaced PrFresh = False"
| "ct_emplaced (PrEmplace _) = False"
| "ct_emplaced _ = True"

fun ct_stored :: "('c, 'r) consumer \<Rightarrow> bool" where
  "ct_stored CoConsume = True"
| "ct_stored CoInvoke = True"
| "ct_stored CoDone = True"
| "ct_stored _ = False"

fun ct_got :: "('c, 'r) consumer \<Rightarrow> 'r option" where
  "ct_got (CoGot r) = Some r"
| "ct_got _ = None"

definition ct_word_ok :: "('x, 'c, 'r) contract \<Rightarrow> bool" where
  "ct_word_ok s \<longleftrightarrow>
     ss_state (ct_shared s) = ct_bits (ct_produced (ct_producer s)) (ct_consumed (ct_consumer s))"

definition ct_holders_ok :: "('x, 'c, 'r) contract \<Rightarrow> bool" where
  "ct_holders_ok s \<longleftrightarrow>
     (ct_promise s = None \<longleftrightarrow> ct_producer s \<noteq> PrFresh) \<and> (ct_future s = None \<longleftrightarrow> ct_consumer s \<noteq> CoFresh)"

definition ct_parts_ok :: "('x, 'c, 'r) contract \<Rightarrow> bool" where
  "ct_parts_ok s \<longleftrightarrow>
     (ss_result (ct_shared s) = None \<longleftrightarrow> \<not> ct_emplaced (ct_producer s)) \<and>
     (ss_callback (ct_shared s) = None \<longleftrightarrow> \<not> ct_stored (ct_consumer s))"

text \<open>Whoever is to invoke the callback came second; a result that was got is the one that was set.\<close>

definition ct_second_ok :: "('x, 'c, 'r) contract \<Rightarrow> bool" where
  "ct_second_ok s \<longleftrightarrow>
     (ct_producer s = PrInvoke \<longrightarrow> ct_consumer s = CoDone) \<and>
     (ct_consumer s = CoInvoke \<longrightarrow> ct_producer s = PrDone)"

definition ct_got_ok :: "('x, 'c, 'r) contract \<Rightarrow> bool" where
  "ct_got_ok s \<longleftrightarrow> ct_got (ct_consumer s) = None \<or>
     (ct_producer s = PrDone \<and> ct_got (ct_consumer s) = ss_result (ct_shared s))"

definition ct_tasks_ok :: "('x, 'c, 'r) contract \<Rightarrow> bool" where
  "ct_tasks_ok s \<longleftrightarrow> ct_tasks s =
     (if ct_producer s = PrDone \<and> ct_consumer s = CoDone
      then [(ss_executor (ct_shared s), the (ss_callback (ct_shared s)), the (ss_result (ct_shared s)))] else [])"

definition ct_inv :: "('x, 'c, 'r) contract \<Rightarrow> bool" where
  "ct_inv s \<longleftrightarrow> ct_word_ok s \<and> ct_holders_ok s \<and> ct_parts_ok s \<and> ct_second_ok s \<and> ct_got_ok s \<and> ct_tasks_ok s"

lemma ct_invD:
  assumes "ct_inv s"
  shows "ct_word_ok s" "ct_holders_ok s" "ct_parts_ok s" "ct_second_ok s" "ct_got_ok s" "ct_tasks_ok s"
  using assms by (simp_all add: ct_inv_def)

lemmas ct_ok_defs = ct_word_ok_def ct_holders_ok_def ct_parts_ok_def ct_second_ok_def ct_got_ok_def ct_tasks_ok_def

lemma hold_release_Inr: "hold_release h = (Inr p, h') \<longleftrightarrow> h = Some p \<and> h' = None"
  by (auto simp: hold_release_def split: option.splits)

lemma hold_access_Inr: "hold_access h = Inr p \<longleftrightarrow> h = Some p"
  by (auto simp: hold_access_def split: option.splits)

lemma rv_produce_initial: "rv_produce 0 = (Inr False, 2)"
  by (simp add: rv_produce_def rv_initial_def rv_consumer_def rv_producer_def)

lemma rv_produce_second: "rv_produce 1 = (Inr True, 3)"
  by (simp add: rv_produce_def rv_initial_def rv_consumer_def rv_producer_def)

lemma rv_consume_initial: "rv_consume 0 = (Inr False, 1)"
  by (simp add: rv_consume_def rv_initial_def rv_consumer_def rv_producer_def)

lemma rv_consume_second: "rv_consume 2 = (Inr True, 3)"
  unfolding rv_consume_def rv_initial_def rv_consumer_def rv_producer_def by simp

lemma rv_produce_bits: "rv_produce (ct_bits False c) = (Inr c, ct_bits True c)"
  by (cases c) (simp_all only: ct_bits_def rv_produce_initial rv_produce_second if_True if_False)

lemma rv_consume_bits: "rv_consume (ct_bits p False) = (Inr p, ct_bits p True)"
  by (cases p) (simp_all only: ct_bits_def rv_consume_initial rv_consume_second if_True if_False)

lemma rv_produced_bits: "rv_produced (ct_bits p c) \<longleftrightarrow> p \<and> \<not> c"
  unfolding rv_produced_def rv_producer_def ct_bits_def by (cases p; cases c) simp_all

lemma ss_produce_bits: "ss_state S = ct_bits False c \<Longrightarrow> ss_produce S = (Inr c, S\<lparr>ss_state := ct_bits True c\<rparr>)"
  by (simp add: ss_produce_def rv_produce_bits)

lemma ss_consume_bits: "ss_state S = ct_bits p False \<Longrightarrow> ss_consume S = (Inr p, S\<lparr>ss_state := ct_bits p True\<rparr>)"
  by (simp add: ss_consume_def rv_consume_bits)

lemma ss_has_result_bits: "ss_state S = ct_bits p c \<Longrightarrow> ss_has_result S \<longleftrightarrow> p \<and> \<not> c"
  by (simp add: ss_has_result_def rv_produced_bits)

lemma ct_inv_new: "ct_inv (contract_new x)"
  by (simp add: ct_inv_def ct_ok_defs contract_new_def ss_new_def ct_bits_def rv_initial_def)

lemma ct_inv_bits: "ct_inv s \<Longrightarrow> ss_state (ct_shared s) = ct_bits (ct_produced (ct_producer s)) (ct_consumed (ct_consumer s))"
  using ct_invD(1) by (simp add: ct_word_ok_def)

lemma ct_produced_emplaced: "ct_produced p \<Longrightarrow> ct_emplaced p"
  by (cases p) simp_all

lemma ct_inv_result:
  assumes "ct_inv s" "ct_produced (ct_producer s)"
  shows "\<exists>r. ss_result (ct_shared s) = Some r"
  using ct_invD(3) [OF assms(1)] ct_produced_emplaced [OF assms(2)] by (auto simp: ct_parts_ok_def)

lemma ct_get_result_bits:
  assumes I: "ct_inv s" and g: "ct_consumer s = CoGet"
  shows "ss_get_result (ct_shared s) =
    (if ct_produced (ct_producer s) then Inr (the (ss_result (ct_shared s))) else Inl (Panic ''Future is not completed''),
     (ct_shared s)\<lparr>ss_state := ct_bits (ct_produced (ct_producer s)) True\<rparr>)"
proof -
  have b: "ss_state (ct_shared s) = ct_bits (ct_produced (ct_producer s)) False"
    using ct_inv_bits [OF I] g by simp
  have r: "ct_produced (ct_producer s) \<Longrightarrow> ss_result (ct_shared s) = Some (the (ss_result (ct_shared s)))"
    using ct_inv_result [OF I] by auto
  show ?thesis
  proof (cases "ct_produced (ct_producer s)")
    case True
    then obtain r where "ss_result (ct_shared s) = Some r" using r by blast
    with True show ?thesis by (simp add: ss_get_result_def ss_consume_bits [OF b])
  next
    case False
    then show ?thesis by (simp add: ss_get_result_def ss_consume_bits [OF b])
  qed
qed

lemma ct_invoke_ready:
  assumes I: "ct_inv s" and p: "ct_producer s = PrInvoke \<or> ct_consumer s = CoInvoke"
  shows "ss_invoke_callback (ct_shared s) =
    Inr (ss_executor (ct_shared s), the (ss_callback (ct_shared s)), the (ss_result (ct_shared s)))"
proof -
  have "ct_stored (ct_consumer s)" "ct_produced (ct_producer s)"
    using ct_invD(4) [OF I] p unfolding ct_second_ok_def by fastforce+
  with ct_inv_result [OF I] ct_invD(3) [OF I]
  obtain c r where "ss_callback (ct_shared s) = Some c" "ss_result (ct_shared s) = Some r"
    by (auto simp: ct_parts_ok_def)
  then show ?thesis by (simp add: ss_invoke_callback_def)
qed

lemma ct_inv_step:
  assumes I: "ct_inv s" and "ct_step s (Next t)"
  shows "ct_inv t"
  using assms(2)
proof cases
  case (ct_set h r)
  with ct_invD [OF I] show ?thesis
    unfolding ct_inv_def by (intro conjI) (simp_all add: ct_ok_defs hold_release_Inr)
next
  case (ct_emplace r)
  with ct_invD [OF I] show ?thesis
    unfolding ct_inv_def by (intro conjI) (simp_all add: ct_ok_defs ss_emplace_def)
next
  case (ct_produce second s')
  have "ss_produce (ct_shared s) = (Inr (ct_consumed (ct_consumer s)), (ct_shared s)\<lparr>ss_state := ct_bits True (ct_consumed (ct_consumer s))\<rparr>)"
    using ct_inv_bits [OF I] ct_produce(2) by (intro ss_produce_bits) simp
  with ct_produce ct_invD [OF I] show ?thesis
    unfolding ct_inv_def by (cases "ct_consumer s") (auto simp: ct_ok_defs)
next
  case (ct_producer_invoke task)
  with ct_invD [OF I] ct_invoke_ready [OF I] show ?thesis
    unfolding ct_inv_def by (intro conjI) (simp_all add: ct_ok_defs)
next
  case (ct_via e)
  with ct_invD [OF I] show ?thesis
    unfolding ct_inv_def by (intro conjI) (simp_all add: ct_ok_defs ss_set_executor_def hold_access_Inr)
next
  case (ct_subscribe h c)
  with ct_invD [OF I] show ?thesis
    unfolding ct_inv_def by (intro conjI) (simp_all add: ct_ok_defs hold_release_Inr)
next
  case (ct_store c s')
  with ct_invD [OF I] show ?thesis
    unfolding ct_inv_def by (intro conjI) (auto simp add: ct_ok_defs ss_store_callback_def)
next
  case (ct_consume second s')
  have "ss_consume (ct_shared s) = (Inr (ct_produced (ct_producer s)), (ct_shared s)\<lparr>ss_state := ct_bits (ct_produced (ct_producer s)) True\<rparr>)"
    using ct_inv_bits [OF I] ct_consume(2) by (intro ss_consume_bits) simp
  with ct_consume ct_invD [OF I] show ?thesis
    unfolding ct_inv_def by (cases "ct_producer s") (auto simp: ct_ok_defs)
next
  case (ct_consumer_invoke task)
  with ct_invD [OF I] ct_invoke_ready [OF I] show ?thesis
    unfolding ct_inv_def by (intro conjI) (simp_all add: ct_ok_defs)
next
  case (ct_get h)
  with ct_invD [OF I] show ?thesis
    unfolding ct_inv_def by (intro conjI) (simp_all add: ct_ok_defs hold_release_Inr)
next
  case (ct_get_result r s')
  have p: "ct_produced (ct_producer s)"
    using ct_get_result_bits [OF I ct_get_result(2)] ct_get_result(3) by (simp split: if_splits)
  with ct_inv_result [OF I] obtain q where q: "ss_result (ct_shared s) = Some q" by blast
  have d: "ct_producer s = PrDone" using p ct_invD(4) [OF I] ct_get_result(2)
    by (cases "ct_producer s") (simp_all add: ct_second_ok_def)
  from ct_get_result ct_get_result_bits [OF I ct_get_result(2)] p q d ct_invD [OF I] show ?thesis
    unfolding ct_inv_def by (intro conjI) (auto simp: ct_ok_defs)
qed

lemma ct_reach_inv: "ct_reach x s \<Longrightarrow> ct_inv s"
  by (induction rule: ct_reach.induct) (auto intro: ct_inv_new ct_inv_step)

lemma ct_fault:
  assumes I: "ct_inv s" and "ct_step s (Fault x)"
  shows "x = Panic ''Future is not completed'' \<and> ct_consumer s = CoGet \<and> \<not> ct_produced (ct_producer s)"
  using assms(2)
proof cases
  case (ct_produce_fault s')
  with ct_inv_bits [OF I] ss_produce_bits [of "ct_shared s" "ct_consumed (ct_consumer s)"] show ?thesis by simp
next
  case ct_producer_fault
  with ct_invoke_ready [OF I] show ?thesis by simp
next
  case (ct_consume_fault s')
  with ct_inv_bits [OF I] ss_consume_bits [of "ct_shared s" "ct_produced (ct_producer s)"] show ?thesis by simp
next
  case ct_consumer_fault
  with ct_invoke_ready [OF I] show ?thesis by simp
next
  case (ct_get_fault s')
  with ct_get_result_bits [OF I ct_get_fault(1)] show ?thesis by (simp split: if_splits)
qed

lemma ct_ready_then_get:
  assumes "ct_reach x s" "hold_access (ct_future s) = Inr ()" "ss_has_result (ct_shared s)"
  shows "\<exists>t u r. ct_step s (Next t) \<and> ct_step t (Next u) \<and> ss_result (ct_shared s) = Some r \<and> ct_consumer u = CoGot r"
proof -
  have I: "ct_inv s" using ct_reach_inv assms(1) .
  have p: "ct_produced (ct_producer s)"
    using assms(3) ss_has_result_bits [OF ct_inv_bits [OF I]] by simp
  with ct_inv_result [OF I] obtain r where r: "ss_result (ct_shared s) = Some r" by blast
  let ?t = "s\<lparr>ct_future := None, ct_consumer := CoGet\<rparr>"
  have t: "ct_step s (Next ?t)"
    using assms(2) by (intro ct_get) (simp add: hold_release_def hold_access_def split: option.splits)
  then have "ct_inv ?t" using ct_inv_step [OF I] by blast
  from ct_get_result_bits [OF this] p r
  have "ss_get_result (ct_shared ?t) = (Inr r, (ct_shared s)\<lparr>ss_state := ct_bits True True\<rparr>)" by simp
  then have "ct_step ?t (Next (?t\<lparr>ct_shared := (ct_shared s)\<lparr>ss_state := ct_bits True True\<rparr>, ct_consumer := CoGot r\<rparr>))"
    by (intro ct_get_result) simp_all
  with t r show ?thesis by fastforce
qed

subsection \<open>Properties\<close>

text \<open>
  C15. However \<open>Set\<close>, \<open>Via\<close> and \<open>Subscribe\<close> interleave, the executor is given nothing before both sides
  are done, and when they are it has been given exactly one task: the subscribed callback with the result that
  was set, on the executor chosen by the last \<open>Via\<close>.
\<close>

theorem contract_calls_back_once:
  assumes "ct_reach x s"
  shows "if ct_producer s = PrDone \<and> ct_consumer s = CoDone
    then \<exists>c r. ss_callback (ct_shared s) = Some c \<and> ss_result (ct_shared s) = Some r \<and>
      ct_tasks s = [(ss_executor (ct_shared s), c, r)]
    else ct_tasks s = []"
proof -
  have I: "ct_inv s" using ct_reach_inv assms .
  show ?thesis
  proof (cases "ct_producer s = PrDone \<and> ct_consumer s = CoDone")
    case True
    then have "ct_produced (ct_producer s)" "ct_stored (ct_consumer s)" by simp_all
    with ct_inv_result [OF I] ct_invD(3) [OF I] True ct_invD(6) [OF I] show ?thesis
      by (auto simp: ct_parts_ok_def ct_tasks_ok_def)
  next
    case False
    with ct_invD(6) [OF I] show ?thesis by (auto simp: ct_tasks_ok_def)
  qed
qed

theorem contract_calls_back_once_witness:
  "\<exists>s :: (nat, string, nat) contract. ct_reach 3 s \<and> ct_producer s = PrDone \<and> ct_consumer s = CoDone \<and> ct_tasks s = [(7, ''cb'', 5)]"
proof -
  let ?n = "contract_new (3::nat) :: (nat, string, nat) contract"
  let ?v = "?n\<lparr>ct_shared := ss_set_executor 7 (ct_shared ?n)\<rparr>"
  have v: "ct_reach 3 ?v"
    by (rule ct_reach_step [OF ct_reach_new ct_via]) (simp add: contract_new_def hold_access_def)
  let ?a = "?v\<lparr>ct_future := None, ct_consumer := CoStore ''cb''\<rparr>"
  have a: "ct_reach 3 ?a"
    by (rule ct_reach_step [OF v ct_subscribe]) (simp add: contract_new_def hold_release_def)
  let ?S = "\<lparr>ss_executor = 7::nat, ss_callback = Some ''cb'', ss_result = None :: nat option, ss_state = rv_initial\<rparr>"
  let ?b = "?a\<lparr>ct_shared := ?S, ct_consumer := CoConsume\<rparr>"
  have b: "ct_reach 3 ?b"
    by (rule ct_reach_step [OF a ct_store]) (simp_all add: contract_new_def ss_new_def ss_set_executor_def ss_store_callback_def)
  let ?c = "?b\<lparr>ct_shared := ?S\<lparr>ss_state := 1\<rparr>, ct_consumer := CoDone\<rparr>"
  have "ss_consume ?S = (Inr False, ?S\<lparr>ss_state := 1\<rparr>)"
    by (simp add: ss_consume_def rv_consume_initial rv_initial_def)
  then have c: "ct_reach 3 ?c"
    using ct_reach_step [OF b ct_consume [of ?b False "?S\<lparr>ss_state := 1\<rparr>"]] by simp
  let ?d = "?c\<lparr>ct_promise := None, ct_producer := PrEmplace 5\<rparr>"
  have d: "ct_reach 3 ?d"
    by (rule ct_reach_step [OF c ct_set]) (simp add: contract_new_def hold_release_def)
  let ?e = "?d\<lparr>ct_shared := ss_emplace 5 (ct_shared ?d), ct_producer := PrProduce\<rparr>"
  have e: "ct_reach 3 ?e"
    by (rule ct_reach_step [OF d ct_emplace]) simp
  let ?T = "?S\<lparr>ss_result := Some 5, ss_state := 3\<rparr>"
  let ?f = "?e\<lparr>ct_shared := ?T, ct_producer := PrInvoke\<rparr>"
  have "ss_produce (ct_shared ?e) = (Inr True, ?T)"
    by (simp add: ss_produce_def ss_emplace_def rv_produce_second)
  then have f: "ct_reach 3 ?f"
    using ct_reach_step [OF e ct_produce [of ?e True ?T]] by simp
  let ?g = "?f\<lparr>ct_tasks := ct_tasks ?f @ [(7, ''cb'', 5)], ct_producer := PrDone\<rparr>"
  have g: "ct_reach 3 ?g"
    by (rule ct_reach_step [OF f ct_producer_invoke]) (simp_all add: ss_invoke_callback_def)
  have "ct_producer ?g = PrDone \<and> ct_consumer ?g = CoDone" by simp
  with contract_calls_back_once [OF g] g show ?thesis by (intro exI [of _ ?g]) simp
qed

text \<open>
  The only way a call on a promise and its future fails once it holds the state is \<open>GetResult\<close> before the
  result is produced; then it panics, always with the same message. The state word is never unexpected, and no
  callback or result is read before it is there.
\<close>

theorem contract_failure_iff:
  assumes "ct_reach x s"
  shows "ct_step s (Fault y) \<longleftrightarrow>
    y = Panic ''Future is not completed'' \<and> ct_consumer s = CoGet \<and> \<not> ct_produced (ct_producer s)"
proof -
  have I: "ct_inv s" using ct_reach_inv assms .
  show ?thesis
  proof
    assume "ct_step s (Fault y)"
    with ct_fault [OF I] show "y = Panic ''Future is not completed'' \<and> ct_consumer s = CoGet \<and> \<not> ct_produced (ct_producer s)"
      by blast
  next
    assume *: "y = Panic ''Future is not completed'' \<and> ct_consumer s = CoGet \<and> \<not> ct_produced (ct_producer s)"
    with ct_get_result_bits [OF I] have "ss_get_result (ct_shared s) =
      (Inl y, (ct_shared s)\<lparr>ss_state := ct_bits (ct_produced (ct_producer s)) True\<rparr>)" by simp
    with * show "ct_step s (Fault y)" by (blast intro: ct_get_fault)
  qed
qed

theorem contract_failure_iff_witness:
  "ct_step ((contract_new (3::nat) :: (nat, string, nat) contract)\<lparr>ct_future := None, ct_consumer := CoGet\<rparr>)
     (Fault (Panic ''Future is not completed''))"
proof -
  have "ct_reach 3 ((contract_new (3::nat) :: (nat, string, nat) contract)\<lparr>ct_future := None, ct_consumer := CoGet\<rparr>)"
    by (rule ct_reach_step [OF ct_reach_new ct_get]) (simp add: contract_new_def hold_release_def)
  from contract_failure_iff [OF this] show ?thesis by (simp add: contract_new_def)
qed

end
