(* ===== verification/Future.thy ===== *)
theory Future
  imports Shared_State "HOL-Library.Multiset"
begin

section \<open>Futures: contracts, combinators and their callbacks\<close>

text \<open>
  \<open>futures/core/future.h\<close>, \<open>futures/core/promise.h\<close>, \<open>futures/core/callback.h\<close>, \<open>futures/execute.h\<close>. The shared states live
  in a store (\<open>nt_states\<close>, a \<open>StateRef\<close> is an index); the executors hold the tasks that are not yet run
  (\<open>nt_pending\<close>), and run them in any order. A call of \<open>Set\<close> or \<open>Subscribe\<close> is one step here: the theory
  \<open>Shared_State\<close> shows that their interleavings hand over the callback exactly once.

  A \<open>Result<T>\<close> is \<open>Inr\<close> of its value or \<open>Inl\<close> of its error (the object itself is in the theory \<open>Result\<close>);
  a user function that throws returns \<open>Inl\<close>. A pipeline of calls on the interface is a \<open>future_expr\<close>,
  which \<open>fut_build\<close> executes call by call; \<open>fut_denote\<close> says what it promises.
\<close>

subsection \<open>Set and Subscribe as a whole\<close>

definition ss_set_result :: "'r \<Rightarrow> ('x, 'c, 'r) shared_state \<Rightarrow> fault + (('x \<times> 'c \<times> 'r) option \<times> ('x, 'c, 'r) shared_state)" where
  "ss_set_result r s =
     (case ss_produce (ss_emplace r s) of
        (Inl x, _) \<Rightarrow> Inl x
      | (Inr False, s') \<Rightarrow> Inr (None, s')
      | (Inr True, s') \<Rightarrow>
          (case ss_invoke_callback s' of Inl x \<Rightarrow> Inl x | Inr task \<Rightarrow> Inr (Some task, s')))"

definition ss_set_callback :: "'c option \<Rightarrow> ('x, 'c, 'r) shared_state \<Rightarrow> fault + (('x \<times> 'c \<times> 'r) option \<times> ('x, 'c, 'r) shared_state)" where
  "ss_set_callback c s =
     (case ss_store_callback c s of
        Inl x \<Rightarrow> Inl x
      | Inr s1 \<Rightarrow>
          (case ss_consume s1 of
             (Inl x, _) \<Rightarrow> Inl x
           | (Inr False, s') \<Rightarrow> Inr (None, s')
           | (Inr True, s') \<Rightarrow>
               (case ss_invoke_callback s' of Inl x \<Rightarrow> Inl x | Inr task \<Rightarrow> Inr (Some task, s'))))"

definition ss_ok :: "('x, 'c, 'r) shared_state \<Rightarrow> bool" where
  "ss_ok s \<longleftrightarrow> ss_state s = ct_bits (ss_result s \<noteq> None) (ss_callback s \<noteq> None)"

lemma ss_ok_new: "ss_ok (ss_new x)"
  by (simp add: ss_ok_def ss_new_def ct_bits_def rv_initial_def)

lemma ss_set_result_ok:
  assumes "ss_ok s" "ss_result s = None"
  shows "\<exists>s'. ss_set_result r s = Inr (map_option (\<lambda>c. (ss_executor s, c, r)) (ss_callback s), s') \<and> ss_ok s' \<and>
    ss_result s' = Some r \<and> ss_callback s' = ss_callback s \<and> ss_executor s' = ss_executor s"
proof -
  have "ss_state (ss_emplace r s) = ct_bits False (ss_callback s \<noteq> None)"
    using assms by (simp add: ss_ok_def ss_emplace_def)
  from ss_produce_bits [OF this] show ?thesis
    by (cases "ss_callback s") (simp_all add: ss_set_result_def ss_emplace_def ss_invoke_callback_def ss_ok_def)
qed

lemma ss_set_callback_ok:
  assumes "ss_ok s" "ss_callback s = None"
  shows "\<exists>s'. ss_set_callback (Some c) s = Inr (map_option (\<lambda>r. (ss_executor s, c, r)) (ss_result s), s') \<and> ss_ok s' \<and>
    ss_result s' = ss_result s \<and> ss_callback s' = Some c \<and> ss_executor s' = ss_executor s"
proof -
  have "ss_state (s\<lparr>ss_callback := Some c\<rparr>) = ct_bits (ss_result s \<noteq> None) False"
    using assms by (simp add: ss_ok_def)
  from ss_consume_bits [OF this] show ?thesis
    by (cases "ss_result s") (simp_all add: ss_set_callback_def ss_store_callback_def ss_invoke_callback_def ss_ok_def)
qed

subsection \<open>Pipelines and their callbacks\<close>

datatype ('x, 'e, 'v) future_expr =
    FExecute 'x "'e + 'v"
  | FVia 'x "('x, 'e, 'v) future_expr"
  | FThen "('x, 'e, 'v) future_expr" "'v \<Rightarrow> 'e + 'v"
  | FAndThen "('x, 'e, 'v) future_expr" "'v \<Rightarrow> 'e + ('x, 'e, 'v) future_expr"
  | FRecover "('x, 'e, 'v) future_expr" "'e \<Rightarrow> 'e + ('e + 'v)"

datatype ('x, 'e, 'v) callback =
    CbThen nat "'v \<Rightarrow> 'e + 'v"
  | CbAndThen nat "'v \<Rightarrow> 'e + ('x, 'e, 'v) future_expr"
  | CbForward nat
  | CbRecover nat "'e \<Rightarrow> 'e + ('e + 'v)"

datatype ('x, 'e, 'v) fut_task =
    TkSet nat "'e + 'v"
  | TkCallback "('x, 'e, 'v) callback" "'e + 'v"

type_synonym ('x, 'e, 'v) fut_state = "('x, ('x, 'e, 'v) callback, 'e + 'v) shared_state"

record ('x, 'e, 'v) network =
  nt_states :: "('x, 'e, 'v) fut_state list"
  nt_pending :: "('x \<times> ('x, 'e, 'v) fut_task) list"

definition network_empty :: "('x, 'e, 'v) network" where
  "network_empty = \<lparr>nt_states = [], nt_pending = []\<rparr>"

subsection \<open>The operations\<close>

definition nt_execute :: "'x \<Rightarrow> ('x, 'e, 'v) fut_task \<Rightarrow> ('x, 'e, 'v) network \<Rightarrow> ('x, 'e, 'v) network" where
  "nt_execute x task n = n\<lparr>nt_pending := nt_pending n @ [(x, task)]\<rparr>"

definition make_contract_via :: "'x \<Rightarrow> ('x, 'e, 'v) network \<Rightarrow> nat \<times> ('x, 'e, 'v) network" where
  "make_contract_via x n = (length (nt_states n), n\<lparr>nt_states := nt_states n @ [ss_new x]\<rparr>)"

definition nt_update :: "nat \<Rightarrow> fault + (('x \<times> ('x, 'e, 'v) callback \<times> ('e + 'v)) option \<times> ('x, 'e, 'v) fut_state)
    \<Rightarrow> ('x, 'e, 'v) network \<Rightarrow> fault + ('x, 'e, 'v) network" where
  "nt_update i out n =
     (case out of
        Inl x \<Rightarrow> Inl x
      | Inr (None, s) \<Rightarrow> Inr (n\<lparr>nt_states := (nt_states n)[i := s]\<rparr>)
      | Inr (Some (x, c, r), s) \<Rightarrow> Inr (nt_execute x (TkCallback c r) (n\<lparr>nt_states := (nt_states n)[i := s]\<rparr>)))"

definition promise_set :: "nat \<Rightarrow> 'e + 'v \<Rightarrow> ('x, 'e, 'v) network \<Rightarrow> fault + ('x, 'e, 'v) network" where
  "promise_set p r n =
     (if p < length (nt_states n) then nt_update p (ss_set_result r (nt_states n ! p)) n else Inl UseAfterFree)"

definition fut_subscribe :: "nat \<Rightarrow> ('x, 'e, 'v) callback \<Rightarrow> ('x, 'e, 'v) network \<Rightarrow> fault + ('x, 'e, 'v) network" where
  "fut_subscribe f c n =
     (if f < length (nt_states n) then nt_update f (ss_set_callback (Some c) (nt_states n ! f)) n else Inl UseAfterFree)"

definition fut_via :: "'x \<Rightarrow> nat \<Rightarrow> ('x, 'e, 'v) network \<Rightarrow> ('x, 'e, 'v) network" where
  "fut_via x f n = n\<lparr>nt_states := (nt_states n)[f := ss_set_executor x (nt_states n ! f)]\<rparr>"

definition fut_executor :: "nat \<Rightarrow> ('x, 'e, 'v) network \<Rightarrow> 'x" where
  "fut_executor f n = ss_executor (nt_states n ! f)"

text \<open>\<open>Then\<close>, \<open>Recover\<close>: a new contract on the executor of the future, and a callback that holds its promise.\<close>

definition fut_combine :: "nat \<Rightarrow> (nat \<Rightarrow> ('x, 'e, 'v) callback) \<Rightarrow> ('x, 'e, 'v) network \<Rightarrow> fault + (nat \<times> ('x, 'e, 'v) network)" where
  "fut_combine f mk n =
     (let (p, n1) = make_contract_via (fut_executor f n) n in
      case fut_subscribe f (mk p) n1 of Inl x \<Rightarrow> Inl x | Inr n2 \<Rightarrow> Inr (p, n2))"

definition fut_then where "fut_then f g n = fut_combine f (\<lambda>p. CbThen p g) n"
definition fut_and_then where "fut_and_then f k n = fut_combine f (\<lambda>p. CbAndThen p k) n"
definition fut_recover where "fut_recover f h n = fut_combine f (\<lambda>p. CbRecover p h) n"

definition futures_execute :: "'x \<Rightarrow> 'e + 'v \<Rightarrow> ('x, 'e, 'v) network \<Rightarrow> nat \<times> ('x, 'e, 'v) network" where
  "futures_execute x r n = (let (p, n1) = make_contract_via x n in (p, nt_execute x (TkSet p r) n1))"

primrec fut_build :: "('x, 'e, 'v) future_expr \<Rightarrow> ('x, 'e, 'v) network \<Rightarrow> fault + (nat \<times> ('x, 'e, 'v) network)" where
  "fut_build (FExecute x r) n = Inr (futures_execute x r n)"
| "fut_build (FVia x e) n = (case fut_build e n of Inl y \<Rightarrow> Inl y | Inr (f, n1) \<Rightarrow> Inr (f, fut_via x f n1))"
| "fut_build (FThen e g) n = (case fut_build e n of Inl y \<Rightarrow> Inl y | Inr (f, n1) \<Rightarrow> fut_then f g n1)"
| "fut_build (FAndThen e k) n = (case fut_build e n of Inl y \<Rightarrow> Inl y | Inr (f, n1) \<Rightarrow> fut_and_then f k n1)"
| "fut_build (FRecover e h) n = (case fut_build e n of Inl y \<Rightarrow> Inl y | Inr (f, n1) \<Rightarrow> fut_recover f h n1)"

text \<open>
  The bodies of the callbacks. \<open>UniqueCallback::Invoke\<close> runs them under \<open>make_result::Invoke\<close>, so an exception
  of an asynchronous continuation or of an error handler ends the callback and is dropped.
\<close>

fun run_callback :: "('x, 'e, 'v) callback \<Rightarrow> 'e + 'v \<Rightarrow> ('x, 'e, 'v) network \<Rightarrow> fault + ('x, 'e, 'v) network" where
  "run_callback (CbThen p g) (Inr v) n = promise_set p (g v) n"
| "run_callback (CbThen p g) (Inl e) n = promise_set p (Inl e) n"
| "run_callback (CbAndThen p k) (Inr v) n =
     (case k v of
        Inl _ \<Rightarrow> Inr n
      | Inr e \<Rightarrow> (case fut_build e n of Inl y \<Rightarrow> Inl y | Inr (f, n1) \<Rightarrow> fut_subscribe f (CbForward p) n1))"
| "run_callback (CbAndThen p k) (Inl e) n = promise_set p (Inl e) n"
| "run_callback (CbForward p) r n = promise_set p r n"
| "run_callback (CbRecover p h) (Inr v) n = promise_set p (Inr v) n"
| "run_callback (CbRecover p h) (Inl e) n = (case h e of Inl _ \<Rightarrow> Inr n | Inr r \<Rightarrow> promise_set p r n)"

fun run_task :: "('x, 'e, 'v) fut_task \<Rightarrow> ('x, 'e, 'v) network \<Rightarrow> fault + ('x, 'e, 'v) network" where
  "run_task (TkSet p r) n = promise_set p r n"
| "run_task (TkCallback c r) n = run_callback c r n"

text \<open>The event \<open>i\<close>: the executor of the \<open>i\<close>th pending task runs it.\<close>

definition nt_take :: "nat \<Rightarrow> ('x, 'e, 'v) network \<Rightarrow> ('x, 'e, 'v) network" where
  "nt_take i n = n\<lparr>nt_pending := take i (nt_pending n) @ drop (Suc i) (nt_pending n)\<rparr>"

definition network_step :: "nat \<Rightarrow> ('x, 'e, 'v) network \<Rightarrow> ('x, 'e, 'v) network outcome" where
  "network_step i n =
     (if i < length (nt_pending n)
      then (case run_task (snd (nt_pending n ! i)) (nt_take i n) of Inl x \<Rightarrow> Fault x | Inr n' \<Rightarrow> Next n')
      else Disabled)"

subsection \<open>What a pipeline promises\<close>

text \<open>\<open>None\<close>: the future is never completed.\<close>

primrec fut_denote :: "('x, 'e, 'v) future_expr \<Rightarrow> ('e + 'v) option" where
  "fut_denote (FExecute x r) = Some r"
| "fut_denote (FVia x e) = fut_denote e"
| "fut_denote (FThen e g) = map_option (case_sum Inl g) (fut_denote e)"
| "fut_denote (FAndThen e k) =
     (case fut_denote e of
        None \<Rightarrow> None
      | Some (Inl x) \<Rightarrow> Some (Inl x)
      | Some (Inr v) \<Rightarrow> case_sum (\<lambda>_. None) (\<lambda>r. r) (map_sum id fut_denote (k v)))"
| "fut_denote (FRecover e h) =
     (case fut_denote e of
        None \<Rightarrow> None
      | Some (Inr v) \<Rightarrow> Some (Inr v)
      | Some (Inl x) \<Rightarrow> case_sum (\<lambda>_. None) Some (h x))"

fun cb_value :: "('x, 'e, 'v) callback \<Rightarrow> 'e + 'v \<Rightarrow> ('e + 'v) option" where
  "cb_value (CbThen p g) r = Some (case_sum Inl g r)"
| "cb_value (CbAndThen p k) r =
     (case r of Inl x \<Rightarrow> Some (Inl x) | Inr v \<Rightarrow> case_sum (\<lambda>_. None) fut_denote (k v))"
| "cb_value (CbForward p) r = Some r"
| "cb_value (CbRecover p h) r =
     (case r of Inr v \<Rightarrow> Some (Inr v) | Inl x \<Rightarrow> case_sum (\<lambda>_. None) Some (h x))"

fun cb_target :: "('x, 'e, 'v) callback \<Rightarrow> nat" where
  "cb_target (CbThen p g) = p"
| "cb_target (CbAndThen p k) = p"
| "cb_target (CbForward p) = p"
| "cb_target (CbRecover p h) = p"

fun tk_target :: "('x, 'e, 'v) fut_task \<Rightarrow> nat" where
  "tk_target (TkSet p r) = p"
| "tk_target (TkCallback c r) = cb_target c"

fun tk_value :: "('x, 'e, 'v) fut_task \<Rightarrow> ('e + 'v) option" where
  "tk_value (TkSet p r) = Some r"
| "tk_value (TkCallback c r) = cb_value c r"

lemma fut_denote_combine:
  "fut_denote (FThen e g) = Option.bind (fut_denote e) (cb_value (CbThen p g))"
  "fut_denote (FAndThen e k) = Option.bind (fut_denote e) (cb_value (CbAndThen p k))"
  "fut_denote (FRecover e h) = Option.bind (fut_denote e) (cb_value (CbRecover p h))"
  by (cases "fut_denote e"; auto simp: case_sum_o_map_sum split: sum.splits)+

subsection \<open>Who holds a promise\<close>

definition ss_waiting :: "('x, 'e, 'v) fut_state \<Rightarrow> nat multiset" where
  "ss_waiting s =
     (case ss_callback s of None \<Rightarrow> {#} | Some c \<Rightarrow> if ss_result s = None then {#cb_target c#} else {#})"

definition nt_owners :: "('x, 'e, 'v) network \<Rightarrow> nat multiset" where
  "nt_owners n = (\<Sum>s\<in>#mset (nt_states n). ss_waiting s) + image_mset (tk_target \<circ> snd) (mset (nt_pending n))"

definition nt_unset :: "('x, 'e, 'v) network \<Rightarrow> nat \<Rightarrow> bool" where
  "nt_unset n p \<longleftrightarrow> p < length (nt_states n) \<and> ss_result (nt_states n ! p) = None"

definition nt_inv :: "('x, 'e, 'v) network \<Rightarrow> bool" where
  "nt_inv n \<longleftrightarrow> (\<forall>s\<in>set (nt_states n). ss_ok s) \<and> (\<forall>p. count (nt_owners n) p \<le> (if nt_unset n p then 1 else 0))"

definition free_promise :: "nat \<Rightarrow> ('x, 'e, 'v) network \<Rightarrow> bool" where
  "free_promise p n \<longleftrightarrow> nt_unset n p \<and> count (nt_owners n) p = 0"

definition free_future :: "nat \<Rightarrow> ('x, 'e, 'v) network \<Rightarrow> bool" where
  "free_future f n \<longleftrightarrow> f < length (nt_states n) \<and> ss_callback (nt_states n ! f) = None"

text \<open>\<open>nt_grows\<close>: nothing that was there is touched; the new contracts and tasks stand after it.\<close>

definition nt_grows :: "('x, 'e, 'v) network \<Rightarrow> ('x, 'e, 'v) network \<Rightarrow> bool" where
  "nt_grows n m \<longleftrightarrow> (\<exists>S T. nt_states m = nt_states n @ S \<and> nt_pending m = nt_pending n @ T)"

lemma nt_grows_refl: "nt_grows n n"
  by (simp add: nt_grows_def)

lemma nt_grows_trans: "nt_grows n m \<Longrightarrow> nt_grows m k \<Longrightarrow> nt_grows n k"
  by (auto simp: nt_grows_def)

lemma nt_invD_state: "nt_inv n \<Longrightarrow> i < length (nt_states n) \<Longrightarrow> ss_ok (nt_states n ! i)"
  by (simp add: nt_inv_def)

lemma nt_invD_set: "nt_inv n \<Longrightarrow> \<not> nt_unset n p \<Longrightarrow> count (nt_owners n) p = 0"
  unfolding nt_inv_def by (metis le_zero_eq)

lemma nt_invD_count: "nt_inv n \<Longrightarrow> count (nt_owners n) p \<le> Suc 0"
  unfolding nt_inv_def by (metis One_nat_def le_SucI le_zero_eq order_refl)

lemma nt_invI:
  assumes "\<forall>s\<in>set (nt_states n). ss_ok s" "\<And>p. count (nt_owners n) p \<le> Suc 0"
    "\<And>p. \<not> nt_unset n p \<Longrightarrow> count (nt_owners n) p = 0"
  shows "nt_inv n"
  using assms by (simp add: nt_inv_def)

lemma nt_invD_ok: "nt_inv n \<Longrightarrow> \<forall>s\<in>set (nt_states n). ss_ok s"
  by (simp add: nt_inv_def)

lemma waiting_sum_update:
  assumes "i < length xs"
  shows "(\<Sum>s\<in>#mset (xs[i := s']). ss_waiting s) + ss_waiting (xs ! i) = (\<Sum>s\<in>#mset xs. ss_waiting s) + ss_waiting s'"
proof -
  have "mset xs = add_mset (xs ! i) (mset xs - {#xs ! i#})" using assms by simp
  then have "(\<Sum>s\<in>#mset xs. ss_waiting s) = ss_waiting (xs ! i) + (\<Sum>s\<in>#mset xs - {#xs ! i#}. ss_waiting s)"
    by (metis image_mset_add_mset sum_mset.add_mset)
  with assms show ?thesis by (simp add: mset_update)
qed

lemma unset_update:
  "i < length (nt_states n) \<Longrightarrow>
   nt_unset (n\<lparr>nt_states := (nt_states n)[i := s']\<rparr>) p \<longleftrightarrow> (if p = i then ss_result s' = None else nt_unset n p)"
  by (auto simp: nt_unset_def)

lemma unset_execute [simp]: "nt_unset (nt_execute x t n) = nt_unset n"
  by (simp add: nt_unset_def nt_execute_def fun_eq_iff)

lemma owners_execute [simp]: "nt_owners (nt_execute x t n) = add_mset (tk_target t) (nt_owners n)"
  by (simp add: nt_owners_def nt_execute_def)

lemma ok_update: "nt_inv n \<Longrightarrow> ss_ok s' \<Longrightarrow> \<forall>s\<in>set ((nt_states n)[i := s']). ss_ok s"
  unfolding nt_inv_def using set_update_subset_insert by fastforce

lemma states_execute [simp]: "nt_states (nt_execute x t n) = nt_states n"
  by (simp add: nt_execute_def)

lemma pending_execute [simp]: "nt_pending (nt_execute x t n) = nt_pending n @ [(x, t)]"
  by (simp add: nt_execute_def)

lemma owners_update:
  "i < length (nt_states n) \<Longrightarrow>
   nt_owners (n\<lparr>nt_states := (nt_states n)[i := s']\<rparr>) + ss_waiting (nt_states n ! i) = nt_owners n + ss_waiting s'"
  using waiting_sum_update [of i "nt_states n" s'] by (simp add: nt_owners_def algebra_simps)

text \<open>\<open>promise_set\<close> with a free promise: the callback that waits for it is handed over.\<close>

lemma promise_set_spec:
  assumes I: "nt_inv n" and p: "free_promise p n"
  shows "\<exists>m s'. promise_set p r n = Inr m \<and> nt_inv m \<and> nt_owners m = nt_owners n \<and> ss_result s' = Some r \<and>
    ss_callback s' = ss_callback (nt_states n ! p) \<and> nt_states m = (nt_states n)[p := s'] \<and>
    nt_pending m = nt_pending n @
      (case ss_callback s' of None \<Rightarrow> [] | Some c \<Rightarrow> [(ss_executor (nt_states n ! p), TkCallback c r)])"
proof -
  let ?s = "nt_states n ! p"
  have l: "p < length (nt_states n)" and u: "ss_result ?s = None" and z: "count (nt_owners n) p = 0"
    using p by (simp_all add: free_promise_def nt_unset_def)
  from ss_set_result_ok [OF nt_invD_state [OF I l] u, of r] obtain s' where
    s': "ss_set_result r ?s = Inr (map_option (\<lambda>c. (ss_executor ?s, c, r)) (ss_callback ?s), s')" "ss_ok s'"
    "ss_result s' = Some r" "ss_callback s' = ss_callback ?s" by blast
  let ?m = "n\<lparr>nt_states := (nt_states n)[p := s']\<rparr>"
  have o1: "nt_owners ?m + ss_waiting ?s = nt_owners n"
    using owners_update [OF l, of s'] s'(3) by (simp add: ss_waiting_def split: option.splits)
  have le: "count (nt_owners n) q \<le> (if nt_unset ?m q then 1 else 0)" for q
    using I z unset_update [OF l, of s' q] by (cases "q = p") (auto simp: nt_inv_def)
  have ok: "\<forall>s\<in>set ((nt_states n)[p := s']). ss_ok s" using ok_update [OF I s'(2)] .
  show ?thesis
  proof (cases "ss_callback ?s")
    case None
    with o1 have o: "nt_owners ?m = nt_owners n" by (simp add: ss_waiting_def)
    with le ok have "nt_inv ?m" by (simp add: nt_inv_def)
    with None s' l o show ?thesis
      by (intro exI [of _ ?m] exI [of _ s']) (simp add: promise_set_def nt_update_def)
  next
    case (Some c)
    let ?k = "nt_execute (ss_executor ?s) (TkCallback c r) ?m"
    from Some o1 u have o: "nt_owners ?k = nt_owners n" by (simp add: ss_waiting_def)
    with le ok have "nt_inv ?k" by (simp add: nt_inv_def)
    with Some s' l o show ?thesis
      by (intro exI [of _ ?k] exI [of _ s']) (simp add: promise_set_def nt_update_def)
  qed
qed

lemma fut_subscribe_spec:
  assumes I: "nt_inv n" and f: "free_future f n" and p: "free_promise (cb_target c) n"
  shows "\<exists>m s'. fut_subscribe f c n = Inr m \<and> nt_inv m \<and> nt_owners m = add_mset (cb_target c) (nt_owners n) \<and> ss_result s' = ss_result (nt_states n ! f) \<and>
    ss_callback s' = Some c \<and> nt_states m = (nt_states n)[f := s'] \<and>
    nt_pending m = nt_pending n @
      (case ss_result s' of None \<Rightarrow> [] | Some r \<Rightarrow> [(ss_executor (nt_states n ! f), TkCallback c r)])"
proof -
  let ?s = "nt_states n ! f"
  have l: "f < length (nt_states n)" and u: "ss_callback ?s = None"
    using f by (simp_all add: free_future_def)
  have pz: "nt_unset n (cb_target c)" "count (nt_owners n) (cb_target c) = 0" using p by (simp_all add: free_promise_def)
  from ss_set_callback_ok [OF nt_invD_state [OF I l] u, of c] obtain s' where
    s': "ss_set_callback (Some c) ?s = Inr (map_option (\<lambda>r. (ss_executor ?s, c, r)) (ss_result ?s), s')" "ss_ok s'"
    "ss_result s' = ss_result ?s" "ss_callback s' = Some c" by blast
  let ?m = "n\<lparr>nt_states := (nt_states n)[f := s']\<rparr>"
  have o1: "nt_owners ?m = nt_owners n + ss_waiting s'"
    using owners_update [OF l, of s'] u by (simp add: ss_waiting_def [of ?s])
  have unset: "nt_unset ?m q \<longleftrightarrow> nt_unset n q" for q
    using unset_update [OF l, of s' q] s'(3) l by (auto simp: nt_unset_def)
  have le: "count (add_mset (cb_target c) (nt_owners n)) q \<le> (if nt_unset ?m q then 1 else 0)" for q
    using I pz unset [of q] by (cases "q = cb_target c") (auto simp: nt_inv_def)
  have ok: "\<forall>s\<in>set ((nt_states n)[f := s']). ss_ok s" using ok_update [OF I s'(2)] .
  show ?thesis
  proof (cases "ss_result ?s")
    case None
    with o1 s' have o: "nt_owners ?m = add_mset (cb_target c) (nt_owners n)" by (simp add: ss_waiting_def)
    with le ok have "nt_inv ?m" unfolding nt_inv_def by simp
    with None s' l o show ?thesis
      by (intro exI [of _ ?m] exI [of _ s']) (simp add: fut_subscribe_def nt_update_def)
  next
    case (Some r)
    let ?k = "nt_execute (ss_executor ?s) (TkCallback c r) ?m"
    from Some o1 s' have o: "nt_owners ?k = add_mset (cb_target c) (nt_owners n)" by (simp add: ss_waiting_def)
    with le ok have "nt_inv ?k" unfolding nt_inv_def by simp
    with Some s' l o show ?thesis
      by (intro exI [of _ ?k] exI [of _ s']) (simp add: fut_subscribe_def nt_update_def)
  qed
qed

subsection \<open>What the network will deliver\<close>

inductive resolves :: "('x, 'e, 'v) network \<Rightarrow> nat \<Rightarrow> 'e + 'v \<Rightarrow> bool" for n where
  res_result: "f < length (nt_states n) \<Longrightarrow> ss_result (nt_states n ! f) = Some r \<Longrightarrow> resolves n f r"
| res_task: "(x, t) \<in> set (nt_pending n) \<Longrightarrow> tk_value t = Some r \<Longrightarrow> resolves n (tk_target t) r"
| res_wait: "j < length (nt_states n) \<Longrightarrow> ss_callback (nt_states n ! j) = Some c \<Longrightarrow> ss_result (nt_states n ! j) = None \<Longrightarrow>
    resolves n j r0 \<Longrightarrow> cb_value c r0 = Some r \<Longrightarrow> resolves n (cb_target c) r"

inductive_cases resolvesE: "resolves n f r"

lemma owners_task: "(x, t) \<in> set (nt_pending n) \<Longrightarrow> count (nt_owners n) (tk_target t) \<noteq> 0"
  unfolding nt_owners_def by (simp add: image_iff) force

lemma owners_wait:
  assumes "j < length (nt_states n)" "ss_callback (nt_states n ! j) = Some c" "ss_result (nt_states n ! j) = None"
  shows "count (nt_owners n) (cb_target c) \<noteq> 0"
proof -
  have "nt_states n ! j \<in> set (nt_states n)" "cb_target c \<in># ss_waiting (nt_states n ! j)"
    using assms by (simp_all add: ss_waiting_def)
  then have "cb_target c \<in># nt_owners n" unfolding nt_owners_def by (auto simp: in_Union_mset_iff)
  then show ?thesis by simp
qed

lemma resolves_done:
  assumes I: "nt_inv n" and r: "resolves n f r" and s: "ss_result (nt_states n ! f) = Some v"
  shows "r = v"
proof -
  have "\<not> nt_unset n f" using s by (simp add: nt_unset_def)
  then have z: "count (nt_owners n) f = 0" using nt_invD_set [OF I] by blast
  from r show ?thesis
  proof cases
    case res_result
    with s show ?thesis by simp
  next
    case (res_task x t)
    with owners_task [OF res_task(2)] z show ?thesis by metis
  next
    case (res_wait j c r0)
    with owners_wait [OF res_wait(2-4)] z show ?thesis by metis
  qed
qed

lemma resolves_grows:
  assumes "resolves n f r" "nt_grows n m"
  shows "resolves m f r"
proof -
  from assms(2) obtain S T where st: "nt_states m = nt_states n @ S" "nt_pending m = nt_pending n @ T"
    by (auto simp: nt_grows_def)
  from assms(1) show ?thesis
  proof induction
    case (res_result f r)
    then show ?case by (intro resolves.res_result) (simp_all add: st nth_append)
  next
    case (res_task x t r)
    then show ?case by (intro resolves.res_task [of x]) (simp_all add: st)
  next
    case (res_wait j c r0 r)
    then show ?case by (intro resolves.res_wait [of j]) (simp_all add: st nth_append)
  qed
qed

lemma resolves_subscribed:
  assumes "resolves n g r" and "free_future f n"
    and m: "nt_states m = (nt_states n)[f := s']" "nt_pending m = nt_pending n @ T" "ss_result s' = ss_result (nt_states n ! f)"
  shows "resolves m g r"
  using assms(1)
proof induction
  case (res_result g r)
  then show ?case by (cases "g = f") (auto intro!: resolves.res_result simp: m)
next
  case (res_task x t r)
  then show ?case by (intro resolves.res_task [of x]) (simp_all add: m)
next
  case (res_wait j c r0 r)
  moreover have "j \<noteq> f" using res_wait assms(2) by (auto simp: free_future_def)
  ultimately show ?case by (intro resolves.res_wait [of j]) (simp_all add: m)
qed

lemma subscribed_delivers:
  assumes f: "f < length (nt_states n)" and Im: "nt_inv m" and r: "resolves m f r0" and c: "cb_value c r0 = Some r"
    and m: "nt_states m = (nt_states n)[f := s']" "ss_callback s' = Some c"
      "nt_pending m = nt_pending n @ (case ss_result s' of None \<Rightarrow> [] | Some v \<Rightarrow> [(x, TkCallback c v)])"
  shows "resolves m (cb_target c) r"
proof (cases "ss_result s'")
  case None
  with f c r m show ?thesis by (intro res_wait [of f]) simp_all
next
  case (Some v)
  with f m have "ss_result (nt_states m ! f) = Some v" by simp
  with resolves_done [OF Im r] have "r0 = v" by simp
  with Some c m have "(x, TkCallback c v) \<in> set (nt_pending m)" "tk_value (TkCallback c v) = Some r" by simp_all
  then show ?thesis using resolves.res_task [of x "TkCallback c v" m r] by simp
qed

subsection \<open>Building a pipeline\<close>

lemma make_contract_spec:
  assumes I: "nt_inv n" and c: "make_contract_via x n = (p, m)"
  shows "nt_inv m" "p = length (nt_states n)" "free_promise p m" "free_future p m" "nt_owners m = nt_owners n"
    "nt_states m = nt_states n @ [ss_new x]" "nt_pending m = nt_pending n"
proof -
  have m: "m = n\<lparr>nt_states := nt_states n @ [ss_new x]\<rparr>" and p: "p = length (nt_states n)"
    using c by (simp_all add: make_contract_via_def)
  show own: "nt_owners m = nt_owners n" by (simp add: m nt_owners_def ss_waiting_def ss_new_def)
  have u: "nt_unset m q \<longleftrightarrow> q = p \<or> nt_unset n q" for q
    by (auto simp: nt_unset_def m p nth_append ss_new_def less_Suc_eq)
  have "\<not> nt_unset n p" by (simp add: nt_unset_def p)
  then have z: "count (nt_owners n) p = 0" using nt_invD_set [OF I] by blast
  have "\<forall>s\<in>set (nt_states m). ss_ok s" using nt_invD_ok [OF I] by (simp add: m ss_ok_new)
  with nt_invD_count [OF I] nt_invD_set [OF I] u own show "nt_inv m" by (intro nt_invI) simp_all
  show "free_promise p m" using u z own by (simp add: free_promise_def)
  show "free_future p m" by (simp add: free_future_def m p ss_new_def)
  show "p = length (nt_states n)" by (rule p)
  show "nt_states m = nt_states n @ [ss_new x]" "nt_pending m = nt_pending n" by (simp_all add: m)
qed

definition built :: "('x, 'e, 'v) network \<Rightarrow> nat \<Rightarrow> ('x, 'e, 'v) network \<Rightarrow> ('e + 'v) option \<Rightarrow> bool" where
  "built n f m d \<longleftrightarrow> nt_inv m \<and> nt_grows n m \<and> length (nt_states n) \<le> f \<and> free_future f m \<and>
     (\<forall>p<length (nt_states n). count (nt_owners m) p = count (nt_owners n) p) \<and>
     (\<forall>r. d = Some r \<longrightarrow> resolves m f r)"

lemma fut_combine_built:
  assumes b: "built n f n1 d" and mk: "\<And>p. cb_target (mk p) = p"
  shows "\<exists>p m. fut_combine f mk n1 = Inr (p, m) \<and> built n p m (Option.bind d (cb_value (mk p)))"
proof -
  have I: "nt_inv n1" and g: "nt_grows n n1" and lf: "length (nt_states n) \<le> f" and f: "free_future f n1"
    using b by (simp_all add: built_def)
  obtain p n2 where c: "make_contract_via (fut_executor f n1) n1 = (p, n2)" by fastforce
  note c2 = make_contract_spec [OF I c]
  have g2: "nt_grows n1 n2" using c2(6,7) by (simp add: nt_grows_def)
  have l: "f < length (nt_states n1)" using f by (simp add: free_future_def)
  with f c2 have f2: "free_future f n2" by (simp add: free_future_def nth_append)
  from fut_subscribe_spec [OF c2(1) f2, of "mk p"] c2(3) mk obtain m s' where
    m: "fut_subscribe f (mk p) n2 = Inr m" "nt_inv m" "nt_owners m = add_mset p (nt_owners n2)"
    "ss_result s' = ss_result (nt_states n2 ! f)" "ss_callback s' = Some (mk p)" "nt_states m = (nt_states n2)[f := s']"
    "nt_pending m = nt_pending n2 @
      (case ss_result s' of None \<Rightarrow> [] | Some r \<Rightarrow> [(ss_executor (nt_states n2 ! f), TkCallback (mk p) r)])" by auto
  have pf: "p \<noteq> f" using c2(2) l by simp
  from nt_grows_trans [OF g g2] obtain S T where ST: "nt_states n2 = nt_states n @ S" "nt_pending n2 = nt_pending n @ T"
    by (auto simp: nt_grows_def)
  then have "nt_grows n m" using m(6,7) lf by (simp add: nt_grows_def list_update_append)
  moreover have "length (nt_states n) \<le> p" using c2(2) l lf by simp
  moreover have "free_future p m" using c2(4) m(6) pf by (simp add: free_future_def)
  moreover have "count (nt_owners m) q = count (nt_owners n) q" if "q < length (nt_states n)" for q
    using that b m(3) c2(2,5) l lf by (simp add: built_def)
  moreover have "resolves m p r" if "Option.bind d (cb_value (mk p)) = Some r" for r
  proof -
    from that obtain r0 where r0: "d = Some r0" "cb_value (mk p) r0 = Some r" by (auto simp: bind_eq_Some_conv)
    with b have "resolves n1 f r0" by (simp add: built_def)
    then have "resolves n2 f r0" using resolves_grows g2 by blast
    then have "resolves m f r0" using resolves_subscribed [OF _ f2 m(6,7,4)] by blast
    with subscribed_delivers [OF _ m(2) this r0(2) m(6,5,7)] f2 mk show ?thesis by (simp add: free_future_def)
  qed
  ultimately have "built n p m (Option.bind d (cb_value (mk p)))" using m(2) by (simp add: built_def)
  moreover have "fut_combine f mk n1 = Inr (p, m)" by (simp add: fut_combine_def c m(1))
  ultimately show ?thesis by blast
qed

lemma fut_via_built:
  assumes b: "built n f n1 d"
  shows "built n f (fut_via x f n1) d"
proof -
  let ?s = "ss_set_executor x (nt_states n1 ! f)"
  let ?m = "fut_via x f n1"
  have I: "nt_inv n1" and f: "free_future f n1" and lf: "length (nt_states n) \<le> f" using b by (simp_all add: built_def)
  have l: "f < length (nt_states n1)" using f by (simp add: free_future_def)
  have s: "ss_result ?s = ss_result (nt_states n1 ! f)" "ss_callback ?s = None" "ss_ok ?s"
    using f nt_invD_state [OF I l] by (simp_all add: ss_set_executor_def free_future_def ss_ok_def)
  have m: "nt_states ?m = (nt_states n1)[f := ?s]" "nt_pending ?m = nt_pending n1 @ []" by (simp_all add: fut_via_def)
  have own: "nt_owners ?m = nt_owners n1"
    using owners_update [OF l, of ?s] s(2) f by (simp add: fut_via_def ss_waiting_def free_future_def)
  have u: "nt_unset ?m q \<longleftrightarrow> nt_unset n1 q" for q
    using unset_update [OF l, of ?s q] s(1) l by (auto simp: fut_via_def nt_unset_def)
  have "nt_inv ?m" using I ok_update [OF I s(3), of f] own u m(1) by (simp add: nt_inv_def)
  moreover from b obtain S T where "nt_states n1 = nt_states n @ S" "nt_pending n1 = nt_pending n @ T"
    by (auto simp: built_def nt_grows_def)
  then have "nt_grows n ?m" using m lf by (simp add: nt_grows_def list_update_append)
  moreover have "free_future f ?m" using l m s(2) by (simp add: free_future_def)
  moreover have "resolves ?m f r" if "d = Some r" for r
    using b that resolves_subscribed [OF _ f m s(1)] by (simp add: built_def)
  ultimately show ?thesis using b own by (simp add: built_def)
qed

lemma futures_execute_built:
  assumes I: "nt_inv n"
  shows "case futures_execute x r n of (f, m) \<Rightarrow> built n f m (Some r)"
proof -
  obtain p n1 where c: "make_contract_via x n = (p, n1)" by fastforce
  note c2 = make_contract_spec [OF I c]
  let ?m = "nt_execute x (TkSet p r) n1"
  have "nt_inv ?m"
    using nt_invD_ok [OF c2(1)] nt_invD_count [OF c2(1)] nt_invD_set [OF c2(1)] c2(3)
    by (intro nt_invI) (auto simp: free_promise_def)
  moreover have "resolves ?m p r" using res_task [of x "TkSet p r" ?m r] by simp
  moreover have "free_future p ?m" using c2(4) by (simp add: free_future_def)
  moreover have "nt_grows n ?m" by (simp add: nt_grows_def c2)
  ultimately have "built n p ?m (Some r)" using c2(2,5) by (simp add: built_def)
  then show ?thesis by (simp add: futures_execute_def c)
qed

lemma fut_build_spec:
  fixes e :: "('x, 'e, 'v) future_expr"
  assumes I: "nt_inv n"
  shows "\<exists>f m. fut_build e n = Inr (f, m) \<and> built n f m (fut_denote e)"
proof (induction e)
  case (FExecute x r)
  from futures_execute_built [OF I, where x = x and r = r] show ?case by (auto split: prod.splits)
next
  case (FVia x e)
  then show ?case using fut_via_built by fastforce
next
  case (FThen e g)
  then obtain f m where e: "fut_build e n = Inr (f, m)" "built n f m (fut_denote e)" by blast
  let ?mk = "\<lambda>p. CbThen p g :: ('x, 'e, 'v) callback"
  have "fut_denote (FThen e g) = Option.bind (fut_denote e) (cb_value (?mk p))" for p by (rule fut_denote_combine)
  with fut_combine_built [OF e(2), of ?mk] e(1) show ?case
    by (auto simp: fut_then_def simp del: fut_denote.simps)
next
  case (FAndThen e k)
  then obtain f m where e: "fut_build e n = Inr (f, m)" "built n f m (fut_denote e)" by blast
  let ?mk = "\<lambda>p. CbAndThen p k :: ('x, 'e, 'v) callback"
  have "fut_denote (FAndThen e k) = Option.bind (fut_denote e) (cb_value (?mk p))" for p by (rule fut_denote_combine)
  with fut_combine_built [OF e(2), of ?mk] e(1) show ?case
    by (auto simp: fut_and_then_def simp del: fut_denote.simps)
next
  case (FRecover e h)
  then obtain f m where e: "fut_build e n = Inr (f, m)" "built n f m (fut_denote e)" by blast
  let ?mk = "\<lambda>p. CbRecover p h :: ('x, 'e, 'v) callback"
  have "fut_denote (FRecover e h) = Option.bind (fut_denote e) (cb_value (?mk p))" for p by (rule fut_denote_combine)
  with fut_combine_built [OF e(2), of ?mk] e(1) show ?case
    by (auto simp: fut_recover_def simp del: fut_denote.simps)
qed

subsection \<open>Running a task\<close>

text \<open>\<open>with_task n0 t n\<close>: \<open>n\<close> is \<open>n0\<close> with the pending task \<open>t\<close> more.\<close>

definition with_task :: "('x, 'e, 'v) network \<Rightarrow> ('x, 'e, 'v) fut_task \<Rightarrow> ('x, 'e, 'v) network \<Rightarrow> bool" where
  "with_task n0 t n \<longleftrightarrow> nt_states n = nt_states n0 \<and> nt_owners n = add_mset (tk_target t) (nt_owners n0) \<and>
     (\<exists>x. set (nt_pending n) = insert (x, t) (set (nt_pending n0)))"

lemma with_task_take:
  assumes "i < length (nt_pending n)"
  shows "with_task (nt_take i n) (snd (nt_pending n ! i)) n"
proof -
  let ?xt = "nt_pending n ! i"
  obtain x where x: "?xt = (x, snd ?xt)" using prod.collapse by metis
  have s: "nt_pending n = take i (nt_pending n) @ ?xt # drop (Suc i) (nt_pending n)"
    using assms by (rule id_take_nth_drop)
  have set: "set (nt_pending n) = insert ?xt (set (nt_pending (nt_take i n)))"
    by (subst s) (simp add: nt_take_def)
  have mset: "mset (nt_pending n) = add_mset ?xt (mset (nt_pending (nt_take i n)))"
    by (subst s) (simp add: nt_take_def)
  have states: "nt_states n = nt_states (nt_take i n)" by (simp add: nt_take_def)
  then have "nt_owners n = add_mset (tk_target (snd ?xt)) (nt_owners (nt_take i n))"
    unfolding nt_owners_def mset by simp
  with set states x show ?thesis unfolding with_task_def by metis
qed

lemma with_task_free:
  assumes w: "with_task n0 t n" and I: "nt_inv n"
  shows "nt_inv n0" "free_promise (tk_target t) n0"
proof -
  have st: "nt_states n = nt_states n0" and ow: "nt_owners n = add_mset (tk_target t) (nt_owners n0)"
    using w by (simp_all add: with_task_def)
  have u: "nt_unset n0 = nt_unset n" by (simp add: nt_unset_def st fun_eq_iff)
  have le: "count (nt_owners n0) p \<le> count (nt_owners n) p" for p by (simp add: ow)
  show "nt_inv n0"
  proof (rule nt_invI)
    show "\<forall>s\<in>set (nt_states n0). ss_ok s" using nt_invD_ok [OF I] st by simp
    show "count (nt_owners n0) p \<le> Suc 0" for p using nt_invD_count [OF I, of p] le [of p] by simp
    show "count (nt_owners n0) p = 0" if "\<not> nt_unset n0 p" for p
      using nt_invD_set [OF I, of p] le [of p] that u by simp
  qed
  have "count (nt_owners n) (tk_target t) = Suc (count (nt_owners n0) (tk_target t))" by (simp add: ow)
  with nt_invD_count [OF I, of "tk_target t"] nt_invD_set [OF I, of "tk_target t"] u
  show "free_promise (tk_target t) n0" unfolding free_promise_def by fastforce
qed

lemma resolves_set:
  assumes w: "with_task n0 t n" and t: "tk_value t = Some v" and I: "nt_inv n0" and p: "free_promise (tk_target t) n0"
    and m: "promise_set (tk_target t) v n0 = Inr m" and r: "resolves n g r"
  shows "resolves m g r"
proof -
  let ?p = "tk_target t"
  from promise_set_spec [OF I p, of v] m obtain s' where
    m: "nt_inv m" "ss_result s' = Some v" "ss_callback s' = ss_callback (nt_states n0 ! ?p)"
    "nt_states m = (nt_states n0)[?p := s']"
    "nt_pending m = nt_pending n0 @
      (case ss_callback s' of None \<Rightarrow> [] | Some c \<Rightarrow> [(ss_executor (nt_states n0 ! ?p), TkCallback c v)])" by auto
  have l: "?p < length (nt_states n0)" and u: "ss_result (nt_states n0 ! ?p) = None"
    using p by (simp_all add: free_promise_def nt_unset_def)
  have st: "nt_states n = nt_states n0" using w by (simp add: with_task_def)
  have set: "resolves m ?p v" using l m by (intro res_result) simp_all
  from r show ?thesis
  proof induction
    case (res_result f r)
    then have "f \<noteq> ?p" using u st by auto
    with res_result st m show ?case by (intro resolves.res_result) simp_all
  next
    case (res_task x t' r)
    show ?case
    proof (cases "t' = t")
      case True
      with res_task t set show ?thesis by simp
    next
      case False
      with res_task w m have "(x, t') \<in> set (nt_pending m)" by (auto simp: with_task_def)
      with res_task show ?thesis by (intro resolves.res_task)
    qed
  next
    case (res_wait j c r0 r)
    show ?case
    proof (cases "j = ?p")
      case True
      with l m have "ss_result (nt_states m ! j) = Some v" by simp
      with resolves_done [OF m(1) res_wait.IH] have "r0 = v" by simp
      with res_wait st m True have "(ss_executor (nt_states n0 ! ?p), TkCallback c v) \<in> set (nt_pending m)"
        "tk_value (TkCallback c v) = Some r" by simp_all
      from resolves.res_task [OF this] show ?thesis by simp
    next
      case False
      with res_wait st m show ?thesis by (intro resolves.res_wait [of j]) simp_all
    qed
  qed
qed

lemma resolves_drop:
  assumes w: "with_task n0 t n" and t: "tk_value t = None" and r: "resolves n g r"
  shows "resolves n0 g r"
  using r
proof induction
  case (res_result f r)
  with w show ?case by (intro resolves.res_result) (simp_all add: with_task_def)
next
  case (res_task x t' r)
  with t have "t' \<noteq> t" by auto
  with res_task w have "(x, t') \<in> set (nt_pending n0)" by (auto simp: with_task_def)
  with res_task show ?case by (intro resolves.res_task)
next
  case (res_wait j c r0 r)
  with w show ?case by (intro resolves.res_wait [of j]) (simp_all add: with_task_def)
qed

text \<open>The continuation of an asynchronous \<open>Then\<close>: the inner pipeline is built and its result forwarded.\<close>

lemma and_then_spec:
  fixes e :: "('x, 'e, 'v) future_expr"
  assumes w: "with_task n0 t n" and t: "tk_value t = fut_denote e" and I: "nt_inv n0"
    and p: "free_promise (tk_target t) n0"
  shows "\<exists>f n1 m. fut_build e n0 = Inr (f, n1) \<and> fut_subscribe f (CbForward (tk_target t)) n1 = Inr m \<and> nt_inv m \<and>
    (\<forall>g r. resolves n g r \<longrightarrow> resolves m g r)"
proof -
  let ?c = "CbForward (tk_target t) :: ('x, 'e, 'v) callback"
  from fut_build_spec [OF I, of e] obtain f n1 where b: "fut_build e n0 = Inr (f, n1)" "built n0 f n1 (fut_denote e)" by blast
  have I1: "nt_inv n1" and f1: "free_future f n1" and lf: "length (nt_states n0) \<le> f" and g1: "nt_grows n0 n1"
    using b(2) by (simp_all add: built_def)
  have lp: "tk_target t < length (nt_states n0)" using p by (simp add: free_promise_def nt_unset_def)
  have "nt_unset n1 (tk_target t)" using p lp g1 by (auto simp: free_promise_def nt_unset_def nt_grows_def nth_append)
  then have p1: "free_promise (cb_target ?c) n1" using b(2) p lp by (simp add: built_def free_promise_def)
  from fut_subscribe_spec [OF I1 f1 p1] obtain m s' where
    m: "fut_subscribe f ?c n1 = Inr m" "nt_inv m" "ss_result s' = ss_result (nt_states n1 ! f)" "ss_callback s' = Some ?c"
    "nt_states m = (nt_states n1)[f := s']" "nt_pending m = nt_pending n1 @
      (case ss_result s' of None \<Rightarrow> [] | Some r \<Rightarrow> [(ss_executor (nt_states n1 ! f), TkCallback ?c r)])" by blast
  have keep: "resolves m g r" if "resolves n1 g r" for g r
    using resolves_subscribed [OF that f1 m(5,6,3)] .
  from g1 obtain S T where ST: "nt_states n1 = nt_states n0 @ S" "nt_pending n1 = nt_pending n0 @ T"
    by (auto simp: nt_grows_def)
  have st: "nt_states n = nt_states n0" using w by (simp add: with_task_def)
  have "resolves m g r" if "resolves n g r" for g r
    using that
  proof induction
    case (res_result f' r)
    with lf have "f' \<noteq> f" using st by simp
    with res_result st ST m show ?case by (intro resolves.res_result) (simp_all add: nth_append)
  next
    case (res_task x t' r)
    show ?case
    proof (cases "t' = t")
      case True
      with res_task t b(2) have "resolves n1 f r" by (simp add: built_def)
      with subscribed_delivers [OF _ m(2) keep _ m(5,4,6)] f1 True show ?thesis by (simp add: free_future_def)
    next
      case False
      with res_task w ST m have "(x, t') \<in> set (nt_pending m)" by (auto simp: with_task_def)
      with res_task show ?thesis by (intro resolves.res_task)
    qed
  next
    case (res_wait j c r0 r)
    with lf have "j \<noteq> f" using st by simp
    with res_wait st ST m show ?case by (intro resolves.res_wait [of j]) (simp_all add: nth_append)
  qed
  with b(1) m(1,2) show ?thesis by blast
qed

definition task_done :: "('x, 'e, 'v) network \<Rightarrow> fault + ('x, 'e, 'v) network \<Rightarrow> bool" where
  "task_done n out \<longleftrightarrow> (\<exists>m. out = Inr m \<and> nt_inv m \<and> (\<forall>g r. resolves n g r \<longrightarrow> resolves m g r))"

lemma task_done_set:
  assumes w: "with_task n0 t n" and I: "nt_inv n" and "tk_value t = Some v"
  shows "task_done n (promise_set (tk_target t) v n0)"
proof -
  note F = with_task_free [OF w I]
  from promise_set_spec [OF F, of v] obtain m where "promise_set (tk_target t) v n0 = Inr m" "nt_inv m" by blast
  with resolves_set [OF w assms(3) F] show ?thesis by (auto simp: task_done_def)
qed

lemma task_done_drop: "with_task n0 t n \<Longrightarrow> nt_inv n \<Longrightarrow> tk_value t = None \<Longrightarrow> task_done n (Inr n0)"
  using with_task_free resolves_drop by (auto simp: task_done_def)

lemma run_callback_done:
  assumes w: "with_task n0 (TkCallback c r) n" and I: "nt_inv n"
  shows "task_done n (run_callback c r n0)"
proof -
  note set = task_done_set [OF w I] and drop = task_done_drop [OF w I]
  show ?thesis
  proof (cases "(c, r, n0)" rule: run_callback.cases)
    case (1 p g v n1)
    with set show ?thesis by simp
  next
    case (2 p g e n1)
    with set show ?thesis by simp
  next
    case (3 p k v n1)
    show ?thesis
    proof (cases "k v")
      case (Inl x)
      with 3 drop show ?thesis by simp
    next
      case (Inr e)
      with 3 and_then_spec [OF w _ with_task_free [OF w I], of e] show ?thesis by (auto simp: task_done_def)
    qed
  next
    case (4 p k e n1)
    with set show ?thesis by simp
  next
    case (5 p r' n1)
    with set show ?thesis by simp
  next
    case (6 p h v n1)
    with set show ?thesis by simp
  next
    case (7 p h e n1)
    with set drop show ?thesis by (cases "h e") simp_all
  qed
qed

lemma run_task_done:
  assumes w: "with_task n0 t n" and I: "nt_inv n"
  shows "task_done n (run_task t n0)"
  using assms task_done_set [OF w I] run_callback_done by (cases t) auto

lemma network_step_done:
  assumes "nt_inv n"
  shows "(\<exists>m. network_step i n = Next m \<and> nt_inv m \<and> (\<forall>g r. resolves n g r \<longrightarrow> resolves m g r)) \<or> network_step i n = Disabled"
proof (cases "i < length (nt_pending n)")
  case True
  from run_task_done [OF with_task_take [OF True] assms] True show ?thesis
    by (auto simp: network_step_def task_done_def)
next
  case False
  then show ?thesis by (simp add: network_step_def)
qed

text \<open>The machine of the network started in any good network is a guarded machine.\<close>

lemma network_guarded:
  assumes "nt_inv n"
  shows "guarded_machine network_step n nt_inv"
proof (rule guarded_machineI)
  show "nt_inv n" by (rule assms)
next
  fix s :: "('a, 'b, 'c) network" and e assume "nt_inv s"
  from network_step_done [OF this, of e] show "lands_in nt_inv (network_step e s)" by auto
qed

lemma network_exec_resolves:
  "nt_inv n \<Longrightarrow> exec network_step is n = Next m \<Longrightarrow> nt_inv m \<and> (\<forall>g r. resolves n g r \<longrightarrow> resolves m g r)"
proof (induction "is" arbitrary: n)
  case Nil
  then show ?case by simp
next
  case (Cons i js)
  from Cons.prems(2) obtain k where k: "network_step i n = Next k" "exec network_step js k = Next m"
    by (auto split: outcome.splits)
  with network_step_done [OF Cons.prems(1), of i] have "nt_inv k" "\<forall>g r. resolves n g r \<longrightarrow> resolves k g r" by auto
  with Cons.IH [OF _ k(2)] show ?case by blast
qed

lemma resolves_quiet:
  assumes "resolves n g r" "nt_pending n = []"
  shows "ss_result (nt_states n ! g) = Some r"
  using assms(1)
proof induction
  case (res_result f r)
  then show ?case by simp
next
  case (res_task x t r)
  with assms(2) show ?case by simp
next
  case (res_wait j c r0 r)
  then show ?case by simp
qed

lemma nt_inv_empty: "nt_inv network_empty"
  by (simp add: nt_inv_def nt_owners_def network_empty_def)

interpretation futures: guarded_machine network_step network_empty nt_inv
  by (rule network_guarded [OF nt_inv_empty])

subsection \<open>Properties\<close>

text \<open>
  C16. Whatever pipeline of \<open>Execute\<close>, \<open>Via\<close>, \<open>Then\<close> and \<open>Recover\<close> is built, and in whatever order the executors
  run the tasks: when no task is left, the future of the pipeline holds the result the pipeline denotes.
\<close>

theorem futures_deliver:
  assumes "fut_build e network_empty = Inr (f, n)" "fut_denote e = Some r"
    and "exec network_step is n = Next m" "nt_pending m = []"
  shows "ss_result (nt_states m ! f) = Some r"
proof -
  from fut_build_spec [OF nt_inv_empty, of e] assms(1) have b: "built network_empty f n (fut_denote e)" by auto
  then have "nt_inv n" "resolves n f r" using assms(2) by (simp_all add: built_def)
  with network_exec_resolves [OF _ assms(3)] have "resolves m f r" by blast
  from resolves_quiet [OF this assms(4)] show ?thesis .
qed

text \<open>
  The witness: \<open>Execute([]{ return 3; }).Then(throw 'x').Recover(-> 7).Then([](n) { return Execute(n + 1); })\<close>, the
  callbacks on two executors.
\<close>

definition sample_pipeline :: "(nat, char, nat) future_expr" where
  "sample_pipeline =
     FAndThen (FRecover (FVia 2 (FThen (FExecute 1 (Inr 3)) (\<lambda>_. Inl CHR ''x''))) (\<lambda>_. Inr (Inr 7)))
       (\<lambda>v. Inr (FExecute 1 (Inr (v + 1))))"

lemmas futures_run_simps =
  network_step_def nt_take_def promise_set_def fut_subscribe_def nt_update_def ss_set_result_def ss_set_callback_def
  ss_produce_def ss_consume_def ss_emplace_def ss_store_callback_def ss_invoke_callback_def ss_new_def
  fut_then_def fut_and_then_def fut_recover_def fut_combine_def fut_via_def fut_executor_def futures_execute_def
  make_contract_via_def nt_execute_def ss_set_executor_def network_empty_def
  rv_produce_initial rv_produce_second rv_consume_initial rv_consume_second rv_initial_def

theorem futures_deliver_witness:
  "\<exists>f n m. fut_build sample_pipeline network_empty = Inr (f, n) \<and> exec network_step [0, 0, 0, 0, 0, 0] n = Next m \<and>
     nt_pending m = [] \<and> ss_result (nt_states m ! f) = Some (Inr 8)"
proof -
  obtain f n where n: "fut_build sample_pipeline network_empty = Inr (f, n)"
    using fut_build_spec [OF nt_inv_empty] by blast
  have d: "fut_denote sample_pipeline = Some (Inr 8)" by (simp add: sample_pipeline_def)
  have "case fut_build sample_pipeline network_empty of Inl x \<Rightarrow> False | Inr (f, n) \<Rightarrow>
     (case exec network_step [0, 0, 0, 0, 0, 0] n of Next m \<Rightarrow> nt_pending m = [] | _ \<Rightarrow> False)"
    by (simp add: sample_pipeline_def futures_run_simps)
  with n obtain m where m: "exec network_step [0, 0, 0, 0, 0, 0] n = Next m" "nt_pending m = []"
    by (auto split: outcome.splits)
  from futures_deliver [OF n d m] n m show ?thesis by blast
qed

text \<open>
  Building a pipeline never fails, and no order of running its tasks does: no promise is set twice, no
  future consumed twice, no state word is unexpected.
\<close>

theorem futures_no_failure:
  "case fut_build e network_empty of
     Inl x \<Rightarrow> False
   | Inr (f, n) \<Rightarrow> \<forall>is x. exec network_step is n \<noteq> Fault x"
proof -
  from fut_build_spec [OF nt_inv_empty, of e] obtain f n where
    n: "fut_build e network_empty = Inr (f, n)" "nt_inv n" by (auto simp: built_def)
  from guarded_machine.gm_exec_no_fault [OF network_guarded [OF n(2)]] n(1) show ?thesis by simp
qed

text \<open>
  An asynchronous continuation that throws is dropped with its promise: the future it should complete is
  left without a result, although every task has run.
\<close>

theorem async_then_throw_is_lost:
  "case fut_build (FAndThen (FExecute x (Inr v)) (\<lambda>_. Inl e)) network_empty of
     Inl y \<Rightarrow> False
   | Inr (f, n) \<Rightarrow>
       (case exec network_step [0, 0] n of
          Next m \<Rightarrow> nt_pending m = [] \<and> f < length (nt_states m) \<and> ss_result (nt_states m ! f) = None
        | _ \<Rightarrow> False)"
  by (simp add: futures_run_simps)

end
