(* ===== verification/Executors.thy ===== *)
theory Executors
  imports Prelude
begin

section \<open>The manual and the inline executor, and the tasks they run\<close>

text \<open>
  \<open>executors/manual.{h,cpp}\<close>, \<open>executors/inline.cpp\<close>, \<open>executors/detail/default_task.h\<close>, \<open>executors/execute.h\<close>. A task
  is what \<open>Execute\<close> makes of a function: here the function is known by its name, by the functions it submits to the
  executor that runs it, in order, and by whether it throws afterwards. Both executors are single-threaded; the
  counters of completed tasks are \<open>nat\<close> (a \<open>size_t\<close> would wrap after $2^{64}$ tasks).
\<close>

datatype job = Job (job_name: nat) (job_throws: bool) (job_submits: "job list")

text \<open>What can be observed: functions called, messages logged, task objects freed.\<close>

datatype trace = Called nat | Logged nat | Freed nat

subsection \<open>DefaultTask\<close>

definition default_task_destroy :: "job \<Rightarrow> trace list" where
  "default_task_destroy j = [Freed (job_name j)]"

definition default_task_discard :: "job \<Rightarrow> trace list" where
  "default_task_discard j = default_task_destroy j"

text \<open>\<open>Run\<close> around the call of the function, whose trace is \<open>body\<close>.\<close>

definition default_task_run :: "job \<Rightarrow> trace list \<Rightarrow> trace list" where
  "default_task_run j body =
     Called (job_name j) # body @ (if job_throws j then [Logged (job_name j)] else []) @ default_task_destroy j"

subsection \<open>InlineExecutor\<close>

text \<open>\<open>Execute\<close> runs the task before it returns, and so do the calls of \<open>Execute\<close> in the task.\<close>

fun inline_execute :: "job \<Rightarrow> trace list" where
  "inline_execute (Job n t js) = default_task_run (Job n t js) (concat (map inline_execute js))"

subsection \<open>ManualExecutor\<close>

record manual_executor =
  me_tasks :: "job list"
  me_trace :: "trace list"

definition manual_new :: manual_executor where
  "manual_new = \<lparr>me_tasks = [], me_trace = []\<rparr>"

definition manual_execute :: "job \<Rightarrow> manual_executor \<Rightarrow> manual_executor" where
  "manual_execute j e = e\<lparr>me_tasks := me_tasks e @ [j]\<rparr>"

definition manual_has_tasks :: "manual_executor \<Rightarrow> bool" where
  "manual_has_tasks e \<longleftrightarrow> me_tasks e \<noteq> []"

definition manual_pending_tasks :: "manual_executor \<Rightarrow> nat" where
  "manual_pending_tasks e = length (me_tasks e)"

text \<open>\<open>PopFront\<close> of an empty list is null.\<close>

definition manual_run_next_task :: "manual_executor \<Rightarrow> fault + manual_executor" where
  "manual_run_next_task e =
     (case me_tasks e of
        [] \<Rightarrow> Inl NullDereference
      | j # js \<Rightarrow>
          let e1 = fold manual_execute (job_submits j) (e\<lparr>me_tasks := js\<rparr>) in
          Inr (e1\<lparr>me_trace := me_trace e1 @ default_task_run j []\<rparr>))"

definition manual_load :: "manual_executor \<Rightarrow> nat" where
  "manual_load e = sum_list (map size (me_tasks e))"

lemma fold_manual_execute: "fold manual_execute js e = e\<lparr>me_tasks := me_tasks e @ js\<rparr>"
  by (induction js arbitrary: e) (simp_all add: manual_execute_def)

lemma manual_run_next_task_Cons:
  "me_tasks e = j # js \<Longrightarrow> manual_run_next_task e =
     Inr (e\<lparr>me_tasks := js @ job_submits j, me_trace := me_trace e @ default_task_run j []\<rparr>)"
  by (simp add: manual_run_next_task_def fold_manual_execute)

lemma manual_run_next_task_load: "manual_run_next_task e = Inr e' \<Longrightarrow> manual_load e' < manual_load e"
proof (cases "me_tasks e")
  case (Cons j js)
  moreover assume "manual_run_next_task e = Inr e'"
  moreover have "sum_list (map size (job_submits j)) < size j"
    by (cases j) (simp add: size_list_conv_sum_list)
  ultimately show ?thesis by (auto simp: manual_run_next_task_Cons manual_load_def)
qed (simp add: manual_run_next_task_def)

text \<open>The loop of \<open>RunAll\<close>, with \<open>completed\<close>.\<close>

function manual_run_all_loop :: "nat \<Rightarrow> manual_executor \<Rightarrow> fault + (nat \<times> manual_executor)" where
  "manual_run_all_loop completed e =
     (if manual_has_tasks e
      then (case manual_run_next_task e of Inl x \<Rightarrow> Inl x | Inr e1 \<Rightarrow> manual_run_all_loop (completed + 1) e1)
      else Inr (completed, e))"
  by pat_completeness auto
termination
  by (relation "measure (\<lambda>(completed, e). manual_load e)") (simp_all add: manual_run_next_task_load)

declare manual_run_all_loop.simps [simp del]

definition manual_run_all :: "manual_executor \<Rightarrow> fault + (nat \<times> manual_executor)" where
  "manual_run_all e = manual_run_all_loop 0 e"

function manual_run_at_most_loop :: "nat \<Rightarrow> nat \<Rightarrow> manual_executor \<Rightarrow> fault + (nat \<times> manual_executor)" where
  "manual_run_at_most_loop limit completed e =
     (if completed < limit \<and> manual_has_tasks e
      then (case manual_run_next_task e of Inl x \<Rightarrow> Inl x | Inr e1 \<Rightarrow> manual_run_at_most_loop limit (completed + 1) e1)
      else Inr (completed, e))"
  by pat_completeness auto
termination
  by (relation "measure (\<lambda>(limit, completed, e). limit - completed)") auto

declare manual_run_at_most_loop.simps [simp del]

definition manual_run_at_most :: "nat \<Rightarrow> manual_executor \<Rightarrow> fault + (nat \<times> manual_executor)" where
  "manual_run_at_most limit e = manual_run_at_most_loop limit 0 e"

definition manual_run_next :: "manual_executor \<Rightarrow> fault + (bool \<times> manual_executor)" where
  "manual_run_next e =
     (case manual_run_at_most 1 e of Inl x \<Rightarrow> Inl x | Inr (completed, e1) \<Rightarrow> Inr (completed = 1, e1))"

definition manual_destroy :: "manual_executor \<Rightarrow> fault + unit" where
  "manual_destroy e =
     (if me_tasks e = [] then Inr () else Inl (AssertFailed ''Destroying Manual executor with non-empty task queue''))"

subsection \<open>Level order\<close>

text \<open>The reference: all tasks that were submitted from outside, then all tasks those submitted, and so on.\<close>

lemma submits_smaller:
  assumes "js \<noteq> []"
  shows "sum_list (map size (concat (map job_submits js))) < sum_list (map size js)"
  using assms
proof (induction js)
  case (Cons j js)
  have j: "sum_list (map size (job_submits j)) < size j"
    by (cases j) (simp add: size_list_conv_sum_list)
  then show ?case using Cons.IH by (cases "js = []") simp_all
qed simp

function level_order :: "job list \<Rightarrow> job list" where
  "level_order js = (if js = [] then [] else js @ level_order (concat (map job_submits js)))"
  by pat_completeness auto
termination
  by (relation "measure (\<lambda>js. sum_list (map size js))") (auto intro: submits_smaller)

declare level_order.simps [simp del]

lemma level_order_Nil [simp]: "level_order [] = []"
  by (simp add: level_order.simps)

definition run_trace :: "job list \<Rightarrow> trace list" where
  "run_trace js = concat (map (\<lambda>j. default_task_run j []) js)"

lemma run_trace_simps [simp]:
  "run_trace [] = []" "run_trace (j # js) = default_task_run j [] @ run_trace js" "run_trace (js @ ks) = run_trace js @ run_trace ks"
  by (simp_all add: run_trace_def)

text \<open>One generation of tasks is run through while the next one is queued behind it.\<close>

lemma run_all_generation:
  assumes "me_tasks e = js @ ks"
  shows "manual_run_all_loop c e =
     manual_run_all_loop (c + length js)
       (e\<lparr>me_tasks := ks @ concat (map job_submits js), me_trace := me_trace e @ run_trace js\<rparr>)"
  using assms
proof (induction js arbitrary: c e ks)
  case Nil
  then have "e\<lparr>me_tasks := ks\<rparr> = e" by simp
  then show ?case by simp
next
  case (Cons j js)
  let ?e1 = "e\<lparr>me_tasks := js @ ks @ job_submits j, me_trace := me_trace e @ default_task_run j []\<rparr>"
  have "manual_run_all_loop c e = manual_run_all_loop (c + 1) ?e1"
    using Cons.prems by (subst manual_run_all_loop.simps) (simp add: manual_has_tasks_def manual_run_next_task_Cons)
  also have "\<dots> = manual_run_all_loop (c + 1 + length js)
      (?e1\<lparr>me_tasks := (ks @ job_submits j) @ concat (map job_submits js), me_trace := me_trace ?e1 @ run_trace js\<rparr>)"
    by (rule Cons.IH) simp
  finally show ?case by simp
qed

lemma run_all_loop_level_order:
  "manual_run_all_loop c e =
     Inr (c + length (level_order (me_tasks e)),
       e\<lparr>me_tasks := [], me_trace := me_trace e @ run_trace (level_order (me_tasks e))\<rparr>)"
proof (induction "me_tasks e" arbitrary: c e rule: level_order.induct)
  case 1
  show ?case
  proof (cases "me_tasks e = []")
    case True
    then show ?thesis by (subst manual_run_all_loop.simps) (simp add: manual_has_tasks_def)
  next
    case False
    let ?e1 = "e\<lparr>me_tasks := concat (map job_submits (me_tasks e)), me_trace := me_trace e @ run_trace (me_tasks e)\<rparr>"
    have "manual_run_all_loop c e = manual_run_all_loop (c + length (me_tasks e)) ?e1"
      using run_all_generation [of e "me_tasks e" "[]" c] by simp
    also have "\<dots> = Inr (c + length (me_tasks e) + length (level_order (me_tasks ?e1)),
        ?e1\<lparr>me_tasks := [], me_trace := me_trace ?e1 @ run_trace (level_order (me_tasks ?e1))\<rparr>)"
      by (rule 1) (simp_all add: False)
    finally show ?thesis using False by (subst (1 2) level_order.simps) simp
  qed
qed

lemma run_at_most_split:
  assumes "c \<le> m" "m \<le> l"
  shows "manual_run_at_most_loop l c e =
    (case manual_run_at_most_loop m c e of
       Inl x \<Rightarrow> Inl x
     | Inr (k, e1) \<Rightarrow> manual_run_at_most_loop l k e1)"
  using assms
proof (induction m c e rule: manual_run_at_most_loop.induct)
  case (1 m c e)
  show ?case
  proof (cases "c < m \<and> manual_has_tasks e")
    case True
    with "1.prems" have l: "c < l" by simp
    show ?thesis
    proof (cases "manual_run_next_task e")
      case (Inl x)
      with True l show ?thesis by (simp add: manual_run_at_most_loop.simps [of _ c])
    next
      case (Inr e1)
      from "1.IH" [OF True Inr] "1.prems" True have "manual_run_at_most_loop l (c + 1) e1 =
        (case manual_run_at_most_loop m (c + 1) e1 of Inl x \<Rightarrow> Inl x | Inr (k, e1) \<Rightarrow> manual_run_at_most_loop l k e1)"
        by simp
      with True l Inr show ?thesis by (simp add: manual_run_at_most_loop.simps [of _ c])
    qed
  next
    case False
    then have "manual_run_at_most_loop m c e = Inr (c, e)" by (subst manual_run_at_most_loop.simps) auto
    then show ?thesis by simp
  qed
qed

lemma run_at_most_shift:
  "manual_run_at_most_loop (a + l) (a + c) e =
    (case manual_run_at_most_loop l c e of Inl x \<Rightarrow> Inl x | Inr (k, e1) \<Rightarrow> Inr (a + k, e1))"
proof (induction l c e rule: manual_run_at_most_loop.induct)
  case (1 l c e)
  show ?case
  proof (cases "c < l \<and> manual_has_tasks e")
    case True
    with 1 show ?thesis
      by (subst (1 2) manual_run_at_most_loop.simps) (auto split: sum.splits)
  next
    case False
    then show ?thesis by (subst (1 2) manual_run_at_most_loop.simps) auto
  qed
qed

lemma run_at_most_idle: "\<not> manual_has_tasks e \<Longrightarrow> manual_run_at_most_loop l c e = Inr (c, e)"
  by (subst manual_run_at_most_loop.simps) simp

lemma run_at_most_counts:
  "c \<le> l \<Longrightarrow> \<exists>k e1. manual_run_at_most_loop l c e = Inr (k, e1) \<and> c \<le> k \<and> k \<le> l \<and> (k < l \<longrightarrow> \<not> manual_has_tasks e1)"
proof (induction l c e rule: manual_run_at_most_loop.induct)
  case (1 l c e)
  show ?case
  proof (cases "c < l \<and> manual_has_tasks e")
    case True
    then obtain j js where "me_tasks e = j # js" by (cases "me_tasks e") (auto simp: manual_has_tasks_def)
    then obtain e1 where e1: "manual_run_next_task e = Inr e1" by (simp add: manual_run_next_task_Cons)
    from "1.IH" [OF True this] True e1 show ?thesis
      by (subst manual_run_at_most_loop.simps) fastforce
  next
    case False
    with "1.prems" show ?thesis by (subst manual_run_at_most_loop.simps) auto
  qed
qed

subsection \<open>Properties\<close>

text \<open>
  C17. \<open>RunAll\<close> returns, for every queue and whatever its tasks submit: it has run the tasks level by level (first
  those that were queued, then those they submitted, and so on), each once and freed each, it counts them, and it
  leaves the queue empty. An exception of a task is logged and stops nothing.
\<close>

theorem run_all_is_level_order:
  "manual_run_all e =
     Inr (length (level_order (me_tasks e)),
       e\<lparr>me_tasks := [], me_trace := me_trace e @ run_trace (level_order (me_tasks e))\<rparr>)"
  by (simp add: manual_run_all_def run_all_loop_level_order)

text \<open>
  \<open>RunAtMost\<close> returns, runs at most \<open>limit\<close> tasks and fewer only if the queue is empty at the end; and two calls
  with limits \<open>m\<close> and \<open>n\<close> do what one call with \<open>m + n\<close> does.
\<close>

theorem run_at_most_additive:
  "\<exists>k e1. manual_run_at_most m e = Inr (k, e1) \<and> k \<le> m \<and> (k = m \<or> \<not> manual_has_tasks e1) \<and>
     manual_run_at_most (m + n) e =
       (case manual_run_at_most n e1 of Inl x \<Rightarrow> Inl x | Inr (k', e2) \<Rightarrow> Inr (k + k', e2))"
proof -
  from run_at_most_counts [of 0 m e] obtain k e1 where
    k: "manual_run_at_most m e = Inr (k, e1)" "k \<le> m" "k = m \<or> \<not> manual_has_tasks e1"
    by (auto simp: manual_run_at_most_def)
  have "manual_run_at_most (m + n) e = manual_run_at_most_loop (m + n) k e1"
    using run_at_most_split [of 0 m "m + n" e] k(1) by (simp add: manual_run_at_most_def)
  also have "\<dots> = (case manual_run_at_most n e1 of Inl x \<Rightarrow> Inl x | Inr (k', e2) \<Rightarrow> Inr (k + k', e2))"
  proof (cases "manual_has_tasks e1")
    case True
    with k(3) have km: "k = m" by simp
    show ?thesis using run_at_most_shift [of m n 0 e1] unfolding km manual_run_at_most_def by simp
  next
    case False
    then show ?thesis by (simp add: run_at_most_idle manual_run_at_most_def)
  qed
  finally show ?thesis using k by blast
qed

end
