(* ===== verification/Coroutine.thy ===== *)
theory Coroutine
  imports Prelude
begin

section \<open>Stackful coroutines, generators and processors\<close>

text \<open>
  \<open>coroutine/core/impl.{h,cpp}\<close>, \<open>coroutine/coroutine.{h,cpp}\<close>, \<open>coroutine/generator.h\<close>, \<open>coroutine/processor.h\<close>. The code
  of a routine is the user's: a routine is a control point \<open>'k\<close>, and a parameter \<open>body\<close> says what the code does from
  there up to its next call of this library. \<open>sure::ExecutionContext\<close> is the saved control point: \<open>SwitchTo\<close> saves
  the point of the running code and continues at the saved one. A context whose code is running holds none.
\<close>

subsection \<open>CoroutineImpl\<close>

record ('k, 'e) coroutine_impl =
  ci_context :: "'k option"
  ci_exception :: "'e option"
  ci_completed :: bool

definition impl_new :: "'k \<Rightarrow> ('k, 'e) coroutine_impl" where
  "impl_new k = \<lparr>ci_context = Some k, ci_exception = None, ci_completed = False\<rparr>"

text \<open>\<open>Resume\<close> up to the switch: the control point that runs next.\<close>

definition impl_switch_in :: "('k, 'e) coroutine_impl \<Rightarrow> fault + ('k \<times> ('k, 'e) coroutine_impl)" where
  "impl_switch_in c =
     (if ci_completed c then Inl (AssertFailed ''Coroutine is completed'')
      else case ci_context c of
        None \<Rightarrow> Inl (Panic ''switch into a running context'')
      | Some k \<Rightarrow> Inr (k, c\<lparr>ci_context := None\<rparr>))"

definition impl_suspend :: "'k \<Rightarrow> ('k, 'e) coroutine_impl \<Rightarrow> ('k, 'e) coroutine_impl" where
  "impl_suspend k c = c\<lparr>ci_context := Some k\<rparr>"

text \<open>The end of \<open>Run\<close>: the routine has returned (\<open>None\<close>) or thrown.\<close>

definition impl_run_end :: "'e option \<Rightarrow> ('k, 'e) coroutine_impl \<Rightarrow> ('k, 'e) coroutine_impl" where
  "impl_run_end thrown c =
     (case thrown of
        None \<Rightarrow> c\<lparr>ci_completed := True\<rparr>
      | Some e \<Rightarrow> c\<lparr>ci_exception := Some e, ci_completed := True\<rparr>)"

text \<open>The end of \<open>Resume\<close>: what it throws.\<close>

definition impl_resume_end :: "('k, 'e) coroutine_impl \<Rightarrow> 'e option" where
  "impl_resume_end c = ci_exception c"

definition impl_is_completed :: "('k, 'e) coroutine_impl \<Rightarrow> bool" where
  "impl_is_completed c \<longleftrightarrow> ci_completed c"

lemmas impl_defs =
  impl_new_def impl_switch_in_def impl_suspend_def impl_run_end_def impl_resume_end_def impl_is_completed_def

subsection \<open>Coroutine\<close>

text \<open>
  Code that runs on a thread: the main code and any number of coroutines resumed inside each other. A frame is a
  call of \<open>Coroutine::Resume\<close> in progress: the object, \<open>prev\<close>, and the point where the caller goes on, which is
  told whether the call threw.
\<close>

datatype ('k, 'e) co_act =
    ActCreate nat 'k 'k
  | ActResume nat "'e option \<Rightarrow> 'k"
  | ActSuspend 'k
  | ActReturn
  | ActThrow 'e

record ('k, 'e) co_world =
  co_objs :: "nat \<Rightarrow> ('k, 'e) coroutine_impl option"
  co_current :: "nat option"
  co_frames :: "(nat \<times> nat option \<times> ('e option \<Rightarrow> 'k)) list"
  co_code :: 'k

definition co_world_init :: "'k \<Rightarrow> ('k, 'e) co_world" where
  "co_world_init k = \<lparr>co_objs = Map.empty, co_current = None, co_frames = [], co_code = k\<rparr>"

text \<open>\<open>Coroutine::Resume\<close> before and after the switch; \<open>rollback\<close> runs on return and on an exception.\<close>

definition coroutine_resume :: "nat \<Rightarrow> ('e option \<Rightarrow> 'k) \<Rightarrow> ('k, 'e) co_world \<Rightarrow> ('k, 'e) co_world outcome" where
  "coroutine_resume c after w =
     (case co_objs w c of
        None \<Rightarrow> Fault UseAfterFree
      | Some impl \<Rightarrow>
          let prev = co_current w in
          (case impl_switch_in impl of
             Inl x \<Rightarrow> Fault x
           | Inr (k, impl') \<Rightarrow>
               Next (w\<lparr>co_objs := (co_objs w)(c \<mapsto> impl'), co_current := Some c,
                 co_frames := (c, prev, after) # co_frames w, co_code := k\<rparr>)))"

definition coroutine_resume_return :: "'e option \<Rightarrow> ('k, 'e) co_world \<Rightarrow> ('k, 'e) co_world outcome" where
  "coroutine_resume_return thrown w =
     (case co_frames w of
        [] \<Rightarrow> Disabled
      | (c, prev, after) # fs \<Rightarrow> Next (w\<lparr>co_current := prev, co_frames := fs, co_code := after thrown\<rparr>))"

text \<open>\<open>Coroutine::Suspend\<close> switches the context of \<open>current\<close>; the code that runs must be its.\<close>

definition coroutine_suspend :: "'k \<Rightarrow> ('k, 'e) co_world \<Rightarrow> ('k, 'e) co_world outcome" where
  "coroutine_suspend k w =
     (case co_current w of
        None \<Rightarrow> Fault (Panic ''Not a coroutine'')
      | Some c \<Rightarrow>
          (case co_objs w c of
             None \<Rightarrow> Fault UseAfterFree
           | Some impl \<Rightarrow>
               if co_frames w \<noteq> [] \<and> fst (hd (co_frames w)) = c
               then coroutine_resume_return (impl_resume_end impl) (w\<lparr>co_objs := (co_objs w)(c \<mapsto> impl_suspend k impl)\<rparr>)
               else Fault (Panic ''switch from a foreign context'')))"

definition coroutine_run_end :: "'e option \<Rightarrow> ('k, 'e) co_world \<Rightarrow> ('k, 'e) co_world outcome" where
  "coroutine_run_end thrown w =
     (case co_frames w of
        [] \<Rightarrow> Disabled
      | (c, _, _) # _ \<Rightarrow>
          (case co_objs w c of
             None \<Rightarrow> Fault UseAfterFree
           | Some impl \<Rightarrow>
               let impl' = impl_run_end thrown impl in
               coroutine_resume_return (impl_resume_end impl') (w\<lparr>co_objs := (co_objs w)(c \<mapsto> impl')\<rparr>)))"

definition co_step :: "('k \<Rightarrow> ('k, 'e) co_act) \<Rightarrow> unit \<Rightarrow> ('k, 'e) co_world \<Rightarrow> ('k, 'e) co_world outcome" where
  "co_step body u w =
     (case body (co_code w) of
        ActCreate c routine k \<Rightarrow>
          if co_objs w c = None then Next (w\<lparr>co_objs := (co_objs w)(c \<mapsto> impl_new routine), co_code := k\<rparr>) else Disabled
      | ActResume c after \<Rightarrow> coroutine_resume c after w
      | ActSuspend k \<Rightarrow> coroutine_suspend k w
      | ActReturn \<Rightarrow> coroutine_run_end None w
      | ActThrow e \<Rightarrow> coroutine_run_end (Some e) w)"

subsection \<open>The invariant of the nesting\<close>

definition frame_top :: "(nat \<times> nat option \<times> 'a) list \<Rightarrow> nat option" where
  "frame_top fs = (case fs of [] \<Rightarrow> None | (c, _) # _ \<Rightarrow> Some c)"

fun frames_linked :: "(nat \<times> nat option \<times> 'a) list \<Rightarrow> bool" where
  "frames_linked [] = True"
| "frames_linked ((c, prev, k) # fs) = (prev = frame_top fs \<and> frames_linked fs)"

definition impl_ok :: "bool \<Rightarrow> ('k, 'e) coroutine_impl \<Rightarrow> bool" where
  "impl_ok running c \<longleftrightarrow>
     (if running then ci_context c = None \<and> \<not> ci_completed c
      else ci_completed c \<or> ci_context c \<noteq> None) \<and>
     (\<not> ci_completed c \<longrightarrow> ci_exception c = None)"

definition co_objs_ok :: "(nat \<Rightarrow> ('k, 'e) coroutine_impl option) \<Rightarrow> nat set \<Rightarrow> bool" where
  "co_objs_ok objs running \<longleftrightarrow>
     running \<subseteq> dom objs \<and> (\<forall>c impl. objs c = Some impl \<longrightarrow> impl_ok (c \<in> running) impl)"

definition co_inv :: "('k, 'e) co_world \<Rightarrow> bool" where
  "co_inv w \<longleftrightarrow>
     co_current w = frame_top (co_frames w) \<and> frames_linked (co_frames w) \<and>
     distinct (map fst (co_frames w)) \<and> co_objs_ok (co_objs w) (fst ` set (co_frames w))"

lemma co_objs_okD: "co_objs_ok objs R \<Longrightarrow> objs c = Some impl \<Longrightarrow> impl_ok (c \<in> R) impl"
  by (simp add: co_objs_ok_def)

lemma co_objs_ok_upd:
  assumes o: "co_objs_ok objs R" and ok: "impl_ok (c \<in> R') impl" and R: "R' - {c} = R - {c}"
  shows "co_objs_ok (objs(c \<mapsto> impl)) R'"
proof -
  have d: "d \<in> R' \<longleftrightarrow> d \<in> R" if "d \<noteq> c" for d using R that by blast
  have "R' \<subseteq> dom (objs(c \<mapsto> impl))" using o d by (auto simp: co_objs_ok_def)
  moreover have "impl_ok (e \<in> R') i" if "(objs(c \<mapsto> impl)) e = Some i" for e i
    using that ok co_objs_okD [OF o, of e i] d [of e] by (cases "e = c") simp_all
  ultimately show ?thesis by (simp add: co_objs_ok_def)
qed

lemma co_inv_init: "co_inv (co_world_init k)"
  by (simp add: co_inv_def co_world_init_def frame_top_def co_objs_ok_def)

lemma co_inv_resume:
  assumes I: "co_inv w"
  shows "case coroutine_resume c after w of
      Next t \<Rightarrow> co_inv t
    | Disabled \<Rightarrow> True
    | Fault x \<Rightarrow> (case co_objs w c of
          None \<Rightarrow> x = UseAfterFree
        | Some impl \<Rightarrow> (if ci_completed impl then x = AssertFailed ''Coroutine is completed''
                        else c \<in> fst ` set (co_frames w) \<and> x = Panic ''switch into a running context''))"
proof (cases "co_objs w c")
  case None
  then show ?thesis by (simp add: coroutine_resume_def)
next
  case (Some impl)
  have o: "co_objs_ok (co_objs w) (fst ` set (co_frames w))" using I by (simp add: co_inv_def)
  have ok: "impl_ok (c \<in> fst ` set (co_frames w)) impl" using co_objs_okD [OF o Some] .
  show ?thesis
  proof (cases "impl_switch_in impl")
    case (Inl x)
    with Some ok show ?thesis
      by (auto simp: coroutine_resume_def impl_switch_in_def impl_ok_def split: if_splits option.splits)
  next
    case (Inr r)
    then obtain k where r: "r = (k, impl\<lparr>ci_context := None\<rparr>)" "\<not> ci_completed impl" "ci_context impl = Some k"
      by (auto simp: impl_switch_in_def split: if_splits option.splits)
    with ok have nr: "c \<notin> fst ` set (co_frames w)"
      by (cases "c \<in> fst ` set (co_frames w)") (simp_all add: impl_ok_def)
    let ?fs = "(c, co_current w, after) # co_frames w"
    have "co_objs_ok ((co_objs w)(c \<mapsto> impl\<lparr>ci_context := None\<rparr>)) (fst ` set ?fs)"
      by (rule co_objs_ok_upd [OF o]) (use ok r nr in \<open>auto simp: impl_ok_def\<close>)
    with I nr Inr Some r show ?thesis by (simp add: coroutine_resume_def co_inv_def frame_top_def)
  qed
qed

text \<open>Leaving the innermost frame, with its object out of the running ones.\<close>

lemma co_inv_leave:
  assumes I: "co_inv w" and f: "co_frames w = (c, prev, after) # fs" and ok: "impl_ok False impl"
  shows "coroutine_resume_return th (w\<lparr>co_objs := (co_objs w)(c \<mapsto> impl)\<rparr>) =
      Next (w\<lparr>co_objs := (co_objs w)(c \<mapsto> impl), co_current := prev, co_frames := fs, co_code := after th\<rparr>)"
    and "co_inv (w\<lparr>co_objs := (co_objs w)(c \<mapsto> impl), co_current := prev, co_frames := fs, co_code := after th\<rparr>)"
proof -
  have o: "co_objs_ok (co_objs w) (fst ` set (co_frames w))" and nr: "c \<notin> fst ` set fs" using I f by (simp_all add: co_inv_def)
  have "co_objs_ok ((co_objs w)(c \<mapsto> impl)) (fst ` set fs)"
    by (rule co_objs_ok_upd [OF o]) (use ok nr f in auto)
  with I f show "co_inv (w\<lparr>co_objs := (co_objs w)(c \<mapsto> impl), co_current := prev, co_frames := fs, co_code := after th\<rparr>)"
    by (simp add: co_inv_def)
qed (simp add: f coroutine_resume_return_def)

lemma co_frame_object:
  assumes I: "co_inv w" and f: "co_frames w = (c, prev, after) # fs"
  shows "co_current w = Some c" "\<exists>impl. co_objs w c = Some impl \<and> impl_ok True impl"
proof -
  show "co_current w = Some c" using I f by (simp add: co_inv_def frame_top_def)
  have o: "co_objs_ok (co_objs w) (fst ` set (co_frames w))" using I by (simp add: co_inv_def)
  moreover have c: "c \<in> fst ` set (co_frames w)" using f by simp
  ultimately obtain impl where "co_objs w c = Some impl" by (auto simp: co_objs_ok_def)
  with co_objs_okD [OF o this] c show "\<exists>impl. co_objs w c = Some impl \<and> impl_ok True impl" by simp
qed

lemma co_suspend_result:
  assumes I: "co_inv w"
  shows "case co_frames w of
      [] \<Rightarrow> coroutine_suspend k w = Fault (Panic ''Not a coroutine'')
    | (c, prev, after) # fs \<Rightarrow> \<exists>impl. co_objs w c = Some impl \<and>
        coroutine_suspend k w = Next (w\<lparr>co_objs := (co_objs w)(c \<mapsto> impl_suspend k impl), co_current := prev,
          co_frames := fs, co_code := after None\<rparr>) \<and>
        co_inv (w\<lparr>co_objs := (co_objs w)(c \<mapsto> impl_suspend k impl), co_current := prev, co_frames := fs, co_code := after None\<rparr>)"
proof (cases "co_frames w")
  case Nil
  with I show ?thesis by (simp add: co_inv_def frame_top_def coroutine_suspend_def)
next
  case (Cons f fs)
  then obtain c prev after where f: "co_frames w = (c, prev, after) # fs" by (cases f) auto
  from co_frame_object [OF I f] obtain impl where
    c: "co_current w = Some c" "co_objs w c = Some impl" "impl_ok True impl" by blast
  then have "impl_ok False (impl_suspend k impl)" "ci_exception impl = None" by (simp_all add: impl_ok_def impl_suspend_def)
  with co_inv_leave [OF I f, of "impl_suspend k impl" None] c f show ?thesis
    by (auto simp: coroutine_suspend_def impl_resume_end_def)
qed

lemma co_run_end_result:
  assumes I: "co_inv w"
  shows "lands_in co_inv (coroutine_run_end th w)"
proof (cases "co_frames w")
  case Nil
  then show ?thesis by (simp add: coroutine_run_end_def)
next
  case (Cons f fs)
  then obtain c prev after where f: "co_frames w = (c, prev, after) # fs" by (cases f) auto
  from co_frame_object [OF I f] obtain impl where c: "co_objs w c = Some impl" "impl_ok True impl" by blast
  then have "impl_ok False (impl_run_end th impl)" by (auto simp: impl_ok_def impl_run_end_def split: option.splits)
  with co_inv_leave [OF I f this] c f show ?thesis by (simp add: coroutine_run_end_def Let_def)
qed

text \<open>When a step fails: the main code suspends, or something that cannot be resumed is resumed.\<close>

definition co_misuse :: "('k \<Rightarrow> ('k, 'e) co_act) \<Rightarrow> ('k, 'e) co_world \<Rightarrow> bool" where
  "co_misuse body w \<longleftrightarrow>
     (case body (co_code w) of
        ActResume c _ \<Rightarrow>
          (case co_objs w c of None \<Rightarrow> True | Some impl \<Rightarrow> impl_is_completed impl \<or> c \<in> fst ` set (co_frames w))
      | ActSuspend _ \<Rightarrow> co_frames w = []
      | _ \<Rightarrow> False)"

lemma co_inv_step:
  assumes I: "co_inv w"
  shows "case co_step body u w of Next t \<Rightarrow> co_inv t | Disabled \<Rightarrow> True | Fault x \<Rightarrow> co_misuse body w"
proof (cases "body (co_code w)")
  case (ActCreate c routine k)
  have "co_inv (w\<lparr>co_objs := (co_objs w)(c \<mapsto> impl_new routine), co_code := k\<rparr>)" if n: "co_objs w c = None"
  proof -
    have o: "co_objs_ok (co_objs w) (fst ` set (co_frames w))" using I by (simp add: co_inv_def)
    with n have "c \<notin> fst ` set (co_frames w)" by (auto simp: co_objs_ok_def)
    then have "co_objs_ok ((co_objs w)(c \<mapsto> impl_new routine)) (fst ` set (co_frames w))"
      by (intro co_objs_ok_upd [OF o]) (auto simp: impl_ok_def impl_new_def)
    with I show ?thesis by (simp add: co_inv_def)
  qed
  with ActCreate show ?thesis by (simp add: co_step_def)
next
  case (ActResume c after)
  from co_inv_resume [OF I, of c after] ActResume show ?thesis
    by (auto simp: co_step_def co_misuse_def impl_is_completed_def split: outcome.splits option.splits if_splits)
next
  case (ActSuspend k)
  from co_suspend_result [OF I, of k] ActSuspend show ?thesis
    by (auto simp: co_step_def co_misuse_def split: list.splits)
next
  case ActReturn
  with co_run_end_result [OF I, of None] show ?thesis
    by (cases "coroutine_run_end None w") (simp_all add: co_step_def)
next
  case (ActThrow e)
  with co_run_end_result [OF I, of "Some e"] show ?thesis
    by (cases "coroutine_run_end (Some e) w") (simp_all add: co_step_def)
qed

lemma co_exec_inv: "exec (co_step body) us w = Next t \<Longrightarrow> co_inv w \<Longrightarrow> co_inv t"
proof (induction us arbitrary: w)
  case (Cons u us)
  then obtain v where v: "co_step body u w = Next v" "exec (co_step body) us v = Next t" by (auto split: outcome.splits)
  with co_inv_step [OF Cons.prems(2), of body u] Cons.IH [OF v(2)] show ?case by simp
qed simp

subsection \<open>Properties of coroutines\<close>

lemma co_objs_ok_running:
  assumes "co_objs_ok objs R" "objs c = Some impl"
  shows "c \<in> R \<longleftrightarrow> \<not> ci_completed impl \<and> ci_context impl = None"
  using co_objs_okD [OF assms] by (auto simp: impl_ok_def split: if_splits)

text \<open>
  C18. Coroutines nest as calls do, whatever routines resume each other: \<open>current\<close> is always the innermost coroutine
  that is being resumed, each \<open>Resume\<close> in progress remembers the one around it, no coroutine is resumed inside
  itself, and a coroutine is running exactly while a \<open>Resume\<close> of it is in progress.
\<close>

theorem coroutine_nesting:
  assumes "exec (co_step body) us (co_world_init k) = Next w"
  shows "co_current w = frame_top (co_frames w) \<and> frames_linked (co_frames w) \<and> distinct (map fst (co_frames w)) \<and>
    {c. \<exists>impl. co_objs w c = Some impl \<and> \<not> ci_completed impl \<and> ci_context impl = None} = fst ` set (co_frames w)"
proof -
  have I: "co_inv w" using co_exec_inv [OF assms co_inv_init] .
  then have o: "co_objs_ok (co_objs w) (fst ` set (co_frames w))" by (simp add: co_inv_def)
  have "{c. \<exists>impl. co_objs w c = Some impl \<and> \<not> ci_completed impl \<and> ci_context impl = None} = fst ` set (co_frames w)"
    (is "?L = ?R")
  proof (rule set_eqI)
    fix c
    show "c \<in> ?L \<longleftrightarrow> c \<in> ?R"
    proof (cases "co_objs w c")
      case None
      with o have "c \<notin> ?R" unfolding co_objs_ok_def by (meson domIff subsetD)
      with None show ?thesis by simp
    next
      case (Some impl)
      with co_objs_ok_running [OF o Some] show ?thesis by simp
    qed
  qed
  with I show ?thesis by (simp add: co_inv_def)
qed

text \<open>A main program, a coroutine 1 that runs a coroutine 2, and both suspend: the second one inside the first.\<close>

fun nested_body :: "nat \<Rightarrow> (nat, string) co_act" where
  "nested_body n =
     (if n = 0 then ActCreate 1 10 1
      else if n = 1 then ActResume 1 (\<lambda>_. 2)
      else if n = 2 then ActSuspend 3
      else if n = 10 then ActCreate 2 20 11
      else if n = 11 then ActResume 2 (\<lambda>_. 12)
      else if n = 12 then ActSuspend 13
      else if n = 20 then ActSuspend 21
      else ActReturn)"

lemmas co_run_simps =
  co_step_def coroutine_resume_def coroutine_suspend_def coroutine_resume_return_def coroutine_run_end_def
  co_world_init_def impl_defs

theorem coroutine_nesting_witness:
  "\<exists>w. exec (co_step nested_body) [(), (), (), ()] (co_world_init 0) = Next w \<and> co_current w = Some 2 \<and>
     map fst (co_frames w) = [2, 1]"
proof -
  obtain w where w: "exec (co_step nested_body) [(), (), (), ()] (co_world_init 0) = Next w"
    and f: "map fst (co_frames w) = [2, 1]"
    by (simp add: co_run_simps)
  from f have "frame_top (co_frames w) = Some 2" by (cases "co_frames w") (auto simp: frame_top_def split: prod.splits)
  with coroutine_nesting [OF w] w f show ?thesis by auto
qed

text \<open>
  C19. The calls fail only on misuse: \<open>Suspend\<close> outside every coroutine, \<open>Resume\<close> of a completed one, of one that
  is being resumed, or of none. They fail then always, and never otherwise.
\<close>

theorem coroutine_failure_iff:
  assumes "exec (co_step body) us (co_world_init k) = Next w"
  shows "(\<exists>x. co_step body () w = Fault x) \<longleftrightarrow> co_misuse body w"
proof
  have I: "co_inv w" using co_exec_inv [OF assms co_inv_init] .
  {
    assume "\<exists>x. co_step body () w = Fault x"
    with co_inv_step [OF I, of body "()"] show "co_misuse body w" by auto
  next
    assume m: "co_misuse body w"
    have o: "co_objs_ok (co_objs w) (fst ` set (co_frames w))" using I by (simp add: co_inv_def)
    show "\<exists>x. co_step body () w = Fault x"
    proof (cases "body (co_code w)")
      case (ActResume c after)
      show ?thesis
      proof (cases "co_objs w c")
        case None
        with ActResume show ?thesis by (simp add: co_step_def coroutine_resume_def)
      next
        case (Some impl)
        with co_objs_ok_running [OF o Some] m ActResume show ?thesis
          by (auto simp: co_step_def coroutine_resume_def co_misuse_def impl_switch_in_def impl_is_completed_def)
      qed
    next
      case (ActSuspend k)
      with m co_suspend_result [OF I, of k] show ?thesis by (simp add: co_step_def co_misuse_def)
    qed (use m in \<open>simp_all add: co_misuse_def\<close>)
  }
qed

theorem coroutine_failure_iff_witness:
  "\<exists>w. exec (co_step nested_body) [(), (), (), (), (), ()] (co_world_init 0) = Next w \<and>
     (\<exists>x. co_step nested_body () w = Fault x)"
proof -
  obtain w where w: "exec (co_step nested_body) [(), (), (), (), (), ()] (co_world_init 0) = Next w"
    and f: "co_frames w = []" "co_code w = 2"
    by (simp add: co_run_simps)
  from f have "co_misuse nested_body w" by (simp add: co_misuse_def)
  with coroutine_failure_iff [OF w] w show ?thesis by blast
qed

subsection \<open>Generator\<close>

datatype ('v, 'k, 'e) gen_act = GenSends 'v 'k | GenReturns | GenThrows 'e

record ('v, 'k, 'e) generator =
  gn_coroutine :: "('k, 'e) coroutine_impl"
  gn_value :: "'v option"

record ('v, 'k, 'e) gen_world =
  gw_gens :: "nat \<Rightarrow> ('v, 'k, 'e) generator option"
  gw_this :: "nat option"

definition generator_new :: "'k \<Rightarrow> ('v, 'k, 'e) generator" where
  "generator_new k = \<lparr>gn_coroutine = impl_new k, gn_value = None\<rparr>"

text \<open>\<open>Generator::Send\<close> in the routine: the value goes to \<open>this_thread_generator\<close>, which is suspended.\<close>

definition generator_send :: "'v \<Rightarrow> 'k \<Rightarrow> ('v, 'k, 'e) gen_world \<Rightarrow> fault + ('v, 'k, 'e) gen_world" where
  "generator_send v k w =
     (case gw_this w of
        None \<Rightarrow> Inl (AssertFailed ''this_thread_generator'')
      | Some h \<Rightarrow>
          (case gw_gens w h of
             None \<Rightarrow> Inl UseAfterFree
           | Some G \<Rightarrow> Inr (w\<lparr>gw_gens := (gw_gens w)(h \<mapsto> G\<lparr>gn_value := Some v, gn_coroutine := impl_suspend k (gn_coroutine G)\<rparr>)\<rparr>)))"

text \<open>\<open>GenerateNextValue\<close>: \<open>Inl e\<close> when the exception of the routine leaves it, before \<open>prev\<close> is put back.\<close>

definition generator_next :: "('k \<Rightarrow> ('v, 'k, 'e) gen_act) \<Rightarrow> nat \<Rightarrow> ('v, 'k, 'e) gen_world \<Rightarrow>
    fault + (('e + bool) \<times> ('v, 'k, 'e) gen_world)" where
  "generator_next body g w =
     (case gw_gens w g of
        None \<Rightarrow> Inl UseAfterFree
      | Some G \<Rightarrow>
          if impl_is_completed (gn_coroutine G) then Inr (Inr False, w)
          else
            let prev = gw_this w in
            (case impl_switch_in (gn_coroutine G) of
               Inl x \<Rightarrow> Inl x
             | Inr (k, c) \<Rightarrow>
                 let w1 = w\<lparr>gw_gens := (gw_gens w)(g \<mapsto> G\<lparr>gn_coroutine := c\<rparr>), gw_this := Some g\<rparr> in
                 (case body k of
                    GenSends v k' \<Rightarrow>
                      (case generator_send v k' w1 of Inl x \<Rightarrow> Inl x | Inr w2 \<Rightarrow> Inr (Inr True, w2\<lparr>gw_this := prev\<rparr>))
                  | GenReturns \<Rightarrow>
                      Inr (Inr False, w1\<lparr>gw_gens := (gw_gens w1)(g \<mapsto> G\<lparr>gn_coroutine := impl_run_end None c\<rparr>), gw_this := prev\<rparr>)
                  | GenThrows e \<Rightarrow>
                      Inr (Inl e, w1\<lparr>gw_gens := (gw_gens w1)(g \<mapsto> G\<lparr>gn_coroutine := impl_run_end (Some e) c\<rparr>)\<rparr>))))"

definition generator_receive :: "('k \<Rightarrow> ('v, 'k, 'e) gen_act) \<Rightarrow> nat \<Rightarrow> ('v, 'k, 'e) gen_world \<Rightarrow>
    fault + (('e + 'v option) \<times> ('v, 'k, 'e) gen_world)" where
  "generator_receive body g w =
     (case generator_next body g w of
        Inl x \<Rightarrow> Inl x
      | Inr (Inl e, w1) \<Rightarrow> Inr (Inl e, w1)
      | Inr (Inr got, w1) \<Rightarrow>
          (case gw_gens w1 g of
             None \<Rightarrow> Inl UseAfterFree
           | Some G \<Rightarrow> Inr (Inr (if got then gn_value G else None), w1)))"

text \<open>\<open>n\<close> calls of \<open>Receive\<close>, also after an exception.\<close>

fun generator_receives :: "('k \<Rightarrow> ('v, 'k, 'e) gen_act) \<Rightarrow> nat \<Rightarrow> nat \<Rightarrow> ('v, 'k, 'e) gen_world \<Rightarrow>
    fault + (('e + 'v option) list \<times> ('v, 'k, 'e) gen_world)" where
  "generator_receives body g 0 w = Inr ([], w)"
| "generator_receives body g (Suc n) w =
     (case generator_receive body g w of
        Inl x \<Rightarrow> Inl x
      | Inr (r, w1) \<Rightarrow>
          (case generator_receives body g n w1 of Inl x \<Rightarrow> Inl x | Inr (rs, w2) \<Rightarrow> Inr (r # rs, w2)))"

text \<open>What the routine sends, as a list: the reference.\<close>

fun routine_sends :: "('k \<Rightarrow> ('v, 'k, 'e) gen_act) \<Rightarrow> 'k \<Rightarrow> nat \<Rightarrow> ('e + 'v option) list" where
  "routine_sends body k 0 = []"
| "routine_sends body k (Suc n) =
     (case body k of
        GenSends v k' \<Rightarrow> Inr (Some v) # routine_sends body k' n
      | GenReturns \<Rightarrow> replicate (Suc n) (Inr None)
      | GenThrows e \<Rightarrow> Inl e # replicate n (Inr None))"

definition gen_others :: "nat \<Rightarrow> ('v, 'k, 'e) gen_world \<Rightarrow> ('v, 'k, 'e) gen_world \<Rightarrow> bool" where
  "gen_others g w w' \<longleftrightarrow> (\<forall>h. h \<noteq> g \<longrightarrow> gw_gens w' h = gw_gens w h)"

lemma generator_receives_completed:
  "gw_gens w g = Some G \<Longrightarrow> ci_completed (gn_coroutine G) \<Longrightarrow> generator_receives body g n w = Inr (replicate n (Inr None), w)"
  by (induction n) (simp_all add: generator_receive_def generator_next_def impl_is_completed_def)

lemma generator_receives_spec:
  assumes "gw_gens w g = Some G" "ci_context (gn_coroutine G) = Some k" "\<not> ci_completed (gn_coroutine G)"
  shows "\<exists>w'. generator_receives body g n w = Inr (routine_sends body k n, w') \<and> gen_others g w w' \<and>
    gw_this w' = (if \<exists>e. Inl e \<in> set (routine_sends body k n) then Some g else gw_this w)"
  using assms
proof (induction n arbitrary: w G k)
  case 0
  then show ?case by (simp add: gen_others_def)
next
  case (Suc n)
  let ?c = "(gn_coroutine G)\<lparr>ci_context := None\<rparr>"
  note gen = generator_receive_def generator_next_def generator_send_def impl_is_completed_def impl_switch_in_def
  show ?case
  proof (cases "body k")
    case (GenSends v k')
    let ?G = "G\<lparr>gn_value := Some v, gn_coroutine := impl_suspend k' ?c\<rparr>"
    let ?w = "w\<lparr>gw_gens := (gw_gens w)(g \<mapsto> ?G)\<rparr>"
    have r: "generator_receive body g w = Inr (Inr (Some v), ?w)"
      using Suc.prems GenSends by (simp add: gen)
    have "\<exists>w'. generator_receives body g n ?w = Inr (routine_sends body k' n, w') \<and> gen_others g ?w w' \<and>
      gw_this w' = (if \<exists>e. Inl e \<in> set (routine_sends body k' n) then Some g else gw_this ?w)"
      by (rule Suc.IH [of _ ?G]) (use Suc.prems in \<open>simp_all add: impl_suspend_def\<close>)
    with r GenSends show ?thesis by (auto simp: gen_others_def)
  next
    case GenReturns
    let ?G = "G\<lparr>gn_coroutine := impl_run_end None ?c\<rparr>"
    let ?w = "w\<lparr>gw_gens := (gw_gens w)(g \<mapsto> ?G)\<rparr>"
    have r: "generator_receive body g w = Inr (Inr None, ?w)"
      using Suc.prems GenReturns by (simp add: gen)
    moreover have "generator_receives body g n ?w = Inr (replicate n (Inr None), ?w)"
      by (rule generator_receives_completed [of _ _ ?G]) (simp_all add: impl_run_end_def)
    ultimately show ?thesis using GenReturns by (auto simp: gen_others_def)
  next
    case (GenThrows e)
    let ?G = "G\<lparr>gn_coroutine := impl_run_end (Some e) ?c\<rparr>"
    let ?w = "w\<lparr>gw_gens := (gw_gens w)(g \<mapsto> ?G), gw_this := Some g\<rparr>"
    have r: "generator_receive body g w = Inr (Inl e, ?w)"
      using Suc.prems GenThrows by (simp add: gen)
    moreover have "generator_receives body g n ?w = Inr (replicate n (Inr None), ?w)"
      by (rule generator_receives_completed [of _ _ ?G]) (simp_all add: impl_run_end_def)
    ultimately show ?thesis using GenThrows by (auto simp: gen_others_def)
  qed
qed

text \<open>
  C20. Any number of \<open>Receive\<close> calls on a new generator yields what its routine sends, in order, one value per call,
  then the exception of the routine if it throws, then \<open>nullopt\<close> forever; other generators are untouched. Afterwards
  \<open>this_thread_generator\<close> is what it was, except after an exception: then it still points to the generator.
\<close>

theorem generator_yields_what_is_sent:
  assumes "gw_gens w g = Some (generator_new k)"
  shows "\<exists>w'. generator_receives body g n w = Inr (routine_sends body k n, w') \<and> gen_others g w w' \<and>
    gw_this w' = (if \<exists>e. Inl e \<in> set (routine_sends body k n) then Some g else gw_this w)"
  by (rule generator_receives_spec [OF assms]) (simp_all add: generator_new_def impl_new_def)

text \<open>The odd numbers up to 5, then an exception.\<close>

definition odds_body :: "nat \<Rightarrow> (nat, nat, string) gen_act" where
  "odds_body k = (if k < 6 then GenSends k (k + 2) else GenThrows ''done'')"

theorem generator_yields_what_is_sent_witness:
  "\<exists>w'. generator_receives odds_body 7 5 \<lparr>gw_gens = Map.empty(7 \<mapsto> generator_new 1), gw_this = None\<rparr> =
      Inr ([Inr (Some 1), Inr (Some 3), Inr (Some 5), Inl ''done'', Inr None], w') \<and> gw_this w' = Some 7"
proof -
  have "routine_sends odds_body 1 5 = [Inr (Some 1), Inr (Some 3), Inr (Some 5), Inl ''done'', Inr None]"
    by (simp add: odds_body_def numeral_eq_Suc)
  with generator_yields_what_is_sent [of "\<lparr>gw_gens = Map.empty(7 \<mapsto> generator_new 1), gw_this = None\<rparr>" 7 1 odds_body 5]
  show ?thesis by auto
qed

subsection \<open>Processor\<close>

datatype ('v, 'k, 'e) proc_act = ProcReceives "'v option \<Rightarrow> 'k" | ProcReturns | ProcThrows 'e

text \<open>A saved control point: in the code of the routine, or suspended in the loop of \<open>Receive\<close>.\<close>

datatype ('v, 'k) proc_point = AtCode 'k | InReceive "'v option \<Rightarrow> 'k"

record ('v, 'k, 'e) processor =
  pr_coroutine :: "(('v, 'k) proc_point, 'e) coroutine_impl"
  pr_value :: "'v option"
  pr_has_next :: bool

record ('v, 'k, 'e) proc_world =
  pw_procs :: "nat \<Rightarrow> ('v, 'k, 'e) processor option"
  pw_this :: "nat option"

definition processor_new :: "'k \<Rightarrow> ('v, 'k, 'e) processor" where
  "processor_new k = \<lparr>pr_coroutine = impl_new (AtCode k), pr_value = None, pr_has_next = False\<rparr>"

text \<open>A moved \<open>optional\<close> is not read again before \<open>SetValue\<close> writes it.\<close>

definition processor_take_value :: "('v, 'k, 'e) processor \<Rightarrow> fault + ('v option \<times> ('v, 'k, 'e) processor)" where
  "processor_take_value p =
     (if pr_has_next p then Inr (pr_value p, p\<lparr>pr_has_next := False\<rparr>)
      else Inl (AssertFailed ''Doesn't have the next value''))"

text \<open>
  The routine from a control point until it suspends or ends, in the context of its processor: \<open>Receive\<close> takes the
  value if there is one, and suspends otherwise.
\<close>

function processor_run :: "('k \<Rightarrow> ('v, 'k, 'e) proc_act) \<Rightarrow> ('v, 'k) proc_point \<Rightarrow> ('v, 'k, 'e) processor \<Rightarrow>
    fault + ('e option option \<times> ('v, 'k, 'e) processor)" where
  "processor_run body (AtCode k) p =
     (case body k of
        ProcReturns \<Rightarrow> Inr (Some None, p\<lparr>pr_coroutine := impl_run_end None (pr_coroutine p)\<rparr>)
      | ProcThrows e \<Rightarrow> Inr (Some (Some e), p\<lparr>pr_coroutine := impl_run_end (Some e) (pr_coroutine p)\<rparr>)
      | ProcReceives f \<Rightarrow> processor_run body (InReceive f) p)"
| "processor_run body (InReceive f) p =
     (if \<not> pr_has_next p then Inr (None, p\<lparr>pr_coroutine := impl_suspend (InReceive f) (pr_coroutine p)\<rparr>)
      else case processor_take_value p of
        Inl x \<Rightarrow> Inl x
      | Inr (v, p1) \<Rightarrow> processor_run body (AtCode (f v)) p1)"
  by pat_completeness auto
termination
  by (relation "measure (\<lambda>(body, pt, p). (if pr_has_next p then 2 else 0) + (case pt of AtCode k \<Rightarrow> 1 | InReceive f \<Rightarrow> 0))")
    (auto simp: processor_take_value_def)

definition proc_put :: "nat \<Rightarrow> ('v, 'k, 'e) processor \<Rightarrow> ('v, 'k, 'e) proc_world \<Rightarrow> ('v, 'k, 'e) proc_world" where
  "proc_put i p w = w\<lparr>pw_procs := (pw_procs w)(i \<mapsto> p)\<rparr>"

lemma proc_put_simps [simp]:
  "pw_procs (proc_put i p w) i = Some p" "proc_put i q (proc_put i p w) = proc_put i q w" "pw_this (proc_put i p w) = pw_this w"
  "(proc_put i p w)\<lparr>pw_this := pw_this w\<rparr> = proc_put i p w"
  by (simp_all add: proc_put_def)

text \<open>\<open>SetValue\<close>: \<open>Inl e\<close> when the exception of the routine leaves it, before \<open>prev\<close> is put back.\<close>

definition processor_set_value :: "('k \<Rightarrow> ('v, 'k, 'e) proc_act) \<Rightarrow> nat \<Rightarrow> 'v option \<Rightarrow> ('v, 'k, 'e) proc_world \<Rightarrow>
    fault + (('e + unit) \<times> ('v, 'k, 'e) proc_world)" where
  "processor_set_value body i v w =
     (case pw_procs w i of
        None \<Rightarrow> Inl UseAfterFree
      | Some p \<Rightarrow>
          let prev = pw_this w; p1 = p\<lparr>pr_value := v, pr_has_next := True\<rparr> in
          (case impl_switch_in (pr_coroutine p1) of
             Inl x \<Rightarrow> Inl x
           | Inr (pt, c) \<Rightarrow>
               (case processor_run body pt (p1\<lparr>pr_coroutine := c\<rparr>) of
                  Inl x \<Rightarrow> Inl x
                | Inr (_, p2) \<Rightarrow>
                    let w1 = (proc_put i p2 w)\<lparr>pw_this := Some i\<rparr> in
                    (case impl_resume_end (pr_coroutine p2) of
                       Some e \<Rightarrow> Inr (Inl e, w1)
                     | None \<Rightarrow> Inr (Inr (), w1\<lparr>pw_this := prev\<rparr>)))))"

definition processor_send where "processor_send body i v w = processor_set_value body i (Some v) w"
definition processor_close where "processor_close body i w = processor_set_value body i None w"

text \<open>A sequence of \<open>Send\<close> and \<open>Close\<close> (\<open>None\<close>), up to the first exception.\<close>

fun processor_feed :: "('k \<Rightarrow> ('v, 'k, 'e) proc_act) \<Rightarrow> nat \<Rightarrow> 'v option list \<Rightarrow> ('v, 'k, 'e) proc_world \<Rightarrow>
    fault + (('e + unit) \<times> ('v, 'k, 'e) proc_world)" where
  "processor_feed body i [] w = Inr (Inr (), w)"
| "processor_feed body i (v # vs) w =
     (case (case v of None \<Rightarrow> processor_close body i w | Some x \<Rightarrow> processor_send body i x w) of
        Inl x \<Rightarrow> Inl x
      | Inr (Inl e, w1) \<Rightarrow> Inr (Inl e, w1)
      | Inr (Inr _, w1) \<Rightarrow> processor_feed body i vs w1)"

text \<open>The reference: the routine reads a list, and ends or wants more; what it has not read is left.\<close>

datatype ('v, 'k, 'e) consumption = Wants "'v option \<Rightarrow> 'k" | Ended "'e option" "'v option list"

fun routine_reads :: "('k \<Rightarrow> ('v, 'k, 'e) proc_act) \<Rightarrow> ('v option \<Rightarrow> 'k) \<Rightarrow> 'v option list \<Rightarrow> ('v, 'k, 'e) consumption" where
  "routine_reads body f [] = Wants f"
| "routine_reads body f (v # vs) =
     (case body (f v) of
        ProcReceives f' \<Rightarrow> routine_reads body f' vs
      | ProcReturns \<Rightarrow> Ended None vs
      | ProcThrows e \<Rightarrow> Ended (Some e) vs)"

definition proc_waits :: "('v, 'k, 'e) processor \<Rightarrow> ('v option \<Rightarrow> 'k) \<Rightarrow> bool" where
  "proc_waits p f \<longleftrightarrow> ci_context (pr_coroutine p) = Some (InReceive f) \<and> \<not> ci_completed (pr_coroutine p) \<and>
     ci_exception (pr_coroutine p) = None \<and> \<not> pr_has_next p"

text \<open>One value for a processor that waits in \<open>Receive\<close>, or is new and its routine begins with a \<open>Receive\<close>.\<close>

definition proc_ready :: "('k \<Rightarrow> ('v, 'k, 'e) proc_act) \<Rightarrow> ('v, 'k, 'e) processor \<Rightarrow> ('v option \<Rightarrow> 'k) \<Rightarrow> bool" where
  "proc_ready body p f \<longleftrightarrow> proc_waits p f \<or> (\<exists>k. p = processor_new k \<and> body k = ProcReceives f)"

lemma set_value_result:
  assumes p: "pw_procs w i = Some p" and r: "proc_ready body p f"
  shows "\<exists>p'. (case body (f v) of
      ProcReceives f' \<Rightarrow> proc_waits p' f' \<and>
        processor_set_value body i v w = Inr (Inr (), proc_put i p' w)
    | ProcReturns \<Rightarrow> ci_completed (pr_coroutine p') \<and>
        processor_set_value body i v w = Inr (Inr (), proc_put i p' w)
    | ProcThrows e \<Rightarrow> ci_completed (pr_coroutine p') \<and>
        processor_set_value body i v w = Inr (Inl e, (proc_put i p' w)\<lparr>pw_this := Some i\<rparr>))"
proof -
  let ?p1 = "p\<lparr>pr_value := v, pr_has_next := True, pr_coroutine := (pr_coroutine p)\<lparr>ci_context := None\<rparr>\<rparr>"
  have c: "\<not> ci_completed (pr_coroutine p)" "ci_exception (pr_coroutine p) = None"
    using r by (auto simp: proc_ready_def proc_waits_def processor_new_def impl_new_def)
  obtain pt where pt: "ci_context (pr_coroutine p) = Some pt" "processor_run body pt ?p1 = processor_run body (InReceive f) ?p1"
    using r by (auto simp: proc_ready_def proc_waits_def processor_new_def impl_new_def simp del: processor_run.simps(2))
  have run: "processor_run body (InReceive f) ?p1 = processor_run body (AtCode (f v)) (?p1\<lparr>pr_has_next := False\<rparr>)"
    by (simp add: processor_take_value_def)
  define p2 where "p2 = ?p1\<lparr>pr_has_next := False\<rparr>"
  have p2: "ci_exception (pr_coroutine p2) = None" "\<not> pr_has_next p2" "\<not> ci_completed (pr_coroutine p2)"
    using c by (simp_all add: p2_def)
  have sv: "processor_set_value body i v w =
    (case processor_run body (AtCode (f v)) p2 of
       Inl x \<Rightarrow> Inl x
     | Inr (_, p2) \<Rightarrow>
         let w1 = (proc_put i p2 w)\<lparr>pw_this := Some i\<rparr> in
         (case impl_resume_end (pr_coroutine p2) of
            Some e \<Rightarrow> Inr (Inl e, w1)
          | None \<Rightarrow> Inr (Inr (), w1\<lparr>pw_this := pw_this w\<rparr>)))"
    using p c pt run by (simp add: processor_set_value_def impl_switch_in_def Let_def p2_def del: processor_run.simps)
  show ?thesis
  proof (cases "body (f v)")
    case (ProcReceives f')
    let ?p' = "p2\<lparr>pr_coroutine := impl_suspend (InReceive f') (pr_coroutine p2)\<rparr>"
    have "processor_run body (AtCode (f v)) p2 = Inr (None, ?p')" using ProcReceives p2 by simp
    with sv ProcReceives p2 show ?thesis
      by (intro exI [of _ ?p']) (simp add: proc_waits_def impl_suspend_def impl_resume_end_def del: processor_run.simps)
  next
    case ProcReturns
    let ?p' = "p2\<lparr>pr_coroutine := impl_run_end None (pr_coroutine p2)\<rparr>"
    have "processor_run body (AtCode (f v)) p2 = Inr (Some None, ?p')" using ProcReturns p2 by simp
    with sv ProcReturns p2 show ?thesis
      by (intro exI [of _ ?p']) (simp add: impl_run_end_def impl_resume_end_def del: processor_run.simps)
  next
    case (ProcThrows e)
    let ?p' = "p2\<lparr>pr_coroutine := impl_run_end (Some e) (pr_coroutine p2)\<rparr>"
    have "processor_run body (AtCode (f v)) p2 = Inr (Some (Some e), ?p')" using ProcThrows p2 by simp
    with sv ProcThrows p2 show ?thesis
      by (intro exI [of _ ?p']) (simp add: impl_run_end_def impl_resume_end_def del: processor_run.simps)
  qed
qed

lemma feed_step: "processor_feed body i (v # vs) w =
    (case processor_set_value body i v w of
        Inl x \<Rightarrow> Inl x
      | Inr (Inl e, w1) \<Rightarrow> Inr (Inl e, w1)
      | Inr (Inr _, w1) \<Rightarrow> processor_feed body i vs w1)"
  by (cases v) (simp_all add: processor_send_def processor_close_def)

lemma feed_completed:
  "pw_procs w i = Some p \<Longrightarrow> ci_completed (pr_coroutine p) \<Longrightarrow>
   processor_feed body i (v # vs) w = Inl (AssertFailed ''Coroutine is completed'')"
  by (simp add: feed_step processor_set_value_def impl_switch_in_def del: processor_feed.simps)

lemma processor_feed_spec:
  assumes "pw_procs w i = Some p" "proc_ready body p f"
  shows "case routine_reads body f vs of
      Wants f' \<Rightarrow> \<exists>p'. proc_ready body p' f' \<and> processor_feed body i vs w = Inr (Inr (), proc_put i p' w)
    | Ended None [] \<Rightarrow> \<exists>p'. ci_completed (pr_coroutine p') \<and>
        processor_feed body i vs w = Inr (Inr (), proc_put i p' w)
    | Ended None (_ # _) \<Rightarrow> processor_feed body i vs w = Inl (AssertFailed ''Coroutine is completed'')
    | Ended (Some e) _ \<Rightarrow> \<exists>p'. ci_completed (pr_coroutine p') \<and>
        processor_feed body i vs w = Inr (Inl e, (proc_put i p' w)\<lparr>pw_this := Some i\<rparr>)"
  using assms
proof (induction vs arbitrary: w p f)
  case Nil
  then have "proc_put i p w = w" by (simp add: proc_put_def fun_upd_idem)
  with Nil show ?case by (auto intro!: exI [of _ p])
next
  case (Cons v vs)
  from set_value_result [OF Cons.prems, of v] obtain p' where r: "case body (f v) of
      ProcReceives f' \<Rightarrow> proc_waits p' f' \<and>
        processor_set_value body i v w = Inr (Inr (), proc_put i p' w)
    | ProcReturns \<Rightarrow> ci_completed (pr_coroutine p') \<and>
        processor_set_value body i v w = Inr (Inr (), proc_put i p' w)
    | ProcThrows e \<Rightarrow> ci_completed (pr_coroutine p') \<and>
        processor_set_value body i v w = Inr (Inl e, (proc_put i p' w)\<lparr>pw_this := Some i\<rparr>)" by blast
  let ?w = "proc_put i p' w"
  have w: "pw_procs ?w i = Some p'" by simp
  show ?case
  proof (cases "body (f v)")
    case (ProcReceives f')
    with r have s: "proc_ready body p' f'" "processor_set_value body i v w = Inr (Inr (), ?w)" by (auto simp: proc_ready_def)
    from Cons.IH [OF w s(1)] s(2) ProcReceives show ?thesis
      by (simp add: feed_step del: processor_feed.simps split: consumption.splits option.splits list.splits)
  next
    case ProcReturns
    with r have s: "ci_completed (pr_coroutine p')" "processor_set_value body i v w = Inr (Inr (), ?w)" by auto
    show ?thesis
    proof (cases vs)
      case Nil
      with s ProcReturns show ?thesis by (auto simp: feed_step simp del: processor_feed.simps(2))
    next
      case (Cons u us)
      with s ProcReturns feed_completed [OF w s(1)] show ?thesis by (simp add: feed_step [of body i v] del: processor_feed.simps)
    qed
  next
    case (ProcThrows e)
    with r show ?thesis by (auto simp: feed_step simp del: processor_feed.simps)
  qed
qed

text \<open>
  C21. The routine of a processor receives exactly the values that are sent, in order, each once, and \<open>nullopt\<close> for
  \<open>Close\<close>: a sequence of \<open>Send\<close> and \<open>Close\<close> does what the routine does when it reads the sequence from a list. Its
  exception leaves the call that fed it; sending to a routine that has returned fails the assertion. The thread-local
  pointer is put back, except after an exception.
\<close>

theorem processor_reads_what_is_sent:
  assumes "pw_procs w i = Some (processor_new k)" "body k = ProcReceives f"
  shows "case routine_reads body f vs of
      Wants f' \<Rightarrow> \<exists>p'. proc_ready body p' f' \<and> processor_feed body i vs w = Inr (Inr (), proc_put i p' w)
    | Ended None [] \<Rightarrow> \<exists>p'. ci_completed (pr_coroutine p') \<and>
        processor_feed body i vs w = Inr (Inr (), proc_put i p' w)
    | Ended None (_ # _) \<Rightarrow> processor_feed body i vs w = Inl (AssertFailed ''Coroutine is completed'')
    | Ended (Some e) _ \<Rightarrow> \<exists>p'. ci_completed (pr_coroutine p') \<and>
        processor_feed body i vs w = Inr (Inl e, (proc_put i p' w)\<lparr>pw_this := Some i\<rparr>)"
  by (rule processor_feed_spec [OF assms(1)]) (use assms(2) in \<open>auto simp: proc_ready_def\<close>)

text \<open>A routine that sums what it receives and throws the sum when the input is closed.\<close>

fun sum_body :: "nat option \<times> nat \<Rightarrow> (nat, nat option \<times> nat, nat) proc_act" where
  "sum_body (Some s, _) = ProcReceives (\<lambda>v. case v of Some x \<Rightarrow> (Some (s + x), 0) | None \<Rightarrow> (None, s))"
| "sum_body (None, s) = ProcThrows s"

theorem processor_reads_what_is_sent_witness:
  "\<exists>w'. processor_feed sum_body 3 [Some 4, Some 5, None]
      \<lparr>pw_procs = Map.empty(3 \<mapsto> processor_new (Some 0, 0)), pw_this = None\<rparr> = Inr (Inl 9, w') \<and> pw_this w' = Some 3"
proof -
  let ?f = "\<lambda>v. case v of Some x \<Rightarrow> (Some (0 + x), 0) | None \<Rightarrow> (None, 0)"
  have "routine_reads sum_body ?f [Some 4, Some 5, None] = Ended (Some 9) []" by simp
  with processor_reads_what_is_sent [of "\<lparr>pw_procs = Map.empty(3 \<mapsto> processor_new (Some 0, 0)), pw_this = None\<rparr>"
      3 "(Some 0, 0)" sum_body ?f "[Some 4, Some 5, None]"]
  show ?thesis by auto
qed

end
