(* ===== verification/Ref_Counting.thy ===== *)
theory Ref_Counting
  imports Stamped_Ptr
begin

section \<open>Intrusive and shared reference counting\<close>

text \<open>
  \<open>common/refer/ref.h\<close>, \<open>common/refer/ref_counted.h\<close> and \<open>common/shared_ptr.h\<close>. Variables that refer to counted objects
  (\<open>Ref<T>\<close>, \<open>SharedPtr<T>\<close>) are in a table; a variable that does not exist is \<open>None\<close>, a null one \<open>Some None\<close>. The
  objects are in a heap with their counters, of a type \<open>'c\<close> the two families choose. \<open>hw_raw\<close> counts references
  that are held outside every variable: pointers taken out with \<open>Release\<close>, or \<open>AddRef\<close> called directly.
\<close>

record ('o, 'c) handle_world =
  hw_objs :: "'o \<Rightarrow> 'c option"
  hw_vars :: "nat \<Rightarrow> 'o option option"
  hw_raw :: "'o \<Rightarrow> nat"

definition handle_world_init :: "('o, 'c) handle_world" where
  "handle_world_init = \<lparr>hw_objs = Map.empty, hw_vars = Map.empty, hw_raw = (\<lambda>_. 0)\<rparr>"

fun then_do :: "'s outcome \<Rightarrow> ('s \<Rightarrow> 't outcome) \<Rightarrow> 't outcome" where
  "then_do (Next s) f = f s"
| "then_do Disabled f = Disabled"
| "then_do (Fault x) f = Fault x"

lemma lands_in_then_do: "lands_in P m \<Longrightarrow> (\<And>s. P s \<Longrightarrow> lands_in Q (f s)) \<Longrightarrow> lands_in Q (then_do m f)"
  by (cases m) auto

definition hv_set :: "nat \<Rightarrow> 'o option option \<Rightarrow> ('o, 'c) handle_world \<Rightarrow> ('o, 'c) handle_world" where
  "hv_set r v w = w\<lparr>hw_vars := (hw_vars w)(r := v)\<rparr>"

text \<open>A method of an object called through a pointer: \<open>add\<close> changes its counter, \<open>rel\<close> may free it (\<open>None\<close>).\<close>

definition obj_add :: "('c \<Rightarrow> 'c) \<Rightarrow> 'o \<Rightarrow> ('o, 'c) handle_world \<Rightarrow> ('o, 'c) handle_world outcome" where
  "obj_add add ob w =
     (case hw_objs w ob of None \<Rightarrow> Fault UseAfterFree | Some c \<Rightarrow> Next (w\<lparr>hw_objs := (hw_objs w)(ob \<mapsto> add c)\<rparr>))"

definition obj_rel :: "('c \<Rightarrow> 'c option) \<Rightarrow> 'o \<Rightarrow> ('o, 'c) handle_world \<Rightarrow> ('o, 'c) handle_world outcome" where
  "obj_rel rel ob w =
     (case hw_objs w ob of None \<Rightarrow> Fault UseAfterFree | Some c \<Rightarrow> Next (w\<lparr>hw_objs := (hw_objs w)(ob := rel c)\<rparr>))"

subsection \<open>The contract of a counter\<close>

text \<open>How many references to an object there are.\<close>

definition hw_owners :: "('o, 'c) handle_world \<Rightarrow> 'o \<Rightarrow> nat" where
  "hw_owners w ob = card {r. hw_vars w r = Some (Some ob)} + hw_raw w ob"

locale handle_counter =
  fixes add :: "'c \<Rightarrow> 'c" and rel :: "'c \<Rightarrow> 'c option" and rep :: "nat \<Rightarrow> 'c" and bound :: nat
  assumes hc_add: "Suc n \<le> bound \<Longrightarrow> add (rep n) = rep (Suc n)"
    and hc_last: "rel (rep (Suc 0)) = None"
    and hc_rel: "Suc (Suc n) \<le> bound \<Longrightarrow> rel (rep (Suc (Suc n))) = Some (rep (Suc n))"
begin

definition hw_count_ok :: "nat \<Rightarrow> 'c option \<Rightarrow> bool" where
  "hw_count_ok n c \<longleftrightarrow> c = (if n = 0 then None else Some (rep n))"

definition hw_inv :: "nat \<Rightarrow> ('o, 'c) handle_world \<Rightarrow> bool" where
  "hw_inv n w \<longleftrightarrow> finite (dom (hw_vars w)) \<and>
     (\<forall>ob. hw_count_ok (hw_owners w ob) (hw_objs w ob) \<and> hw_owners w ob \<le> n)"

end

lemma finite_holders: "finite (dom f) \<Longrightarrow> finite {r. f r = Some (Some ob)}"
  by (rule finite_subset [of _ "dom f"]) auto

lemma card_holders_upd:
  assumes "finite (dom f)"
  shows "card {q. (f(r := v)) q = Some (Some ob)} + (if f r = Some (Some ob) then 1 else 0) =
    card {q. f q = Some (Some ob)} + (if v = Some (Some ob) then 1 else (0 :: nat))"
proof -
  let ?S = "{q. q \<noteq> r \<and> f q = Some (Some ob)}"
  have fin: "finite ?S" by (rule finite_subset [OF _ finite_holders [OF assms, of ob]]) auto
  have a: "card {q. f q = Some (Some ob)} = card ?S + (if f r = Some (Some ob) then 1 else 0)"
  proof (cases "f r = Some (Some ob)")
    case True
    then have "{q. f q = Some (Some ob)} = insert r ?S" by auto
    with fin True show ?thesis by simp
  next
    case False
    then have "{q. f q = Some (Some ob)} = ?S" by auto
    with False show ?thesis by simp
  qed
  have b: "card {q. (f(r := v)) q = Some (Some ob)} = card ?S + (if v = Some (Some ob) then 1 else 0)"
  proof (cases "v = Some (Some ob)")
    case True
    then have "{q. (f(r := v)) q = Some (Some ob)} = insert r ?S" by auto
    with fin True show ?thesis by simp
  next
    case False
    then have "{q. (f(r := v)) q = Some (Some ob)} = ?S" by auto
    with False show ?thesis by simp
  qed
  from a b show ?thesis by simp
qed

lemma owners_set:
  "finite (dom (hw_vars w)) \<Longrightarrow> hw_owners (hv_set r v w) ob + (if hw_vars w r = Some (Some ob) then 1 else 0) =
    hw_owners w ob + (if v = Some (Some ob) then 1 else 0)"
  using card_holders_upd [of "hw_vars w" r v ob] by (simp add: hw_owners_def hv_set_def)

lemma hv_set_simps [simp]:
  "hw_objs (hv_set r v w) = hw_objs w" "hw_raw (hv_set r v w) = hw_raw w" "hw_vars (hv_set r v w) = (hw_vars w)(r := v)"
  by (simp_all add: hv_set_def)

lemma owners_objs [simp]: "hw_owners (w\<lparr>hw_objs := f\<rparr>) = hw_owners w"
  by (simp add: hw_owners_def fun_eq_iff)

lemma hv_set_commute:
  "hv_set r v (w\<lparr>hw_objs := f\<rparr>) = (hv_set r v w)\<lparr>hw_objs := f\<rparr>"
  "hv_set r v (w\<lparr>hw_raw := g\<rparr>) = (hv_set r v w)\<lparr>hw_raw := g\<rparr>"
  by (simp_all add: hv_set_def)

lemma owners_raw:
  "hw_owners (w\<lparr>hw_raw := (hw_raw w)(ob := k)\<rparr>) x + (if x = ob then hw_raw w ob else 0) =
    hw_owners w x + (if x = ob then k else 0)"
  by (simp add: hw_owners_def)

definition no_object :: "'o option option \<Rightarrow> bool" where
  "no_object v \<longleftrightarrow> v = None \<or> v = Some None"

lemma no_object_simps [simp]: "no_object None" "no_object (Some None)" "\<not> no_object (Some (Some ob))"
  by (simp_all add: no_object_def)

context handle_counter begin

lemma hw_inv_init: "hw_inv 0 handle_world_init"
  by (simp add: hw_inv_def handle_world_init_def hw_owners_def hw_count_ok_def)

lemma hw_invI:
  assumes "finite (dom (hw_vars w))" "\<And>ob. hw_count_ok (hw_owners w ob) (hw_objs w ob)" "\<And>ob. hw_owners w ob \<le> n"
  shows "hw_inv n w"
  using assms by (simp add: hw_inv_def)

lemma hw_invD:
  assumes "hw_inv n w"
  shows "finite (dom (hw_vars w))" "hw_count_ok (hw_owners w ob) (hw_objs w ob)" "hw_owners w ob \<le> n"
  using assms by (simp_all add: hw_inv_def)

lemma hw_inv_mono: "hw_inv n w \<Longrightarrow> n \<le> m \<Longrightarrow> hw_inv m w"
  unfolding hw_inv_def by (meson order_trans)

lemma holder_owns: "hw_inv n w \<Longrightarrow> hw_vars w r = Some (Some ob) \<Longrightarrow> 0 < hw_owners w ob"
  using finite_holders [OF hw_invD(1), of n w ob] by (auto simp: hw_owners_def card_gt_0_iff)

lemma owned_alive: "hw_inv n w \<Longrightarrow> hw_objs w ob \<noteq> None \<longleftrightarrow> 0 < hw_owners w ob"
  using hw_invD(2) [of n w ob] by (auto simp: hw_count_ok_def split: if_splits)

text \<open>Values that neither gain nor lose a reference: null ones, and swaps.\<close>

lemma hw_inv_neutral:
  assumes I: "hw_inv n w" and "no_object (hw_vars w r)" "no_object v"
  shows "hw_inv n (hv_set r v w)"
proof -
  have o: "hw_owners (hv_set r v w) ob = hw_owners w ob" for ob
    using owners_set [OF hw_invD(1) [OF I], of r v ob] assms(2,3) by (auto simp: no_object_def)
  show ?thesis using hw_invD [OF I] by (intro hw_invI) (simp_all add: o)
qed

lemma hw_inv_swap:
  assumes I: "hw_inv n w" and r: "hw_vars w r = Some a" and s: "hw_vars w s = Some b"
  shows "hw_inv n (hv_set s (Some a) (hv_set r (Some b) w))"
proof -
  let ?w = "hv_set r (Some b) w"
  have f: "finite (dom (hw_vars w))" using hw_invD(1) [OF I] .
  then have f': "finite (dom (hw_vars ?w))" by simp
  have o: "hw_owners (hv_set s (Some a) ?w) ob = hw_owners w ob" for ob
    using owners_set [OF f, of r "Some b" ob] owners_set [OF f', of s "Some a" ob] r s by (cases "r = s") (auto split: if_splits)
  show ?thesis using hw_invD [OF I] by (intro hw_invI) (simp_all add: o)
qed

text \<open>A variable begins to refer to an object that is alive: counter and number of references go up together.\<close>

lemma hw_inv_acquire:
  assumes I: "hw_inv n w" and n: "n < bound" and r: "no_object (hw_vars w r)" and ob: "0 < hw_owners w ob"
  shows "lands_in (hw_inv (Suc n)) (obj_add add ob (hv_set r (Some (Some ob)) w))"
proof -
  let ?w = "hv_set r (Some (Some ob)) w"
  have o: "hw_owners ?w x = hw_owners w x + (if x = ob then 1 else 0)" for x
    using owners_set [OF hw_invD(1) [OF I], of r "Some (Some ob)" x] r by (auto simp: no_object_def)
  have c: "hw_objs w ob = Some (rep (hw_owners w ob))" using hw_invD(2) [OF I, of ob] ob by (simp add: hw_count_ok_def)
  have "Suc (hw_owners w ob) \<le> bound" using hw_invD(3) [OF I, of ob] n by simp
  then have "add (rep (hw_owners w ob)) = rep (Suc (hw_owners w ob))" by (rule hc_add)
  then have "hw_inv (Suc n) (?w\<lparr>hw_objs := (hw_objs ?w)(ob \<mapsto> add (rep (hw_owners w ob)))\<rparr>)"
    using hw_invD [OF I] by (intro hw_invI) (auto simp: o hw_count_ok_def intro: le_SucI)
  then show ?thesis by (simp add: obj_add_def c)
qed

text \<open>A variable that refers to an object is released and then set to \<open>v\<close>, which refers to none.\<close>

lemma hw_inv_release:
  assumes I: "hw_inv n w" and n: "n \<le> bound" and r: "hw_vars w r = Some (Some ob)" and v: "no_object v"
  shows "lands_in (hw_inv n) (then_do (obj_rel rel ob w) (\<lambda>u. Next (hv_set r v u)))"
proof -
  let ?w = "hv_set r v w"
  have o: "hw_owners ?w x + (if x = ob then 1 else 0) = hw_owners w x" for x
    using owners_set [OF hw_invD(1) [OF I], of r v x] r v by (auto simp: no_object_def split: if_splits)
  then have le: "hw_owners ?w x \<le> hw_owners w x" for x by (metis le_add1)
  have pos: "hw_owners w ob = Suc (hw_owners ?w ob)" using o [of ob] by simp
  have c: "hw_objs w ob = Some (rep (hw_owners w ob))" using hw_invD(2) [OF I, of ob] pos by (simp add: hw_count_ok_def)
  have b: "hw_owners w ob \<le> bound" using hw_invD(3) [OF I, of ob] n by simp
  have "rel (rep (hw_owners w ob)) = (if hw_owners ?w ob = 0 then None else Some (rep (hw_owners ?w ob)))"
    using b pos hc_last hc_rel [of "hw_owners ?w ob - 1"] by (cases "hw_owners ?w ob") simp_all
  moreover have "hw_count_ok (hw_owners ?w x) (hw_objs w x)" if "x \<noteq> ob" for x
    using hw_invD(2) [OF I, of x] o [of x] that by simp
  ultimately have "hw_inv n (?w\<lparr>hw_objs := (hw_objs w)(ob := rel (rep (hw_owners w ob)))\<rparr>)"
    using hw_invD(1,3) [OF I] le by (intro hw_invI) (auto simp: hw_count_ok_def intro: order_trans)
  then show ?thesis by (simp add: obj_rel_def c hv_set_commute)
qed

text \<open>A new object with one reference.\<close>

lemma hw_inv_new:
  assumes I: "hw_inv n w" and r: "no_object (hw_vars w r)" and ob: "hw_objs w ob = None"
  shows "hw_inv (Suc n) (hv_set r (Some (Some ob)) (w\<lparr>hw_objs := (hw_objs w)(ob \<mapsto> rep 1)\<rparr>))"
proof -
  let ?w = "hv_set r (Some (Some ob)) w"
  have z: "hw_owners w ob = 0" using owned_alive [OF I, of ob] ob by simp
  have o: "hw_owners ?w x = hw_owners w x + (if x = ob then 1 else 0)" for x
    using owners_set [OF hw_invD(1) [OF I], of r "Some (Some ob)" x] r by (auto simp: no_object_def)
  have "hw_inv (Suc n) (?w\<lparr>hw_objs := (hw_objs w)(ob \<mapsto> rep 1)\<rparr>)"
    using hw_invD [OF I] z by (intro hw_invI) (auto simp: o hw_count_ok_def intro: le_SucI)
  then show ?thesis by (simp add: hv_set_commute)
qed

text \<open>References change between a variable and the outside.\<close>

lemma hw_inv_detach:
  assumes I: "hw_inv n w" and r: "hw_vars w r = Some (Some ob)" and v: "no_object v"
  shows "hw_inv n (hv_set r v (w\<lparr>hw_raw := (hw_raw w)(ob := Suc (hw_raw w ob))\<rparr>))"
proof -
  let ?w = "hv_set r v w"
  have "hw_owners (?w\<lparr>hw_raw := (hw_raw w)(ob := Suc (hw_raw w ob))\<rparr>) x = hw_owners w x" for x
    using owners_set [OF hw_invD(1) [OF I], of r v x] owners_raw [of ?w ob "Suc (hw_raw w ob)" x] r v
    by (auto simp: no_object_def split: if_splits)
  then have "hw_inv n (?w\<lparr>hw_raw := (hw_raw w)(ob := Suc (hw_raw w ob))\<rparr>)"
    using hw_invD [OF I] by (intro hw_invI) simp_all
  then show ?thesis by (simp add: hv_set_commute)
qed

lemma hw_inv_attach:
  assumes I: "hw_inv n w" and r: "no_object (hw_vars w r)" and raw: "hw_raw w ob = Suc k"
  shows "hw_inv n (hv_set r (Some (Some ob)) (w\<lparr>hw_raw := (hw_raw w)(ob := k)\<rparr>))"
proof -
  let ?w = "hv_set r (Some (Some ob)) w"
  have "hw_owners (?w\<lparr>hw_raw := (hw_raw w)(ob := k)\<rparr>) x = hw_owners w x" for x
    using owners_set [OF hw_invD(1) [OF I], of r "Some (Some ob)" x] owners_raw [of ?w ob k x] r raw
    by (auto simp: no_object_def split: if_splits)
  then have "hw_inv n (?w\<lparr>hw_raw := (hw_raw w)(ob := k)\<rparr>)"
    using hw_invD [OF I] by (intro hw_invI) simp_all
  then show ?thesis by (simp add: hv_set_commute)
qed

text \<open>At rest: an object is alive exactly as long as somebody refers to it.\<close>

lemma hw_alive_iff:
  assumes "hw_inv n w"
  shows "hw_objs w ob \<noteq> None \<longleftrightarrow> (\<exists>r. hw_vars w r = Some (Some ob)) \<or> hw_raw w ob \<noteq> 0"
  using owned_alive [OF assms, of ob] finite_holders [OF hw_invD(1) [OF assms], of ob]
  by (auto simp: hw_owners_def card_gt_0_iff)

end

subsection \<open>RefCounted and Ref\<close>

definition rc_new :: "bool \<Rightarrow> u64" where "rc_new initial = (if initial then 1 else 0)"

definition rc_add_ref :: "u64 \<Rightarrow> u64" where
  "rc_add_ref c = snd (atomic_fetch_add c 1)"

text \<open>\<open>None\<close>: \<open>DestroySelf\<close>.\<close>

definition rc_release_ref :: "u64 \<Rightarrow> u64 option" where
  "rc_release_ref c = (let (old, c') = atomic_fetch_sub c 1 in if old = 1 then None else Some c')"

type_synonym ref_world = "(nat, u64) handle_world"

definition ref_add_if_valid :: "nat option \<Rightarrow> ref_world \<Rightarrow> ref_world outcome" where
  "ref_add_if_valid p w = (case p of None \<Rightarrow> Next w | Some ob \<Rightarrow> obj_add rc_add_ref ob w)"

definition ref_ctor_raw :: "nat \<Rightarrow> nat option \<Rightarrow> ref_world \<Rightarrow> ref_world outcome" where
  "ref_ctor_raw r p w = ref_add_if_valid p (hv_set r (Some p) w)"

definition ref_ctor_adopt :: "nat \<Rightarrow> nat option \<Rightarrow> ref_world \<Rightarrow> ref_world outcome" where
  "ref_ctor_adopt r p w = Next (hv_set r (Some p) w)"

definition ref_dtor :: "nat \<Rightarrow> ref_world \<Rightarrow> ref_world outcome" where
  "ref_dtor r w =
     (case hw_vars w r of
        None \<Rightarrow> Disabled
      | Some None \<Rightarrow> Next (hv_set r None w)
      | Some (Some ob) \<Rightarrow> then_do (obj_rel rc_release_ref ob w) (\<lambda>u. Next (hv_set r None u)))"

definition ref_ctor_copy :: "nat \<Rightarrow> nat \<Rightarrow> ref_world \<Rightarrow> ref_world outcome" where
  "ref_ctor_copy r s w =
     (case hw_vars w s of None \<Rightarrow> Disabled | Some p \<Rightarrow> ref_add_if_valid p (hv_set r (Some p) w))"

text \<open>\<open>Release\<close>: the pointer, and the variable set to null.\<close>

definition ref_release :: "nat \<Rightarrow> ref_world \<Rightarrow> (nat option \<times> ref_world) option" where
  "ref_release s w = (case hw_vars w s of None \<Rightarrow> None | Some p \<Rightarrow> Some (p, hv_set s (Some None) w))"

definition ref_ctor_move :: "nat \<Rightarrow> nat \<Rightarrow> ref_world \<Rightarrow> ref_world outcome" where
  "ref_ctor_move r s w = (case ref_release s w of None \<Rightarrow> Disabled | Some (p, u) \<Rightarrow> Next (hv_set r (Some p) u))"

definition ref_swap :: "nat \<Rightarrow> nat \<Rightarrow> ref_world \<Rightarrow> ref_world outcome" where
  "ref_swap r t w =
     (case (hw_vars w r, hw_vars w t) of
        (Some a, Some b) \<Rightarrow> Next (hv_set t (Some a) (hv_set r (Some b) w))
      | _ \<Rightarrow> Disabled)"

text \<open>\<open>operator=\<close>: its parameter \<open>t\<close> is constructed from the source, swapped, and destroyed.\<close>

definition ref_assign_copy :: "nat \<Rightarrow> nat \<Rightarrow> nat \<Rightarrow> ref_world \<Rightarrow> ref_world outcome" where
  "ref_assign_copy r s t w = then_do (ref_ctor_copy t s w) (\<lambda>u. then_do (ref_swap r t u) (ref_dtor t))"

definition ref_assign_move :: "nat \<Rightarrow> nat \<Rightarrow> nat \<Rightarrow> ref_world \<Rightarrow> ref_world outcome" where
  "ref_assign_move r s t w = then_do (ref_ctor_move t s w) (\<lambda>u. then_do (ref_swap r t u) (ref_dtor t))"

definition ref_reset :: "nat \<Rightarrow> ref_world \<Rightarrow> ref_world outcome" where
  "ref_reset r w =
     (case hw_vars w r of
        None \<Rightarrow> Disabled
      | Some None \<Rightarrow> Next w
      | Some (Some ob) \<Rightarrow> then_do (obj_rel rc_release_ref ob w) (\<lambda>u. Next (hv_set r (Some None) u)))"

text \<open>
  The calls a program can make. A variable is constructed once; a raw pointer is turned into a \<open>Ref\<close> (or \<open>RefFromThis\<close>
  called) only while the object is alive; \<open>Adopt\<close> takes over a pointer that was released.
\<close>

datatype ref_op =
    RNew nat nat
  | RNull nat
  | RRaw nat nat
  | RCopy nat nat
  | RMove nat nat
  | RAssignCopy nat nat nat
  | RAssignMove nat nat nat
  | RReset nat
  | RDestroy nat
  | RRelease nat
  | RAdopt nat nat

fun ref_step :: "ref_op \<Rightarrow> ref_world \<Rightarrow> ref_world outcome" where
  "ref_step (RNew r ob) w =
     (if hw_vars w r = None \<and> hw_objs w ob = None
      then ref_ctor_adopt r (Some ob) (w\<lparr>hw_objs := (hw_objs w)(ob \<mapsto> rc_new True)\<rparr>) else Disabled)"
| "ref_step (RNull r) w = (if hw_vars w r = None then ref_ctor_raw r None w else Disabled)"
| "ref_step (RRaw r ob) w =
     (if hw_vars w r = None \<and> hw_objs w ob \<noteq> None then ref_ctor_raw r (Some ob) w else Disabled)"
| "ref_step (RCopy r s) w = (if hw_vars w r = None then ref_ctor_copy r s w else Disabled)"
| "ref_step (RMove r s) w = (if hw_vars w r = None then ref_ctor_move r s w else Disabled)"
| "ref_step (RAssignCopy r s t) w = (if hw_vars w t = None then ref_assign_copy r s t w else Disabled)"
| "ref_step (RAssignMove r s t) w = (if hw_vars w t = None then ref_assign_move r s t w else Disabled)"
| "ref_step (RReset r) w = ref_reset r w"
| "ref_step (RDestroy r) w = ref_dtor r w"
| "ref_step (RRelease r) w =
     (case ref_release r w of
        None \<Rightarrow> Disabled
      | Some (None, u) \<Rightarrow> Next u
      | Some (Some ob, u) \<Rightarrow> Next (u\<lparr>hw_raw := (hw_raw u)(ob := Suc (hw_raw u ob))\<rparr>))"
| "ref_step (RAdopt r ob) w =
     (case hw_raw w ob of
        0 \<Rightarrow> Disabled
      | Suc k \<Rightarrow> if hw_vars w r = None then ref_ctor_adopt r (Some ob) (w\<lparr>hw_raw := (hw_raw w)(ob := k)\<rparr>) else Disabled)"

interpretation rc: handle_counter rc_add_ref rc_release_ref "of_nat :: nat \<Rightarrow> u64" "2 ^ 63"
proof
  fix n :: nat assume n: "Suc (Suc n) \<le> 2 ^ 63"
  have "(of_nat (Suc (Suc n)) :: u64) \<noteq> 1" using refs_one_iff [of "Suc (Suc n)"] n by simp
  then show "rc_release_ref (of_nat (Suc (Suc n))) = Some (of_nat (Suc n))"
    by (simp add: rc_release_ref_def atomic_simps)
qed (simp_all add: rc_add_ref_def rc_release_ref_def atomic_simps)

lemma ref_release_lands:
  assumes I: "rc.hw_inv n w" and n: "n \<le> 2 ^ 63" and v: "no_object v"
    and r: "hw_vars w r = Some p"
  shows "lands_in (rc.hw_inv n) (case p of
      None \<Rightarrow> Next (hv_set r v w)
    | Some ob \<Rightarrow> then_do (obj_rel rc_release_ref ob w) (\<lambda>u. Next (hv_set r v u)))"
proof (cases p)
  case None
  with rc.hw_inv_neutral [OF I] r v show ?thesis by simp
next
  case (Some ob)
  with rc.hw_inv_release [OF I n _ v] r show ?thesis by simp
qed

lemma ref_dtor_lands:
  assumes "rc.hw_inv n w" "n \<le> 2 ^ 63"
  shows "lands_in (rc.hw_inv n) (ref_dtor r w)"
  using ref_release_lands [OF assms no_object_simps(1)] by (auto simp: ref_dtor_def split: option.splits)

lemma ref_copy_lands:
  assumes I: "rc.hw_inv n w" and n: "n < 2 ^ 63" and r: "hw_vars w r = None"
  shows "lands_in (rc.hw_inv (Suc n)) (ref_ctor_copy r s w)"
proof (cases "hw_vars w s")
  case None
  then show ?thesis by (simp add: ref_ctor_copy_def)
next
  case s: (Some p)
  show ?thesis
  proof (cases p)
    case None
    with s rc.hw_inv_neutral [OF I, of r "Some None"] r rc.hw_inv_mono [of n _ "Suc n"] show ?thesis
      by (simp add: ref_ctor_copy_def ref_add_if_valid_def)
  next
    case (Some ob)
    with s rc.hw_inv_acquire [OF I n, of r ob] rc.holder_owns [OF I] r show ?thesis
      by (simp add: ref_ctor_copy_def ref_add_if_valid_def)
  qed
qed

lemma ref_move_lands:
  assumes I: "rc.hw_inv n w" and r: "hw_vars w r = None"
  shows "lands_in (rc.hw_inv n) (ref_ctor_move r s w)"
proof (cases "hw_vars w s")
  case None
  then show ?thesis by (simp add: ref_ctor_move_def ref_release_def)
next
  case (Some p)
  have rs: "r \<noteq> s" using Some r by auto
  have "rc.hw_inv n (hv_set r (Some None) w)" using rc.hw_inv_neutral [OF I] r by simp
  from rc.hw_inv_swap [OF this, of s p r None] rs Some
  have "rc.hw_inv n (hv_set r (Some p) (hv_set s (Some None) (hv_set r (Some None) w)))" by simp
  moreover have "hv_set r (Some p) (hv_set s (Some None) (hv_set r (Some None) w)) = hv_set r (Some p) (hv_set s (Some None) w)"
    using rs by (simp add: hv_set_def fun_upd_twist)
  ultimately show ?thesis using Some by (simp add: ref_ctor_move_def ref_release_def)
qed

lemma ref_swap_lands: "rc.hw_inv n w \<Longrightarrow> lands_in (rc.hw_inv n) (ref_swap r t w)"
  using rc.hw_inv_swap by (auto simp: ref_swap_def split: option.splits)

lemma ref_step_lands:
  assumes I: "rc.hw_inv n w" and n: "n < 2 ^ 63"
  shows "lands_in (rc.hw_inv (Suc n)) (ref_step e w)"
proof -
  have up: "lands_in (rc.hw_inv n) m \<Longrightarrow> lands_in (rc.hw_inv (Suc n)) m" for m
    by (cases m) (simp_all add: rc.hw_inv_mono [of n _ "Suc n"])
  have n': "n \<le> 2 ^ 63" "Suc n \<le> 2 ^ 63" using n by simp_all
  show ?thesis
  proof (cases e)
    case (RNew r ob)
    with rc.hw_inv_new [OF I, of r ob] show ?thesis by (simp add: ref_ctor_adopt_def rc_new_def)
  next
    case (RNull r)
    with rc.hw_inv_neutral [OF I, of r "Some None"] show ?thesis
      by (simp add: ref_ctor_raw_def ref_add_if_valid_def rc.hw_inv_mono [of n _ "Suc n"])
  next
    case (RRaw r ob)
    with rc.hw_inv_acquire [OF I n, of r ob] rc.owned_alive [OF I, of ob] show ?thesis
      by (simp add: ref_ctor_raw_def ref_add_if_valid_def)
  next
    case (RCopy r s)
    with ref_copy_lands [OF I n] show ?thesis by simp
  next
    case (RMove r s)
    with ref_move_lands [OF I] show ?thesis by (auto intro!: up)
  next
    case (RAssignCopy r s t)
    have "lands_in (rc.hw_inv (Suc n)) (then_do (ref_ctor_copy t s w) (\<lambda>u. then_do (ref_swap r t u) (ref_dtor t)))"
      if "hw_vars w t = None"
      by (intro lands_in_then_do [OF ref_copy_lands [OF I n that]] lands_in_then_do [OF ref_swap_lands] ref_dtor_lands n')
    with RAssignCopy show ?thesis by (simp add: ref_assign_copy_def)
  next
    case (RAssignMove r s t)
    have "lands_in (rc.hw_inv n) (then_do (ref_ctor_move t s w) (\<lambda>u. then_do (ref_swap r t u) (ref_dtor t)))"
      if "hw_vars w t = None"
      by (intro lands_in_then_do [OF ref_move_lands [OF I that]] lands_in_then_do [OF ref_swap_lands] ref_dtor_lands n')
    with RAssignMove show ?thesis by (auto intro!: up simp: ref_assign_move_def)
  next
    case (RReset r)
    show ?thesis
    proof (cases "hw_vars w r")
      case (Some p)
      with ref_release_lands [OF I n'(1) no_object_simps(2) Some] RReset I show ?thesis
        by (intro up) (cases p, simp_all add: ref_reset_def)
    qed (simp add: RReset ref_reset_def)
  next
    case (RDestroy r)
    with up [OF ref_dtor_lands [OF I n'(1)]] show ?thesis by simp
  next
    case (RRelease r)
    show ?thesis
    proof (cases "hw_vars w r")
      case (Some p)
      show ?thesis
      proof (cases p)
        case None
        with Some RRelease rc.hw_inv_neutral [OF I, of r "Some None"] rc.hw_inv_mono [of n _ "Suc n"] show ?thesis
          by (simp add: ref_release_def)
      next
        case (Some ob)
        with \<open>hw_vars w r = Some p\<close> RRelease rc.hw_inv_detach [OF I, of r ob "Some None"] rc.hw_inv_mono [of n _ "Suc n"]
        show ?thesis by (simp add: ref_release_def hv_set_commute)
      qed
    qed (simp add: RRelease ref_release_def)
  next
    case (RAdopt r ob)
    show ?thesis
    proof (cases "hw_raw w ob")
      case (Suc k)
      with rc.hw_inv_attach [OF I _ Suc, of r] have "hw_vars w r = None \<Longrightarrow>
        rc.hw_inv (Suc n) (hv_set r (Some (Some ob)) (w\<lparr>hw_raw := (hw_raw w)(ob := k)\<rparr>))"
        by (intro rc.hw_inv_mono [of n _ "Suc n"]) simp_all
      with RAdopt Suc show ?thesis by (simp add: ref_ctor_adopt_def)
    qed (simp add: RAdopt)
  qed
qed

interpretation ref_machine: counted_machine ref_step handle_world_init rc.hw_inv "2 ^ 63"
  by (rule counted_machineI [OF rc.hw_inv_init ref_step_lands])

text \<open>
  C22. Whatever a program does with \<open>Ref\<close> variables (new, copies, moves, assignments to itself included, resets,
  released and adopted pointers): no object is used after it was freed, and at every moment an object is alive
  exactly if some variable or released pointer refers to it, with a counter that is their number.
\<close>

theorem ref_lifetime:
  assumes "length es \<le> 2 ^ 63"
  shows "case exec ref_step es handle_world_init of
      Next w \<Rightarrow> finite {r. hw_vars w r = Some (Some ob)} \<and>
        hw_objs w ob = (if hw_owners w ob = 0 then None else Some (of_nat (hw_owners w ob)))
    | Disabled \<Rightarrow> True
    | Fault x \<Rightarrow> False"
proof (cases "exec ref_step es handle_world_init")
  case (Next w)
  from ref_machine.cm_exec_inv [OF Next assms] have I: "rc.hw_inv (length es) w" .
  with rc.hw_invD(2) [OF I, of ob] finite_holders [OF rc.hw_invD(1) [OF I]] Next show ?thesis
    by (simp add: rc.hw_count_ok_def)
next
  case (Fault x)
  with ref_machine.cm_exec_no_fault [OF assms, of x] show ?thesis by simp
qed simp

lemmas ref_run_simps =
  ref_ctor_adopt_def ref_ctor_raw_def ref_ctor_copy_def ref_ctor_move_def ref_release_def ref_swap_def ref_dtor_def ref_reset_def
  ref_assign_copy_def ref_assign_move_def ref_add_if_valid_def obj_add_def obj_rel_def hv_set_def handle_world_init_def
  rc_new_def rc_add_ref_def rc_release_ref_def

theorem ref_lifetime_witness:
  "\<exists>w. exec ref_step [RNew 1 5, RCopy 2 1, RAssignCopy 1 1 9, RMove 3 2, RDestroy 1] handle_world_init = Next w \<and>
     hw_objs w 5 = Some 1"
proof -
  let ?es = "[RNew 1 5, RCopy 2 1, RAssignCopy 1 1 9, RMove 3 2, RDestroy 1]"
  obtain w where w: "exec ref_step ?es handle_world_init = Next w" and v: "hw_vars w = Map.empty(2 \<mapsto> None, 3 \<mapsto> Some 5)" "hw_raw w 5 = 0"
    by (simp add: ref_run_simps atomic_simps fun_upd_twist)
  have "{r. hw_vars w r = Some (Some 5)} = {3}" by (auto simp: v split: if_splits)
  then have "hw_owners w 5 = 1" by (simp add: hw_owners_def v(2))
  with ref_lifetime [of ?es 5] w show ?thesis by simp
qed

subsection \<open>SplitCount, ControlBlock and SharedPtr\<close>

record split_count =
  sc_transient :: i32
  sc_strong :: i32

definition sc_plus :: "split_count \<Rightarrow> split_count \<Rightarrow> split_count" where
  "sc_plus a b = \<lparr>sc_transient = sc_transient a + sc_transient b, sc_strong = sc_strong a + sc_strong b\<rparr>"

definition sc_times :: "split_count \<Rightarrow> i32 \<Rightarrow> split_count" where
  "sc_times a k = \<lparr>sc_transient = sc_transient a * k, sc_strong = sc_strong a * k\<rparr>"

definition sc_is_zero :: "split_count \<Rightarrow> bool" where
  "sc_is_zero a \<longleftrightarrow> sc_transient a = 0 \<and> sc_strong a = 0"

definition sc_one :: split_count where "sc_one = \<lparr>sc_transient = 1, sc_strong = 1\<rparr>"

text \<open>
  \<open>IncrementRefCount\<close>: an attempt that fails changes nothing, the one that succeeds adds \<open>delta\<close>; a sum of zero
  deletes the block (\<open>None\<close>) and with it the object.
\<close>

definition cb_increment :: "split_count \<Rightarrow> split_count \<Rightarrow> split_count option" where
  "cb_increment delta current =
     (let total = sc_plus current delta; (_, stored, _) = atomic_cas_weak False current current total in
      if sc_is_zero total then None else Some stored)"

definition cb_decrement :: "split_count \<Rightarrow> split_count \<Rightarrow> split_count option" where
  "cb_decrement delta current = cb_increment (sc_times delta (- 1)) current"

type_synonym sp_world = "(addr, split_count) handle_world"

definition shared_add :: "addr option \<Rightarrow> sp_world \<Rightarrow> sp_world outcome" where
  "shared_add p w = (case p of None \<Rightarrow> Next w | Some cb \<Rightarrow> obj_rel (cb_increment sc_one) cb w)"

text \<open>\<open>SharedPtr(T*)\<close>: \<open>cb\<close> is the address of the new control block.\<close>

definition shared_ctor :: "nat \<Rightarrow> addr \<Rightarrow> bool \<Rightarrow> sp_world \<Rightarrow> sp_world outcome" where
  "shared_ctor r cb nonnull w =
     (if nonnull
      then shared_add (Some cb) (hv_set r (Some (Some cb)) (w\<lparr>hw_objs := (hw_objs w)(cb \<mapsto> \<lparr>sc_transient = 0, sc_strong = 0\<rparr>)\<rparr>))
      else Next (hv_set r (Some None) w))"

definition shared_copy :: "nat \<Rightarrow> nat \<Rightarrow> sp_world \<Rightarrow> sp_world outcome" where
  "shared_copy r s w = (case hw_vars w s of None \<Rightarrow> Disabled | Some p \<Rightarrow> shared_add p (hv_set r (Some p) w))"

definition shared_swap :: "nat \<Rightarrow> nat \<Rightarrow> sp_world \<Rightarrow> sp_world outcome" where
  "shared_swap r s w =
     (case (hw_vars w r, hw_vars w s) of
        (Some a, Some b) \<Rightarrow> Next (hv_set s (Some a) (hv_set r (Some b) w))
      | _ \<Rightarrow> Disabled)"

definition shared_reset :: "nat \<Rightarrow> sp_world \<Rightarrow> sp_world outcome" where
  "shared_reset r w =
     (case hw_vars w r of
        None \<Rightarrow> Disabled
      | Some None \<Rightarrow> Next (hv_set r (Some None) w)
      | Some (Some cb) \<Rightarrow> then_do (obj_rel (cb_decrement sc_one) cb w) (\<lambda>u. Next (hv_set r (Some None) u)))"

definition shared_dtor :: "nat \<Rightarrow> sp_world \<Rightarrow> sp_world outcome" where
  "shared_dtor r w = then_do (shared_reset r w) (\<lambda>u. Next (hv_set r None u))"

definition shared_assign_copy :: "nat \<Rightarrow> nat \<Rightarrow> nat \<Rightarrow> sp_world \<Rightarrow> sp_world outcome" where
  "shared_assign_copy r s t w = then_do (shared_copy t s w) (\<lambda>u. then_do (shared_swap r t u) (shared_dtor t))"

definition shared_move :: "nat \<Rightarrow> nat \<Rightarrow> sp_world \<Rightarrow> sp_world outcome" where
  "shared_move r s w = shared_swap r s (hv_set r (Some None) w)"

definition shared_assign_move :: "nat \<Rightarrow> nat \<Rightarrow> sp_world \<Rightarrow> sp_world outcome" where
  "shared_assign_move r s w = shared_swap r s w"

definition shared_get :: "nat \<Rightarrow> sp_world \<Rightarrow> sp_world outcome" where
  "shared_get r w =
     (case hw_vars w r of
        None \<Rightarrow> Disabled
      | Some None \<Rightarrow> Fault NullDereference
      | Some (Some cb) \<Rightarrow> (if hw_objs w cb = None then Fault UseAfterFree else Next w))"

definition shared_bool :: "nat \<Rightarrow> sp_world \<Rightarrow> bool" where
  "shared_bool r w \<longleftrightarrow> (\<exists>cb. hw_vars w r = Some (Some cb))"

datatype shared_op =
    SNew nat addr bool
  | SCopy nat nat
  | SMove nat nat
  | SAssignCopy nat nat nat
  | SAssignMove nat nat
  | SReset nat
  | SDestroy nat
  | SGet nat

fun shared_step :: "shared_op \<Rightarrow> sp_world \<Rightarrow> sp_world outcome" where
  "shared_step (SNew r cb nonnull) w =
     (if hw_vars w r = None \<and> hw_objs w cb = None then shared_ctor r cb nonnull w else Disabled)"
| "shared_step (SCopy r s) w = (if hw_vars w r = None then shared_copy r s w else Disabled)"
| "shared_step (SMove r s) w = (if hw_vars w r = None then shared_move r s w else Disabled)"
| "shared_step (SAssignCopy r s t) w = (if hw_vars w t = None then shared_assign_copy r s t w else Disabled)"
| "shared_step (SAssignMove r s) w = shared_assign_move r s w"
| "shared_step (SReset r) w = shared_reset r w"
| "shared_step (SDestroy r) w = shared_dtor r w"
| "shared_step (SGet r) w = (if hw_vars w r = Some None then Disabled else shared_get r w)"

subsection \<open>The counter of a control block\<close>

definition sc_rep :: "nat \<Rightarrow> split_count" where
  "sc_rep n = \<lparr>sc_transient = of_nat n, sc_strong = of_nat n\<rparr>"

lemma i32_zero_iff: "m < 2 ^ 32 \<Longrightarrow> (of_nat m :: i32) = 0 \<longleftrightarrow> m = 0"
  by (auto simp: word_of_nat_eq_0_iff dest: nat_dvd_not_less)

lemma cb_increment_rep: "Suc n < 2 ^ 32 \<Longrightarrow> cb_increment sc_one (sc_rep n) = Some (sc_rep (Suc n))"
  using i32_zero_iff [of "Suc n"]
  by (simp add: cb_increment_def sc_one_def sc_rep_def sc_plus_def sc_is_zero_def atomic_simps add.commute)

lemma cb_decrement_rep:
  "n < 2 ^ 32 \<Longrightarrow> cb_decrement sc_one (sc_rep (Suc n)) = (if n = 0 then None else Some (sc_rep n))"
  using i32_zero_iff [of n]
  by (simp add: cb_decrement_def cb_increment_def sc_one_def sc_rep_def sc_plus_def sc_times_def sc_is_zero_def atomic_simps)

text \<open>Below $2^{31}$ references an increment never deletes, and the signed counters do not overflow.\<close>

definition cb_add :: "split_count \<Rightarrow> split_count" where
  "cb_add c = the (cb_increment sc_one c)"

interpretation cb: handle_counter cb_add "cb_decrement sc_one" sc_rep "2 ^ 31 - 1"
proof
  fix n :: nat assume "Suc n \<le> 2 ^ 31 - 1"
  then show "cb_add (sc_rep n) = sc_rep (Suc n)" by (simp add: cb_add_def cb_increment_rep)
next
  fix n :: nat assume "Suc (Suc n) \<le> 2 ^ 31 - 1"
  then show "cb_decrement sc_one (sc_rep (Suc (Suc n))) = Some (sc_rep (Suc n))" by (simp add: cb_decrement_rep)
qed (simp add: cb_decrement_rep)

lemma shared_add_is_add:
  assumes I: "cb.hw_inv n w" and n: "n < 2 ^ 31 - 1"
  shows "obj_rel (cb_increment sc_one) cb (hv_set r v w) = obj_add cb_add cb (hv_set r v w)"
proof (cases "hw_objs w cb")
  case None
  then show ?thesis by (simp add: obj_rel_def obj_add_def)
next
  case (Some c)
  with cb.hw_invD(2,3) [OF I, of cb] n have "c = sc_rep (hw_owners w cb)" "Suc (hw_owners w cb) < 2 ^ 32"
    by (auto simp: cb.hw_count_ok_def split: if_splits)
  with Some show ?thesis by (simp add: obj_rel_def obj_add_def cb_add_def cb_increment_rep)
qed

lemma shared_copy_lands:
  assumes I: "cb.hw_inv n w" and n: "n < 2 ^ 31 - 1" and r: "hw_vars w r = None"
  shows "lands_in (cb.hw_inv (Suc n)) (shared_copy r s w)"
proof (cases "hw_vars w s")
  case None
  then show ?thesis by (simp add: shared_copy_def)
next
  case s: (Some p)
  show ?thesis
  proof (cases p)
    case None
    with s cb.hw_inv_neutral [OF I, of r "Some None"] r cb.hw_inv_mono [of n _ "Suc n"] show ?thesis
      by (simp add: shared_copy_def shared_add_def)
  next
    case (Some cb)
    with s cb.hw_inv_acquire [OF I n, of r cb] cb.holder_owns [OF I] r shared_add_is_add [OF I n] show ?thesis
      by (simp add: shared_copy_def shared_add_def)
  qed
qed

lemma shared_swap_lands: "cb.hw_inv n w \<Longrightarrow> lands_in (cb.hw_inv n) (shared_swap r t w)"
  using cb.hw_inv_swap by (auto simp: shared_swap_def split: option.splits)

lemma shared_reset_lands:
  assumes I: "cb.hw_inv n w" and n: "n \<le> 2 ^ 31 - 1"
  shows "lands_in (\<lambda>u. cb.hw_inv n u \<and> hw_vars u r = Some None) (shared_reset r w)"
proof (cases "hw_vars w r")
  case None
  then show ?thesis by (simp add: shared_reset_def)
next
  case r: (Some p)
  show ?thesis
  proof (cases p)
    case None
    with r cb.hw_inv_neutral [OF I, of r "Some None"] show ?thesis by (simp add: shared_reset_def)
  next
    case (Some ob)
    let ?m = "then_do (obj_rel (cb_decrement sc_one) ob w) (\<lambda>u. Next (hv_set r (Some None) u))"
    have "lands_in (cb.hw_inv n) ?m" using cb.hw_inv_release [OF I n, of r ob "Some None"] r Some by simp
    moreover have "?m = Next u \<Longrightarrow> hw_vars u r = Some None" for u
      by (cases "obj_rel (cb_decrement sc_one) ob w") auto
    ultimately have "lands_in (\<lambda>u. cb.hw_inv n u \<and> hw_vars u r = Some None) ?m" by (cases ?m) simp_all
    with r Some show ?thesis by (simp add: shared_reset_def)
  qed
qed

lemma shared_dtor_lands:
  assumes I: "cb.hw_inv n w" and n: "n \<le> 2 ^ 31 - 1"
  shows "lands_in (cb.hw_inv n) (shared_dtor r w)"
  unfolding shared_dtor_def
  by (rule lands_in_then_do [OF shared_reset_lands [OF I n]]) (simp add: cb.hw_inv_neutral)

lemma shared_step_lands:
  assumes I: "cb.hw_inv n w" and n: "n < 2 ^ 31 - 1"
  shows "lands_in (cb.hw_inv (Suc n)) (shared_step e w)"
proof -
  have up: "lands_in (cb.hw_inv n) m \<Longrightarrow> lands_in (cb.hw_inv (Suc n)) m" for m
    by (cases m) (simp_all add: cb.hw_inv_mono [of n _ "Suc n"])
  have n': "n \<le> 2 ^ 31 - 1" "Suc n \<le> 2 ^ 31 - 1" using n by simp_all
  show ?thesis
  proof (cases e)
    case (SNew r cb nonnull)
    have z: "cb_increment sc_one \<lparr>sc_transient = 0, sc_strong = 0\<rparr> = Some (sc_rep 1)"
      using cb_increment_rep [of 0] by (simp add: sc_rep_def)
    have "lands_in (cb.hw_inv (Suc n)) (shared_ctor r cb nonnull w)" if "hw_vars w r = None" "hw_objs w cb = None"
    proof (cases nonnull)
      case True
      then have "shared_ctor r cb nonnull w = Next (hv_set r (Some (Some cb)) (w\<lparr>hw_objs := (hw_objs w)(cb \<mapsto> sc_rep 1)\<rparr>))"
        by (simp add: shared_ctor_def shared_add_def obj_rel_def z hv_set_def)
      with cb.hw_inv_new [OF I, of r cb] that show ?thesis by simp
    next
      case False
      with cb.hw_inv_neutral [OF I, of r "Some None"] that cb.hw_inv_mono [of n _ "Suc n"] show ?thesis
        by (simp add: shared_ctor_def)
    qed
    with SNew show ?thesis by simp
  next
    case (SCopy r s)
    with shared_copy_lands [OF I n] show ?thesis by simp
  next
    case (SMove r s)
    have "lands_in (cb.hw_inv n) (shared_move r s w)" if "hw_vars w r = None"
      unfolding shared_move_def by (rule shared_swap_lands) (simp add: that cb.hw_inv_neutral [OF I])
    with SMove show ?thesis by (simp add: up)
  next
    case (SAssignCopy r s t)
    have "lands_in (cb.hw_inv (Suc n)) (shared_assign_copy r s t w)" if "hw_vars w t = None"
      unfolding shared_assign_copy_def
      by (intro lands_in_then_do [OF shared_copy_lands [OF I n that]] lands_in_then_do [OF shared_swap_lands] shared_dtor_lands n')
    with SAssignCopy show ?thesis by simp
  next
    case (SAssignMove r s)
    with up [OF shared_swap_lands [OF I]] show ?thesis by (simp add: shared_assign_move_def)
  next
    case (SReset r)
    have "lands_in (cb.hw_inv n) (shared_reset r w)" by (rule lands_in_mono [OF shared_reset_lands [OF I n'(1)]]) simp
    with SReset show ?thesis by (simp add: up)
  next
    case (SDestroy r)
    with up [OF shared_dtor_lands [OF I n'(1)]] show ?thesis by simp
  next
    case (SGet r)
    have "lands_in (cb.hw_inv n) (shared_step e w)"
    proof (cases "\<exists>c. hw_vars w r = Some (Some c)")
      case True
      then obtain c where c: "hw_vars w r = Some (Some c)" by blast
      then have "hw_objs w c \<noteq> None" using cb.owned_alive [OF I, of c] cb.holder_owns [OF I c] by simp
      with SGet I c show ?thesis by (simp add: shared_get_def)
    next
      case False
      with SGet I show ?thesis by (cases "hw_vars w r") (auto simp: shared_get_def)
    qed
    then show ?thesis by (rule up)
  qed
qed

interpretation shared_machine: counted_machine shared_step handle_world_init cb.hw_inv "2 ^ 31 - 1"
  by (rule counted_machineI [OF cb.hw_inv_init shared_step_lands])

text \<open>
  C23. Whatever a program does with \<open>SharedPtr\<close> variables: dereferencing a non-null one never meets a freed object,
  and a control block is alive exactly while some variable refers to it; both halves of its counter are the number
  of these variables.
\<close>

theorem shared_ptr_lifetime:
  assumes "length es < 2 ^ 31"
  shows "case exec shared_step es handle_world_init of
      Next w \<Rightarrow> finite {r. hw_vars w r = Some (Some cb)} \<and>
        hw_objs w cb = (if hw_owners w cb = 0 then None else Some (sc_rep (hw_owners w cb)))
    | Disabled \<Rightarrow> True
    | Fault x \<Rightarrow> False"
proof -
  have b: "length es \<le> 2 ^ 31 - 1" using assms by simp
  show ?thesis
  proof (cases "exec shared_step es handle_world_init")
    case (Next w)
    from shared_machine.cm_exec_inv [OF Next b] have I: "cb.hw_inv (length es) w" .
    with cb.hw_invD(2) [OF I, of cb] finite_holders [OF cb.hw_invD(1) [OF I]] Next show ?thesis
      by (simp add: cb.hw_count_ok_def)
  next
    case (Fault x)
    with shared_machine.cm_exec_no_fault [OF b, of x] show ?thesis by simp
  qed simp
qed

lemmas shared_run_simps =
  shared_ctor_def shared_copy_def shared_add_def shared_move_def shared_swap_def shared_dtor_def shared_reset_def
  shared_assign_copy_def shared_assign_move_def shared_get_def obj_add_def obj_rel_def hv_set_def handle_world_init_def
  cb_increment_def cb_decrement_def sc_plus_def sc_times_def sc_one_def sc_is_zero_def

theorem shared_ptr_lifetime_witness:
  "\<exists>w. exec shared_step [SNew 1 64 True, SCopy 2 1, SMove 3 1, SDestroy 2, SGet 3] handle_world_init = Next w \<and>
     hw_objs w 64 = Some (sc_rep 1)"
proof -
  let ?es = "[SNew 1 64 True, SCopy 2 1, SMove 3 1, SDestroy 2, SGet 3]"
  obtain w where w: "exec shared_step ?es handle_world_init = Next w" and v: "hw_vars w = Map.empty(1 \<mapsto> None, 3 \<mapsto> Some 64)" "hw_raw w 64 = 0"
    by (simp add: shared_run_simps atomic_simps fun_upd_twist)
  have "{r. hw_vars w r = Some (Some 64)} = {3}" by (auto simp: v split: if_splits)
  then have "hw_owners w 64 = 1" by (simp add: hw_owners_def v(2))
  with shared_ptr_lifetime [of ?es 64] w show ?thesis by simp
qed

subsection \<open>AtomicSharedPtr\<close>

text \<open>
  One cell, used by one thread at a time: a compare-exchange then fails only spuriously, and the loop of \<open>AcquireRef\<close>
  ends with the attempt that does not. \<open>SyncRefCounts\<close> calls \<open>fetch_sub\<close>, which an atomic structure does not have:
  it cannot be instantiated.
\<close>

record atomic_world =
  aw_world :: sp_world
  aw_cell :: u64

definition stamped_null :: stamped where "stamped_null = \<lparr>sp_raw = 0, sp_stamp = 0\<rparr>"

definition atomic_world_init :: atomic_world where
  "atomic_world_init = \<lparr>aw_world = handle_world_init, aw_cell = asp_init stamped_null\<rparr>"

definition atomic_acquire_ref :: "u64 \<Rightarrow> stamped \<times> u64" where
  "atomic_acquire_ref cell =
     (let current = asp_load cell in
      if \<not> sp_bool current then (stamped_null, cell)
      else let next = sp_increment current in
        if sp_is_null next then (next, cell)
        else let (_, _, cell') = asp_cas_weak False current next cell in (next, cell'))"

definition cb_pointer :: "stamped \<Rightarrow> addr option" where
  "cb_pointer p = (if sp_raw p = 0 then None else Some (sp_raw p))"

definition atomic_shared_load :: "nat \<Rightarrow> atomic_world \<Rightarrow> atomic_world outcome" where
  "atomic_shared_load r a =
     (let (p, cell') = atomic_acquire_ref (aw_cell a) in
      Next (a\<lparr>aw_cell := cell', aw_world := hv_set r (Some (cb_pointer p)) (aw_world a)\<rparr>))"

text \<open>\<open>Store\<close>: its parameter \<open>t\<close> is a copy of the variable \<open>s\<close>.\<close>

definition atomic_shared_store :: "nat \<Rightarrow> nat \<Rightarrow> atomic_world \<Rightarrow> atomic_world outcome" where
  "atomic_shared_store s t a =
     then_do (shared_copy t s (aw_world a)) (\<lambda>w.
       case hw_vars w t of
         None \<Rightarrow> Disabled
       | Some None \<Rightarrow> Fault NullDereference
       | Some (Some cb) \<Rightarrow>
           let (old, cell') = asp_exchange \<lparr>sp_raw = cb, sp_stamp = 0\<rparr> (aw_cell a) in
           then_do (obj_rel (cb_increment sc_one) cb w) (\<lambda>w1.
           then_do (if \<not> sp_bool old then Next w1
                    else let n = ucast (sp_stamp old) in
                      obj_rel (cb_decrement \<lparr>sc_transient = n, sc_strong = n\<rparr>) (sp_raw old) w1) (\<lambda>w2.
           then_do (shared_dtor t w2) (\<lambda>w3. Next (a\<lparr>aw_world := w3, aw_cell := cell'\<rparr>)))))"

definition atomic_shared_cas_weak :: "atomic_world \<Rightarrow> bool \<times> atomic_world" where
  "atomic_shared_cas_weak a = (let (_, cell') = atomic_acquire_ref (aw_cell a) in (False, a\<lparr>aw_cell := cell'\<rparr>))"

datatype atomic_op = AShared shared_op | ALoad nat | AStore nat nat | ACas

fun atomic_shared_step :: "atomic_op \<Rightarrow> atomic_world \<Rightarrow> atomic_world outcome" where
  "atomic_shared_step (AShared e) a = then_do (shared_step e (aw_world a)) (\<lambda>w. Next (a\<lparr>aw_world := w\<rparr>))"
| "atomic_shared_step (ALoad r) a = (if hw_vars (aw_world a) r = None then atomic_shared_load r a else Disabled)"
| "atomic_shared_step (AStore s t) a = (if hw_vars (aw_world a) t = None then atomic_shared_store s t a else Disabled)"
| "atomic_shared_step ACas a = Next (snd (atomic_shared_cas_weak a))"

text \<open>
  \<open>AtomicSharedPtr::Load\<close> does not count the reference it hands out: when the loaded pointer is destroyed it
  frees the control block that the cell still holds, and the next \<open>Load\<close> returns a pointer to freed memory.
\<close>

theorem atomic_shared_ptr_frees_early:
  "exec atomic_shared_step
     [AShared (SNew 1 64 True), AStore 1 9, AShared (SDestroy 1), ALoad 2, AShared (SGet 2), AShared (SDestroy 2), ALoad 3,
      AShared (SGet 3)]
     atomic_world_init = Fault UseAfterFree"
proof -
  have pack: "pk_pack \<lparr>sp_raw = 64, sp_stamp = 0\<rparr> = 64" "pk_pack \<lparr>sp_raw = 64, sp_stamp = 1\<rparr> = 281474976710720"
    "pk_pack \<lparr>sp_raw = 64, sp_stamp = 2\<rparr> = 562949953421376" "pk_pack \<lparr>sp_raw = 0, sp_stamp = 0\<rparr> = 0"
    by (simp_all add: pk_pack_def pk_clear_free_bits_def pk_mask_def pk_shift_def pk_free_bits_def)
  have unpack: "pk_unpack 0 = \<lparr>sp_raw = 0, sp_stamp = 0\<rparr>" "pk_unpack 64 = \<lparr>sp_raw = 64, sp_stamp = 0\<rparr>"
    "pk_unpack 281474976710720 = \<lparr>sp_raw = 64, sp_stamp = 1\<rparr>"
    by (simp_all add: pk_unpack_def pk_get_raw_def pk_get_stamp_def pk_to_canonical_def pk_get_bit_def
        pk_clear_free_bits_def pk_mask_def pk_shift_def pk_free_bits_def)
  show ?thesis
    by (simp add: shared_run_simps atomic_world_init_def atomic_shared_load_def atomic_shared_store_def atomic_acquire_ref_def
        cb_pointer_def asp_init_def asp_load_def asp_exchange_def asp_cas_weak_def stamped_null_def sp_bool_def sp_increment_def
        sp_is_null_def pack unpack atomic_simps)
qed

text \<open>Storing a null pointer dereferences it.\<close>

lemma atomic_store_null:
  "exec atomic_shared_step [AShared (SNew 1 64 False), AStore 1 9] atomic_world_init = Fault NullDereference"
  by (simp add: shared_run_simps atomic_world_init_def atomic_shared_store_def)

end
