(* ===== verification/One_Shot_Event.thy ===== *)
theory One_Shot_Event
  imports Intrusive_List
begin

section \<open>The lock-free one-shot events and the wait groups\<close>

text \<open>
  \<open>fibers/sync/oneshotevent.h\<close>, \<open>fibers/sync/wait_group.h\<close> and their stackless twins \<open>coroutine/stackless/sync/oneshotevent.h\<close>,
  \<open>coroutine/stackless/sync/waitgroup.h\<close>. One word is \<open>0\<close> (no waiters), \<open>1\<close> (signaled) or the address of the latest
  waiter. \<open>Fire\<close> exchanges it for \<open>1\<close>, copies the chain of waiters into a list, and then wakes them one by one: a
  waiter that is woken leaves its call at once and its \<open>EventAwaiter\<close> dies.

  \<open>ev_handle\<close> holds the awaiters that are alive. \<open>ev_fired\<close> and \<open>ev_returned\<close> record that \<open>Fire\<close> was called and whose
  \<open>Wait\<close> has returned. \<open>Fire\<close> may be called again at any time; a call that starts while an earlier one is between its
  two exchanges is \<open>ev_overlap\<close>. The steps allow it, and \<open>event_double_fire_faults\<close> shows what it does; the
  properties are of the runs that avoid it.
\<close>

definition ev_no_waiters :: u64 where "ev_no_waiters = 0"
definition ev_signaled :: u64 where "ev_signaled = 1"

datatype 'l event_pc =
    EvIdle
  | EvLoad addr            \<comment> \<open>\<open>TryEnqueue\<close>: about to load \<open>state_\<close>\<close>
  | EvEnqueue addr u64     \<comment> \<open>it has linked the node: about to exchange\<close>
  | EvParked addr
  | EvTake                 \<comment> \<open>\<open>FireImpl\<close>: it has seen waiters: about to take them\<close>
  | EvWake 'l              \<comment> \<open>it wakes the waiters of this list\<close>

record 'l event =
  ev_state :: u64
  ev_links :: links
  ev_handle :: "addr \<Rightarrow> tid option"
  ev_pc :: "tid \<Rightarrow> 'l event_pc"
  ev_fired :: bool
  ev_returned :: "tid set"

datatype event_call = EvCallWait tid addr | EvCallFire tid | EvCallRun tid

definition event_init :: "'l event" where
  "event_init = \<lparr>ev_state = ev_no_waiters, ev_links = (\<lambda>_. 0), ev_handle = (\<lambda>_. None), ev_pc = (\<lambda>_. EvIdle),
     ev_fired = False, ev_returned = {}\<rparr>"

subsection \<open>The operations\<close>

definition ev_goto :: "tid \<Rightarrow> 'l event_pc \<Rightarrow> 'l event \<Rightarrow> 'l event" where
  "ev_goto t p s = s\<lparr>ev_pc := (ev_pc s)(t := p)\<rparr>"

definition ev_is_ready :: "'l event \<Rightarrow> bool" where
  "ev_is_ready s \<longleftrightarrow> ev_state s = ev_signaled"

definition ev_return :: "tid \<Rightarrow> 'l event \<Rightarrow> 'l event" where
  "ev_return t s = ev_goto t EvIdle (s\<lparr>ev_returned := insert t (ev_returned s)\<rparr>)"

text \<open>\<open>WaitAsync\<close>: the fast path, or a new awaiter at the address \<open>n\<close>.\<close>

definition ev_wait :: "tid \<Rightarrow> addr \<Rightarrow> 'l event \<Rightarrow> 'l event outcome" where
  "ev_wait t n s =
     (if ev_pc s t \<noteq> EvIdle \<or> n = 0 \<or> n = 1 \<or> ev_handle s n \<noteq> None then Disabled
      else if ev_is_ready s then Next (ev_return t s)
      else Next (ev_goto t (EvLoad n) (s\<lparr>ev_handle := (ev_handle s)(n := Some t)\<rparr>)))"

definition ev_try_enqueue :: "'l intrusive \<Rightarrow> tid \<Rightarrow> 'l event \<Rightarrow> 'l event outcome" where
  "ev_try_enqueue L t s =
     (case ev_pc s t of
        EvLoad n \<Rightarrow>
          (let state = ev_state s in
           if state = ev_signaled then Next (ev_return t (s\<lparr>ev_handle := (ev_handle s)(n := None)\<rparr>))
           else if state = ev_no_waiters
           then Next (ev_goto t (EvEnqueue n state) (s\<lparr>ev_links := il_reset_next L (ev_links s) n\<rparr>))
           else Next (ev_goto t (EvEnqueue n state) (s\<lparr>ev_links := il_set_next L (ev_links s) n state\<rparr>)))
      | EvEnqueue n state \<Rightarrow>
          (let (ok, st, _) = atomic_cas_strong (ev_state s) state n; s1 = s\<lparr>ev_state := st\<rparr> in
           if ok then Next (ev_goto t (EvParked n) s1) else Next (ev_goto t (EvLoad n) s1))
      | _ \<Rightarrow> Disabled)"

text \<open>\<open>CreateWaiterList\<close>; a head that is no awaiter is a pointer to nothing.\<close>

definition ev_create_waiter_list :: "'l intrusive \<Rightarrow> addr \<Rightarrow> 'l event \<Rightarrow> fault + ('l \<times> links)" where
  "ev_create_waiter_list L head s =
     (if head = 0 then Inl (AssertFailed ''head'')
      else if ev_handle s head = None then Inl UseAfterFree
      else case walk L (push_back_item L) head (ev_links s, il_new L) of
        None \<Rightarrow> Inl DivergentLoop
      | Some (h, l) \<Rightarrow> Inr (l, h))"

definition ev_fire :: "tid \<Rightarrow> 'l event \<Rightarrow> 'l event outcome" where
  "ev_fire t s =
     (if ev_pc s t \<noteq> EvIdle then Disabled
      else let (ok, st, seen) = atomic_cas_strong (ev_state s) ev_no_waiters ev_signaled; s1 = s\<lparr>ev_state := st, ev_fired := True\<rparr> in
        if ok then Next s1
        else if seen = ev_signaled then Next s1
        else Next (ev_goto t EvTake s1))"

definition ev_fire_impl :: "'l intrusive \<Rightarrow> tid \<Rightarrow> 'l event \<Rightarrow> 'l event outcome" where
  "ev_fire_impl L t s =
     (case ev_pc s t of
        EvTake \<Rightarrow>
          (let (head, st) = atomic_exchange (ev_state s) ev_signaled in
           case ev_create_waiter_list L head (s\<lparr>ev_state := st\<rparr>) of
             Inl x \<Rightarrow> Fault x
           | Inr (l, h) \<Rightarrow> Next (ev_goto t (EvWake l) (s\<lparr>ev_state := st, ev_links := h\<rparr>)))
      | EvWake l \<Rightarrow>
          (if \<not> il_has_items L l then Next (ev_goto t EvIdle s)
           else let (n, h, l') = il_pop_front L (ev_links s) l in
             case ev_handle s n of
               None \<Rightarrow> Fault UseAfterFree
             | Some u \<Rightarrow> Next (ev_goto t (EvWake l')
                 (ev_return u (s\<lparr>ev_links := h, ev_handle := (ev_handle s)(n := None)\<rparr>))))
      | _ \<Rightarrow> Disabled)"

fun event_step :: "'l intrusive \<Rightarrow> event_call \<Rightarrow> 'l event \<Rightarrow> 'l event outcome" where
  "event_step L (EvCallWait t n) s = ev_wait t n s"
| "event_step L (EvCallFire t) s = ev_fire t s"
| "event_step L (EvCallRun t) s =
     (case ev_pc s t of
        EvLoad _ \<Rightarrow> ev_try_enqueue L t s
      | EvEnqueue _ _ \<Rightarrow> ev_try_enqueue L t s
      | _ \<Rightarrow> ev_fire_impl L t s)"

text \<open>
  \<open>Fire\<close> is called while an earlier call has not made its second exchange: it was called, and the word does not say
  signaled yet.
\<close>

fun ev_overlap :: "event_call \<Rightarrow> 'l event \<Rightarrow> bool" where
  "ev_overlap (EvCallFire t) s \<longleftrightarrow> ev_fired s \<and> \<not> ev_is_ready s"
| "ev_overlap (EvCallWait t n) s \<longleftrightarrow> False"
| "ev_overlap (EvCallRun t) s \<longleftrightarrow> False"

lemmas [machine_simps] =
  ev_no_waiters_def ev_signaled_def event_init_def ev_goto_def ev_is_ready_def ev_return_def ev_wait_def
  ev_try_enqueue_def ev_create_waiter_list_def ev_fire_def ev_fire_impl_def

subsection \<open>The invariant\<close>

definition ev_top :: "u64 \<Rightarrow> addr" where
  "ev_top st = (if st = ev_signaled then 0 else st)"

lemma ev_top_simps [simp]: "ev_top 0 = 0" "ev_top 1 = 0" "st \<noteq> 1 \<Longrightarrow> ev_top st = st"
  by (auto simp: ev_top_def ev_signaled_def)

fun ev_firing :: "'l event_pc \<Rightarrow> bool" where
  "ev_firing EvTake = True"
| "ev_firing (EvWake _) = True"
| "ev_firing _ = False"

definition ev_alive :: "'l event \<Rightarrow> tid \<Rightarrow> addr \<Rightarrow> bool" where
  "ev_alive s t n \<longleftrightarrow> ev_handle s n = Some t \<and> n \<noteq> 0 \<and> n \<noteq> 1"

text \<open>\<open>xs\<close>: the waiters the word leads to; \<open>ys\<close>: those in the list of the fiber that fires.\<close>

fun ev_pc_ok :: "(links \<Rightarrow> 'l \<Rightarrow> addr list \<Rightarrow> bool) \<Rightarrow> addr list \<Rightarrow> addr list \<Rightarrow> 'l event \<Rightarrow> tid \<Rightarrow> 'l event_pc \<Rightarrow> bool" where
  "ev_pc_ok rep xs ys s t EvIdle \<longleftrightarrow> True"
| "ev_pc_ok rep xs ys s t (EvLoad n) \<longleftrightarrow> ev_alive s t n"
| "ev_pc_ok rep xs ys s t (EvEnqueue n st) \<longleftrightarrow> ev_alive s t n \<and> st \<noteq> 1 \<and> ev_links s n = st"
| "ev_pc_ok rep xs ys s t (EvParked n) \<longleftrightarrow> ev_alive s t n \<and> n \<in> set (xs @ ys)"
| "ev_pc_ok rep xs ys s t EvTake \<longleftrightarrow> ev_state s \<noteq> 0 \<and> ev_state s \<noteq> 1"
| "ev_pc_ok rep xs ys s t (EvWake l) \<longleftrightarrow> ev_state s = 1 \<and> rep (ev_links s) l ys"

text \<open>\<open>f\<close>: the fiber that is in \<open>Fire\<close>, if one is.\<close>

definition ev_fire_ok :: "tid option \<Rightarrow> 'l event \<Rightarrow> bool" where
  "ev_fire_ok f s \<longleftrightarrow>
     (\<forall>t. ev_firing (ev_pc s t) \<longleftrightarrow> f = Some t) \<and>
     (ev_state s = 1 \<or> f \<noteq> None \<longrightarrow> ev_fired s) \<and> (ev_fired s \<and> f = None \<longrightarrow> ev_state s = 1) \<and>
     (ev_returned s \<noteq> {} \<longrightarrow> ev_state s = 1)"

definition ev_waiters_ok :: "addr list \<Rightarrow> addr list \<Rightarrow> 'l event \<Rightarrow> bool" where
  "ev_waiters_ok xs ys s \<longleftrightarrow>
     chain (ev_links s) (ev_top (ev_state s)) xs \<and> distinct (xs @ ys) \<and>
     (\<forall>n\<in>set (xs @ ys). \<exists>u. ev_handle s n = Some u \<and> ev_pc s u = EvParked n)"

definition ev_list_ok :: "tid option \<Rightarrow> addr list \<Rightarrow> 'l event \<Rightarrow> bool" where
  "ev_list_ok f ys s \<longleftrightarrow> ys = [] \<or> (\<exists>t l. f = Some t \<and> ev_pc s t = EvWake l)"

definition event_inv_with :: "(links \<Rightarrow> 'l \<Rightarrow> addr list \<Rightarrow> bool) \<Rightarrow> tid option \<Rightarrow> addr list \<Rightarrow> addr list \<Rightarrow> 'l event \<Rightarrow> bool" where
  "event_inv_with rep f xs ys s \<longleftrightarrow>
     ev_fire_ok f s \<and> ev_waiters_ok xs ys s \<and> ev_list_ok f ys s \<and> (\<forall>t. ev_pc_ok rep xs ys s t (ev_pc s t))"

definition event_inv :: "(links \<Rightarrow> 'l \<Rightarrow> addr list \<Rightarrow> bool) \<Rightarrow> 'l event \<Rightarrow> bool" where
  "event_inv rep s \<longleftrightarrow> (\<exists>f xs ys. event_inv_with rep f xs ys s)"

lemma event_invI: "event_inv_with rep f xs ys s \<Longrightarrow> event_inv rep s"
  by (auto simp: event_inv_def)

lemma evI:
  assumes "event_inv_with rep f xs ys s"
  shows "ev_fire_ok f s" "ev_waiters_ok xs ys s" "ev_list_ok f ys s" "ev_pc_ok rep xs ys s t (ev_pc s t)"
  using assms by (simp_all add: event_inv_with_def)

lemma ev_firing_iff: "event_inv_with rep f xs ys s \<Longrightarrow> ev_firing (ev_pc s t) \<longleftrightarrow> f = Some t"
  using evI(1) [of rep f xs ys s] unfolding ev_fire_ok_def by blast

lemma ev_parked: "event_inv_with rep f xs ys s \<Longrightarrow> n \<in> set (xs @ ys) \<Longrightarrow> \<exists>u. ev_handle s n = Some u \<and> ev_pc s u = EvParked n"
  using evI(2) unfolding ev_waiters_ok_def by blast

text \<open>An awaiter that is alive and not parked is in neither list.\<close>

lemma ev_not_listed:
  assumes "event_inv_with rep f xs ys s" "ev_alive s t n" "ev_pc s t \<noteq> EvParked n"
  shows "n \<notin> set xs" "n \<notin> set ys"
  using ev_parked [OF assms(1), of n] assms(2,3) by (auto simp: ev_alive_def)

lemma ev_alive_own: "ev_alive s t n \<Longrightarrow> ev_alive s u n \<Longrightarrow> t = u"
  by (auto simp: ev_alive_def)

text \<open>What the steps of one fiber must keep for the others.\<close>

lemma ev_pc_ok_stable:
  assumes "ev_pc_ok rep xs ys s t p"
    and "\<And>n. ev_alive s t n \<Longrightarrow> ev_handle s' n = ev_handle s n"
    and "\<And>n st. p = EvEnqueue n st \<Longrightarrow> ev_alive s t n \<Longrightarrow> ev_links s' n = ev_links s n"
    and "\<And>n. p = EvParked n \<Longrightarrow> n \<in> set (xs @ ys) \<Longrightarrow> n \<in> set (xs' @ ys')"
    and "p = EvTake \<Longrightarrow> ev_state s' = 0 \<or> ev_state s' = 1 \<Longrightarrow> ev_state s = 0 \<or> ev_state s = 1"
    and "\<And>l. p = EvWake l \<Longrightarrow> ev_state s' = ev_state s \<and> (rep (ev_links s) l ys \<longrightarrow> rep (ev_links s') l ys')"
  shows "ev_pc_ok rep xs' ys' s' t p"
  using assms by (cases p) (auto simp: ev_alive_def)

lemma ev_list_ok_move:
  assumes "ev_list_ok f ys s" "ev_pc s' = (ev_pc s)(t := p)" "\<not> ev_firing (ev_pc s t)"
  shows "ev_list_ok f ys s'"
proof -
  have "u \<noteq> t" if "ev_pc s u = EvWake l" for u l using that assms(3) by auto
  with assms show ?thesis unfolding ev_list_ok_def by fastforce
qed

lemma ev_parked_move:
  assumes I: "event_inv_with rep f xs ys s" and A: "n \<in> set (xs @ ys)"
    and pc: "ev_pc s' = (ev_pc s)(t := p)" "\<And>m. ev_pc s t \<noteq> EvParked m" and h: "ev_handle s' n = ev_handle s n"
  shows "\<exists>u. ev_handle s' n = Some u \<and> ev_pc s' u = EvParked n"
proof -
  obtain u where u: "ev_handle s n = Some u" "ev_pc s u = EvParked n" using ev_parked [OF I A] by blast
  then have "u \<noteq> t" using pc(2) by auto
  with u pc h show ?thesis by simp
qed

lemma event_moveI:
  assumes I: "event_inv_with rep f xs ys s" and pc: "ev_pc s' = (ev_pc s)(t := p)"
    and new: "ev_fire_ok f' s'" "ev_waiters_ok xs' ys' s'" "ev_list_ok f' ys' s'" "ev_pc_ok rep xs' ys' s' t p"
    and handle: "\<And>u n. u \<noteq> t \<Longrightarrow> ev_alive s u n \<Longrightarrow> ev_handle s' n = ev_handle s n"
    and links: "\<And>u n st. u \<noteq> t \<Longrightarrow> ev_pc s u = EvEnqueue n st \<Longrightarrow> ev_alive s u n \<Longrightarrow> ev_links s' n = ev_links s n"
    and parked: "\<And>n. n \<in> set (xs @ ys) \<Longrightarrow> n \<in> set (xs' @ ys')"
    and take: "\<And>u. u \<noteq> t \<Longrightarrow> ev_pc s u = EvTake \<Longrightarrow> ev_state s' = 0 \<or> ev_state s' = 1 \<Longrightarrow> ev_state s = 0 \<or> ev_state s = 1"
    and wake: "\<And>u l. u \<noteq> t \<Longrightarrow> ev_pc s u = EvWake l \<Longrightarrow>
      ev_state s' = ev_state s \<and> (rep (ev_links s) l ys \<longrightarrow> rep (ev_links s') l ys')"
  shows "event_inv_with rep f' xs' ys' s'"
  unfolding event_inv_with_def
proof (intro conjI allI)
  fix u
  show "ev_pc_ok rep xs' ys' s' u (ev_pc s' u)"
  proof (cases "u = t")
    case False
    have "ev_pc_ok rep xs' ys' s' u (ev_pc s u)"
      by (rule ev_pc_ok_stable [OF evI(4) [OF I, of u]]) (use False handle links parked take wake in auto)
    with False show ?thesis by (simp add: pc)
  qed (simp add: pc new)
qed (rule new)+

context intrusive_list
begin

lemma ev_same_lists:
  assumes "ev_waiters_ok xs ys s" "ev_links s' = ev_links s" "ev_state s' = ev_state s"
    and "\<And>n u. n \<in> set (xs @ ys) \<Longrightarrow> ev_handle s n = Some u \<Longrightarrow> ev_pc s u = EvParked n \<Longrightarrow> ev_handle s' n = Some u \<and> ev_pc s' u = EvParked n"
  shows "ev_waiters_ok xs ys s'"
  using assms unfolding ev_waiters_ok_def by (metis (no_types, lifting))

lemma event_inv_fast:
  assumes I: "event_inv_with rep f xs ys s" and t: "ev_pc s t = EvIdle" and r: "ev_state s = 1"
  shows "event_inv_with rep f xs ys (ev_return t s)"
proof (rule event_moveI [OF I, where t = t and p = EvIdle])
  show "ev_fire_ok f (ev_return t s)" using evI(1) [OF I] ev_firing_iff [OF I, of t] t r
    unfolding ev_fire_ok_def by (auto simp: ev_return_def ev_goto_def)
  show "ev_waiters_ok xs ys (ev_return t s)"
    by (rule ev_same_lists [OF evI(2) [OF I]]) (use t in \<open>auto simp: ev_return_def ev_goto_def\<close>)
  show "ev_list_ok f ys (ev_return t s)" by (rule ev_list_ok_move [OF evI(3) [OF I], where t = t]) (simp_all add: t ev_return_def ev_goto_def)
qed (use t in \<open>auto simp: ev_return_def ev_goto_def\<close>)

lemma event_inv_new_awaiter:
  assumes I: "event_inv_with rep f xs ys s" and t: "ev_pc s t = EvIdle" and n: "n \<noteq> 0" "n \<noteq> 1" "ev_handle s n = None"
  shows "event_inv_with rep f xs ys (ev_goto t (EvLoad n) (s\<lparr>ev_handle := (ev_handle s)(n := Some t)\<rparr>))"
    (is "event_inv_with rep f xs ys ?s")
proof (rule event_moveI [OF I, where t = t and p = "EvLoad n"])
  show "ev_fire_ok f ?s" using evI(1) [OF I] ev_firing_iff [OF I, of t] t unfolding ev_fire_ok_def by (auto simp: ev_goto_def)
  show "ev_waiters_ok xs ys ?s"
    by (rule ev_same_lists [OF evI(2) [OF I]]) (use t n in \<open>auto simp: ev_goto_def\<close>)
  show "ev_list_ok f ys ?s" by (rule ev_list_ok_move [OF evI(3) [OF I], where t = t]) (simp_all add: t ev_goto_def)
qed (use t n in \<open>auto simp: ev_goto_def ev_alive_def\<close>)

lemma event_inv_signaled:
  assumes I: "event_inv_with rep f xs ys s" and t: "ev_pc s t = EvLoad n" and r: "ev_state s = 1"
  shows "event_inv_with rep f xs ys (ev_return t (s\<lparr>ev_handle := (ev_handle s)(n := None)\<rparr>))"
    (is "event_inv_with rep f xs ys ?s")
proof -
  have a: "ev_alive s t n" using evI(4) [OF I, of t] t by simp
  have nl: "n \<notin> set xs" "n \<notin> set ys" using ev_not_listed [OF I a] t by auto
  show ?thesis
  proof (rule event_moveI [OF I, where t = t and p = EvIdle])
    show "ev_fire_ok f ?s" using evI(1) [OF I] ev_firing_iff [OF I, of t] t r unfolding ev_fire_ok_def by (auto simp: ev_return_def ev_goto_def)
    show "ev_waiters_ok xs ys ?s"
      by (rule ev_same_lists [OF evI(2) [OF I]]) (use t nl in \<open>auto simp: ev_return_def ev_goto_def\<close>)
    show "ev_list_ok f ys ?s" by (rule ev_list_ok_move [OF evI(3) [OF I], where t = t]) (simp_all add: t ev_return_def ev_goto_def)
  next
    fix u m assume "u \<noteq> t" "ev_alive s u m"
    with a ev_alive_own [of s t n u] show "ev_handle ?s m = ev_handle s m" by (auto simp: ev_return_def ev_goto_def)
  qed (use t in \<open>auto simp: ev_return_def ev_goto_def\<close>)
qed

lemma event_inv_link:
  assumes I: "event_inv_with rep f xs ys s" and t: "ev_pc s t = EvLoad n" and r: "ev_state s \<noteq> 1"
  shows "event_inv_with rep f xs ys (ev_goto t (EvEnqueue n (ev_state s)) (s\<lparr>ev_links := (ev_links s)(n := ev_state s)\<rparr>))"
    (is "event_inv_with rep f xs ys ?s")
proof -
  have a: "ev_alive s t n" using evI(4) [OF I, of t] t by simp
  have nl: "n \<notin> set xs" "n \<notin> set ys" using ev_not_listed [OF I a] t by auto
  show ?thesis
  proof (rule event_moveI [OF I, where t = t and p = "EvEnqueue n (ev_state s)"])
    show "ev_fire_ok f ?s" using evI(1) [OF I] ev_firing_iff [OF I, of t] t unfolding ev_fire_ok_def by (auto simp: ev_goto_def)
    have "\<exists>u. ev_handle ?s m = Some u \<and> ev_pc ?s u = EvParked m" if "m \<in> set (xs @ ys)" for m
      by (rule ev_parked_move [OF I that, where t = t]) (simp_all add: t ev_goto_def)
    with evI(2) [OF I] nl show "ev_waiters_ok xs ys ?s" by (simp add: ev_waiters_ok_def ev_goto_def)
    show "ev_list_ok f ys ?s" by (rule ev_list_ok_move [OF evI(3) [OF I], where t = t]) (simp_all add: t ev_goto_def)
    show "ev_pc_ok rep xs ys ?s t (EvEnqueue n (ev_state s))" using a r by (simp add: ev_goto_def ev_alive_def)
  next
    fix u m st assume "u \<noteq> t" "ev_alive s u m"
    with a ev_alive_own [of s t n u] show "ev_links ?s m = ev_links s m" by (auto simp: ev_goto_def)
  next
    fix u l assume "u \<noteq> t"
    show "ev_state ?s = ev_state s \<and> (rep (ev_links s) l ys \<longrightarrow> rep (ev_links ?s) l ys)"
      using rep_frame_upd nl by (simp add: ev_goto_def)
  qed (use t in \<open>auto simp: ev_goto_def\<close>)
qed

lemma event_inv_enqueue:
  assumes I: "event_inv_with rep f xs ys s" and t: "ev_pc s t = EvEnqueue n (ev_state s)"
  shows "event_inv_with rep f (n # xs) ys (ev_goto t (EvParked n) (s\<lparr>ev_state := n\<rparr>))"
    (is "event_inv_with rep f _ ys ?s")
proof -
  have a: "ev_alive s t n" "ev_state s \<noteq> 1" "ev_links s n = ev_state s" using evI(4) [OF I, of t] t by simp_all
  have nl: "n \<notin> set xs" "n \<notin> set ys" using ev_not_listed [OF I a(1)] t by auto
  have n: "n \<noteq> 0" "n \<noteq> 1" "ev_handle s n = Some t" using a(1) by (simp_all add: ev_alive_def)
  show ?thesis
  proof (rule event_moveI [OF I, where t = t and p = "EvParked n"])
    show "ev_fire_ok f ?s" using evI(1) [OF I] ev_firing_iff [OF I, of t] t a(2) n unfolding ev_fire_ok_def by (auto simp: ev_goto_def)
    have "\<exists>u. ev_handle ?s m = Some u \<and> ev_pc ?s u = EvParked m" if "m \<in> set (xs @ ys)" for m
      by (rule ev_parked_move [OF I that, where t = t]) (simp_all add: t ev_goto_def)
    moreover have "ev_handle ?s n = Some t \<and> ev_pc ?s t = EvParked n" using n by (simp add: ev_goto_def)
    ultimately have "\<exists>u. ev_handle ?s m = Some u \<and> ev_pc ?s u = EvParked m" if "m \<in> set ((n # xs) @ ys)" for m
      using that by auto
    with evI(2) [OF I] nl n a show "ev_waiters_ok (n # xs) ys ?s" by (simp add: ev_waiters_ok_def ev_goto_def)
    show "ev_list_ok f ys ?s" by (rule ev_list_ok_move [OF evI(3) [OF I], where t = t]) (simp_all add: t ev_goto_def)
    show "ev_pc_ok rep (n # xs) ys ?s t (EvParked n)" using a by (simp add: ev_goto_def ev_alive_def)
  next
    fix u l assume "u \<noteq> t" "ev_pc s u = EvWake l"
    with evI(4) [OF I, of u] a(2) show "ev_state ?s = ev_state s \<and> (rep (ev_links s) l ys \<longrightarrow> rep (ev_links ?s) l ys)" by simp
  qed (use t n in \<open>auto simp: ev_goto_def\<close>)
qed

lemma event_inv_retry:
  assumes I: "event_inv_with rep f xs ys s" and t: "ev_pc s t = EvEnqueue n st"
  shows "event_inv_with rep f xs ys (ev_goto t (EvLoad n) s)" (is "event_inv_with rep f xs ys ?s")
proof (rule event_moveI [OF I, where t = t and p = "EvLoad n"])
  show "ev_fire_ok f ?s" using evI(1) [OF I] ev_firing_iff [OF I, of t] t unfolding ev_fire_ok_def by (auto simp: ev_goto_def)
  show "ev_waiters_ok xs ys ?s"
    by (rule ev_same_lists [OF evI(2) [OF I]]) (use t in \<open>auto simp: ev_goto_def\<close>)
  show "ev_list_ok f ys ?s" by (rule ev_list_ok_move [OF evI(3) [OF I], where t = t]) (simp_all add: t ev_goto_def)
qed (use t evI(4) [OF I, of t] in \<open>auto simp: ev_goto_def ev_alive_def\<close>)

lemma event_inv_fire:
  assumes I: "event_inv_with rep f xs ys s" and t: "ev_pc s t = EvIdle" and once: "\<not> ev_fired s"
  shows "if ev_state s = 0 then event_inv_with rep None xs ys (s\<lparr>ev_state := 1, ev_fired := True\<rparr>)
    else ev_state s \<noteq> 1 \<and> event_inv_with rep (Some t) xs ys (ev_goto t EvTake (s\<lparr>ev_state := ev_state s, ev_fired := True\<rparr>))"
proof -
  have f: "f = None" "ev_state s \<noteq> 1" using evI(1) [OF I] once unfolding ev_fire_ok_def by auto
  then have ys: "ys = []" using evI(3) [OF I] by (simp add: ev_list_ok_def)
  have nf: "\<not> ev_firing (ev_pc s u)" for u using ev_firing_iff [OF I, of u] f by simp
  show ?thesis
  proof (cases "ev_state s = 0")
    case True
    let ?s = "s\<lparr>ev_state := 1, ev_fired := True\<rparr>"
    have xs: "xs = []" using evI(2) [OF I] True by (simp add: ev_waiters_ok_def)
    have "event_inv_with rep None xs ys ?s"
    proof (rule event_moveI [OF I, where t = t and p = EvIdle])
      show "ev_fire_ok None ?s" using evI(1) [OF I] nf unfolding ev_fire_ok_def by simp
      show "ev_waiters_ok xs ys ?s" using xs ys by (simp add: ev_waiters_ok_def)
      show "ev_list_ok None ys ?s" using ys by (simp add: ev_list_ok_def)
    next
      fix u assume "ev_pc s u = EvTake"
      with nf [of u] show "ev_state s = 0 \<or> ev_state s = 1" by simp
    next
      fix u l assume "ev_pc s u = EvWake l"
      with nf [of u] show "ev_state ?s = ev_state s \<and> (rep (ev_links s) l ys \<longrightarrow> rep (ev_links ?s) l ys)" by simp
    qed (use t in auto)
    with True show ?thesis by simp
  next
    case False
    let ?s = "ev_goto t EvTake (s\<lparr>ev_state := ev_state s, ev_fired := True\<rparr>)"
    have "event_inv_with rep (Some t) xs ys ?s"
    proof (rule event_moveI [OF I, where t = t and p = EvTake])
      show "ev_fire_ok (Some t) ?s" using evI(1) [OF I] nf f unfolding ev_fire_ok_def by (auto simp: ev_goto_def)
      show "ev_waiters_ok xs ys ?s"
        by (rule ev_same_lists [OF evI(2) [OF I]]) (use t in \<open>auto simp: ev_goto_def\<close>)
      show "ev_list_ok (Some t) ys ?s" using ys by (simp add: ev_list_ok_def)
    qed (use t f False in \<open>auto simp: ev_goto_def\<close>)
    with False f show ?thesis by simp
  qed
qed

lemma event_inv_take:
  assumes I: "event_inv_with rep f xs ys s" and t: "ev_pc s t = EvTake"
  shows "\<exists>h l. ev_create_waiter_list L (ev_state s) (s\<lparr>ev_state := 1\<rparr>) = Inr (l, h) \<and>
    event_inv_with rep (Some t) [] xs (ev_goto t (EvWake l) (s\<lparr>ev_state := 1, ev_links := h\<rparr>))"
proof -
  have f: "f = Some t" using ev_firing_iff [OF I, of t] t by simp
  have st: "ev_state s \<noteq> 0" "ev_state s \<noteq> 1" using evI(4) [OF I, of t] t by simp_all
  have ys: "ys = []" using evI(3) [OF I] f t by (auto simp: ev_list_ok_def)
  have c: "chain (ev_links s) (ev_state s) xs" "distinct xs" using evI(2) [OF I] st by (simp_all add: ev_waiters_ok_def)
  then obtain zs where xs: "xs = ev_state s # zs" using chain_start st by blast
  then have al: "ev_handle s (ev_state s) \<noteq> None" using ev_parked [OF I, of "ev_state s"] by auto
  obtain h l where w: "walk L (push_back_item L) (ev_state s) (ev_links s, il_new L) = Some (h, l)"
      "rep h l xs" "\<And>a. a \<notin> set xs \<Longrightarrow> h a = ev_links s a"
    using walk_push_back [OF c(1) rep_new] by auto
  let ?s = "ev_goto t (EvWake l) (s\<lparr>ev_state := 1, ev_links := h\<rparr>)"
  have "event_inv_with rep (Some t) [] xs ?s"
  proof (rule event_moveI [OF I, where t = t and p = "EvWake l"])
    show "ev_fire_ok (Some t) ?s" using evI(1) [OF I] f t unfolding ev_fire_ok_def by (auto simp: ev_goto_def)
    show "ev_waiters_ok [] xs ?s"
    proof -
      have "\<exists>u. ev_handle ?s n = Some u \<and> ev_pc ?s u = EvParked n" if "n \<in> set xs" for n
        by (rule ev_parked_move [OF I, where t = t]) (use that in \<open>simp_all add: t ev_goto_def\<close>)
      with c(2) show ?thesis by (simp add: ev_waiters_ok_def ev_goto_def)
    qed
    show "ev_list_ok (Some t) xs ?s" by (simp add: ev_list_ok_def ev_goto_def)
    show "ev_pc_ok rep [] xs ?s t (EvWake l)" using w(2) by (simp add: ev_goto_def)
  next
    fix u n st assume "ev_pc s u = EvEnqueue n st" "ev_alive s u n"
    then have "n \<notin> set xs" using ev_not_listed [OF I] by auto
    then show "ev_links ?s n = ev_links s n" using w(3) by (simp add: ev_goto_def)
  next
    fix u assume "u \<noteq> t" "ev_pc s u = EvTake"
    then show "ev_state s = 0 \<or> ev_state s = 1" using ev_firing_iff [OF I, of u] f by simp
  next
    fix u l' assume "u \<noteq> t" "ev_pc s u = EvWake l'"
    then show "ev_state ?s = ev_state s \<and> (rep (ev_links s) l' ys \<longrightarrow> rep (ev_links ?s) l' xs)"
      using ev_firing_iff [OF I, of u] f by simp
  qed (auto simp: ev_goto_def ys)
  moreover have "ev_create_waiter_list L (ev_state s) (s\<lparr>ev_state := 1\<rparr>) = Inr (l, h)"
    using st al w(1) by (auto simp: ev_create_waiter_list_def)
  ultimately show ?thesis by blast
qed

lemma event_inv_fired:
  assumes I: "event_inv_with rep f xs [] s" and t: "ev_pc s t = EvWake l"
  shows "event_inv_with rep None xs [] (ev_goto t EvIdle s)" (is "event_inv_with rep None xs [] ?s")
proof (rule event_moveI [OF I, where t = t and p = EvIdle])
  have f: "f = Some t" "ev_state s = 1" using ev_firing_iff [OF I, of t] evI(4) [OF I, of t] t by simp_all
  show "ev_fire_ok None ?s" using evI(1) [OF I] f unfolding ev_fire_ok_def by (auto simp: ev_goto_def)
  show "ev_waiters_ok xs [] ?s"
    by (rule ev_same_lists [OF evI(2) [OF I]]) (use t in \<open>auto simp: ev_goto_def\<close>)
  show "ev_list_ok None [] ?s" by (simp add: ev_list_ok_def)
qed (auto simp: ev_goto_def)

lemma event_inv_wake:
  assumes I: "event_inv_with rep f xs (n # ys) s" and t: "ev_pc s t = EvWake l"
    and pop: "il_pop_front L (ev_links s) l = (m, h, l')"
  shows "m = n \<and> (\<exists>u. ev_handle s n = Some u \<and> ev_pc s u = EvParked n \<and> event_inv_with rep f xs ys
    (ev_goto t (EvWake l') (ev_return u (s\<lparr>ev_links := h, ev_handle := (ev_handle s)(n := None)\<rparr>))))"
proof -
  have f: "f = Some t" "ev_state s = 1" "rep (ev_links s) l (n # ys)"
    using ev_firing_iff [OF I, of t] evI(4) [OF I, of t] t by simp_all
  from rep_pop_front [OF f(3) pop]
  have m: "m = n" and r: "rep h l' ys" and fr: "\<And>a. a \<notin> set (n # ys) \<Longrightarrow> h a = ev_links s a" by auto
  obtain u where u: "ev_handle s n = Some u" "ev_pc s u = EvParked n" using ev_parked [OF I, of n] by auto
  have ut: "u \<noteq> t" using u t by auto
  have xs: "xs = []" using evI(2) [OF I] f(2) by (simp add: ev_waiters_ok_def)
  have d: "n \<notin> set ys" "distinct ys" using evI(2) [OF I] by (simp_all add: ev_waiters_ok_def)
  have nf: "\<not> ev_firing (ev_pc s v)" if "v \<noteq> t" for v using ev_firing_iff [OF I, of v] f that by simp
  let ?s = "ev_goto t (EvWake l') (ev_return u (s\<lparr>ev_links := h, ev_handle := (ev_handle s)(n := None)\<rparr>))"
  have pcs: "ev_pc ?s = (ev_pc s)(u := EvIdle, t := EvWake l')" by (simp add: ev_goto_def ev_return_def)
  have "event_inv_with rep f xs ys ?s"
    unfolding event_inv_with_def
  proof (intro conjI allI)
    show "ev_fire_ok f ?s" using evI(1) [OF I] f ut nf unfolding ev_fire_ok_def by (auto simp: ev_goto_def ev_return_def)
    show "ev_waiters_ok xs ys ?s"
    proof -
      have "\<exists>v. ev_handle ?s x = Some v \<and> ev_pc ?s v = EvParked x" if x: "x \<in> set ys" for x
      proof -
        obtain v where v: "ev_handle s x = Some v" "ev_pc s v = EvParked x" using x ev_parked [OF I, of x] by auto
        have "x \<noteq> n" using x d by auto
        moreover have "v \<noteq> u" "v \<noteq> t" using v u t \<open>x \<noteq> n\<close> by auto
        ultimately show ?thesis using v by (simp add: ev_goto_def ev_return_def)
      qed
      with d f(2) xs show ?thesis by (simp add: ev_waiters_ok_def ev_goto_def ev_return_def)
    qed
    show "ev_list_ok f ys ?s" using f by (simp add: ev_list_ok_def ev_goto_def)
  next
    fix v
    show "ev_pc_ok rep xs ys ?s v (ev_pc ?s v)"
    proof (cases "v = t \<or> v = u")
      case True
      with f r ut show ?thesis by (auto simp: ev_goto_def ev_return_def)
    next
      case False
      have "ev_pc_ok rep xs ys ?s v (ev_pc s v)"
      proof (rule ev_pc_ok_stable [OF evI(4) [OF I, of v]])
        fix x assume "ev_alive s v x"
        with u False show "ev_handle ?s x = ev_handle s x" by (auto simp: ev_alive_def ev_goto_def ev_return_def)
      next
        fix x st assume "ev_pc s v = EvEnqueue x st" "ev_alive s v x"
        then have "x \<notin> set (n # ys)" using ev_not_listed [OF I] by auto
        with fr show "ev_links ?s x = ev_links s x" by (simp add: ev_goto_def ev_return_def)
      next
        fix x assume x: "ev_pc s v = EvParked x" "x \<in> set (xs @ n # ys)"
        have "x \<noteq> n" using x(1) evI(4) [OF I, of v] u False by (auto simp: ev_alive_def)
        with x(2) show "x \<in> set (xs @ ys)" by auto
      qed (use nf [of v] False in auto)
      with False show ?thesis by (simp add: pcs)
    qed
  qed
  with m u show ?thesis by blast
qed

lemma event_inv_fire_again:
  assumes I: "event_inv_with rep f xs ys s" and "ev_state s = 1"
  shows "s\<lparr>ev_state := 1, ev_fired := True\<rparr> = s"
  using evI(1) [OF I] assms(2) by (simp add: ev_fire_ok_def)

lemma event_inv_step:
  assumes "event_inv rep s" and ok: "\<not> ev_overlap e s"
  shows "lands_in (event_inv rep) (event_step L e s)"
proof -
  from assms(1) obtain f xs ys where I: "event_inv_with rep f xs ys s" by (auto simp: event_inv_def)
  show ?thesis
  proof (cases e)
    case (EvCallWait t n)
    with event_inv_fast [OF I, of t] event_inv_new_awaiter [OF I, of t n] show ?thesis
      by (auto simp: ev_wait_def ev_is_ready_def ev_signaled_def intro: event_invI)
  next
    case (EvCallFire t)
    show ?thesis
    proof (cases "ev_state s = 1")
      case True
      with event_inv_fire_again [OF I] EvCallFire assms(1) show ?thesis
        by (simp add: ev_fire_def atomic_simps ev_signaled_def ev_no_waiters_def)
    next
      case False
      with ok EvCallFire have "\<not> ev_fired s" by (simp add: ev_is_ready_def ev_signaled_def)
      with event_inv_fire [OF I, of t] EvCallFire show ?thesis
        by (auto simp: ev_fire_def atomic_simps ev_signaled_def ev_no_waiters_def intro: event_invI split: if_splits)
    qed
  next
    case (EvCallRun t)
    show ?thesis
    proof (cases "ev_pc s t")
      case (EvLoad n)
      with EvCallRun event_inv_signaled [OF I EvLoad] event_inv_link [OF I EvLoad] show ?thesis
        by (auto simp: ev_try_enqueue_def ev_signaled_def ev_no_waiters_def Let_def intro: event_invI)
    next
      case (EvEnqueue n st)
      have "s\<lparr>ev_state := ev_state s\<rparr> = s" by simp
      with EvCallRun event_inv_enqueue [OF I, of t n] event_inv_retry [OF I EvEnqueue] EvEnqueue show ?thesis
        by (auto simp: ev_try_enqueue_def atomic_simps intro: event_invI)
    next
      case EvTake
      from event_inv_take [OF I this] EvTake EvCallRun show ?thesis
        by (auto simp: ev_fire_impl_def atomic_simps ev_signaled_def intro: event_invI)
    next
      case (EvWake l)
      have r: "rep (ev_links s) l ys" using evI(4) [OF I, of t] EvWake by simp
      show ?thesis
      proof (cases ys)
        case Nil
        with event_inv_fired [of f xs s t l] I EvWake EvCallRun rep_has_items [OF r] show ?thesis
          by (auto simp: ev_fire_impl_def intro: event_invI)
      next
        case (Cons n ys')
        obtain m h l' where p: "il_pop_front L (ev_links s) l = (m, h, l')" by (cases "il_pop_front L (ev_links s) l") auto
        from event_inv_wake [OF _ EvWake p, of f xs n ys'] I Cons EvWake EvCallRun rep_has_items [OF r] p show ?thesis
          by (auto simp: ev_fire_impl_def intro: event_invI)
      qed
    qed (simp_all add: EvCallRun ev_fire_impl_def)
  qed
qed

lemma event_inv_init: "event_inv rep event_init"
  unfolding event_inv_def event_inv_with_def
  by (intro exI [of _ None] exI [of _ "[]"])
    (simp add: event_init_def ev_fire_ok_def ev_waiters_ok_def ev_list_ok_def ev_no_waiters_def)

lemma event_machine: "guarded_machine (barring (event_step L) ev_overlap) event_init (event_inv rep)"
  by (rule guarded_machineI) (simp_all add: event_inv_init event_inv_step barring_def)

end

sublocale intrusive_list \<subseteq> event: guarded_machine "barring (event_step L) ev_overlap" event_init "event_inv rep"
  by (rule event_machine)

subsection \<open>Fire wakes every waiter\<close>

context intrusive_list
begin

lemma event_none_parked:
  assumes I: "event_inv_with rep f xs ys s" and "f = None" "ev_fired s"
  shows "ev_state s = 1" "ev_pc s t \<noteq> EvParked n"
proof -
  show st: "ev_state s = 1" using evI(1) [OF I] assms(2,3) by (simp add: ev_fire_ok_def)
  have "xs = []" "ys = []" using evI(2) [OF I] evI(3) [OF I] st assms(2) by (simp_all add: ev_waiters_ok_def ev_list_ok_def)
  then show "ev_pc s t \<noteq> EvParked n" using evI(4) [OF I, of t] by auto
qed

lemma event_wake_all:
  assumes "event_inv_with rep f xs ys s" "ev_pc s t = EvWake l"
  shows "\<exists>s'. exec (event_step L) (replicate (Suc (length ys)) (EvCallRun t)) s = Next s' \<and>
    event_inv_with rep None xs [] s' \<and> ev_pc s' t = EvIdle \<and> ev_fired s' = ev_fired s \<and>
    ev_returned s \<union> {u. \<exists>n\<in>set ys. ev_pc s u = EvParked n} \<subseteq> ev_returned s'"
  using assms
proof (induction ys arbitrary: s l)
  case Nil
  have r: "rep (ev_links s) l []" using evI(4) [OF Nil(1), of t] Nil(2) by simp
  have "event_step L (EvCallRun t) s = Next (ev_goto t EvIdle s)"
    using Nil(2) rep_has_items [OF r] by (simp add: ev_fire_impl_def)
  with event_inv_fired [OF Nil] show ?case by (simp add: ev_goto_def)
next
  case (Cons n ys)
  have r: "rep (ev_links s) l (n # ys)" using evI(4) [OF Cons.prems(1), of t] Cons.prems(2) by simp
  obtain m h l' where p: "il_pop_front L (ev_links s) l = (m, h, l')" by (cases "il_pop_front L (ev_links s) l") auto
  from event_inv_wake [OF Cons.prems p] obtain u where u: "m = n" "ev_handle s n = Some u" "ev_pc s u = EvParked n"
    "event_inv_with rep f xs ys (ev_goto t (EvWake l') (ev_return u (s\<lparr>ev_links := h, ev_handle := (ev_handle s)(n := None)\<rparr>)))"
    (is "event_inv_with rep f xs ys ?s") by blast
  have step: "event_step L (EvCallRun t) s = Next ?s"
    using Cons.prems(2) rep_has_items [OF r] p u(1,2) by (simp add: ev_fire_impl_def)
  have "ev_pc ?s t = EvWake l'" by (simp add: ev_goto_def)
  from Cons.IH [OF u(4) this] obtain s' where s': "exec (event_step L) (replicate (Suc (length ys)) (EvCallRun t)) ?s = Next s'"
    "event_inv_with rep None xs [] s'" "ev_pc s' t = EvIdle" "ev_fired s' = ev_fired ?s"
    "ev_returned ?s \<union> {u. \<exists>n\<in>set ys. ev_pc ?s u = EvParked n} \<subseteq> ev_returned s'" by blast
  have "v \<in> ev_returned s'" if v: "\<exists>x\<in>set (n # ys). ev_pc s v = EvParked x" for v
  proof (cases "v = u")
    case True
    with s'(5) show ?thesis by (auto simp: ev_goto_def ev_return_def)
  next
    case False
    have "ev_pc s v \<noteq> EvParked n"
      using evI(4) [OF Cons.prems(1), of v] u False by (auto simp: ev_alive_def)
    with v have "\<exists>x\<in>set ys. ev_pc s v = EvParked x" by auto
    moreover have "v \<noteq> t" using v Cons.prems(2) by auto
    ultimately show ?thesis using s'(5) False by (auto simp: ev_goto_def ev_return_def)
  qed
  moreover have "ev_returned s \<subseteq> ev_returned s'" "ev_fired ?s = ev_fired s"
    using s'(5) by (auto simp: ev_goto_def ev_return_def)
  ultimately show ?case using step s' by auto
qed

lemma event_fire_completes:
  assumes I: "event_inv_with rep f xs ys s" and t: "ev_firing (ev_pc s t)"
  shows "\<exists>k s'. exec (event_step L) (replicate k (EvCallRun t)) s = Next s' \<and> ev_pc s' t = EvIdle \<and>
    (\<forall>u n. ev_pc s' u \<noteq> EvParked n) \<and> {u. \<exists>n. ev_pc s u = EvParked n} \<subseteq> ev_returned s'"
proof -
  have f: "f = Some t" "ev_fired s" using ev_firing_iff [OF I, of t] t evI(1) [OF I] by (auto simp: ev_fire_ok_def)
  have all: "\<exists>s'. exec (event_step L) (replicate (Suc (length zs)) (EvCallRun t)) r = Next s' \<and> ev_pc s' t = EvIdle \<and>
      (\<forall>u n. ev_pc s' u \<noteq> EvParked n) \<and> {u. \<exists>n. ev_pc r u = EvParked n} \<subseteq> ev_returned s'"
    if J: "event_inv_with rep (Some t) [] zs r" and w: "ev_pc r t = EvWake l" and fr: "ev_fired r" for zs r l
  proof -
    from event_wake_all [OF J w] obtain s' where s': "exec (event_step L) (replicate (Suc (length zs)) (EvCallRun t)) r = Next s'"
      "event_inv_with rep None [] [] s'" "ev_pc s' t = EvIdle" "ev_fired s' = ev_fired r"
      "ev_returned r \<union> {u. \<exists>n\<in>set zs. ev_pc r u = EvParked n} \<subseteq> ev_returned s'" by blast
    have "n \<in> set zs" if "ev_pc r u = EvParked n" for u n using evI(4) [OF J, of u] that by simp
    with s'(5) have "{u. \<exists>n. ev_pc r u = EvParked n} \<subseteq> ev_returned s'" by blast
    with s' event_none_parked [OF s'(2)] fr show ?thesis by blast
  qed
  show ?thesis
  proof (cases "ev_pc s t")
    case EvTake
    have ys: "ys = []" using evI(3) [OF I] f EvTake by (auto simp: ev_list_ok_def)
    from event_inv_take [OF I EvTake] obtain h l where h: "ev_create_waiter_list L (ev_state s) (s\<lparr>ev_state := 1\<rparr>) = Inr (l, h)"
      and J: "event_inv_with rep (Some t) [] xs (ev_goto t (EvWake l) (s\<lparr>ev_state := 1, ev_links := h\<rparr>))" (is "event_inv_with _ _ _ _ ?r")
      by blast
    have step: "event_step L (EvCallRun t) s = Next ?r"
      using EvTake h by (simp add: ev_fire_impl_def atomic_simps ev_signaled_def)
    have "{u. \<exists>n. ev_pc s u = EvParked n} \<subseteq> {u. \<exists>n. ev_pc ?r u = EvParked n}" using EvTake by (auto simp: ev_goto_def)
    moreover from all [OF J, of l] f(2) obtain s' where
      "exec (event_step L) (replicate (Suc (length xs)) (EvCallRun t)) ?r = Next s'" "ev_pc s' t = EvIdle"
      "\<forall>u n. ev_pc s' u \<noteq> EvParked n" "{u. \<exists>n. ev_pc ?r u = EvParked n} \<subseteq> ev_returned s'"
      by (auto simp: ev_goto_def)
    ultimately show ?thesis using step by (intro exI [of _ "Suc (Suc (length xs))"] exI [of _ s']) auto
  next
    case (EvWake l)
    have "ev_state s = 1" using evI(4) [OF I, of t] EvWake by simp
    then have "xs = []" using evI(2) [OF I] by (simp add: ev_waiters_ok_def)
    with all [OF _ EvWake f(2)] I f(1) show ?thesis by blast
  qed (use t in simp_all)
qed

lemma event_reach:
  "avoids (event_step L) ev_overlap es event_init \<Longrightarrow> exec (event_step L) es event_init = Next s \<Longrightarrow>
   \<exists>f xs ys. event_inv_with rep f xs ys s"
  using event.gm_exec_inv [of es s] by (simp add: event_inv_def exec_barring)

lemma event_run_no_fault: "avoids (event_step L) ev_overlap es event_init \<Longrightarrow> exec (event_step L) es event_init \<noteq> Fault x"
  using event.gm_exec_no_fault [of es x] by (simp add: exec_barring)

text \<open>Along such runs \<open>ev_overlap\<close> says just that: another thread is between the two exchanges of \<open>FireImpl\<close>.\<close>

lemma event_overlap_iff:
  assumes "avoids (event_step L) ev_overlap es event_init" "exec (event_step L) es event_init = Next s"
  shows "ev_overlap (EvCallFire t) s \<longleftrightarrow> (\<exists>u. ev_pc s u = EvTake)"
proof -
  from event_reach [OF assms] obtain f xs ys where I: "event_inv_with rep f xs ys s" by blast
  have F: "ev_fire_ok f s" by (rule evI(1) [OF I])
  show ?thesis
  proof
    assume "ev_overlap (EvCallFire t) s"
    then have o: "ev_fired s" "ev_state s \<noteq> 1" by (simp_all add: ev_is_ready_def ev_signaled_def)
    with F obtain u where "f = Some u" by (cases f) (auto simp: ev_fire_ok_def)
    then have "ev_firing (ev_pc s u)" using ev_firing_iff [OF I, of u] by simp
    with evI(4) [OF I, of u] o(2) have "ev_pc s u = EvTake" by (cases "ev_pc s u") simp_all
    then show "\<exists>u. ev_pc s u = EvTake" ..
  next
    assume "\<exists>u. ev_pc s u = EvTake"
    then obtain u where u: "ev_pc s u = EvTake" by blast
    with ev_firing_iff [OF I, of u] have "f \<noteq> None" by auto
    with F evI(4) [OF I, of u] u show "ev_overlap (EvCallFire t) s"
      by (simp add: ev_fire_ok_def ev_is_ready_def ev_signaled_def)
  qed
qed

lemma event_fire_wakes:
  "avoids (event_step L) ev_overlap es event_init \<Longrightarrow> exec (event_step L) es event_init = Next s \<Longrightarrow> ev_firing (ev_pc s t) \<Longrightarrow>
   \<exists>k s'. exec (event_step L) (replicate k (EvCallRun t)) s = Next s' \<and> ev_pc s' t = EvIdle \<and>
    (\<forall>u n. ev_pc s' u \<noteq> EvParked n) \<and> {u. \<exists>n. ev_pc s u = EvParked n} \<subseteq> ev_returned s'"
  using event_reach event_fire_completes by blast

end

text \<open>
  C24. \<open>Fire\<close> may be called any number of times, but not while an earlier call is between its two exchanges. Then a
  \<open>Fire\<close> that is under way completes by its own steps, however waiters were interleaved with it, and nobody is
  parked: every fiber that was in the list has returned from \<open>Wait\<close>.
\<close>

theorem event_fire_wakes_all:
  assumes "intrusive_list L rep" and "avoids (event_step L) ev_overlap es event_init"
    and "exec (event_step L) es event_init = Next s" and "ev_firing (ev_pc s t)"
  shows "\<exists>k s'. exec (event_step L) (replicate k (EvCallRun t)) s = Next s' \<and> ev_pc s' t = EvIdle \<and>
    (\<forall>u n. ev_pc s' u \<noteq> EvParked n) \<and> {u. \<exists>n. ev_pc s u = EvParked n} \<subseteq> ev_returned s'"
  by (rule intrusive_list.event_fire_wakes [OF assms])

definition event_sample_run :: "event_call list" where
  "event_sample_run =
     [EvCallWait 1 16, EvCallRun 1, EvCallRun 1, EvCallWait 2 32, EvCallRun 2, EvCallRun 2, EvCallFire 3]"

text \<open>A run in which \<open>Fire\<close> is called three times, the second time while the first call wakes the waiters.\<close>

definition event_again_run :: "event_call list" where
  "event_again_run = event_sample_run @ [EvCallRun 3, EvCallFire 4, EvCallRun 3, EvCallRun 3, EvCallRun 3, EvCallFire 3]"

theorem event_fire_wakes_all_witness:
  "\<exists>s. exec (event_step ptr_list) event_sample_run event_init = Next s \<and> ev_pc s 1 = EvParked 16 \<and>
     (\<exists>k s'. exec (event_step ptr_list) (replicate k (EvCallRun 3)) s = Next s' \<and> {1, 2} \<subseteq> ev_returned s')"
proof -
  obtain s where s: "exec (event_step ptr_list) event_sample_run event_init = Next s"
    and p: "ev_pc s 1 = EvParked 16" "ev_pc s 2 = EvParked 32" "ev_pc s 3 = EvTake"
    by (simp add: event_sample_run_def machine_simps atomic_simps ptr_run_simps)
  have a: "avoids (event_step ptr_list) ev_overlap event_sample_run event_init"
    by (simp add: event_sample_run_def machine_simps atomic_simps ptr_run_simps)
  from event_fire_wakes_all [OF ptr.intrusive_list_axioms a s, of 3] p(3) obtain k s' where
    "exec (event_step ptr_list) (replicate k (EvCallRun 3)) s = Next s'" "{u. \<exists>n. ev_pc s u = EvParked n} \<subseteq> ev_returned s'"
    by auto
  with s p show ?thesis by blast
qed

text \<open>
  C25. \<open>Fire\<close> may be called any number of times, but not while an earlier call is between its two exchanges. Then
  \<open>Wait\<close> does not return before \<open>Fire\<close> was called; once it was and no fiber is inside it, the word says signaled
  and nobody is parked; and no call touches an awaiter that is gone.
\<close>

theorem event_waits_for_fire:
  assumes "intrusive_list L rep" and "avoids (event_step L) ev_overlap es event_init"
  shows "case exec (event_step L) es event_init of
      Next s \<Rightarrow> (if ev_fired s then (\<exists>t. ev_firing (ev_pc s t)) \<or> (ev_is_ready s \<and> (\<forall>t n. ev_pc s t \<noteq> EvParked n))
                 else ev_returned s = {})
    | Disabled \<Rightarrow> True
    | Fault x \<Rightarrow> False"
proof (cases "exec (event_step L) es event_init")
  case (Next s)
  from intrusive_list.event_reach [OF assms Next] obtain f xs ys where I: "event_inv_with rep f xs ys s" by blast
  have "ev_returned s = {}" if "\<not> ev_fired s" using evI(1) [OF I] that by (auto simp: ev_fire_ok_def)
  moreover have "ev_is_ready s \<and> (\<forall>t n. ev_pc s t \<noteq> EvParked n)" if "ev_fired s" "\<forall>t. \<not> ev_firing (ev_pc s t)"
  proof -
    have "f = None" using ev_firing_iff [OF I] that(2) by auto
    with intrusive_list.event_none_parked [OF assms(1) I] that(1) show ?thesis by (simp add: ev_is_ready_def ev_signaled_def)
  qed
  ultimately show ?thesis using Next by auto
next
  case (Fault x)
  with intrusive_list.event_run_no_fault [OF assms] show ?thesis by blast
qed simp

theorem event_waits_for_fire_witness:
  "case exec (event_step ptr_list) event_again_run event_init of
     Next s \<Rightarrow> ev_fired s \<and> ev_is_ready s \<and> {1, 2} \<subseteq> ev_returned s | _ \<Rightarrow> False"
proof -
  have "avoids (event_step ptr_list) ev_overlap event_again_run event_init"
    by (simp add: event_again_run_def event_sample_run_def machine_simps atomic_simps ptr_run_simps)
  from event_waits_for_fire [OF ptr.intrusive_list_axioms this]
  have "case exec (event_step ptr_list) event_again_run event_init of Fault x \<Rightarrow> False | _ \<Rightarrow> True"
    by (auto split: outcome.splits)
  then show ?thesis by (simp add: event_again_run_def event_sample_run_def machine_simps atomic_simps ptr_run_simps)
qed

text \<open>Two calls of \<open>Fire\<close> that overlap: the second one takes the word \<open>1\<close> for a pointer.\<close>

lemma event_double_fire_faults:
  "exec (event_step ptr_list)
     [EvCallWait 1 16, EvCallRun 1, EvCallRun 1, EvCallFire 2, EvCallFire 3, EvCallRun 2, EvCallRun 3] event_init =
   Fault UseAfterFree"
  by (simp add: machine_simps atomic_simps ptr_run_simps)

subsection \<open>Wait groups\<close>

record 'l wait_group =
  wg_event :: "'l event"
  wg_counter :: u64
  wg_done_called :: bool

definition wait_group_init :: "'l wait_group" where
  "wait_group_init = \<lparr>wg_event = event_init, wg_counter = 0, wg_done_called = False\<rparr>"

fun with_event :: "'l wait_group \<Rightarrow> 'l event outcome \<Rightarrow> 'l wait_group outcome" where
  "with_event w (Next s) = Next (w\<lparr>wg_event := s\<rparr>)"
| "with_event w Disabled = Disabled"
| "with_event w (Fault x) = Fault x"

definition wg_add :: "u64 \<Rightarrow> 'l wait_group \<Rightarrow> 'l wait_group" where
  "wg_add count w = (let (_, c) = atomic_fetch_add (wg_counter w) count in w\<lparr>wg_counter := c\<rparr>)"

definition wg_done :: "'l intrusive \<Rightarrow> tid \<Rightarrow> 'l wait_group \<Rightarrow> 'l wait_group outcome" where
  "wg_done L t w =
     (let (old, c) = atomic_fetch_sub (wg_counter w) 1; w1 = w\<lparr>wg_counter := c, wg_done_called := True\<rparr> in
      if old = 1 then with_event w1 (event_step L (EvCallFire t) (wg_event w1)) else Next w1)"

definition wg_wait :: "'l intrusive \<Rightarrow> tid \<Rightarrow> addr \<Rightarrow> 'l wait_group \<Rightarrow> 'l wait_group outcome" where
  "wg_wait L t n w = with_event w (event_step L (EvCallWait t n) (wg_event w))"

text \<open>
  The contract: \<open>Done\<close> is called at most as often as was added, by a fiber that is not inside another call; nothing is
  added after the group is done; the additions do not exceed the width of the counter.
\<close>

datatype wg_call = WgAdd u64 | WgDone tid | WgWait tid addr | WgRun tid

fun wait_group_step :: "'l intrusive \<Rightarrow> wg_call \<Rightarrow> 'l wait_group \<Rightarrow> 'l wait_group outcome" where
  "wait_group_step L (WgAdd count) w =
     (if ev_fired (wg_event w) \<or> 2 ^ 64 \<le> unat (wg_counter w) + unat count then Disabled else Next (wg_add count w))"
| "wait_group_step L (WgDone t) w =
     (if wg_counter w = 0 \<or> ev_pc (wg_event w) t \<noteq> EvIdle then Disabled else wg_done L t w)"
| "wait_group_step L (WgWait t n) w = wg_wait L t n w"
| "wait_group_step L (WgRun t) w = with_event w (event_step L (EvCallRun t) (wg_event w))"

lemmas [machine_simps] = wait_group_init_def wg_add_def wg_done_def wg_wait_def

definition wg_inv :: "(links \<Rightarrow> 'l \<Rightarrow> addr list \<Rightarrow> bool) \<Rightarrow> 'l wait_group \<Rightarrow> bool" where
  "wg_inv rep w \<longleftrightarrow> event_inv rep (wg_event w) \<and> (wg_done_called w \<and> wg_counter w = 0 \<longrightarrow> ev_fired (wg_event w)) \<and>
     (ev_fired (wg_event w) \<longrightarrow> wg_counter w = 0)"

lemma event_step_fired:
  "event_step L e s = Next s' \<Longrightarrow> ev_fired s' \<longleftrightarrow> ev_fired s \<or> (\<exists>t. e = EvCallFire t)"
  by (cases e)
    (auto simp: ev_wait_def ev_return_def ev_goto_def ev_fire_def ev_try_enqueue_def ev_fire_impl_def atomic_simps Let_def
      split: if_splits event_pc.splits sum.splits prod.splits option.splits)

lemma u64_add_zero:
  assumes "unat (a :: u64) + unat b < 2 ^ 64"
  shows "a + b = 0 \<longleftrightarrow> a = 0 \<and> b = 0"
proof -
  have "unat (a + b) = unat a + unat b" using assms by (simp add: unat_word_ariths)
  then show ?thesis by (metis add_is_0 unsigned_0 unsigned_eq_0_iff)
qed

context intrusive_list
begin

lemma wg_event_lands:
  assumes I: "wg_inv rep w" and e: "\<forall>t. e \<noteq> EvCallFire t"
  shows "lands_in (wg_inv rep) (with_event w (event_step L e (wg_event w)))"
proof -
  have ok: "\<not> ev_overlap e (wg_event w)" using e by (cases e) auto
  show ?thesis
  proof (cases "event_step L e (wg_event w)")
    case (Next s)
    with event_inv_step [OF _ ok] event_step_fired [OF Next] I e show ?thesis by (auto simp: wg_inv_def)
  next
    case (Fault x)
    with event_inv_step [OF _ ok] I show ?thesis by (simp add: wg_inv_def)
  qed simp
qed

lemma wait_group_inv_step:
  assumes I: "wg_inv rep w"
  shows "lands_in (wg_inv rep) (wait_group_step L e w)"
proof (cases e)
  case (WgAdd count)
  show ?thesis
  proof (cases "ev_fired (wg_event w) \<or> 2 ^ 64 \<le> unat (wg_counter w) + unat count")
    case False
    then have "\<not> ev_fired (wg_event w)" "unat (wg_counter w) + unat count < 2 ^ 64" by auto
    with I u64_add_zero [of "wg_counter w" count] False WgAdd show ?thesis
      by (auto simp: wg_inv_def wg_add_def atomic_simps)
  qed (simp add: WgAdd)
next
  case (WgDone t)
  show ?thesis
  proof (cases "wg_counter w = 0 \<or> ev_pc (wg_event w) t \<noteq> EvIdle")
    case False
    then have nf: "\<not> ev_fired (wg_event w)" using I by (auto simp: wg_inv_def)
    show ?thesis
    proof (cases "wg_counter w = 1")
      case True
      from event_inv_step [of "wg_event w" "EvCallFire t"] I nf
      have l: "lands_in (event_inv rep) (event_step L (EvCallFire t) (wg_event w))" by (simp add: wg_inv_def)
      show ?thesis
      proof (cases "event_step L (EvCallFire t) (wg_event w)")
        case (Next s)
        with l event_step_fired [OF Next] WgDone False True show ?thesis
          by (simp add: wg_done_def atomic_simps wg_inv_def del: event_step.simps)
      qed (use l WgDone False True in \<open>simp_all add: wg_done_def atomic_simps del: event_step.simps\<close>)
    next
      case other: False
      have "wg_counter w - 1 \<noteq> 0" using other by simp
      with I nf WgDone False other show ?thesis by (simp add: wg_done_def atomic_simps wg_inv_def)
    qed
  qed (simp add: WgDone)
next
  case (WgWait t n)
  with wg_event_lands [OF I, of "EvCallWait t n"] show ?thesis by (simp add: wg_wait_def)
next
  case (WgRun t)
  with wg_event_lands [OF I, of "EvCallRun t"] show ?thesis by simp
qed

lemma wait_group_machine: "guarded_machine (wait_group_step L) wait_group_init (wg_inv rep)"
proof (rule guarded_machineI)
  show "wg_inv rep wait_group_init" using event_inv_init by (simp add: wg_inv_def wait_group_init_def event_init_def)
qed (rule wait_group_inv_step)

end

text \<open>
  No \<open>Wait\<close> on a group returns while something added is not done; when all is done and the last \<open>Done\<close> has
  left, no fiber is parked. No interleaving of \<open>Add\<close>, \<open>Done\<close> and \<open>Wait\<close> fails.
\<close>

theorem wait_group_waits:
  assumes "intrusive_list L rep"
  shows "case exec (wait_group_step L) es wait_group_init of
      Next w \<Rightarrow>
        if wg_counter w \<noteq> 0 then ev_returned (wg_event w) = {}
        else \<not> wg_done_called w \<or> (\<exists>t. ev_firing (ev_pc (wg_event w) t)) \<or> (\<forall>t n. ev_pc (wg_event w) t \<noteq> EvParked n)
    | Disabled \<Rightarrow> True
    | Fault x \<Rightarrow> False"
proof (cases "exec (wait_group_step L) es wait_group_init")
  case (Next w)
  have W: "wg_inv rep w" using guarded_machine.gm_exec_inv [OF intrusive_list.wait_group_machine [OF assms] Next] .
  then obtain f xs ys where I: "event_inv_with rep f xs ys (wg_event w)" by (auto simp: wg_inv_def event_inv_def)
  have "ev_returned (wg_event w) = {}" if "wg_counter w \<noteq> 0"
    using W evI(1) [OF I] that by (auto simp: wg_inv_def ev_fire_ok_def)
  moreover have "ev_pc (wg_event w) t \<noteq> EvParked n"
    if "wg_counter w = 0" "wg_done_called w" "\<forall>t. \<not> ev_firing (ev_pc (wg_event w) t)" for t n
  proof -
    have "f = None" using ev_firing_iff [OF I] that(3) by auto
    moreover have "ev_fired (wg_event w)" using W that by (simp add: wg_inv_def)
    ultimately show ?thesis using intrusive_list.event_none_parked(2) [OF assms I] by simp
  qed
  ultimately show ?thesis using Next by auto
next
  case (Fault x)
  with guarded_machine.gm_exec_no_fault [OF intrusive_list.wait_group_machine [OF assms], of es x] show ?thesis by simp
qed simp

theorem wait_group_waits_witness:
  "\<exists>w. exec (wait_group_step ptr_list) [WgAdd 1, WgWait 1 16, WgRun 1, WgRun 1, WgDone 2] wait_group_init = Next w \<and>
     wg_counter w = 0 \<and> ev_firing (ev_pc (wg_event w) 2)"
proof -
  let ?es = "[WgAdd 1, WgWait 1 16, WgRun 1, WgRun 1, WgDone 2]"
  have "case exec (wait_group_step ptr_list) ?es wait_group_init of Fault x \<Rightarrow> False | _ \<Rightarrow> True"
    using wait_group_waits [OF ptr.intrusive_list_axioms, of ?es] by (cases "exec (wait_group_step ptr_list) ?es wait_group_init") simp_all
  then show ?thesis by (simp add: machine_simps atomic_simps ptr_run_simps)
qed

text \<open>A fiber that waits on a group to which nothing was added is parked, and nothing will wake it.\<close>

lemma wait_group_zero_parks:
  "case exec (wait_group_step ptr_list) [WgWait 1 16, WgRun 1, WgRun 1] wait_group_init of
     Next w \<Rightarrow> wg_counter w = 0 \<and> ev_pc (wg_event w) 1 = EvParked 16 | _ \<Rightarrow> False"
  by (simp add: machine_simps atomic_simps ptr_run_simps)

end
