(* ===== verification/Stackless.thy ===== *)
theory Stackless
  imports Prelude
begin

section \<open>Stackless coroutines\<close>

text \<open>
  \<open>coroutine/stackless/\<close>: the coroutine type \<open>Task\<close> and what is awaited without a lock: \<open>FireAndForget\<close>, \<open>DispatchTo\<close>,
  \<open>Yield\<close>. (The synchronisation objects are in \<open>Stackless_Sync\<close>.)
\<close>

subsection \<open>Tasks: who may resume a coroutine\<close>

text \<open>
  A coroutine frame is suspended, runs on an executor, or is gone. \<open>st_tasks\<close> are the variables of type \<open>Task\<close> with
  their \<open>handle_\<close> (\<open>Some None\<close>: null); \<open>st_pending\<close> are the \<open>DispatchAwaiter\<close>s that executors hold.
\<close>

datatype 'x frame = FSuspended | FRunning 'x

record 'x stackless =
  st_frames :: "nat \<Rightarrow> 'x frame option"
  st_tasks :: "nat \<Rightarrow> nat option option"
  st_pending :: "('x \<times> nat) list"

definition stackless_init :: "'x stackless" where
  "stackless_init = \<lparr>st_frames = Map.empty, st_tasks = Map.empty, st_pending = []\<rparr>"

text \<open>\<open>handle.resume()\<close> of a frame that is not suspended is undefined.\<close>

definition frame_resume :: "'x \<Rightarrow> nat \<Rightarrow> 'x stackless \<Rightarrow> 'x stackless outcome" where
  "frame_resume x c s =
     (case st_frames s c of
        None \<Rightarrow> Fault UseAfterFree
      | Some (FRunning _) \<Rightarrow> Fault (Panic ''resumed while it runs'')
      | Some FSuspended \<Rightarrow> Next (s\<lparr>st_frames := (st_frames s)(c \<mapsto> FRunning x)\<rparr>))"

definition frame_destroy :: "nat \<Rightarrow> 'x stackless \<Rightarrow> 'x stackless outcome" where
  "frame_destroy c s =
     (case st_frames s c of
        Some FSuspended \<Rightarrow> Next (s\<lparr>st_frames := (st_frames s)(c := None)\<rparr>)
      | _ \<Rightarrow> Fault UseAfterFree)"

text \<open>A call of the coroutine function: \<open>get_return_object\<close>, \<open>initial_suspend\<close>.\<close>

definition task_create :: "nat \<Rightarrow> nat \<Rightarrow> 'x stackless \<Rightarrow> 'x stackless" where
  "task_create v c s = s\<lparr>st_frames := (st_frames s)(c \<mapsto> FSuspended), st_tasks := (st_tasks s)(v \<mapsto> Some c)\<rparr>"

text \<open>\<open>Task(Task&&) = default\<close> copies the handle, and leaves it in the source.\<close>

definition task_move :: "nat \<Rightarrow> nat \<Rightarrow> 'x stackless \<Rightarrow> 'x stackless" where
  "task_move v u s = s\<lparr>st_tasks := (st_tasks s)(v := st_tasks s u)\<rparr>"

definition task_release_coroutine :: "nat \<Rightarrow> 'x stackless \<Rightarrow> nat option \<times> 'x stackless" where
  "task_release_coroutine v s = (Option.bind (st_tasks s v) (\<lambda>h. h), s\<lparr>st_tasks := (st_tasks s)(v := Some None)\<rparr>)"

text \<open>\<open>done()\<close> is never true of a frame that exists, because \<open>final_suspend\<close> does not suspend.\<close>

definition task_dtor :: "nat \<Rightarrow> 'x stackless \<Rightarrow> 'x stackless outcome" where
  "task_dtor v s =
     (case st_tasks s v of
        None \<Rightarrow> Disabled
      | Some None \<Rightarrow> Next (s\<lparr>st_tasks := (st_tasks s)(v := None)\<rparr>)
      | Some (Some c) \<Rightarrow> Fault (if st_frames s c = None then UseAfterFree else Panic ''std::terminate''))"

definition fire_and_forget :: "'x \<Rightarrow> nat \<Rightarrow> 'x stackless \<Rightarrow> 'x stackless outcome" where
  "fire_and_forget x v s =
     (let (h, s1) = task_release_coroutine v s in
      case h of None \<Rightarrow> Fault NullDereference | Some c \<Rightarrow> frame_resume x c s1)"

definition dispatch_await_ready :: bool where "dispatch_await_ready = False"

definition dispatch_await_suspend :: "'x \<Rightarrow> nat \<Rightarrow> 'x stackless \<Rightarrow> 'x stackless" where
  "dispatch_await_suspend x c s = s\<lparr>st_frames := (st_frames s)(c \<mapsto> FSuspended), st_pending := st_pending s @ [(x, c)]\<rparr>"

text \<open>\<open>co_await DispatchTo(x)\<close> in the coroutine \<open>c\<close>; \<open>Yield\<close> dispatches to the executor it runs on.\<close>

definition dispatch_to :: "'x \<Rightarrow> nat \<Rightarrow> 'x stackless \<Rightarrow> 'x stackless outcome" where
  "dispatch_to x c s =
     (case st_frames s c of
        Some (FRunning _) \<Rightarrow> Next (if dispatch_await_ready then s else dispatch_await_suspend x c s)
      | _ \<Rightarrow> Disabled)"

definition yield_to_current :: "nat \<Rightarrow> 'x stackless \<Rightarrow> 'x stackless outcome" where
  "yield_to_current c s = (case st_frames s c of Some (FRunning x) \<Rightarrow> dispatch_to x c s | _ \<Rightarrow> Disabled)"

definition st_take :: "nat \<Rightarrow> 'x stackless \<Rightarrow> 'x stackless" where
  "st_take i s = s\<lparr>st_pending := take i (st_pending s) @ drop (Suc i) (st_pending s)\<rparr>"

definition dispatch_run :: "nat \<Rightarrow> 'x stackless \<Rightarrow> 'x stackless outcome" where
  "dispatch_run i s =
     (if i < length (st_pending s) then frame_resume (fst (st_pending s ! i)) (snd (st_pending s ! i)) (st_take i s) else Disabled)"

definition dispatch_discard :: "nat \<Rightarrow> 'x stackless \<Rightarrow> 'x stackless outcome" where
  "dispatch_discard i s =
     (if i < length (st_pending s) then frame_destroy (snd (st_pending s ! i)) (st_take i s) else Disabled)"

text \<open>The coroutine returns or throws: the result is stored, and \<open>final_suspend\<close> lets the frame be destroyed.\<close>

definition task_finish :: "nat \<Rightarrow> 'x stackless \<Rightarrow> 'x stackless outcome" where
  "task_finish c s =
     (case st_frames s c of Some (FRunning _) \<Rightarrow> Next (s\<lparr>st_frames := (st_frames s)(c := None)\<rparr>) | _ \<Rightarrow> Disabled)"

datatype 'x st_op =
    TCreate nat nat
  | TMove nat nat
  | TFire 'x nat
  | TDestroy nat
  | TDispatch 'x nat
  | TYield nat
  | TRun nat
  | TDiscard nat
  | TFinish nat

fun stackless_step :: "'x st_op \<Rightarrow> 'x stackless \<Rightarrow> 'x stackless outcome" where
  "stackless_step (TCreate v c) s = (if st_tasks s v = None \<and> st_frames s c = None then Next (task_create v c s) else Disabled)"
| "stackless_step (TMove v u) s = (if st_tasks s v = None \<and> st_tasks s u \<noteq> None then Next (task_move v u s) else Disabled)"
| "stackless_step (TFire x v) s = (if st_tasks s v = None then Disabled else fire_and_forget x v s)"
| "stackless_step (TDestroy v) s = task_dtor v s"
| "stackless_step (TDispatch x c) s = dispatch_to x c s"
| "stackless_step (TYield c) s = yield_to_current c s"
| "stackless_step (TRun i) s = dispatch_run i s"
| "stackless_step (TDiscard i) s = dispatch_discard i s"
| "stackless_step (TFinish c) s = task_finish c s"

lemmas stackless_simps =
  frame_resume_def frame_destroy_def task_create_def task_move_def task_release_coroutine_def task_dtor_def fire_and_forget_def
  dispatch_await_ready_def dispatch_await_suspend_def dispatch_to_def yield_to_current_def st_take_def dispatch_run_def
  dispatch_discard_def task_finish_def

text \<open>
  Without moves of \<open>Task\<close>, a suspended coroutine has exactly one holder that can resume it (its \<open>Task\<close> or the awaiter
  in an executor), and one that runs or is gone has none.
\<close>

definition st_one_holder :: "'x stackless \<Rightarrow> bool" where
  "st_one_holder s \<longleftrightarrow>
     (\<forall>v u c. st_tasks s v = Some (Some c) \<longrightarrow> st_tasks s u = Some (Some c) \<longrightarrow> v = u) \<and>
     distinct (map snd (st_pending s)) \<and>
     (\<forall>v c. st_tasks s v = Some (Some c) \<longrightarrow> c \<notin> snd ` set (st_pending s)) \<and>
     (\<forall>c. st_frames s c = Some FSuspended \<longleftrightarrow> (\<exists>v. st_tasks s v = Some (Some c)) \<or> c \<in> snd ` set (st_pending s))"

lemma st_take_pending:
  assumes "i < length (st_pending s)" "distinct (map snd (st_pending s))"
  shows "distinct (map snd (st_pending (st_take i s)))"
    "snd ` set (st_pending s) = insert (snd (st_pending s ! i)) (snd ` set (st_pending (st_take i s)))"
    "snd (st_pending s ! i) \<notin> snd ` set (st_pending (st_take i s))"
proof -
  let ?p = "st_pending s" and ?q = "st_pending (st_take i s)"
  have s: "?p = take i ?p @ ?p ! i # drop (Suc i) ?p" using assms(1) by (rule id_take_nth_drop)
  have q: "?q = take i ?p @ drop (Suc i) ?p" by (simp add: st_take_def)
  from assms(2) have d: "distinct (map snd (take i ?p @ ?p ! i # drop (Suc i) ?p))" using s by simp
  show "distinct (map snd ?q)" using d q by auto
  show "snd (?p ! i) \<notin> snd ` set ?q" using d q by auto
  have "snd ` set ?p = snd ` set (take i ?p @ ?p ! i # drop (Suc i) ?p)" using s by simp
  then show "snd ` set ?p = insert (snd (?p ! i)) (snd ` set ?q)" using q by auto
qed

lemma st_one_holder_init: "st_one_holder stackless_init"
  by (simp add: st_one_holder_def stackless_init_def)

lemma st_one_holder_fire:
  assumes I: "st_one_holder s" and v: "st_tasks s v = Some (Some c)"
  shows "st_one_holder (s\<lparr>st_tasks := (st_tasks s)(v := Some None), st_frames := (st_frames s)(c \<mapsto> FRunning x)\<rparr>)"
proof -
  let ?t = "s\<lparr>st_tasks := (st_tasks s)(v := Some None), st_frames := (st_frames s)(c \<mapsto> FRunning x)\<rparr>"
  have u: "st_tasks s w = Some (Some c) \<longleftrightarrow> w = v" for w using I v unfolding st_one_holder_def by blast
  have nc: "c \<notin> snd ` set (st_pending s)" using I v unfolding st_one_holder_def by blast
  have tk: "st_tasks ?t w = Some (Some d) \<longleftrightarrow> st_tasks s w = Some (Some d) \<and> d \<noteq> c" for w d using u [of w] v by auto
  have fr: "st_frames ?t d = Some FSuspended \<longleftrightarrow> st_frames s d = Some FSuspended \<and> d \<noteq> c" for d by simp
  show ?thesis using I nc unfolding st_one_holder_def tk fr by simp blast
qed

lemma st_one_holder_create:
  assumes I: "st_one_holder s" and v: "st_tasks s v = None" and c: "st_frames s c = None"
  shows "st_one_holder (task_create v c s)"
proof -
  have u: "st_tasks s w \<noteq> Some (Some c)" for w using I c unfolding st_one_holder_def by (metis option.distinct(1))
  have nc: "c \<notin> snd ` set (st_pending s)" using I c unfolding st_one_holder_def by (metis option.distinct(1))
  have tk: "st_tasks (task_create v c s) w = Some (Some d) \<longleftrightarrow> (if w = v then d = c else st_tasks s w = Some (Some d))" for w d
    by (auto simp: task_create_def)
  have ex: "(\<exists>w. st_tasks (task_create v c s) w = Some (Some d)) \<longleftrightarrow> d = c \<or> (\<exists>w. st_tasks s w = Some (Some d))" for d
    unfolding tk by (metis option.distinct(1) v)
  have fr: "st_frames (task_create v c s) d = Some FSuspended \<longleftrightarrow> d = c \<or> st_frames s d = Some FSuspended" for d
    by (simp add: task_create_def)
  have pd: "st_pending (task_create v c s) = st_pending s" by (simp add: task_create_def)
  show ?thesis unfolding st_one_holder_def ex fr pd
    using I u nc unfolding st_one_holder_def tk by (auto split: if_splits)
qed

lemma st_running_unheld:
  assumes "st_one_holder s" and "st_frames s c = Some (FRunning y)"
  shows "st_tasks s v \<noteq> Some (Some c)" "c \<notin> snd ` set (st_pending s)"
  using assms unfolding st_one_holder_def by (metis frame.distinct(1) option.inject)+

lemma st_one_holder_dispatch:
  assumes I: "st_one_holder s" and c: "st_frames s c = Some (FRunning y)"
  shows "st_one_holder (dispatch_await_suspend x c s)"
  using I st_running_unheld [OF I c] unfolding st_one_holder_def dispatch_await_suspend_def by auto

lemma st_one_holder_taken:
  assumes I: "st_one_holder s" and i: "i < length (st_pending s)" and f: "f \<noteq> Some FSuspended"
  shows "st_frames s (snd (st_pending s ! i)) = Some FSuspended"
    "st_one_holder ((st_take i s)\<lparr>st_frames := (st_frames s)(snd (st_pending s ! i) := f)\<rparr>)"
proof -
  let ?c = "snd (st_pending s ! i)"
  have d: "distinct (map snd (st_pending s))" using I by (simp add: st_one_holder_def)
  note t = st_take_pending [OF i d]
  have c: "?c \<in> snd ` set (st_pending s)" using i by auto
  with I show "st_frames s ?c = Some FSuspended" by (simp add: st_one_holder_def)
  have nt: "st_tasks s v \<noteq> Some (Some ?c)" for v using I c unfolding st_one_holder_def by blast
  have same: "st_tasks (st_take i s) = st_tasks s" by (simp add: st_take_def)
  show "st_one_holder ((st_take i s)\<lparr>st_frames := (st_frames s)(?c := f)\<rparr>)"
    using I t nt f unfolding st_one_holder_def by (simp add: same)
qed

lemma st_one_holder_step:
  assumes I: "st_one_holder s" and e: "\<And>v u. e \<noteq> TMove v u" and n: "stackless_step e s = Next t"
  shows "st_one_holder t"
proof (cases e)
  case (TCreate v c)
  with n have c: "st_tasks s v = None" "st_frames s c = None" "t = task_create v c s" by (auto split: if_splits)
  with st_one_holder_create [OF I] c show ?thesis by simp
next
  case (TFire x v)
  with n obtain c where "st_tasks s v = Some (Some c)" "t = s\<lparr>st_tasks := (st_tasks s)(v := Some None), st_frames := (st_frames s)(c \<mapsto> FRunning x)\<rparr>"
    by (auto simp: fire_and_forget_def task_release_coroutine_def frame_resume_def split: if_splits option.splits frame.splits)
  with st_one_holder_fire [OF I] show ?thesis by simp
next
  case (TDestroy v)
  with n have v: "st_tasks s v = Some None" "t = s\<lparr>st_tasks := (st_tasks s)(v := None)\<rparr>"
    by (auto simp: task_dtor_def split: option.splits if_splits)
  then have tk: "st_tasks t w = Some (Some d) \<longleftrightarrow> st_tasks s w = Some (Some d)" for w d by auto
  show ?thesis using I unfolding st_one_holder_def tk by (simp add: v(2))
next
  case (TDispatch x c)
  with n st_one_holder_dispatch [OF I] show ?thesis
    by (auto simp: dispatch_to_def dispatch_await_ready_def split: option.splits frame.splits)
next
  case (TYield c)
  with n st_one_holder_dispatch [OF I] show ?thesis
    by (auto simp: yield_to_current_def dispatch_to_def dispatch_await_ready_def split: option.splits frame.splits)
next
  case (TRun i)
  with n have i: "i < length (st_pending s)" by (auto simp: dispatch_run_def split: if_splits)
  from st_one_holder_taken [OF I i, of "Some (FRunning (fst (st_pending s ! i)))"] n i TRun show ?thesis
    by (simp add: dispatch_run_def frame_resume_def st_take_def)
next
  case (TDiscard i)
  with n have i: "i < length (st_pending s)" by (auto simp: dispatch_discard_def split: if_splits)
  from st_one_holder_taken [OF I i, of None] n i TDiscard show ?thesis
    by (simp add: dispatch_discard_def frame_destroy_def st_take_def)
next
  case (TFinish c)
  with n obtain x where c: "st_frames s c = Some (FRunning x)" and t: "t = s\<lparr>st_frames := (st_frames s)(c := None)\<rparr>"
    by (auto simp: task_finish_def split: option.splits frame.splits)
  have fr: "st_frames t d = Some FSuspended \<longleftrightarrow> st_frames s d = Some FSuspended" for d using c t by simp
  from I show ?thesis unfolding st_one_holder_def fr by (simp add: t)
qed (use e in blast)

text \<open>What can fail is only the destruction of a \<open>Task\<close> that nobody fired, and firing an empty one.\<close>

lemma st_one_holder_fault:
  assumes I: "st_one_holder s" and e: "\<And>v u. e \<noteq> TMove v u" and x: "stackless_step e s = Fault x"
  shows "(\<exists>v c. e = TDestroy v \<and> st_tasks s v = Some (Some c) \<and> x = Panic ''std::terminate'') \<or>
    (\<exists>y v. e = TFire y v \<and> st_tasks s v = Some None \<and> x = NullDereference)"
proof (cases e)
  case (TFire y v)
  show ?thesis
  proof (cases "st_tasks s v = Some None")
    case False
    with TFire x obtain c where c: "st_tasks s v = Some (Some c)"
      by (cases "st_tasks s v") (auto simp: fire_and_forget_def task_release_coroutine_def split: if_splits)
    with I have "st_frames s c = Some FSuspended" by (auto simp: st_one_holder_def)
    with c TFire x show ?thesis by (simp add: fire_and_forget_def task_release_coroutine_def frame_resume_def)
  qed (use TFire x in \<open>simp add: fire_and_forget_def task_release_coroutine_def\<close>)
next
  case (TDestroy v)
  with x obtain c where c: "st_tasks s v = Some (Some c)" by (auto simp: task_dtor_def split: option.splits)
  with I have "st_frames s c = Some FSuspended" by (auto simp: st_one_holder_def)
  with c TDestroy x show ?thesis by (simp add: task_dtor_def)
next
  case (TRun i)
  with x have i: "i < length (st_pending s)" by (auto simp: dispatch_run_def split: if_splits)
  from st_one_holder_taken(1) [OF I i, of None] i TRun x show ?thesis
    by (simp add: dispatch_run_def frame_resume_def st_take_def)
next
  case (TDiscard i)
  with x have i: "i < length (st_pending s)" by (auto simp: dispatch_discard_def split: if_splits)
  from st_one_holder_taken(1) [OF I i, of None] i TDiscard x show ?thesis
    by (simp add: dispatch_discard_def frame_destroy_def st_take_def)
qed (use x e in \<open>auto simp: dispatch_to_def yield_to_current_def dispatch_await_ready_def task_finish_def split: if_splits option.splits frame.splits\<close>)

text \<open>A moved \<open>Task\<close> still has the handle: its destructor terminates the program.\<close>

lemma task_move_terminates:
  "exec stackless_step [TCreate 1 7, TMove 2 1, TDestroy 1] stackless_init = Fault (Panic ''std::terminate'')"
  by (simp add: stackless_simps stackless_init_def)

lemma task_move_dangles:
  "exec stackless_step [TCreate 1 7, TMove 2 1, TFire ''x'' 2, TFinish 7, TDestroy 1] stackless_init = Fault UseAfterFree"
  by (simp add: stackless_simps stackless_init_def)


lemma st_run_one_holder:
  assumes "st_one_holder s" and "\<forall>v u. TMove v u \<notin> set es"
  shows "case exec stackless_step es s of
      Next t \<Rightarrow> st_one_holder t | Disabled \<Rightarrow> True | Fault x \<Rightarrow> x = Panic ''std::terminate'' \<or> x = NullDereference"
  using assms
proof (induction es arbitrary: s)
  case (Cons e es)
  then have e: "\<And>v u. e \<noteq> TMove v u" by auto
  show ?case
  proof (cases "stackless_step e s")
    case (Next t)
    with Cons.IH [OF st_one_holder_step [OF Cons.prems(1) e Next]] Cons.prems(2) show ?thesis by simp
  next
    case (Fault x)
    with st_one_holder_fault [OF Cons.prems(1) e Fault] show ?thesis by auto
  qed simp
qed simp

text \<open>
  C26. In a program that does not move its \<open>Task\<close>s, a coroutine is suspended exactly when one \<open>Task\<close> or one awaiter in an
  executor refers to it, never two: it is resumed at most once, and only while it is suspended. All that can fail is
  to destroy a \<open>Task\<close> that was not fired, or to fire one twice.
\<close>

theorem task_held_once:
  assumes "\<forall>v u. TMove v u \<notin> set es"
  shows "case exec stackless_step es stackless_init of
      Next s \<Rightarrow> st_one_holder s
    | Disabled \<Rightarrow> True
    | Fault x \<Rightarrow> x = Panic ''std::terminate'' \<or> x = NullDereference"
  by (rule st_run_one_holder [OF st_one_holder_init assms])

theorem task_held_once_witness:
  "case exec stackless_step [TCreate 1 7, TFire ''x'' 1, TDispatch ''y'' 7, TRun 0, TYield 7] stackless_init of
     Next s \<Rightarrow> st_one_holder s \<and> st_frames s 7 = Some FSuspended \<and> st_pending s = [(''y'', 7)] | _ \<Rightarrow> False"
proof -
  let ?es = "[TCreate 1 7, TFire ''x'' 1, TDispatch ''y'' 7, TRun 0, TYield 7]"
  have "case exec stackless_step ?es stackless_init of
      Next s \<Rightarrow> st_one_holder s | Disabled \<Rightarrow> True | Fault x \<Rightarrow> x = Panic ''std::terminate'' \<or> x = NullDereference"
    by (rule task_held_once) simp
  then show ?thesis by (simp add: stackless_simps stackless_init_def)
qed

end
