(* ===== verification/Stackless_Sync.thy ===== *)
theory Stackless_Sync
  imports Fiber_Mutex One_Shot_Event
begin

section \<open>Synchronisation of stackless coroutines\<close>

text \<open>
  \<open>coroutine/stackless/sync/\<close>: an event, a wait group and a mutex for C++20 coroutines. Their words and lists are those of
  the fiber versions, and they are modelled from their own source on the same states, a \<open>tid\<close> being a coroutine. What
  differs is how a waiter is woken: \<open>handle_.resume()\<close> runs the waiter at once, inside the call of the one that
  wakes it. So each operation also says whom it resumed, and \<open>co_step\<close> keeps the coroutines that the threads are running,
  each thread as a stack of nested \<open>resume\<close> calls.
\<close>

subsection \<open>The operations of the event\<close>

definition sl_event_is_ready :: "'l event \<Rightarrow> bool" where
  "sl_event_is_ready s \<longleftrightarrow> ev_state s = ev_signaled"

text \<open>\<open>co_await event.WaitAsync()\<close>: \<open>await_ready\<close>, and if it is false the coroutine is suspended and \<open>await_suspend\<close> runs.\<close>

definition sl_event_wait_async :: "tid \<Rightarrow> addr \<Rightarrow> 'l event \<Rightarrow> (tid option \<times> 'l event) outcome" where
  "sl_event_wait_async t n s =
     (if ev_pc s t \<noteq> EvIdle \<or> n = 0 \<or> n = 1 \<or> ev_handle s n \<noteq> None then Disabled
      else if sl_event_is_ready s then Next (None, ev_return t s)
      else Next (None, ev_goto t (EvLoad n) (s\<lparr>ev_handle := (ev_handle s)(n := Some t)\<rparr>)))"

definition sl_event_try_enqueue :: "'l intrusive \<Rightarrow> tid \<Rightarrow> 'l event \<Rightarrow> (tid option \<times> 'l event) outcome" where
  "sl_event_try_enqueue L t s =
     (case ev_pc s t of
        EvLoad n \<Rightarrow>
          (let state = ev_state s in
           if state = ev_signaled then Next (None, ev_return t (s\<lparr>ev_handle := (ev_handle s)(n := None)\<rparr>))
           else let h = (if state = ev_no_waiters then il_reset_next L (ev_links s) n else il_set_next L (ev_links s) n state)
             in Next (None, ev_goto t (EvEnqueue n state) (s\<lparr>ev_links := h\<rparr>)))
      | EvEnqueue n state \<Rightarrow>
          (let (ok, st, _) = atomic_cas_strong (ev_state s) state n in
           Next (None, ev_goto t (if ok then EvParked n else EvLoad n) (s\<lparr>ev_state := st\<rparr>)))
      | _ \<Rightarrow> Disabled)"

definition sl_event_create_waiter_list :: "'l intrusive \<Rightarrow> addr \<Rightarrow> 'l event \<Rightarrow> fault + ('l \<times> links)" where
  "sl_event_create_waiter_list L head s =
     (if head = 0 then Inl (AssertFailed ''head'')
      else if ev_handle s head = None then Inl UseAfterFree
      else case walk L (push_back_item L) head (ev_links s, il_new L) of
        None \<Rightarrow> Inl DivergentLoop
      | Some (h, l) \<Rightarrow> Inr (l, h))"

text \<open>\<open>EventAwaiter::Resume\<close>: the coroutine goes on behind its \<open>co_await\<close>, where the awaiter dies.\<close>

definition sl_event_resume :: "addr \<Rightarrow> 'l event \<Rightarrow> (tid \<times> 'l event) outcome" where
  "sl_event_resume n s =
     (case ev_handle s n of
        None \<Rightarrow> Fault UseAfterFree
      | Some u \<Rightarrow> Next (u, ev_return u (s\<lparr>ev_handle := (ev_handle s)(n := None)\<rparr>)))"

definition sl_event_fire :: "tid \<Rightarrow> 'l event \<Rightarrow> (tid option \<times> 'l event) outcome" where
  "sl_event_fire t s =
     (if ev_pc s t \<noteq> EvIdle then Disabled
      else let (ok, st, state) = atomic_cas_strong (ev_state s) ev_no_waiters ev_signaled; s1 = s\<lparr>ev_state := st, ev_fired := True\<rparr> in
        Next (None, if ok \<or> state = ev_signaled then s1 else ev_goto t EvTake s1))"

definition sl_event_fire_impl :: "'l intrusive \<Rightarrow> tid \<Rightarrow> 'l event \<Rightarrow> (tid option \<times> 'l event) outcome" where
  "sl_event_fire_impl L t s =
     (case ev_pc s t of
        EvTake \<Rightarrow>
          (let (head, st) = atomic_exchange (ev_state s) ev_signaled in
           case sl_event_create_waiter_list L head (s\<lparr>ev_state := st\<rparr>) of
             Inl x \<Rightarrow> Fault x
           | Inr (waiters, h) \<Rightarrow> Next (None, ev_goto t (EvWake waiters) (s\<lparr>ev_state := st, ev_links := h\<rparr>)))
      | EvWake waiters \<Rightarrow>
          (if il_has_items L waiters
           then let (n, h, rest) = il_pop_front L (ev_links s) waiters in
             case sl_event_resume n (s\<lparr>ev_links := h\<rparr>) of
               Next (u, s1) \<Rightarrow> Next (Some u, ev_goto t (EvWake rest) s1)
             | Disabled \<Rightarrow> Disabled
             | Fault x \<Rightarrow> Fault x
           else Next (None, ev_goto t EvIdle s))
      | _ \<Rightarrow> Disabled)"

fun sl_event_step :: "'l intrusive \<Rightarrow> event_call \<Rightarrow> 'l event \<Rightarrow> (tid option \<times> 'l event) outcome" where
  "sl_event_step L (EvCallWait t n) s = sl_event_wait_async t n s"
| "sl_event_step L (EvCallFire t) s = sl_event_fire t s"
| "sl_event_step L (EvCallRun t) s =
     (case ev_pc s t of
        EvLoad _ \<Rightarrow> sl_event_try_enqueue L t s
      | EvEnqueue _ _ \<Rightarrow> sl_event_try_enqueue L t s
      | _ \<Rightarrow> sl_event_fire_impl L t s)"

lemmas sl_event_simps =
  sl_event_is_ready_def sl_event_wait_async_def sl_event_try_enqueue_def sl_event_create_waiter_list_def sl_event_resume_def
  sl_event_fire_def sl_event_fire_impl_def

subsection \<open>The operations of the mutex\<close>

definition sl_mutex_try_lock :: "'l mutex \<Rightarrow> bool \<times> 'l mutex" where
  "sl_mutex_try_lock s =
     (let (ok, st, _) = atomic_cas_strong (mx_state s) mx_unlocked mx_locked_no_waiters in (ok, s\<lparr>mx_state := st\<rparr>))"

text \<open>\<open>co_await mutex.ScopedLock()\<close>: \<open>await_ready\<close> is \<open>TryLock\<close>; else the coroutine is suspended and \<open>await_suspend\<close> runs.\<close>

definition sl_mutex_scoped_lock :: "tid \<Rightarrow> addr \<Rightarrow> 'l mutex \<Rightarrow> (tid option \<times> 'l mutex) outcome" where
  "sl_mutex_scoped_lock t n s =
     (if mx_pc s t \<noteq> MxIdle \<or> n = 0 \<or> n = 1 \<or> mx_handle s n \<noteq> None then Disabled
      else let (ready, s1) = sl_mutex_try_lock s in
        Next (None, if ready then mx_goto t MxOwner s1
                    else mx_goto t (MxLoad n) (s1\<lparr>mx_handle := (mx_handle s1)(n := Some t)\<rparr>)))"

definition sl_mutex_try_lock_or_enqueue :: "'l intrusive \<Rightarrow> tid \<Rightarrow> 'l mutex \<Rightarrow> (tid option \<times> 'l mutex) outcome" where
  "sl_mutex_try_lock_or_enqueue L t s =
     (case mx_pc s t of
        MxLoad n \<Rightarrow>
          (let state = mx_state s in
           if state = mx_unlocked then Next (None, mx_goto t (MxTryLock n) s)
           else let h = (if state = mx_locked_no_waiters then il_reset_next L (mx_links s) n else il_set_next L (mx_links s) n state)
             in Next (None, mx_goto t (MxEnqueue n state) (s\<lparr>mx_links := h\<rparr>)))
      | MxTryLock n \<Rightarrow>
          (let (ok, s1) = sl_mutex_try_lock s in
           Next (None, if ok then mx_goto t MxOwner (s1\<lparr>mx_handle := (mx_handle s1)(n := None)\<rparr>) else mx_goto t (MxLoad n) s1))
      | MxEnqueue n state \<Rightarrow>
          (let (ok, st, _) = atomic_cas_strong (mx_state s) state n in
           Next (None, mx_goto t (if ok then MxParked n else MxLoad n) (s\<lparr>mx_state := st\<rparr>)))
      | _ \<Rightarrow> Disabled)"

definition sl_mutex_append_to_list :: "'l intrusive \<Rightarrow> addr \<Rightarrow> 'l mutex \<Rightarrow> 'l mutex outcome" where
  "sl_mutex_append_to_list L head s =
     (if \<not> il_is_empty L (mx_waiters s) then Fault (AssertFailed ''waiters_.IsEmpty()'')
      else case walk L (push_back_item L) head (mx_links s, mx_waiters s) of
        None \<Rightarrow> Fault DivergentLoop
      | Some (h, l) \<Rightarrow> Next (s\<lparr>mx_links := h, mx_waiters := l\<rparr>))"

text \<open>\<open>Locker::Resume\<close>: the coroutine goes on behind its \<open>co_await\<close>, where \<open>await_resume\<close> makes it the owner.\<close>

definition sl_mutex_resume :: "addr \<Rightarrow> 'l mutex \<Rightarrow> (tid \<times> 'l mutex) outcome" where
  "sl_mutex_resume n s =
     (case mx_handle s n of
        None \<Rightarrow> Fault UseAfterFree
      | Some u \<Rightarrow> Next (u, mx_goto u MxOwner (s\<lparr>mx_handle := (mx_handle s)(n := None)\<rparr>)))"

definition sl_mutex_resume_next_waiter :: "'l intrusive \<Rightarrow> tid \<Rightarrow> 'l mutex \<Rightarrow> (tid option \<times> 'l mutex) outcome" where
  "sl_mutex_resume_next_waiter L t s =
     (if \<not> il_has_items L (mx_waiters s) then Fault (AssertFailed ''waiters_.HasItems()'')
      else let (n, h, l) = il_pop_front L (mx_links s) (mx_waiters s) in
        case sl_mutex_resume n (mx_goto t MxIdle (s\<lparr>mx_links := h, mx_waiters := l\<rparr>)) of
          Next (u, s1) \<Rightarrow> Next (Some u, s1)
        | Disabled \<Rightarrow> Disabled
        | Fault x \<Rightarrow> Fault x)"

definition sl_mutex_unlock :: "'l intrusive \<Rightarrow> tid \<Rightarrow> 'l mutex \<Rightarrow> (tid option \<times> 'l mutex) outcome" where
  "sl_mutex_unlock L t s =
     (if mx_pc s t \<noteq> MxOwner then Disabled
      else if il_has_items L (mx_waiters s) then sl_mutex_resume_next_waiter L t s
      else Next (None, mx_goto t MxRelLoad s))"

definition sl_mutex_release :: "'l intrusive \<Rightarrow> tid \<Rightarrow> 'l mutex \<Rightarrow> (tid option \<times> 'l mutex) outcome" where
  "sl_mutex_release L t s =
     (case mx_pc s t of
        MxRelLoad \<Rightarrow> Next (None, mx_goto t (if mx_state s = mx_locked_no_waiters then MxRelUnlock else MxRelTake) s)
      | MxRelUnlock \<Rightarrow>
          (let (ok, st, _) = atomic_cas_strong (mx_state s) mx_locked_no_waiters mx_unlocked in
           Next (None, mx_goto t (if ok then MxIdle else MxRelLoad) (s\<lparr>mx_state := st\<rparr>)))
      | MxRelTake \<Rightarrow>
          (let (head, st) = atomic_exchange (mx_state s) mx_locked_no_waiters in
           case sl_mutex_append_to_list L head (s\<lparr>mx_state := st\<rparr>) of
             Next s1 \<Rightarrow> sl_mutex_resume_next_waiter L t s1
           | Disabled \<Rightarrow> Disabled
           | Fault x \<Rightarrow> Fault x)
      | _ \<Rightarrow> Disabled)"

fun sl_mutex_step :: "'l intrusive \<Rightarrow> mutex_event \<Rightarrow> 'l mutex \<Rightarrow> (tid option \<times> 'l mutex) outcome" where
  "sl_mutex_step L (MxEvTryLock t) s =
     (if mx_pc s t \<noteq> MxIdle then Disabled
      else let (ok, s1) = sl_mutex_try_lock s in Next (None, if ok then mx_goto t MxOwner s1 else s1))"
| "sl_mutex_step L (MxEvLock t n) s = sl_mutex_scoped_lock t n s"
| "sl_mutex_step L (MxEvUnlock t) s = sl_mutex_unlock L t s"
| "sl_mutex_step L (MxEvRun t) s =
     (case mx_pc s t of
        MxLoad _ \<Rightarrow> sl_mutex_try_lock_or_enqueue L t s
      | MxTryLock _ \<Rightarrow> sl_mutex_try_lock_or_enqueue L t s
      | MxEnqueue _ _ \<Rightarrow> sl_mutex_try_lock_or_enqueue L t s
      | _ \<Rightarrow> sl_mutex_release L t s)"

lemmas sl_mutex_simps =
  sl_mutex_try_lock_def sl_mutex_scoped_lock_def sl_mutex_try_lock_or_enqueue_def sl_mutex_append_to_list_def sl_mutex_resume_def
  sl_mutex_resume_next_waiter_def sl_mutex_unlock_def sl_mutex_release_def

subsection \<open>They are the algorithms of the fibers\<close>

lemma sl_mutex_append: "sl_mutex_append_to_list = mx_append_to_list"
  by (intro ext) (simp add: sl_mutex_append_to_list_def mx_append_to_list_def)

lemma sl_mutex_resume_next:
  "map_outcome snd (sl_mutex_resume_next_waiter L t s) = mx_resume_next_waiter L t s"
  by (simp add: sl_mutex_resume_next_waiter_def mx_resume_next_waiter_def sl_mutex_resume_def mx_goto_def split: prod.splits option.splits)


lemma sl_mutex_lock_eqs:
  "sl_mutex_try_lock s = mx_try_lock s"
  "map_outcome snd (sl_mutex_scoped_lock t n s) = mx_lock t n s"
  "map_outcome snd (sl_mutex_try_lock_or_enqueue L t s) = mx_try_lock_or_enqueue L t s"
  by (auto simp: sl_mutex_try_lock_def mx_try_lock_def sl_mutex_scoped_lock_def mx_lock_def sl_mutex_try_lock_or_enqueue_def
      mx_try_lock_or_enqueue_def Let_def split: prod.splits mutex_pc.splits)

lemma sl_mutex_unlock_eqs:
  "map_outcome snd (sl_mutex_unlock L t s) = mx_unlock L t s"
  "map_outcome snd (sl_mutex_release L t s) = mx_release L t s"
  by (auto simp: sl_mutex_unlock_def mx_unlock_def sl_mutex_resume_next sl_mutex_release_def mx_release_def sl_mutex_append
      split: prod.splits mutex_pc.splits outcome.splits)

lemma sl_mutex_step_forget: "map_outcome snd (sl_mutex_step L e s) = mutex_step L e s"
  by (cases e) (auto simp: sl_mutex_lock_eqs sl_mutex_unlock_eqs split: mutex_pc.splits prod.splits)

lemma sl_event_wait_eqs:
  "map_outcome snd (sl_event_wait_async t n s) = ev_wait t n s"
  "map_outcome snd (sl_event_try_enqueue L t s) = ev_try_enqueue L t s"
  by (auto simp: sl_event_wait_async_def ev_wait_def sl_event_is_ready_def ev_is_ready_def sl_event_try_enqueue_def
      ev_try_enqueue_def Let_def split: prod.splits event_pc.splits)

lemma sl_event_create: "sl_event_create_waiter_list = ev_create_waiter_list"
  by (intro ext) (simp add: sl_event_create_waiter_list_def ev_create_waiter_list_def)

lemma sl_event_fire_eqs:
  "map_outcome snd (sl_event_fire t s) = ev_fire t s"
  "map_outcome snd (sl_event_fire_impl L t s) = ev_fire_impl L t s"
  by (auto simp: sl_event_fire_def ev_fire_def sl_event_fire_impl_def ev_fire_impl_def sl_event_create sl_event_resume_def
      Let_def split: prod.splits event_pc.splits sum.splits option.splits)

lemma sl_event_step_forget: "map_outcome snd (sl_event_step L e s) = event_step L e s"
  by (cases e) (auto simp: sl_event_wait_eqs sl_event_fire_eqs split: event_pc.splits)


subsection \<open>Coroutines on the stacks of the threads\<close>

text \<open>
  \<open>co_stacks\<close>: for each thread the coroutines it is running, the innermost \<open>resume\<close> first. Only the first of a stack moves.
  A coroutine that suspends or returns leaves its stack, and the one below goes on inside its own call. To resume a
  coroutine that is not suspended is undefined, and fails. \<open>CoStart\<close> and \<open>CoSuspend\<close> are what the coroutine does outside
  the lock.
\<close>

record 's co =
  co_base :: 's
  co_stacks :: "tid list list"

datatype 'e co_event = CoDo 'e | CoStart tid | CoSuspend tid

definition co_init :: "'s \<Rightarrow> 's co" where
  "co_init s = \<lparr>co_base = s, co_stacks = []\<rparr>"

definition co_runs :: "tid \<Rightarrow> tid list list \<Rightarrow> bool" where
  "co_runs t stacks \<longleftrightarrow> (\<exists>st\<in>set stacks. st \<noteq> [] \<and> hd st = t)"

definition co_leave :: "tid \<Rightarrow> tid list list \<Rightarrow> tid list list" where
  "co_leave t stacks = map (\<lambda>st. if st \<noteq> [] \<and> hd st = t then tl st else st) stacks"

definition co_nest :: "tid \<Rightarrow> tid \<Rightarrow> tid list list \<Rightarrow> tid list list" where
  "co_nest t u stacks = map (\<lambda>st. if st \<noteq> [] \<and> hd st = t then u # st else st) stacks"

definition co_do ::
    "('e \<Rightarrow> tid) \<Rightarrow> ('e \<Rightarrow> 's \<Rightarrow> (tid option \<times> 's) outcome) \<Rightarrow> ('s \<Rightarrow> tid \<Rightarrow> bool) \<Rightarrow> 'e \<Rightarrow> 's co \<Rightarrow> 's co outcome" where
  "co_do who step parked e s =
     (if \<not> co_runs (who e) (co_stacks s) then Disabled
      else case step e (co_base s) of
        Disabled \<Rightarrow> Disabled
      | Fault x \<Rightarrow> Fault x
      | Next (None, b) \<Rightarrow>
          Next \<lparr>co_base = b, co_stacks = (if parked b (who e) then co_leave (who e) (co_stacks s) else co_stacks s)\<rparr>
      | Next (Some u, b) \<Rightarrow>
          (if u \<in> set (concat (co_stacks s)) then Fault (Panic ''resume of a coroutine that runs'')
           else Next \<lparr>co_base = b, co_stacks = co_nest (who e) u (co_stacks s)\<rparr>))"

fun co_step ::
    "('e \<Rightarrow> tid) \<Rightarrow> ('e \<Rightarrow> 's \<Rightarrow> (tid option \<times> 's) outcome) \<Rightarrow> ('s \<Rightarrow> tid \<Rightarrow> bool) \<Rightarrow> 'e co_event \<Rightarrow> 's co \<Rightarrow> 's co outcome" where
  "co_step who step parked (CoDo e) s = co_do who step parked e s"
| "co_step who step parked (CoStart t) s =
     (if parked (co_base s) t \<or> t \<in> set (concat (co_stacks s)) then Disabled else Next (s\<lparr>co_stacks := [t] # co_stacks s\<rparr>))"
| "co_step who step parked (CoSuspend t) s =
     (if co_runs t (co_stacks s) then Next (s\<lparr>co_stacks := co_leave t (co_stacks s)\<rparr>) else Disabled)"

lemmas co_simps = co_init_def co_runs_def co_leave_def co_nest_def co_do_def

lemma co_leave_set: "set (concat (co_leave t stacks)) \<subseteq> set (concat stacks)"
  by (fastforce simp: co_leave_def dest: list.set_sel(2) split: if_splits)

lemma co_leave_distinct:
  "distinct (concat stacks) \<Longrightarrow> distinct (concat (co_leave t stacks))"
proof (induction stacks)
  case (Cons st stacks)
  let ?st = "if st \<noteq> [] \<and> hd st = t then tl st else st"
  have st: "set ?st \<subseteq> set st" "distinct ?st" using Cons.prems by (cases st; auto)+
  have d: "distinct (concat (co_leave t stacks))" "set st \<inter> set (concat stacks) = {}"
    using Cons by (simp_all del: set_concat)
  have "set ?st \<inter> set (concat (co_leave t stacks)) = {}" using st(1) d(2) co_leave_set [of t stacks] by blast
  with st(2) d(1) have "distinct (?st @ concat (co_leave t stacks))" by simp
  moreover have "co_leave t (st # stacks) = ?st # co_leave t stacks" by (simp add: co_leave_def)
  ultimately show ?case by simp
qed (simp add: co_leave_def)

lemma co_leave_gone:
  assumes "distinct (concat stacks)" "co_runs t stacks"
  shows "t \<notin> set (concat (co_leave t stacks))"
  using assms
proof (induction stacks)
  case (Cons st stacks)
  show ?case
  proof (cases "st \<noteq> [] \<and> hd st = t")
    case True
    then obtain ys where st: "st = t # ys" by (cases st) auto
    with Cons.prems have "t \<notin> set (concat stacks)" by auto
    with co_leave_set [of t stacks] st Cons.prems(1) show ?thesis by (auto simp: co_leave_def)
  next
    case False
    with Cons.prems(2) have r: "co_runs t stacks" by (auto simp: co_runs_def)
    then have "t \<in> set (concat stacks)" by (auto simp: co_runs_def intro: list.set_sel(1))
    with Cons r False show ?thesis by (auto simp: co_leave_def)
  qed
qed (simp add: co_runs_def)

lemma co_nest_absent: "t \<notin> set (concat stacks) \<Longrightarrow> co_nest t u stacks = stacks"
  by (induction stacks) (auto simp: co_nest_def)

lemma co_nest_distinct:
  assumes "distinct (concat stacks)" "u \<notin> set (concat stacks)"
  shows "distinct (concat (co_nest t u stacks)) \<and> set (concat (co_nest t u stacks)) \<subseteq> insert u (set (concat stacks))"
  using assms
proof (induction stacks)
  case (Cons st stacks)
  show ?case
  proof (cases "st \<noteq> [] \<and> hd st = t")
    case True
    then have "t \<in> set st" by auto
    with Cons.prems(1) have "t \<notin> set (concat stacks)" by auto
    from co_nest_absent [OF this] have "co_nest t u (st # stacks) = (u # st) # stacks" using True by (simp add: co_nest_def)
    with Cons.prems show ?thesis by auto
  next
    case False
    then have "co_nest t u (st # stacks) = st # co_nest t u stacks" by (simp add: co_nest_def)
    with Cons show ?thesis by auto
  qed
qed (simp add: co_nest_def)

text \<open>
  The contract of an object whose waiters are resumed: it never fails, and whoever it resumes was parked. Then, with the
  calls nested, no coroutine runs twice, and none is resumed while it runs.
\<close>

locale resumer =
  fixes who :: "'e \<Rightarrow> tid"
    and step :: "'e \<Rightarrow> 's \<Rightarrow> (tid option \<times> 's) outcome"
    and parked :: "'s \<Rightarrow> tid \<Rightarrow> bool"
    and init :: 's
    and inv :: "'s \<Rightarrow> bool"
  assumes base: "guarded_machine (\<lambda>e s. map_outcome snd (step e s)) init inv"
    and resumed: "inv s \<Longrightarrow> step e s = Next (Some u, b) \<Longrightarrow> parked s u \<and> \<not> parked b u"
    and others: "inv s \<Longrightarrow> step e s = Next (r, b) \<Longrightarrow> v \<noteq> who e \<Longrightarrow> r \<noteq> Some v \<Longrightarrow> parked b v \<longleftrightarrow> parked s v"
    and self: "inv s \<Longrightarrow> step e s = Next (Some u, b) \<Longrightarrow> \<not> parked b (who e)"
begin

definition co_inv :: "'s co \<Rightarrow> bool" where
  "co_inv s \<longleftrightarrow> inv (co_base s) \<and> distinct (concat (co_stacks s)) \<and> (\<forall>v\<in>set (concat (co_stacks s)). \<not> parked (co_base s) v)"

lemma co_inv_do:
  assumes I: "co_inv s"
  shows "lands_in co_inv (co_do who step parked e s)"
proof (cases "co_runs (who e) (co_stacks s)")
  case r: True
  from I have i: "inv (co_base s)" and d: "distinct (concat (co_stacks s))"
    and p: "\<And>v. v \<in> set (concat (co_stacks s)) \<Longrightarrow> \<not> parked (co_base s) v" by (auto simp: co_inv_def)
  show ?thesis
  proof (cases "step e (co_base s)")
    case (Fault x)
    with guarded_machine.gm_no_fault [OF base i, of e x] show ?thesis by simp
  next
    case (Next rb)
    obtain u b where rb: "rb = (u, b)" by (cases rb)
    have ib: "inv b" using guarded_machine.gm_step [OF base i, of e b] Next rb by simp
    show ?thesis
    proof (cases u)
      case None
      have keep: "\<not> parked b v" if "v \<in> set (concat (co_stacks s))" "v \<noteq> who e" for v
        using others [OF i, of e u b v] Next rb None that p by simp
      have "\<not> parked b v" if "v \<in> set (concat (co_leave (who e) (co_stacks s)))" for v
        using keep [of v] that co_leave_set [of "who e" "co_stacks s"] co_leave_gone [OF d r] by blast
      with Next rb None r ib d keep co_leave_distinct [OF d, of "who e"] show ?thesis
        by (auto simp: co_do_def co_inv_def simp del: set_concat)
    next
      case (Some w)
      have w: "parked (co_base s) w" "\<not> parked b w" using resumed [OF i, of e w b] Next rb Some by simp_all
      then have nw: "w \<notin> set (concat (co_stacks s))" using p by blast
      note n = co_nest_distinct [OF d nw, of "who e"]
      have "\<not> parked b v" if "v \<in> set (concat (co_nest (who e) w (co_stacks s)))" for v
      proof (cases "v = w \<or> v = who e")
        case False
        with n that have "v \<in> set (concat (co_stacks s))" by blast
        with False others [OF i, of e u b v] Next rb Some p show ?thesis by simp
      qed (use w self [OF i, of e w b] Next rb Some in auto)
      with Next rb Some r ib nw n show ?thesis by (simp add: co_do_def co_inv_def del: set_concat)
    qed
  qed (simp add: co_do_def)
qed (simp add: co_do_def)

lemma resumer_inv_step: "co_inv s \<Longrightarrow> lands_in co_inv (co_step who step parked e s)"
proof (cases e)
  case (CoSuspend t)
  assume I: "co_inv s"
  then show ?thesis using CoSuspend co_leave_distinct [of "co_stacks s" t] co_leave_set [of t "co_stacks s"]
    by (simp add: co_inv_def del: set_concat) blast
qed (use co_inv_do in \<open>auto simp: co_inv_def\<close>)

lemma co_machine: "guarded_machine (co_step who step parked) (co_init init) co_inv"
  by (rule guarded_machineI [OF _ resumer_inv_step]) (simp add: co_inv_def co_init_def guarded_machine.gm_init [OF base])

lemma co_reaches: "exec (co_step who step parked) es (co_init init) = Next s \<Longrightarrow> co_inv s"
  by (rule guarded_machine.gm_exec_inv [OF co_machine])

lemma co_no_fault: "exec (co_step who step parked) es (co_init init) \<noteq> Fault x"
  by (rule guarded_machine.gm_exec_no_fault [OF co_machine])

text \<open>The nested calls only restrict who can move: without the stacks it is a run of the object.\<close>

lemma co_step_base:
  "co_step who step parked e s = Next t \<Longrightarrow>
    co_base t = co_base s \<or> (\<exists>a. map_outcome snd (step a (co_base s)) = Next (co_base t))"
proof (cases e)
  case (CoDo a)
  moreover assume "co_step who step parked e s = Next t"
  ultimately have "map_outcome snd (step a (co_base s)) = Next (co_base t)"
    by (auto simp: co_do_def split: if_splits outcome.splits option.splits)
  then show ?thesis by blast
qed (auto split: if_splits)

lemma co_refines: "exec (co_step who step parked) es (co_init init) = Next s \<Longrightarrow>
    \<exists>as. exec (\<lambda>e s. map_outcome snd (step e s)) as init = Next (co_base s)"
proof -
  assume e: "exec (co_step who step parked) es (co_init init) = Next s"
  have "machine_refinement (co_step who step parked) (co_init init) (\<lambda>_. co_inv) (length es)
      (\<lambda>e s. map_outcome snd (step e s)) co_base"
    by (intro machine_refinement.intro machine_refinement_axioms.intro guarded_machine.gm_counted [OF co_machine] co_step_base)
  from machine_refinement.mr_exec [OF this e] show ?thesis by (simp add: co_init_def)
qed

end


subsection \<open>The mutex and the event keep the contract\<close>

fun mx_who :: "mutex_event \<Rightarrow> tid" where
  "mx_who (MxEvTryLock t) = t" | "mx_who (MxEvLock t n) = t" | "mx_who (MxEvUnlock t) = t" | "mx_who (MxEvRun t) = t"

definition mx_parked :: "'l mutex \<Rightarrow> tid \<Rightarrow> bool" where
  "mx_parked s t \<longleftrightarrow> (case mx_pc s t of MxParked _ \<Rightarrow> True | _ \<Rightarrow> False)"

fun ev_who :: "event_call \<Rightarrow> tid" where
  "ev_who (EvCallWait t n) = t" | "ev_who (EvCallFire t) = t" | "ev_who (EvCallRun t) = t"

definition ev_parked_at :: "'l event \<Rightarrow> tid \<Rightarrow> bool" where
  "ev_parked_at s t \<longleftrightarrow> (case ev_pc s t of EvParked _ \<Rightarrow> True | _ \<Rightarrow> False)"

lemma mx_parked_iff: "mx_parked s t \<longleftrightarrow> (\<exists>n. mx_pc s t = MxParked n)"
  by (simp add: mx_parked_def split: mutex_pc.splits)

lemma ev_parked_iff: "ev_parked_at s t \<longleftrightarrow> (\<exists>n. ev_pc s t = EvParked n)"
  by (simp add: ev_parked_at_def split: event_pc.splits)

lemma stays_put: "\<exists>p. f = f(x := p)"
  by (metis fun_upd_triv)

text \<open>A step moves the one that acts, and the one it resumes.\<close>

lemma sl_mutex_moves:
  assumes "sl_mutex_step L e s = Next (r, b)"
  shows "case r of
      None \<Rightarrow> \<exists>p. mx_pc b = (mx_pc s)(mx_who e := p)
    | Some u \<Rightarrow> mx_pc b = (mx_pc s)(mx_who e := MxIdle, u := MxOwner)"
proof -
  have nxt: "\<exists>u. r = Some u \<and> mx_pc b = (mx_pc s)(t := MxIdle, u := MxOwner)"
    if "sl_mutex_resume_next_waiter L t s = Next (r, b)" for t r b and s :: "'a mutex"
    using that by (auto simp: sl_mutex_resume_next_waiter_def sl_mutex_resume_def mx_goto_def
        dest!: sym [of "Some _"] split: if_splits prod.splits option.splits)
  show ?thesis
  proof (cases e)
    case (MxEvUnlock t)
    with assms nxt [of t s r b] show ?thesis
      by (auto simp: sl_mutex_unlock_def mx_goto_def split: if_splits option.splits)
  next
    case (MxEvRun t)
    show ?thesis
    proof (cases "mx_pc s t = MxRelTake")
      case True
      with MxEvRun assms obtain s1 where
        "sl_mutex_append_to_list L (mx_state s) (s\<lparr>mx_state := mx_locked_no_waiters\<rparr>) = Next s1"
        "sl_mutex_resume_next_waiter L t s1 = Next (r, b)"
        by (auto simp: sl_mutex_release_def atomic_simps split: outcome.splits)
      moreover from this(1) have "mx_pc s1 = mx_pc s" by (auto simp: sl_mutex_append_to_list_def split: if_splits option.splits)
      ultimately show ?thesis using nxt [of t s1 r b] MxEvRun by (auto split: option.splits)
    next
      case False
      with MxEvRun assms show ?thesis
        by (auto simp: sl_mutex_release_def sl_mutex_try_lock_or_enqueue_def sl_mutex_try_lock_def mx_goto_def Let_def
            split: mutex_pc.splits prod.splits if_splits)
    qed
  qed (use assms in \<open>auto simp: sl_mutex_scoped_lock_def sl_mutex_try_lock_def mx_goto_def intro: stays_put split: if_splits prod.splits\<close>)
qed

context intrusive_list
begin

lemma sl_mutex_machine: "guarded_machine (\<lambda>e s. map_outcome snd (sl_mutex_step L e s)) (mutex_init L) (mutex_inv rep)"
  unfolding sl_mutex_step_forget by (rule mutex_machine)

lemma sl_mutex_resumes_parked:
  assumes M: "mutex_inv rep s" and n: "sl_mutex_step L e s = Next (Some u, b)"
  shows "mx_parked s u \<and> mx_pc b u = MxOwner \<and> mx_who e \<noteq> u"
proof -
  from M obtain own xs ws where I: "mutex_inv_with rep own xs ws s" by (auto simp: mutex_inv_def)
  have pc: "mx_pc b = (mx_pc s)(mx_who e := MxIdle, u := MxOwner)" using sl_mutex_moves [OF n] by simp
  have st: "mutex_step L e s = Next b" using sl_mutex_step_forget [of L e s] n by simp
  have "\<exists>v. mx_parked s v \<and> mx_pc b v = MxOwner"
  proof (cases "\<exists>t. e = MxEvUnlock t")
    case True
    then obtain t where e: "e = MxEvUnlock t" by blast
    with n have o: "mx_pc s t = MxOwner" and h: "il_has_items L (mx_waiters s)"
      by (auto simp: sl_mutex_unlock_def split: if_splits)
    then obtain m ws' where ws: "ws = m # ws'" using rep_has_items [OF mxI_rep [OF I]] by (cases ws) auto
    have own: "own = Some t" using mxI_holds [OF I, of t] o by simp
    obtain m' h' l where p: "il_pop_front L (mx_links s) (mx_waiters s) = (m', h', l)"
      by (cases "il_pop_front L (mx_links s) (mx_waiters s)") auto
    from mutex_inv_hand_over [OF I [unfolded own ws] p] obtain v where v: "m' = m" "mx_handle s m = Some v" "mx_pc s v = MxParked m"
      by blast
    with st e o h p have "mx_pc b v = MxOwner"
      by (auto simp: mx_unlock_def mx_resume_next_waiter_def mx_goto_def)
    with v(3) show ?thesis by (auto simp: mx_parked_iff)
  next
    case False
    with n obtain t where e: "e = MxEvRun t" "mx_pc s t = MxRelTake"
      by (cases e) (auto simp: sl_mutex_scoped_lock_def sl_mutex_try_lock_or_enqueue_def sl_mutex_release_def Let_def
          split: if_splits mutex_pc.splits prod.splits)
    from mutex_take_step [OF I e(2)] st e show ?thesis by (auto simp: mx_parked_iff)
  qed
  then obtain v where v: "mx_parked s v" "mx_pc b v = MxOwner" by blast
  with pc have "v = u" by (auto simp: mx_parked_iff split: if_splits)
  moreover have "mx_who e \<noteq> u"
  proof
    assume w: "mx_who e = u"
    with v \<open>v = u\<close> obtain m where "mx_pc s (mx_who e) = MxParked m" by (auto simp: mx_parked_iff)
    with n show False by (cases e) (auto simp: sl_mutex_scoped_lock_def sl_mutex_unlock_def sl_mutex_release_def split: if_splits)
  qed
  ultimately show ?thesis using v by simp
qed

end

lemma intrusive_list_co_mutex:
  assumes "intrusive_list L rep"
  shows "resumer mx_who (sl_mutex_step L) mx_parked (mutex_init L) (mutex_inv rep)"
proof (rule resumer.intro)
  show "guarded_machine (\<lambda>e s. map_outcome snd (sl_mutex_step L e s)) (mutex_init L) (mutex_inv rep)" by (rule intrusive_list.sl_mutex_machine [OF assms])
next
  fix s e u b assume "mutex_inv rep s" "sl_mutex_step L e s = Next (Some u, b)"
  from intrusive_list.sl_mutex_resumes_parked [OF assms this] sl_mutex_moves [OF this(2)]
  show "mx_parked s u \<and> \<not> mx_parked b u" "\<not> mx_parked b (mx_who e)" by (simp_all add: mx_parked_iff)
next
  fix s e r b v assume "sl_mutex_step L e s = Next (r, b)" "v \<noteq> mx_who e" "r \<noteq> Some v"
  with sl_mutex_moves [OF this(1)] show "mx_parked b v \<longleftrightarrow> mx_parked s v" by (auto simp: mx_parked_def split: option.splits)
qed


sublocale intrusive_list \<subseteq> co_mutex: resumer mx_who "sl_mutex_step L" mx_parked "mutex_init L" "mutex_inv rep"
  by (rule intrusive_list_co_mutex [OF intrusive_list_axioms])

lemma sl_event_moves:
  assumes "sl_event_step L e s = Next (r, b)"
  shows "case r of
      None \<Rightarrow> \<exists>p. ev_pc b = (ev_pc s)(ev_who e := p)
    | Some u \<Rightarrow> \<exists>l l'. ev_pc s (ev_who e) = EvWake l \<and> ev_pc b = (ev_pc s)(u := EvIdle, ev_who e := EvWake l')"
proof (cases e)
  case (EvCallRun t)
  show ?thesis
  proof (cases "ev_pc s t")
    case (EvWake l)
    with EvCallRun assms show ?thesis
      by (auto simp: sl_event_fire_impl_def sl_event_resume_def ev_return_def ev_goto_def dest!: sym [of "Some _"]
          split: if_splits prod.splits option.splits)
  qed (use assms EvCallRun in \<open>auto simp: sl_event_try_enqueue_def sl_event_fire_impl_def ev_return_def ev_goto_def Let_def atomic_simps
      split: if_splits prod.splits sum.splits\<close>)
qed (use assms in \<open>auto simp: sl_event_wait_async_def sl_event_fire_def ev_return_def ev_goto_def Let_def
      intro: stays_put split: if_splits prod.splits\<close>)

context intrusive_list
begin

lemma sl_event_barring_forget:
  "map_outcome snd (barring (sl_event_step L) ev_overlap e s) = barring (event_step L) ev_overlap e s"
  by (simp add: barring_def sl_event_step_forget)

lemma sl_event_machine:
  "guarded_machine (\<lambda>e s. map_outcome snd (barring (sl_event_step L) ev_overlap e s)) event_init (event_inv rep)"
  unfolding sl_event_barring_forget by (rule event_machine)

lemma sl_event_resumes_parked:
  assumes E: "event_inv rep s" and n: "sl_event_step L e s = Next (Some u, b)"
  shows "ev_parked_at s u"
proof -
  from E obtain f xs ys where I: "event_inv_with rep f xs ys s" by (auto simp: event_inv_def)
  from sl_event_moves [OF n] obtain l l' where w: "ev_pc s (ev_who e) = EvWake l"
    and pc: "ev_pc b = (ev_pc s)(u := EvIdle, ev_who e := EvWake l')" by auto
  obtain t where e: "e = EvCallRun t"
    using n w by (cases e) (auto simp: sl_event_wait_async_def sl_event_fire_def split: if_splits)
  with w have w: "ev_pc s t = EvWake l" by simp
  have r: "rep (ev_links s) l ys" using evI(4) [OF I, of t] w by simp
  have n': "sl_event_fire_impl L t s = Next (Some u, b)" using n e w by simp
  then have "ys \<noteq> []" using rep_has_items [OF r] w by (auto simp: sl_event_fire_impl_def)
  then obtain m ys' where ys: "ys = m # ys'" by (cases ys) auto
  obtain m' h l'' where p: "il_pop_front L (ev_links s) l = (m', h, l'')" by (cases "il_pop_front L (ev_links s) l") auto
  have J: "event_inv_with rep f xs (m # ys') s" "ev_pc s t = EvWake l" using I ys w by simp_all
  from event_inv_wake [OF J p] obtain v where
    v: "m' = m" "ev_handle s m = Some v" "ev_pc s v = EvParked m" by blast
  with n' p w have "v = u" by (auto simp: sl_event_fire_impl_def sl_event_resume_def split: if_splits)
  with v show ?thesis by (auto simp: ev_parked_iff)
qed

end

lemma intrusive_list_co_event:
  assumes "intrusive_list L rep"
  shows "resumer ev_who (barring (sl_event_step L) ev_overlap) ev_parked_at event_init (event_inv rep)"
proof (rule resumer.intro)
  show "guarded_machine (\<lambda>e s. map_outcome snd (barring (sl_event_step L) ev_overlap e s)) event_init (event_inv rep)"
    by (rule intrusive_list.sl_event_machine [OF assms])
next
  fix s e u b assume "event_inv rep s" "barring (sl_event_step L) ev_overlap e s = Next (Some u, b)"
  then have E: "event_inv rep s" and n: "sl_event_step L e s = Next (Some u, b)" by (simp_all add: barring_Next)
  from intrusive_list.sl_event_resumes_parked [OF assms E n] sl_event_moves [OF n]
  show "ev_parked_at s u \<and> \<not> ev_parked_at b u" "\<not> ev_parked_at b (ev_who e)" by (auto simp: ev_parked_iff split: if_splits)
next
  fix s e r b v assume b: "barring (sl_event_step L) ev_overlap e s = Next (r, b)" and v: "v \<noteq> ev_who e" "r \<noteq> Some v"
  from b have "sl_event_step L e s = Next (r, b)" by (simp add: barring_Next)
  from sl_event_moves [OF this] v show "ev_parked_at b v \<longleftrightarrow> ev_parked_at s v"
    by (auto simp: ev_parked_at_def split: option.splits)
qed


sublocale intrusive_list \<subseteq> co_event: resumer ev_who "barring (sl_event_step L) ev_overlap" ev_parked_at event_init "event_inv rep"
  by (rule intrusive_list_co_event [OF intrusive_list_axioms])

subsection \<open>The wait group\<close>

definition sl_wg_add :: "u64 \<Rightarrow> 'l wait_group \<Rightarrow> 'l wait_group" where
  "sl_wg_add count w = w\<lparr>wg_counter := snd (atomic_fetch_add (wg_counter w) count)\<rparr>"

definition sl_wg_done :: "'l intrusive \<Rightarrow> tid \<Rightarrow> 'l wait_group \<Rightarrow> 'l wait_group outcome" where
  "sl_wg_done L t w =
     (let (old, c) = atomic_fetch_sub (wg_counter w) 1; w1 = w\<lparr>wg_counter := c, wg_done_called := True\<rparr> in
      if old = 1 then with_event w1 (map_outcome snd (sl_event_step L (EvCallFire t) (wg_event w1))) else Next w1)"

definition sl_wg_wait_async :: "tid \<Rightarrow> addr \<Rightarrow> 'l wait_group \<Rightarrow> 'l wait_group outcome" where
  "sl_wg_wait_async t n w = with_event w (map_outcome snd (sl_event_wait_async t n (wg_event w)))"

lemma sl_wg_eqs:
  "sl_wg_add k w = wg_add k w" "sl_wg_done L t w = wg_done L t w" "sl_wg_wait_async t n w = wg_wait L t n w"
proof -
  show "sl_wg_done L t w = wg_done L t w" by (simp only: sl_wg_done_def wg_done_def sl_event_step_forget)
qed (simp_all add: sl_wg_add_def wg_add_def atomic_simps sl_wg_wait_async_def wg_wait_def sl_event_wait_eqs)

subsection \<open>Whom a step resumes\<close>

text \<open>
  \<open>resumes_as parked s r q\<close>: from the state \<open>s\<close> the stackless call \<open>r\<close> is the fiber call \<open>q\<close>. Both are blocked, or both
  lead to the same state, and the coroutine that is resumed inside the stackless call is the one that the fiber call
  takes from its parked state and hands to the scheduler; none is resumed when no fiber is woken.
\<close>

fun resumes_as :: "('s \<Rightarrow> tid \<Rightarrow> bool) \<Rightarrow> 's \<Rightarrow> (tid option \<times> 's) outcome \<Rightarrow> 's outcome \<Rightarrow> bool" where
  "resumes_as parked s (Next (r, b)) q \<longleftrightarrow> q = Next b \<and> (\<forall>u. r = Some u \<longleftrightarrow> parked s u \<and> \<not> parked b u)"
| "resumes_as parked s Disabled q \<longleftrightarrow> q = Disabled"
| "resumes_as parked s (Fault x) q \<longleftrightarrow> False"

text \<open>A coroutine that is parked makes no step of its own, so the contract of \<open>resumer\<close> says whom a step wakes.\<close>

lemma sl_mutex_actor: "sl_mutex_step L e s = Next (r, b) \<Longrightarrow> \<not> mx_parked s (mx_who e)"
  by (cases e)
    (auto simp: mx_parked_iff sl_mutex_scoped_lock_def sl_mutex_unlock_def sl_mutex_release_def split: if_splits)

lemma sl_event_actor: "sl_event_step L e s = Next (r, b) \<Longrightarrow> \<not> ev_parked_at s (ev_who e)"
  by (cases e)
    (auto simp: ev_parked_iff sl_event_wait_async_def sl_event_fire_def sl_event_fire_impl_def split: if_splits)

lemma resumes_asI:
  assumes R: "resumer who step parked init J" and i: "J s" and q: "map_outcome snd (step e s) = q"
    and actor: "\<And>r b. step e s = Next (r, b) \<Longrightarrow> \<not> parked s (who e)"
  shows "resumes_as parked s (step e s) q"
proof (cases "step e s")
  case (Fault x)
  with guarded_machine.gm_no_fault [OF resumer.base [OF R] i, of e x] show ?thesis by simp
next
  case (Next rb)
  obtain r b where rb: "rb = (r, b)" by (cases rb)
  with Next have n: "step e s = Next (r, b)" by simp
  have "parked s u \<and> \<not> parked b u" if "r = Some u" for u using resumer.resumed [OF R i] n that by blast
  moreover have "r = Some u" if u: "parked s u" "\<not> parked b u" for u
  proof (rule ccontr)
    assume "r \<noteq> Some u"
    moreover have "u \<noteq> who e" using actor [OF n] u(1) by auto
    ultimately show False using resumer.others [OF R i n] u by blast
  qed
  ultimately have "r = Some u \<longleftrightarrow> parked s u \<and> \<not> parked b u" for u by blast
  with n q show ?thesis by auto
qed (use q in simp)

text \<open>
  C27. In every state that the calls can reach, a call on a stackless mutex or event is the call on the fiber version:
  it does not fail, it is blocked when that is, it leads to the same state, and the coroutine resumed inside it is
  exactly the one that the fiber call wakes. The calls of the wait groups are the same functions. (For the event,
  \<open>Fire\<close> is not called while an earlier call is between its two exchanges.)
\<close>

theorem stackless_sync_equals_fibers:
  assumes L: "intrusive_list L rep"
    and mutex: "exec (mutex_step L) mes (mutex_init L) = Next m"
    and event: "avoids (event_step L) ev_overlap (ees @ [ee]) event_init" "exec (event_step L) ees event_init = Next e"
  shows "resumes_as mx_parked m (sl_mutex_step L me m) (mutex_step L me m) \<and>
    resumes_as ev_parked_at e (sl_event_step L ee e) (event_step L ee e) \<and>
    sl_wg_add k w = wg_add k w \<and> sl_wg_done L t w = wg_done L t w \<and> sl_wg_wait_async t n w = wg_wait L t n w"
proof (intro conjI sl_wg_eqs)
  have "mutex_inv rep m" by (rule guarded_machine.gm_exec_inv [OF intrusive_list.mutex_machine [OF L] mutex])
  then show "resumes_as mx_parked m (sl_mutex_step L me m) (mutex_step L me m)"
    by (rule resumes_asI [OF intrusive_list_co_mutex [OF L] _ sl_mutex_step_forget]) (rule sl_mutex_actor)
  have a: "avoids (event_step L) ev_overlap ees event_init" and ok: "\<not> ev_overlap ee e"
    using event by (simp_all add: avoids_append)
  then have "event_inv rep e" using intrusive_list.event_reach [OF L a event(2)] by (auto simp: event_inv_def)
  moreover have "map_outcome snd (barring (sl_event_step L) ev_overlap ee e) = event_step L ee e"
    by (simp only: barring_ok [of ev_overlap, OF ok] sl_event_step_forget)
  ultimately have "resumes_as ev_parked_at e (barring (sl_event_step L) ev_overlap ee e) (event_step L ee e)"
    by (rule resumes_asI [OF intrusive_list_co_event [OF L]]) (auto simp only: barring_Next dest: sl_event_actor)
  then show "resumes_as ev_parked_at e (sl_event_step L ee e) (event_step L ee e)"
    by (simp only: barring_ok [of ev_overlap, OF ok])
qed

text \<open>In concrete states: \<open>Unlock\<close> by coroutine 1 and \<open>Fire\<close> by coroutine 3 resume coroutine 2.\<close>

theorem stackless_sync_equals_fibers_witness:
  "\<exists>m e. exec (mutex_step ptr_list) [MxEvLock 1 16, MxEvLock 2 32, MxEvRun 2, MxEvRun 2, MxEvUnlock 1, MxEvRun 1]
      (mutex_init ptr_list) = Next m \<and>
     exec (event_step ptr_list) [EvCallWait 2 32, EvCallRun 2, EvCallRun 2, EvCallFire 3, EvCallRun 3] event_init = Next e \<and>
     (\<exists>b. sl_mutex_step ptr_list (MxEvRun 1) m = Next (Some 2, b) \<and> mx_parked m 2 \<and> \<not> mx_parked b 2) \<and>
     (\<exists>b. sl_event_step ptr_list (EvCallRun 3) e = Next (Some 2, b) \<and> ev_parked_at e 2 \<and> \<not> ev_parked_at b 2)"
  (is "\<exists>m e. exec _ ?mes _ = Next m \<and> exec _ ?ees _ = Next e \<and> _")
proof -
  obtain m b where m: "exec (mutex_step ptr_list) ?mes (mutex_init ptr_list) = Next m"
      "sl_mutex_step ptr_list (MxEvRun 1) m = Next (Some 2, b)"
    by (simp add: machine_simps sl_mutex_simps atomic_simps ptr_run_simps)
  obtain e c where e: "exec (event_step ptr_list) ?ees event_init = Next e"
      "sl_event_step ptr_list (EvCallRun 3) e = Next (Some 2, c)"
    by (simp add: machine_simps sl_event_simps atomic_simps ptr_run_simps)
  have a: "avoids (event_step ptr_list) ev_overlap (?ees @ [EvCallRun 3]) event_init"
    by (simp add: machine_simps atomic_simps ptr_run_simps)
  from stackless_sync_equals_fibers [OF ptr.intrusive_list_axioms m(1) a e(1), of "MxEvRun 1"]
  have "resumes_as mx_parked m (sl_mutex_step ptr_list (MxEvRun 1) m) (mutex_step ptr_list (MxEvRun 1) m)"
    "resumes_as ev_parked_at e (sl_event_step ptr_list (EvCallRun 3) e) (event_step ptr_list (EvCallRun 3) e)" by blast+
  then have "mx_parked m 2 \<and> \<not> mx_parked b 2" and "ev_parked_at e 2 \<and> \<not> ev_parked_at c 2"
    unfolding m(2) e(2) resumes_as.simps by blast+
  with m e show ?thesis by blast
qed

subsection \<open>What holds of the coroutines\<close>

text \<open>
  C28. With waiters resumed inside the call of \<open>Unlock\<close>, on any number of threads: no call fails, no coroutine that runs
  is resumed, none runs on two threads or while it waits, and at most one owns the mutex.
\<close>

theorem co_mutex_resumes_safely:
  assumes "intrusive_list L rep"
  shows "case exec (co_step mx_who (sl_mutex_step L) mx_parked) es (co_init (mutex_init L)) of
      Next s \<Rightarrow>
        distinct (concat (co_stacks s)) \<and> (\<forall>t\<in>set (concat (co_stacks s)). \<not> mx_parked (co_base s) t) \<and>
        (\<forall>t u. mx_pc (co_base s) t = MxOwner \<and> mx_pc (co_base s) u = MxOwner \<longrightarrow> t = u)
    | Disabled \<Rightarrow> True
    | Fault x \<Rightarrow> False"
proof (cases "exec (co_step mx_who (sl_mutex_step L) mx_parked) es (co_init (mutex_init L))")
  case (Next s)
  from resumer.co_reaches [OF intrusive_list_co_mutex [OF assms] Next]
  have I: "distinct (concat (co_stacks s))" "\<forall>t\<in>set (concat (co_stacks s)). \<not> mx_parked (co_base s) t" "mutex_inv rep (co_base s)"
    unfolding resumer.co_inv_def [OF intrusive_list_co_mutex [OF assms]] by simp_all
  from I(3) obtain own xs ws where "mutex_inv_with rep own xs ws (co_base s)" by (auto simp: mutex_inv_def)
  then have "t = u" if "mx_pc (co_base s) t = MxOwner" "mx_pc (co_base s) u = MxOwner" for t u
    using that mxI_holds [of rep own xs ws "co_base s" t] mxI_holds [of rep own xs ws "co_base s" u] by simp
  with I Next show ?thesis by simp
next
  case (Fault x)
  with resumer.co_no_fault [OF intrusive_list_co_mutex [OF assms]] show ?thesis by simp
qed simp


text \<open>The critical sections of waiters that do not suspend nest in one another's \<open>Unlock\<close>.\<close>

theorem co_mutex_resumes_safely_witness:
  "\<exists>s. exec (co_step mx_who (sl_mutex_step ptr_list) mx_parked)
       [CoStart 1, CoDo (MxEvLock 1 16), CoStart 2, CoDo (MxEvLock 2 32), CoDo (MxEvRun 2), CoDo (MxEvRun 2),
        CoStart 3, CoDo (MxEvLock 3 48), CoDo (MxEvRun 3), CoDo (MxEvRun 3),
        CoDo (MxEvUnlock 1), CoDo (MxEvRun 1), CoDo (MxEvRun 1), CoDo (MxEvUnlock 3)] (co_init (mutex_init ptr_list)) = Next s \<and>
     concat (co_stacks s) = [2, 3, 1] \<and> mx_pc (co_base s) 2 = MxOwner"
  (is "\<exists>s. exec _ ?es _ = Next s \<and> _")
proof -
  let ?r = "exec (co_step mx_who (sl_mutex_step ptr_list) mx_parked) ?es (co_init (mutex_init ptr_list))"
  have "case ?r of Fault x \<Rightarrow> False | _ \<Rightarrow> True"
    using co_mutex_resumes_safely [OF ptr.intrusive_list_axioms, of ?es] by (cases ?r) simp_all
  then show ?thesis by (simp add: co_simps sl_mutex_simps mx_parked_def machine_simps atomic_simps ptr_run_simps)
qed

text \<open>
  With waiters resumed inside the call of \<open>Fire\<close>, which is not called while an earlier call is between its two
  exchanges: no call fails, no coroutine that runs is resumed, none runs on two
  threads or while it waits, and none goes on before \<open>Fire\<close> was called.
\<close>

theorem co_event_resumes_safely:
  assumes "intrusive_list L rep"
  shows "case exec (co_step ev_who (barring (sl_event_step L) ev_overlap) ev_parked_at) es (co_init event_init) of
      Next s \<Rightarrow>
        distinct (concat (co_stacks s)) \<and> (\<forall>t\<in>set (concat (co_stacks s)). \<not> ev_parked_at (co_base s) t) \<and>
        (ev_returned (co_base s) \<noteq> {} \<longrightarrow> ev_fired (co_base s))
    | Disabled \<Rightarrow> True
    | Fault x \<Rightarrow> False"
proof (cases "exec (co_step ev_who (barring (sl_event_step L) ev_overlap) ev_parked_at) es (co_init event_init)")
  case (Next s)
  from resumer.co_reaches [OF intrusive_list_co_event [OF assms] Next]
  have I: "distinct (concat (co_stacks s))" "\<forall>t\<in>set (concat (co_stacks s)). \<not> ev_parked_at (co_base s) t" "event_inv rep (co_base s)"
    unfolding resumer.co_inv_def [OF intrusive_list_co_event [OF assms]] by simp_all
  from I(3) obtain f xs ys where "event_inv_with rep f xs ys (co_base s)" by (auto simp: event_inv_def)
  then have "ev_returned (co_base s) \<noteq> {} \<longrightarrow> ev_fired (co_base s)"
    using evI(1) by (fastforce simp: ev_fire_ok_def)
  with I Next show ?thesis by simp
next
  case (Fault x)
  with resumer.co_no_fault [OF intrusive_list_co_event [OF assms]] show ?thesis by simp
qed simp

theorem co_event_resumes_safely_witness:
  "\<exists>s. exec (co_step ev_who (barring (sl_event_step ptr_list) ev_overlap) ev_parked_at)
       [CoStart 1, CoDo (EvCallWait 1 16), CoDo (EvCallRun 1), CoDo (EvCallRun 1),
        CoStart 2, CoDo (EvCallFire 2), CoDo (EvCallRun 2), CoDo (EvCallRun 2)] (co_init event_init) = Next s \<and>
     concat (co_stacks s) = [1, 2] \<and> 1 \<in> ev_returned (co_base s)"
  (is "\<exists>s. exec _ ?es _ = Next s \<and> _")
proof -
  let ?r = "exec (co_step ev_who (barring (sl_event_step ptr_list) ev_overlap) ev_parked_at) ?es (co_init event_init)"
  have "case ?r of Fault x \<Rightarrow> False | _ \<Rightarrow> True"
    using co_event_resumes_safely [OF ptr.intrusive_list_axioms, of ?es] by (cases ?r) simp_all
  then show ?thesis by (simp add: co_simps barring_def sl_event_simps ev_parked_at_def machine_simps atomic_simps ptr_run_simps)
qed

end
