(* ===== verification/Fiber_Core.thy ===== *)
theory Fiber_Core
  imports Coroutine "HOL-Library.Multiset"
begin

section \<open>Fibers\<close>

text \<open>
  \<open>fibers/core/\<close>: a fiber is a stackful coroutine, an executor and a state; \<open>Fiber::Run\<close> steps it on a thread of the
  executor until it suspends, and then asks its awaiter (\<open>OnCompleted\<close>) what to do with it: schedule it again, park it
  behind a handle, or go on with another fiber at once.

  A fiber object is named by the number of its creation, which is not reused. The code of the routines, the executors
  (which pick queued tasks in any order, on any thread, also inside a fiber that drives an executor by hand) and the
  owners of parked handles are the environment: they are the events. The answer of \<open>AwaitSuspend\<close> is part of the event.
\<close>

subsection \<open>The allocator of stacks\<close>

text \<open>\<open>sa_fresh\<close> numbers the stacks obtained from \<open>Stack::AllocateBytes\<close>.\<close>

record stack_allocator =
  sa_pool :: "nat list"
  sa_total_allocate :: u64
  sa_allocate_new_count :: u64
  sa_release_count :: u64
  sa_total_allocate_bytes :: u64
  sa_fresh :: nat

definition allocator_init :: stack_allocator where
  "allocator_init = \<lparr>sa_pool = [], sa_total_allocate = 0, sa_allocate_new_count = 0, sa_release_count = 0,
     sa_total_allocate_bytes = 0, sa_fresh = 0\<rparr>"

definition stack_allocate_new :: "stack_allocator \<Rightarrow> nat \<times> stack_allocator" where
  "stack_allocate_new a = (sa_fresh a, a\<lparr>sa_fresh := Suc (sa_fresh a)\<rparr>)"

definition stack_take_from_pool :: "stack_allocator \<Rightarrow> fault + (nat \<times> stack_allocator)" where
  "stack_take_from_pool a =
     (if sa_pool a = [] then Inl (AssertFailed ''Stack is empty'')
      else Inr (last (sa_pool a), a\<lparr>sa_pool := butlast (sa_pool a)\<rparr>))"

definition stack_allocate :: "stack_allocator \<Rightarrow> fault + (nat \<times> stack_allocator)" where
  "stack_allocate a =
     (let a = a\<lparr>sa_total_allocate := sa_total_allocate a + 1\<rparr> in
      if sa_pool a = []
      then Inr (stack_allocate_new (a\<lparr>sa_allocate_new_count := sa_allocate_new_count a + 1,
        sa_total_allocate_bytes := sa_total_allocate_bytes a + 16 * 1024 * 4\<rparr>))
      else stack_take_from_pool a)"

definition stack_release :: "nat \<Rightarrow> stack_allocator \<Rightarrow> stack_allocator" where
  "stack_release st a = a\<lparr>sa_release_count := sa_release_count a + 1, sa_pool := sa_pool a @ [st]\<rparr>"

subsection \<open>The state\<close>

datatype fiber_state = FsPending | FsQueued | FsRunning | FsSuspended

datatype awaiter = AwYield | AwMaybe | AwAlways | AwUnlock nat

record fiber =
  fb_stack :: nat
  fb_coroutine :: "(unit, string) coroutine_impl"
  fb_executor :: nat
  fb_state :: fiber_state
  fb_id :: u64
  fb_awaiter :: "awaiter option"

text \<open>
  A frame is a call of \<open>Fiber::Run\<close>: the fiber \<open>next\<close>, where \<open>RunFiber\<close> is, and \<open>prev\<close> of \<open>Step\<close>. The frames of a
  thread are nested, the innermost first.
\<close>

datatype run_at = AtStep | AtInside | AtCompleted

record thread =
  th_frames :: "(nat \<times> run_at \<times> nat option) list"
  th_current :: "nat option"

record fiber_core =
  fc_fibers :: "nat \<Rightarrow> fiber option"
  fc_created :: nat
  fc_last_id :: u64
  fc_allocator :: stack_allocator
  fc_queue :: "(nat \<times> nat) list"
  fc_parked :: "nat list"
  fc_threads :: "thread list"

definition fiber_core_init :: "nat \<Rightarrow> fiber_core" where
  "fiber_core_init threads =
     \<lparr>fc_fibers = Map.empty, fc_created = 0, fc_last_id = 0, fc_allocator = allocator_init, fc_queue = [], fc_parked = [],
      fc_threads = replicate threads \<lparr>th_frames = [], th_current = None\<rparr>\<rparr>"

subsection \<open>The operations of a fiber\<close>

definition fc_put :: "nat \<Rightarrow> fiber \<Rightarrow> fiber_core \<Rightarrow> fiber_core" where
  "fc_put f fb s = s\<lparr>fc_fibers := (fc_fibers s)(f \<mapsto> fb)\<rparr>"

definition unique_id_next :: "u64 \<Rightarrow> u64 \<times> u64" where
  "unique_id_next last_id = atomic_fetch_add last_id 1"

definition fiber_schedule :: "nat \<Rightarrow> fiber_core \<Rightarrow> fiber_core outcome" where
  "fiber_schedule f s =
     (case fc_fibers s f of
        None \<Rightarrow> Fault UseAfterFree
      | Some fb \<Rightarrow> Next (fc_put f (fb\<lparr>fb_state := FsQueued\<rparr>) (s\<lparr>fc_queue := fc_queue s @ [(fb_executor fb, f)]\<rparr>)))"

definition fiber_resume :: "nat \<Rightarrow> fiber_core \<Rightarrow> fiber_core outcome" where
  "fiber_resume f s =
     (case fc_fibers s f of
        None \<Rightarrow> Fault UseAfterFree
      | Some fb \<Rightarrow>
          if fb_state fb \<noteq> FsSuspended then Fault (AssertFailed ''Expected fiber in Suspended state'') else fiber_schedule f s)"

definition fiber_create :: "nat \<Rightarrow> fiber_core \<Rightarrow> fiber_core outcome" where
  "fiber_create executor s =
     (case stack_allocate (fc_allocator s) of
        Inl x \<Rightarrow> Fault x
      | Inr (st, a) \<Rightarrow>
          let f = fc_created s; (fid, last_id) = unique_id_next (fc_last_id s) in
          fiber_schedule f
            (fc_put f \<lparr>fb_stack = st, fb_coroutine = impl_new (), fb_executor = executor, fb_state = FsPending, fb_id = fid, fb_awaiter = None\<rparr>
              (s\<lparr>fc_created := Suc f, fc_last_id := last_id, fc_allocator := a\<rparr>)))"

definition fiber_destroy :: "nat \<Rightarrow> fiber_core \<Rightarrow> fiber_core outcome" where
  "fiber_destroy f s =
     (case fc_fibers s f of
        None \<Rightarrow> Fault UseAfterFree
      | Some fb \<Rightarrow> Next (s\<lparr>fc_allocator := stack_release (fb_stack fb) (fc_allocator s), fc_fibers := (fc_fibers s)(f := None)\<rparr>))"

text \<open>\<open>FiberHandle\<close>: \<open>Release\<close> takes the pointer out of the handle.\<close>

definition handle_release :: "nat option \<Rightarrow> fault + (nat \<times> nat option)" where
  "handle_release h = (case h of None \<Rightarrow> Inl (AssertFailed ''Invalid fiber handler'') | Some f \<Rightarrow> Inr (f, None))"

definition handle_schedule :: "nat option \<Rightarrow> fiber_core \<Rightarrow> fiber_core outcome" where
  "handle_schedule h s = (case handle_release h of Inl x \<Rightarrow> Fault x | Inr (f, _) \<Rightarrow> fiber_schedule f s)"

definition handle_resume :: "nat option \<Rightarrow> fiber_core \<Rightarrow> fiber_core outcome" where
  "handle_resume h s = (case handle_release h of Inl x \<Rightarrow> Fault x | Inr (f, _) \<Rightarrow> fiber_resume f s)"

text \<open>
  \<open>OnCompleted\<close> of each awaiter with the answer of its \<open>AwaitSuspend\<close>: the fiber to run next, if one is. An awaiter that
  suspends leaves the handle with its synchronisation object. \<open>AwUnlock\<close> is the \<open>Unlocker\<close> of the mutex.
\<close>

fun on_completed :: "awaiter \<Rightarrow> bool \<Rightarrow> nat \<Rightarrow> fiber_core \<Rightarrow> fault + (nat option \<times> fiber_core)" where
  "on_completed AwYield ready f s =
     (case handle_schedule (Some f) s of Next s' \<Rightarrow> Inr (None, s') | Fault x \<Rightarrow> Inl x | Disabled \<Rightarrow> Inr (None, s))"
| "on_completed AwMaybe ready f s = Inr (if ready then (Some f, s) else (None, s\<lparr>fc_parked := f # fc_parked s\<rparr>))"
| "on_completed AwAlways ready f s = Inr (None, s\<lparr>fc_parked := f # fc_parked s\<rparr>)"
| "on_completed (AwUnlock g) ready f s =
     (case handle_schedule (Some f) s of Next s' \<Rightarrow> Inr (Some g, s') | Fault x \<Rightarrow> Inl x | Disabled \<Rightarrow> Inr (None, s))"

subsection \<open>Running fibers on threads\<close>

definition th_put :: "nat \<Rightarrow> (nat \<times> run_at \<times> nat option) list \<Rightarrow> nat option \<Rightarrow> fiber_core \<Rightarrow> fiber_core" where
  "th_put t fs cur s = s\<lparr>fc_threads := (fc_threads s)[t := \<lparr>th_frames = fs, th_current = cur\<rparr>]\<rparr>"

definition fiber_current :: "nat \<Rightarrow> fiber_core \<Rightarrow> fault + nat" where
  "fiber_current t s =
     (case th_current (fc_threads s ! t) of None \<Rightarrow> Inl (Panic ''Not in a fiber context'') | Some f \<Rightarrow> Inr f)"

text \<open>\<open>Step\<close> up to the switch into the coroutine.\<close>

definition fiber_step :: "nat \<Rightarrow> fiber_core \<Rightarrow> fiber_core outcome" where
  "fiber_step t s =
     (case th_frames (fc_threads s ! t) of
        (f, AtStep, _) # fs \<Rightarrow>
          (case fc_fibers s f of
             None \<Rightarrow> Fault UseAfterFree
           | Some fb \<Rightarrow>
               (case impl_switch_in (fb_coroutine fb) of
                  Inl x \<Rightarrow> Fault x
                | Inr (_, c) \<Rightarrow>
                    Next (th_put t ((f, AtInside, th_current (fc_threads s ! t)) # fs) (Some f)
                      (fc_put f (fb\<lparr>fb_state := FsRunning, fb_coroutine := c\<rparr>) s))))
      | _ \<Rightarrow> Disabled)"

text \<open>Back in \<open>Step\<close>, \<open>rollback\<close> restores the current fiber.\<close>

definition fiber_step_return :: "nat \<Rightarrow> fiber_core \<Rightarrow> fiber_core outcome" where
  "fiber_step_return t s =
     (case th_frames (fc_threads s ! t) of
        (f, AtInside, prev) # fs \<Rightarrow> Next (th_put t ((f, AtCompleted, None) # fs) prev s)
      | _ \<Rightarrow> Disabled)"

definition fiber_suspend :: "nat \<Rightarrow> awaiter \<Rightarrow> fiber_core \<Rightarrow> fiber_core outcome" where
  "fiber_suspend t aw s =
     (case fiber_current t s of
        Inl x \<Rightarrow> Fault x
      | Inr f \<Rightarrow>
          (case fc_fibers s f of
             None \<Rightarrow> Fault UseAfterFree
           | Some fb \<Rightarrow>
               fiber_step_return t
                 (fc_put f (fb\<lparr>fb_awaiter := Some aw, fb_state := FsSuspended, fb_coroutine := impl_suspend () (fb_coroutine fb)\<rparr>) s)))"

text \<open>The routine ends; an exception leaves \<open>Step\<close>, and \<open>Run\<close> is \<open>noexcept\<close>.\<close>

definition fiber_routine_end :: "nat \<Rightarrow> string option \<Rightarrow> fiber_core \<Rightarrow> fiber_core outcome" where
  "fiber_routine_end t thrown s =
     (case th_frames (fc_threads s ! t) of
        (f, AtInside, _) # _ \<Rightarrow>
          (case fc_fibers s f of
             None \<Rightarrow> Fault UseAfterFree
           | Some fb \<Rightarrow>
               let c = impl_run_end thrown (fb_coroutine fb) in
               if impl_resume_end c \<noteq> None then Fault (Panic ''std::terminate'')
               else fiber_step_return t (fc_put f (fb\<lparr>fb_coroutine := c\<rparr>) s))
      | _ \<Rightarrow> Disabled)"

text \<open>The rest of \<open>RunFiber\<close>, and the loop of \<open>Run\<close>.\<close>

definition run_fiber_completed :: "nat \<Rightarrow> bool \<Rightarrow> fiber_core \<Rightarrow> fiber_core outcome" where
  "run_fiber_completed t ready s =
     (case th_frames (fc_threads s ! t) of
        (f, AtCompleted, _) # fs \<Rightarrow>
          (case fc_fibers s f of
             None \<Rightarrow> Fault UseAfterFree
           | Some fb \<Rightarrow>
               let done = (\<lambda>next s. th_put t ((case next of None \<Rightarrow> [] | Some g \<Rightarrow> [(g, AtStep, None)]) @ fs) (th_current (fc_threads s ! t)) s) in
               if impl_is_completed (fb_coroutine fb)
               then (case fiber_destroy f s of Next s' \<Rightarrow> Next (done None s') | Disabled \<Rightarrow> Disabled | Fault x \<Rightarrow> Fault x)
               else if fb_state fb \<noteq> FsSuspended then Fault (AssertFailed ''Unexpected fiber state'')
               else let s1 = fc_put f (fb\<lparr>fb_awaiter := None\<rparr>) s in
                 (case fb_awaiter fb of
                    None \<Rightarrow> Next (done None s1)
                  | Some aw \<Rightarrow>
                      (case on_completed aw ready f s1 of Inl x \<Rightarrow> Fault x | Inr (next, s2) \<Rightarrow> Next (done next s2))))
      | _ \<Rightarrow> Disabled)"

definition fiber_run :: "nat \<Rightarrow> nat \<Rightarrow> fiber_core \<Rightarrow> fiber_core outcome" where
  "fiber_run t i s =
     (if i < length (fc_queue s) \<and> (case th_frames (fc_threads s ! t) of [] \<Rightarrow> True | (_, p, _) # _ \<Rightarrow> p = AtInside)
      then Next (th_put t ((snd (fc_queue s ! i), AtStep, None) # th_frames (fc_threads s ! t)) (th_current (fc_threads s ! t))
        (s\<lparr>fc_queue := take i (fc_queue s) @ drop (Suc i) (fc_queue s)\<rparr>))
      else Disabled)"

definition fiber_discard :: "nat \<Rightarrow> fiber_core \<Rightarrow> fiber_core outcome" where
  "fiber_discard i s =
     (if i < length (fc_queue s)
      then fiber_destroy (snd (fc_queue s ! i)) (s\<lparr>fc_queue := take i (fc_queue s) @ drop (Suc i) (fc_queue s)\<rparr>)
      else Disabled)"

definition fiber_go_current :: "nat \<Rightarrow> fiber_core \<Rightarrow> fiber_core outcome" where
  "fiber_go_current t s =
     (case fiber_current t s of
        Inl x \<Rightarrow> Fault x
      | Inr f \<Rightarrow> (case fc_fibers s f of None \<Rightarrow> Fault UseAfterFree | Some fb \<Rightarrow> fiber_create (fb_executor fb) s))"

text \<open>
  Events: \<open>Go\<close> from any code, \<open>Go\<close> and the suspending calls from the code on thread \<open>t\<close>, the moves of the loop of
  \<open>Run\<close>, an executor that discards a task, and the owner of a parked handle that schedules or resumes it. An
  \<open>Unlocker\<close> takes the handle of a parked fiber with it.
\<close>

datatype fiber_event =
    FcGo nat
  | FcGoCurrent nat
  | FcRun nat nat
  | FcStep nat
  | FcSuspend nat awaiter
  | FcEnd nat "string option"
  | FcCompleted nat bool
  | FcDiscard nat
  | FcSchedule nat
  | FcResume nat

definition user_code :: "nat \<Rightarrow> fiber_core \<Rightarrow> bool" where
  "user_code t s \<longleftrightarrow> t < length (fc_threads s) \<and> (case th_frames (fc_threads s ! t) of [] \<Rightarrow> True | (_, p, _) # _ \<Rightarrow> p = AtInside)"

definition fc_unpark :: "nat \<Rightarrow> fiber_core \<Rightarrow> fiber_core" where
  "fc_unpark g s = s\<lparr>fc_parked := remove1 g (fc_parked s)\<rparr>"

fun fiber_core_step :: "fiber_event \<Rightarrow> fiber_core \<Rightarrow> fiber_core outcome" where
  "fiber_core_step (FcGo x) s = fiber_create x s"
| "fiber_core_step (FcGoCurrent t) s = (if user_code t s then fiber_go_current t s else Disabled)"
| "fiber_core_step (FcRun t i) s = (if user_code t s then fiber_run t i s else Disabled)"
| "fiber_core_step (FcStep t) s = (if t < length (fc_threads s) then fiber_step t s else Disabled)"
| "fiber_core_step (FcSuspend t aw) s =
     (if \<not> user_code t s then Disabled
      else case aw of
        AwUnlock g \<Rightarrow> (if g \<in> set (fc_parked s) then fiber_suspend t aw (fc_unpark g s) else Disabled)
      | _ \<Rightarrow> fiber_suspend t aw s)"
| "fiber_core_step (FcEnd t thrown) s = (if t < length (fc_threads s) then fiber_routine_end t thrown s else Disabled)"
| "fiber_core_step (FcCompleted t ready) s = (if t < length (fc_threads s) then run_fiber_completed t ready s else Disabled)"
| "fiber_core_step (FcDiscard i) s = fiber_discard i s"
| "fiber_core_step (FcSchedule g) s = (if g \<in> set (fc_parked s) then handle_schedule (Some g) (fc_unpark g s) else Disabled)"
| "fiber_core_step (FcResume g) s = (if g \<in> set (fc_parked s) then handle_resume (Some g) (fc_unpark g s) else Disabled)"

lemmas fiber_defs =
  allocator_init_def stack_allocate_new_def stack_take_from_pool_def stack_allocate_def stack_release_def fiber_core_init_def
  fc_put_def unique_id_next_def fiber_schedule_def fiber_resume_def fiber_create_def fiber_destroy_def handle_release_def
  handle_schedule_def handle_resume_def th_put_def fiber_current_def fiber_step_def fiber_step_return_def fiber_suspend_def
  fiber_routine_end_def run_fiber_completed_def fiber_run_def fiber_discard_def fiber_go_current_def user_code_def fc_unpark_def

subsection \<open>Where a fiber is\<close>

text \<open>
  A fiber is in one place: in the queue of an executor, parked behind a handle, held by an \<open>Unlocker\<close>, or in a
  frame of a thread. \<open>fiber_ok\<close> says what its fields are there.
\<close>

datatype place = PNew | PQueue nat | PParked | PHeld | PAt run_at

definition fiber_ready :: "fiber \<Rightarrow> bool" where
  "fiber_ready fb \<longleftrightarrow>
     ci_context (fb_coroutine fb) \<noteq> None \<and> \<not> ci_completed (fb_coroutine fb) \<and> ci_exception (fb_coroutine fb) = None \<and> fb_awaiter fb = None"

fun fiber_ok :: "fiber \<Rightarrow> place \<Rightarrow> bool" where
  "fiber_ok fb PNew \<longleftrightarrow> fiber_ready fb"
| "fiber_ok fb (PQueue x) \<longleftrightarrow> fiber_ready fb \<and> fb_state fb = FsQueued \<and> fb_executor fb = x"
| "fiber_ok fb PParked \<longleftrightarrow> fiber_ready fb \<and> fb_state fb = FsSuspended"
| "fiber_ok fb PHeld \<longleftrightarrow> fiber_ready fb \<and> fb_state fb = FsSuspended"
| "fiber_ok fb (PAt AtStep) \<longleftrightarrow> fiber_ready fb"
| "fiber_ok fb (PAt AtInside) \<longleftrightarrow> fb_state fb = FsRunning \<and> ci_context (fb_coroutine fb) = None \<and> \<not> ci_completed (fb_coroutine fb) \<and>
     ci_exception (fb_coroutine fb) = None \<and> fb_awaiter fb = None"
| "fiber_ok fb (PAt AtCompleted) \<longleftrightarrow> ci_exception (fb_coroutine fb) = None \<and>
     (if ci_completed (fb_coroutine fb) then fb_awaiter fb = None
      else ci_context (fb_coroutine fb) \<noteq> None \<and> fb_state fb = FsSuspended \<and> fb_awaiter fb \<noteq> None)"

definition placed_ok :: "(nat \<Rightarrow> fiber option) \<Rightarrow> (nat \<times> place) multiset \<Rightarrow> bool" where
  "placed_ok F P \<longleftrightarrow> (\<forall>g. count (image_mset fst P) g = (if F g = None then 0 else 1)) \<and>
     (\<forall>g k. (g, k) \<in># P \<longrightarrow> (\<exists>fb. F g = Some fb \<and> fiber_ok fb k))"

lemma placed_okD: "placed_ok F P \<Longrightarrow> (g, k) \<in># P \<Longrightarrow> \<exists>fb. F g = Some fb \<and> fiber_ok fb k"
  by (auto simp: placed_ok_def)

lemma placed_count: "placed_ok F P \<Longrightarrow> count (image_mset fst P) g = (if F g = None then 0 else 1)"
  by (simp only: placed_ok_def)

lemma placed_count_add:
  assumes "placed_ok F (add_mset (f, k) R)"
  shows "(if f = g then 1 else 0) + count (image_mset fst R) g = (if F g = None then 0 else 1)"
  using placed_count [OF assms, of g] by (cases "f = g") simp_all

lemma placed_once:
  assumes P: "placed_ok F (add_mset (f, k) R)"
  shows "(f, k') \<notin># R"
proof
  assume "(f, k') \<in># R"
  then have "f \<in># image_mset fst R" by force
  then have "0 < count (image_mset fst R) f" by (simp only: count_greater_zero_iff)
  moreover have "1 + count (image_mset fst R) f = (if F f = None then 0 else 1)"
    using placed_count_add [OF P, of f] by (simp only: refl if_True)
  moreover have "(if F f = None then 0 else 1 :: nat) \<le> 1" by simp
  ultimately show False by linarith
qed

lemma placed_change:
  assumes P: "placed_ok F (add_mset (f, k) R)" and ok: "fiber_ok fb' k'"
  shows "placed_ok (F(f \<mapsto> fb')) (add_mset (f, k') R)"
proof -
  obtain fb where fb: "F f = Some fb" using placed_okD [OF P, of f k] by auto
  have "count (image_mset fst (add_mset (f, k') R)) g = (if (F(f \<mapsto> fb')) g = None then 0 else 1)" for g
    using placed_count_add [OF P, of g] fb by (cases "f = g") simp_all
  moreover have "\<exists>b. (F(f \<mapsto> fb')) g = Some b \<and> fiber_ok b l" if "(g, l) \<in># add_mset (f, k') R" for g l
  proof (cases "g = f")
    case True
    with that placed_once [OF P] ok show ?thesis by auto
  next
    case False
    with that placed_okD [OF P, of g l] show ?thesis by auto
  qed
  ultimately show ?thesis unfolding placed_ok_def by blast
qed

lemma placed_relabel:
  assumes P: "placed_ok F (add_mset (f, k) R)" and ok: "\<And>fb. fiber_ok fb k \<Longrightarrow> fiber_ok fb k'"
  shows "placed_ok F (add_mset (f, k') R)"
proof -
  obtain fb where fb: "F f = Some fb" "fiber_ok fb k" using placed_okD [OF P, of f k] by auto
  from placed_change [OF P ok [OF fb(2)]] fb(1) show ?thesis by (simp add: fun_upd_idem)
qed

lemma placed_remove:
  assumes P: "placed_ok F (add_mset (f, k) R)"
  shows "placed_ok (F(f := None)) R"
proof -
  obtain fb where fb: "F f = Some fb" using placed_okD [OF P, of f k] by auto
  have "count (image_mset fst R) g = (if (F(f := None)) g = None then 0 else 1)" for g
    using placed_count_add [OF P, of g] fb by (cases "f = g") simp_all
  moreover have "\<exists>b. (F(f := None)) g = Some b \<and> fiber_ok b l" if "(g, l) \<in># R" for g l
  proof (cases "g = f")
    case True
    with that placed_once [OF P] show ?thesis by auto
  next
    case False
    with that placed_okD [OF P, of g l] show ?thesis by auto
  qed
  ultimately show ?thesis unfolding placed_ok_def by blast
qed

lemma placed_add:
  assumes P: "placed_ok F R" and f: "F f = None" and ok: "fiber_ok fb k"
  shows "placed_ok (F(f \<mapsto> fb)) (add_mset (f, k) R)"
proof -
  have n: "g \<noteq> f" if "(g, l) \<in># R" for g l using placed_okD [OF P that] f by auto
  have "count (image_mset fst (add_mset (f, k) R)) g = (if (F(f \<mapsto> fb)) g = None then 0 else 1)" for g
    using placed_count [OF P, of g] f by (cases "f = g") simp_all
  moreover have "\<exists>b. (F(f \<mapsto> fb)) g = Some b \<and> fiber_ok b l" if "(g, l) \<in># add_mset (f, k) R" for g l
    using that n [of g l] placed_okD [OF P, of g l] ok by auto
  ultimately show ?thesis unfolding placed_ok_def by blast
qed

subsection \<open>The invariant\<close>

text \<open>
  \<open>T\<close> are the places of the fibers in the frames of the threads, and of one that an operation has in hand; \<open>Hd\<close> are the
  handles in \<open>Unlocker\<close>s with the fiber whose awaiter it is.
\<close>

definition stacks_ok :: "(nat \<Rightarrow> fiber option) \<Rightarrow> stack_allocator \<Rightarrow> bool" where
  "stacks_ok F a \<longleftrightarrow> distinct (sa_pool a) \<and> (\<forall>st\<in>set (sa_pool a). st < sa_fresh a) \<and>
     (\<forall>f fb. F f = Some fb \<longrightarrow> fb_stack fb < sa_fresh a \<and> fb_stack fb \<notin> set (sa_pool a)) \<and>
     (\<forall>f g fb gb. F f = Some fb \<and> F g = Some gb \<and> fb_stack fb = fb_stack gb \<longrightarrow> f = g)"

definition ids_ok :: "fiber_core \<Rightarrow> bool" where
  "ids_ok s \<longleftrightarrow> fc_last_id s = of_nat (fc_created s) \<and>
     (\<forall>f fb. fc_fibers s f = Some fb \<longrightarrow> f < fc_created s \<and> fb_id fb = of_nat f)"

definition held_ok :: "(nat \<Rightarrow> fiber option) \<Rightarrow> (nat \<times> nat) list \<Rightarrow> bool" where
  "held_ok F Hd \<longleftrightarrow> distinct (map fst Hd) \<and>
     (\<forall>f g. (f, g) \<in> set Hd \<longleftrightarrow> (\<exists>fb. F f = Some fb \<and> fb_awaiter fb = Some (AwUnlock g)))"

definition outside :: "(nat \<times> nat) list \<Rightarrow> fiber_core \<Rightarrow> (nat \<times> place) multiset" where
  "outside Hd s = mset (map (\<lambda>(x, f). (f, PQueue x)) (fc_queue s)) + mset (map (\<lambda>f. (f, PParked)) (fc_parked s)) +
     mset (map (\<lambda>(f, g). (g, PHeld)) Hd)"

definition core_ok :: "(nat \<times> nat) list \<Rightarrow> (nat \<times> place) multiset \<Rightarrow> fiber_core \<Rightarrow> bool" where
  "core_ok Hd T s \<longleftrightarrow> placed_ok (fc_fibers s) (T + outside Hd s) \<and> held_ok (fc_fibers s) Hd \<and>
     stacks_ok (fc_fibers s) (fc_allocator s) \<and> ids_ok s"

fun frames_ok :: "(nat \<times> run_at \<times> nat option) list \<Rightarrow> nat option \<Rightarrow> bool" where
  "frames_ok [] cur \<longleftrightarrow> cur = None"
| "frames_ok ((f, p, prev) # fs) cur \<longleftrightarrow>
     (\<forall>x\<in>set fs. fst (snd x) = AtInside) \<and> (if p = AtInside then cur = Some f \<and> frames_ok fs prev else frames_ok fs cur)"

definition frame_places :: "(nat \<times> run_at \<times> nat option) list \<Rightarrow> (nat \<times> place) multiset" where
  "frame_places fs = mset (map (\<lambda>(f, p, _). (f, PAt p)) fs)"

definition thread_places :: "thread list \<Rightarrow> (nat \<times> place) multiset" where
  "thread_places ths = sum_list (map (\<lambda>th. frame_places (th_frames th)) ths)"

definition fiber_inv :: "fiber_core \<Rightarrow> bool" where
  "fiber_inv s \<longleftrightarrow> (\<exists>Hd. core_ok Hd (thread_places (fc_threads s)) s) \<and>
     (\<forall>th\<in>set (fc_threads s). frames_ok (th_frames th) (th_current th))"

lemma frame_places_simps [simp]:
  "frame_places [] = {#}" "frame_places ((f, p, prev) # fs) = add_mset (f, PAt p) (frame_places fs)"
  "frame_places (fs @ gs) = frame_places fs + frame_places gs"
  by (simp_all add: frame_places_def)

lemma thread_places_split:
  assumes "t < length ths"
  obtains R where "thread_places ths = frame_places (th_frames (ths ! t)) + R"
    and "\<And>fs cur. thread_places (ths[t := \<lparr>th_frames = fs, th_current = cur\<rparr>]) = frame_places fs + R"
proof
  let ?R = "thread_places (take t ths) + thread_places (drop (Suc t) ths)"
  have "thread_places ths = thread_places (take t ths @ ths ! t # drop (Suc t) ths)" using id_take_nth_drop [OF assms] by simp
  then show "thread_places ths = frame_places (th_frames (ths ! t)) + ?R" by (simp add: thread_places_def)
  show "thread_places (ths[t := \<lparr>th_frames = fs, th_current = cur\<rparr>]) = frame_places fs + ?R" for fs cur
    using assms by (simp add: upd_conv_take_nth_drop thread_places_def)
qed

text \<open>\<open>R\<close>: the places in the frames of the other threads.\<close>

definition thread_rest :: "nat \<Rightarrow> fiber_core \<Rightarrow> (nat \<times> place) multiset \<Rightarrow> bool" where
  "thread_rest t s R \<longleftrightarrow> (\<forall>fs cur. thread_places ((fc_threads s)[t := \<lparr>th_frames = fs, th_current = cur\<rparr>]) = frame_places fs + R)"

lemma fiber_inv_thread:
  assumes I: "fiber_inv s" and t: "t < length (fc_threads s)"
  shows "\<exists>Hd R. core_ok Hd (frame_places (th_frames (fc_threads s ! t)) + R) s \<and>
    frames_ok (th_frames (fc_threads s ! t)) (th_current (fc_threads s ! t)) \<and> thread_rest t s R"
proof -
  from I obtain Hd where c: "core_ok Hd (thread_places (fc_threads s)) s" by (auto simp: fiber_inv_def)
  obtain R where R: "thread_places (fc_threads s) = frame_places (th_frames (fc_threads s ! t)) + R" "thread_rest t s R"
    using thread_places_split [OF t] unfolding thread_rest_def by metis
  moreover have "frames_ok (th_frames (fc_threads s ! t)) (th_current (fc_threads s ! t))" using I t by (simp add: fiber_inv_def)
  ultimately show ?thesis using c by (metis (no_types))
qed

text \<open>What is left to show when a step ends in \<open>th_put\<close>.\<close>

lemma fiber_inv_put:
  assumes I: "fiber_inv s" and R: "thread_rest t s R"
    and s': "core_ok Hd (frame_places fs + R) s'" "fc_threads s' = fc_threads s" "frames_ok fs cur"
  shows "fiber_inv (th_put t fs cur s')"
proof -
  have "core_ok Hd (thread_places (fc_threads (th_put t fs cur s'))) (th_put t fs cur s')"
    using s'(1,2) R by (simp add: thread_rest_def th_put_def core_ok_def outside_def ids_ok_def)
  moreover have "frames_ok (th_frames th) (th_current th)" if "th \<in> set (fc_threads (th_put t fs cur s'))" for th
    using that s'(2,3) I set_update_subset_insert [of "fc_threads s" t] by (fastforce simp: th_put_def fiber_inv_def)
  ultimately show ?thesis by (auto simp: fiber_inv_def)
qed

lemma fiber_inv_same_threads:
  "core_ok Hd (thread_places (fc_threads s)) s' \<Longrightarrow> fc_threads s' = fc_threads s \<Longrightarrow> fiber_inv s \<Longrightarrow> fiber_inv s'"
  by (auto simp: fiber_inv_def)

subsection \<open>The operations keep it\<close>

lemma core_okD:
  assumes "core_ok Hd (add_mset (f, k) T) s"
  shows "\<exists>fb. fc_fibers s f = Some fb \<and> fiber_ok fb k"
  using assms placed_okD [of "fc_fibers s" "add_mset (f, k) T + outside Hd s" f k] by (simp add: core_ok_def)

lemma stacks_okD:
  assumes "stacks_ok F a"
  shows "distinct (sa_pool a)" "st \<in> set (sa_pool a) \<Longrightarrow> st < sa_fresh a"
    "F f = Some fb \<Longrightarrow> fb_stack fb < sa_fresh a" "F f = Some fb \<Longrightarrow> fb_stack fb \<notin> set (sa_pool a)"
    "F f = Some fb \<Longrightarrow> F g = Some gb \<Longrightarrow> fb_stack fb = fb_stack gb \<Longrightarrow> f = g"
  using assms unfolding stacks_ok_def by blast+

lemma stacks_okI:
  assumes "distinct (sa_pool a)" "\<And>st. st \<in> set (sa_pool a) \<Longrightarrow> st < sa_fresh a"
    "\<And>f fb. F f = Some fb \<Longrightarrow> fb_stack fb < sa_fresh a \<and> fb_stack fb \<notin> set (sa_pool a)"
    "\<And>f g fb gb. F f = Some fb \<Longrightarrow> F g = Some gb \<Longrightarrow> fb_stack fb = fb_stack gb \<Longrightarrow> f = g"
  shows "stacks_ok F a"
  using assms unfolding stacks_ok_def by blast

lemma stacks_ok_upd:
  assumes S: "stacks_ok F a" and f: "F f = Some fb" and same: "fb_stack fb' = fb_stack fb"
  shows "stacks_ok (F(f \<mapsto> fb')) a"
proof -
  have e: "\<exists>b. F g = Some b \<and> fb_stack b = fb_stack gb" if "(F(f \<mapsto> fb')) g = Some gb" for g gb
    using that f same by (cases "g = f") simp_all
  show ?thesis
  proof (rule stacks_okI)
    fix g gb assume "(F(f \<mapsto> fb')) g = Some gb"
    from e [OF this] obtain b where "F g = Some b" "fb_stack b = fb_stack gb" by blast
    with stacks_okD(3,4) [OF S] show "fb_stack gb < sa_fresh a \<and> fb_stack gb \<notin> set (sa_pool a)" by metis
  next
    fix g h gb hb assume "(F(f \<mapsto> fb')) g = Some gb" "(F(f \<mapsto> fb')) h = Some hb" "fb_stack gb = fb_stack hb"
    with e [of g gb] e [of h hb] stacks_okD(5) [OF S] show "g = h" by metis
  qed (use stacks_okD [OF S] in simp_all)
qed

lemma held_ok_upd:
  assumes H: "held_ok F Hd" and f: "F f = Some fb"
    and same: "\<And>g. fb_awaiter fb \<noteq> Some (AwUnlock g)" "\<And>g. fb_awaiter fb' \<noteq> Some (AwUnlock g)"
  shows "held_ok (F(f \<mapsto> fb')) Hd"
proof -
  have "(\<exists>b. (F(f \<mapsto> fb')) x = Some b \<and> fb_awaiter b = Some (AwUnlock g)) \<longleftrightarrow> (\<exists>b. F x = Some b \<and> fb_awaiter b = Some (AwUnlock g))" for x g
    using f same by (cases "x = f") simp_all
  with H show ?thesis by (simp add: held_ok_def del: fun_upd_apply)
qed

lemma core_put:
  assumes C: "core_ok Hd (add_mset (f, k) T) s" and f: "fc_fibers s f = Some fb" and ok: "fiber_ok fb' k'"
    and same: "fb_stack fb' = fb_stack fb" "fb_id fb' = fb_id fb"
      "\<And>g. fb_awaiter fb \<noteq> Some (AwUnlock g)" "\<And>g. fb_awaiter fb' \<noteq> Some (AwUnlock g)"
  shows "core_ok Hd (add_mset (f, k') T) (fc_put f fb' s)"
proof -
  from C have P: "placed_ok (fc_fibers s) (add_mset (f, k) (T + outside Hd s))" by (simp add: core_ok_def)
  have "ids_ok (fc_put f fb' s)" using C f same(2) by (auto simp: core_ok_def ids_ok_def fc_put_def)
  moreover have "held_ok ((fc_fibers s)(f \<mapsto> fb')) Hd"
    by (rule held_ok_upd [where F = "fc_fibers s", OF _ f]) (use C same(3,4) in \<open>simp_all add: core_ok_def\<close>)
  moreover have "stacks_ok ((fc_fibers s)(f \<mapsto> fb')) (fc_allocator s)"
    by (rule stacks_ok_upd [where F = "fc_fibers s", OF _ f]) (use C same(1) in \<open>simp_all add: core_ok_def\<close>)
  ultimately show ?thesis using placed_change [OF P ok] by (simp add: core_ok_def fc_put_def outside_def)
qed

lemma core_relabel:
  assumes C: "core_ok Hd (add_mset (f, k) T) s" and ok: "\<And>fb. fiber_ok fb k \<Longrightarrow> fiber_ok fb k'"
  shows "core_ok Hd (add_mset (f, k') T) s"
  using C placed_relabel [of "fc_fibers s" f k "T + outside Hd s" k'] ok by (simp add: core_ok_def)

lemma core_park: "core_ok Hd T (s\<lparr>fc_parked := f # fc_parked s\<rparr>) \<longleftrightarrow> core_ok Hd (add_mset (f, PParked) T) s"
  by (simp add: core_ok_def outside_def ids_ok_def)

lemma core_unpark: "g \<in> set (fc_parked s) \<Longrightarrow> core_ok Hd (add_mset (g, PParked) T) (fc_unpark g s) \<longleftrightarrow> core_ok Hd T s"
proof -
  assume "g \<in> set (fc_parked s)"
  then have "mset (fc_parked s) = add_mset g (mset (remove1 g (fc_parked s)))" by simp
  then have "mset (map (\<lambda>f. (f, PParked)) (fc_parked s)) = add_mset (g, PParked) (mset (map (\<lambda>f. (f, PParked)) (remove1 g (fc_parked s))))"
    by (simp only: mset_map image_mset_add_mset)
  then show ?thesis by (simp add: core_ok_def outside_def ids_ok_def fc_unpark_def del: mset_map mset_remove1)
qed

lemma core_dequeue:
  assumes i: "i < length (fc_queue s)"
  shows "core_ok Hd (add_mset (snd (fc_queue s ! i), PQueue (fst (fc_queue s ! i))) T)
      (s\<lparr>fc_queue := take i (fc_queue s) @ drop (Suc i) (fc_queue s)\<rparr>) \<longleftrightarrow> core_ok Hd T s"
proof -
  let ?m = "\<lambda>q. mset (map (\<lambda>(x, f). (f, PQueue x)) q)"
  have "?m (fc_queue s) = ?m (take i (fc_queue s) @ fc_queue s ! i # drop (Suc i) (fc_queue s))"
    using id_take_nth_drop [OF i] by simp
  then have "?m (fc_queue s) = add_mset (snd (fc_queue s ! i), PQueue (fst (fc_queue s ! i))) (?m (take i (fc_queue s) @ drop (Suc i) (fc_queue s)))"
    by (simp add: case_prod_beta)
  then show ?thesis by (simp add: core_ok_def outside_def ids_ok_def del: mset_map mset_append map_append)
qed

lemma core_schedule:
  assumes C: "core_ok Hd (add_mset (f, k) T) s" and r: "\<And>fb. fiber_ok fb k \<Longrightarrow> fiber_ready fb"
  shows "\<exists>s'. fiber_schedule f s = Next s' \<and> core_ok Hd T s' \<and> fc_threads s' = fc_threads s"
proof -
  from core_okD [OF C] obtain fb where f: "fc_fibers s f = Some fb" "fiber_ready fb" using r by blast
  let ?fb = "fb\<lparr>fb_state := FsQueued\<rparr>"
  have "core_ok Hd (add_mset (f, PQueue (fb_executor fb)) T) (fc_put f ?fb s)"
    by (rule core_put [OF C f(1)]) (use f(2) in \<open>simp_all add: fiber_ready_def\<close>)
  then have "core_ok Hd T (fc_put f ?fb (s\<lparr>fc_queue := fc_queue s @ [(fb_executor fb, f)]\<rparr>))"
    by (simp add: core_ok_def outside_def ids_ok_def fc_put_def)
  with f(1) show ?thesis by (simp add: fiber_schedule_def fc_put_def)
qed

lemma core_resume:
  assumes C: "core_ok Hd (add_mset (f, PParked) T) s"
  shows "\<exists>s'. fiber_resume f s = Next s' \<and> core_ok Hd T s' \<and> fc_threads s' = fc_threads s"
  using core_schedule [OF C] core_okD [OF C] by (auto simp: fiber_resume_def)

lemma core_destroy:
  assumes C: "core_ok Hd (add_mset (f, k) T) s" and r: "\<And>fb. fc_fibers s f = Some fb \<Longrightarrow> fb_awaiter fb = None"
  shows "\<exists>s'. fiber_destroy f s = Next s' \<and> core_ok Hd T s' \<and> fc_threads s' = fc_threads s"
proof -
  from core_okD [OF C] obtain fb where f: "fc_fibers s f = Some fb" by blast
  let ?s = "s\<lparr>fc_allocator := stack_release (fb_stack fb) (fc_allocator s), fc_fibers := (fc_fibers s)(f := None)\<rparr>"
  from C have P: "placed_ok (fc_fibers s) (add_mset (f, k) (T + outside Hd s))" by (simp add: core_ok_def)
  have S: "stacks_ok (fc_fibers s) (fc_allocator s)" using C by (simp add: core_ok_def)
  have o: "\<And>g gb. fc_fibers s g = Some gb \<Longrightarrow> fb_stack gb = fb_stack fb \<Longrightarrow> g = f" using S f unfolding stacks_ok_def by blast
  have "fb_stack fb < sa_fresh (fc_allocator s)" "fb_stack fb \<notin> set (sa_pool (fc_allocator s))"
    using S f unfolding stacks_ok_def by blast+
  with S o have "stacks_ok (fc_fibers ?s) (fc_allocator ?s)"
    unfolding stacks_ok_def by (simp add: stack_release_def) metis
  moreover have "held_ok (fc_fibers ?s) Hd" using C r [OF f] f by (auto simp: core_ok_def held_ok_def)
  ultimately have "core_ok Hd T ?s"
    using placed_remove [OF P] C by (simp add: core_ok_def outside_def ids_ok_def)
  with f show ?thesis by (simp add: fiber_destroy_def)
qed

lemma stacks_ok_add:
  assumes S: "stacks_ok F a" and new: "\<And>g gb. F g = Some gb \<Longrightarrow> fb_stack gb \<noteq> fb_stack fb"
    and a': "distinct (sa_pool a')" "set (sa_pool a') \<subseteq> set (sa_pool a)" "fb_stack fb \<notin> set (sa_pool a')"
      "sa_fresh a \<le> sa_fresh a'" "fb_stack fb < sa_fresh a'"
  shows "stacks_ok (F(f \<mapsto> fb)) a'"
proof (rule stacks_okI)
  fix st assume "st \<in> set (sa_pool a')"
  with a' stacks_okD(2) [OF S, of st] show "st < sa_fresh a'" by auto
next
  fix g gb assume "(F(f \<mapsto> fb)) g = Some gb"
  with a' stacks_okD(3,4) [OF S, of g gb] show "fb_stack gb < sa_fresh a' \<and> fb_stack gb \<notin> set (sa_pool a')"
    by (cases "g = f") auto
next
  fix g h gb hb assume "(F(f \<mapsto> fb)) g = Some gb" "(F(f \<mapsto> fb)) h = Some hb" "fb_stack gb = fb_stack hb"
  with new [of g gb] new [of h hb] stacks_okD(5) [OF S, of g gb h hb] show "g = h"
    by (cases "g = f"; cases "h = f") auto
qed (rule a')

lemma stack_allocate_ok:
  assumes S: "stacks_ok F a"
  obtains st a' where "stack_allocate a = Inr (st, a')" "\<And>f fb. fb_stack fb = st \<Longrightarrow> stacks_ok (F(f \<mapsto> fb)) a'"
proof (cases "sa_pool a = []")
  case True
  have "fb_stack gb \<noteq> sa_fresh a" if "F g = Some gb" for g gb using stacks_okD(3) [OF S that] by simp
  then have "stacks_ok (F(f \<mapsto> fb)) (a\<lparr>sa_total_allocate := sa_total_allocate a + 1, sa_allocate_new_count := sa_allocate_new_count a + 1,
      sa_total_allocate_bytes := sa_total_allocate_bytes a + 65536, sa_fresh := Suc (sa_fresh a)\<rparr>)"
    if "fb_stack fb = sa_fresh a" for f fb
    using that True by (intro stacks_ok_add [OF S]) simp_all
  with True show thesis by (intro that) (auto simp: stack_allocate_def stack_allocate_new_def Let_def)
next
  case False
  then obtain p st where p: "sa_pool a = p @ [st]" by (metis rev_exhaust)
  have "fb_stack gb \<noteq> st" if "F g = Some gb" for g gb using stacks_okD(4) [OF S that] p by auto
  then have "stacks_ok (F(f \<mapsto> fb)) (a\<lparr>sa_total_allocate := sa_total_allocate a + 1, sa_pool := p\<rparr>)"
    if "fb_stack fb = st" for f fb
    using that p stacks_okD(1,2) [OF S] by (intro stacks_ok_add [OF S]) auto
  with p show thesis by (intro that) (auto simp: stack_allocate_def stack_take_from_pool_def Let_def)
qed

lemma core_create:
  assumes C: "core_ok Hd T s"
  shows "\<exists>s'. fiber_create x s = Next s' \<and> core_ok Hd T s' \<and> fc_threads s' = fc_threads s"
proof -
  let ?f = "fc_created s"
  have S: "stacks_ok (fc_fibers s) (fc_allocator s)" and I: "ids_ok s" and H: "held_ok (fc_fibers s) Hd"
    and P: "placed_ok (fc_fibers s) (T + outside Hd s)" using C by (simp_all add: core_ok_def)
  obtain st a where a: "stack_allocate (fc_allocator s) = Inr (st, a)"
    "\<And>f fb. fb_stack fb = st \<Longrightarrow> stacks_ok ((fc_fibers s)(f \<mapsto> fb)) a"
    using stack_allocate_ok [OF S] by blast
  have n: "fc_fibers s ?f = None" using I by (metis ids_ok_def less_irrefl option.exhaust_sel)
  let ?fb = "\<lparr>fb_stack = st, fb_coroutine = impl_new (), fb_executor = x, fb_state = FsPending, fb_id = fc_last_id s, fb_awaiter = None\<rparr>"
  let ?s = "fc_put ?f ?fb (s\<lparr>fc_created := Suc ?f, fc_last_id := fc_last_id s + 1, fc_allocator := a\<rparr>)"
  have "placed_ok ((fc_fibers s)(?f \<mapsto> ?fb)) (add_mset (?f, PNew) (T + outside Hd s))"
    by (rule placed_add [OF P n]) (simp add: fiber_ready_def impl_new_def)
  moreover have "held_ok ((fc_fibers s)(?f \<mapsto> ?fb)) Hd" using H n unfolding held_ok_def by (auto split: if_splits)
  moreover have "stacks_ok ((fc_fibers s)(?f \<mapsto> ?fb)) a" by (rule a(2)) simp
  moreover have "ids_ok ?s" using I by (auto simp: ids_ok_def fc_put_def less_Suc_eq)
  ultimately have "core_ok Hd (add_mset (?f, PNew) T) ?s" by (simp add: core_ok_def fc_put_def outside_def)
  from core_schedule [OF this] a(1) show ?thesis
    by (auto simp: fiber_create_def unique_id_next_def atomic_simps Let_def fc_put_def)
qed

text \<open>An \<open>Unlocker\<close> takes a handle, and gives it up.\<close>

lemma core_hold:
  assumes C: "core_ok Hd (add_mset (g, PParked) (add_mset (f, PAt AtInside) T)) s" and f: "fc_fibers s f = Some fb"
    and ok: "fiber_ok fb' (PAt AtCompleted)" and aw: "fb_awaiter fb' = Some (AwUnlock g)"
    and same: "fb_stack fb' = fb_stack fb" "fb_id fb' = fb_id fb"
  shows "core_ok ((f, g) # Hd) (add_mset (f, PAt AtCompleted) T) (fc_put f fb' s)"
proof -
  have C1: "core_ok Hd (add_mset (f, PAt AtInside) (add_mset (g, PHeld) T)) s"
    using core_relabel [OF C, of PHeld] by (simp add: add_mset_commute)
  have na: "fb_awaiter fb = None" using core_okD [OF C1] f by simp
  from C1 have P: "placed_ok (fc_fibers s) (add_mset (f, PAt AtInside) (add_mset (g, PHeld) T + outside Hd s))" by (simp add: core_ok_def)
  have out: "add_mset (f, PAt AtCompleted) (add_mset (g, PHeld) T + outside Hd s) =
      add_mset (f, PAt AtCompleted) T + outside ((f, g) # Hd) (fc_put f fb' s)"
    by (simp add: outside_def fc_put_def)
  have H: "held_ok (fc_fibers s) Hd" using C by (simp add: core_ok_def)
  have nf: "f \<notin> fst ` set Hd" using H f na by (fastforce simp: held_ok_def)
  have "held_ok ((fc_fibers s)(f \<mapsto> fb')) ((f, g) # Hd)"
    unfolding held_ok_def
  proof (intro conjI allI)
    show "distinct (map fst ((f, g) # Hd))" using H nf by (simp add: held_ok_def)
    fix x y
    show "(x, y) \<in> set ((f, g) # Hd) \<longleftrightarrow> (\<exists>b. ((fc_fibers s)(f \<mapsto> fb')) x = Some b \<and> fb_awaiter b = Some (AwUnlock y))"
    proof (cases "x = f")
      case True
      moreover have "(f, y) \<notin> set Hd" using nf by (metis fst_conv image_eqI)
      ultimately show ?thesis using aw by auto
    next
      case False
      then show ?thesis using H by (simp add: held_ok_def)
    qed
  qed
  moreover have "stacks_ok ((fc_fibers s)(f \<mapsto> fb')) (fc_allocator s)"
    by (rule stacks_ok_upd [where F = "fc_fibers s", OF _ f]) (use C same(1) in \<open>simp_all add: core_ok_def\<close>)
  moreover have "ids_ok (fc_put f fb' s)" using C f same(2) by (auto simp: core_ok_def ids_ok_def fc_put_def)
  moreover note placed_change [OF P ok, unfolded out]
  ultimately show ?thesis by (simp add: core_ok_def fc_put_def)
qed

lemma core_unhold:
  assumes C: "core_ok Hd (add_mset (f, PAt AtCompleted) T) s" and f: "fc_fibers s f = Some fb"
    and aw: "fb_awaiter fb = Some (AwUnlock g)" "\<not> ci_completed (fb_coroutine fb)"
  shows "\<exists>Hd'. core_ok Hd' (add_mset (f, PParked) (add_mset (g, PHeld) T)) (fc_put f (fb\<lparr>fb_awaiter := None\<rparr>) s)"
proof -
  let ?fb = "fb\<lparr>fb_awaiter := None\<rparr>" and ?Hd = "filter (\<lambda>x. fst x \<noteq> f) Hd"
  have H: "held_ok (fc_fibers s) Hd" using C by (simp add: core_ok_def)
  have fg: "(f, y) \<in> set Hd \<longleftrightarrow> y = g" for y
  proof -
    have "(f, y) \<in> set Hd \<longleftrightarrow> (\<exists>b. fc_fibers s f = Some b \<and> fb_awaiter b = Some (AwUnlock y))" using H unfolding held_ok_def by blast
    then show ?thesis using f aw(1) by auto
  qed
  have "mset Hd = mset ?Hd + mset (filter (\<lambda>x. fst x = f) Hd)" using multiset_partition [of "mset Hd" "\<lambda>x. fst x \<noteq> f"] by simp
  moreover have "filter (\<lambda>x. fst x = f) Hd = [(f, g)]"
  proof -
    let ?xs = "filter (\<lambda>x. fst x = f) Hd"
    have "distinct ?xs" using H by (simp add: held_ok_def distinct_map)
    moreover have xs: "set ?xs = {(f, g)}"
    proof (rule set_eqI)
      fix x show "x \<in> set ?xs \<longleftrightarrow> x \<in> {(f, g)}" by (cases x) (simp, metis fg)
    qed
    ultimately have "length ?xs = 1" using distinct_card [of ?xs] by simp
    then obtain z where "?xs = [z]" by (auto simp: length_Suc_conv)
    with xs show ?thesis by simp
  qed
  ultimately have m: "mset Hd = add_mset (f, g) (mset ?Hd)" by simp
  have out: "add_mset (f, PParked) (T + outside Hd s) = add_mset (f, PParked) (add_mset (g, PHeld) T) + outside ?Hd (fc_put f ?fb s)"
  proof -
    have "mset (map (\<lambda>(f, g). (g, PHeld)) Hd) = add_mset (g, PHeld) (mset (map (\<lambda>(f, g). (g, PHeld)) ?Hd))"
      by (simp only: mset_map m image_mset_add_mset prod.case)
    then show ?thesis by (simp add: outside_def fc_put_def del: mset_map mset_filter)
  qed
  from C have P: "placed_ok (fc_fibers s) (add_mset (f, PAt AtCompleted) (T + outside Hd s))" by (simp add: core_ok_def)
  have ok: "fiber_ok ?fb PParked" using core_okD [OF C] f aw(2) by (auto simp: fiber_ready_def)
  have "held_ok ((fc_fibers s)(f \<mapsto> ?fb)) ?Hd"
    unfolding held_ok_def
  proof (intro conjI allI)
    show "distinct (map fst ?Hd)" using H by (simp add: held_ok_def distinct_map_filter)
    fix x y
    show "(x, y) \<in> set ?Hd \<longleftrightarrow> (\<exists>b. ((fc_fibers s)(f \<mapsto> ?fb)) x = Some b \<and> fb_awaiter b = Some (AwUnlock y))"
    proof (cases "x = f")
      case False
      then show ?thesis using H by (simp add: held_ok_def)
    qed simp
  qed
  moreover have "stacks_ok ((fc_fibers s)(f \<mapsto> ?fb)) (fc_allocator s)"
    by (rule stacks_ok_upd [where F = "fc_fibers s", OF _ f]) (use C in \<open>simp_all add: core_ok_def\<close>)
  moreover have "ids_ok (fc_put f ?fb s)" using C f by (auto simp: core_ok_def ids_ok_def fc_put_def)
  moreover note placed_change [OF P ok, unfolded out]
  ultimately have "core_ok ?Hd (add_mset (f, PParked) (add_mset (g, PHeld) T)) (fc_put f ?fb s)" by (simp add: core_ok_def fc_put_def)
  then show ?thesis by blast
qed

subsection \<open>Every step keeps it\<close>

fun fiber_lands :: "fiber_core outcome \<Rightarrow> bool" where
  "fiber_lands (Next s) \<longleftrightarrow> fiber_inv s"
| "fiber_lands Disabled \<longleftrightarrow> True"
| "fiber_lands (Fault x) \<longleftrightarrow> x = Panic ''Not in a fiber context'' \<or> x = Panic ''std::terminate''"

lemma frames_current:
  assumes "frames_ok fs cur" and "case fs of [] \<Rightarrow> True | (_, p, _) # _ \<Rightarrow> p = AtInside"
  shows "(fs = [] \<and> cur = None) \<or> (\<exists>f prev gs. fs = (f, AtInside, prev) # gs \<and> cur = Some f)"
  using assms by (cases fs) (auto split: if_splits)

lemma user_code_top: "user_code t s \<Longrightarrow> case th_frames (fc_threads s ! t) of [] \<Rightarrow> True | (_, p, _) # _ \<Rightarrow> p = AtInside"
  by (simp add: user_code_def)

lemma frames_push:
  assumes "frames_ok fs cur" and "case fs of [] \<Rightarrow> True | (_, p, _) # _ \<Rightarrow> p = AtInside"
  shows "frames_ok ((g, AtStep, None) # fs) cur"
proof (cases fs)
  case (Cons x gs)
  obtain f p prev where "x = (f, p, prev)" by (rule prod_cases3)
  with assms Cons show ?thesis by simp
qed (use assms in simp)

lemma fiber_inv_create: "fiber_inv s \<Longrightarrow> fiber_lands (fiber_create x s)"
proof -
  assume I: "fiber_inv s"
  then obtain Hd where "core_ok Hd (thread_places (fc_threads s)) s" by (auto simp: fiber_inv_def)
  from core_create [OF this, of x] fiber_inv_same_threads [OF _ _ I] show ?thesis by auto
qed

lemma fiber_inv_go_current: "fiber_inv s \<Longrightarrow> user_code t s \<Longrightarrow> fiber_lands (fiber_go_current t s)"
proof -
  assume I: "fiber_inv s" and u: "user_code t s"
  then have t: "t < length (fc_threads s)" by (simp add: user_code_def)
  obtain Hd R where
    c: "core_ok Hd (frame_places (th_frames (fc_threads s ! t)) + R) s"
    and fr: "frames_ok (th_frames (fc_threads s ! t)) (th_current (fc_threads s ! t))" using fiber_inv_thread [OF I t] by auto
  from frames_current [OF fr user_code_top [OF u]] show ?thesis
  proof
    assume "th_frames (fc_threads s ! t) = [] \<and> th_current (fc_threads s ! t) = None"
    then show ?thesis by (simp add: fiber_go_current_def fiber_current_def)
  next
    assume "\<exists>f prev gs. th_frames (fc_threads s ! t) = (f, AtInside, prev) # gs \<and> th_current (fc_threads s ! t) = Some f"
    then obtain f prev gs where f: "th_frames (fc_threads s ! t) = (f, AtInside, prev) # gs" "th_current (fc_threads s ! t) = Some f"
      by blast
    with c have "core_ok Hd (add_mset (f, PAt AtInside) (frame_places gs + R)) s" by simp
    from core_okD [OF this] obtain fb where "fc_fibers s f = Some fb" by blast
    with f fiber_inv_create [OF I, of "fb_executor fb"] show ?thesis by (simp add: fiber_go_current_def fiber_current_def)
  qed
qed

lemma fiber_inv_run: "fiber_inv s \<Longrightarrow> user_code t s \<Longrightarrow> fiber_lands (fiber_run t i s)"
proof -
  assume I: "fiber_inv s" and u: "user_code t s"
  then have t: "t < length (fc_threads s)" by (simp add: user_code_def)
  let ?fs = "th_frames (fc_threads s ! t)" and ?cur = "th_current (fc_threads s ! t)"
  obtain Hd R where
    c: "core_ok Hd (frame_places ?fs + R) s" and fr: "frames_ok ?fs ?cur" and R: "thread_rest t s R" using fiber_inv_thread [OF I t] by auto
  show ?thesis
  proof (cases "i < length (fc_queue s)")
    case i: True
    let ?q = "fc_queue s ! i" and ?s = "s\<lparr>fc_queue := take i (fc_queue s) @ drop (Suc i) (fc_queue s)\<rparr>"
    have "core_ok Hd (add_mset (snd ?q, PQueue (fst ?q)) (frame_places ?fs + R)) ?s" using core_dequeue [OF i] c by blast
    from core_relabel [OF this, of "PAt AtStep"]
    have "core_ok Hd (frame_places ((snd ?q, AtStep, None) # ?fs) + R) ?s" by simp
    moreover have "frames_ok ((snd ?q, AtStep, None) # ?fs) ?cur" by (rule frames_push [OF fr user_code_top [OF u]])
    ultimately show ?thesis using i fiber_inv_put [OF I R, of Hd "(snd ?q, AtStep, None) # ?fs" ?s ?cur] by (simp add: fiber_run_def)
  qed (simp add: fiber_run_def)
qed

lemma fiber_inv_step:
  assumes I: "fiber_inv s" and t: "t < length (fc_threads s)"
  shows "fiber_lands (fiber_step t s)"
proof -
  let ?fs = "th_frames (fc_threads s ! t)" and ?cur = "th_current (fc_threads s ! t)"
  obtain Hd R where
    c: "core_ok Hd (frame_places ?fs + R) s" and fr: "frames_ok ?fs ?cur" and R: "thread_rest t s R" using fiber_inv_thread [OF I t] by auto
  show ?thesis
  proof (cases "\<exists>f prev gs. ?fs = (f, AtStep, prev) # gs")
    case True
    then obtain f prev gs where fs: "?fs = (f, AtStep, prev) # gs" by blast
    with c have c1: "core_ok Hd (add_mset (f, PAt AtStep) (frame_places gs + R)) s" by simp
    from core_okD [OF c1] obtain fb where f: "fc_fibers s f = Some fb" "fiber_ready fb" by auto
    then obtain k where k: "ci_context (fb_coroutine fb) = Some k" by (auto simp: fiber_ready_def)
    have sw: "impl_switch_in (fb_coroutine fb) = Inr (k, (fb_coroutine fb)\<lparr>ci_context := None\<rparr>)"
      using f(2) k by (simp add: impl_switch_in_def fiber_ready_def)
    let ?fb = "fb\<lparr>fb_state := FsRunning, fb_coroutine := (fb_coroutine fb)\<lparr>ci_context := None\<rparr>\<rparr>"
    have "core_ok Hd (add_mset (f, PAt AtInside) (frame_places gs + R)) (fc_put f ?fb s)"
      by (rule core_put [OF c1 f(1)]) (use f(2) in \<open>simp_all add: fiber_ready_def\<close>)
    then have "fiber_inv (th_put t ((f, AtInside, ?cur) # gs) (Some f) (fc_put f ?fb s))"
      using fr fs by (intro fiber_inv_put [OF I R, of Hd]) (simp_all add: fc_put_def)
    then show ?thesis using fs f(1) sw by (simp add: fiber_step_def)
  qed (auto simp: fiber_step_def split: list.splits run_at.splits)
qed

lemma fiber_suspend_eq:
  assumes "th_frames (fc_threads s ! t) = (f, AtInside, prev) # gs" "th_current (fc_threads s ! t) = Some f" "fc_fibers s f = Some fb"
  shows "fiber_suspend t aw s = Next (th_put t ((f, AtCompleted, None) # gs) prev
    (fc_put f (fb\<lparr>fb_awaiter := Some aw, fb_state := FsSuspended, fb_coroutine := impl_suspend () (fb_coroutine fb)\<rparr>) s))"
  using assms by (simp add: fiber_suspend_def fiber_current_def fiber_step_return_def fc_put_def)

lemma suspended_ok:
  "fiber_ok fb (PAt AtInside) \<Longrightarrow>
    fiber_ok (fb\<lparr>fb_awaiter := Some aw, fb_state := FsSuspended, fb_coroutine := impl_suspend () (fb_coroutine fb)\<rparr>) (PAt AtCompleted)"
  by (simp add: impl_suspend_def)

lemma fiber_inv_suspend:
  assumes I: "fiber_inv s" and u: "user_code t s"
  shows "fiber_lands (fiber_core_step (FcSuspend t aw) s)"
proof -
  from u have t: "t < length (fc_threads s)" by (simp add: user_code_def)
  let ?fs = "th_frames (fc_threads s ! t)" and ?cur = "th_current (fc_threads s ! t)"
  obtain Hd R where c: "core_ok Hd (frame_places ?fs + R) s" and fr: "frames_ok ?fs ?cur" and R: "thread_rest t s R"
    using fiber_inv_thread [OF I t] by auto
  from frames_current [OF fr user_code_top [OF u]] show ?thesis
  proof
    assume "?fs = [] \<and> ?cur = None"
    with u show ?thesis by (simp add: fiber_suspend_def fiber_current_def fc_unpark_def split: awaiter.splits)
  next
    assume "\<exists>f prev gs. ?fs = (f, AtInside, prev) # gs \<and> ?cur = Some f"
    then obtain f prev gs where fs: "?fs = (f, AtInside, prev) # gs" "?cur = Some f" by blast
    with c have c1: "core_ok Hd (add_mset (f, PAt AtInside) (frame_places gs + R)) s" by simp
    from core_okD [OF c1] obtain fb where f: "fc_fibers s f = Some fb" "fiber_ok fb (PAt AtInside)" by blast
    let ?fb = "fb\<lparr>fb_awaiter := Some aw, fb_state := FsSuspended, fb_coroutine := impl_suspend () (fb_coroutine fb)\<rparr>"
    have fr': "frames_ok ((f, AtCompleted, None) # gs) prev" using fr fs by simp
    note ok = suspended_ok [OF f(2), of aw]
    show ?thesis
    proof (cases "\<exists>g. aw = AwUnlock g")
      case False
      have "core_ok Hd (add_mset (f, PAt AtCompleted) (frame_places gs + R)) (fc_put f ?fb s)"
        by (rule core_put [OF c1 f(1) ok]) (use f(2) False in simp_all)
      then have "fiber_inv (th_put t ((f, AtCompleted, None) # gs) prev (fc_put f ?fb s))"
        using fr' by (intro fiber_inv_put [OF I R, of Hd]) (simp_all add: fc_put_def)
      with fiber_suspend_eq [OF fs f(1), of aw] u False show ?thesis by (cases aw) simp_all
    next
      case True
      then obtain g where aw: "aw = AwUnlock g" by blast
      show ?thesis
      proof (cases "g \<in> set (fc_parked s)")
        case g: True
        let ?s = "fc_unpark g s"
        have s: "fc_fibers ?s = fc_fibers s" "fc_threads ?s = fc_threads s" by (simp_all add: fc_unpark_def)
        have "core_ok Hd (add_mset (g, PParked) (add_mset (f, PAt AtInside) (frame_places gs + R))) ?s"
          using c1 core_unpark [OF g] by blast
        then have "core_ok ((f, g) # Hd) (add_mset (f, PAt AtCompleted) (frame_places gs + R)) (fc_put f ?fb ?s)"
          by (rule core_hold [where fb = fb]) (use f(1) s(1) ok aw in \<open>simp_all del: fiber_ok.simps\<close>)
        then have "fiber_inv (th_put t ((f, AtCompleted, None) # gs) prev (fc_put f ?fb ?s))"
          using fr' s by (intro fiber_inv_put [OF I R, of "(f, g) # Hd"]) (simp_all add: fc_put_def)
        with fiber_suspend_eq [of ?s t f prev gs fb aw] fs f(1) s u aw g show ?thesis by simp
      qed (simp add: aw)
    qed
  qed
qed

lemma fiber_inv_end:
  assumes I: "fiber_inv s" and t: "t < length (fc_threads s)"
  shows "fiber_lands (fiber_routine_end t thrown s)"
proof -
  let ?fs = "th_frames (fc_threads s ! t)" and ?cur = "th_current (fc_threads s ! t)"
  obtain Hd R where c: "core_ok Hd (frame_places ?fs + R) s" and fr: "frames_ok ?fs ?cur" and R: "thread_rest t s R"
    using fiber_inv_thread [OF I t] by auto
  show ?thesis
  proof (cases "\<exists>f prev gs. ?fs = (f, AtInside, prev) # gs")
    case True
    then obtain f prev gs where fs: "?fs = (f, AtInside, prev) # gs" by blast
    with c have c1: "core_ok Hd (add_mset (f, PAt AtInside) (frame_places gs + R)) s" by simp
    from core_okD [OF c1] obtain fb where f: "fc_fibers s f = Some fb" "fiber_ok fb (PAt AtInside)" by blast
    show ?thesis
    proof (cases thrown)
      case None
      let ?fb = "fb\<lparr>fb_coroutine := (fb_coroutine fb)\<lparr>ci_completed := True\<rparr>\<rparr>"
      have "core_ok Hd (add_mset (f, PAt AtCompleted) (frame_places gs + R)) (fc_put f ?fb s)"
        by (rule core_put [OF c1 f(1)]) (use f(2) in simp_all)
      then have "fiber_inv (th_put t ((f, AtCompleted, None) # gs) prev (fc_put f ?fb s))"
        using fr fs by (intro fiber_inv_put [OF I R, of Hd]) (simp_all add: fc_put_def)
      with fs f None show ?thesis
        by (simp add: fiber_routine_end_def impl_run_end_def impl_resume_end_def fiber_step_return_def fc_put_def Let_def)
    next
      case (Some e)
      with fs f show ?thesis by (simp add: fiber_routine_end_def impl_run_end_def impl_resume_end_def Let_def)
    qed
  qed (auto simp: fiber_routine_end_def split: list.splits run_at.splits)
qed

lemma fiber_inv_discard: "fiber_inv s \<Longrightarrow> fiber_lands (fiber_discard i s)"
proof -
  assume I: "fiber_inv s"
  then obtain Hd where c: "core_ok Hd (thread_places (fc_threads s)) s" by (auto simp: fiber_inv_def)
  show ?thesis
  proof (cases "i < length (fc_queue s)")
    case i: True
    let ?q = "fc_queue s ! i" and ?s = "s\<lparr>fc_queue := take i (fc_queue s) @ drop (Suc i) (fc_queue s)\<rparr>"
    have c1: "core_ok Hd (add_mset (snd ?q, PQueue (fst ?q)) (thread_places (fc_threads s))) ?s" using core_dequeue [OF i] c by blast
    have "\<And>fb. fc_fibers ?s (snd ?q) = Some fb \<Longrightarrow> fb_awaiter fb = None" using core_okD [OF c1] by (auto simp: fiber_ready_def)
    from core_destroy [OF c1 this] fiber_inv_same_threads [OF _ _ I] i show ?thesis by (fastforce simp: fiber_discard_def)
  qed (simp add: fiber_discard_def)
qed

lemma fiber_inv_wake:
  assumes I: "fiber_inv s" and g: "g \<in> set (fc_parked s)"
  shows "fiber_lands (handle_schedule (Some g) (fc_unpark g s))" "fiber_lands (handle_resume (Some g) (fc_unpark g s))"
proof -
  from I obtain Hd where "core_ok Hd (thread_places (fc_threads s)) s" by (auto simp: fiber_inv_def)
  with core_unpark [OF g] have c: "core_ok Hd (add_mset (g, PParked) (thread_places (fc_threads s))) (fc_unpark g s)" by blast
  have th: "fc_threads (fc_unpark g s) = fc_threads s" by (simp add: fc_unpark_def)
  from core_schedule [OF c] obtain s1 where s1: "fiber_schedule g (fc_unpark g s) = Next s1" "core_ok Hd (thread_places (fc_threads s)) s1"
    "fc_threads s1 = fc_threads s" using th by auto
  with fiber_inv_same_threads [OF _ _ I] show "fiber_lands (handle_schedule (Some g) (fc_unpark g s))"
    by (auto simp: handle_schedule_def handle_release_def)
  from core_resume [OF c] obtain s2 where "fiber_resume g (fc_unpark g s) = Next s2" "core_ok Hd (thread_places (fc_threads s)) s2"
    "fc_threads s2 = fc_threads s" using th by auto
  with fiber_inv_same_threads [OF _ _ I] show "fiber_lands (handle_resume (Some g) (fc_unpark g s))"
    by (auto simp: handle_resume_def handle_release_def)
qed

text \<open>What \<open>OnCompleted\<close> does with a fiber that it has in hand.\<close>

lemma core_on_completed:
  assumes C: "core_ok Hd (add_mset (f, PAt AtCompleted) T) s" and f: "fc_fibers s f = Some fb"
    and aw: "fb_awaiter fb = Some aw" "\<not> ci_completed (fb_coroutine fb)"
  shows "\<exists>nxt s' Hd'. on_completed aw ready f (fc_put f (fb\<lparr>fb_awaiter := None\<rparr>) s) = Inr (nxt, s') \<and>
    core_ok Hd' ((case nxt of None \<Rightarrow> {#} | Some g \<Rightarrow> {#(g, PAt AtStep)#}) + T) s' \<and> fc_threads s' = fc_threads s"
proof -
  let ?fb = "fb\<lparr>fb_awaiter := None\<rparr>" and ?s = "fc_put f (fb\<lparr>fb_awaiter := None\<rparr>) s"
  have th: "fc_threads ?s = fc_threads s" by (simp add: fc_put_def)
  have step: "core_ok Hd' (add_mset (g, k) T) s' \<Longrightarrow> (\<And>fb. fiber_ok fb k \<Longrightarrow> fiber_ready fb) \<Longrightarrow> core_ok Hd' (add_mset (g, PAt AtStep) T) s'"
    for Hd' g k s' by (rule core_relabel) simp_all
  show ?thesis
  proof (cases "\<exists>g. aw = AwUnlock g")
    case True
    then obtain g where g: "aw = AwUnlock g" by blast
    from core_unhold [OF C f _ aw(2), of g] aw(1) g obtain Hd' where
      "core_ok Hd' (add_mset (f, PParked) (add_mset (g, PHeld) T)) ?s" by auto
    from core_schedule [OF this] obtain s' where s': "fiber_schedule f ?s = Next s'" "core_ok Hd' (add_mset (g, PHeld) T) s'"
      "fc_threads s' = fc_threads s" using th by auto
    from step [OF s'(2)] have "core_ok Hd' (add_mset (g, PAt AtStep) T) s'" by simp
    with s' g show ?thesis by (auto simp: handle_schedule_def handle_release_def)
  next
    case False
    have "fiber_ok fb (PAt AtCompleted)" using core_okD [OF C] f by auto
    with aw False have c: "core_ok Hd (add_mset (f, PParked) T) ?s"
      by (intro core_put [OF C f]) (simp_all add: fiber_ready_def)
    show ?thesis
    proof (cases aw)
      case AwYield
      from core_schedule [OF c] obtain s' where "fiber_schedule f ?s = Next s'" "core_ok Hd T s'" "fc_threads s' = fc_threads s"
        using th by auto
      with AwYield show ?thesis by (auto simp: handle_schedule_def handle_release_def)
    next
      case AwMaybe
      from step [OF c] have "core_ok Hd (add_mset (f, PAt AtStep) T) ?s" by simp
      with AwMaybe c th show ?thesis by (cases ready) (auto simp: core_park)
    next
      case AwAlways
      with c th show ?thesis by (auto simp: core_park)
    qed (use False in blast)
  qed
qed

lemma fiber_inv_completed:
  assumes I: "fiber_inv s" and t: "t < length (fc_threads s)"
  shows "fiber_lands (run_fiber_completed t ready s)"
proof -
  let ?fs = "th_frames (fc_threads s ! t)" and ?cur = "th_current (fc_threads s ! t)"
  obtain Hd R where c: "core_ok Hd (frame_places ?fs + R) s" and fr: "frames_ok ?fs ?cur" and R: "thread_rest t s R"
    using fiber_inv_thread [OF I t] by auto
  show ?thesis
  proof (cases "\<exists>f prev gs. ?fs = (f, AtCompleted, prev) # gs")
    case True
    then obtain f prev gs where fs: "?fs = (f, AtCompleted, prev) # gs" by blast
    with c have c1: "core_ok Hd (add_mset (f, PAt AtCompleted) (frame_places gs + R)) s" by simp
    from core_okD [OF c1] obtain fb where f: "fc_fibers s f = Some fb" "fiber_ok fb (PAt AtCompleted)" by blast
    have gs: "frames_ok gs ?cur" "\<forall>x\<in>set gs. fst (snd x) = AtInside" using fr fs by simp_all
    show ?thesis
    proof (cases "ci_completed (fb_coroutine fb)")
      case True
      with f have "\<And>b. fc_fibers s f = Some b \<Longrightarrow> fb_awaiter b = None" by simp
      from core_destroy [OF c1 this] obtain s' where s': "fiber_destroy f s = Next s'" "core_ok Hd (frame_places gs + R) s'"
        "fc_threads s' = fc_threads s" by blast
      with fiber_inv_put [OF I R s'(2,3) gs(1)] fs f(1) True show ?thesis
        by (simp add: run_fiber_completed_def impl_is_completed_def Let_def)
    next
      case False
      then obtain aw where aw: "fb_awaiter fb = Some aw" "fb_state fb = FsSuspended" using f(2) by auto
      from core_on_completed [OF c1 f(1) aw(1) False, of ready] obtain nxt s' Hd' where
        s': "on_completed aw ready f (fc_put f (fb\<lparr>fb_awaiter := None\<rparr>) s) = Inr (nxt, s')"
        "core_ok Hd' ((case nxt of None \<Rightarrow> {#} | Some g \<Rightarrow> {#(g, PAt AtStep)#}) + (frame_places gs + R)) s'"
        "fc_threads s' = fc_threads s" by blast
      let ?new = "(case nxt of None \<Rightarrow> [] | Some g \<Rightarrow> [(g, AtStep, None)]) @ gs"
      have "fiber_inv (th_put t ?new ?cur s')"
        by (rule fiber_inv_put [OF I R _ s'(3)]) (use s'(2) gs in \<open>auto split: option.splits\<close>)
      with s'(1,3) fs f(1) aw False show ?thesis by (simp add: run_fiber_completed_def impl_is_completed_def Let_def)
    qed
  qed (auto simp: run_fiber_completed_def split: list.splits run_at.splits)
qed

lemma fiber_inv_event: "fiber_inv s \<Longrightarrow> fiber_lands (fiber_core_step e s)"
proof (cases e)
  case (FcSuspend t aw)
  assume "fiber_inv s"
  with FcSuspend fiber_inv_suspend [of s t aw] show ?thesis by (cases "user_code t s") simp_all
qed (use fiber_inv_create fiber_inv_go_current fiber_inv_run fiber_inv_step fiber_inv_end fiber_inv_completed fiber_inv_discard
    fiber_inv_wake in \<open>simp_all\<close>)

lemma core_ok_init: "core_ok [] {#} (fiber_core_init n)"
  by (simp add: core_ok_def fiber_core_init_def placed_ok_def outside_def held_ok_def stacks_ok_def ids_ok_def allocator_init_def)

lemma fiber_inv_init: "fiber_inv (fiber_core_init n)"
proof -
  have "thread_places (replicate n \<lparr>th_frames = [], th_current = None\<rparr>) = {#}" by (induction n) (simp_all add: thread_places_def)
  with core_ok_init [of n] show ?thesis by (auto simp: fiber_inv_def fiber_core_init_def)
qed

lemma fiber_runs: "fiber_inv s \<Longrightarrow> fiber_lands (exec fiber_core_step es s)"
proof (induction es arbitrary: s)
  case (Cons e es)
  from fiber_inv_event [OF Cons.prems, of e] Cons.IH show ?case by (cases "fiber_core_step e s") simp_all
qed simp

subsection \<open>Theorems\<close>

definition fiber_places :: "fiber_core \<Rightarrow> nat multiset" where
  "fiber_places s = mset (map snd (fc_queue s)) + mset (fc_parked s) + mset (map fst (concat (map th_frames (fc_threads s))))"

definition fiber_held :: "fiber_core \<Rightarrow> nat \<Rightarrow> bool" where
  "fiber_held s g \<longleftrightarrow> (\<exists>f fb. fc_fibers s f = Some fb \<and> fb_awaiter fb = Some (AwUnlock g))"

definition innermost_fiber :: "thread \<Rightarrow> nat option" where
  "innermost_fiber th = (case filter (\<lambda>x. fst (snd x) = AtInside) (th_frames th) of [] \<Rightarrow> None | x # _ \<Rightarrow> Some (fst x))"

lemma thread_places_fst: "image_mset fst (thread_places ths) = mset (map fst (concat (map th_frames ths)))"
proof (induction ths)
  case (Cons th ths)
  have "image_mset fst (frame_places (th_frames th)) = mset (map fst (th_frames th))"
    by (induction "th_frames th" arbitrary: th rule: list.induct) (simp_all add: frame_places_def split_beta multiset.map_comp comp_def)
  with Cons show ?case by (simp add: thread_places_def)
qed (simp add: thread_places_def)

lemma core_ok_places:
  assumes "core_ok Hd (thread_places (fc_threads s)) s"
  shows "count (fiber_places s) f = (if fc_fibers s f = None \<or> fiber_held s f then 0 else 1)"
proof -
  let ?H = "mset (map snd Hd)"
  have P: "placed_ok (fc_fibers s) (thread_places (fc_threads s) + outside Hd s)" and H: "held_ok (fc_fibers s) Hd"
    using assms by (simp_all add: core_ok_def)
  have e: "image_mset fst (thread_places (fc_threads s) + outside Hd s) = fiber_places s + ?H"
    by (simp add: thread_places_fst outside_def fiber_places_def multiset.map_comp comp_def split_beta)
  have c: "count (fiber_places s) f + count ?H f = (if fc_fibers s f = None then 0 else 1)"
    using placed_count [OF P, of f] unfolding e by (simp only: count_union)
  have "f \<in># ?H \<longleftrightarrow> fiber_held s f" using H by (force simp: held_ok_def fiber_held_def)
  then have h: "0 < count ?H f \<longleftrightarrow> fiber_held s f" by (simp only: count_greater_zero_iff)
  show ?thesis
  proof (cases "fc_fibers s f = None")
    case True
    then show ?thesis using c by (simp only: if_True simp_thms; linarith?)
  next
    case False
    then have c1: "count (fiber_places s) f + count ?H f = 1" using c by (simp only: if_False)
    show ?thesis
    proof (cases "fiber_held s f")
      case True
      with h c1 show ?thesis by (simp only: if_True simp_thms; linarith?)
    next
      case no: False
      with h have "count ?H f = 0" by (simp only: neq0_conv not_less_zero) (metis neq0_conv)
      with c1 no False show ?thesis by (simp only: if_False simp_thms; linarith?)
    qed
  qed
qed

lemma frames_innermost: "frames_ok (th_frames th) (th_current th) \<Longrightarrow> th_current th = innermost_fiber th"
proof -
  have "frames_ok fs cur \<Longrightarrow> cur = (case filter (\<lambda>x. fst (snd x) = AtInside) fs of [] \<Rightarrow> None | x # _ \<Rightarrow> Some (fst x))" for fs cur
    by (induction fs cur rule: frames_ok.induct) (auto split: if_splits)
  then show "frames_ok (th_frames th) (th_current th) \<Longrightarrow> ?thesis" by (simp add: innermost_fiber_def)
qed

text \<open>
  C29. However fibers are started, suspended, scheduled, resumed, discarded and run by the threads of their executors,
  a fiber is at every moment in one place only (a queue, a parked handle, a frame of a thread, or the \<open>Unlocker\<close> that
  will run it next) until it is destroyed; the current fiber of a thread is the innermost one that runs on it; no two
  fibers share a stack, and none uses a stack of the pool; a fiber is queued only on its own executor. No assertion fails and nothing destroyed is used: all that can
  go wrong is a call from outside a fiber and an exception that leaves a routine.
\<close>

theorem fiber_in_one_place:
  "case exec fiber_core_step es (fiber_core_init n) of
     Next s \<Rightarrow>
       (\<forall>f. count (fiber_places s) f = (if fc_fibers s f = None \<or> fiber_held s f then 0 else 1)) \<and>
       (\<forall>th\<in>set (fc_threads s). th_current th = innermost_fiber th) \<and>
       stacks_ok (fc_fibers s) (fc_allocator s) \<and>
       (\<forall>(x, f)\<in>set (fc_queue s). \<exists>fb. fc_fibers s f = Some fb \<and> fb_executor fb = x)
   | Disabled \<Rightarrow> True
   | Fault x \<Rightarrow> x = Panic ''Not in a fiber context'' \<or> x = Panic ''std::terminate''"
proof (cases "exec fiber_core_step es (fiber_core_init n)")
  case (Next s)
  with fiber_runs [OF fiber_inv_init, of es n] have I: "fiber_inv s" by simp
  then obtain Hd where c: "core_ok Hd (thread_places (fc_threads s)) s" by (auto simp: fiber_inv_def)
  have "stacks_ok (fc_fibers s) (fc_allocator s)" using c by (simp add: core_ok_def)
  moreover have "\<forall>th\<in>set (fc_threads s). th_current th = innermost_fiber th"
    using I frames_innermost by (simp add: fiber_inv_def)
  moreover have "\<exists>fb. fc_fibers s f = Some fb \<and> fb_executor fb = x" if "(x, f) \<in> set (fc_queue s)" for x f
  proof -
    have "(f, PQueue x) \<in># outside Hd s" using that by (force simp: outside_def)
    moreover have "placed_ok (fc_fibers s) (thread_places (fc_threads s) + outside Hd s)" using c by (simp add: core_ok_def)
    ultimately have "\<exists>fb. fc_fibers s f = Some fb \<and> fiber_ok fb (PQueue x)"
      using placed_okD [of "fc_fibers s" "thread_places (fc_threads s) + outside Hd s" f "PQueue x"] by (simp del: fiber_ok.simps)
    then show ?thesis by auto
  qed
  ultimately show ?thesis using core_ok_places [OF c] Next by auto
next
  case (Fault x)
  with fiber_runs [OF fiber_inv_init, of es n] show ?thesis by simp
qed simp

text \<open>The \<open>Unlocker\<close> of the mutex: the fiber 1 is run next, on the thread of the fiber 0 that unlocked.\<close>

theorem fiber_in_one_place_witness:
  "\<exists>s. exec fiber_core_step
       [FcGo 5, FcGo 5, FcRun 0 1, FcStep 0, FcSuspend 0 AwMaybe, FcCompleted 0 False, FcRun 0 0, FcStep 0,
        FcSuspend 0 (AwUnlock 1), FcCompleted 0 False] (fiber_core_init 1) = Next s \<and>
     map snd (fc_queue s) = [0] \<and> map fst (th_frames (fc_threads s ! 0)) = [1] \<and> count (fiber_places s) 1 = 1"
  (is "\<exists>s. exec _ ?es _ = Next s \<and> _")
proof -
  obtain s where s: "exec fiber_core_step ?es (fiber_core_init 1) = Next s" "map snd (fc_queue s) = [0]"
    "map fst (th_frames (fc_threads s ! 0)) = [1]" "\<not> fiber_held s 1" "fc_fibers s 1 \<noteq> None"
    by (simp add: fiber_defs impl_defs atomic_simps Let_def fiber_held_def split: if_splits)
  from fiber_in_one_place [of ?es 1] s(1) have "\<forall>f. count (fiber_places s) f = (if fc_fibers s f = None \<or> fiber_held s f then 0 else 1)"
    by simp
  with s show ?thesis by auto
qed

text \<open>
  C30. Fibers have distinct ids as long as at most \<open>2^64\<close> were created (the counter wraps around after that).
\<close>

theorem fiber_ids_unique:
  assumes "exec fiber_core_step es (fiber_core_init n) = Next s" and "fc_created s \<le> 2 ^ 64"
    and "fc_fibers s f = Some fb" and "fc_fibers s g = Some gb" and "fb_id fb = fb_id gb"
  shows "f = g"
proof -
  from fiber_runs [OF fiber_inv_init, of es n] assms(1) have "fiber_inv s" by simp
  then have "ids_ok s" by (auto simp: fiber_inv_def core_ok_def)
  with assms(3,4) have fg: "f < fc_created s" "fb_id fb = of_nat f" "g < fc_created s" "fb_id gb = of_nat g" by (auto simp: ids_ok_def)
  with assms(2) have "f < 2 ^ 64" "g < 2 ^ 64" by linarith+
  then have "unat (of_nat f :: u64) = f" "unat (of_nat g :: u64) = g" by (simp_all add: unsigned_of_nat take_bit_nat_eq_self)
  with fg assms(5) show ?thesis by metis
qed

theorem fiber_ids_unique_witness:
  "\<exists>s. exec fiber_core_step [FcGo 5, FcGo 6] (fiber_core_init 1) = Next s \<and>
     fb_id (the (fc_fibers s 0)) \<noteq> fb_id (the (fc_fibers s 1))"
proof -
  obtain s fb gb where s: "exec fiber_core_step [FcGo 5, FcGo 6] (fiber_core_init 1) = Next s" "fc_created s = 2"
    "fc_fibers s 0 = Some fb" "fc_fibers s 1 = Some gb"
    by (simp add: fiber_defs impl_defs atomic_simps Let_def)
  from fiber_ids_unique [OF s(1) _ s(3,4)] s(2) have "fb_id fb \<noteq> fb_id gb" by auto
  with s show ?thesis by simp
qed

end
