(* ===== verification/Lockfree_Stack.thy ===== *)
theory Lockfree_Stack
  imports Stamped_Ptr "HOL-Library.Multiset"
begin

section \<open>The lock-free stack with split reference counts\<close>

text \<open>
  \<open>concurrency/lockfree/stack.h\<close>. The head is a stamped pointer: the stamp counts how often \<open>TryPop\<close> has acquired the node
  behind it, and goes with the pointer into \<open>next\<close> when another node is pushed on top. A thread that gives its reference
  up subtracts one from \<open>global\<close> of the node; the thread that takes the node out adds the stamp. Whoever brings the sum
  to zero deletes the node. Nodes are allocated at addresses that the environment chooses among those not in use, so
  an address may come back after it was freed.

  One event is one access to \<open>head_\<close> or to \<open>global\<close>, with the thread-local code up to the next one. \<open>spurious\<close> is the
  failure without reason of a weak exchange. A value that was moved out of a node is \<open>None\<close>. \<open>ls_log\<close> is the history that
  the callers see: the calls and the returns, with their values, in the order in which they happened.

  A stamp has 16 bits. \<open>ls_wraps\<close> says that a step acquires a node whose stamp is already the largest; the step is modelled
  with its wrap-around, and the properties are of the runs that avoid it, however long.
\<close>

record 'v ls_node =
  nd_value :: "'v option"
  nd_next :: stamped
  nd_global :: i32

type_synonym 'v ls_heap = "addr \<Rightarrow> 'v ls_node option"

datatype ls_pc =
    LsIdle
  | LsPush addr          \<comment> \<open>\<open>Push\<close>: about to exchange \<open>node->next\<close> for the node\<close>
  | LsAcqLoad            \<comment> \<open>\<open>AcquireRef\<close>: about to load the head\<close>
  | LsAcq stamped        \<comment> \<open>\<open>AcquireRef\<close>: about to exchange it for the next stamp\<close>
  | LsPopCas stamped     \<comment> \<open>\<open>TryPop\<close>: about to exchange the head for \<open>head->next\<close>\<close>
  | LsMoved stamped      \<comment> \<open>it took the node out: about to take the value and add the stamp\<close>
  | LsRelease stamped    \<comment> \<open>it lost: about to give the reference up\<close>
  | LsConLoad
  | LsConCas stamped     \<comment> \<open>\<open>ConsumeAll\<close>: about to exchange the head for null\<close>
  | LsWalk stamped       \<comment> \<open>\<open>ConsumeAll\<close>: at this node of what it took\<close>

datatype 'v ls_label =
    CallPush nat 'v
  | RetPush nat
  | CallPop nat
  | RetPop nat "'v option"
  | CallConsume nat
  | Gave nat 'v            \<comment> \<open>\<open>ConsumeAll\<close> called \<open>func\<close> with this value\<close>
  | RetConsume nat

record 'v lf_stack =
  ls_head :: u64
  ls_heap :: "'v ls_heap"
  ls_pc :: "ls_pc list"
  ls_log :: "'v ls_label list"

datatype 'v ls_event = LsCallPush nat addr 'v | LsCallPop nat | LsCallConsume nat | LsRun nat bool

definition sp_null :: stamped where "sp_null = \<lparr>sp_raw = 0, sp_stamp = 0\<rparr>"

definition lf_stack_init :: "nat \<Rightarrow> 'v lf_stack" where
  "lf_stack_init threads = \<lparr>ls_head = asp_init sp_null, ls_heap = Map.empty, ls_pc = replicate threads LsIdle, ls_log = []\<rparr>"

subsection \<open>The operations\<close>

definition ls_goto :: "nat \<Rightarrow> ls_pc \<Rightarrow> 'v lf_stack \<Rightarrow> 'v lf_stack" where
  "ls_goto t p s = s\<lparr>ls_pc := (ls_pc s)[t := p]\<rparr>"

definition ls_say :: "'v ls_label \<Rightarrow> 'v lf_stack \<Rightarrow> 'v lf_stack" where
  "ls_say l s = s\<lparr>ls_log := ls_log s @ [l]\<rparr>"

definition ls_increment_global :: "addr \<Rightarrow> i32 \<Rightarrow> 'v ls_heap \<Rightarrow> fault + 'v ls_heap" where
  "ls_increment_global n val h =
     (case h n of
        None \<Rightarrow> Inl UseAfterFree
      | Some nd \<Rightarrow>
          (let (old_val, g) = atomic_fetch_add (nd_global nd) val in
           Inr (if old_val + val = 0 then h(n := None) else h(n \<mapsto> nd\<lparr>nd_global := g\<rparr>))))"

definition ls_push :: "nat \<Rightarrow> addr \<Rightarrow> 'v \<Rightarrow> 'v lf_stack \<Rightarrow> 'v lf_stack outcome" where
  "ls_push t n v s =
     (if ls_pc s ! t \<noteq> LsIdle \<or> n = 0 \<or> \<not> canonical n \<or> ls_heap s n \<noteq> None then Disabled
      else Next (ls_goto t (LsPush n) (ls_say (CallPush t v)
        (s\<lparr>ls_heap := (ls_heap s)(n \<mapsto> \<lparr>nd_value = Some v, nd_next = sp_null, nd_global = 0\<rparr>)\<rparr>))))"

definition ls_push_cas :: "nat \<Rightarrow> bool \<Rightarrow> addr \<Rightarrow> 'v lf_stack \<Rightarrow> 'v lf_stack outcome" where
  "ls_push_cas t spurious n s =
     (case ls_heap s n of
        None \<Rightarrow> Fault UseAfterFree
      | Some nd \<Rightarrow>
          (let (ok, next, head) = asp_cas_weak spurious (nd_next nd) \<lparr>sp_raw = n, sp_stamp = 0\<rparr> (ls_head s);
               s1 = s\<lparr>ls_head := head, ls_heap := (ls_heap s)(n \<mapsto> nd\<lparr>nd_next := next\<rparr>)\<rparr> in
           Next (if ok then ls_goto t LsIdle (ls_say (RetPush t) s1) else ls_goto t (LsPush n) s1)))"

definition ls_acquire_ref :: "nat \<Rightarrow> bool \<Rightarrow> stamped \<Rightarrow> 'v lf_stack \<Rightarrow> 'v lf_stack outcome" where
  "ls_acquire_ref t spurious current s =
     (let (ok, seen, head) = asp_cas_weak spurious current (sp_increment current) (ls_head s); s1 = s\<lparr>ls_head := head\<rparr> in
      Next (if \<not> ok then ls_goto t (LsAcq seen) s1
        else let current = sp_increment current in
          if sp_bool current then ls_goto t (LsPopCas current) s1 else ls_goto t LsIdle (ls_say (RetPop t None) s1)))"

definition ls_pop_cas :: "nat \<Rightarrow> bool \<Rightarrow> stamped \<Rightarrow> 'v lf_stack \<Rightarrow> 'v lf_stack outcome" where
  "ls_pop_cas t spurious current s =
     (case ls_heap s (sp_raw current) of
        None \<Rightarrow> Fault UseAfterFree
      | Some nd \<Rightarrow>
          (let (ok, _, head) = asp_cas_weak spurious current (nd_next nd) (ls_head s) in
           Next (ls_goto t (if ok then LsMoved current else LsRelease current) (s\<lparr>ls_head := head\<rparr>))))"

text \<open>\<open>std::move(current->value)\<close>, which goes to the caller as \<open>told\<close> says, then \<open>IncrementGlobal(val)\<close>.\<close>

definition ls_take_value ::
    "addr \<Rightarrow> i32 \<Rightarrow> ls_pc \<Rightarrow> ('v \<Rightarrow> 'v ls_label) \<Rightarrow> nat \<Rightarrow> 'v lf_stack \<Rightarrow> 'v lf_stack outcome" where
  "ls_take_value n val p told t s =
     (case ls_heap s n of
        None \<Rightarrow> Fault UseAfterFree
      | Some nd \<Rightarrow>
          (case nd_value nd of
             None \<Rightarrow> Fault (Panic ''moved-from value'')
           | Some v \<Rightarrow>
               (case ls_increment_global n val ((ls_heap s)(n \<mapsto> nd\<lparr>nd_value := None\<rparr>)) of
                  Inl x \<Rightarrow> Fault x
                | Inr h \<Rightarrow> Next (ls_goto t p (ls_say (told v) (s\<lparr>ls_heap := h\<rparr>))))))"

definition ls_moved :: "nat \<Rightarrow> stamped \<Rightarrow> 'v lf_stack \<Rightarrow> 'v lf_stack outcome" where
  "ls_moved t current s =
     ls_take_value (sp_raw current) (ucast (sp_stamp current - 1)) LsIdle (\<lambda>v. RetPop t (Some v)) t s"

definition ls_release :: "nat \<Rightarrow> stamped \<Rightarrow> 'v lf_stack \<Rightarrow> 'v lf_stack outcome" where
  "ls_release t current s =
     (case ls_increment_global (sp_raw current) (- 1) (ls_heap s) of
        Inl x \<Rightarrow> Fault x
      | Inr h \<Rightarrow> Next (ls_goto t LsAcqLoad (s\<lparr>ls_heap := h\<rparr>)))"

definition ls_consume_cas :: "nat \<Rightarrow> bool \<Rightarrow> stamped \<Rightarrow> 'v lf_stack \<Rightarrow> 'v lf_stack outcome" where
  "ls_consume_cas t spurious current s =
     (let (ok, seen, head) = asp_cas_weak spurious current sp_null (ls_head s) in
      Next (ls_goto t (if ok then LsWalk current else LsConCas seen) (s\<lparr>ls_head := head\<rparr>)))"

definition ls_consume_node :: "nat \<Rightarrow> stamped \<Rightarrow> 'v lf_stack \<Rightarrow> 'v lf_stack outcome" where
  "ls_consume_node t current s =
     (if \<not> sp_bool current then Next (ls_goto t LsIdle (ls_say (RetConsume t) s))
      else case ls_heap s (sp_raw current) of
        None \<Rightarrow> Fault UseAfterFree
      | Some nd \<Rightarrow> ls_take_value (sp_raw current) (ucast (sp_stamp current)) (LsWalk (nd_next nd)) (Gave t) t s)"

definition ls_is_empty :: "'v lf_stack \<Rightarrow> bool" where
  "ls_is_empty s \<longleftrightarrow> sp_is_null (asp_load (ls_head s))"

fun ls_step :: "'v ls_event \<Rightarrow> 'v lf_stack \<Rightarrow> 'v lf_stack outcome" where
  "ls_step (LsCallPush t n v) s = (if t < length (ls_pc s) then ls_push t n v s else Disabled)"
| "ls_step (LsCallPop t) s = (if t < length (ls_pc s) \<and> ls_pc s ! t = LsIdle then Next (ls_goto t LsAcqLoad (ls_say (CallPop t) s)) else Disabled)"
| "ls_step (LsCallConsume t) s = (if t < length (ls_pc s) \<and> ls_pc s ! t = LsIdle then Next (ls_goto t LsConLoad (ls_say (CallConsume t) s)) else Disabled)"
| "ls_step (LsRun t spurious) s =
     (if \<not> t < length (ls_pc s) then Disabled
      else case ls_pc s ! t of
        LsIdle \<Rightarrow> Disabled
      | LsPush n \<Rightarrow> ls_push_cas t spurious n s
      | LsAcqLoad \<Rightarrow> Next (ls_goto t (LsAcq (asp_load (ls_head s))) s)
      | LsAcq current \<Rightarrow> ls_acquire_ref t spurious current s
      | LsPopCas current \<Rightarrow> ls_pop_cas t spurious current s
      | LsMoved current \<Rightarrow> ls_moved t current s
      | LsRelease current \<Rightarrow> ls_release t current s
      | LsConLoad \<Rightarrow> Next (ls_goto t (LsConCas (asp_load (ls_head s))) s)
      | LsConCas current \<Rightarrow> ls_consume_cas t spurious current s
      | LsWalk current \<Rightarrow> ls_consume_node t current s)"

text \<open>A node is acquired whose stamp is the largest that fits into 16 bits. (The stamp of the null pointer may wrap.)\<close>

definition ls_wraps :: "'v ls_event \<Rightarrow> 'v lf_stack \<Rightarrow> bool" where
  "ls_wraps e s \<longleftrightarrow> (case e of
      LsRun t spurious \<Rightarrow>
        (if t < length (ls_pc s) then case ls_pc s ! t of LsAcq c \<Rightarrow> sp_bool c \<and> sp_stamp c = pk_max_stamp | _ \<Rightarrow> False else False)
    | _ \<Rightarrow> False)"

lemmas ls_defs =
  sp_null_def lf_stack_init_def ls_goto_def ls_say_def ls_increment_global_def ls_push_def ls_push_cas_def ls_acquire_ref_def ls_pop_cas_def
  ls_take_value_def ls_moved_def ls_release_def ls_consume_cas_def ls_consume_node_def

subsection \<open>The invariant\<close>

text \<open>\<open>R n\<close>: how many threads hold a reference to \<open>n\<close> that they acquired and have not given up.\<close>

fun ls_refers :: "addr \<Rightarrow> ls_pc \<Rightarrow> bool" where
  "ls_refers n (LsPopCas c) \<longleftrightarrow> sp_raw c = n"
| "ls_refers n (LsRelease c) \<longleftrightarrow> sp_raw c = n"
| "ls_refers n _ \<longleftrightarrow> False"

definition ls_refs :: "ls_pc list \<Rightarrow> addr \<Rightarrow> nat" where
  "ls_refs pcs n = sum_list (map (\<lambda>p. if ls_refers n p then 1 else 0) pcs)"

lemma ls_refs_update:
  assumes "t < length pcs"
  shows "ls_refs (pcs[t := p]) n + (if ls_refers n (pcs ! t) then 1 else 0) = ls_refs pcs n + (if ls_refers n p then 1 else 0)"
  using assms
proof (induction pcs arbitrary: t)
  case (Cons q pcs)
  then show ?case by (cases t) (auto simp: ls_refs_def)
qed simp

text \<open>
  A node that some chain or thread owns, from which a stamp of \<open>k\<close> was recorded: of the \<open>k\<close> references acquired through
  it, those not given up are held by a thread, and \<open>global\<close> counts the others down. A loose node was taken out, and
  lives as long as it is referred to.
\<close>

definition node_ok :: "(addr \<Rightarrow> nat) \<Rightarrow> 'v ls_heap \<Rightarrow> addr \<Rightarrow> nat \<Rightarrow> bool" where
  "node_ok R h n k \<longleftrightarrow> n \<noteq> 0 \<and> R n \<le> k \<and>
     (\<exists>nd. h n = Some nd \<and> nd_value nd \<noteq> None \<and> nd_global nd = word_of_int (int (R n) - int k))"

definition loose_ok :: "(addr \<Rightarrow> nat) \<Rightarrow> 'v ls_heap \<Rightarrow> addr \<Rightarrow> bool" where
  "loose_ok R h n \<longleftrightarrow> (case h n of None \<Rightarrow> R n = 0 | Some nd \<Rightarrow> 0 < R n \<and> nd_value nd = None \<and> nd_global nd = word_of_int (int (R n)))"

fun linked :: "(addr \<Rightarrow> nat) \<Rightarrow> 'v ls_heap \<Rightarrow> stamped \<Rightarrow> addr list \<Rightarrow> bool" where
  "linked R h p [] \<longleftrightarrow> sp_raw p = 0"
| "linked R h p (x # xs) \<longleftrightarrow> sp_raw p = x \<and> node_ok R h x (unat (sp_stamp p)) \<and> linked R h (nd_next (the (h x))) xs"

fun owns :: "(addr \<Rightarrow> nat) \<Rightarrow> 'v ls_heap \<Rightarrow> ls_pc \<Rightarrow> addr list \<Rightarrow> bool" where
  "owns R h (LsPush n) zs \<longleftrightarrow> zs = [n] \<and> canonical n \<and> node_ok R h n 0"
| "owns R h (LsMoved c) zs \<longleftrightarrow> zs = [sp_raw c] \<and> 0 < unat (sp_stamp c) \<and> node_ok R h (sp_raw c) (unat (sp_stamp c) - 1)"
| "owns R h (LsWalk c) zs \<longleftrightarrow> linked R h c zs"
| "owns R h _ zs \<longleftrightarrow> zs = []"

fun ls_pc_small :: "ls_pc \<Rightarrow> bool" where
  "ls_pc_small (LsAcq c) \<longleftrightarrow> stamped_ok c"
| "ls_pc_small (LsPopCas c) \<longleftrightarrow> stamped_ok c \<and> 0 < unat (sp_stamp c) \<and> sp_raw c \<noteq> 0"
| "ls_pc_small (LsMoved c) \<longleftrightarrow> stamped_ok c"
| "ls_pc_small (LsRelease c) \<longleftrightarrow> stamped_ok c \<and> sp_raw c \<noteq> 0"
| "ls_pc_small (LsConCas c) \<longleftrightarrow> stamped_ok c"
| "ls_pc_small (LsWalk c) \<longleftrightarrow> stamped_ok c"
| "ls_pc_small _ \<longleftrightarrow> True"

text \<open>The stamps fit, and so do the references that \<open>global\<close> may have to count.\<close>

definition ls_small :: "'v lf_stack \<Rightarrow> bool" where
  "ls_small s \<longleftrightarrow> (\<forall>n nd. ls_heap s n = Some nd \<longrightarrow> stamped_ok (nd_next nd)) \<and>
     (\<forall>p\<in>set (ls_pc s). ls_pc_small p) \<and> (\<forall>n. ls_refs (ls_pc s) n < 2 ^ 16)"

lemma asp_load_ok [simp]: "stamped_ok (asp_load w)"
  by (simp add: asp_load_def)

lemma stamped_ok_unat: "stamped_ok p \<Longrightarrow> unat (sp_stamp p) < 2 ^ 16"
  by (simp add: stamped_ok_def word_less_nat_alt)

definition ls_owned :: "addr list \<Rightarrow> addr list list \<Rightarrow> addr multiset" where
  "ls_owned xs ys = mset xs + sum_list (map mset ys)"

definition ls_inv_with :: "addr list \<Rightarrow> addr list list \<Rightarrow> 'v lf_stack \<Rightarrow> bool" where
  "ls_inv_with xs ys s \<longleftrightarrow>
     length ys = length (ls_pc s) \<and> (\<forall>n. count (ls_owned xs ys) n \<le> 1) \<and>
     linked (ls_refs (ls_pc s)) (ls_heap s) (asp_load (ls_head s)) xs \<and>
     (\<forall>t<length ys. owns (ls_refs (ls_pc s)) (ls_heap s) (ls_pc s ! t) (ys ! t)) \<and>
     (\<forall>n. n \<notin># ls_owned xs ys \<longrightarrow> loose_ok (ls_refs (ls_pc s)) (ls_heap s) n) \<and> ls_small s"

lemma lsI:
  assumes "ls_inv_with xs ys s"
  shows "length ys = length (ls_pc s)" "count (ls_owned xs ys) n \<le> 1"
    "linked (ls_refs (ls_pc s)) (ls_heap s) (asp_load (ls_head s)) xs"
    "t < length ys \<Longrightarrow> owns (ls_refs (ls_pc s)) (ls_heap s) (ls_pc s ! t) (ys ! t)"
    "n \<notin># ls_owned xs ys \<Longrightarrow> loose_ok (ls_refs (ls_pc s)) (ls_heap s) n" "ls_small s"
  using assms unfolding ls_inv_with_def by blast+

lemma member_subset: "u < length ys \<Longrightarrow> mset (ys ! u) \<subseteq># sum_list (map mset ys)"
proof (induction ys arbitrary: u)
  case (Cons y ys)
  show ?case
  proof (cases u)
    case (Suc v)
    with Cons have "mset (ys ! v) \<subseteq># sum_list (map mset ys)" by simp
    then have "mset (ys ! v) \<subseteq># mset y + sum_list (map mset ys)" by (rule subset_mset.order_trans) simp
    with Suc show ?thesis by simp
  qed simp
qed simp

lemma owned_split:
  assumes "t < length ys"
  shows "\<exists>Z. sum_list (map mset ys) = mset (ys ! t) + Z \<and> (\<forall>zs. sum_list (map mset (ys[t := zs])) = mset zs + Z) \<and>
    (\<forall>u<length ys. u \<noteq> t \<longrightarrow> mset (ys ! u) \<subseteq># Z)"
proof (intro exI conjI allI impI)
  let ?Z = "sum_list (map mset (take t ys)) + sum_list (map mset (drop (Suc t) ys))"
  have "sum_list (map mset ys) = sum_list (map mset (take t ys @ ys ! t # drop (Suc t) ys))"
    using id_take_nth_drop [OF assms] by simp
  then show "sum_list (map mset ys) = mset (ys ! t) + ?Z" by (simp add: ac_simps)
  show "sum_list (map mset (ys[t := zs])) = mset zs + ?Z" for zs
    using assms by (simp add: upd_conv_take_nth_drop ac_simps)
  fix u assume u: "u < length ys" "u \<noteq> t"
  show "mset (ys ! u) \<subseteq># ?Z"
  proof (cases "u < t")
    case True
    then have "mset (take t ys ! u) \<subseteq># sum_list (map mset (take t ys))" using u(1) assms by (intro member_subset) simp
    with True show ?thesis by (simp add: subset_mset.add_increasing2)
  next
    case False
    then have i: "u = Suc t + (u - Suc t)" "u - Suc t < length (drop (Suc t) ys)" using u by auto
    then have "mset (drop (Suc t) ys ! (u - Suc t)) \<subseteq># sum_list (map mset (drop (Suc t) ys))" by (intro member_subset)
    moreover have "drop (Suc t) ys ! (u - Suc t) = ys ! u" using i(1) assms by (metis nth_drop Suc_leI)
    ultimately show ?thesis by (simp add: subset_mset.add_increasing)
  qed
qed

text \<open>How one step of a thread changes the nodes of the others.\<close>

definition node_kept :: "(addr \<Rightarrow> nat) \<Rightarrow> 'v ls_heap \<Rightarrow> (addr \<Rightarrow> nat) \<Rightarrow> 'v ls_heap \<Rightarrow> addr \<Rightarrow> bool" where
  "node_kept R h R' h' n \<longleftrightarrow> (\<forall>k. node_ok R h n k \<longrightarrow> node_ok R' h' n k \<and> nd_next (the (h' n)) = nd_next (the (h n)) \<and>
     nd_value (the (h' n)) = nd_value (the (h n)))"

lemma node_kept_same: "R' n = R n \<Longrightarrow> h' n = h n \<Longrightarrow> node_kept R h R' h' n"
  by (simp add: node_kept_def node_ok_def)

lemma loose_same: "loose_ok R h n \<Longrightarrow> R' n = R n \<Longrightarrow> h' n = h n \<Longrightarrow> loose_ok R' h' n"
  by (auto simp: loose_ok_def split: option.splits)

lemma linked_kept: "linked R h p xs \<Longrightarrow> (\<And>x. x \<in> set xs \<Longrightarrow> node_kept R h R' h' x) \<Longrightarrow> linked R' h' p xs"
proof (induction xs arbitrary: p)
  case (Cons x xs)
  then have "node_kept R h R' h' x" "node_ok R h x (unat (sp_stamp p))" by auto
  then have "node_ok R' h' x (unat (sp_stamp p))" "nd_next (the (h' x)) = nd_next (the (h x))" by (auto simp: node_kept_def)
  with Cons show ?case by auto
qed simp

lemma owns_kept: "owns R h p zs \<Longrightarrow> (\<And>x. x \<in> set zs \<Longrightarrow> node_kept R h R' h' x) \<Longrightarrow> owns R' h' p zs"
  by (cases p) (auto simp: node_kept_def intro: linked_kept)

text \<open>A node that is owned is in the heap; one that is not is loose.\<close>

lemma linked_in_heap: "linked R h p xs \<Longrightarrow> x \<in> set xs \<Longrightarrow> \<exists>k. node_ok R h x k"
  by (induction xs arbitrary: p) auto

lemma owns_in_heap: "owns R h p zs \<Longrightarrow> x \<in> set zs \<Longrightarrow> \<exists>k. node_ok R h x k"
  by (cases p) (auto dest: linked_in_heap)

text \<open>
  The plain stack: its values, what each thread is doing, and the history of calls and returns. A call to \<open>Push\<close> or
  \<open>TryPop\<close> takes effect in one step between its call and its return, and so does \<open>ConsumeAll\<close>, which then hands
  the values out one by one; \<open>RetPop t None\<close> is the answer that the stack was empty.
\<close>

datatype 'v as_hand = Rests | Puts 'v | Pops | Popped 'v | Consumes | Gives "'v list"

record 'v abstract_stack =
  as_items :: "'v list"
  as_hands :: "'v as_hand list"
  as_log :: "'v ls_label list"

datatype 'v as_event =
    AsCallPush nat 'v | AsPush nat
  | AsCallPop nat | AsPop nat | AsPopEmpty nat | AsRetPop nat
  | AsCallConsume nat | AsTakeAll nat | AsGive nat | AsRetConsume nat

definition as_init :: "nat \<Rightarrow> 'v abstract_stack" where
  "as_init threads = \<lparr>as_items = [], as_hands = replicate threads Rests, as_log = []\<rparr>"

fun as_thread :: "'v as_event \<Rightarrow> nat" where
  "as_thread (AsCallPush t v) = t"
| "as_thread (AsPush t) = t"
| "as_thread (AsCallPop t) = t"
| "as_thread (AsPop t) = t"
| "as_thread (AsPopEmpty t) = t"
| "as_thread (AsRetPop t) = t"
| "as_thread (AsCallConsume t) = t"
| "as_thread (AsTakeAll t) = t"
| "as_thread (AsGive t) = t"
| "as_thread (AsRetConsume t) = t"

definition as_say :: "'v ls_label \<Rightarrow> 'v abstract_stack \<Rightarrow> 'v abstract_stack" where
  "as_say l a = a\<lparr>as_log := as_log a @ [l]\<rparr>"

text \<open>One atomic step of the thread whose hand is the second argument.\<close>

fun as_act :: "'v as_event \<Rightarrow> 'v as_hand \<Rightarrow> 'v abstract_stack \<Rightarrow> ('v as_hand \<times> 'v abstract_stack) option" where
  "as_act (AsCallPush t v) Rests a = Some (Puts v, as_say (CallPush t v) a)"
| "as_act (AsPush t) (Puts v) a = Some (Rests, as_say (RetPush t) (a\<lparr>as_items := v # as_items a\<rparr>))"
| "as_act (AsCallPop t) Rests a = Some (Pops, as_say (CallPop t) a)"
| "as_act (AsPop t) Pops a = (case as_items a of [] \<Rightarrow> None | v # vs \<Rightarrow> Some (Popped v, a\<lparr>as_items := vs\<rparr>))"
| "as_act (AsPopEmpty t) Pops a = (if as_items a = [] then Some (Rests, as_say (RetPop t None) a) else None)"
| "as_act (AsRetPop t) (Popped v) a = Some (Rests, as_say (RetPop t (Some v)) a)"
| "as_act (AsCallConsume t) Rests a = Some (Consumes, as_say (CallConsume t) a)"
| "as_act (AsTakeAll t) Consumes a = Some (Gives (as_items a), a\<lparr>as_items := []\<rparr>)"
| "as_act (AsGive t) (Gives (v # r)) a = Some (Gives r, as_say (Gave t v) a)"
| "as_act (AsRetConsume t) (Gives []) a = Some (Rests, as_say (RetConsume t) a)"
| "as_act _ _ a = None"

definition as_step :: "'v as_event \<Rightarrow> 'v abstract_stack \<Rightarrow> 'v abstract_stack outcome" where
  "as_step e a =
     (if \<not> as_thread e < length (as_hands a) then Disabled
      else case as_act e (as_hands a ! as_thread e) a of
        None \<Rightarrow> Disabled
      | Some (hand, a') \<Rightarrow> Next (a'\<lparr>as_hands := (as_hands a)[as_thread e := hand]\<rparr>))"

definition ls_val :: "'v ls_heap \<Rightarrow> addr \<Rightarrow> 'v" where
  "ls_val h n = the (nd_value (the (h n)))"

text \<open>What a thread is doing, seen from outside. A \<open>TryPop\<close> that has not taken a node yet may still find the stack empty.\<close>

definition ls_hand :: "'v ls_heap \<Rightarrow> ls_pc \<Rightarrow> addr list \<Rightarrow> 'v as_hand" where
  "ls_hand h p zs = (case p of
      LsIdle \<Rightarrow> Rests
    | LsPush n \<Rightarrow> Puts (ls_val h n)
    | LsAcqLoad \<Rightarrow> Pops
    | LsAcq _ \<Rightarrow> Pops
    | LsPopCas _ \<Rightarrow> Pops
    | LsMoved c \<Rightarrow> Popped (ls_val h (sp_raw c))
    | LsRelease _ \<Rightarrow> Pops
    | LsConLoad \<Rightarrow> Consumes
    | LsConCas _ \<Rightarrow> Consumes
    | LsWalk _ \<Rightarrow> Gives (map (ls_val h) zs))"

definition ls_hands :: "'v lf_stack \<Rightarrow> addr list list \<Rightarrow> 'v as_hand list" where
  "ls_hands s ys = map2 (ls_hand (ls_heap s)) (ls_pc s) ys"

definition ls_abs :: "addr list \<Rightarrow> addr list list \<Rightarrow> 'v lf_stack \<Rightarrow> 'v abstract_stack" where
  "ls_abs xs ys s = \<lparr>as_items = map (ls_val (ls_heap s)) xs, as_hands = ls_hands s ys, as_log = ls_log s\<rparr>"

text \<open>The step of thread \<open>t\<close>: what it owns becomes \<open>zs\<close>, the chain of the head becomes \<open>xs'\<close>.\<close>

lemma ls_moveI:
  assumes I: "ls_inv_with xs ys s" and t: "t < length (ls_pc s)" and pc: "ls_pc s' = (ls_pc s)[t := p]"
    and own: "\<And>n. count (ls_owned xs' (ys[t := zs])) n \<le> 1"
    and new: "linked (ls_refs (ls_pc s')) (ls_heap s') (asp_load (ls_head s')) xs'" "owns (ls_refs (ls_pc s')) (ls_heap s') p zs"
    and loose: "\<And>n. n \<notin># ls_owned xs' (ys[t := zs]) \<Longrightarrow> loose_ok (ls_refs (ls_pc s')) (ls_heap s') n"
    and others: "\<And>n. n \<notin> set (ys ! t) \<Longrightarrow> n \<notin> set xs \<Longrightarrow> node_kept (ls_refs (ls_pc s)) (ls_heap s) (ls_refs (ls_pc s')) (ls_heap s') n"
    and small: "ls_small s'"
  shows "ls_inv_with xs' (ys[t := zs]) s' \<and> ls_hands s' (ys[t := zs]) = (ls_hands s ys)[t := ls_hand (ls_heap s') p zs]"
proof -
  note len = lsI(1) [OF I]
  obtain Z where Z: "sum_list (map mset ys) = mset (ys ! t) + Z" "\<forall>u<length ys. u \<noteq> t \<longrightarrow> mset (ys ! u) \<subseteq># Z"
    using owned_split [of t ys] t len by auto
  have apart: "n \<notin> set (ys ! t) \<and> n \<notin> set xs" if n: "n \<in> set (ys ! u)" and u: "u < length ys" "u \<noteq> t" for u n
    proof -
      have "n \<in># Z" using Z(2) u n by (metis mset_subset_eqD set_mset_mset)
      then have "0 < count Z n" by (simp only: count_greater_zero_iff)
      moreover have "count (mset xs) n + (count (mset (ys ! t)) n + count Z n) \<le> 1"
        using lsI(2) [OF I, of n] Z(1) by (simp add: ls_owned_def)
      ultimately have "count (mset xs) n = 0" "count (mset (ys ! t)) n = 0" by linarith+
      then show ?thesis by (metis count_eq_zero_iff set_mset_mset)
    qed
  have "owns (ls_refs (ls_pc s')) (ls_heap s') (ls_pc s' ! u) (ys[t := zs] ! u)" if u: "u < length (ys[t := zs])" for u
  proof (cases "u = t")
    case True
    with u new(2) pc t len show ?thesis by simp
  next
    case False
    have "owns (ls_refs (ls_pc s)) (ls_heap s) (ls_pc s ! u) (ys ! u)" using lsI(4) [OF I] u by simp
    then have "owns (ls_refs (ls_pc s')) (ls_heap s') (ls_pc s ! u) (ys ! u)"
      by (rule owns_kept) (use others apart [of _ u] False u in simp)
    with False pc show ?thesis by simp
  qed
  moreover have "ls_hands s' (ys[t := zs]) = (ls_hands s ys)[t := ls_hand (ls_heap s') p zs]"
  proof (rule nth_equalityI)
    fix u assume u: "u < length (ls_hands s' (ys[t := zs]))"
    show "ls_hands s' (ys[t := zs]) ! u = (ls_hands s ys)[t := ls_hand (ls_heap s') p zs] ! u"
    proof (cases "u = t")
      case False
      have o: "owns (ls_refs (ls_pc s)) (ls_heap s) (ls_pc s ! u) (ys ! u)" using lsI(4) [OF I] u len pc by (simp add: ls_hands_def)
      have "ls_val (ls_heap s') n = ls_val (ls_heap s) n" if n: "n \<in> set (ys ! u)" for n
      proof -
        from o obtain k where "node_ok (ls_refs (ls_pc s)) (ls_heap s) n k" using owns_in_heap n by blast
        with others [of n] apart [OF n _ False] u len pc show ?thesis by (auto simp: node_kept_def ls_val_def ls_hands_def)
      qed
      with o have "ls_hand (ls_heap s') (ls_pc s ! u) (ys ! u) = ls_hand (ls_heap s) (ls_pc s ! u) (ys ! u)"
        by (cases "ls_pc s ! u") (simp_all add: ls_hand_def)
      with False u len pc show ?thesis by (simp add: ls_hands_def)
    qed (use u t len pc in \<open>simp add: ls_hands_def\<close>)
  qed (use len pc in \<open>simp add: ls_hands_def\<close>)
  ultimately show ?thesis using own new loose small len pc unfolding ls_inv_with_def by simp
qed

subsection \<open>Counting\<close>

lemma i32_int_zero_iff: "- (2 ^ 31) < k \<Longrightarrow> k < 2 ^ 31 \<Longrightarrow> (word_of_int k :: i32) = 0 \<longleftrightarrow> k = 0"
  by (auto simp: word_of_int_eq_0_iff)

lemma stamp_to_i32: "(ucast (w :: u64) :: i32) = word_of_int (int (unat w))"
  using of_nat_unat [of w, where ?'a = "i32"] by simp

lemma increment_global_eq:
  "h n = Some nd \<Longrightarrow> nd_global nd + val = g \<Longrightarrow>
    ls_increment_global n val h = Inr (if g = 0 then h(n := None) else h(n \<mapsto> nd\<lparr>nd_global := g\<rparr>))"
  by (simp add: ls_increment_global_def atomic_simps)

lemma give_up_owned:
  assumes n: "node_ok R h n k" and k: "k < 2 ^ 31" and R: "R n = Suc (R' n)"
  shows "\<exists>nd g. h n = Some nd \<and> ls_increment_global n (- 1) h = Inr (h(n \<mapsto> nd\<lparr>nd_global := g\<rparr>)) \<and>
    node_kept R h R' (h(n \<mapsto> nd\<lparr>nd_global := g\<rparr>)) n"
proof -
  obtain nd where nd: "h n = Some nd" "nd_value nd \<noteq> None" "nd_global nd = word_of_int (int (R n) - int k)" "R n \<le> k" "n \<noteq> 0"
    using n by (auto simp: node_ok_def)
  define g where "g = nd_global nd + - 1"
  have g: "g = word_of_int (int (R' n) - int k)" using nd(3) R by (simp add: g_def algebra_simps)
  have "g \<noteq> 0" unfolding g using nd(4) R k by (subst i32_int_zero_iff) auto
  then have "ls_increment_global n (- 1) h = Inr (h(n \<mapsto> nd\<lparr>nd_global := g\<rparr>))"
    using increment_global_eq [of h n nd "- 1" g] nd(1) g_def by simp
  moreover have "node_ok R' (h(n \<mapsto> nd\<lparr>nd_global := g\<rparr>)) n j" if "node_ok R h n j" for j
  proof -
    have "nd_global nd = word_of_int (int (R n) - int j)" using that nd(1) by (auto simp: node_ok_def)
    then have "g = word_of_int (int (R' n) - int j)" using R by (simp add: g_def algebra_simps)
    with that nd R show ?thesis by (auto simp: node_ok_def)
  qed
  ultimately show ?thesis using nd(1) by (auto simp: node_kept_def)
qed

lemma give_up_loose:
  assumes n: "loose_ok R h n" and R: "R n = Suc (R' n)" and b: "R n < 2 ^ 31"
  shows "\<exists>h'. ls_increment_global n (- 1) h = Inr h' \<and> loose_ok R' h' n \<and> (\<forall>x. x \<noteq> n \<longrightarrow> h' x = h x) \<and>
    (\<forall>nd'. h' n = Some nd' \<longrightarrow> (\<exists>nd. h n = Some nd \<and> nd_next nd' = nd_next nd))"
proof -
  obtain nd where nd: "h n = Some nd" "nd_global nd = word_of_int (int (R n))" "nd_value nd = None" using n R by (auto simp: loose_ok_def split: option.splits)
  define g where "g = nd_global nd + - 1"
  have g: "g = word_of_int (int (R' n))" using nd(2) R by (simp add: g_def)
  have z: "g = 0 \<longleftrightarrow> R' n = 0" unfolding g using R b by (subst i32_int_zero_iff) auto
  from increment_global_eq [of h n nd "- 1" g] g_def nd(1,3) z g show ?thesis
    by (intro exI [of _ "if g = 0 then h(n := None) else h(n \<mapsto> nd\<lparr>nd_global := g\<rparr>)"]) (auto simp: loose_ok_def)
qed

text \<open>The one that takes a node out adds what the stamp recorded, and the node is loose from then on.\<close>

lemma take_out:
  assumes n: "node_ok R h n k" and b: "R n < 2 ^ 31" and val: "val = word_of_int (int k)"
  shows "\<exists>nd v h'. h n = Some nd \<and> nd_value nd = Some v \<and> ls_increment_global n val (h(n \<mapsto> nd\<lparr>nd_value := None\<rparr>)) = Inr h' \<and>
    loose_ok R h' n \<and> (\<forall>x. x \<noteq> n \<longrightarrow> h' x = h x) \<and> (\<forall>nd'. h' n = Some nd' \<longrightarrow> nd_next nd' = nd_next nd)"
proof -
  obtain nd v where nd: "h n = Some nd" "nd_value nd = Some v" "nd_global nd = word_of_int (int (R n) - int k)"
    using n by (auto simp: node_ok_def)
  have g: "nd_global nd + val = word_of_int (int (R n))" using nd(3) val by simp
  have z: "(word_of_int (int (R n)) :: i32) = 0 \<longleftrightarrow> R n = 0" using b by (subst i32_int_zero_iff) auto
  let ?g = "word_of_int (int (R n)) :: i32" and ?nd = "nd\<lparr>nd_value := None\<rparr>"
  let ?h = "if ?g = 0 then h(n := None) else h(n \<mapsto> ?nd\<lparr>nd_global := ?g\<rparr>)"
  have "ls_increment_global n val (h(n \<mapsto> ?nd)) = Inr ?h"
    using increment_global_eq [of "h(n \<mapsto> ?nd)" n ?nd val ?g] g by simp
  moreover have "loose_ok R ?h n" using z by (auto simp: loose_ok_def)
  ultimately show ?thesis using nd(1,2) by (intro exI [of _ nd] exI [of _ v] exI [of _ ?h]) auto
qed

subsection \<open>Every step keeps the invariant\<close>

lemma ls_smallI_refs:
  assumes S: "ls_small s" and pc: "ls_pc s' = (ls_pc s)[t := p]"
    and "\<And>n. ls_refs (ls_pc s') n < 2 ^ 16" and "\<And>n nd. ls_heap s' n = Some nd \<Longrightarrow> stamped_ok (nd_next nd)" and "ls_pc_small p"
  shows "ls_small s'"
proof -
  have "ls_pc_small q" if "q \<in> set (ls_pc s')" for q
    using that set_update_subset_insert [of "ls_pc s" t p] pc S assms(5) by (auto simp: ls_small_def)
  then show ?thesis using assms(3,4) by (simp add: ls_small_def)
qed

lemma ls_smallI:
  assumes S: "ls_small s" and t: "t < length (ls_pc s)" and pc: "ls_pc s' = (ls_pc s)[t := p]"
    and refers: "\<And>n. ls_refers n p \<Longrightarrow> ls_refers n (ls_pc s ! t)"
    and "\<And>n nd. ls_heap s' n = Some nd \<Longrightarrow> stamped_ok (nd_next nd)" and "ls_pc_small p"
  shows "ls_small s'"
proof (rule ls_smallI_refs [OF S pc])
  fix n
  have "ls_refs (ls_pc s') n \<le> ls_refs (ls_pc s) n" using ls_refs_update [OF t, of p n] pc refers [of n] by (simp split: if_splits)
  also have "ls_refs (ls_pc s) n < 2 ^ 16" using S by (simp add: ls_small_def)
  finally show "ls_refs (ls_pc s') n < 2 ^ 16" .
qed (use assms(5,6) in auto)

lemma ls_small_heap: "ls_small s \<Longrightarrow> ls_heap s n = Some nd \<Longrightarrow> stamped_ok (nd_next nd)"
  by (auto simp: ls_small_def)

lemma ls_small_pc: "ls_small s \<Longrightarrow> t < length (ls_pc s) \<Longrightarrow> ls_pc_small (ls_pc s ! t)"
  by (simp add: ls_small_def)

text \<open>A step that changes nothing but the position of its thread, and may add to the history.\<close>

definition ls_unowning :: "ls_pc \<Rightarrow> bool" where
  "ls_unowning p \<longleftrightarrow> (case p of LsPush _ \<Rightarrow> False | LsMoved _ \<Rightarrow> False | LsWalk _ \<Rightarrow> False | _ \<Rightarrow> True)"

lemma ls_unowning_owns: "ls_unowning p \<Longrightarrow> owns R h p zs \<longleftrightarrow> zs = []"
  by (cases p) (simp_all add: ls_unowning_def)

lemma ls_quiet:
  assumes I: "ls_inv_with xs ys s" and t: "t < length (ls_pc s)"
    and p: "ls_unowning (ls_pc s ! t)" "ls_unowning p" "\<And>n. ls_refers n p \<longleftrightarrow> ls_refers n (ls_pc s ! t)" "ls_pc_small p"
  shows "ls_inv_with xs ys (ls_goto t p (s\<lparr>ls_log := l\<rparr>)) \<and>
    ls_abs xs ys (ls_goto t p (s\<lparr>ls_log := l\<rparr>)) =
      (ls_abs xs ys s)\<lparr>as_hands := (as_hands (ls_abs xs ys s))[t := ls_hand (ls_heap s) p []], as_log := l\<rparr>"
proof -
  let ?s = "ls_goto t p (s\<lparr>ls_log := l\<rparr>)"
  have R: "ls_refs ((ls_pc s)[t := p]) = ls_refs (ls_pc s)"
  proof
    fix n show "ls_refs ((ls_pc s)[t := p]) n = ls_refs (ls_pc s) n" using ls_refs_update [OF t, of p n] p(3) [of n] by (simp split: if_splits)
  qed
  have y: "ys ! t = []" using lsI(4) [OF I, of t] lsI(1) [OF I] t p(1) ls_unowning_owns by metis
  have ys: "ys[t := []] = ys" using y by (metis list_update_id)
  have "ls_inv_with xs (ys[t := []]) ?s \<and> ls_hands ?s (ys[t := []]) = (ls_hands s ys)[t := ls_hand (ls_heap ?s) p []]"
  proof (rule ls_moveI [OF I t])
    show "ls_small ?s"
      by (rule ls_smallI [OF lsI(6) [OF I] t]) (use p ls_small_heap [OF lsI(6) [OF I]] in \<open>simp_all add: ls_goto_def\<close>)
  qed (use lsI [OF I] R ls_unowning_owns [OF p(2), of "ls_refs (ls_pc s)" "ls_heap s" "[]"] in \<open>simp_all add: ls_goto_def ys node_kept_same\<close>)
  then show ?thesis by (simp add: ys ls_abs_def) (simp add: ls_goto_def)
qed

lemma owned_same:
  assumes t: "t < length ys" and eq: "mset xs' + mset zs = mset xs + mset (ys ! t)"
  shows "ls_owned xs' (ys[t := zs]) = ls_owned xs ys"
proof -
  obtain Z where Z: "sum_list (map mset ys) = mset (ys ! t) + Z" "sum_list (map mset (ys[t := zs])) = mset zs + Z"
    using owned_split [OF t] by auto
  have "ls_owned xs' (ys[t := zs]) = (mset xs' + mset zs) + Z" by (simp add: ls_owned_def Z(2) add.assoc)
  also have "\<dots> = ls_owned xs ys" unfolding eq by (simp add: ls_owned_def Z(1) add.assoc)
  finally show ?thesis .
qed

lemma owned_node:
  assumes I: "ls_inv_with xs ys s" and n: "n \<in># ls_owned xs ys"
  shows "\<exists>k. node_ok (ls_refs (ls_pc s)) (ls_heap s) n k"
proof (cases "n \<in> set xs")
  case True
  with lsI(3) [OF I] linked_in_heap show ?thesis by blast
next
  case False
  with n have "n \<in># sum_list (map mset ys)" by (simp add: ls_owned_def)
  then obtain zs where "zs \<in> set ys" "n \<in> set zs" by (induction ys) auto
  then obtain t where "t < length ys" "n \<in> set (ys ! t)" by (metis in_set_conv_nth)
  with lsI(4) [OF I] owns_in_heap show ?thesis by blast
qed

lemma ls_referred:
  assumes I: "ls_inv_with xs ys s" and r: "0 < ls_refs (ls_pc s) n"
  shows "\<exists>nd. ls_heap s n = Some nd"
proof (cases "n \<in># ls_owned xs ys")
  case True
  with owned_node [OF I] show ?thesis by (auto simp: node_ok_def)
next
  case False
  with lsI(5) [OF I] r show ?thesis by (fastforce simp: loose_ok_def split: option.splits)
qed

lemma ls_refs_pos: "t < length pcs \<Longrightarrow> ls_refers n (pcs ! t) \<Longrightarrow> 0 < ls_refs pcs n"
  using ls_refs_update [of t pcs LsIdle n] by simp

lemma asp_cas_eq:
  assumes "stamped_ok e"
  shows "asp_cas_weak spurious e d c =
    (if asp_load c = e \<and> \<not> spurious then (True, e, pk_pack d) else (False, asp_load c, c))"
  using assms by (auto simp: asp_cas_weak_def atomic_cas_weak_def asp_load_def unpack_pack)

lemma asp_load_pack: "stamped_ok p \<Longrightarrow> asp_load (pk_pack p) = p"
  by (simp add: asp_load_def unpack_pack)

text \<open>
  \<open>ls_sim\<close>: the state stands for the abstract one. \<open>ls_follows a s'\<close>: the state after a step stands for the same plain stack
  or for one that is one step ahead.
\<close>

definition ls_sim :: "'v lf_stack \<Rightarrow> 'v abstract_stack \<Rightarrow> bool" where
  "ls_sim s a \<longleftrightarrow> (\<exists>xs ys. ls_inv_with xs ys s \<and> a = ls_abs xs ys s)"

definition ls_follows :: "'v abstract_stack \<Rightarrow> 'v lf_stack \<Rightarrow> bool" where
  "ls_follows a s' \<longleftrightarrow> ls_sim s' a \<or> (\<exists>e a'. as_step e a = Next a' \<and> ls_sim s' a')"

lemma ls_simI: "ls_inv_with xs ys s \<Longrightarrow> ls_abs xs ys s = a \<Longrightarrow> ls_sim s a"
  by (auto simp: ls_sim_def)

lemma ls_follows_same: "ls_inv_with xs ys s' \<Longrightarrow> ls_abs xs ys s' = a \<Longrightarrow> ls_follows a s'"
  by (auto simp: ls_follows_def ls_sim_def)

lemma ls_follows_act:
  assumes "as_thread e < length (as_hands a)" "as_act e (as_hands a ! as_thread e) a = Some (hand, a')"
    and "ls_inv_with xs ys s'" "ls_abs xs ys s' = a'\<lparr>as_hands := (as_hands a)[as_thread e := hand]\<rparr>"
  shows "ls_follows a s'"
  unfolding ls_follows_def by (intro disjI2 exI [of _ e]) (use assms ls_simI in \<open>auto simp: as_step_def\<close>)

lemma hands_nth:
  assumes "ls_inv_with xs ys s" "t < length (ls_pc s)"
  shows "as_hands (ls_abs xs ys s) ! t = ls_hand (ls_heap s) (ls_pc s ! t) (ys ! t)"
  using assms lsI(1) [OF assms(1)] by (simp add: ls_abs_def ls_hands_def)

lemma hands_length: "ls_inv_with xs ys s \<Longrightarrow> length (as_hands (ls_abs xs ys s)) = length (ls_pc s)"
  using lsI(1) [of xs ys s] by (simp add: ls_abs_def ls_hands_def)

lemma hands_same:
  assumes "ls_inv_with xs ys s" "t < length (ls_pc s)" "ls_hand (ls_heap s) (ls_pc s ! t) (ys ! t) = x"
  shows "(ls_hands s ys)[t := x] = ls_hands s ys"
proof -
  have "ls_hands s ys ! t = x" using hands_nth [OF assms(1,2)] assms(3) by (simp add: ls_abs_def)
  then show ?thesis by (metis list_update_id)
qed

text \<open>A quiet step is no step of the plain stack when what its thread does looks the same, and a call when it was at rest.\<close>

lemma ls_quiet_same:
  assumes I: "ls_inv_with xs ys s" and t: "t < length (ls_pc s)"
    and p: "ls_unowning (ls_pc s ! t)" "ls_unowning p" "\<And>n. ls_refers n p \<longleftrightarrow> ls_refers n (ls_pc s ! t)" "ls_pc_small p"
    and same: "ls_hand (ls_heap s) p [] = ls_hand (ls_heap s) (ls_pc s ! t) (ys ! t)"
  shows "ls_follows (ls_abs xs ys s) (ls_goto t p s)"
proof -
  have "as_hands (ls_abs xs ys s) ! t = ls_hand (ls_heap s) p []" using hands_nth [OF I t] same by simp
  then have "(as_hands (ls_abs xs ys s))[t := ls_hand (ls_heap s) p []] = as_hands (ls_abs xs ys s)" by (metis list_update_id)
  moreover have "as_log (ls_abs xs ys s) = ls_log s" by (simp add: ls_abs_def)
  ultimately have "(ls_abs xs ys s)\<lparr>as_hands := (as_hands (ls_abs xs ys s))[t := ls_hand (ls_heap s) p []], as_log := ls_log s\<rparr> = ls_abs xs ys s"
    by simp
  with ls_quiet [OF I t p, of "ls_log s"] show ?thesis by (auto intro: ls_follows_same)
qed

lemma ls_quiet_call:
  assumes I: "ls_inv_with xs ys s" and t: "t < length (ls_pc s)" "as_thread e = t"
    and p: "ls_unowning (ls_pc s ! t)" "ls_unowning p" "\<And>n. ls_refers n p \<longleftrightarrow> ls_refers n (ls_pc s ! t)" "ls_pc_small p"
    and act: "as_act e (ls_hand (ls_heap s) (ls_pc s ! t) (ys ! t)) (ls_abs xs ys s) = Some (ls_hand (ls_heap s) p [], as_say l (ls_abs xs ys s))"
  shows "ls_follows (ls_abs xs ys s) (ls_goto t p (ls_say l s))"
proof -
  from ls_quiet [OF I t(1) p, of "ls_log s @ [l]"] have J: "ls_inv_with xs ys (ls_goto t p (ls_say l s))"
    "ls_abs xs ys (ls_goto t p (ls_say l s)) = (as_say l (ls_abs xs ys s))\<lparr>as_hands := (as_hands (ls_abs xs ys s))[t := ls_hand (ls_heap s) p []]\<rparr>"
    by (simp_all add: ls_say_def as_say_def) (simp_all add: ls_abs_def)
  show ?thesis
    by (rule ls_follows_act [where e = e, OF _ _ J(1)]) (use J(2) act t hands_nth [OF I t(1)] hands_length [OF I] in simp_all)
qed

lemma ls_step_push:
  assumes I: "ls_inv_with xs ys s" and t: "t < length (ls_pc s)" and idle: "ls_pc s ! t = LsIdle"
    and n: "n \<noteq> 0" "canonical n" "ls_heap s n = None"
  shows "ls_follows (ls_abs xs ys s) (ls_goto t (LsPush n) (ls_say (CallPush t v)
    (s\<lparr>ls_heap := (ls_heap s)(n \<mapsto> \<lparr>nd_value = Some v, nd_next = sp_null, nd_global = 0\<rparr>)\<rparr>)))"
proof -
  let ?nd = "\<lparr>nd_value = Some v, nd_next = sp_null, nd_global = 0\<rparr>"
  let ?s = "ls_goto t (LsPush n) (ls_say (CallPush t v) (s\<lparr>ls_heap := (ls_heap s)(n \<mapsto> ?nd)\<rparr>))"
  have ty: "t < length ys" using lsI(1) [OF I] t by simp
  have pc: "ls_pc ?s = (ls_pc s)[t := LsPush n]" by (simp add: ls_goto_def ls_say_def)
  have R: "ls_refs (ls_pc ?s) = ls_refs (ls_pc s)" using ls_refs_update [OF t, of "LsPush n"] idle pc by (auto simp: fun_eq_iff)
  have y: "ys ! t = []" using lsI(4) [OF I ty] idle by simp
  have fresh: "n \<notin># ls_owned xs ys" using owned_node [OF I, of n] n(3) by (auto simp: node_ok_def)
  have R0: "ls_refs (ls_pc s) n = 0" using lsI(5) [OF I fresh] n(3) by (simp add: loose_ok_def)
  have own: "ls_owned xs (ys[t := [n]]) = add_mset n (ls_owned xs ys)"
    using owned_split [OF ty] y by (auto simp: ls_owned_def)
  have kept: "node_kept (ls_refs (ls_pc s)) (ls_heap s) (ls_refs (ls_pc ?s)) (ls_heap ?s) x" if "x \<noteq> n" for x
    by (rule node_kept_same) (use R that in \<open>simp_all add: ls_goto_def ls_say_def\<close>)
  have xs: "x \<noteq> n" if "x \<in> set xs" for x using fresh that by (auto simp: ls_owned_def)
  have "ls_inv_with xs (ys[t := [n]]) ?s \<and> ls_hands ?s (ys[t := [n]]) = (ls_hands s ys)[t := ls_hand (ls_heap ?s) (LsPush n) [n]]"
  proof (rule ls_moveI [OF I t pc])
    fix x show "count (ls_owned xs (ys[t := [n]])) x \<le> 1"
      using lsI(2) [OF I, of x] fresh unfolding own by (cases "x = n") (simp_all add: not_in_iff)
  next
    show "linked (ls_refs (ls_pc ?s)) (ls_heap ?s) (asp_load (ls_head ?s)) xs"
      using linked_kept [OF lsI(3) [OF I] kept [OF xs]] by (simp add: ls_goto_def ls_say_def)
    show "owns (ls_refs (ls_pc ?s)) (ls_heap ?s) (LsPush n) [n]" using n(1,2) R R0 by (simp add: node_ok_def ls_goto_def ls_say_def)
  next
    fix x assume "x \<notin># ls_owned xs (ys[t := [n]])"
    then have "x \<noteq> n" "x \<notin># ls_owned xs ys" unfolding own by simp_all
    with lsI(5) [OF I, of x] R show "loose_ok (ls_refs (ls_pc ?s)) (ls_heap ?s) x" by (simp add: loose_ok_def ls_goto_def ls_say_def)
  next
    fix x show "node_kept (ls_refs (ls_pc s)) (ls_heap s) (ls_refs (ls_pc ?s)) (ls_heap ?s) x"
    proof (cases "x = n")
      case True
      then show ?thesis using n(3) by (simp add: node_kept_def node_ok_def)
    qed (rule kept)
  next
    show "ls_small ?s"
      by (rule ls_smallI [OF lsI(6) [OF I] t pc])
        (use ls_small_heap [OF lsI(6) [OF I]] in \<open>auto simp: ls_goto_def ls_say_def stamped_ok_def sp_null_def split: if_splits\<close>)
  qed
  then have J: "ls_inv_with xs (ys[t := [n]]) ?s" and hands: "ls_hands ?s (ys[t := [n]]) = (ls_hands s ys)[t := Puts v]"
    by (simp_all add: ls_hand_def) (simp_all add: ls_val_def ls_goto_def ls_say_def)
  have "map (ls_val (ls_heap ?s)) xs = map (ls_val (ls_heap s)) xs" using xs by (auto simp: ls_goto_def ls_say_def ls_val_def)
  with hands have "ls_abs xs (ys[t := [n]]) ?s = (as_say (CallPush t v) (ls_abs xs ys s))\<lparr>as_hands := (as_hands (ls_abs xs ys s))[t := Puts v]\<rparr>"
    by (simp add: ls_abs_def as_say_def) (simp add: ls_goto_def ls_say_def)
  moreover have "as_hands (ls_abs xs ys s) ! t = Rests" using hands_nth [OF I t] by (simp add: idle ls_hand_def)
  ultimately show ?thesis
    by (intro ls_follows_act [where e = "AsCallPush t v", OF _ _ J]) (use hands_length [OF I] t in simp_all)
qed

lemma linked_owned_kept:
  assumes I: "ls_inv_with xs ys s" and "\<And>x. x \<in> set xs \<Longrightarrow> node_kept (ls_refs (ls_pc s)) (ls_heap s) R' h' x"
  shows "linked R' h' (asp_load (ls_head s)) xs \<and> map (ls_val h') xs = map (ls_val (ls_heap s)) xs"
proof
  show "linked R' h' (asp_load (ls_head s)) xs" using linked_kept [OF lsI(3) [OF I]] assms(2) by blast
  have "ls_val h' x = ls_val (ls_heap s) x" if "x \<in> set xs" for x
    using linked_in_heap [OF lsI(3) [OF I] that] assms(2) [OF that] by (auto simp: node_kept_def ls_val_def)
  then show "map (ls_val h') xs = map (ls_val (ls_heap s)) xs" by simp
qed

lemma own_apart:
  assumes I: "ls_inv_with xs ys s" and t: "t < length ys"
  shows "n \<in> set (ys ! t) \<Longrightarrow> n \<notin> set xs" "n \<in> set (ys ! t) \<Longrightarrow> count (mset (ys ! t)) n = 1"
proof -
  obtain Z where Z: "sum_list (map mset ys) = mset (ys ! t) + Z" using owned_split [OF t] by auto
  have c: "count (mset xs) n + (count (mset (ys ! t)) n + count Z n) \<le> 1" using lsI(2) [OF I, of n] Z by (simp add: ls_owned_def)
  assume "n \<in> set (ys ! t)"
  then have "0 < count (mset (ys ! t)) n" by (metis count_greater_zero_iff set_mset_mset)
  with c have "count (mset xs) n = 0" and one: "count (mset (ys ! t)) n = 1" by linarith+
  then show "n \<notin> set xs" by (metis count_eq_zero_iff set_mset_mset)
  show "count (mset (ys ! t)) n = 1" by (rule one)
qed

lemma ls_step_push_cas:
  assumes I: "ls_inv_with xs ys s" and t: "t < length (ls_pc s)" and at: "ls_pc s ! t = LsPush n"
  shows "lands_in (ls_follows (ls_abs xs ys s)) (ls_push_cas t spurious n s)"
proof -
  have ty: "t < length ys" using lsI(1) [OF I] t by simp
  have o: "ys ! t = [n]" "canonical n" "node_ok (ls_refs (ls_pc s)) (ls_heap s) n 0" using lsI(4) [OF I ty] at by simp_all
  then obtain nd where nd: "ls_heap s n = Some nd" by (auto simp: node_ok_def)
  have nx: "n \<notin> set xs" using own_apart(1) [OF I ty] o(1) by simp
  have ok: "stamped_ok (nd_next nd)" "stamped_ok \<lparr>sp_raw = n, sp_stamp = 0\<rparr>"
    using ls_small_heap [OF lsI(6) [OF I] nd] o(2) by (simp_all add: stamped_ok_def)
  note cas = asp_cas_eq [OF ok(1), of spurious "\<lparr>sp_raw = n, sp_stamp = 0\<rparr>" "ls_head s"]
  have R: "ls_refs ((ls_pc s)[t := p]) = ls_refs (ls_pc s)" if "\<And>x. \<not> ls_refers x p" for p
    using ls_refs_update [OF t, of p] at that by (auto simp: fun_eq_iff)
  show ?thesis
  proof (cases "asp_load (ls_head s) = nd_next nd \<and> \<not> spurious")
    case True
    let ?s = "ls_goto t LsIdle (ls_say (RetPush t) (s\<lparr>ls_head := pk_pack \<lparr>sp_raw = n, sp_stamp = 0\<rparr>, ls_heap := (ls_heap s)(n \<mapsto> nd)\<rparr>))"
    have h: "(ls_heap s)(n \<mapsto> nd) = ls_heap s" using nd by auto
    have s: "ls_heap ?s = ls_heap s" "ls_pc ?s = (ls_pc s)[t := LsIdle]" "asp_load (ls_head ?s) = \<lparr>sp_raw = n, sp_stamp = 0\<rparr>"
      "ls_log ?s = ls_log s @ [RetPush t]"
      using h asp_load_pack [OF ok(2)] by (simp_all add: ls_goto_def ls_say_def)
    have R': "ls_refs (ls_pc ?s) = ls_refs (ls_pc s)" using R [of LsIdle] s(2) by simp
    have own: "ls_owned (n # xs) (ys[t := []]) = ls_owned xs ys" by (rule owned_same [OF ty]) (simp add: o(1))
    have "ls_inv_with (n # xs) (ys[t := []]) ?s \<and> ls_hands ?s (ys[t := []]) = (ls_hands s ys)[t := ls_hand (ls_heap ?s) LsIdle []]"
    proof (rule ls_moveI [OF I t s(2)])
      show "linked (ls_refs (ls_pc ?s)) (ls_heap ?s) (asp_load (ls_head ?s)) (n # xs)"
        using o(3) lsI(3) [OF I] True nd unfolding s(1,3) R' by simp
      show "ls_small ?s"
        by (rule ls_smallI [OF lsI(6) [OF I] t s(2)])
          (use ls_small_heap [OF lsI(6) [OF I]] o(2) s(1,3) in \<open>simp_all add: stamped_ok_def\<close>)
    qed (use lsI(2,5) [OF I] own s(1) R' in \<open>simp_all add: node_kept_same\<close>)
    then have J: "ls_inv_with (n # xs) (ys[t := []]) ?s" and "ls_abs (n # xs) (ys[t := []]) ?s =
        (as_say (RetPush t) ((ls_abs xs ys s)\<lparr>as_items := ls_val (ls_heap s) n # as_items (ls_abs xs ys s)\<rparr>))
          \<lparr>as_hands := (as_hands (ls_abs xs ys s))[t := Rests]\<rparr>"
      by (simp_all add: ls_abs_def as_say_def ls_hand_def s)
    moreover have "as_hands (ls_abs xs ys s) ! t = Puts (ls_val (ls_heap s) n)" using hands_nth [OF I t] by (simp add: at ls_hand_def)
    ultimately have "ls_follows (ls_abs xs ys s) ?s"
      by (intro ls_follows_act [where e = "AsPush t", OF _ _ J]) (use hands_length [OF I] t in simp_all)
    moreover have "ls_push_cas t spurious n s = Next ?s" using nd cas True by (simp add: ls_push_cas_def)
    ultimately show ?thesis by simp
  next
    case False
    let ?h = "(ls_heap s)(n \<mapsto> nd\<lparr>nd_next := asp_load (ls_head s)\<rparr>)"
    let ?s = "ls_goto t (LsPush n) (s\<lparr>ls_heap := ?h\<rparr>)"
    have s: "ls_heap ?s = ?h" "ls_pc ?s = (ls_pc s)[t := LsPush n]" "ls_head ?s = ls_head s" "ls_log ?s = ls_log s" by (simp_all add: ls_goto_def)
    have R': "ls_refs (ls_pc ?s) = ls_refs (ls_pc s)" using R [of "LsPush n"] s(2) by simp
    have own: "ls_owned xs (ys[t := [n]]) = ls_owned xs ys" by (rule owned_same [OF ty]) (simp add: o(1))
    have kept: "node_kept (ls_refs (ls_pc s)) (ls_heap s) (ls_refs (ls_pc ?s)) (ls_heap ?s) x" if "x \<noteq> n" for x
      by (rule node_kept_same) (use R' that s(1) in simp_all)
    note xs = linked_owned_kept [OF I, of "ls_refs (ls_pc ?s)" "ls_heap ?s"]
    have "ls_inv_with xs (ys[t := [n]]) ?s \<and> ls_hands ?s (ys[t := [n]]) = (ls_hands s ys)[t := ls_hand (ls_heap ?s) (LsPush n) [n]]"
    proof (rule ls_moveI [OF I t s(2)])
      show "linked (ls_refs (ls_pc ?s)) (ls_heap ?s) (asp_load (ls_head ?s)) xs" using xs kept nx s(3) by metis
      show "owns (ls_refs (ls_pc ?s)) (ls_heap ?s) (LsPush n) [n]" using o(2,3) nd unfolding R' s(1) by (auto simp: node_ok_def)
      fix x assume "x \<notin># ls_owned xs (ys[t := [n]])"
      then have x: "x \<notin># ls_owned xs ys" unfolding own .
      have "x \<noteq> n" using x o(1) member_subset [OF ty] by (auto simp: ls_owned_def)
      with lsI(5) [OF I x] show "loose_ok (ls_refs (ls_pc ?s)) (ls_heap ?s) x" unfolding R' s(1) by (simp add: loose_ok_def)
    next
      fix x assume "x \<notin> set (ys ! t)"
      with o(1) show "node_kept (ls_refs (ls_pc s)) (ls_heap s) (ls_refs (ls_pc ?s)) (ls_heap ?s) x" by (intro kept) auto
    next
      show "ls_small ?s"
        by (rule ls_smallI [OF lsI(6) [OF I] t s(2)])
          (use ls_small_heap [OF lsI(6) [OF I]] s(1) in \<open>auto split: if_splits\<close>)
    qed (use lsI(2) [OF I] own in simp)
    moreover have "(ls_hands s ys)[t := ls_hand (ls_heap ?s) (LsPush n) [n]] = ls_hands s ys"
      by (rule hands_same [OF I t]) (simp add: at ls_hand_def s(1) ls_val_def nd)
    moreover have "map (ls_val (ls_heap ?s)) xs = map (ls_val (ls_heap s)) xs" using xs kept nx by metis
    ultimately have "ls_follows (ls_abs xs ys s) ?s"
      by (intro ls_follows_same [of xs "ys[t := [n]]"]) (simp_all add: ls_abs_def s(4))
    moreover have "ls_push_cas t spurious n s = Next ?s" using nd cas False by (auto simp: ls_push_cas_def)
    ultimately show ?thesis by simp
  qed
qed

text \<open>Small facts on stamps.\<close>

lemma sp_increment_ok:
  assumes "stamped_ok p" "sp_stamp p \<noteq> pk_max_stamp"
  shows "stamped_ok (sp_increment p)" "unat (sp_stamp (sp_increment p)) = Suc (unat (sp_stamp p))"
proof -
  have max: "pk_max_stamp = 65535" by (simp add: pk_max_stamp_def pk_free_bits_def push_bit_eq_mult)
  have "unat (sp_stamp p) \<noteq> 65535"
  proof
    assume "unat (sp_stamp p) = 65535"
    then have "sp_stamp p = 65535" by (simp add: word_unat_eq_iff)
    with assms(2) max show False by simp
  qed
  then have lt: "unat (sp_stamp p) < 65535" using stamped_ok_unat [OF assms(1)] by simp
  then show u: "unat (sp_stamp (sp_increment p)) = Suc (unat (sp_stamp p))" by (simp add: sp_increment_def unat_word_ariths)
  show "stamped_ok (sp_increment p)"
    using assms(1) lt u by (simp add: stamped_ok_def word_less_nat_alt) (simp add: sp_increment_def)
qed

text \<open>The null pointer stays null whatever its stamp.\<close>

lemma pack_null: "sp_raw p = 0 \<Longrightarrow> sp_raw (asp_load (pk_pack p)) = 0"
  by (rule bit_word_eqI) (simp add: asp_load_def pk_unpack_def pk_get_raw_def bit_pk_canonical bit_pk_pack)

lemma stamp_minus_one: "0 < unat (w :: u64) \<Longrightarrow> unat (w - 1) = unat w - 1"
  by (metis One_nat_def Suc_leI unat_1 unat_sub word_le_nat_alt)

lemma ls_step_acquire:
  assumes I: "ls_inv_with xs ys s" and t: "t < length (ls_pc s)" and at: "ls_pc s ! t = LsAcq c"
    and ok: "sp_raw c \<noteq> 0 \<Longrightarrow> sp_stamp c \<noteq> pk_max_stamp"
  shows "lands_in (ls_follows (ls_abs xs ys s)) (ls_acquire_ref t spurious c s)"
proof -
  have ty: "t < length ys" using lsI(1) [OF I] t by simp
  have y: "ys ! t = []" using lsI(4) [OF I ty] at by simp
  have c: "stamped_ok c" using ls_small_pc [OF lsI(6) [OF I] t] at by simp
  note inc = sp_increment_ok [OF c ok]
  note cas = asp_cas_eq [OF c, of spurious "sp_increment c" "ls_head s"]
  show ?thesis
  proof (cases "asp_load (ls_head s) = c \<and> \<not> spurious")
    case True
    let ?p = "if sp_raw c \<noteq> 0 then LsPopCas (sp_increment c) else LsIdle"
    let ?h = "s\<lparr>ls_head := pk_pack (sp_increment c)\<rparr>"
    let ?s = "ls_goto t ?p (if sp_raw c \<noteq> 0 then ?h else ls_say (RetPop t None) ?h)"
    have s: "ls_heap ?s = ls_heap s" "ls_pc ?s = (ls_pc s)[t := ?p]" "ls_head ?s = pk_pack (sp_increment c)"
      "ls_log ?s = (if sp_raw c \<noteq> 0 then ls_log s else ls_log s @ [RetPop t None])"
      by (simp_all add: ls_goto_def ls_say_def)
    have raw: "sp_raw (sp_increment c) = sp_raw c" by (simp add: sp_increment_def)
    have R: "ls_refs (ls_pc ?s) n = ls_refs (ls_pc s) n + (if n = sp_raw c \<and> n \<noteq> 0 then 1 else 0)" for n
      using ls_refs_update [OF t, of ?p n] at raw unfolding s(2) by (simp split: if_splits)
    have ys: "ys[t := []] = ys" using y by (metis list_update_id)
    have l: "linked (ls_refs (ls_pc s)) (ls_heap s) c xs" using lsI(3) [OF I] True by simp
    have nx: "n \<noteq> sp_raw c \<or> n = 0" if "n \<notin> set xs" for n using l that by (cases xs) auto
    have kept: "node_kept (ls_refs (ls_pc s)) (ls_heap s) (ls_refs (ls_pc ?s)) (ls_heap ?s) n" if "n \<noteq> sp_raw c \<or> n = 0" for n
      by (rule node_kept_same) (use R [of n] s(1) that in auto)
    have l': "linked (ls_refs (ls_pc ?s)) (ls_heap ?s) (asp_load (ls_head ?s)) xs"
    proof (cases xs)
      case Nil
      with l raw pack_null [of "sp_increment c"] s(3) show ?thesis by simp
    next
      case (Cons x xs1)
      with l have nz: "sp_raw c \<noteq> 0" by (auto simp: node_ok_def)
      have load: "asp_load (ls_head ?s) = sp_increment c" using asp_load_pack [OF inc(1) [OF nz]] s(3) by simp
      have "count (mset xs) x \<le> 1" using lsI(2) [OF I, of x] by (simp add: ls_owned_def)
      with Cons have x: "x \<notin> set xs1" by (simp add: not_in_iff [symmetric])
      have "linked (ls_refs (ls_pc ?s)) (ls_heap ?s) (nd_next (the (ls_heap s x))) xs1"
      proof (rule linked_kept)
        show "linked (ls_refs (ls_pc s)) (ls_heap s) (nd_next (the (ls_heap s x))) xs1" using l Cons by simp
        fix z assume "z \<in> set xs1"
        with x l Cons have "z \<noteq> sp_raw c" by auto
        then show "node_kept (ls_refs (ls_pc s)) (ls_heap s) (ls_refs (ls_pc ?s)) (ls_heap ?s) z" by (intro kept) simp
      qed
      moreover have "node_ok (ls_refs (ls_pc ?s)) (ls_heap ?s) x (unat (sp_stamp (sp_increment c)))"
        using l Cons R [of x] inc(2) [OF nz] s(1) by (auto simp: node_ok_def)
      ultimately show ?thesis using l Cons raw s(1) unfolding load by simp
    qed
    have "ls_inv_with xs (ys[t := []]) ?s \<and> ls_hands ?s (ys[t := []]) = (ls_hands s ys)[t := ls_hand (ls_heap ?s) ?p []]"
    proof (rule ls_moveI [OF I t s(2)])
      show "linked (ls_refs (ls_pc ?s)) (ls_heap ?s) (asp_load (ls_head ?s)) xs" by (rule l')
      show "owns (ls_refs (ls_pc ?s)) (ls_heap ?s) ?p []" by simp
      fix n assume "n \<notin># ls_owned xs (ys[t := []])"
      then have n: "n \<notin># ls_owned xs ys" by (simp add: ys)
      then have "n \<notin> set xs" by (simp add: ls_owned_def)
      from nx [OF this] R [of n] have "ls_refs (ls_pc ?s) n = ls_refs (ls_pc s) n" by auto
      from loose_same [of _ _ n "ls_refs (ls_pc ?s)" "ls_heap ?s", OF lsI(5) [OF I n] this] s(1)
      show "loose_ok (ls_refs (ls_pc ?s)) (ls_heap ?s) n" by simp
    next
      fix n assume "n \<notin> set xs"
      from kept [OF nx [OF this]] show "node_kept (ls_refs (ls_pc s)) (ls_heap s) (ls_refs (ls_pc ?s)) (ls_heap ?s) n" .
    next
      show "ls_small ?s"
      proof (rule ls_smallI_refs [OF lsI(6) [OF I] s(2)])
        fix n
        have old: "ls_refs (ls_pc s) n < 2 ^ 16" using lsI(6) [OF I] by (simp add: ls_small_def)
        show "ls_refs (ls_pc ?s) n < 2 ^ 16"
        proof (cases "n = sp_raw c \<and> n \<noteq> 0")
          case True
          with l have "ls_refs (ls_pc s) n \<le> unat (sp_stamp c)" by (cases xs) (auto simp: node_ok_def)
          then have "ls_refs (ls_pc ?s) n \<le> unat (sp_stamp (sp_increment c))" using R [of n] True inc(2) by auto
          also have "\<dots> < 2 ^ 16" using stamped_ok_unat [OF inc(1)] True by auto
          finally show ?thesis .
        next
          case False
          then show ?thesis using R [of n] old by (simp split: if_splits)
        qed
      qed (use ls_small_heap [OF lsI(6) [OF I]] inc s(1) raw in auto)
    qed (use lsI(2) [OF I] ys in simp)
    then have J: "ls_inv_with xs ys ?s" and hands: "ls_hands ?s ys = (ls_hands s ys)[t := ls_hand (ls_heap ?s) ?p []]"
      by (simp_all only: ys)
    have pops: "as_hands (ls_abs xs ys s) ! t = Pops" using hands_nth [OF I t] by (simp add: at ls_hand_def)
    have "ls_follows (ls_abs xs ys s) ?s"
    proof (cases "sp_raw c = 0")
      case True
      with l have "as_items (ls_abs xs ys s) = []" by (cases xs) (auto simp: ls_abs_def node_ok_def)
      moreover have "ls_abs xs ys ?s = (as_say (RetPop t None) (ls_abs xs ys s))\<lparr>as_hands := (as_hands (ls_abs xs ys s))[t := Rests]\<rparr>"
        using True hands s(1,4) by (simp add: ls_abs_def as_say_def ls_hand_def)
      ultimately show ?thesis
        by (intro ls_follows_act [where e = "AsPopEmpty t", OF _ _ J]) (use hands_length [OF I] t pops in simp_all)
    next
      case False
      have "(ls_hands s ys)[t := Pops] = ls_hands s ys" by (rule hands_same [OF I t]) (simp add: at ls_hand_def)
      with False hands s(1,4) have "ls_abs xs ys ?s = ls_abs xs ys s" by (simp add: ls_abs_def ls_hand_def)
      then show ?thesis by (rule ls_follows_same [OF J])
    qed
    moreover have "ls_acquire_ref t spurious c s = Next ?s"
      using cas True raw by (simp add: ls_acquire_ref_def sp_bool_def ls_goto_def Let_def)
    ultimately show ?thesis by simp
  next
    case False
    have "ls_acquire_ref t spurious c s = Next (ls_goto t (LsAcq (asp_load (ls_head s))) s)"
      using cas False by (auto simp: ls_acquire_ref_def ls_goto_def)
    then show ?thesis using ls_quiet_same [OF I t, of "LsAcq (asp_load (ls_head s))"] at
      by (simp add: ls_unowning_def ls_hand_def)
  qed
qed

lemma owned_count_head:
  assumes "ls_inv_with (x # xs) ys s"
  shows "x \<notin> set xs" "t < length ys \<Longrightarrow> x \<notin> set (ys ! t)"
proof -
  have c: "Suc (count (mset xs) x + count (sum_list (map mset ys)) x) \<le> 1"
    using lsI(2) [OF assms, of x] by (simp add: ls_owned_def)
  then have "count (mset xs) x = 0" "count (sum_list (map mset ys)) x = 0" by linarith+
  then have n: "x \<notin># mset xs" "x \<notin># sum_list (map mset ys)" by (simp_all only: count_eq_zero_iff not_False_eq_True)
  from n(1) show "x \<notin> set xs" by simp
  show "x \<notin> set (ys ! t)" if "t < length ys" using n(2) mset_subset_eqD [OF member_subset [OF that], of x] by auto
qed

lemma ls_step_pop:
  assumes I: "ls_inv_with xs ys s" and t: "t < length (ls_pc s)" and at: "ls_pc s ! t = LsPopCas c"
  shows "lands_in (ls_follows (ls_abs xs ys s)) (ls_pop_cas t spurious c s)"
proof -
  have ty: "t < length ys" using lsI(1) [OF I] t by simp
  have y: "ys ! t = []" using lsI(4) [OF I ty] at by simp
  have c: "stamped_ok c" "sp_raw c \<noteq> 0" "0 < unat (sp_stamp c)" using ls_small_pc [OF lsI(6) [OF I] t] at by simp_all
  obtain nd where nd: "ls_heap s (sp_raw c) = Some nd"
    using ls_referred [OF I ls_refs_pos [OF t, of "sp_raw c"]] at by auto
  have ok: "stamped_ok c" "stamped_ok (nd_next nd)"
    using ls_small_heap [OF lsI(6) [OF I] nd] c(1) by simp_all
  note cas = asp_cas_eq [OF ok(1), of spurious "nd_next nd" "ls_head s"]
  show ?thesis
  proof (cases "asp_load (ls_head s) = c \<and> \<not> spurious")
    case True
    have "linked (ls_refs (ls_pc s)) (ls_heap s) c xs" using lsI(3) [OF I] True by simp
    then obtain xs1 where xs: "xs = sp_raw c # xs1" and x: "node_ok (ls_refs (ls_pc s)) (ls_heap s) (sp_raw c) (unat (sp_stamp c))"
      and l: "linked (ls_refs (ls_pc s)) (ls_heap s) (nd_next nd) xs1" using c(2) nd by (cases xs) auto
    note apart = owned_count_head [OF I [unfolded xs]]
    let ?x = "sp_raw c"
    let ?s = "ls_goto t (LsMoved c) (s\<lparr>ls_head := pk_pack (nd_next nd)\<rparr>)"
    have s: "ls_heap ?s = ls_heap s" "ls_pc ?s = (ls_pc s)[t := LsMoved c]" "asp_load (ls_head ?s) = nd_next nd" "ls_log ?s = ls_log s"
      using asp_load_pack [OF ok(2)] by (simp_all add: ls_goto_def)
    have R: "ls_refs (ls_pc ?s) n + (if n = ?x then 1 else 0) = ls_refs (ls_pc s) n" for n
      using ls_refs_update [OF t, of "LsMoved c" n] at unfolding s(2) by (auto split: if_splits)
    have kept: "node_kept (ls_refs (ls_pc s)) (ls_heap s) (ls_refs (ls_pc ?s)) (ls_heap ?s) n" if "n \<noteq> ?x" for n
      by (rule node_kept_same) (use R [of n] s(1) that in auto)
    have own: "ls_owned xs1 (ys[t := [?x]]) = ls_owned xs ys" by (rule owned_same [OF ty]) (simp add: y xs)
    have "ls_inv_with xs1 (ys[t := [?x]]) ?s \<and> ls_hands ?s (ys[t := [?x]]) = (ls_hands s ys)[t := ls_hand (ls_heap ?s) (LsMoved c) [?x]]"
    proof (rule ls_moveI [OF I t s(2)])
      show "linked (ls_refs (ls_pc ?s)) (ls_heap ?s) (asp_load (ls_head ?s)) xs1" unfolding s(3)
      proof (rule linked_kept [OF l])
        fix z assume "z \<in> set xs1"
        with apart(1) have "z \<noteq> ?x" by auto
        then show "node_kept (ls_refs (ls_pc s)) (ls_heap s) (ls_refs (ls_pc ?s)) (ls_heap ?s) z" by (rule kept)
      qed
      have "ls_refs (ls_pc s) ?x \<le> unat (sp_stamp c)" using x by (simp add: node_ok_def)
      moreover have "ls_refs (ls_pc ?s) ?x + 1 = ls_refs (ls_pc s) ?x" using R [of ?x] by (simp only: refl if_True)
      ultimately have e: "int (ls_refs (ls_pc s) ?x) - int (unat (sp_stamp c)) = int (ls_refs (ls_pc ?s) ?x) - int (unat (sp_stamp c) - 1)"
        and "ls_refs (ls_pc ?s) ?x \<le> unat (sp_stamp c) - 1"
        using c(3) by linarith+
      have "node_ok (ls_refs (ls_pc ?s)) (ls_heap ?s) ?x (unat (sp_stamp c) - 1)"
        using x unfolding node_ok_def s(1) e [symmetric] using \<open>ls_refs (ls_pc ?s) ?x \<le> unat (sp_stamp c) - 1\<close> by blast
      with c(3) show "owns (ls_refs (ls_pc ?s)) (ls_heap ?s) (LsMoved c) [?x]" by simp
      fix n assume "n \<notin># ls_owned xs1 (ys[t := [?x]])"
      then have n: "n \<notin># ls_owned xs ys" unfolding own .
      then have "n \<noteq> ?x" using xs by (auto simp: ls_owned_def)
      with R [of n] have "ls_refs (ls_pc ?s) n = ls_refs (ls_pc s) n" by simp
      from loose_same [of _ _ n "ls_refs (ls_pc ?s)" "ls_heap ?s", OF lsI(5) [OF I n] this] s(1)
      show "loose_ok (ls_refs (ls_pc ?s)) (ls_heap ?s) n" by simp
    next
      fix n assume "n \<notin> set xs"
      with xs show "node_kept (ls_refs (ls_pc s)) (ls_heap s) (ls_refs (ls_pc ?s)) (ls_heap ?s) n" by (intro kept) auto
    next
      show "ls_small ?s"
        by (rule ls_smallI [OF lsI(6) [OF I] t s(2)]) (use ls_small_heap [OF lsI(6) [OF I]] c(1) s(1) in auto)
    qed (use lsI(2) [OF I] own in simp)
    then have J: "ls_inv_with xs1 (ys[t := [?x]]) ?s" and "ls_abs xs1 (ys[t := [?x]]) ?s = (ls_abs xs ys s)\<lparr>as_items := map (ls_val (ls_heap s)) xs1,
        as_hands := (as_hands (ls_abs xs ys s))[t := Popped (ls_val (ls_heap s) ?x)]\<rparr>"
      by (simp_all add: ls_abs_def ls_hand_def s)
    moreover have "as_hands (ls_abs xs ys s) ! t = Pops" using hands_nth [OF I t] by (simp add: at ls_hand_def)
    moreover have "as_items (ls_abs xs ys s) = ls_val (ls_heap s) ?x # map (ls_val (ls_heap s)) xs1" by (simp add: ls_abs_def xs)
    ultimately have "ls_follows (ls_abs xs ys s) ?s"
      by (intro ls_follows_act [where e = "AsPop t", OF _ _ J]) (use hands_length [OF I] t in simp_all)
    moreover have "ls_pop_cas t spurious c s = Next ?s" using nd cas True by (simp add: ls_pop_cas_def)
    ultimately show ?thesis by simp
  next
    case False
    have "ls_pop_cas t spurious c s = Next (ls_goto t (LsRelease c) s)" using nd cas False by (auto simp: ls_pop_cas_def)
    then show ?thesis using ls_quiet_same [OF I t, of "LsRelease c"] at c by (simp add: ls_unowning_def ls_hand_def)
  qed
qed

lemma linked_small:
  "linked R h p xs \<Longrightarrow> stamped_ok p \<Longrightarrow> (\<And>n nd. h n = Some nd \<Longrightarrow> stamped_ok (nd_next nd)) \<Longrightarrow> x \<in> set xs \<Longrightarrow>
    \<exists>k < 2 ^ 16. node_ok R h x k"
proof (induction xs arbitrary: p)
  case (Cons y xs)
  then obtain nd where nd: "h y = Some nd" "node_ok R h y (unat (sp_stamp p))" by (auto simp: node_ok_def)
  show ?case
  proof (cases "x = y")
    case True
    with nd(2) stamped_ok_unat [OF Cons.prems(2)] show ?thesis by blast
  next
    case False
    with Cons nd(1) show ?thesis by auto
  qed
qed simp

lemma owned_node_small:
  assumes I: "ls_inv_with xs ys s" and n: "n \<in># ls_owned xs ys"
  shows "\<exists>k < 2 ^ 16. node_ok (ls_refs (ls_pc s)) (ls_heap s) n k"
proof -
  have S: "ls_small s" by (rule lsI(6) [OF I])
  have nx: "stamped_ok (nd_next nd)" if "ls_heap s x = Some nd" for x nd using S that by (auto simp: ls_small_def)
  show ?thesis
  proof (cases "n \<in> set xs")
    case True
    from linked_small [OF lsI(3) [OF I] asp_load_ok nx True] show ?thesis .
  next
    case False
    with n have "n \<in># sum_list (map mset ys)" by (simp add: ls_owned_def)
    then obtain zs where "zs \<in> set ys" "n \<in> set zs" by (induction ys) auto
    then obtain u where u: "u < length ys" "n \<in> set (ys ! u)" by (metis in_set_conv_nth)
    have o: "owns (ls_refs (ls_pc s)) (ls_heap s) (ls_pc s ! u) (ys ! u)" by (rule lsI(4) [OF I u(1)])
    have p: "ls_pc_small (ls_pc s ! u)" using ls_small_pc [OF S] u(1) lsI(1) [OF I] by simp
    show ?thesis
    proof (cases "ls_pc s ! u")
      case (LsMoved c)
      with o p u(2) stamped_ok_unat [of c] show ?thesis by (intro exI [of _ "unat (sp_stamp c) - 1"]) auto
    next
      case (LsWalk c)
      with p have "stamped_ok c" by simp
      with linked_small [of "ls_refs (ls_pc s)" "ls_heap s" c "ys ! u" n] nx o u(2) LsWalk show ?thesis by simp
    qed (use o u(2) in \<open>auto intro: exI [of _ 0]\<close>)
  qed
qed

lemma ls_step_release:
  assumes I: "ls_inv_with xs ys s" and t: "t < length (ls_pc s)" and at: "ls_pc s ! t = LsRelease c"
  shows "lands_in (ls_follows (ls_abs xs ys s)) (ls_release t c s)"
proof -
  let ?n = "sp_raw c" and ?R = "ls_refs (ls_pc s)" and ?R' = "ls_refs ((ls_pc s)[t := LsAcqLoad])"
  have ty: "t < length ys" using lsI(1) [OF I] t by simp
  have y: "ys ! t = []" using lsI(4) [OF I ty] at by simp
  have ys: "ys[t := []] = ys" using y by (metis list_update_id)
  have R: "?R' x + (if x = ?n then 1 else 0) = ?R x" for x using ls_refs_update [OF t, of LsAcqLoad x] at by (auto split: if_splits)
  have Rn: "?R ?n = Suc (?R' ?n)" using R [of ?n] by simp
  have "?R ?n < 2 ^ 16" using lsI(6) [OF I] by (simp add: ls_small_def)
  then have b: "?R ?n < 2 ^ 31" by simp
  have fin: "ls_follows (ls_abs xs ys s) (ls_goto t LsAcqLoad (s\<lparr>ls_heap := h\<rparr>))"
    if kept: "\<And>x. x \<in># ls_owned xs ys \<Longrightarrow> node_kept ?R (ls_heap s) ?R' h x"
      and loose: "\<And>x. x \<notin># ls_owned xs ys \<Longrightarrow> loose_ok ?R' h x"
      and nxt: "\<And>x nd. h x = Some nd \<Longrightarrow> \<exists>nd'. ls_heap s x = Some nd' \<and> nd_next nd = nd_next nd'" for h
  proof -
    let ?s = "ls_goto t LsAcqLoad (s\<lparr>ls_heap := h\<rparr>)"
    have s: "ls_heap ?s = h" "ls_pc ?s = (ls_pc s)[t := LsAcqLoad]" "ls_head ?s = ls_head s" "ls_log ?s = ls_log s" by (simp_all add: ls_goto_def)
    have kx: "node_kept ?R (ls_heap s) ?R' h x" if "x \<in> set xs" for x using kept [of x] that by (simp add: ls_owned_def)
    have ko: "node_kept ?R (ls_heap s) ?R' h x" for x
    proof (cases "x \<in># ls_owned xs ys")
      case False
      then have "\<not> node_ok ?R (ls_heap s) x k" for k
        using lsI(5) [OF I False] by (auto simp: node_ok_def loose_ok_def)
      then show ?thesis by (simp add: node_kept_def)
    qed (rule kept)
    note l = linked_owned_kept [OF I kx]
    have "ls_inv_with xs (ys[t := []]) ?s \<and> ls_hands ?s (ys[t := []]) = (ls_hands s ys)[t := ls_hand (ls_heap ?s) LsAcqLoad []]"
    proof (rule ls_moveI [OF I t s(2)])
      show "ls_small ?s"
      proof (rule ls_smallI [OF lsI(6) [OF I] t s(2)])
        fix x nd assume "ls_heap ?s x = Some nd"
        with nxt [of x nd] s(1) ls_small_heap [OF lsI(6) [OF I], of x] show "stamped_ok (nd_next nd)" by auto
      qed simp_all
    qed (use lsI(2) [OF I] ys l ko loose s in simp_all)
    moreover have "(ls_hands s ys)[t := Pops] = ls_hands s ys" by (rule hands_same [OF I t]) (simp add: at ls_hand_def)
    ultimately show ?thesis
      by (intro ls_follows_same [of xs ys]) (use l in \<open>simp_all add: ls_abs_def ls_hand_def s ys\<close>)
  qed
  show ?thesis
  proof (cases "?n \<in># ls_owned xs ys")
    case True
    then obtain k where k: "k < 2 ^ 16" "node_ok ?R (ls_heap s) ?n k" using owned_node_small [OF I] by blast
    then have "k < 2 ^ 31" by simp
    from give_up_owned [where R = ?R and R' = ?R', OF k(2) this Rn] obtain nd g where
      g: "ls_heap s ?n = Some nd" "ls_increment_global ?n (- 1) (ls_heap s) = Inr ((ls_heap s)(?n \<mapsto> nd\<lparr>nd_global := g\<rparr>))"
      "node_kept ?R (ls_heap s) ?R' ((ls_heap s)(?n \<mapsto> nd\<lparr>nd_global := g\<rparr>)) ?n" by blast
    have "ls_follows (ls_abs xs ys s) (ls_goto t LsAcqLoad (s\<lparr>ls_heap := (ls_heap s)(?n \<mapsto> nd\<lparr>nd_global := g\<rparr>)\<rparr>))"
    proof (rule fin)
      fix x assume "x \<in># ls_owned xs ys"
      show "node_kept ?R (ls_heap s) ?R' ((ls_heap s)(?n \<mapsto> nd\<lparr>nd_global := g\<rparr>)) x"
      proof (cases "x = ?n")
        case True
        then show ?thesis using g(3) by simp
      next
        case False
        then show ?thesis using R [of x] by (intro node_kept_same) auto
      qed
    next
      fix x assume x: "x \<notin># ls_owned xs ys"
      with True have "x \<noteq> ?n" by auto
      with R [of x] show "loose_ok ?R' ((ls_heap s)(?n \<mapsto> nd\<lparr>nd_global := g\<rparr>)) x" by (intro loose_same [OF lsI(5) [OF I x]]) auto
    qed (use g(1) in \<open>auto split: if_splits\<close>)
    with g(2) show ?thesis by (simp add: ls_release_def)
  next
    case False
    from give_up_loose [where R' = ?R', OF lsI(5) [OF I False] Rn b] obtain h where
      h: "ls_increment_global ?n (- 1) (ls_heap s) = Inr h" "loose_ok ?R' h ?n" "\<forall>x. x \<noteq> ?n \<longrightarrow> h x = ls_heap s x"
      "\<forall>nd'. h ?n = Some nd' \<longrightarrow> (\<exists>nd. ls_heap s ?n = Some nd \<and> nd_next nd' = nd_next nd)" by blast
    have "ls_follows (ls_abs xs ys s) (ls_goto t LsAcqLoad (s\<lparr>ls_heap := h\<rparr>))"
    proof (rule fin)
      fix x assume "x \<in># ls_owned xs ys"
      with False have "x \<noteq> ?n" by auto
      with R [of x] h(3) show "node_kept ?R (ls_heap s) ?R' h x" by (intro node_kept_same) auto
    next
      fix x assume x: "x \<notin># ls_owned xs ys"
      show "loose_ok ?R' h x"
      proof (cases "x = ?n")
        case True
        then show ?thesis using h(2) by simp
      next
        case False
        with R [of x] h(3) show ?thesis by (intro loose_same [OF lsI(5) [OF I x]]) auto
      qed
    next
      fix x nd assume "h x = Some nd"
      with h(3,4) show "\<exists>nd'. ls_heap s x = Some nd' \<and> nd_next nd = nd_next nd'" by (cases "x = ?n") auto
    qed
    with h(1) show ?thesis by (simp add: ls_release_def)
  qed
qed

lemma ls_step_consume:
  assumes I: "ls_inv_with xs ys s" and t: "t < length (ls_pc s)" and at: "ls_pc s ! t = LsConCas c"
  shows "lands_in (ls_follows (ls_abs xs ys s)) (ls_consume_cas t spurious c s)"
proof -
  have ty: "t < length ys" using lsI(1) [OF I] t by simp
  have y: "ys ! t = []" using lsI(4) [OF I ty] at by simp
  have c: "stamped_ok c" using ls_small_pc [OF lsI(6) [OF I] t] at by simp
  have null: "stamped_ok sp_null" by (simp add: stamped_ok_def sp_null_def)
  note cas = asp_cas_eq [OF c, of spurious sp_null "ls_head s"]
  show ?thesis
  proof (cases "asp_load (ls_head s) = c \<and> \<not> spurious")
    case True
    let ?s = "ls_goto t (LsWalk c) (s\<lparr>ls_head := pk_pack sp_null\<rparr>)"
    have s: "ls_heap ?s = ls_heap s" "ls_pc ?s = (ls_pc s)[t := LsWalk c]" "asp_load (ls_head ?s) = sp_null" "ls_log ?s = ls_log s"
      using asp_load_pack [OF null] by (simp_all add: ls_goto_def)
    have R: "ls_refs (ls_pc ?s) = ls_refs (ls_pc s)"
      using ls_refs_update [OF t, of "LsWalk c"] at unfolding s(2) by (auto simp: fun_eq_iff)
    have own: "ls_owned [] (ys[t := xs]) = ls_owned xs ys" by (rule owned_same [OF ty]) (simp add: y)
    have "ls_inv_with [] (ys[t := xs]) ?s \<and> ls_hands ?s (ys[t := xs]) = (ls_hands s ys)[t := ls_hand (ls_heap ?s) (LsWalk c) xs]"
    proof (rule ls_moveI [OF I t s(2)])
      show "linked (ls_refs (ls_pc ?s)) (ls_heap ?s) (asp_load (ls_head ?s)) []" unfolding s(3) by (simp add: sp_null_def)
      show "owns (ls_refs (ls_pc ?s)) (ls_heap ?s) (LsWalk c) xs" using lsI(3) [OF I] True unfolding R s(1) by simp
      fix n assume "n \<notin># ls_owned [] (ys[t := xs])"
      with own lsI(5) [OF I] show "loose_ok (ls_refs (ls_pc ?s)) (ls_heap ?s) n" unfolding R s(1) by simp
    next
      fix n show "node_kept (ls_refs (ls_pc s)) (ls_heap s) (ls_refs (ls_pc ?s)) (ls_heap ?s) n" unfolding R s(1) by (rule node_kept_same) simp_all
    next
      show "ls_small ?s"
        by (rule ls_smallI [OF lsI(6) [OF I] t s(2)]) (use ls_small_heap [OF lsI(6) [OF I]] c s(1) in auto)
    qed (use lsI(2) [OF I] own in simp)
    then have J: "ls_inv_with [] (ys[t := xs]) ?s" and "ls_abs [] (ys[t := xs]) ?s =
        (ls_abs xs ys s)\<lparr>as_items := [], as_hands := (as_hands (ls_abs xs ys s))[t := Gives (as_items (ls_abs xs ys s))]\<rparr>"
      by (simp_all add: ls_abs_def ls_hand_def s)
    moreover have "as_hands (ls_abs xs ys s) ! t = Consumes" using hands_nth [OF I t] by (simp add: at ls_hand_def)
    ultimately have "ls_follows (ls_abs xs ys s) ?s"
      by (intro ls_follows_act [where e = "AsTakeAll t", OF _ _ J]) (use hands_length [OF I] t in simp_all)
    moreover have "ls_consume_cas t spurious c s = Next ?s" using cas True by (simp add: ls_consume_cas_def)
    ultimately show ?thesis by simp
  next
    case False
    have "ls_consume_cas t spurious c s = Next (ls_goto t (LsConCas (asp_load (ls_head s))) s)"
      using cas False by (auto simp: ls_consume_cas_def ls_goto_def)
    then show ?thesis using ls_quiet_same [OF I t, of "LsConCas (asp_load (ls_head s))"] at by (simp add: ls_unowning_def ls_hand_def)
  qed
qed

text \<open>A thread takes the value of the first node it owns and adds what the stamp recorded.\<close>

lemma ls_step_take:
  assumes I: "ls_inv_with xs ys s" and t: "t < length (ls_pc s)" and y: "ys ! t = n # zs"
    and at: "\<And>x. \<not> ls_refers x (ls_pc s ! t)" and p: "\<And>x. \<not> ls_refers x p" "ls_pc_small p"
    and node: "node_ok (ls_refs (ls_pc s)) (ls_heap s) n k" and val: "val = word_of_int (int k)"
    and own: "owns (ls_refs (ls_pc s)) (ls_heap s) p zs"
    and e: "as_thread e = t" and act: "\<And>h. (\<forall>x\<in>set zs. ls_val h x = ls_val (ls_heap s) x) \<Longrightarrow>
      as_act e (ls_hand (ls_heap s) (ls_pc s ! t) (n # zs)) (ls_abs xs ys s) =
        Some (ls_hand h p zs, as_say (told (ls_val (ls_heap s) n)) (ls_abs xs ys s))"
  shows "lands_in (ls_follows (ls_abs xs ys s)) (ls_take_value n val p told t s)"
proof -
  let ?R = "ls_refs (ls_pc s)"
  have ty: "t < length ys" using lsI(1) [OF I] t by simp
  have nx: "n \<notin> set xs" using own_apart(1) [OF I ty] y by simp
  have nz: "n \<notin> set zs" using own_apart(2) [OF I ty, of n] y by (simp add: count_eq_zero_iff)
  have "?R n < 2 ^ 16" using lsI(6) [OF I] by (simp add: ls_small_def)
  then have "?R n < 2 ^ 31" by simp
  from take_out [OF node this val] obtain nd v h where
    h: "ls_heap s n = Some nd" "nd_value nd = Some v"
      "ls_increment_global n val ((ls_heap s)(n \<mapsto> nd\<lparr>nd_value := None\<rparr>)) = Inr h"
      "loose_ok ?R h n" "\<forall>x. x \<noteq> n \<longrightarrow> h x = ls_heap s x" "\<forall>nd'. h n = Some nd' \<longrightarrow> nd_next nd' = nd_next nd" by blast
  let ?s = "ls_goto t p (ls_say (told v) (s\<lparr>ls_heap := h\<rparr>))"
  have s: "ls_heap ?s = h" "ls_pc ?s = (ls_pc s)[t := p]" "ls_head ?s = ls_head s" "ls_log ?s = ls_log s @ [told v]"
    by (simp_all add: ls_goto_def ls_say_def)
  have R: "ls_refs (ls_pc ?s) = ?R" using ls_refs_update [OF t, of p] at p(1) unfolding s(2) by (auto simp: fun_eq_iff)
  have kept: "node_kept ?R (ls_heap s) ?R h x" if "x \<noteq> n" for x by (rule node_kept_same) (use h(5) that in simp_all)
  have split: "ls_owned xs ys = add_mset n (ls_owned xs (ys[t := zs]))"
    using owned_split [OF ty] y by (auto simp: ls_owned_def)
  have l: "linked ?R h (asp_load (ls_head s)) xs \<and> map (ls_val h) xs = map (ls_val (ls_heap s)) xs"
    by (rule linked_owned_kept [OF I kept]) (use nx in blast)
  have "ls_inv_with xs (ys[t := zs]) ?s \<and> ls_hands ?s (ys[t := zs]) = (ls_hands s ys)[t := ls_hand (ls_heap ?s) p zs]"
  proof (rule ls_moveI [OF I t s(2)])
    fix x show "count (ls_owned xs (ys[t := zs])) x \<le> 1" using lsI(2) [OF I, of x] split by (simp split: if_splits)
  next
    show "linked (ls_refs (ls_pc ?s)) (ls_heap ?s) (asp_load (ls_head ?s)) xs" unfolding R s(1,3) using l by blast
    show "owns (ls_refs (ls_pc ?s)) (ls_heap ?s) p zs" unfolding R s(1) by (rule owns_kept [OF own kept]) (use nz in blast)
  next
    fix x assume x: "x \<notin># ls_owned xs (ys[t := zs])"
    show "loose_ok (ls_refs (ls_pc ?s)) (ls_heap ?s) x" unfolding R s(1)
    proof (cases "x = n")
      case True
      then show "loose_ok ?R h x" using h(4) by simp
    next
      case False
      with x split have "x \<notin># ls_owned xs ys" by simp
      from loose_same [OF lsI(5) [OF I this]] show "loose_ok ?R h x" using h(5) False by simp
    qed
  next
    fix x assume "x \<notin> set (ys ! t)"
    then have "x \<noteq> n" using y by auto
    from kept [OF this] show "node_kept ?R (ls_heap s) (ls_refs (ls_pc ?s)) (ls_heap ?s) x" unfolding R s(1) .
  next
    show "ls_small ?s"
    proof (rule ls_smallI [OF lsI(6) [OF I] t s(2) _ _ p(2)])
      fix x nd' assume "ls_heap ?s x = Some nd'"
      with h(1,5,6) s(1) ls_small_heap [OF lsI(6) [OF I]] show "stamped_ok (nd_next nd')" by (cases "x = n") auto
    qed (use p(1) in simp)
  qed
  then have J: "ls_inv_with xs (ys[t := zs]) ?s" and hands: "ls_hands ?s (ys[t := zs]) = (ls_hands s ys)[t := ls_hand h p zs]"
    by (simp_all add: s(1))
  have v: "ls_val (ls_heap s) n = v" using h(1,2) by (simp add: ls_val_def)
  have "\<forall>x\<in>set zs. ls_val h x = ls_val (ls_heap s) x" using h(5) nz by (auto simp: ls_val_def)
  from act [OF this] have a: "as_act e (as_hands (ls_abs xs ys s) ! t) (ls_abs xs ys s) = Some (ls_hand h p zs, as_say (told v) (ls_abs xs ys s))"
    using hands_nth [OF I t] y v by simp
  have "ls_abs xs (ys[t := zs]) ?s = (as_say (told v) (ls_abs xs ys s))\<lparr>as_hands := (as_hands (ls_abs xs ys s))[t := ls_hand h p zs]\<rparr>"
    using l hands s by (simp add: ls_abs_def as_say_def)
  with a have "ls_follows (ls_abs xs ys s) ?s"
    by (intro ls_follows_act [where e = e, OF _ _ J]) (use hands_length [OF I] t e in simp_all)
  moreover have "ls_take_value n val p told t s = Next ?s" using h(1,2,3) by (simp add: ls_take_value_def)
  ultimately show ?thesis by simp
qed

lemma ls_step_moved:
  assumes I: "ls_inv_with xs ys s" and t: "t < length (ls_pc s)" and at: "ls_pc s ! t = LsMoved c"
  shows "lands_in (ls_follows (ls_abs xs ys s)) (ls_moved t c s)"
proof -
  have ty: "t < length ys" using lsI(1) [OF I] t by simp
  have o: "ys ! t = [sp_raw c]" "0 < unat (sp_stamp c)" "node_ok (ls_refs (ls_pc s)) (ls_heap s) (sp_raw c) (unat (sp_stamp c) - 1)"
    using lsI(4) [OF I ty] at by simp_all
  have "(ucast (sp_stamp c - 1) :: i32) = word_of_int (int (unat (sp_stamp c) - 1))"
    using stamp_to_i32 [of "sp_stamp c - 1"] stamp_minus_one [of "sp_stamp c"] o(2) by simp
  from ls_step_take [where p = LsIdle and e = "AsRetPop t" and told = "\<lambda>v. RetPop t (Some v)", OF I t o(1) _ _ _ o(3) this] at
  show ?thesis by (simp add: ls_moved_def ls_hand_def)
qed

lemma ls_step_walk:
  assumes I: "ls_inv_with xs ys s" and t: "t < length (ls_pc s)" and at: "ls_pc s ! t = LsWalk c"
  shows "lands_in (ls_follows (ls_abs xs ys s)) (ls_consume_node t c s)"
proof (cases "ys ! t")
  case Nil
  have ty: "t < length ys" using lsI(1) [OF I] t by simp
  have r: "sp_raw c = 0" using lsI(4) [OF I ty] at Nil by simp
  let ?s = "ls_goto t LsIdle (ls_say (RetConsume t) s)"
  have s: "ls_heap ?s = ls_heap s" "ls_pc ?s = (ls_pc s)[t := LsIdle]" "ls_head ?s = ls_head s" "ls_log ?s = ls_log s @ [RetConsume t]"
    by (simp_all add: ls_goto_def ls_say_def)
  have R: "ls_refs (ls_pc ?s) = ls_refs (ls_pc s)" using ls_refs_update [OF t, of LsIdle] at unfolding s(2) by (auto simp: fun_eq_iff)
  have ys: "ys[t := []] = ys" using Nil by (metis list_update_id)
  have "ls_inv_with xs (ys[t := []]) ?s \<and> ls_hands ?s (ys[t := []]) = (ls_hands s ys)[t := ls_hand (ls_heap ?s) LsIdle []]"
  proof (rule ls_moveI [OF I t s(2)])
    fix n assume "n \<notin># ls_owned xs (ys[t := []])"
    with lsI(5) [OF I] show "loose_ok (ls_refs (ls_pc ?s)) (ls_heap ?s) n" unfolding R s(1) ys by blast
  next
    fix n show "node_kept (ls_refs (ls_pc s)) (ls_heap s) (ls_refs (ls_pc ?s)) (ls_heap ?s) n" unfolding R s(1) by (rule node_kept_same) simp_all
  next
    show "ls_small ?s"
      by (rule ls_smallI [OF lsI(6) [OF I] t s(2)]) (use ls_small_heap [OF lsI(6) [OF I]] s(1) in simp_all)
  next
    show "linked (ls_refs (ls_pc ?s)) (ls_heap ?s) (asp_load (ls_head ?s)) xs" unfolding R s(1,3) by (rule lsI(3) [OF I])
    show "count (ls_owned xs (ys[t := []])) n \<le> 1" for n unfolding ys by (rule lsI(2) [OF I])
  qed simp
  then have J: "ls_inv_with xs ys ?s" and
    "ls_abs xs ys ?s = (as_say (RetConsume t) (ls_abs xs ys s))\<lparr>as_hands := (as_hands (ls_abs xs ys s))[t := Rests]\<rparr>"
    by (simp_all add: ys ls_abs_def as_say_def ls_hand_def s)
  moreover have "as_hands (ls_abs xs ys s) ! t = Gives []" using hands_nth [OF I t] by (simp add: at Nil ls_hand_def)
  ultimately have "ls_follows (ls_abs xs ys s) ?s"
    by (intro ls_follows_act [where e = "AsRetConsume t", OF _ _ J]) (use hands_length [OF I] t in simp_all)
  moreover have "ls_consume_node t c s = Next ?s" using r by (simp add: ls_consume_node_def sp_bool_def)
  ultimately show ?thesis by simp
next
  case (Cons n zs)
  have ty: "t < length ys" using lsI(1) [OF I] t by simp
  have o: "sp_raw c = n" "node_ok (ls_refs (ls_pc s)) (ls_heap s) n (unat (sp_stamp c))"
    "linked (ls_refs (ls_pc s)) (ls_heap s) (nd_next (the (ls_heap s n))) zs" using lsI(4) [OF I ty] at Cons by simp_all
  then obtain nd where nd: "ls_heap s n = Some nd" "n \<noteq> 0" by (auto simp: node_ok_def)
  have small: "ls_pc_small (LsWalk (nd_next nd))" using ls_small_heap [OF lsI(6) [OF I] nd(1)] by simp
  have "lands_in (ls_follows (ls_abs xs ys s)) (ls_take_value n (ucast (sp_stamp c)) (LsWalk (nd_next nd)) (Gave t) t s)"
    by (rule ls_step_take [where e = "AsGive t", OF I t Cons _ _ small o(2) stamp_to_i32])
      (use at o(3) nd(1) in \<open>simp_all add: ls_hand_def\<close>)
  then show ?thesis using o(1) nd by (simp add: ls_consume_node_def sp_bool_def)
qed

subsection \<open>Runs\<close>

lemma ls_run_follows:
  assumes I: "ls_inv_with xs ys s" and t: "t < length (ls_pc s)" and ok: "\<not> ls_wraps (LsRun t spurious) s"
  shows "lands_in (ls_follows (ls_abs xs ys s)) (ls_step (LsRun t spurious) s)"
proof (cases "ls_pc s ! t")
  case (LsPush n)
  with ls_step_push_cas [OF I t this, of spurious] t show ?thesis by simp
next
  case LsAcqLoad
  with ls_quiet_same [OF I t, of "LsAcq (asp_load (ls_head s))"] t show ?thesis by (simp add: ls_unowning_def ls_hand_def)
next
  case (LsAcq c)
  then have "sp_raw c \<noteq> 0 \<Longrightarrow> sp_stamp c \<noteq> pk_max_stamp" using ok t by (simp add: ls_wraps_def sp_bool_def)
  with ls_step_acquire [OF I t LsAcq, of spurious] LsAcq t show ?thesis by simp
next
  case (LsPopCas c)
  with ls_step_pop [OF I t this, of spurious] t show ?thesis by simp
next
  case (LsMoved c)
  with ls_step_moved [OF I t this] t show ?thesis by simp
next
  case (LsRelease c)
  with ls_step_release [OF I t this] t show ?thesis by simp
next
  case LsConLoad
  with ls_quiet_same [OF I t, of "LsConCas (asp_load (ls_head s))"] t show ?thesis by (simp add: ls_unowning_def ls_hand_def)
next
  case (LsConCas c)
  with ls_step_consume [OF I t this, of spurious] t show ?thesis by simp
next
  case (LsWalk c)
  with ls_step_walk [OF I t this] t show ?thesis by simp
qed (use t in simp)

lemma ls_step_follows:
  assumes I: "ls_inv_with xs ys s" and ok: "\<not> ls_wraps e s"
  shows "lands_in (ls_follows (ls_abs xs ys s)) (ls_step e s)"
proof (cases e)
  case (LsCallPush t n v)
  show ?thesis
  proof (cases "t < length (ls_pc s) \<and> ls_pc s ! t = LsIdle \<and> n \<noteq> 0 \<and> canonical n \<and> ls_heap s n = None")
    case True
    with ls_step_push [OF I, of t n v] LsCallPush show ?thesis by (simp add: ls_push_def)
  qed (use LsCallPush in \<open>auto simp: ls_push_def\<close>)
next
  case (LsCallPop t)
  with ls_quiet_call [OF I, of t "AsCallPop t" LsAcqLoad] show ?thesis by (simp add: ls_unowning_def ls_hand_def)
next
  case (LsCallConsume t)
  with ls_quiet_call [OF I, of t "AsCallConsume t" LsConLoad] show ?thesis by (simp add: ls_unowning_def ls_hand_def)
next
  case (LsRun t spurious)
  then show ?thesis using ls_run_follows [OF I _ ok [unfolded LsRun]] by (cases "t < length (ls_pc s)") simp_all
qed

text \<open>\<open>m\<close> counts the steps: it bounds the number of nodes.\<close>

definition ls_reached :: "nat \<Rightarrow> nat \<Rightarrow> 'v lf_stack \<Rightarrow> bool" where
  "ls_reached threads m s \<longleftrightarrow> (\<exists>as a. exec as_step as (as_init threads) = Next a \<and> length as \<le> m \<and> ls_sim s a)"

lemma ls_sim_init: "ls_sim (lf_stack_init threads) (as_init threads)"
proof -
  have refs: "ls_refs (replicate threads LsIdle) n = 0" for n by (simp add: ls_refs_def sum_list_replicate)
  have load: "asp_load (asp_init sp_null) = sp_null"
    using asp_load_pack [of sp_null] by (simp add: asp_init_def sp_null_def stamped_ok_def)
  have "sum_list (map mset (replicate threads ([] :: addr list))) = {#}" by (induction threads) simp_all
  then have "ls_inv_with [] (replicate threads []) (lf_stack_init threads)"
    by (simp add: ls_inv_with_def lf_stack_init_def ls_owned_def load refs loose_ok_def ls_small_def stamped_ok_def)
      (simp add: sp_null_def)
  moreover have "ls_abs [] (replicate threads []) (lf_stack_init threads) = as_init threads"
    by (simp add: ls_abs_def ls_hands_def lf_stack_init_def as_init_def ls_hand_def zip_replicate)
  ultimately show ?thesis unfolding ls_sim_def by metis
qed

lemma ls_machine: "counted_machine (barring ls_step ls_wraps) (lf_stack_init threads) (ls_reached threads) bound"
proof (rule counted_machineI)
  show "ls_reached threads 0 (lf_stack_init threads)" unfolding ls_reached_def
    by (intro exI [of _ "[]"] exI [of _ "as_init threads"]) (simp add: ls_sim_init)
next
  fix n e and s :: "'a lf_stack"
  assume r: "ls_reached threads n s"
  then obtain as xs ys where a: "exec as_step as (as_init threads) = Next (ls_abs xs ys s)" "length as \<le> n" and I: "ls_inv_with xs ys s"
    by (auto simp: ls_reached_def ls_sim_def)
  have "lands_in (ls_follows (ls_abs xs ys s)) (barring ls_step ls_wraps e s)"
    using ls_step_follows [OF I, of e] by (simp add: barring_def)
  then show "lands_in (ls_reached threads (Suc n)) (barring ls_step ls_wraps e s)"
  proof (rule lands_in_mono)
    fix s' assume "ls_follows (ls_abs xs ys s) s'"
    then show "ls_reached threads (Suc n) s'" unfolding ls_follows_def
    proof
      assume "ls_sim s' (ls_abs xs ys s)"
      with a show ?thesis unfolding ls_reached_def by (metis le_SucI)
    next
      assume "\<exists>e a'. as_step e (ls_abs xs ys s) = Next a' \<and> ls_sim s' a'"
      then obtain e a' where e: "as_step e (ls_abs xs ys s) = Next a'" "ls_sim s' a'" by blast
      have "exec as_step (as @ [e]) (as_init threads) = Next a'" using a(1) e(1) by (simp add: exec_snoc_Next)
      with a(2) e(2) show ?thesis unfolding ls_reached_def by (intro exI [of _ "as @ [e]"] exI [of _ a']) simp
    qed
  qed
qed

lemma ls_exec_reached:
  assumes "avoids ls_step ls_wraps es (lf_stack_init threads)" "exec ls_step es (lf_stack_init threads) = Next s"
  shows "ls_reached threads (length es) s"
  by (rule counted_machine.cm_exec_inv [OF ls_machine [where bound = "length es"]]) (use assms in \<open>simp_all add: exec_barring\<close>)

lemma ls_exec_no_fault:
  assumes "avoids ls_step ls_wraps es (lf_stack_init threads)"
  shows "exec ls_step es (lf_stack_init threads) \<noteq> Fault x"
  using counted_machine.cm_exec_no_fault [OF ls_machine [where bound = "length es"], of es threads x] assms by (simp add: exec_barring)

subsection \<open>Contents and destructor\<close>

text \<open>The values along the links, at most \<open>k\<close> of them.\<close>

fun ls_contents :: "nat \<Rightarrow> 'v ls_heap \<Rightarrow> stamped \<Rightarrow> 'v list" where
  "ls_contents 0 h p = []"
| "ls_contents (Suc k) h p =
     (case h (sp_raw p) of
        None \<Rightarrow> []
      | Some nd \<Rightarrow> if sp_bool p then ls_val h (sp_raw p) # ls_contents k h (nd_next nd) else [])"

text \<open>\<open>DestroySelf\<close>: the walk is given \<open>k\<close> nodes to come to its end.\<close>

fun ls_destroy_self :: "nat \<Rightarrow> 'v ls_heap \<Rightarrow> stamped \<Rightarrow> fault + 'v ls_heap" where
  "ls_destroy_self k h current =
     (if \<not> sp_bool current then Inr h
      else case k of
        0 \<Rightarrow> Inl DivergentLoop
      | Suc k' \<Rightarrow>
          (case h (sp_raw current) of
             None \<Rightarrow> Inl UseAfterFree
           | Some nd \<Rightarrow> ls_destroy_self k' (h(sp_raw current := None)) (nd_next nd)))"

declare ls_destroy_self.simps [simp del]

lemma linked_contents: "linked R h p xs \<Longrightarrow> length xs \<le> k \<Longrightarrow> ls_contents k h p = map (ls_val h) xs"
proof (induction xs arbitrary: p k)
  case Nil
  then show ?case by (cases k) (auto simp: sp_bool_def split: option.splits)
next
  case (Cons x xs)
  then obtain nd k' where "h x = Some nd" "x \<noteq> 0" "k = Suc k'" by (cases k) (auto simp: node_ok_def)
  with Cons show ?case by (auto simp: sp_bool_def)
qed

lemma linked_destroy:
  "linked R h p xs \<Longrightarrow> distinct xs \<Longrightarrow> length xs \<le> k \<Longrightarrow> (\<And>x. x \<in> set xs \<Longrightarrow> h' x = h x) \<Longrightarrow>
    ls_destroy_self k h' p = Inr (h' |` (- set xs))"
proof (induction xs arbitrary: p k h')
  case Nil
  then show ?case by (simp add: ls_destroy_self.simps [of k] sp_bool_def restrict_map_def)
next
  case (Cons x xs)
  then obtain nd k' where nd: "h x = Some nd" "x \<noteq> 0" "k = Suc k'" by (cases k) (auto simp: node_ok_def)
  have "ls_destroy_self k' (h'(x := None)) (nd_next nd) = Inr ((h'(x := None)) |` (- set xs))"
    by (rule Cons.IH) (use Cons.prems nd in auto)
  moreover have "(h'(x := None)) |` (- set xs) = h' |` (- set (x # xs))" by (auto simp: restrict_map_def fun_eq_iff)
  ultimately show ?case using Cons.prems nd by (simp add: ls_destroy_self.simps [of "Suc k'"] sp_bool_def)
qed

lemma as_act_items: "as_act e hand a = Some (hand', a') \<Longrightarrow> length (as_items a') \<le> Suc (length (as_items a))"
  by (induction e hand a rule: as_act.induct) (auto simp: as_say_def split: list.splits if_splits)

lemma as_stepD:
  assumes "as_step e a = Next b"
  obtains hand a' where "as_thread e < length (as_hands a)" "as_act e (as_hands a ! as_thread e) a = Some (hand, a')"
    "b = a'\<lparr>as_hands := (as_hands a)[as_thread e := hand]\<rparr>"
  using assms by (auto simp: as_step_def split: if_splits option.splits)

lemma as_items_bound: "exec as_step as (as_init threads) = Next a \<Longrightarrow> length (as_items a) \<le> length as"
proof (induction as arbitrary: a rule: rev_induct)
  case Nil
  then show ?case by (auto simp: as_init_def)
next
  case (snoc e as)
  then obtain b where b: "exec as_step as (as_init threads) = Next b" and step: "as_step e b = Next a" by (auto simp: exec_snoc_Next)
  from step obtain hand a' where "as_act e (as_hands b ! as_thread e) b = Some (hand, a')" "as_items a = as_items a'"
    by (rule as_stepD) auto
  with as_act_items snoc.IH [OF b] show ?case by fastforce
qed

text \<open>The plain stack neither loses nor invents a value.\<close>

fun hand_values :: "'v as_hand \<Rightarrow> 'v multiset" where
  "hand_values (Puts v) = {#v#}"
| "hand_values (Popped v) = {#v#}"
| "hand_values (Gives vs) = mset vs"
| "hand_values _ = {#}"

text \<open>What was given to \<open>Push\<close>, and what \<open>TryPop\<close> returned or \<open>func\<close> was called with, in the order of the history.\<close>

fun pushed :: "'v ls_label list \<Rightarrow> 'v list" where
  "pushed [] = []"
| "pushed (CallPush t v # ls) = v # pushed ls"
| "pushed (_ # ls) = pushed ls"

fun handed_out :: "'v ls_label list \<Rightarrow> 'v list" where
  "handed_out [] = []"
| "handed_out (RetPop t (Some v) # ls) = v # handed_out ls"
| "handed_out (Gave t v # ls) = v # handed_out ls"
| "handed_out (_ # ls) = handed_out ls"

lemma pushed_append: "pushed (ls @ ls') = pushed ls @ pushed ls'"
  by (induction ls rule: pushed.induct) simp_all

lemma handed_out_append: "handed_out (ls @ ls') = handed_out ls @ handed_out ls'"
  by (induction ls rule: handed_out.induct) simp_all

definition as_conserves :: "'v abstract_stack \<Rightarrow> bool" where
  "as_conserves a \<longleftrightarrow>
     mset (pushed (as_log a)) = mset (as_items a) + sum_list (map hand_values (as_hands a)) + mset (handed_out (as_log a))"

lemma as_act_conserves:
  "as_act e hand a = Some (hand', a') \<Longrightarrow>
    mset (pushed (as_log a')) + (mset (as_items a) + hand_values hand + mset (handed_out (as_log a))) =
    mset (pushed (as_log a)) + (mset (as_items a') + hand_values hand' + mset (handed_out (as_log a')))"
  by (induction e hand a rule: as_act.induct)
    (auto simp: as_say_def pushed_append handed_out_append split: list.splits if_splits)

lemma hand_values_split:
  "t < length hs \<Longrightarrow> \<exists>Z. sum_list (map hand_values hs) = hand_values (hs ! t) + Z \<and>
    (\<forall>x. sum_list (map hand_values (hs[t := x])) = hand_values x + Z)"
proof (induction hs arbitrary: t)
  case (Cons h hs)
  show ?case
  proof (cases t)
    case (Suc u)
    with Cons obtain Z where "sum_list (map hand_values hs) = hand_values (hs ! u) + Z"
      "\<forall>x. sum_list (map hand_values (hs[u := x])) = hand_values x + Z" by (metis Suc_less_eq length_Cons)
    with Suc show ?thesis by (intro exI [of _ "hand_values h + Z"]) simp
  qed auto
qed simp

lemma as_act_hands: "as_act e hand a = Some (hand', a') \<Longrightarrow> as_hands a' = as_hands a"
  by (induction e hand a rule: as_act.induct) (auto simp: as_say_def split: list.splits if_splits)

lemma as_step_conserves: "as_conserves a \<Longrightarrow> as_step e a = Next b \<Longrightarrow> as_conserves b"
proof -
  assume C: "as_conserves a" and "as_step e a = Next b"
  then obtain hand a' where t: "as_thread e < length (as_hands a)" and act: "as_act e (as_hands a ! as_thread e) a = Some (hand, a')"
    and b: "b = a'\<lparr>as_hands := (as_hands a)[as_thread e := hand]\<rparr>" by (auto elim: as_stepD)
  obtain Z where Z: "sum_list (map hand_values (as_hands a)) = hand_values (as_hands a ! as_thread e) + Z"
    "sum_list (map hand_values ((as_hands a)[as_thread e := hand])) = hand_values hand + Z" using hand_values_split [OF t] by blast
  let ?c = "\<lambda>h a. mset (as_items a) + hand_values h + mset (handed_out (as_log a))"
  have "mset (pushed (as_log a')) + mset (pushed (as_log a)) = mset (pushed (as_log a')) + ?c (as_hands a ! as_thread e) a + Z"
    using C by (simp add: as_conserves_def Z(1) ac_simps)
  also have "\<dots> = mset (pushed (as_log a)) + (?c hand a' + Z)" unfolding as_act_conserves [OF act] by (simp only: add.assoc)
  finally have "mset (pushed (as_log a')) = ?c hand a' + Z" by (simp only: add.commute [of "mset (pushed (as_log a'))"] add_left_cancel)
  then show "as_conserves b" unfolding as_conserves_def b using Z(2) by (simp add: ac_simps)
qed

lemma as_exec_conserves: "exec as_step as (as_init threads) = Next a \<Longrightarrow> as_conserves a"
proof (induction as arbitrary: a rule: rev_induct)
  case Nil
  have "sum_list (map hand_values (replicate threads Rests)) = {#}" by (induction threads) simp_all
  with Nil show ?case by (auto simp: as_init_def as_conserves_def)
qed (auto simp: exec_snoc_Next dest: as_step_conserves)

lemma ls_reached_items:
  assumes "ls_reached threads m s"
  obtains as xs ys where "exec as_step as (as_init threads) = Next (ls_abs xs ys s)" "length as \<le> m" "ls_inv_with xs ys s" "length xs \<le> m"
proof -
  from assms obtain as xs ys where a: "exec as_step as (as_init threads) = Next (ls_abs xs ys s)" "length as \<le> m" "ls_inv_with xs ys s"
    by (auto simp: ls_reached_def ls_sim_def)
  from as_items_bound [OF a(1)] a(2) have "length xs \<le> m" by (simp add: ls_abs_def)
  with a that show ?thesis by blast
qed

text \<open>When no call is in progress, the nodes in memory are those of the stack.\<close>

lemma ls_idle_owns:
  assumes I: "ls_inv_with xs ys s" and idle: "\<forall>p\<in>set (ls_pc s). p = LsIdle" and t: "t < length ys"
  shows "ys ! t = []" "ls_pc s ! t = LsIdle"
proof -
  show "ls_pc s ! t = LsIdle" using t lsI(1) [OF I] by (intro idle [rule_format] nth_mem) simp
  with lsI(4) [OF I t] show "ys ! t = []" by simp
qed

lemma no_hand_values: "\<forall>h\<in>set hs. h = Rests \<Longrightarrow> sum_list (map hand_values hs) = {#}"
  by (induction hs) simp_all

lemma ls_idle_hands:
  assumes I: "ls_inv_with xs ys s" and idle: "\<forall>p\<in>set (ls_pc s). p = LsIdle"
  shows "sum_list (map hand_values (as_hands (ls_abs xs ys s))) = {#}"
proof -
  have "h = Rests" if "h \<in> set (as_hands (ls_abs xs ys s))" for h
  proof -
    from that obtain t where "t < length (as_hands (ls_abs xs ys s))" "h = as_hands (ls_abs xs ys s) ! t" by (metis in_set_conv_nth)
    with hands_length [OF I] hands_nth [OF I, of t] ls_idle_owns [OF I idle, of t] lsI(1) [OF I] show ?thesis by (simp add: ls_hand_def)
  qed
  then show ?thesis by (intro no_hand_values) blast
qed

lemma ls_idle_heap:
  assumes I: "ls_inv_with xs ys s" and idle: "\<forall>p\<in>set (ls_pc s). p = LsIdle"
  shows "ls_heap s n = None \<longleftrightarrow> n \<notin> set xs" "distinct xs"
proof -
  have "z = []" if "z \<in> set ys" for z using that ls_idle_owns(1) [OF I idle] by (metis in_set_conv_nth)
  then have "sum_list (map mset ys) = {#}" by (induction ys) auto
  then have own: "ls_owned xs ys = mset xs" by (simp add: ls_owned_def)
  have "\<not> ls_refers n p" if "p \<in> set (ls_pc s)" for p using idle that by auto
  then have R: "ls_refs (ls_pc s) n = 0" unfolding ls_refs_def by (induction "ls_pc s") simp_all
  show "ls_heap s n = None \<longleftrightarrow> n \<notin> set xs"
  proof
    assume "n \<notin> set xs"
    then have "n \<notin># ls_owned xs ys" by (simp add: own)
    from lsI(5) [OF I this] R show "ls_heap s n = None" by (auto simp: loose_ok_def split: option.splits)
  qed (use linked_in_heap [OF lsI(3) [OF I], of n] in \<open>auto simp: node_ok_def\<close>)
  have "count (mset xs) x = (if x \<in> set xs then 1 else 0)" for x
    using lsI(2) [OF I, of x] count_mset_0_iff [of xs x] unfolding own by (cases "count (mset xs) x") auto
  then show "distinct xs" by (simp add: distinct_count_atmost_1)
qed

subsection \<open>Concrete runs\<close>

definition ls_two_pushes :: "nat ls_event list" where
  "ls_two_pushes = [LsCallPush 0 16 7, LsRun 0 False, LsCallPush 0 32 8, LsRun 0 False, LsRun 0 False]"

text \<open>Two threads acquire the same node; the second takes it out, and the first gives it up, deletes it and takes the other.\<close>

definition ls_race :: "nat ls_event list" where
  "ls_race = ls_two_pushes @ [LsCallPop 0, LsRun 0 False, LsRun 0 False, LsCallPop 1, LsRun 1 False, LsRun 1 False,
     LsRun 0 False, LsRun 1 False, LsRun 1 False, LsRun 0 False, LsRun 0 False, LsRun 0 False, LsRun 0 False, LsRun 0 False]"

lemma canonical_small: "p < 2 ^ 47 \<Longrightarrow> canonical p"
proof -
  assume "p < 2 ^ 47"
  then have "p = take_bit 47 p" by (simp only: take_bit_eq_mask less_mask_eq)
  then have "\<not> bit p i" if "47 \<le> i" for i using that by (metis bit_take_bit_iff not_le)
  then show ?thesis by (simp add: canonical_def)
qed

lemma asp_load_run: "canonical p \<Longrightarrow> n < 2 ^ 16 \<Longrightarrow> asp_load (pk_pack \<lparr>sp_raw = p, sp_stamp = n\<rparr>) = \<lparr>sp_raw = p, sp_stamp = n\<rparr>"
  by (rule asp_load_pack) (simp add: stamped_ok_def)

lemma asp_cas_run:
  assumes "canonical (sp_raw e)" "sp_stamp e < 2 ^ 16" "canonical (sp_raw d)" "sp_stamp d < 2 ^ 16" "canonical p" "n < 2 ^ 16"
  shows "asp_cas_weak spurious e d (pk_pack \<lparr>sp_raw = p, sp_stamp = n\<rparr>) =
    (if \<lparr>sp_raw = p, sp_stamp = n\<rparr> = e \<and> \<not> spurious then (True, e, pk_pack d)
     else (False, \<lparr>sp_raw = p, sp_stamp = n\<rparr>, pk_pack \<lparr>sp_raw = p, sp_stamp = n\<rparr>))"
  using asp_cas_eq [of e spurious d "pk_pack \<lparr>sp_raw = p, sp_stamp = n\<rparr>"] asp_load_run [OF assms(5,6)] assms(1-4)
  by (simp add: stamped_ok_def)

lemmas ls_run_simps = ls_defs asp_init_def sp_bool_def sp_increment_def asp_load_run asp_cas_run canonical_small atomic_simps

lemma replicate_two: "replicate 2 x = [x, x]"
  by (simp add: numeral_2_eq_2)

definition ls_race_log :: "nat ls_label list" where
  "ls_race_log = [CallPush 0 7, RetPush 0, CallPush 0 8, RetPush 0, CallPop 0, CallPop 1, RetPop 1 (Some 8), RetPop 0 (Some 7)]"

lemma ls_race_ends:
  "\<exists>s. exec ls_step ls_race (lf_stack_init 2) = Next s \<and> ls_log s = ls_race_log \<and> (\<forall>p\<in>set (ls_pc s). p = LsIdle)"
  by (simp add: ls_race_def ls_race_log_def ls_two_pushes_def ls_run_simps replicate_two)

lemma ls_race_avoids: "avoids ls_step ls_wraps ls_race (lf_stack_init 2)"
  by (simp add: ls_race_def ls_two_pushes_def ls_wraps_def pk_max_stamp_def pk_free_bits_def push_bit_eq_mult ls_run_simps replicate_two)

lemma ls_contents_reached:
  assumes I: "ls_inv_with xs ys s" and "length xs \<le> k"
  shows "ls_contents k (ls_heap s) (asp_load (ls_head s)) = as_items (ls_abs xs ys s)"
  using linked_contents [OF lsI(3) [OF I]] assms(2) by (simp add: ls_abs_def)

lemma ls_is_empty_reached: "ls_inv_with xs ys s \<Longrightarrow> ls_is_empty s \<longleftrightarrow> as_items (ls_abs xs ys s) = []"
  using lsI(3) [of xs ys s] by (cases xs) (auto simp: ls_is_empty_def sp_is_null_def ls_abs_def node_ok_def)

subsection \<open>Properties\<close>

text \<open>
  C31. The lock-free stack is linearizable. Take any run of \<open>Push\<close>, \<open>TryPop\<close> and \<open>ConsumeAll\<close>, of any length, with any
  interleaving of any number of threads, addresses that come back after they were freed, and exchanges that fail
  without reason, in which no node is acquired once more when its 16-bit stamp is at its maximum. A plain
  stack, on which each call takes effect in one atomic step between its call and its return, has a run with the same history:
  the same calls and returns with the same values, in the same order. The values along the links are those of the
  plain stack, newest first, and \<open>IsEmpty\<close> says when there are none.
\<close>

theorem lf_stack_refines:
  assumes "exec ls_step es (lf_stack_init threads) = Next s" and "avoids ls_step ls_wraps es (lf_stack_init threads)"
  shows "\<exists>as a. exec as_step as (as_init threads) = Next a \<and> as_log a = ls_log s \<and>
    as_items a = ls_contents (length es) (ls_heap s) (asp_load (ls_head s)) \<and> (ls_is_empty s \<longleftrightarrow> as_items a = [])"
proof -
  from ls_reached_items [OF ls_exec_reached [OF assms(2,1)]] obtain as xs ys where a: "exec as_step as (as_init threads) = Next (ls_abs xs ys s)"
    and I: "ls_inv_with xs ys s" and xs: "length xs \<le> length es" by blast
  from ls_contents_reached [OF I xs] ls_is_empty_reached [OF I] a show ?thesis
    by (intro exI [of _ as] exI [of _ "ls_abs xs ys s"]) (simp add: ls_abs_def)
qed

text \<open>In the race two calls of \<open>TryPop\<close> overlap; the one that was called later takes the newer value and returns first.\<close>

theorem lf_stack_refines_witness:
  "\<exists>s as a. exec ls_step ls_race (lf_stack_init 2) = Next s \<and> ls_log s = ls_race_log \<and>
     exec as_step as (as_init 2) = Next a \<and> as_log a = ls_race_log \<and> as_items a = ls_contents (length ls_race) (ls_heap s) (asp_load (ls_head s))"
proof -
  from ls_race_ends obtain s where s: "exec ls_step ls_race (lf_stack_init 2) = Next s" "ls_log s = ls_race_log" by blast
  from lf_stack_refines [OF s(1) ls_race_avoids] s show ?thesis by metis
qed

text \<open>
  The history does fix the order: a thread that has pushed 7 and then 8 cannot be given 7 by its next \<open>TryPop\<close>. What the plain
  stack holds follows from the history.
\<close>

definition two_pushed_log :: "nat ls_label list" where
  "two_pushed_log = [CallPush 0 7, RetPush 0, CallPush 0 8, RetPush 0, CallPop 0]"

lemma as_log_fixes_state:
  assumes "exec as_step as (as_init 1) = Next a"
  shows "(as_log a = [] \<longrightarrow> as_items a = [] \<and> as_hands a = [Rests]) \<and>
    (as_log a = take 1 two_pushed_log \<longrightarrow> as_items a = [] \<and> as_hands a = [Puts 7]) \<and>
    (as_log a = take 2 two_pushed_log \<longrightarrow> as_items a = [7] \<and> as_hands a = [Rests]) \<and>
    (as_log a = take 3 two_pushed_log \<longrightarrow> as_items a = [7] \<and> as_hands a = [Puts 8]) \<and>
    (as_log a = take 4 two_pushed_log \<longrightarrow> as_items a = [8, 7] \<and> as_hands a = [Rests]) \<and>
    (as_log a = two_pushed_log \<longrightarrow> (as_items a, as_hands a) \<in> {([8, 7], [Pops]), ([7], [Popped 8])}) \<and>
    length (as_hands a) = 1 \<and> as_log a \<noteq> two_pushed_log @ [RetPop 0 (Some 7)]"
  using assms
proof (induction as arbitrary: a rule: rev_induct)
  case Nil
  then show ?case by (auto simp: as_init_def two_pushed_log_def)
next
  case (snoc e as)
  then obtain b where b: "exec as_step as (as_init 1) = Next b" and step: "as_step e b = Next a" by (auto simp: exec_snoc_Next)
  note I = snoc.IH [OF b]
  from I obtain h where h: "as_hands b = [h]" by (auto simp: length_Suc_conv)
  from step obtain hand a' where act: "as_thread e = 0" "as_act e h b = Some (hand, a')" "a = a'\<lparr>as_hands := [hand]\<rparr>"
    by (rule as_stepD) (simp add: h)
  show ?case using I act h
    by (cases "(e, h, b)" rule: as_act.cases)
      (auto simp: as_say_def two_pushed_log_def snoc_eq_iff_butlast split: list.splits if_splits)
qed

lemma as_log_newest_first: "exec as_step as (as_init 1) = Next a \<Longrightarrow> as_log a \<noteq> two_pushed_log @ [RetPop 0 (Some 7)]"
  using as_log_fixes_state by blast

text \<open>
  Nothing is lost, duplicated or made up: whenever no call is in progress, the values pushed so far are those handed
  out and those along the links, each as often.
\<close>

theorem lf_stack_conserves:
  assumes "exec ls_step es (lf_stack_init threads) = Next s" and "avoids ls_step ls_wraps es (lf_stack_init threads)"
    and "\<forall>p\<in>set (ls_pc s). p = LsIdle"
  shows "mset (pushed (ls_log s)) = mset (handed_out (ls_log s)) + mset (ls_contents (length es) (ls_heap s) (asp_load (ls_head s)))"
proof -
  from ls_reached_items [OF ls_exec_reached [OF assms(2,1)]] obtain as xs ys where
    a: "exec as_step as (as_init threads) = Next (ls_abs xs ys s)"
    and I: "ls_inv_with xs ys s" and xs: "length xs \<le> length es" by blast
  from as_exec_conserves [OF a] ls_idle_hands [OF I assms(3)] ls_contents_reached [OF I xs] show ?thesis
    by (simp add: as_conserves_def) (simp add: ls_abs_def ac_simps)
qed

theorem lf_stack_conserves_witness:
  "\<exists>s. exec ls_step ls_race (lf_stack_init 2) = Next s \<and> pushed (ls_log s) = [7, 8] \<and> handed_out (ls_log s) = [8, 7] \<and>
     mset (pushed (ls_log s)) = mset (handed_out (ls_log s)) + mset (ls_contents (length ls_race) (ls_heap s) (asp_load (ls_head s)))"
proof -
  from ls_race_ends obtain s where s: "exec ls_step ls_race (lf_stack_init 2) = Next s" "ls_log s = ls_race_log"
    "\<forall>p\<in>set (ls_pc s). p = LsIdle" by blast
  from lf_stack_conserves [OF s(1) ls_race_avoids s(3)] s(1,2) show ?thesis by (simp add: ls_race_log_def)
qed

text \<open>
  C32. Memory is reclaimed safely and completely, in runs of any length in which no node is acquired once more when its
  16-bit stamp is at its maximum. No step reads or frees a node that is not alive and no value is taken
  twice; whenever no call is in progress, the only nodes in memory are those of the stack, and the destructor frees
  them all.
\<close>

theorem lf_stack_memory:
  assumes "avoids ls_step ls_wraps es (lf_stack_init threads)"
  shows "lands_in (\<lambda>s. (\<forall>p\<in>set (ls_pc s). p = LsIdle) \<longrightarrow>
    ls_destroy_self (length es) (ls_heap s) (asp_load (ls_head s)) = Inr Map.empty) (exec ls_step es (lf_stack_init threads))"
proof (cases "exec ls_step es (lf_stack_init threads)")
  case (Next s)
  from ls_reached_items [OF ls_exec_reached [OF assms Next]] obtain as xs ys where
    I: "ls_inv_with xs ys s" and xs: "length xs \<le> length es" by blast
  have "ls_destroy_self (length es) (ls_heap s) (asp_load (ls_head s)) = Inr (ls_heap s |` (- set xs))"
    if idle: "\<forall>p\<in>set (ls_pc s). p = LsIdle"
    by (rule linked_destroy [OF lsI(3) [OF I] ls_idle_heap(2) [OF I idle] xs]) simp
  moreover have "ls_heap s |` (- set xs) = Map.empty" if idle: "\<forall>p\<in>set (ls_pc s). p = LsIdle"
    using ls_idle_heap(1) [OF I idle] by (auto simp: restrict_map_def fun_eq_iff)
  ultimately show ?thesis using Next by simp
next
  case (Fault x)
  with ls_exec_no_fault [OF assms] show ?thesis by blast
qed simp

theorem lf_stack_memory_witness:
  "\<exists>s. exec ls_step ls_two_pushes (lf_stack_init 2) = Next s \<and> ls_heap s 16 \<noteq> None \<and>
     ls_destroy_self 5 (ls_heap s) (asp_load (ls_head s)) = Inr Map.empty"
proof -
  have "\<exists>s. exec ls_step ls_two_pushes (lf_stack_init 2) = Next s \<and> ls_heap s 16 \<noteq> None \<and> (\<forall>p\<in>set (ls_pc s). p = LsIdle)"
    by (simp add: ls_two_pushes_def ls_run_simps replicate_two)
  then obtain s where s: "exec ls_step ls_two_pushes (lf_stack_init 2) = Next s" "ls_heap s 16 \<noteq> None" "\<forall>p\<in>set (ls_pc s). p = LsIdle" by blast
  have "avoids ls_step ls_wraps ls_two_pushes (lf_stack_init 2)"
    by (simp add: ls_two_pushes_def ls_wraps_def ls_run_simps replicate_two)
  note mem = lf_stack_memory [OF this]
  have "length ls_two_pushes = 5" by (simp add: ls_two_pushes_def)
  with mem s show ?thesis by simp
qed

end
