(* ===== verification/Lockfree_Fifo.thy ===== *)
theory Lockfree_Fifo
  imports Lockfree_Stack
begin

section \<open>The lock-free queue made of two stacks\<close>

text \<open>
  \<open>concurrency/lockfree/queue.h\<close>. \<open>Put\<close> pushes on \<open>main_\<close>. \<open>Take\<close> pops from \<open>reserve_\<close>; when that is empty it first takes
  everything from \<open>main_\<close> and pushes it, newest first, on \<open>reserve_\<close>. Here the two stacks are plain lists whose
  operations are atomic, and a consumer makes one step per operation on a stack. \<open>lf_stack_refines\<close> shows that
  \<open>LockFreeStack\<close> has no other histories, as long as no stamp exceeds its 16 bits; the queue is not composed with the
  steps inside the stack. Producers are anybody.
\<close>

datatype 'v lq_pc =
    LqIdle
  | LqTake bool              \<comment> \<open>\<open>Take\<close>: about to ask whether the reserve is empty; inside \<open>TakeAll\<close>?\<close>
  | LqConsume bool           \<comment> \<open>about to take everything from \<open>main_\<close>\<close>
  | LqMove bool "'v list"    \<comment> \<open>in the callback: these are still to be pushed on \<open>reserve_\<close>\<close>
  | LqTryPop bool

record 'v lf_queue =
  lq_main :: "'v list"
  lq_reserve :: "'v list"
  lq_pc :: "'v lq_pc list"
  lq_put :: "'v list"
  lq_got :: "'v option list"

datatype 'v lq_event = LqPut 'v | LqCallTake nat | LqCallTakeAll nat | LqRun nat

definition lf_queue_init :: "nat \<Rightarrow> 'v lf_queue" where
  "lf_queue_init consumers = \<lparr>lq_main = [], lq_reserve = [], lq_pc = replicate consumers LqIdle, lq_put = [], lq_got = []\<rparr>"

definition lq_goto :: "nat \<Rightarrow> 'v lq_pc \<Rightarrow> 'v lf_queue \<Rightarrow> 'v lf_queue" where
  "lq_goto t p s = s\<lparr>lq_pc := (lq_pc s)[t := p]\<rparr>"

definition lq_put_value :: "'v \<Rightarrow> 'v lf_queue \<Rightarrow> 'v lf_queue" where
  "lq_put_value v s = s\<lparr>lq_main := v # lq_main s, lq_put := lq_put s @ [v]\<rparr>"

definition lq_check :: "nat \<Rightarrow> bool \<Rightarrow> 'v lf_queue \<Rightarrow> 'v lf_queue" where
  "lq_check t all s = lq_goto t (if lq_reserve s = [] then LqConsume all else LqTryPop all) s"

definition lq_consume :: "nat \<Rightarrow> bool \<Rightarrow> 'v lf_queue \<Rightarrow> 'v lf_queue" where
  "lq_consume t all s = lq_goto t (LqMove all (lq_main s)) (s\<lparr>lq_main := []\<rparr>)"

definition lq_move :: "nat \<Rightarrow> bool \<Rightarrow> 'v list \<Rightarrow> 'v lf_queue \<Rightarrow> 'v lf_queue" where
  "lq_move t all vs s =
     (case vs of
        [] \<Rightarrow> lq_goto t (LqTryPop all) s
      | v # vs' \<Rightarrow> lq_goto t (LqMove all vs') (s\<lparr>lq_reserve := v # lq_reserve s\<rparr>))"

text \<open>\<open>TryPop\<close>; \<open>TakeAll\<close> goes on until there is nothing.\<close>

definition lq_try_pop :: "nat \<Rightarrow> bool \<Rightarrow> 'v lf_queue \<Rightarrow> 'v lf_queue" where
  "lq_try_pop t all s =
     (case lq_reserve s of
        [] \<Rightarrow> lq_goto t LqIdle (s\<lparr>lq_got := lq_got s @ [None]\<rparr>)
      | v # vs \<Rightarrow> lq_goto t (if all then LqTake all else LqIdle) (s\<lparr>lq_reserve := vs, lq_got := lq_got s @ [Some v]\<rparr>))"

definition lq_is_empty :: "'v lf_queue \<Rightarrow> bool" where
  "lq_is_empty s \<longleftrightarrow> lq_main s = [] \<and> lq_reserve s = []"

fun lq_step :: "'v lq_event \<Rightarrow> 'v lf_queue \<Rightarrow> 'v lf_queue outcome" where
  "lq_step (LqPut v) s = Next (lq_put_value v s)"
| "lq_step (LqCallTake t) s = (if t < length (lq_pc s) \<and> lq_pc s ! t = LqIdle then Next (lq_goto t (LqTake False) s) else Disabled)"
| "lq_step (LqCallTakeAll t) s = (if t < length (lq_pc s) \<and> lq_pc s ! t = LqIdle then Next (lq_goto t (LqTake True) s) else Disabled)"
| "lq_step (LqRun t) s =
     (if \<not> t < length (lq_pc s) then Disabled
      else case lq_pc s ! t of
        LqIdle \<Rightarrow> Disabled
      | LqTake all \<Rightarrow> Next (lq_check t all s)
      | LqConsume all \<Rightarrow> Next (lq_consume t all s)
      | LqMove all vs \<Rightarrow> Next (lq_move t all vs s)
      | LqTryPop all \<Rightarrow> Next (lq_try_pop t all s))"

lemmas lq_defs =
  lf_queue_init_def lq_goto_def lq_put_value_def lq_check_def lq_consume_def lq_move_def lq_try_pop_def lq_is_empty_def

subsection \<open>One consumer\<close>

text \<open>The first-in first-out queue: what it holds, oldest first, and what was taken.\<close>

record 'v fifo =
  ff_items :: "'v list"
  ff_put :: "'v list"
  ff_got :: "'v option list"

datatype 'v ff_event = FfPut 'v | FfTake

definition fifo_init :: "'v fifo" where
  "fifo_init = \<lparr>ff_items = [], ff_put = [], ff_got = []\<rparr>"

fun ff_step :: "'v ff_event \<Rightarrow> 'v fifo \<Rightarrow> 'v fifo outcome" where
  "ff_step (FfPut v) q = Next (q\<lparr>ff_items := ff_items q @ [v], ff_put := ff_put q @ [v]\<rparr>)"
| "ff_step FfTake q =
     (case ff_items q of
        [] \<Rightarrow> Next (q\<lparr>ff_got := ff_got q @ [None]\<rparr>)
      | v # vs \<Rightarrow> Next (q\<lparr>ff_items := vs, ff_got := ff_got q @ [Some v]\<rparr>))"

text \<open>
  The order: first the part of the chain still to be moved, its end first, then the reserve, then the main stack from
  below. A consumer that found \<open>main_\<close> empty has taken its decision: it answers with nothing.
\<close>

fun lq_moving :: "'v lq_pc \<Rightarrow> 'v list" where
  "lq_moving (LqMove all vs) = rev vs"
| "lq_moving _ = []"

fun lq_decided :: "'v list \<Rightarrow> 'v lq_pc \<Rightarrow> 'v option list" where
  "lq_decided [] (LqMove all []) = [None]"
| "lq_decided [] (LqTryPop all) = [None]"
| "lq_decided _ _ = []"

lemma lq_decided_nonempty [simp]: "xs \<noteq> [] \<Longrightarrow> lq_decided xs p = []"
  by (cases xs) simp_all

definition lq_abs :: "'v lf_queue \<Rightarrow> 'v fifo" where
  "lq_abs s = \<lparr>ff_items = lq_moving (lq_pc s ! 0) @ lq_reserve s @ rev (lq_main s), ff_put = lq_put s,
     ff_got = lq_got s @ lq_decided (lq_reserve s) (lq_pc s ! 0)\<rparr>"

definition lq_inv :: "'v lf_queue \<Rightarrow> bool" where
  "lq_inv s \<longleftrightarrow> length (lq_pc s) = 1 \<and> (case lq_pc s ! 0 of LqConsume all \<Rightarrow> lq_reserve s = [] | _ \<Rightarrow> True)"

lemma one_thread: "length xs = Suc 0 \<longleftrightarrow> (\<exists>x. xs = [x])"
  by (auto simp: length_Suc_conv)

lemma lq_step_inv: "lq_inv s \<Longrightarrow> lands_in lq_inv (lq_step e s)"
proof -
  assume I: "lq_inv s"
  then obtain p where p: "lq_pc s = [p]" "(case p of LqConsume all \<Rightarrow> lq_reserve s = [] | _ \<Rightarrow> True)" by (auto simp: lq_inv_def one_thread)
  show ?thesis
  proof (cases e)
    case (LqRun t)
    with p show ?thesis by (cases p) (simp_all add: lq_inv_def lq_defs split: list.splits)
  qed (use p in \<open>cases p; simp add: lq_inv_def lq_defs\<close>)+
qed

lemma lq_machine: "guarded_machine lq_step (lf_queue_init 1) lq_inv"
  by (rule guarded_machineI [OF _ lq_step_inv]) (simp add: lq_inv_def lq_defs)

lemma lq_step_abs:
  assumes "lq_inv s" "lq_step e s = Next s'"
  shows "lq_abs s' = lq_abs s \<or> (\<exists>a. ff_step a (lq_abs s) = Next (lq_abs s'))"
proof -
  from assms(1) obtain p where p: "lq_pc s = [p]" by (auto simp: lq_inv_def one_thread)
  show ?thesis
  proof (cases e)
    case (LqPut v)
    with assms(2) p have "ff_step (FfPut v) (lq_abs s) = Next (lq_abs s')" by (auto simp: lq_abs_def lq_defs)
    then show ?thesis by blast
  next
    case (LqRun t)
    show ?thesis
    proof (cases p)
      case (LqConsume all)
      with assms LqRun p have s': "lq_reserve s = []" "s' = lq_consume t all s" "t = 0" by (auto simp: lq_inv_def split: if_splits)
      show ?thesis
      proof (cases "lq_main s")
        case Nil
        with s' p LqConsume have "ff_step FfTake (lq_abs s) = Next (lq_abs s')" by (simp add: lq_abs_def lq_defs)
        then show ?thesis by blast
      next
        case (Cons v vs)
        with s' p LqConsume show ?thesis by (simp add: lq_abs_def lq_defs)
      qed
    next
      case (LqMove all vs)
      with assms(2) LqRun p show ?thesis by (cases "lq_reserve s"; cases vs) (auto simp: lq_abs_def lq_defs split: if_splits)
    next
      case (LqTryPop all)
      with assms(2) LqRun p have s': "s' = lq_try_pop t all s" "t = 0" by (auto split: if_splits)
      show ?thesis
      proof (cases "lq_reserve s")
        case Nil
        with s' p LqTryPop show ?thesis by (simp add: lq_abs_def lq_defs)
      next
        case (Cons v vs)
        with s' p LqTryPop have "ff_step FfTake (lq_abs s) = Next (lq_abs s')" by (cases vs) (simp_all add: lq_abs_def lq_defs)
        then show ?thesis by blast
      qed
    qed (use assms(2) LqRun p in \<open>auto simp: lq_abs_def lq_defs split: if_splits list.splits\<close>)
  qed (use assms(2) p in \<open>auto simp: lq_abs_def lq_defs split: if_splits\<close>)
qed

interpretation lq: machine_refinement lq_step "lf_queue_init 1" "\<lambda>_. lq_inv" bound ff_step lq_abs for bound
  by (intro machine_refinement.intro machine_refinement_axioms.intro guarded_machine.gm_counted [OF lq_machine] lq_step_abs)

text \<open>The values among the answers of \<open>Take\<close>.\<close>

fun delivered :: "'v option list \<Rightarrow> 'v list" where
  "delivered [] = []"
| "delivered (None # os) = delivered os"
| "delivered (Some v # os) = v # delivered os"

lemma delivered_append: "delivered (os @ os') = delivered os @ delivered os'"
  by (induction os rule: delivered.induct) simp_all

text \<open>What a first-in first-out queue gives is what was put, in that order.\<close>

lemma ff_exec_fifo: "exec ff_step as fifo_init = Next q \<Longrightarrow> ff_put q = delivered (ff_got q) @ ff_items q"
proof (induction as arbitrary: q rule: rev_induct)
  case Nil
  then show ?case by (auto simp: fifo_init_def)
next
  case (snoc e as)
  then obtain r where "ff_put r = delivered (ff_got r) @ ff_items r" "ff_step e r = Next q" by (auto simp: exec_snoc_Next)
  then show ?case by (cases e) (auto simp: delivered_append split: list.splits)
qed

subsection \<open>Properties\<close>

text \<open>
  C33. On two stacks whose operations are atomic, with one consumer, the queue is a first-in first-out queue: whatever the
  producers do meanwhile, every run of \<open>Take\<close> and \<open>TakeAll\<close> is a run of a queue that appends what is put and takes the
  oldest value in one atomic step, and answers with nothing only when there is none. So, when the consumer is outside its
  calls, the values given out and those still inside are what was put, in that order.
\<close>

theorem lf_queue_fifo:
  assumes "exec lq_step es (lf_queue_init 1) = Next s"
  shows "\<exists>as q. exec ff_step as fifo_init = Next q \<and> ff_put q = lq_put s \<and>
    (lq_pc s = [LqIdle] \<longrightarrow> ff_got q = lq_got s \<and> lq_put s = delivered (lq_got s) @ lq_reserve s @ rev (lq_main s))"
proof -
  have "\<exists>as. exec ff_step as (lq_abs (lf_queue_init 1)) = Next (lq_abs s)" by (rule lq.mr_exec [OF assms]) (rule order_refl)
  then obtain as where as: "exec ff_step as fifo_init = Next (lq_abs s)" by (auto simp: lq_defs lq_abs_def fifo_init_def)
  have "lq_put s = delivered (lq_got s) @ lq_reserve s @ rev (lq_main s) \<and> ff_got (lq_abs s) = lq_got s" if "lq_pc s = [LqIdle]"
    using ff_exec_fifo [OF as] that by (simp add: lq_abs_def)
  with as show ?thesis by (intro exI [of _ as] exI [of _ "lq_abs s"]) (simp add: lq_abs_def)
qed

definition lq_take_run :: "nat lq_event list" where
  "lq_take_run = [LqPut 1, LqPut 2, LqCallTake 0, LqRun 0, LqRun 0, LqPut 3, LqRun 0, LqRun 0, LqRun 0, LqRun 0, LqCallTakeAll 0,
     LqRun 0, LqRun 0, LqRun 0, LqRun 0, LqRun 0, LqRun 0, LqRun 0, LqRun 0, LqRun 0, LqRun 0, LqRun 0]"

theorem lf_queue_fifo_witness:
  "\<exists>s as q. exec lq_step lq_take_run (lf_queue_init 1) = Next s \<and> exec ff_step as fifo_init = Next q \<and>
     lq_got s = [Some 1, Some 2, Some 3, None] \<and> ff_put q = lq_put s \<and> ff_got q = lq_got s"
proof -
  have "\<exists>s. exec lq_step lq_take_run (lf_queue_init 1) = Next s \<and> lq_got s = [Some 1, Some 2, Some 3, None] \<and> lq_pc s = [LqIdle]"
    by (simp add: lq_take_run_def lq_defs)
  then obtain s where s: "exec lq_step lq_take_run (lf_queue_init 1) = Next s" "lq_got s = [Some 1, Some 2, Some 3, None]" "lq_pc s = [LqIdle]"
    by blast
  from lf_queue_fifo [OF s(1)] s show ?thesis by auto
qed

text \<open>
  With two consumers it is not: while one is moving the values to the reserve, the other finds the newest of them there.
\<close>

lemma lf_queue_two_consumers:
  "\<exists>s. exec lq_step [LqPut (1 :: nat), LqPut 2, LqCallTake 0, LqRun 0, LqRun 0, LqRun 0, LqCallTake 1, LqRun 1, LqRun 1] (lf_queue_init 2) = Next s \<and>
     lq_put s = [1, 2] \<and> lq_got s = [Some 2]"
  by (simp add: lq_defs replicate_two)

end
