(* ===== verification/Futex.thy ===== *)
theory Futex
  imports Prelude "HOL-Library.Sublist"
begin

section \<open>Waiting for a change: SpinLock and FutexLike\<close>

text \<open>
  \<open>concurrency/spinlock.h\<close>, \<open>fibers/sync/detail/futex.h\<close>. A fiber that is about to wait remembers the epoch
  (\<open>PrepareWait\<close>); \<open>ParkIfEqual\<close> parks it under the spin lock unless a wake call has changed the epoch since. The spin lock is
  given back by \<open>AwaitSuspend\<close>, after the fiber has been suspended. A wake call takes fibers out of the list under the
  lock and resumes them after it.

  A \<open>FutexAwaiter\<close> lives on the stack of its fiber, one at a time, and is named by the fiber. \<open>std::unique_lock::unlock\<close>
  unlocks the device and then clears the flag \<open>_M_owns\<close> of the lock object, which here is inside the awaiter: two steps,
  \<open>fx_await_suspend\<close> and \<open>fx_clear_flag\<close>. A fiber that is resumed and returns between them, \<open>fx_early\<close>, finds its awaiter
  with the flag set; the steps allow it, and \<open>futex_split_unlock_overlaps\<close> and \<open>futex_split_unlock_faults\<close> show what it
  does. The properties are of the runs that avoid it.

  \<open>wheels::IntrusiveList\<close> is not in the repository: it is a parameter \<open>D\<close> with the laws of the locale \<open>node_list\<close>.
\<close>

subsection \<open>The list class\<close>

record 'l list_ops =
  nl_new :: 'l
  nl_push_back :: "'l \<Rightarrow> tid \<Rightarrow> 'l"
  nl_pop_front :: "'l \<Rightarrow> tid \<times> 'l"
  nl_append :: "'l \<Rightarrow> 'l \<Rightarrow> 'l \<times> 'l"    \<comment> \<open>\<open>a.Append(b)\<close>: the new \<open>a\<close> and the new \<open>b\<close>\<close>
  nl_has_items :: "'l \<Rightarrow> bool"
  nl_is_empty :: "'l \<Rightarrow> bool"

locale node_list =
  fixes D :: "'l list_ops" and items :: "'l \<Rightarrow> tid list"
  assumes items_new [simp]: "items (nl_new D) = []"
    and items_push_back: "n \<notin> set (items l) \<Longrightarrow> items (nl_push_back D l n) = items l @ [n]"
    and items_pop_front: "items l = n # ns \<Longrightarrow> nl_pop_front D l = (u, l') \<Longrightarrow> u = n \<and> items l' = ns"
    and items_append: "set (items a) \<inter> set (items b) = {} \<Longrightarrow> nl_append D a b = (a', b') \<Longrightarrow> items a' = items a @ items b \<and> items b' = []"
    and has_items [simp]: "nl_has_items D l \<longleftrightarrow> items l \<noteq> []"
    and is_empty [simp]: "nl_is_empty D l \<longleftrightarrow> items l = []"

definition plain_list :: "tid list list_ops" where
  "plain_list = \<lparr>nl_new = [], nl_push_back = (\<lambda>l n. l @ [n]), nl_pop_front = (\<lambda>l. (hd l, tl l)), nl_append = (\<lambda>a b. (a @ b, [])),
     nl_has_items = (\<lambda>l. l \<noteq> []), nl_is_empty = (\<lambda>l. l = [])\<rparr>"

interpretation plain: node_list plain_list "\<lambda>l. l"
  by unfold_locales (auto simp: plain_list_def)

subsection \<open>The state\<close>

datatype futex_op = FxoPark u64 | FxoWake bool   \<comment> \<open>\<open>WakeAll\<close>?\<close>

datatype 'l futex_pc =
    FxIdle
  | FxPrepared u64        \<comment> \<open>it has the epoch and is outside\<close>
  | FxLock futex_op       \<comment> \<open>\<open>SpinLock::Lock\<close>: about to exchange \<open>locked_\<close>\<close>
  | FxSpin futex_op       \<comment> \<open>in the inner loop: about to load \<open>locked_\<close>\<close>
  | FxPark u64            \<comment> \<open>\<open>ParkIfEqual\<close>, with the lock: about to load the epoch\<close>
  | FxLeave               \<comment> \<open>the epoch has changed: about to unlock\<close>
  | FxSuspend             \<comment> \<open>in the list, with the lock: about to be suspended\<close>
  | FxParked
  | FxWoken               \<comment> \<open>scheduled again: about to leave \<open>ParkIfEqual\<close>\<close>
  | FxBump bool           \<comment> \<open>\<open>WakeOne\<close>, \<open>WakeAll\<close>, with the lock\<close>
  | FxUnlock 'l           \<comment> \<open>it has its list: about to unlock\<close>
  | FxWake 'l u64         \<comment> \<open>\<open>Wake\<close>: these are still to be resumed, so many were\<close>

record futex_awaiter =
  aw_owns :: bool
  aw_handle :: "tid option"

record 'l futex =
  fx_locked :: i32
  fx_epoch :: u64
  fx_waiters :: 'l
  fx_pc :: "tid \<Rightarrow> 'l futex_pc"
  fx_awaiter :: "tid \<Rightarrow> futex_awaiter option"
  fx_owed :: "tid \<Rightarrow> bool"     \<comment> \<open>its flag is still to be cleared by \<open>unlock\<close>\<close>
  fx_count :: "tid \<Rightarrow> u64"     \<comment> \<open>what its last wake call returned\<close>
  fx_parks :: "tid list"       \<comment> \<open>who parked, in order\<close>
  fx_due :: "tid \<Rightarrow> bool"      \<comment> \<open>since its \<open>PrepareWait\<close> a wake call was meant for it\<close>

datatype futex_event = FxPrepare tid | FxForget tid | FxParkIfEqual tid | FxWakeOne tid | FxWakeAll tid | FxRun tid | FxClear tid

definition futex_init :: "'l list_ops \<Rightarrow> 'l futex" where
  "futex_init D = \<lparr>fx_locked = 0, fx_epoch = 0, fx_waiters = nl_new D, fx_pc = (\<lambda>_. FxIdle), fx_awaiter = (\<lambda>_. None),
     fx_owed = (\<lambda>_. False), fx_count = (\<lambda>_. 0), fx_parks = [], fx_due = (\<lambda>_. False)\<rparr>"

definition fx_goto :: "tid \<Rightarrow> 'l futex_pc \<Rightarrow> 'l futex \<Rightarrow> 'l futex" where
  "fx_goto t p s = s\<lparr>fx_pc := (fx_pc s)(t := p)\<rparr>"

subsection \<open>The spin lock\<close>

fun fx_enter :: "futex_op \<Rightarrow> 'l futex_pc" where
  "fx_enter (FxoPark old) = FxPark old"
| "fx_enter (FxoWake all) = FxBump all"

definition spin_lock :: "tid \<Rightarrow> futex_op \<Rightarrow> 'l futex \<Rightarrow> 'l futex" where
  "spin_lock t op s =
     (let (old, locked) = atomic_exchange (fx_locked s) 1 in
      fx_goto t (if old = 1 then FxSpin op else fx_enter op) (s\<lparr>fx_locked := locked\<rparr>))"

definition spin_wait :: "tid \<Rightarrow> futex_op \<Rightarrow> 'l futex \<Rightarrow> 'l futex" where
  "spin_wait t op s = (if fx_locked s = 1 then s else fx_goto t (FxLock op) s)"

definition spin_unlock :: "'l futex \<Rightarrow> 'l futex" where
  "spin_unlock s = s\<lparr>fx_locked := 0\<rparr>"

subsection \<open>The operations\<close>

definition fx_prepare_wait :: "tid \<Rightarrow> 'l futex \<Rightarrow> 'l futex" where
  "fx_prepare_wait t s = fx_goto t (FxPrepared (fx_epoch s)) (s\<lparr>fx_due := (fx_due s)(t := False)\<rparr>)"

definition fx_park_if_equal :: "'l list_ops \<Rightarrow> tid \<Rightarrow> u64 \<Rightarrow> 'l futex \<Rightarrow> 'l futex" where
  "fx_park_if_equal D t old s =
     (if fx_epoch s = old
      then fx_goto t FxSuspend (s\<lparr>fx_awaiter := (fx_awaiter s)(t \<mapsto> \<lparr>aw_owns = True, aw_handle = None\<rparr>),
             fx_waiters := nl_push_back D (fx_waiters s) t, fx_parks := fx_parks s @ [t]\<rparr>)
      else fx_goto t FxLeave s)"

definition fx_leave :: "tid \<Rightarrow> 'l futex \<Rightarrow> 'l futex" where
  "fx_leave t s = fx_goto t FxIdle (spin_unlock s)"

text \<open>
  \<open>AwaitSuspend\<close> takes the handle and calls \<open>unlock\<close>. The device is unlocked here; the flag is cleared by \<open>fx_clear_flag\<close>,
  later, by the thread that suspended the fiber.
\<close>

definition fx_await_suspend :: "tid \<Rightarrow> 'l futex \<Rightarrow> 'l futex outcome" where
  "fx_await_suspend t s =
     (case fx_awaiter s t of
        None \<Rightarrow> Fault UseAfterFree
      | Some a \<Rightarrow>
          if \<not> aw_owns a then Fault (Panic ''operation_not_permitted'')
          else Next (fx_goto t FxParked ((spin_unlock s)
            \<lparr>fx_awaiter := (fx_awaiter s)(t \<mapsto> a\<lparr>aw_handle := Some t\<rparr>), fx_owed := (fx_owed s)(t := True)\<rparr>)))"

definition fx_clear_flag :: "tid \<Rightarrow> 'l futex \<Rightarrow> 'l futex outcome" where
  "fx_clear_flag t s =
     (if \<not> fx_owed s t then Disabled
      else case fx_awaiter s t of
        None \<Rightarrow> Fault UseAfterFree
      | Some a \<Rightarrow> Next (s\<lparr>fx_awaiter := (fx_awaiter s)(t \<mapsto> a\<lparr>aw_owns := False\<rparr>), fx_owed := (fx_owed s)(t := False)\<rparr>))"

text \<open>Back from \<open>self::Suspend\<close>: the awaiter is destroyed, and its \<open>unique_lock\<close> with it.\<close>

definition fx_return :: "tid \<Rightarrow> 'l futex \<Rightarrow> 'l futex outcome" where
  "fx_return t s =
     (case fx_awaiter s t of
        None \<Rightarrow> Fault UseAfterFree
      | Some a \<Rightarrow>
          Next (fx_goto t FxIdle ((if aw_owns a then spin_unlock s else s)\<lparr>fx_awaiter := (fx_awaiter s)(t := None)\<rparr>)))"

text \<open>Whom a wake call is meant for: a fiber that holds a key and is not in the list yet; \<open>WakeAll\<close>: also all in the list.\<close>

fun fx_key :: "'l futex_pc \<Rightarrow> u64 option" where
  "fx_key (FxPrepared k) = Some k"
| "fx_key (FxLock (FxoPark k)) = Some k"
| "fx_key (FxSpin (FxoPark k)) = Some k"
| "fx_key (FxPark k) = Some k"
| "fx_key _ = None"

fun fx_meant :: "bool \<Rightarrow> 'l futex_pc \<Rightarrow> bool" where
  "fx_meant all FxSuspend \<longleftrightarrow> all"
| "fx_meant all FxParked \<longleftrightarrow> all"
| "fx_meant all p \<longleftrightarrow> fx_key p \<noteq> None"

definition fx_bump :: "'l list_ops \<Rightarrow> tid \<Rightarrow> bool \<Rightarrow> 'l futex \<Rightarrow> 'l futex" where
  "fx_bump D t all s =
     (let (_, epoch) = atomic_fetch_add (fx_epoch s) 1;
          s1 = s\<lparr>fx_epoch := epoch, fx_due := (\<lambda>u. fx_due s u \<or> fx_meant all (fx_pc s u))\<rparr> in
      if all
      then let (l, ws) = nl_append D (nl_new D) (fx_waiters s1) in fx_goto t (FxUnlock l) (s1\<lparr>fx_waiters := ws\<rparr>)
      else if nl_has_items D (fx_waiters s1)
      then let (n, ws) = nl_pop_front D (fx_waiters s1) in
        fx_goto t (FxUnlock (nl_push_back D (nl_new D) n)) (s1\<lparr>fx_due := (fx_due s1)(n := True), fx_waiters := ws\<rparr>)
      else fx_goto t (FxUnlock (nl_new D)) s1)"

definition fx_unlock :: "tid \<Rightarrow> 'l \<Rightarrow> 'l futex \<Rightarrow> 'l futex" where
  "fx_unlock t l s = fx_goto t (FxWake l 0) (spin_unlock s)"

definition fx_wake :: "'l list_ops \<Rightarrow> tid \<Rightarrow> 'l \<Rightarrow> u64 \<Rightarrow> 'l futex \<Rightarrow> 'l futex outcome" where
  "fx_wake D t l count s =
     (if \<not> nl_has_items D l then Next (fx_goto t FxIdle (s\<lparr>fx_count := (fx_count s)(t := count)\<rparr>))
      else let (n, l') = nl_pop_front D l in
        case fx_awaiter s n of
          None \<Rightarrow> Fault UseAfterFree
        | Some a \<Rightarrow>
            (case aw_handle a of
               None \<Rightarrow> Fault (AssertFailed ''IsValid()'')
             | Some f \<Rightarrow> Next (fx_goto t (FxWake l' (count + 1)) (fx_goto f FxWoken s))))"

definition fx_destroy :: "'l list_ops \<Rightarrow> 'l futex \<Rightarrow> 'l futex outcome" where
  "fx_destroy D s = (if \<not> nl_is_empty D (fx_waiters s) then Fault (AssertFailed ''Waiters list is not empty'') else Next s)"

fun futex_step :: "'l list_ops \<Rightarrow> futex_event \<Rightarrow> 'l futex \<Rightarrow> 'l futex outcome" where
  "futex_step D (FxPrepare t) s = (case fx_pc s t of FxIdle \<Rightarrow> Next (fx_prepare_wait t s) | _ \<Rightarrow> Disabled)"
| "futex_step D (FxForget t) s = (case fx_pc s t of FxPrepared _ \<Rightarrow> Next (fx_goto t FxIdle s) | _ \<Rightarrow> Disabled)"
| "futex_step D (FxParkIfEqual t) s = (case fx_pc s t of FxPrepared k \<Rightarrow> Next (fx_goto t (FxLock (FxoPark k)) s) | _ \<Rightarrow> Disabled)"
| "futex_step D (FxWakeOne t) s = (case fx_pc s t of FxIdle \<Rightarrow> Next (fx_goto t (FxLock (FxoWake False)) s) | _ \<Rightarrow> Disabled)"
| "futex_step D (FxWakeAll t) s = (case fx_pc s t of FxIdle \<Rightarrow> Next (fx_goto t (FxLock (FxoWake True)) s) | _ \<Rightarrow> Disabled)"
| "futex_step D (FxClear t) s = fx_clear_flag t s"
| "futex_step D (FxRun t) s =
     (case fx_pc s t of
        FxIdle \<Rightarrow> Disabled
      | FxPrepared _ \<Rightarrow> Disabled
      | FxLock op \<Rightarrow> Next (spin_lock t op s)
      | FxSpin op \<Rightarrow> Next (spin_wait t op s)
      | FxPark old \<Rightarrow> Next (fx_park_if_equal D t old s)
      | FxLeave \<Rightarrow> Next (fx_leave t s)
      | FxSuspend \<Rightarrow> fx_await_suspend t s
      | FxParked \<Rightarrow> Disabled
      | FxWoken \<Rightarrow> fx_return t s
      | FxBump all \<Rightarrow> Next (fx_bump D t all s)
      | FxUnlock l \<Rightarrow> Next (fx_unlock t l s)
      | FxWake l count \<Rightarrow> fx_wake D t l count s)"

text \<open>A fiber returns from its wait before the thread that suspended it has cleared the flag of its lock object.\<close>

definition fx_early :: "futex_event \<Rightarrow> 'l futex \<Rightarrow> bool" where
  "fx_early e s \<longleftrightarrow> (case e of FxRun t \<Rightarrow> fx_owed s t \<and> fx_pc s t = FxWoken | _ \<Rightarrow> False)"

lemmas futex_defs =
  futex_init_def fx_goto_def spin_lock_def spin_wait_def spin_unlock_def fx_prepare_wait_def fx_park_if_equal_def fx_leave_def
  fx_await_suspend_def fx_clear_flag_def fx_return_def fx_bump_def fx_unlock_def fx_wake_def

subsection \<open>What a split unlock allows\<close>

definition fx_split_run :: "futex_event list" where
  "fx_split_run = [FxPrepare 1, FxParkIfEqual 1, FxRun 1, FxRun 1, FxRun 1, FxWakeOne 2, FxRun 2, FxRun 2, FxRun 2, FxRun 2]"

text \<open>
  Fiber 1 has been suspended and the thread that suspended it has unlocked the spin lock, but not cleared the flag of the lock
  object; fiber 2 resumes it. Its awaiter is destroyed with the flag still set: the spin lock is unlocked a second time,
  here while fiber 2 holds it again, so that fiber 3 enters as well; and the flag is cleared in an object that is gone.
\<close>

lemma futex_split_unlock_overlaps:
  "\<exists>s. exec (futex_step plain_list) (fx_split_run @ [FxRun 2, FxWakeOne 2, FxRun 2, FxRun 1, FxWakeOne 3, FxRun 3]) (futex_init plain_list) = Next s \<and>
     fx_pc s 2 = FxBump False \<and> fx_pc s 3 = FxBump False"
  by (simp add: fx_split_run_def futex_defs plain_list_def atomic_simps)

lemma futex_split_unlock_faults:
  "exec (futex_step plain_list) (fx_split_run @ [FxRun 1, FxClear 1]) (futex_init plain_list) = Fault UseAfterFree"
  by (simp add: fx_split_run_def futex_defs plain_list_def atomic_simps)

subsection \<open>The invariant\<close>

fun fx_holds :: "'l futex_pc \<Rightarrow> bool" where
  "fx_holds (FxPark _) \<longleftrightarrow> True"
| "fx_holds FxLeave \<longleftrightarrow> True"
| "fx_holds FxSuspend \<longleftrightarrow> True"
| "fx_holds (FxBump _) \<longleftrightarrow> True"
| "fx_holds (FxUnlock _) \<longleftrightarrow> True"
| "fx_holds _ \<longleftrightarrow> False"

fun fx_waking :: "'l futex_pc \<Rightarrow> bool" where
  "fx_waking (FxUnlock _) \<longleftrightarrow> True"
| "fx_waking (FxWake _ _) \<longleftrightarrow> True"
| "fx_waking _ \<longleftrightarrow> False"

fun fx_local :: "('l \<Rightarrow> tid list) \<Rightarrow> 'l futex_pc \<Rightarrow> tid list" where
  "fx_local items (FxUnlock l) = items l"
| "fx_local items (FxWake l _) = items l"
| "fx_local items _ = []"

text \<open>The awaiter of \<open>t\<close>, the flag of its lock object still to be cleared or not.\<close>

fun fx_awaiter_at :: "bool \<Rightarrow> tid \<Rightarrow> 'l futex_pc \<Rightarrow> futex_awaiter option" where
  "fx_awaiter_at owed t FxSuspend = Some \<lparr>aw_owns = True, aw_handle = None\<rparr>"
| "fx_awaiter_at owed t FxParked = Some \<lparr>aw_owns = owed, aw_handle = Some t\<rparr>"
| "fx_awaiter_at owed t FxWoken = Some \<lparr>aw_owns = owed, aw_handle = Some t\<rparr>"
| "fx_awaiter_at owed t _ = None"

definition spin_ok :: "i32 \<Rightarrow> (tid \<Rightarrow> bool) \<Rightarrow> bool" where
  "spin_ok locked holds \<longleftrightarrow> (if \<exists>t. holds t then locked = 1 else locked = 0) \<and> (\<forall>t u. holds t \<longrightarrow> holds u \<longrightarrow> t = u)"

text \<open>A parked fiber is in the list or in the list of exactly one wake call; one about to be suspended is in the list.\<close>

definition lists_ok :: "tid list \<Rightarrow> (tid \<Rightarrow> tid list) \<Rightarrow> (tid \<Rightarrow> bool) \<Rightarrow> (tid \<Rightarrow> bool) \<Rightarrow> bool" where
  "lists_ok ws loc parked susp \<longleftrightarrow>
     distinct ws \<and> (\<forall>t. distinct (loc t)) \<and> (\<forall>t. set (loc t) \<inter> set ws = {}) \<and> (\<forall>t u. t \<noteq> u \<longrightarrow> set (loc t) \<inter> set (loc u) = {}) \<and>
     (\<forall>u\<in>set ws. parked u \<or> susp u) \<and> (\<forall>t. \<forall>u\<in>set (loc t). parked u) \<and> (\<forall>u. susp u \<longrightarrow> u \<in> set ws) \<and>
     (\<forall>u. parked u \<longrightarrow> u \<in> set ws \<or> (\<exists>t. u \<in> set (loc t)))"

definition keys_ok :: "'l futex \<Rightarrow> bool" where
  "keys_ok s \<longleftrightarrow> (\<forall>t k. fx_key (fx_pc s t) = Some k \<longrightarrow> unat k \<le> unat (fx_epoch s) \<and> (fx_due s t \<longleftrightarrow> k \<noteq> fx_epoch s))"

definition fx_inv :: "('l \<Rightarrow> tid list) \<Rightarrow> nat \<Rightarrow> 'l futex \<Rightarrow> bool" where
  "fx_inv items m s \<longleftrightarrow>
     spin_ok (fx_locked s) (\<lambda>t. fx_holds (fx_pc s t)) \<and>
     lists_ok (items (fx_waiters s)) (\<lambda>t. fx_local items (fx_pc s t)) (\<lambda>t. fx_pc s t = FxParked) (\<lambda>t. fx_pc s t = FxSuspend) \<and>
     (\<forall>t. fx_awaiter s t = fx_awaiter_at (fx_owed s t) t (fx_pc s t) \<and> (fx_owed s t \<longrightarrow> fx_pc s t = FxParked \<or> fx_pc s t = FxWoken)) \<and>
     unat (fx_epoch s) \<le> m \<and> keys_ok s \<and> (\<forall>u\<in>set (items (fx_waiters s)). \<not> fx_due s u) \<and>
     suffix (items (fx_waiters s)) (fx_parks s)"

lemma fxI:
  assumes "fx_inv items m s"
  shows "spin_ok (fx_locked s) (\<lambda>t. fx_holds (fx_pc s t))"
    "lists_ok (items (fx_waiters s)) (\<lambda>t. fx_local items (fx_pc s t)) (\<lambda>t. fx_pc s t = FxParked) (\<lambda>t. fx_pc s t = FxSuspend)"
    "fx_awaiter s t = fx_awaiter_at (fx_owed s t) t (fx_pc s t)" "fx_owed s t \<Longrightarrow> fx_pc s t = FxParked \<or> fx_pc s t = FxWoken" "unat (fx_epoch s) \<le> m" "keys_ok s"
    "u \<in> set (items (fx_waiters s)) \<Longrightarrow> \<not> fx_due s u" "suffix (items (fx_waiters s)) (fx_parks s)"
  using assms by (auto simp: fx_inv_def)

lemma spin_take: "spin_ok locked holds \<Longrightarrow> locked \<noteq> 1 \<Longrightarrow> spin_ok 1 (holds(t := True))"
  by (auto simp: spin_ok_def split: if_splits)

lemma spin_give: "spin_ok locked holds \<Longrightarrow> holds t \<Longrightarrow> spin_ok 0 (holds(t := False))"
  by (auto simp: spin_ok_def split: if_splits)

lemma spin_locked: "spin_ok locked holds \<Longrightarrow> holds t \<Longrightarrow> locked = 1"
  by (auto simp: spin_ok_def split: if_splits)

lemma lists_push:
  "lists_ok ws loc parked susp \<Longrightarrow> \<not> parked t \<Longrightarrow> \<not> susp t \<Longrightarrow> t \<notin> set ws \<and> lists_ok (ws @ [t]) loc parked (susp(t := True))"
  by (auto simp: lists_ok_def disjoint_iff)

lemma lists_park:
  "lists_ok ws loc parked susp \<Longrightarrow> susp t \<Longrightarrow> lists_ok ws loc (parked(t := True)) (susp(t := False))"
  by (auto simp: lists_ok_def disjoint_iff)

lemma listsD:
  assumes "lists_ok ws loc parked susp"
  shows "distinct ws" "distinct (loc t)" "u \<in> set (loc t) \<Longrightarrow> u \<notin> set ws" "u \<in> set (loc t) \<Longrightarrow> u \<in> set (loc v) \<Longrightarrow> v = t"
    "u \<in> set ws \<Longrightarrow> parked u \<or> susp u" "u \<in> set (loc t) \<Longrightarrow> parked u" "susp u \<Longrightarrow> u \<in> set ws"
    "parked u \<Longrightarrow> u \<in> set ws \<or> (\<exists>t. u \<in> set (loc t))"
  using assms unfolding lists_ok_def by blast+

lemma listsI:
  assumes "distinct ws" "\<And>t. distinct (loc t)" "\<And>t u. u \<in> set (loc t) \<Longrightarrow> u \<notin> set ws"
    "\<And>t u v. u \<in> set (loc t) \<Longrightarrow> u \<in> set (loc v) \<Longrightarrow> v = t" "\<And>u. u \<in> set ws \<Longrightarrow> parked u \<or> susp u"
    "\<And>t u. u \<in> set (loc t) \<Longrightarrow> parked u" "\<And>u. susp u \<Longrightarrow> u \<in> set ws" "\<And>u. parked u \<Longrightarrow> u \<in> set ws \<or> (\<exists>t. u \<in> set (loc t))"
  shows "lists_ok ws loc parked susp"
  using assms unfolding lists_ok_def by blast

lemma lists_take:
  assumes I: "lists_ok (as @ bs) loc parked susp" and t: "loc t = []" and n: "\<And>u. \<not> susp u"
  shows "lists_ok bs (loc(t := as)) parked susp"
proof (rule listsI)
  note d = listsD [OF I]
  show "distinct bs" "distinct ((loc(t := as)) v)" for v using d(1) d(2) [of v] by simp_all
  show "u \<notin> set bs" if "u \<in> set ((loc(t := as)) v)" for u v using that d(1) d(3) [of u v] by (auto split: if_splits)
  show "v = w" if "u \<in> set ((loc(t := as)) w)" "u \<in> set ((loc(t := as)) v)" for u v w
    using that d(4) [of u w v] d(3) [of u w] d(3) [of u v] by (auto split: if_splits)
  show "parked u \<or> susp u" if "u \<in> set bs" for u using that d(5) [of u] by simp
  show "parked u" if "u \<in> set ((loc(t := as)) v)" for u v using that d(5) [of u] d(6) [of u v] n [of u] by (auto split: if_splits)
  show "u \<in> set bs" if "susp u" for u using that n by blast
  show "u \<in> set bs \<or> (\<exists>v. u \<in> set ((loc(t := as)) v))" if p: "parked u" for u
  proof (cases "u \<in> set (as @ bs)")
    case False
    with d(8) [OF p] obtain v where "u \<in> set (loc v)" by blast
    with t have "u \<in> set ((loc(t := as)) v)" by (cases "v = t") auto
    then show ?thesis by blast
  qed auto
qed

lemma lists_wake:
  assumes I: "lists_ok ws loc parked susp" and t: "loc t = n # ns"
  shows "lists_ok ws (loc(t := ns)) (parked(n := False)) susp" "parked n" "\<not> susp n"
proof -
  note d = listsD [OF I]
  have n: "n \<in> set (loc t)" using t by simp
  show "parked n" "\<not> susp n" using d(6) [OF n] d(7) [of n] d(3) [OF n] by blast+
  have sub: "u \<in> set (loc v)" "u \<noteq> n" if "u \<in> set ((loc(t := ns)) v)" for u v
    using that t d(2) [of t] d(4) [OF n, of v] by (auto split: if_splits)
  show "lists_ok ws (loc(t := ns)) (parked(n := False)) susp"
  proof (rule listsI)
    show "distinct ws" "distinct ((loc(t := ns)) v)" for v using d(1) d(2) [of v] d(2) [of t] t by simp_all
    show "u \<notin> set ws" if "u \<in> set ((loc(t := ns)) v)" for u v using sub(1) [OF that] d(3) by blast
    show "v = w" if "u \<in> set ((loc(t := ns)) w)" "u \<in> set ((loc(t := ns)) v)" for u v w
      using sub(1) [OF that(1)] sub(1) [OF that(2)] d(4) by blast
    show "(parked(n := False)) u \<or> susp u" if "u \<in> set ws" for u using that d(3) [OF n] d(5) [OF that] by auto
    show "(parked(n := False)) u" if "u \<in> set ((loc(t := ns)) v)" for u v using sub [OF that] d(6) by simp
    show "u \<in> set ws" if "susp u" for u by (rule d(7) [OF that])
    show "u \<in> set ws \<or> (\<exists>v. u \<in> set ((loc(t := ns)) v))" if "(parked(n := False)) u" for u
    proof -
      from that have u: "u \<noteq> n" "parked u" by (auto split: if_splits)
      from d(8) [OF u(2)] show ?thesis
      proof
        assume "\<exists>v. u \<in> set (loc v)"
        then obtain v where "u \<in> set (loc v)" by blast
        with t u(1) have "u \<in> set ((loc(t := ns)) v)" by (cases "v = t") auto
        then show ?thesis by blast
      qed simp
    qed
  qed
qed

lemma spin_same: "spin_ok locked holds \<Longrightarrow> holds t = b \<Longrightarrow> spin_ok locked (holds(t := b))"
  by (simp add: fun_upd_idem)

lemma fx_lock_change: "(\<lambda>u. fx_holds (((fx_pc s)(t := p)) u)) = (\<lambda>u. fx_holds (fx_pc s u))(t := fx_holds p)"
  by auto

subsection \<open>Every step keeps the invariant\<close>

text \<open>A step of \<open>t\<close> that touches neither the lock nor the lists.\<close>

lemma fx_moveI:
  assumes I: "fx_inv items m s"
    and pc: "fx_pc s' = (fx_pc s)(t := p)" and lock: "spin_ok (fx_locked s') ((\<lambda>u. fx_holds (fx_pc s u))(t := fx_holds p))"
    and same: "fx_waiters s' = fx_waiters s" "fx_parks s' = fx_parks s" "fx_epoch s' = fx_epoch s" "fx_owed s' = fx_owed s"
    and loc: "fx_local items p = fx_local items (fx_pc s t)" "p = FxParked \<longleftrightarrow> fx_pc s t = FxParked" "p = FxSuspend \<longleftrightarrow> fx_pc s t = FxSuspend"
    and aw: "fx_awaiter s' = (fx_awaiter s)(t := fx_awaiter_at False t p)" "\<not> fx_owed s t"
    and due: "\<And>u. u \<noteq> t \<Longrightarrow> fx_due s' u = fx_due s u" "fx_due s' t \<Longrightarrow> fx_due s t"
    and key: "\<And>k. fx_key p = Some k \<Longrightarrow> unat k \<le> unat (fx_epoch s) \<and> (fx_due s' t \<longleftrightarrow> k \<noteq> fx_epoch s)"
  shows "fx_inv items (Suc m) s'"
proof -
  have loc': "(\<lambda>u. fx_local items (fx_pc s' u)) = (\<lambda>u. fx_local items (fx_pc s u))" using pc loc(1) by auto
  have pk: "(\<lambda>u. fx_pc s' u = FxParked) = (\<lambda>u. fx_pc s u = FxParked)" "(\<lambda>u. fx_pc s' u = FxSuspend) = (\<lambda>u. fx_pc s u = FxSuspend)"
    using pc loc(2,3) by (auto simp: fun_eq_iff)
  have "keys_ok s'" unfolding keys_ok_def
  proof (intro allI impI)
    fix u k assume "fx_key (fx_pc s' u) = Some k"
    then show "unat k \<le> unat (fx_epoch s') \<and> (fx_due s' u \<longleftrightarrow> k \<noteq> fx_epoch s')"
      using key [of k] fxI(6) [OF I] due(1) [of u] pc same(3) by (cases "u = t") (auto simp: keys_ok_def)
  qed
  moreover have "\<forall>u. fx_awaiter s' u = fx_awaiter_at (fx_owed s' u) u (fx_pc s' u) \<and>
      (fx_owed s' u \<longrightarrow> fx_pc s' u = FxParked \<or> fx_pc s' u = FxWoken)"
    using fxI(3,4) [OF I] pc aw same(4) by auto
  moreover have "spin_ok (fx_locked s') (\<lambda>u. fx_holds (fx_pc s' u))" using lock unfolding pc fx_lock_change .
  moreover have "\<forall>u\<in>set (items (fx_waiters s')). \<not> fx_due s' u" using fxI(7) [OF I] same(1) due by metis
  ultimately show ?thesis using fxI(2,5,8) [OF I] same by (simp add: fx_inv_def loc' pk)
qed

context node_list
begin

lemma fx_quiet:
  assumes I: "fx_inv items m s" and p: "fx_holds p \<longleftrightarrow> fx_holds (fx_pc s t)" "fx_local items p = fx_local items (fx_pc s t)"
    "p \<noteq> FxParked" "p \<noteq> FxSuspend" "fx_pc s t \<noteq> FxParked" "fx_pc s t \<noteq> FxSuspend" "fx_awaiter_at False t p = fx_awaiter_at False t (fx_pc s t)"
    "fx_pc s t \<noteq> FxWoken"
    and key: "\<And>k. fx_key p = Some k \<Longrightarrow> fx_key (fx_pc s t) = Some k"
  shows "fx_inv items (Suc m) (fx_goto t p s)"
proof (rule fx_moveI [OF I])
  show "spin_ok (fx_locked (fx_goto t p s)) ((\<lambda>u. fx_holds (fx_pc s u))(t := fx_holds p))"
    using spin_same [OF fxI(1) [OF I], of t "fx_holds p"] p(1) by (simp add: fx_goto_def)
  have "\<not> fx_owed s t" using fxI(4) [OF I, of t] p(5,8) by blast
  then show "fx_awaiter (fx_goto t p s) = (fx_awaiter s)(t := fx_awaiter_at False t p)" "\<not> fx_owed s t"
    using fxI(3) [OF I, of t] p(7) by (simp_all add: fx_goto_def fun_eq_iff)
qed (use p key fxI(6) [OF I] in \<open>auto simp: fx_goto_def keys_ok_def\<close>)

lemma fx_step_prepare:
  assumes I: "fx_inv items m s" and t: "fx_pc s t = FxIdle"
  shows "fx_inv items (Suc m) (fx_prepare_wait t s)"
proof (rule fx_moveI [OF I])
  show "spin_ok (fx_locked (fx_prepare_wait t s)) ((\<lambda>u. fx_holds (fx_pc s u))(t := fx_holds (FxPrepared (fx_epoch s))))"
    using spin_same [OF fxI(1) [OF I], of t False] t by (simp add: fx_prepare_wait_def fx_goto_def)
  show "fx_awaiter (fx_prepare_wait t s) = (fx_awaiter s)(t := fx_awaiter_at False t (FxPrepared (fx_epoch s)))" "\<not> fx_owed s t"
    using fxI(3,4) [OF I, of t] t by (auto simp: fx_prepare_wait_def fx_goto_def fun_eq_iff)
qed (use t in \<open>auto simp: fx_prepare_wait_def fx_goto_def\<close>)

lemma fx_step_lock:
  assumes I: "fx_inv items m s" and t: "fx_pc s t = FxLock op"
  shows "fx_inv items (Suc m) (spin_lock t op s)"
proof (cases "fx_locked s = 1")
  case True
  then have "spin_lock t op s = fx_goto t (FxSpin op) s" by (simp add: spin_lock_def fx_goto_def atomic_simps)
  with fx_quiet [OF I, of "FxSpin op" t] t show ?thesis by (cases op) simp_all
next
  case False
  then have s: "spin_lock t op s = fx_goto t (fx_enter op) (s\<lparr>fx_locked := 1\<rparr>)" by (simp add: spin_lock_def atomic_simps)
  let ?p = "fx_enter op :: 'l futex_pc"
  have p: "fx_holds ?p" "fx_local items ?p = []" "?p \<noteq> FxParked" "?p \<noteq> FxSuspend"
    "fx_awaiter_at False t ?p = None" "fx_key ?p = fx_key (FxLock op :: 'l futex_pc)" by (cases op; simp)+
  show ?thesis unfolding s
  proof (rule fx_moveI [OF I])
    show "spin_ok (fx_locked (fx_goto t ?p (s\<lparr>fx_locked := 1\<rparr>))) ((\<lambda>u. fx_holds (fx_pc s u))(t := fx_holds ?p))"
      using spin_take [OF fxI(1) [OF I] False, of t] by (simp add: fx_goto_def p(1))
    show "fx_awaiter (fx_goto t ?p (s\<lparr>fx_locked := 1\<rparr>)) = (fx_awaiter s)(t := fx_awaiter_at False t ?p)" "\<not> fx_owed s t"
      using fxI(3,4) [OF I, of t] t p(5) by (auto simp: fx_goto_def fun_eq_iff)
  qed (use t p fxI(6) [OF I, unfolded keys_ok_def, rule_format, of t] in \<open>auto simp: fx_goto_def\<close>)
qed

lemma fx_inv_later: "fx_inv items m s \<Longrightarrow> fx_inv items (Suc m) s"
  by (simp add: fx_inv_def)

lemma fx_step_spin:
  assumes I: "fx_inv items m s" and t: "fx_pc s t = FxSpin op"
  shows "fx_inv items (Suc m) (spin_wait t op s)"
  using fx_quiet [OF I, of "FxLock op" t] t fx_inv_later [OF I] by (cases op) (simp_all add: spin_wait_def)

lemma fx_step_leave:
  assumes I: "fx_inv items m s" and t: "fx_pc s t = FxLeave"
  shows "fx_inv items (Suc m) (fx_leave t s)"
proof (rule fx_moveI [OF I])
  show "spin_ok (fx_locked (fx_leave t s)) ((\<lambda>u. fx_holds (fx_pc s u))(t := fx_holds (FxIdle :: 'l futex_pc)))"
    using spin_give [OF fxI(1) [OF I], of t] t by (simp add: fx_leave_def spin_unlock_def fx_goto_def)
  show "fx_awaiter (fx_leave t s) = (fx_awaiter s)(t := fx_awaiter_at False t FxIdle)" "\<not> fx_owed s t"
    using fxI(3,4) [OF I, of t] t by (auto simp: fx_leave_def spin_unlock_def fx_goto_def fun_eq_iff)
qed (use t in \<open>auto simp: fx_leave_def spin_unlock_def fx_goto_def\<close>)

lemma fx_step_return:
  assumes I: "fx_inv items m s" and t: "fx_pc s t = FxWoken" and cleared: "\<not> fx_owed s t"
  shows "lands_in (fx_inv items (Suc m)) (fx_return t s)"
proof -
  let ?s = "fx_goto t FxIdle (s\<lparr>fx_awaiter := (fx_awaiter s)(t := None)\<rparr>)"
  have "fx_return t s = Next ?s" using fxI(3) [OF I, of t] t cleared by (simp add: fx_return_def)
  moreover have "fx_inv items (Suc m) ?s"
  proof (rule fx_moveI [OF I, where t = t and p = FxIdle])
    show "spin_ok (fx_locked ?s) ((\<lambda>u. fx_holds (fx_pc s u))(t := fx_holds (FxIdle :: 'l futex_pc)))"
      using spin_same [OF fxI(1) [OF I], of t False] t by (simp add: fx_goto_def)
  qed (use t cleared in \<open>auto simp: fx_goto_def\<close>)
  ultimately show ?thesis by simp
qed

lemma fx_step_unlock:
  assumes I: "fx_inv items m s" and t: "fx_pc s t = FxUnlock l"
  shows "fx_inv items (Suc m) (fx_unlock t l s)"
proof (rule fx_moveI [OF I])
  show "spin_ok (fx_locked (fx_unlock t l s)) ((\<lambda>u. fx_holds (fx_pc s u))(t := fx_holds (FxWake l 0)))"
    using spin_give [OF fxI(1) [OF I], of t] t by (simp add: fx_unlock_def spin_unlock_def fx_goto_def)
  show "fx_awaiter (fx_unlock t l s) = (fx_awaiter s)(t := fx_awaiter_at False t (FxWake l 0))" "\<not> fx_owed s t"
    using fxI(3,4) [OF I, of t] t by (auto simp: fx_unlock_def spin_unlock_def fx_goto_def fun_eq_iff)
qed (use t in \<open>auto simp: fx_unlock_def spin_unlock_def fx_goto_def\<close>)

lemma fx_local_change: "(\<lambda>u. fx_local items (((fx_pc s)(t := p)) u)) = (\<lambda>u. fx_local items (fx_pc s u))(t := fx_local items p)"
  by auto

lemma fx_step_park:
  assumes I: "fx_inv items m s" and t: "fx_pc s t = FxPark old"
  shows "fx_inv items (Suc m) (fx_park_if_equal D t old s)"
proof (cases "fx_epoch s = old")
  case False
  then show ?thesis using fx_quiet [OF I, of FxLeave t] t by (simp add: fx_park_if_equal_def)
next
  case True
  let ?s = "fx_goto t FxSuspend (s\<lparr>fx_awaiter := (fx_awaiter s)(t \<mapsto> \<lparr>aw_owns = True, aw_handle = None\<rparr>),
      fx_waiters := nl_push_back D (fx_waiters s) t, fx_parks := fx_parks s @ [t]\<rparr>)"
  have s: "fx_park_if_equal D t old s = ?s" using True by (simp add: fx_park_if_equal_def)
  from lists_push [OF fxI(2) [OF I], of t] t have nt: "t \<notin> set (items (fx_waiters s))" and
    L: "lists_ok (items (fx_waiters s) @ [t]) (\<lambda>u. fx_local items (fx_pc s u)) (\<lambda>u. fx_pc s u = FxParked) ((\<lambda>u. fx_pc s u = FxSuspend)(t := True))"
    by simp_all
  have it: "items (fx_waiters ?s) = items (fx_waiters s) @ [t]" using items_push_back [OF nt] by (simp add: fx_goto_def)
  have "(\<lambda>u. fx_local items (fx_pc ?s u)) = (\<lambda>u. fx_local items (fx_pc s u))" "(\<lambda>u. fx_pc ?s u = FxParked) = (\<lambda>u. fx_pc s u = FxParked)"
    "(\<lambda>u. fx_pc ?s u = FxSuspend) = (\<lambda>u. fx_pc s u = FxSuspend)(t := True)" using t by (auto simp: fx_goto_def)
  with L it have "lists_ok (items (fx_waiters ?s)) (\<lambda>u. fx_local items (fx_pc ?s u)) (\<lambda>u. fx_pc ?s u = FxParked) (\<lambda>u. fx_pc ?s u = FxSuspend)" by simp
  moreover have "(\<lambda>u. fx_holds (fx_pc ?s u)) = (\<lambda>u. fx_holds (fx_pc s u))" using t by (auto simp: fx_goto_def)
  then have "spin_ok (fx_locked ?s) (\<lambda>u. fx_holds (fx_pc ?s u))" using fxI(1) [OF I] by (simp add: fx_goto_def)
  moreover have "\<not> fx_owed s t" using fxI(4) [OF I, of t] t by auto
  moreover have "fx_due s t = False" using fxI(6) [OF I] t True by (auto simp: keys_ok_def)
  moreover have "keys_ok ?s" using fxI(6) [OF I] by (auto simp: keys_ok_def fx_goto_def)
  moreover have "suffix (items (fx_waiters s) @ [t]) (fx_parks s @ [t])" using fxI(8) [OF I] by (auto simp: suffix_def)
  ultimately show ?thesis using fxI(3,4,5,7) [OF I] it unfolding s fx_inv_def by (auto simp: fx_goto_def)
qed

lemma fx_step_suspend:
  assumes I: "fx_inv items m s" and t: "fx_pc s t = FxSuspend"
  shows "lands_in (fx_inv items (Suc m)) (fx_await_suspend t s)"
proof -
  let ?a = "\<lparr>aw_owns = True, aw_handle = Some t\<rparr>"
  let ?s = "fx_goto t FxParked ((spin_unlock s)\<lparr>fx_awaiter := (fx_awaiter s)(t \<mapsto> ?a), fx_owed := (fx_owed s)(t := True)\<rparr>)"
  have "fx_await_suspend t s = Next ?s" using fxI(3) [OF I, of t] t by (simp add: fx_await_suspend_def)
  moreover have "fx_inv items (Suc m) ?s"
  proof -
    have "lists_ok (items (fx_waiters s)) (\<lambda>u. fx_local items (fx_pc s u)) ((\<lambda>u. fx_pc s u = FxParked)(t := True)) ((\<lambda>u. fx_pc s u = FxSuspend)(t := False))"
      by (rule lists_park [OF fxI(2) [OF I]]) (use t in simp)
    moreover have "(\<lambda>u. fx_local items (fx_pc ?s u)) = (\<lambda>u. fx_local items (fx_pc s u))"
      "(\<lambda>u. fx_pc ?s u = FxParked) = (\<lambda>u. fx_pc s u = FxParked)(t := True)"
      "(\<lambda>u. fx_pc ?s u = FxSuspend) = (\<lambda>u. fx_pc s u = FxSuspend)(t := False)" using t by (auto simp: fx_goto_def spin_unlock_def)
    ultimately have "lists_ok (items (fx_waiters ?s)) (\<lambda>u. fx_local items (fx_pc ?s u)) (\<lambda>u. fx_pc ?s u = FxParked) (\<lambda>u. fx_pc ?s u = FxSuspend)"
      by (simp add: fx_goto_def spin_unlock_def)
    moreover have "(\<lambda>u. fx_holds (fx_pc ?s u)) = (\<lambda>u. fx_holds (fx_pc s u))(t := False)" by (auto simp: fx_goto_def spin_unlock_def)
    then have "spin_ok (fx_locked ?s) (\<lambda>u. fx_holds (fx_pc ?s u))"
      using spin_give [OF fxI(1) [OF I], of t] t by (simp add: spin_unlock_def fx_goto_def)
    moreover have "keys_ok ?s" using fxI(6) [OF I] by (auto simp: keys_ok_def fx_goto_def spin_unlock_def)
    ultimately show ?thesis using fxI(3,4,5,7,8) [OF I] unfolding fx_inv_def by (auto simp: fx_goto_def spin_unlock_def)
  qed
  ultimately show ?thesis by simp
qed

lemma fx_step_wake:
  assumes I: "fx_inv items m s" and t: "fx_pc s t = FxWake l count"
  shows "lands_in (fx_inv items (Suc m)) (fx_wake D t l count s)"
proof (cases "items l")
  case Nil
  let ?s = "fx_goto t FxIdle (s\<lparr>fx_count := (fx_count s)(t := count)\<rparr>)"
  have "fx_inv items (Suc m) ?s"
  proof (rule fx_moveI [OF I, where t = t and p = FxIdle])
    show "spin_ok (fx_locked ?s) ((\<lambda>u. fx_holds (fx_pc s u))(t := fx_holds (FxIdle :: 'l futex_pc)))"
      using spin_same [OF fxI(1) [OF I], of t False] t by (simp add: fx_goto_def)
    show "fx_awaiter ?s = (fx_awaiter s)(t := fx_awaiter_at False t FxIdle)" "\<not> fx_owed s t"
      using fxI(3,4) [OF I, of t] t by (auto simp: fx_goto_def fun_eq_iff)
  qed (use t Nil in \<open>auto simp: fx_goto_def\<close>)
  then show ?thesis using Nil by (simp add: fx_wake_def)
next
  case (Cons n ns)
  obtain l' where l': "nl_pop_front D l = (n, l')" "items l' = ns"
    using items_pop_front [OF Cons] by (cases "nl_pop_front D l") auto
  have loc: "fx_local items (fx_pc s t) = n # ns" using t Cons by simp
  note w = lists_wake [OF fxI(2) [OF I] loc]
  have nt: "n \<noteq> t" using w(2) t by auto
  let ?s = "fx_goto t (FxWake l' (count + 1)) (fx_goto n FxWoken s)"
  have step: "fx_wake D t l count s = Next ?s"
    using Cons l' fxI(3) [OF I, of n] w(2) by (simp add: fx_wake_def)
  have pc: "fx_pc ?s = (fx_pc s)(n := FxWoken, t := FxWake l' (count + 1))" by (simp add: fx_goto_def)
  have "(\<lambda>u. fx_local items (fx_pc ?s u)) = (\<lambda>u. fx_local items (fx_pc s u))(t := ns)" "(\<lambda>u. fx_pc ?s u = FxParked) = (\<lambda>u. fx_pc s u = FxParked)(n := False)"
    "(\<lambda>u. fx_pc ?s u = FxSuspend) = (\<lambda>u. fx_pc s u = FxSuspend)"
    using w(2,3) l'(2) t nt unfolding pc by (auto simp: fun_eq_iff)
  with w(1) have "lists_ok (items (fx_waiters ?s)) (\<lambda>u. fx_local items (fx_pc ?s u)) (\<lambda>u. fx_pc ?s u = FxParked) (\<lambda>u. fx_pc ?s u = FxSuspend)"
    by (simp add: fx_goto_def)
  moreover have "(\<lambda>u. fx_holds (fx_pc ?s u)) = (\<lambda>u. fx_holds (fx_pc s u))" using w(2) t unfolding pc by (auto simp: fun_eq_iff)
  then have "spin_ok (fx_locked ?s) (\<lambda>u. fx_holds (fx_pc ?s u))" using fxI(1) [OF I] by (simp add: fx_goto_def)
  moreover have "keys_ok ?s" using fxI(6) [OF I] unfolding keys_ok_def pc by (auto simp: fx_goto_def)
  moreover have "fx_awaiter ?s u = fx_awaiter_at (fx_owed ?s u) u (fx_pc ?s u) \<and> (fx_owed ?s u \<longrightarrow> fx_pc ?s u = FxParked \<or> fx_pc ?s u = FxWoken)" for u
    using fxI(3,4) [OF I, of u] w(2) t nt unfolding pc by (auto simp: fx_goto_def)
  ultimately have "fx_inv items (Suc m) ?s" using fxI(5,7,8) [OF I] unfolding fx_inv_def by (auto simp: fx_goto_def)
  with step show ?thesis by simp
qed

lemma fx_step_clear:
  assumes I: "fx_inv items m s"
  shows "lands_in (fx_inv items (Suc m)) (fx_clear_flag t s)"
proof (cases "fx_owed s t")
  case owed: True
  let ?s = "s\<lparr>fx_awaiter := (fx_awaiter s)(t \<mapsto> \<lparr>aw_owns = False, aw_handle = Some t\<rparr>), fx_owed := (fx_owed s)(t := False)\<rparr>"
  have "fx_pc s t = FxParked \<or> fx_pc s t = FxWoken" using fxI(4) [OF I] owed by blast
  then have at: "fx_awaiter_at b t (fx_pc s t) = Some \<lparr>aw_owns = b, aw_handle = Some t\<rparr>" for b by auto
  have "fx_clear_flag t s = Next ?s" using fxI(3) [OF I, of t] owed at by (simp add: fx_clear_flag_def)
  moreover have "fx_inv items (Suc m) ?s"
    using fxI [OF I] at unfolding fx_inv_def keys_ok_def by auto
  ultimately show ?thesis by simp
qed (simp add: fx_clear_flag_def)

text \<open>A wake call takes \<open>as\<close> out of the list.\<close>

lemma fx_takeI:
  assumes I: "fx_inv items m s" and t: "fx_pc s t = FxBump all" and m: "Suc m < 2 ^ 64"
    and l: "items l = as" "items (fx_waiters s) = as @ items ws"
    and due: "\<And>u. fx_due' u \<longleftrightarrow> fx_due s u \<or> fx_meant all (fx_pc s u) \<or> u \<in> set as" "all \<Longrightarrow> items ws = []"
  shows "fx_inv items (Suc m) (fx_goto t (FxUnlock l) (s\<lparr>fx_epoch := fx_epoch s + 1, fx_due := fx_due', fx_waiters := ws\<rparr>))"
proof -
  let ?s = "fx_goto t (FxUnlock l) (s\<lparr>fx_epoch := fx_epoch s + 1, fx_due := fx_due', fx_waiters := ws\<rparr>)"
  have holds: "fx_holds (fx_pc s t)" using t by simp
  have "u = t" if "fx_holds (fx_pc s u)" for u using fxI(1) [OF I] holds that by (simp add: spin_ok_def)
  then have susp: "fx_pc s u \<noteq> FxSuspend" for u using t by (cases "u = t") fastforce+
  have "lists_ok (items ws) ((\<lambda>u. fx_local items (fx_pc s u))(t := as)) (\<lambda>u. fx_pc s u = FxParked) (\<lambda>u. fx_pc s u = FxSuspend)"
    by (rule lists_take) (use fxI(2) [OF I] l(2) t susp in simp_all)
  moreover have "(\<lambda>u. fx_local items (fx_pc ?s u)) = (\<lambda>u. fx_local items (fx_pc s u))(t := as)" "(\<lambda>u. fx_pc ?s u = FxParked) = (\<lambda>u. fx_pc s u = FxParked)"
    "(\<lambda>u. fx_pc ?s u = FxSuspend) = (\<lambda>u. fx_pc s u = FxSuspend)" using t l(1) by (auto simp: fx_goto_def)
  ultimately have "lists_ok (items (fx_waiters ?s)) (\<lambda>u. fx_local items (fx_pc ?s u)) (\<lambda>u. fx_pc ?s u = FxParked) (\<lambda>u. fx_pc ?s u = FxSuspend)"
    by (simp add: fx_goto_def)
  moreover have "(\<lambda>u. fx_holds (fx_pc ?s u)) = (\<lambda>u. fx_holds (fx_pc s u))" using t by (auto simp: fx_goto_def)
  then have "spin_ok (fx_locked ?s) (\<lambda>u. fx_holds (fx_pc ?s u))" using fxI(1) [OF I] by (simp add: fx_goto_def)
  moreover have e: "unat (fx_epoch s + 1) = Suc (unat (fx_epoch s))" using fxI(5) [OF I] m by (simp add: unat_word_ariths)
  moreover have "keys_ok ?s" unfolding keys_ok_def
  proof (intro allI impI)
    fix u k assume "fx_key (fx_pc ?s u) = Some k"
    then have "u \<noteq> t" and k: "fx_key (fx_pc s u) = Some k" by (auto simp: fx_goto_def split: if_splits)
    have "fx_meant all (fx_pc s u)" using k by (cases "fx_pc s u") simp_all
    moreover have "unat k \<le> unat (fx_epoch s)" using fxI(6) [OF I] k by (simp add: keys_ok_def)
    moreover from this e have "k \<noteq> fx_epoch s + 1" by auto
    ultimately show "unat k \<le> unat (fx_epoch ?s) \<and> (fx_due ?s u \<longleftrightarrow> k \<noteq> fx_epoch ?s)" using e due(1) by (simp add: fx_goto_def)
  qed
  moreover have "\<not> fx_due ?s u" if u: "u \<in> set (items ws)" for u
  proof -
    have "\<not> all" using u due(2) by auto
    moreover have "\<not> fx_due s u" "u \<notin> set as" using fxI(7) [OF I, of u] listsD(1) [OF fxI(2) [OF I]] l(2) u by auto
    moreover have "fx_pc s u = FxParked \<or> fx_pc s u = FxSuspend" using listsD(5) [OF fxI(2) [OF I], of u] l(2) u by simp
    ultimately show ?thesis using due(1) by (auto simp: fx_goto_def)
  qed
  moreover have "suffix (items ws) (fx_parks s)" using fxI(8) [OF I] l(2) by (auto simp: suffix_def)
  moreover have "fx_awaiter ?s u = fx_awaiter_at (fx_owed ?s u) u (fx_pc ?s u) \<and> (fx_owed ?s u \<longrightarrow> fx_pc ?s u = FxParked \<or> fx_pc ?s u = FxWoken)" for u
    using fxI(3,4) [OF I, of u] t by (auto simp: fx_goto_def)
  ultimately show ?thesis using fxI(5) [OF I] unfolding fx_inv_def by (simp add: fx_goto_def)
qed

lemma fx_step_bump:
  assumes I: "fx_inv items m s" and t: "fx_pc s t = FxBump all" and m: "Suc m < 2 ^ 64"
  shows "fx_inv items (Suc m) (fx_bump D t all s)"
proof (cases all)
  case True
  obtain l ws where l: "nl_append D (nl_new D) (fx_waiters s) = (l, ws)" by (cases "nl_append D (nl_new D) (fx_waiters s)") auto
  with items_append [OF _ l] have i: "items l = items (fx_waiters s)" "items ws = []" by simp_all
  have "fx_pc s u = FxParked \<or> fx_pc s u = FxSuspend" if "u \<in> set (items (fx_waiters s))" for u
    using listsD(5) [OF fxI(2) [OF I] that] by simp
  then have "fx_meant True (fx_pc s u)" if "u \<in> set (items (fx_waiters s))" for u using that by fastforce
  then have due: "fx_due s u \<or> fx_meant all (fx_pc s u) \<longleftrightarrow> fx_due s u \<or> fx_meant all (fx_pc s u) \<or> u \<in> set (items (fx_waiters s))" for u
    using True by auto
  have "items (fx_waiters s) = items (fx_waiters s) @ items ws" using i(2) by simp
  from fx_takeI [OF I t m i(1) this, of "\<lambda>u. fx_due s u \<or> fx_meant all (fx_pc s u)"] due i(2) True l show ?thesis
    by (simp add: fx_bump_def atomic_simps)
next
  case False
  show ?thesis
  proof (cases "items (fx_waiters s)")
    case Nil
    with fx_takeI [OF I t m, of "nl_new D" "[]" "fx_waiters s" "\<lambda>u. fx_due s u \<or> fx_meant False (fx_pc s u)"] False
    show ?thesis by (simp add: fx_bump_def atomic_simps fx_goto_def)
  next
    case (Cons n ns)
    obtain ws where ws: "nl_pop_front D (fx_waiters s) = (n, ws)" "items ws = ns"
      using items_pop_front [OF Cons] by (cases "nl_pop_front D (fx_waiters s)") auto
    have "items (nl_push_back D (nl_new D) n) = [n]" by (simp add: items_push_back)
    moreover have "items (fx_waiters s) = [n] @ items ws" using Cons ws by simp
    moreover have "((\<lambda>u. fx_due s u \<or> fx_meant False (fx_pc s u))(n := True)) u \<longleftrightarrow> fx_due s u \<or> fx_meant all (fx_pc s u) \<or> u \<in> set [n]" for u
      using False by simp
    ultimately have "fx_inv items (Suc m) (fx_goto t (FxUnlock (nl_push_back D (nl_new D) n)) (s\<lparr>fx_epoch := fx_epoch s + 1,
        fx_due := (\<lambda>u. fx_due s u \<or> fx_meant False (fx_pc s u))(n := True), fx_waiters := ws\<rparr>))"
      by (rule fx_takeI [OF I t m]) (use Cons ws False in simp_all)
    with False ws Cons show ?thesis by (simp add: fx_bump_def atomic_simps)
  qed
qed

lemma fx_inv_step:
  assumes I: "fx_inv items m s" and m: "Suc m < 2 ^ 64" and ok: "\<not> fx_early e s"
  shows "lands_in (fx_inv items (Suc m)) (futex_step D e s)"
proof (cases e)
  case (FxRun t)
  show ?thesis
  proof (cases "fx_pc s t")
    case (FxLock op)
    with fx_step_lock [OF I this] FxRun show ?thesis by simp
  next
    case (FxSpin op)
    with fx_step_spin [OF I this] FxRun show ?thesis by simp
  next
    case (FxPark old)
    with fx_step_park [OF I this] FxRun show ?thesis by simp
  next
    case FxLeave
    with fx_step_leave [OF I this] FxRun show ?thesis by simp
  next
    case FxSuspend
    with fx_step_suspend [OF I this] FxRun show ?thesis by simp
  next
    case FxWoken
    then have "\<not> fx_owed s t" using ok FxRun by (simp add: fx_early_def)
    with fx_step_return [OF I FxWoken] FxRun FxWoken show ?thesis by simp
  next
    case (FxBump all)
    with fx_step_bump [OF I this m] FxRun show ?thesis by simp
  next
    case (FxUnlock l)
    with fx_step_unlock [OF I this] FxRun show ?thesis by simp
  next
    case (FxWake l count)
    with fx_step_wake [OF I this] FxRun show ?thesis by simp
  qed (simp_all add: FxRun)
next
  case (FxPrepare t)
  then show ?thesis using fx_step_prepare [OF I, of t] by (cases "fx_pc s t") simp_all
next
  case (FxForget t)
  then show ?thesis using fx_quiet [OF I, of FxIdle t] by (cases "fx_pc s t") simp_all
next
  case (FxParkIfEqual t)
  then show ?thesis using fx_quiet [OF I, of "FxLock (FxoPark k)" t for k] by (cases "fx_pc s t") simp_all
next
  case (FxWakeOne t)
  then show ?thesis using fx_quiet [OF I, of "FxLock (FxoWake False)" t] by (cases "fx_pc s t") simp_all
next
  case (FxWakeAll t)
  then show ?thesis using fx_quiet [OF I, of "FxLock (FxoWake True)" t] by (cases "fx_pc s t") simp_all
next
  case (FxClear t)
  with fx_step_clear [OF I] show ?thesis by simp
qed

lemma fx_machine: "counted_machine (barring (futex_step D) fx_early) (futex_init D) (fx_inv items) (2 ^ 64 - 1)"
proof (rule counted_machineI)
  show "fx_inv items 0 (futex_init D)"
    by (simp add: fx_inv_def futex_init_def spin_ok_def lists_ok_def keys_ok_def)
next
  fix m s e assume "fx_inv items m s" "m < 2 ^ 64 - 1"
  then show "lands_in (fx_inv items (Suc m)) (barring (futex_step D) fx_early e s)"
    using fx_inv_step [of m s e] by (simp add: barring_def)
qed

lemma fx_reached:
  assumes "avoids (futex_step D) fx_early es (futex_init D)" "exec (futex_step D) es (futex_init D) = Next s" "length es < 2 ^ 64"
  shows "fx_inv items (length es) s"
  by (rule counted_machine.cm_exec_inv [OF fx_machine]) (use assms in \<open>simp_all add: exec_barring\<close>)

lemma fx_run_no_fault:
  assumes "avoids (futex_step D) fx_early es (futex_init D)" "length es < 2 ^ 64"
  shows "exec (futex_step D) es (futex_init D) \<noteq> Fault x"
  using counted_machine.cm_exec_no_fault [OF fx_machine, of es x] assms by (simp add: exec_barring)

text \<open>A fiber for which a wake call was meant is not parked, unless that call is still on its way to it.\<close>

lemma fx_due_runs:
  assumes I: "fx_inv items m s" and due: "fx_due s t" and "\<And>u. \<not> fx_waking (fx_pc s u)"
  shows "fx_pc s t \<noteq> FxSuspend \<and> fx_pc s t \<noteq> FxParked"
proof -
  have loc: "fx_local items (fx_pc s u) = []" for u using assms(3) [of u] by (cases "fx_pc s u") simp_all
  have "t \<notin> set (items (fx_waiters s))" using fxI(7) [OF I, of t] due by blast
  then show ?thesis using listsD(7,8) [OF fxI(2) [OF I], of t] loc by auto
qed

end

subsection \<open>Who has been called stays called\<close>

text \<open>
  \<open>fx_settled\<close>: a wake call was meant for \<open>t\<close>, or \<open>t\<close> is not about to park. Only another \<open>PrepareWait\<close> of \<open>t\<close> ends it.
\<close>

definition fx_safe :: "'l futex_pc \<Rightarrow> bool" where
  "fx_safe p \<longleftrightarrow> fx_key p = None \<and> p \<noteq> FxSuspend \<and> p \<noteq> FxParked"

definition fx_settled :: "'l futex \<Rightarrow> tid \<Rightarrow> bool" where
  "fx_settled s t \<longleftrightarrow> fx_due s t \<or> fx_safe (fx_pc s t)"

lemma fx_safe_simps [simp]:
  "fx_safe FxIdle" "\<not> fx_safe (FxPrepared k)" "\<not> fx_safe (FxPark k)" "fx_safe FxLeave" "\<not> fx_safe FxSuspend" "\<not> fx_safe FxParked"
  "fx_safe FxWoken" "fx_safe (FxBump all)" "fx_safe (FxUnlock l)" "fx_safe (FxWake l c)"
  "\<not> fx_safe (FxLock (FxoPark k))" "fx_safe (FxLock (FxoWake all))" "\<not> fx_safe (FxSpin (FxoPark k))" "fx_safe (FxSpin (FxoWake all))"
  by (simp_all add: fx_safe_def)

lemma fx_settled_goto: "fx_settled s t \<Longrightarrow> (u = t \<Longrightarrow> fx_safe (fx_pc s t) \<Longrightarrow> fx_safe p) \<Longrightarrow> fx_settled (fx_goto u p s) t"
  by (auto simp: fx_settled_def fx_goto_def)

lemma fx_settled_cong: "fx_pc s' = fx_pc s \<Longrightarrow> (fx_due s t \<Longrightarrow> fx_due s' t) \<Longrightarrow> fx_settled s t \<Longrightarrow> fx_settled s' t"
  by (auto simp: fx_settled_def)

lemma fx_settled_run:
  assumes S: "fx_settled s t" and step: "futex_step D (FxRun u) s = Next s'"
  shows "fx_settled s' t"
proof (cases "fx_pc s u")
  case (FxLock op)
  have "fx_settled (s\<lparr>fx_locked := snd (atomic_exchange (fx_locked s) 1)\<rparr>) t" by (rule fx_settled_cong [OF _ _ S]) simp_all
  with FxLock step show ?thesis by (cases op) (auto simp: spin_lock_def atomic_simps intro!: fx_settled_goto)
next
  case (FxSpin op)
  with S step show ?thesis by (cases op) (auto simp: spin_wait_def intro!: fx_settled_goto split: if_splits)
next
  case (FxPark old)
  then show ?thesis using S step by (auto simp: fx_park_if_equal_def fx_settled_def fx_goto_def split: if_splits)
next
  case FxLeave
  with S step show ?thesis by (auto simp: fx_leave_def spin_unlock_def fx_settled_def fx_goto_def split: if_splits)
next
  case FxSuspend
  with S step show ?thesis by (auto simp: fx_await_suspend_def spin_unlock_def fx_settled_def fx_goto_def split: option.splits if_splits)
next
  case FxWoken
  with S step show ?thesis by (auto simp: fx_return_def spin_unlock_def fx_settled_def fx_goto_def split: option.splits if_splits)
next
  case (FxBump all)
  with S step show ?thesis by (auto simp: fx_bump_def atomic_simps fx_settled_def fx_goto_def Let_def split: prod.splits if_splits)
next
  case (FxUnlock l)
  with S step show ?thesis by (auto simp: fx_unlock_def spin_unlock_def fx_settled_def fx_goto_def split: if_splits)
next
  case (FxWake l count)
  with S step show ?thesis by (auto simp: fx_wake_def fx_settled_def fx_goto_def split: option.splits prod.splits if_splits)
qed (use step in simp_all)

lemma fx_settled_step:
  assumes S: "fx_settled s t" and step: "futex_step D e s = Next s'" and e: "e \<noteq> FxPrepare t"
  shows "fx_settled s' t"
proof (cases e)
  case (FxRun u)
  with fx_settled_run [OF S] step show ?thesis by simp
qed (use S step e in \<open>auto simp: fx_prepare_wait_def fx_clear_flag_def fx_settled_def fx_goto_def split: futex_pc.splits option.splits if_splits\<close>)

lemma fx_settled_exec:
  "exec (futex_step D) es s = Next s' \<Longrightarrow> fx_settled s t \<Longrightarrow> FxPrepare t \<notin> set es \<Longrightarrow> fx_settled s' t"
proof (induction es arbitrary: s)
  case (Cons e es)
  then obtain u where "futex_step D e s = Next u" "exec (futex_step D) es u = Next s'" by (auto split: outcome.splits)
  with Cons fx_settled_step [of s t D e u] show ?case by auto
qed simp

text \<open>\<open>WakeAll\<close> settles everybody.\<close>

lemma fx_wake_all_settles:
  assumes "fx_pc s u = FxBump True" "futex_step D (FxRun u) s = Next s'"
  shows "fx_settled s' t"
proof -
  have "fx_meant True p \<or> fx_safe p" for p :: "'a futex_pc"
  proof (cases p)
    case (FxLock op)
    then show ?thesis by (cases op) simp_all
  next
    case (FxSpin op)
    then show ?thesis by (cases op) simp_all
  qed simp_all
  then have "fx_meant True (fx_pc s t) \<or> fx_safe (fx_pc s t)" by blast
  with assms show ?thesis by (auto simp: fx_bump_def atomic_simps fx_settled_def fx_goto_def Let_def split: prod.splits if_splits)
qed

text \<open>\<open>WakeOne\<close> settles the first in the list and those that are on their way to it.\<close>

lemma fx_key_meant: "fx_key p \<noteq> None \<Longrightarrow> fx_meant all p"
  by (cases p) simp_all

context node_list
begin

lemma fx_wake_one_settles:
  assumes u: "fx_pc s u = FxBump False" and step: "futex_step D (FxRun u) s = Next s'"
    and t: "fx_key (fx_pc s t) \<noteq> None \<or> (\<exists>ns. items (fx_waiters s) = t # ns)"
  shows "fx_settled s' t"
  using t
proof
  assume "fx_key (fx_pc s t) \<noteq> None"
  with fx_key_meant [of "fx_pc s t" False] u step show ?thesis
    by (auto simp: fx_bump_def atomic_simps fx_settled_def fx_goto_def Let_def split: prod.splits if_splits)
next
  assume "\<exists>ns. items (fx_waiters s) = t # ns"
  then obtain ns where ns: "items (fx_waiters s) = t # ns" by blast
  obtain n ws where "nl_pop_front D (fx_waiters s) = (n, ws)" by (cases "nl_pop_front D (fx_waiters s)") auto
  with items_pop_front [OF ns this] ns u step show ?thesis
    by (auto simp: fx_bump_def atomic_simps fx_settled_def fx_goto_def Let_def)
qed

end

subsection \<open>Properties\<close>

text \<open>
  No wake-up is lost. Take any moment at which \<open>WakeAll\<close> changes the epoch, and any later state in which no wake call is on
  its way: a fiber that has not called \<open>PrepareWait\<close> again since that moment is not parked, wherever it was then, before
  \<open>ParkIfEqual\<close>, inside it or in the list. (In runs without \<open>fx_early\<close>.)
\<close>

theorem futex_wake_all_reaches:
  assumes "node_list D items" and "exec (futex_step D) es (futex_init D) = Next s" and "fx_pc s u = FxBump True"
    and "exec (futex_step D) (FxRun u # es') s = Next s'" and "FxPrepare t \<notin> set es'"
    and "\<forall>v. \<not> fx_waking (fx_pc s' v)" and "length es + length es' + 1 < 2 ^ 64"
    and "avoids (futex_step D) fx_early (es @ FxRun u # es') (futex_init D)"
  shows "fx_pc s' t \<noteq> FxSuspend \<and> fx_pc s' t \<noteq> FxParked"
proof -
  from assms(4) obtain s1 where s1: "futex_step D (FxRun u) s = Next s1" "exec (futex_step D) es' s1 = Next s'"
    by (auto simp del: futex_step.simps split: outcome.splits)
  have set: "fx_settled s' t" by (rule fx_settled_exec [OF s1(2) fx_wake_all_settles [OF assms(3) s1(1)] assms(5)])
  have "exec (futex_step D) (es @ FxRun u # es') (futex_init D) = Next s'" using assms(2,4) by (simp add: exec_append)
  from node_list.fx_reached [OF assms(1,8) this] assms(7) have "fx_inv items (length (es @ FxRun u # es')) s'" by simp
  from node_list.fx_due_runs [OF assms(1) this, of t] assms(6) set show ?thesis by (auto simp: fx_settled_def)
qed

text \<open>
  Fiber 1 parks, fiber 2 wakes all, fiber 3 comes too late to park; the flag of fiber 1 is cleared while the wake call is on its
  way, and fiber 1 returns.
\<close>

definition fx_park_run :: "futex_event list" where
  "fx_park_run = [FxPrepare 1, FxPrepare 3, FxParkIfEqual 1, FxRun 1, FxRun 1, FxRun 1, FxWakeAll 2, FxRun 2]"

definition fx_wake_run :: "futex_event list" where
  "fx_wake_run = [FxRun 2, FxRun 2, FxRun 2, FxClear 1, FxRun 1, FxParkIfEqual 3, FxRun 3, FxRun 3, FxRun 3]"

theorem futex_wake_all_reaches_witness:
  "\<exists>s s'. exec (futex_step plain_list) fx_park_run (futex_init plain_list) = Next s \<and> fx_pc s 1 = FxParked \<and>
     exec (futex_step plain_list) (FxRun 2 # fx_wake_run) s = Next s' \<and> fx_pc s' 1 \<noteq> FxParked \<and> fx_pc s' 3 \<noteq> FxParked"
proof -
  have "\<exists>s. exec (futex_step plain_list) fx_park_run (futex_init plain_list) = Next s \<and> fx_pc s 1 = FxParked \<and> fx_pc s 2 = FxBump True \<and>
      (\<exists>s'. exec (futex_step plain_list) (FxRun 2 # fx_wake_run) s = Next s' \<and> (\<forall>v. \<not> fx_waking (fx_pc s' v)))"
    by (simp add: fx_park_run_def fx_wake_run_def futex_defs plain_list_def atomic_simps)
  then obtain s s' where s: "exec (futex_step plain_list) fx_park_run (futex_init plain_list) = Next s" "fx_pc s 1 = FxParked" "fx_pc s 2 = FxBump True"
    "exec (futex_step plain_list) (FxRun 2 # fx_wake_run) s = Next s'" "\<forall>v. \<not> fx_waking (fx_pc s' v)" by blast
  have len: "length fx_park_run + length fx_wake_run + 1 < 2 ^ 64" by (simp add: fx_park_run_def fx_wake_run_def)
  have a: "avoids (futex_step plain_list) fx_early (fx_park_run @ FxRun 2 # fx_wake_run) (futex_init plain_list)"
    by (simp add: fx_park_run_def fx_wake_run_def fx_early_def futex_defs plain_list_def atomic_simps)
  have "FxPrepare 1 \<notin> set fx_wake_run" "FxPrepare 3 \<notin> set fx_wake_run" by (simp_all add: fx_wake_run_def)
  with futex_wake_all_reaches [OF plain.node_list_axioms s(1,3,4) _ s(5) len a] s(1,2,4) show ?thesis by blast
qed

text \<open>
  C34. As long as no fiber returns from its wait before the thread that suspended it has cleared the flag of its lock object
  (\<open>fx_early\<close>), the spin lock excludes, the list is first-in first-out and nothing dangles: in every state reached at most one
  fiber is between \<open>Lock\<close> and \<open>Unlock\<close>, those still in the list are the last ones that parked, in the order of their parking,
  and no step touches an awaiter that is gone or not yet suspended; when no fiber is inside a call, the futex can be destroyed.
\<close>

theorem futex_excludes:
  assumes "node_list D items" and "length es < 2 ^ 64" and "avoids (futex_step D) fx_early es (futex_init D)"
  shows "lands_in (\<lambda>s. (\<forall>t u. fx_holds (fx_pc s t) \<longrightarrow> fx_holds (fx_pc s u) \<longrightarrow> t = u) \<and> suffix (items (fx_waiters s)) (fx_parks s) \<and>
    ((\<forall>t. fx_pc s t = FxIdle) \<longrightarrow> fx_destroy D s = Next s)) (exec (futex_step D) es (futex_init D))"
proof (cases "exec (futex_step D) es (futex_init D)")
  case (Next s)
  note I = node_list.fx_reached [OF assms(1,3) Next assms(2)]
  have "fx_destroy D s = Next s" if "\<forall>t. fx_pc s t = FxIdle"
  proof -
    have "u \<notin> set (items (fx_waiters s))" for u using listsD(5) [OF fxI(2) [OF I], of u] that by auto
    then have "items (fx_waiters s) = []" by (cases "items (fx_waiters s)") auto
    then show ?thesis by (simp add: fx_destroy_def node_list.is_empty [OF assms(1)])
  qed
  with fxI(1,8) [OF I] Next show ?thesis by (simp add: spin_ok_def)
next
  case (Fault x)
  with node_list.fx_run_no_fault [OF assms(1,3,2)] show ?thesis by blast
qed simp

theorem futex_excludes_witness:
  "\<exists>s. exec (futex_step plain_list) (fx_park_run @ FxRun 2 # fx_wake_run) (futex_init plain_list) = Next s \<and>
     suffix (fx_waiters s) (fx_parks s) \<and> fx_parks s = [1] \<and> fx_waiters s = [] \<and> fx_pc s 1 = FxIdle"
proof -
  let ?es = "fx_park_run @ FxRun 2 # fx_wake_run"
  have "\<exists>s. exec (futex_step plain_list) ?es (futex_init plain_list) = Next s \<and> fx_parks s = [1] \<and> fx_waiters s = [] \<and> fx_pc s 1 = FxIdle"
    by (simp add: fx_park_run_def fx_wake_run_def futex_defs plain_list_def atomic_simps)
  then obtain s where s: "exec (futex_step plain_list) ?es (futex_init plain_list) = Next s"
    "fx_parks s = [1]" "fx_waiters s = []" "fx_pc s 1 = FxIdle" by blast
  have a: "avoids (futex_step plain_list) fx_early ?es (futex_init plain_list)"
    by (simp add: fx_park_run_def fx_wake_run_def fx_early_def futex_defs plain_list_def atomic_simps)
  have "length ?es < 2 ^ 64" by (simp add: fx_park_run_def fx_wake_run_def)
  from futex_excludes [OF plain.node_list_axioms this a] s show ?thesis by auto
qed

end
