(* ===== verification/Condvar.thy ===== *)
theory Condvar
  imports Fiber_Mutex Futex
begin

section \<open>The condition variable of the fibers\<close>

text \<open>
  \<open>fibers/sync/condvar.{h,cpp}\<close>: a \<open>FutexLike\<close> next to a \<open>Mutex\<close> of the caller. The state is that of the mutex, that of the
  futex, and where each fiber is in \<open>Wait\<close>; every step is one of the two components, made by a fiber that may make it. Outside
  \<open>Wait\<close> a fiber calls the mutex and the notifications as it likes, one call at a time. \<open>CvClear t\<close> is the end of the \<open>unlock\<close>
  that the thread which suspended \<open>t\<close> makes; \<open>cv_early\<close> says that \<open>t\<close> leaves \<open>ParkIfEqual\<close> before it (see \<open>Futex\<close>).
\<close>

datatype condvar_pc =
    CvOut
  | CvRelease      \<comment> \<open>it has the epoch: about to call \<open>lock.unlock()\<close>\<close>
  | CvUnlocking    \<comment> \<open>inside it\<close>
  | CvParking      \<comment> \<open>inside \<open>ParkIfEqual\<close>\<close>
  | CvLocking      \<comment> \<open>inside \<open>lock.lock()\<close>\<close>

record ('l, 'm) condvar =
  cv_futex :: "'l futex"
  cv_mutex :: "'m mutex"
  cv_pc :: "tid \<Rightarrow> condvar_pc"

datatype condvar_event = CvMutex mutex_event | CvWait tid | CvNotifyOne tid | CvNotifyAll tid | CvNotifyRun tid | CvRun tid addr | CvClear tid

definition condvar_init :: "'l list_ops \<Rightarrow> 'm intrusive \<Rightarrow> ('l, 'm) condvar" where
  "condvar_init D L = \<lparr>cv_futex = futex_init D, cv_mutex = mutex_init L, cv_pc = (\<lambda>_. CvOut)\<rparr>"

fun cv_fiber :: "mutex_event \<Rightarrow> tid" where
  "cv_fiber (MxEvTryLock t) = t"
| "cv_fiber (MxEvLock t n) = t"
| "cv_fiber (MxEvUnlock t) = t"
| "cv_fiber (MxEvRun t) = t"

definition cv_do_mutex :: "'m intrusive \<Rightarrow> mutex_event \<Rightarrow> ('l, 'm) condvar \<Rightarrow> ('l, 'm) condvar outcome" where
  "cv_do_mutex L e s =
     (case mutex_step L e (cv_mutex s) of Next m \<Rightarrow> Next (s\<lparr>cv_mutex := m\<rparr>) | Disabled \<Rightarrow> Disabled | Fault x \<Rightarrow> Fault x)"

definition cv_do_futex :: "'l list_ops \<Rightarrow> futex_event \<Rightarrow> ('l, 'm) condvar \<Rightarrow> ('l, 'm) condvar outcome" where
  "cv_do_futex D e s =
     (case futex_step D e (cv_futex s) of Next f \<Rightarrow> Next (s\<lparr>cv_futex := f\<rparr>) | Disabled \<Rightarrow> Disabled | Fault x \<Rightarrow> Fault x)"

definition cv_goto :: "tid \<Rightarrow> condvar_pc \<Rightarrow> ('l, 'm) condvar outcome \<Rightarrow> ('l, 'm) condvar outcome" where
  "cv_goto t p r = (case r of Next s \<Rightarrow> Next (s\<lparr>cv_pc := (cv_pc s)(t := p)\<rparr>) | _ \<Rightarrow> r)"

text \<open>\<open>Wait\<close>: the epoch is read with the mutex held.\<close>

definition cv_wait :: "'l list_ops \<Rightarrow> tid \<Rightarrow> ('l, 'm) condvar \<Rightarrow> ('l, 'm) condvar outcome" where
  "cv_wait D t s =
     (if cv_pc s t \<noteq> CvOut \<or> mx_pc (cv_mutex s) t \<noteq> MxOwner then Disabled else cv_goto t CvRelease (cv_do_futex D (FxPrepare t) s))"

definition cv_wait_run :: "'l list_ops \<Rightarrow> 'm intrusive \<Rightarrow> tid \<Rightarrow> addr \<Rightarrow> ('l, 'm) condvar \<Rightarrow> ('l, 'm) condvar outcome" where
  "cv_wait_run D L t n s =
     (case cv_pc s t of
        CvOut \<Rightarrow> Disabled
      | CvRelease \<Rightarrow> cv_goto t CvUnlocking (cv_do_mutex L (MxEvUnlock t) s)
      | CvUnlocking \<Rightarrow>
          if mx_pc (cv_mutex s) t = MxIdle then cv_goto t CvParking (cv_do_futex D (FxParkIfEqual t) s)
          else cv_do_mutex L (MxEvRun t) s
      | CvParking \<Rightarrow>
          (case fx_pc (cv_futex s) t of
             FxIdle \<Rightarrow> cv_goto t CvLocking (cv_do_mutex L (MxEvLock t n) s)
           | _ \<Rightarrow> cv_do_futex D (FxRun t) s)
      | CvLocking \<Rightarrow>
          if mx_pc (cv_mutex s) t = MxOwner then cv_goto t CvOut (Next s) else cv_do_mutex L (MxEvRun t) s)"

definition cv_notify_one :: "'l list_ops \<Rightarrow> tid \<Rightarrow> ('l, 'm) condvar \<Rightarrow> ('l, 'm) condvar outcome" where
  "cv_notify_one D t s = (if cv_pc s t \<noteq> CvOut then Disabled else cv_do_futex D (FxWakeOne t) s)"

definition cv_notify_all :: "'l list_ops \<Rightarrow> tid \<Rightarrow> ('l, 'm) condvar \<Rightarrow> ('l, 'm) condvar outcome" where
  "cv_notify_all D t s = (if cv_pc s t \<noteq> CvOut then Disabled else cv_do_futex D (FxWakeAll t) s)"

fun condvar_step :: "'l list_ops \<Rightarrow> 'm intrusive \<Rightarrow> condvar_event \<Rightarrow> ('l, 'm) condvar \<Rightarrow> ('l, 'm) condvar outcome" where
  "condvar_step D L (CvMutex e) s =
     (if cv_pc s (cv_fiber e) \<noteq> CvOut \<or> fx_pc (cv_futex s) (cv_fiber e) \<noteq> FxIdle then Disabled else cv_do_mutex L e s)"
| "condvar_step D L (CvWait t) s = cv_wait D t s"
| "condvar_step D L (CvNotifyOne t) s = cv_notify_one D t s"
| "condvar_step D L (CvNotifyAll t) s = cv_notify_all D t s"
| "condvar_step D L (CvNotifyRun t) s = (if cv_pc s t \<noteq> CvOut then Disabled else cv_do_futex D (FxRun t) s)"
| "condvar_step D L (CvRun t n) s = cv_wait_run D L t n s"
| "condvar_step D L (CvClear t) s = cv_do_futex D (FxClear t) s"

definition cv_early :: "condvar_event \<Rightarrow> ('l, 'm) condvar \<Rightarrow> bool" where
  "cv_early e s \<longleftrightarrow> (case e of
      CvRun t n \<Rightarrow> fx_early (FxRun t) (cv_futex s)
    | CvNotifyRun t \<Rightarrow> fx_early (FxRun t) (cv_futex s)
    | _ \<Rightarrow> False)"

lemmas condvar_defs =
  condvar_init_def cv_do_mutex_def cv_do_futex_def cv_goto_def cv_wait_def cv_wait_run_def cv_notify_one_def cv_notify_all_def

subsection \<open>Each step is one of the mutex or one of the futex\<close>

definition cv_simulates :: "'l list_ops \<Rightarrow> 'm intrusive \<Rightarrow> condvar_event \<Rightarrow> ('l, 'm) condvar \<Rightarrow> ('l, 'm) condvar outcome \<Rightarrow> bool" where
  "cv_simulates D L ev s r \<longleftrightarrow> (case r of
      Disabled \<Rightarrow> True
    | Fault x \<Rightarrow> (\<exists>e. mutex_step L e (cv_mutex s) = Fault x) \<or>
        (\<exists>e. futex_step D e (cv_futex s) = Fault x \<and> (fx_early e (cv_futex s) \<longrightarrow> cv_early ev s))
    | Next s' \<Rightarrow>
        (cv_futex s' = cv_futex s \<and> (cv_mutex s' = cv_mutex s \<or> (\<exists>e. mutex_step L e (cv_mutex s) = Next (cv_mutex s')))) \<or>
        (cv_mutex s' = cv_mutex s \<and> (\<exists>e. futex_step D e (cv_futex s) = Next (cv_futex s') \<and>
          (fx_early e (cv_futex s) \<longrightarrow> cv_early ev s) \<and> (\<forall>t. e = FxPrepare t \<longrightarrow> ev = CvWait t))))"

lemma cv_simulates_goto: "cv_simulates D L ev s r \<Longrightarrow> cv_simulates D L ev s (cv_goto t p r)"
  by (cases r) (simp_all add: cv_simulates_def cv_goto_def)

lemma cv_simulates_mutex: "cv_simulates D L ev s (cv_do_mutex L e s)"
  by (cases "mutex_step L e (cv_mutex s)") (auto simp: cv_simulates_def cv_do_mutex_def)

lemma cv_simulates_futex:
  assumes "\<And>t. e = FxPrepare t \<Longrightarrow> ev = CvWait t" and "\<And>t. e = FxRun t \<Longrightarrow> (\<exists>n. ev = CvRun t n) \<or> ev = CvNotifyRun t"
  shows "cv_simulates D L ev s (cv_do_futex D e s)"
proof -
  have "fx_early e (cv_futex s) \<longrightarrow> cv_early ev s" using assms(2) by (cases e) (auto simp: fx_early_def cv_early_def)
  with assms(1) show ?thesis by (cases "futex_step D e (cv_futex s)") (auto simp: cv_simulates_def cv_do_futex_def)
qed

lemma cv_simulates_none: "cv_simulates D L ev s Disabled" "cv_simulates D L ev s (Next s)"
  by (simp_all add: cv_simulates_def)

lemmas cv_simulatesI = cv_simulates_goto cv_simulates_mutex cv_simulates_futex cv_simulates_none

lemma condvar_step_simulates: "cv_simulates D L ev s (condvar_step D L ev s)"
proof (cases ev)
  case (CvRun t n)
  then show ?thesis by (auto simp: cv_wait_run_def intro!: cv_simulatesI split: condvar_pc.split futex_pc.split)
qed (auto simp: cv_wait_def cv_notify_one_def cv_notify_all_def intro!: cv_simulatesI)

text \<open>So the invariants of both hold.\<close>

definition cv_inv :: "('l \<Rightarrow> tid list) \<Rightarrow> (links \<Rightarrow> 'm \<Rightarrow> addr list \<Rightarrow> bool) \<Rightarrow> nat \<Rightarrow> ('l, 'm) condvar \<Rightarrow> bool" where
  "cv_inv items rep k s \<longleftrightarrow> fx_inv items k (cv_futex s) \<and> mutex_inv rep (cv_mutex s)"

lemma fx_inv_mono: "fx_inv items m s \<Longrightarrow> m \<le> k \<Longrightarrow> fx_inv items k s"
  by (simp add: fx_inv_def)

lemma condvar_inv_step:
  assumes D: "node_list D items" and L: "intrusive_list L rep"
    and I: "cv_inv items rep k s" and k: "Suc k < 2 ^ 64" and ok: "\<not> cv_early e s"
  shows "lands_in (cv_inv items rep (Suc k)) (condvar_step D L e s)"
proof -
  have F: "lands_in (fx_inv items (Suc k)) (futex_step D e' (cv_futex s))" if "fx_early e' (cv_futex s) \<longrightarrow> cv_early e s" for e'
    using node_list.fx_inv_step [OF D _ k] I that ok by (simp add: cv_inv_def)
  have M: "lands_in (mutex_inv rep) (mutex_step L e' (cv_mutex s))" for e'
    using intrusive_list.mutex_inv_step [OF L] I by (simp add: cv_inv_def)
  show ?thesis
  proof (cases "condvar_step D L e s")
    case (Next s')
    with condvar_step_simulates [of D L e s] have
      "(cv_futex s' = cv_futex s \<and> (cv_mutex s' = cv_mutex s \<or> (\<exists>e. mutex_step L e (cv_mutex s) = Next (cv_mutex s')))) \<or>
       (cv_mutex s' = cv_mutex s \<and> (\<exists>e'. futex_step D e' (cv_futex s) = Next (cv_futex s') \<and> (fx_early e' (cv_futex s) \<longrightarrow> cv_early e s)))"
      by (auto simp: cv_simulates_def)
    moreover have "fx_inv items (Suc k) (cv_futex s)" using fx_inv_mono [of items k] I by (simp add: cv_inv_def)
    moreover have "mutex_inv rep (cv_mutex s)" using I by (simp add: cv_inv_def)
    ultimately show ?thesis using F M Next by (auto simp: cv_inv_def) (metis lands_in.simps(1))+
  next
    case (Fault x)
    with condvar_step_simulates [of D L e s] F M show ?thesis by (auto simp: cv_simulates_def) (metis lands_in.simps(3))+
  qed simp
qed

lemma condvar_machine:
  assumes D: "node_list D items" and L: "intrusive_list L rep"
  shows "counted_machine (barring (condvar_step D L) cv_early) (condvar_init D L) (cv_inv items rep) (2 ^ 64 - 1)"
proof (rule counted_machineI)
  show "cv_inv items rep 0 (condvar_init D L)"
    using counted_machine.cm_init [OF node_list.fx_machine [OF D]] intrusive_list.mutex_inv_init [OF L]
    by (simp add: cv_inv_def condvar_init_def)
next
  fix k s e assume "cv_inv items rep k s" "k < 2 ^ 64 - 1"
  then show "lands_in (cv_inv items rep (Suc k)) (barring (condvar_step D L) cv_early e s)"
    using condvar_inv_step [OF D L, of k s e] by (simp add: barring_def)
qed

lemma cv_reached:
  assumes "node_list D items" "intrusive_list L rep" "avoids (condvar_step D L) cv_early es (condvar_init D L)"
    "exec (condvar_step D L) es (condvar_init D L) = Next s" "length es < 2 ^ 64"
  shows "cv_inv items rep (length es) s"
  by (rule counted_machine.cm_exec_inv [OF condvar_machine [OF assms(1,2)]]) (use assms in \<open>simp_all add: exec_barring\<close>)

lemma cv_run_no_fault:
  assumes "node_list D items" "intrusive_list L rep" "avoids (condvar_step D L) cv_early es (condvar_init D L)" "length es < 2 ^ 64"
  shows "exec (condvar_step D L) es (condvar_init D L) \<noteq> Fault x"
  using counted_machine.cm_exec_no_fault [OF condvar_machine [OF assms(1,2)], of es x] assms by (simp add: exec_barring)

subsection \<open>Notifications\<close>

lemma cv_settled_step:
  assumes "fx_settled (cv_futex s) t" "condvar_step D L e s = Next s'" "e \<noteq> CvWait t"
  shows "fx_settled (cv_futex s') t"
proof -
  from condvar_step_simulates [of D L e s] assms(2) have "cv_futex s' = cv_futex s \<or>
      (\<exists>e'. futex_step D e' (cv_futex s) = Next (cv_futex s') \<and> (\<forall>t. e' = FxPrepare t \<longrightarrow> e = CvWait t))"
    by (auto simp: cv_simulates_def)
  then show ?thesis
  proof
    assume "\<exists>e'. futex_step D e' (cv_futex s) = Next (cv_futex s') \<and> (\<forall>t. e' = FxPrepare t \<longrightarrow> e = CvWait t)"
    then obtain e' where e': "futex_step D e' (cv_futex s) = Next (cv_futex s')" "e' = FxPrepare t \<longrightarrow> e = CvWait t" by blast
    with assms(3) show ?thesis by (intro fx_settled_step [OF assms(1) e'(1)]) blast
  qed (use assms(1) in simp)
qed

lemma cv_settled_exec:
  "exec (condvar_step D L) es s = Next s' \<Longrightarrow> fx_settled (cv_futex s) t \<Longrightarrow> CvWait t \<notin> set es \<Longrightarrow> fx_settled (cv_futex s') t"
proof (induction es arbitrary: s)
  case (Cons e es)
  then obtain u where u: "condvar_step D L e s = Next u" "exec (condvar_step D L) es u = Next s'"
    by (auto simp del: condvar_step.simps split: outcome.splits)
  have "fx_settled (cv_futex u) t" by (rule cv_settled_step [OF Cons.prems(2) u(1)]) (use Cons.prems(3) in auto)
  with Cons.IH [OF u(2)] Cons.prems(3) show ?case by simp
qed simp

text \<open>Whom a notification is for: \<open>NotifyAll\<close> for everybody, \<open>NotifyOne\<close> for the first in the list and those on their way to it.\<close>

definition cv_meant :: "('l \<Rightarrow> tid list) \<Rightarrow> bool \<Rightarrow> ('l, 'm) condvar \<Rightarrow> tid \<Rightarrow> bool" where
  "cv_meant items all s t \<longleftrightarrow> all \<or> fx_key (fx_pc (cv_futex s) t) \<noteq> None \<or> (\<exists>ns. items (fx_waiters (cv_futex s)) = t # ns)"

lemma cv_notify_settles:
  assumes D: "node_list D items" and u: "fx_pc (cv_futex s) u = FxBump all" and step: "condvar_step D L (CvNotifyRun u) s = Next s'"
    and t: "cv_meant items all s t"
  shows "fx_settled (cv_futex s') t"
proof -
  from step have f: "futex_step D (FxRun u) (cv_futex s) = Next (cv_futex s')"
    by (auto simp: cv_do_futex_def split: if_splits outcome.splits)
  show ?thesis
  proof (cases all)
    case True
    with fx_wake_all_settles [of "cv_futex s" u, OF _ f] u show ?thesis by simp
  next
    case False
    with t u f show ?thesis by (auto simp: cv_meant_def intro: node_list.fx_wake_one_settles [OF D])
  qed
qed

subsection \<open>Properties\<close>

text \<open>
  C35. No notification is lost. Take any moment at which \<open>NotifyAll\<close> or \<open>NotifyOne\<close> changes the epoch, a fiber it is for (all
  that are waiting; or the one that has waited longest and those that have not yet parked), and any later state in which no
  notification is on its way: unless the fiber has called \<open>Wait\<close> again, it is not parked in the futex. This is of runs in which
  no fiber leaves \<open>ParkIfEqual\<close> before the thread that suspended it has ended its \<open>unlock\<close> (\<open>cv_early\<close>). A fiber counts as waiting
  as soon as \<open>Wait\<close> has read the epoch, with the mutex still held, so one that tests its condition under the mutex cannot
  miss a change made under the mutex.
\<close>

theorem condvar_notifies:
  assumes "node_list D items" and "intrusive_list L rep"
    and "exec (condvar_step D L) es (condvar_init D L) = Next s" and "fx_pc (cv_futex s) u = FxBump all" and "cv_meant items all s t"
    and "exec (condvar_step D L) (CvNotifyRun u # es') s = Next s'" and "CvWait t \<notin> set es'"
    and "\<forall>v. \<not> fx_waking (fx_pc (cv_futex s') v)" and "length es + length es' + 1 < 2 ^ 64"
    and "avoids (condvar_step D L) cv_early (es @ CvNotifyRun u # es') (condvar_init D L)"
  shows "fx_pc (cv_futex s') t \<noteq> FxSuspend \<and> fx_pc (cv_futex s') t \<noteq> FxParked"
proof -
  from assms(6) obtain s1 where s1: "condvar_step D L (CvNotifyRun u) s = Next s1" "exec (condvar_step D L) es' s1 = Next s'"
    by (auto simp del: condvar_step.simps split: outcome.splits)
  have set: "fx_settled (cv_futex s') t"
    by (rule cv_settled_exec [OF s1(2) cv_notify_settles [OF assms(1,4) s1(1) assms(5)] assms(7)])
  have "exec (condvar_step D L) (es @ CvNotifyRun u # es') (condvar_init D L) = Next s'" using assms(3,6) by (simp add: exec_append)
  from cv_reached [OF assms(1,2,10) this] assms(9) have "fx_inv items (length (es @ CvNotifyRun u # es')) (cv_futex s')" by (simp add: cv_inv_def)
  from node_list.fx_due_runs [OF assms(1) this, of t] assms(8) set show ?thesis by (auto simp: fx_settled_def)
qed

text \<open>Fiber 1 locks, waits and parks; fiber 2 locks, notifies with the mutex held and unlocks; fiber 1 returns with the mutex.\<close>

definition cv_wait_part :: "condvar_event list" where
  "cv_wait_part = [CvMutex (MxEvLock 1 16), CvWait 1, CvRun 1 0, CvRun 1 0, CvRun 1 0, CvRun 1 0, CvRun 1 0, CvRun 1 0, CvRun 1 0,
     CvMutex (MxEvLock 2 32), CvNotifyOne 2, CvNotifyRun 2]"

definition cv_notify_part :: "condvar_event list" where
  "cv_notify_part = [CvNotifyRun 2, CvNotifyRun 2, CvNotifyRun 2, CvClear 1, CvRun 1 0]"

lemma cv_witness_run:
  "\<exists>s. exec (condvar_step plain_list ptr_list) cv_wait_part (condvar_init plain_list ptr_list) = Next s \<and>
     fx_pc (cv_futex s) 1 = FxParked \<and> fx_pc (cv_futex s) 2 = FxBump False \<and> fx_waiters (cv_futex s) = [1] \<and>
     (\<exists>s'. exec (condvar_step plain_list ptr_list) (CvNotifyRun 2 # cv_notify_part) s = Next s' \<and> (\<forall>v. \<not> fx_waking (fx_pc (cv_futex s') v)))"
  by (simp add: cv_wait_part_def cv_notify_part_def condvar_defs futex_defs plain_list_def machine_simps ptr_run_simps atomic_simps)

theorem condvar_notifies_witness:
  "\<exists>s s'. exec (condvar_step plain_list ptr_list) cv_wait_part (condvar_init plain_list ptr_list) = Next s \<and> fx_pc (cv_futex s) 1 = FxParked \<and>
     exec (condvar_step plain_list ptr_list) (CvNotifyRun 2 # cv_notify_part) s = Next s' \<and> fx_pc (cv_futex s') 1 \<noteq> FxParked"
proof -
  from cv_witness_run obtain s s' where s: "exec (condvar_step plain_list ptr_list) cv_wait_part (condvar_init plain_list ptr_list) = Next s"
    "fx_pc (cv_futex s) 1 = FxParked" "fx_pc (cv_futex s) 2 = FxBump False" "fx_waiters (cv_futex s) = [1]"
    "exec (condvar_step plain_list ptr_list) (CvNotifyRun 2 # cv_notify_part) s = Next s'" "\<forall>v. \<not> fx_waking (fx_pc (cv_futex s') v)" by blast
  have m: "cv_meant (\<lambda>l. l) False s 1" using s(4) by (simp add: cv_meant_def)
  have len: "length cv_wait_part + length cv_notify_part + 1 < 2 ^ 64" "CvWait 1 \<notin> set cv_notify_part"
    by (simp_all add: cv_wait_part_def cv_notify_part_def)
  have a: "avoids (condvar_step plain_list ptr_list) cv_early (cv_wait_part @ CvNotifyRun 2 # cv_notify_part) (condvar_init plain_list ptr_list)"
    by (simp add: cv_wait_part_def cv_notify_part_def cv_early_def fx_early_def condvar_defs futex_defs plain_list_def machine_simps
        ptr_run_simps atomic_simps)
  from condvar_notifies [OF plain.node_list_axioms ptr.intrusive_list_axioms s(1,3) m s(5) len(2) s(6) len(1) a] s(1,2,5)
  show ?thesis by blast
qed

text \<open>
  C36. \<open>Wait\<close> ends with the mutex: a fiber that leaves it owns the mutex. As long as no fiber leaves \<open>ParkIfEqual\<close> before the
  thread that suspended it has ended its \<open>unlock\<close> (\<open>cv_early\<close>), at most one fiber owns the mutex in every state reached, and no
  step of a condition variable and its mutex fails.
\<close>

theorem condvar_wait_relocks:
  assumes "node_list D items" and "intrusive_list L rep" and "length es < 2 ^ 64"
    and "avoids (condvar_step D L) cv_early es (condvar_init D L)"
  shows "lands_in (\<lambda>s. (\<forall>t u. mx_holds (mx_pc (cv_mutex s) t) \<longrightarrow> mx_holds (mx_pc (cv_mutex s) u) \<longrightarrow> t = u) \<and>
      (\<forall>e t s'. condvar_step D L e s = Next s' \<longrightarrow> cv_pc s t \<noteq> CvOut \<longrightarrow> cv_pc s' t = CvOut \<longrightarrow> mx_pc (cv_mutex s') t = MxOwner))
    (exec (condvar_step D L) es (condvar_init D L))"
proof (cases "exec (condvar_step D L) es (condvar_init D L)")
  case (Next s)
  from cv_reached [OF assms(1,2,4) Next assms(3)] obtain own xs ws where I: "mutex_inv_with rep own xs ws (cv_mutex s)"
    by (auto simp: cv_inv_def mutex_inv_def)
  have keep: "cv_do_mutex L e s = Next s' \<Longrightarrow> cv_pc s' = cv_pc s" "cv_do_futex D f s = Next s' \<Longrightarrow> cv_pc s' = cv_pc s" for e f s'
    by (auto simp: cv_do_mutex_def cv_do_futex_def split: outcome.splits)
  have out: "mx_pc (cv_mutex s') t = MxOwner"
    if step: "condvar_step D L e s = Next s'" and pc: "cv_pc s t \<noteq> CvOut" "cv_pc s' t = CvOut" for e t s'
  proof (cases e)
    case (CvRun u n)
    show ?thesis
    proof (cases "cv_pc s u")
      case CvLocking
      with CvRun step pc show ?thesis
        by (cases "mx_pc (cv_mutex s) u = MxOwner") (auto simp: cv_wait_run_def cv_goto_def dest: keep split: if_splits)
    qed (use CvRun step pc in \<open>auto simp: cv_wait_run_def cv_goto_def dest: keep split: outcome.splits futex_pc.splits if_splits\<close>)
  qed (use step pc in \<open>auto simp: cv_wait_def cv_notify_one_def cv_notify_all_def cv_goto_def dest: keep split: outcome.splits if_splits\<close>)
  show ?thesis using mxI_holds [OF I] out Next by auto
next
  case (Fault x)
  with cv_run_no_fault [OF assms(1,2,4,3)] show ?thesis by blast
qed simp

text \<open>The whole of it: fiber 2 unlocks, and fiber 1 comes back from \<open>Wait\<close> with the mutex.\<close>

definition cv_return_part :: "condvar_event list" where
  "cv_return_part = [CvMutex (MxEvUnlock 2), CvMutex (MxEvRun 2), CvMutex (MxEvRun 2), CvRun 1 48, CvRun 1 0]"

theorem condvar_wait_relocks_witness:
  "\<exists>s. exec (condvar_step plain_list ptr_list) (cv_wait_part @ CvNotifyRun 2 # cv_notify_part @ cv_return_part)
       (condvar_init plain_list ptr_list) = Next s \<and>
     cv_pc s 1 = CvOut \<and> (\<forall>u. mx_holds (mx_pc (cv_mutex s) u) \<longrightarrow> u = 1)"
proof -
  let ?es = "cv_wait_part @ CvNotifyRun 2 # cv_notify_part @ cv_return_part"
  have "\<exists>s. exec (condvar_step plain_list ptr_list) ?es (condvar_init plain_list ptr_list) = Next s \<and> cv_pc s 1 = CvOut \<and>
      mx_holds (mx_pc (cv_mutex s) 1)"
    by (simp add: cv_wait_part_def cv_notify_part_def cv_return_part_def condvar_defs futex_defs plain_list_def machine_simps
        ptr_run_simps atomic_simps)
  then obtain s where s: "exec (condvar_step plain_list ptr_list) ?es (condvar_init plain_list ptr_list) = Next s" "cv_pc s 1 = CvOut"
    "mx_holds (mx_pc (cv_mutex s) 1)" by blast
  have a: "avoids (condvar_step plain_list ptr_list) cv_early ?es (condvar_init plain_list ptr_list)"
    by (simp add: cv_wait_part_def cv_notify_part_def cv_return_part_def cv_early_def fx_early_def condvar_defs futex_defs plain_list_def
        machine_simps ptr_run_simps atomic_simps)
  have "length ?es < 2 ^ 64" by (simp add: cv_wait_part_def cv_notify_part_def cv_return_part_def)
  from condvar_wait_relocks [OF plain.node_list_axioms ptr.intrusive_list_axioms this a] s show ?thesis by auto
qed

end
