(* ===== verification/Blocking_Wait.thy ===== *)
theory Blocking_Wait
  imports Blocking_Queue
begin

section \<open>Threads that wait: OneShotEvent and CyclicBarrier\<close>

text \<open>
  \<open>concurrency/oneshotevent.h\<close>, \<open>concurrency/barrier.h\<close>: objects of one \<open>std::mutex\<close> and one \<open>std::condition_variable\<close>. As in
  \<open>Blocking_Queue\<close> a definition is one critical section, the threads asleep in \<open>wait\<close> are a set, the thread that a
  \<open>notify_one\<close> wakes is chosen outside, and a sleeper may also wake for no reason. One that is awake again looks at the
  condition once more.
\<close>

subsection \<open>OneShotEvent\<close>

record thread_event =
  te_fired :: bool
  te_asleep :: "tid set"

definition thread_event_new :: thread_event where
  "thread_event_new = \<lparr>te_fired = False, te_asleep = {}\<rparr>"

text \<open>The loop of \<open>Wait\<close>, up to its end (\<open>True\<close>) or to the next sleep.\<close>

definition te_wait :: "tid \<Rightarrow> thread_event \<Rightarrow> bool \<times> thread_event" where
  "te_wait t e = (if te_fired e then (True, e) else (False, e\<lparr>te_asleep := insert t (te_asleep e)\<rparr>))"

definition te_fire :: "tid option \<Rightarrow> thread_event \<Rightarrow> thread_event" where
  "te_fire wake e = e\<lparr>te_fired := True, te_asleep := te_asleep e - set_option wake\<rparr>"

definition te_spurious :: "tid \<Rightarrow> thread_event \<Rightarrow> thread_event" where
  "te_spurious t e = e\<lparr>te_asleep := te_asleep e - {t}\<rparr>"

lemmas te_defs = thread_event_new_def te_wait_def te_fire_def te_spurious_def

text \<open>\<open>notify_one\<close> wakes one thread: of two that wait, the other sleeps on although the event has been fired.\<close>

lemma thread_event_two_waiters:
  "wake_ok (te_asleep (snd (te_wait 2 (snd (te_wait 1 thread_event_new))))) (Some 1) \<and>
   2 \<in> te_asleep (te_fire (Some 1) (snd (te_wait 2 (snd (te_wait 1 thread_event_new)))))"
  by (simp add: te_defs)

subsection \<open>CyclicBarrier\<close>

text \<open>
  A thread inside \<open>ArriveAndWait\<close> remembers the generation it saw. \<open>ba_arrivals\<close> counts all calls, and \<open>ba_ticket\<close> says which of
  them a thread is in; no operation reads them.
\<close>

datatype barrier_pc = BaOut | BaIn u64

record barrier =
  ba_participants :: u64
  ba_generation :: u64
  ba_arrived :: u64
  ba_asleep :: "tid set"
  ba_pc :: "tid \<Rightarrow> barrier_pc"
  ba_arrivals :: nat
  ba_ticket :: "tid \<Rightarrow> nat"

datatype barrier_event = BaArrive tid | BaRun tid | BaSpurious tid

definition barrier_new :: "u64 \<Rightarrow> fault + barrier" where
  "barrier_new n =
     (if n = 0 then Inl (AssertFailed ''participants > 0'')
      else Inr \<lparr>ba_participants = n, ba_generation = 0, ba_arrived = 0, ba_asleep = {}, ba_pc = (\<lambda>_. BaOut), ba_arrivals = 0, ba_ticket = (\<lambda>_. 0)\<rparr>)"

text \<open>The loop at the end: return, or sleep.\<close>

definition ba_loop :: "tid \<Rightarrow> u64 \<Rightarrow> barrier \<Rightarrow> barrier" where
  "ba_loop t gen b =
     (if gen = ba_generation b then b\<lparr>ba_asleep := insert t (ba_asleep b), ba_pc := (ba_pc b)(t := BaIn gen)\<rparr>
      else b\<lparr>ba_pc := (ba_pc b)(t := BaOut)\<rparr>)"

text \<open>What comes before it: the last thread of a round begins the next one and wakes everybody.\<close>

definition ba_arrive :: "tid \<Rightarrow> barrier \<Rightarrow> barrier" where
  "ba_arrive t b =
     (let b1 = b\<lparr>ba_arrived := ba_arrived b + 1, ba_ticket := (ba_ticket b)(t := ba_arrivals b), ba_arrivals := Suc (ba_arrivals b)\<rparr> in
      if ba_arrived b1 = ba_participants b1
      then b1\<lparr>ba_generation := ba_generation b1 + 1, ba_arrived := 0, ba_asleep := {}\<rparr> else b1)"

definition ba_arrive_and_wait :: "tid \<Rightarrow> barrier \<Rightarrow> barrier" where
  "ba_arrive_and_wait t b = (let this_thread_generation = ba_generation b in ba_loop t this_thread_generation (ba_arrive t b))"

fun barrier_step :: "barrier_event \<Rightarrow> barrier \<Rightarrow> barrier outcome" where
  "barrier_step (BaArrive t) b = (if ba_pc b t = BaOut then Next (ba_arrive_and_wait t b) else Disabled)"
| "barrier_step (BaRun t) b =
     (case ba_pc b t of BaOut \<Rightarrow> Disabled | BaIn gen \<Rightarrow> if t \<in> ba_asleep b then Disabled else Next (ba_loop t gen b))"
| "barrier_step (BaSpurious t) b = (if t \<in> ba_asleep b then Next (b\<lparr>ba_asleep := ba_asleep b - {t}\<rparr>) else Disabled)"

lemmas barrier_defs = barrier_new_def ba_loop_def ba_arrive_def ba_arrive_and_wait_def

text \<open>The number of arrivals after which the round of a ticket is complete.\<close>

definition ba_round_end :: "barrier \<Rightarrow> nat \<Rightarrow> nat" where
  "ba_round_end b ticket = Suc (ticket div unat (ba_participants b)) * unat (ba_participants b)"

definition ba_inv :: "u64 \<Rightarrow> nat \<Rightarrow> barrier \<Rightarrow> bool" where
  "ba_inv n m b \<longleftrightarrow>
     ba_participants b = n \<and> n \<noteq> 0 \<and> ba_arrivals b \<le> m \<and> unat (ba_arrived b) < unat n \<and>
     unat (ba_generation b) * unat n + unat (ba_arrived b) = ba_arrivals b \<and>
     (\<forall>t g. ba_pc b t = BaIn g \<longrightarrow> ba_ticket b t < ba_arrivals b \<and> unat g = ba_ticket b t div unat n) \<and>
     (\<forall>t\<in>ba_asleep b. ba_pc b t = BaIn (ba_generation b))"

lemma baI:
  assumes "ba_inv n m b"
  shows "ba_participants b = n" "n \<noteq> 0" "ba_arrivals b \<le> m" "unat (ba_arrived b) < unat n"
    "unat (ba_generation b) * unat n + unat (ba_arrived b) = ba_arrivals b"
    "ba_pc b t = BaIn g \<Longrightarrow> ba_ticket b t < ba_arrivals b" "ba_pc b t = BaIn g \<Longrightarrow> unat g = ba_ticket b t div unat n"
    "t \<in> ba_asleep b \<Longrightarrow> ba_pc b t = BaIn (ba_generation b)"
  using assms unfolding ba_inv_def by blast+

lemma ba_loop_inv:
  assumes I: "ba_inv n m b" and t: "ba_ticket b t < ba_arrivals b" "unat g = ba_ticket b t div unat n" and a: "t \<notin> ba_asleep b"
  shows "ba_inv n m (ba_loop t g b)"
  using I t a unfolding ba_inv_def ba_loop_def by (auto split: if_splits)

text \<open>The generation is the number of complete rounds; nobody's round is complete before all have arrived.\<close>

lemma ba_generation_div:
  assumes "ba_inv n m b"
  shows "unat (ba_generation b) = ba_arrivals b div unat n"
proof -
  have "ba_arrivals b div unat n = (unat (ba_generation b) * unat n + unat (ba_arrived b)) div unat n"
    using baI(5) [OF assms] by simp
  then show ?thesis using baI(2,4) [OF assms] by (simp add: unat_eq_zero)
qed

lemma ba_arrive_inv:
  assumes I: "ba_inv n m b" and out: "ba_pc b t = BaOut" and m: "Suc m < 2 ^ 64"
  shows "ba_inv n (Suc m) (ba_arrive t b)"
proof -
  let ?N = "unat n" and ?b1 = "b\<lparr>ba_arrived := ba_arrived b + 1, ba_ticket := (ba_ticket b)(t := ba_arrivals b), ba_arrivals := Suc (ba_arrivals b)\<rparr>"
  have N: "0 < ?N" using baI(2) [OF I] by (simp add: unat_gt_0)
  have "?N < 18446744073709551616" using unsigned_less [of n] by simp
  then have a: "unat (ba_arrived b + 1) = Suc (unat (ba_arrived b))"
    using baI(4) [OF I] by (simp add: unat_word_ariths)
  have "unat (ba_generation b) \<le> unat (ba_generation b) * ?N" using N by simp
  also have "\<dots> \<le> m" using baI(3,5) [OF I] by linarith
  finally have g: "unat (ba_generation b + 1) = Suc (unat (ba_generation b))" using m by (simp add: unat_word_ariths)
  have full: "ba_arrived b + 1 = n \<longleftrightarrow> Suc (unat (ba_arrived b)) = ?N" using a by (metis unsigned_word_eqI)
  have asleep: "t \<notin> ba_asleep b" using baI(8) [OF I] out by fastforce
  show ?thesis
  proof (cases "ba_arrived b + 1 = n")
    case True
    have "Suc (unat (ba_generation b)) * ?N = Suc (ba_arrivals b)" using True full baI(5) [OF I] by simp
    with True I g N out show ?thesis unfolding ba_inv_def ba_arrive_def by (auto simp: less_Suc_eq)
  next
    case False
    have "Suc (unat (ba_arrived b)) < ?N" using False full baI(4) [OF I] by linarith
    with False I a out asleep show ?thesis unfolding ba_inv_def ba_arrive_def by (auto simp: less_Suc_eq)
  qed
qed

lemma ba_arrive_ticket:
  "ba_ticket (ba_arrive t b) t = ba_arrivals b" "ba_arrivals (ba_arrive t b) = Suc (ba_arrivals b)"
  "t \<notin> ba_asleep b \<Longrightarrow> t \<notin> ba_asleep (ba_arrive t b)"
  by (simp_all add: ba_arrive_def Let_def)

lemma ba_arrive_and_wait_eq: "ba_arrive_and_wait t b = ba_loop t (ba_generation b) (ba_arrive t b)"
  by (simp add: ba_arrive_and_wait_def)

lemma ba_out_awake: "ba_inv n m b \<Longrightarrow> ba_pc b t = BaOut \<Longrightarrow> t \<notin> ba_asleep b"
  using baI(8) by fastforce

lemma ba_inv_later: "ba_inv n m b \<Longrightarrow> ba_inv n (Suc m) b"
  by (simp add: ba_inv_def)

lemma ba_inv_step:
  assumes I: "ba_inv n m b" and m: "Suc m < 2 ^ 64"
  shows "lands_in (ba_inv n (Suc m)) (barrier_step e b)"
proof (cases e)
  case (BaArrive t)
  show ?thesis
  proof (cases "ba_pc b t")
    case BaOut
    have "ba_inv n (Suc m) (ba_arrive_and_wait t b)"
      unfolding ba_arrive_and_wait_eq using ba_generation_div [OF I] ba_out_awake [OF I BaOut]
      by (intro ba_loop_inv ba_arrive_inv [OF I BaOut m]) (simp_all add: ba_arrive_ticket)
    then show ?thesis using BaArrive BaOut by simp
  qed (simp add: BaArrive)
next
  case (BaRun t)
  show ?thesis
  proof (cases "ba_pc b t")
    case (BaIn g)
    with ba_loop_inv [OF ba_inv_later [OF I], of t g] baI(6,7) [OF I BaIn] BaRun show ?thesis by simp
  qed (simp add: BaRun)
next
  case (BaSpurious t)
  with ba_inv_later [OF I] show ?thesis by (auto simp: ba_inv_def)
qed

lemma ba_machine: "barrier_new n = Inr b \<Longrightarrow> counted_machine barrier_step b (ba_inv n) (2 ^ 64 - 1)"
proof (rule counted_machineI)
  assume "barrier_new n = Inr b"
  then show "ba_inv n 0 b" by (auto simp: barrier_new_def ba_inv_def unat_gt_0 split: if_splits)
qed (rule ba_inv_step, simp_all)

text \<open>The loop returns exactly when the round of the thread is complete.\<close>

lemma ba_loop_same:
  "ba_participants (ba_loop t g b) = ba_participants b" "ba_arrivals (ba_loop t g b) = ba_arrivals b"
  "ba_ticket (ba_loop t g b) = ba_ticket b"
  by (simp_all add: ba_loop_def)

lemma ba_round_same: "ba_round_end (ba_loop t g b) = ba_round_end b"
  by (simp add: ba_round_end_def fun_eq_iff ba_loop_same)

lemma ba_loop_returns:
  assumes I: "ba_inv n m b" and t: "ba_ticket b t < ba_arrivals b" "unat g = ba_ticket b t div unat n"
  shows "ba_pc (ba_loop t g b) t = BaOut \<longleftrightarrow> ba_round_end b (ba_ticket b t) \<le> ba_arrivals b"
proof -
  have N: "0 < unat n" using baI(2) [OF I] by (simp add: unat_gt_0)
  have "ba_ticket b t div unat n \<le> ba_arrivals b div unat n" using t(1) by (simp add: div_le_mono)
  moreover have "g = ba_generation b \<longleftrightarrow> ba_ticket b t div unat n = ba_arrivals b div unat n"
    using t(2) ba_generation_div [OF I] by (metis unsigned_word_eqI)
  moreover have "ba_round_end b (ba_ticket b t) \<le> ba_arrivals b \<longleftrightarrow> Suc (ba_ticket b t div unat n) \<le> ba_arrivals b div unat n"
    unfolding ba_round_end_def baI(1) [OF I] by (rule less_eq_div_iff_mult_less_eq [OF N, symmetric])
  ultimately show ?thesis by (auto simp: ba_loop_def)
qed

lemma ba_asleep_early:
  assumes I: "ba_inv n m b" and s: "t \<in> ba_asleep b"
  shows "ba_arrivals b < ba_round_end b (ba_ticket b t)"
  using ba_loop_returns [OF I baI(6,7) [OF I baI(8) [OF I s]]] by (auto simp: ba_loop_def)

text \<open>
  C37. A thread returns from \<open>ArriveAndWait\<close> only after all participants of its round have arrived, also if it wakes for
  no reason and also if faster threads are already in later rounds. Once they have, it is not asleep, and its next look at
  the generation returns.
\<close>

theorem barrier_meets:
  assumes "barrier_new n = Inr b0" and "exec barrier_step es b0 = Next b" and "length es < 2 ^ 64 - 1"
  shows "(\<forall>b'. barrier_step (BaArrive t) b = Next b' \<longrightarrow>
            (ba_pc b' t = BaOut \<longleftrightarrow> ba_round_end b' (ba_ticket b' t) \<le> ba_arrivals b')) \<and>
         (\<forall>g. ba_pc b t = BaIn g \<longrightarrow>
            (if ba_round_end b (ba_ticket b t) \<le> ba_arrivals b
             then \<exists>b'. barrier_step (BaRun t) b = Next b' \<and> ba_pc b' t = BaOut
             else \<forall>b'. barrier_step (BaRun t) b = Next b' \<longrightarrow> ba_pc b' t = BaIn g))"
    (is "?arrive \<and> ?run")
proof -
  have I: "ba_inv n (length es) b"
    using counted_machine.cm_exec_inv [OF ba_machine [OF assms(1)] assms(2)] assms(3) by simp
  have ?arrive
  proof (cases "ba_pc b t")
    case BaOut
    have "ba_inv n (Suc (length es)) (ba_arrive t b)" by (rule ba_arrive_inv [OF I BaOut]) (use assms(3) in simp)
    from ba_loop_returns [OF this, of t "ba_generation b"] ba_generation_div [OF I] show ?thesis
      by (simp add: BaOut ba_arrive_and_wait_eq ba_arrive_ticket ba_loop_same ba_round_same)
  qed simp
  moreover have ?run
  proof (intro allI impI)
    fix g assume g: "ba_pc b t = BaIn g"
    have "ba_pc (ba_loop t g b) t \<in> {BaOut, BaIn g}" by (simp add: ba_loop_def)
    then show "if ba_round_end b (ba_ticket b t) \<le> ba_arrivals b
               then \<exists>b'. barrier_step (BaRun t) b = Next b' \<and> ba_pc b' t = BaOut
               else \<forall>b'. barrier_step (BaRun t) b = Next b' \<longrightarrow> ba_pc b' t = BaIn g"
      using ba_loop_returns [OF I baI(6,7) [OF I g]] ba_asleep_early [OF I, of t] by (auto simp: g)
  qed
  ultimately show ?thesis by blast
qed

theorem barrier_meets_witness:
  "\<exists>b0 b b'. barrier_new 2 = Inr b0 \<and> exec barrier_step [BaArrive 1, BaSpurious 1, BaRun 1, BaArrive 2, BaArrive 2] b0 = Next b \<and>
     barrier_step (BaRun 1) b = Next b' \<and> ba_pc b' 1 = BaOut \<and> ba_pc b' 2 = BaIn 1"
proof -
  let ?es = "[BaArrive 1, BaSpurious 1, BaRun 1, BaArrive 2, BaArrive 2]"
  obtain b0 where b0: "barrier_new 2 = Inr b0" by (simp add: barrier_defs)
  obtain b where b: "exec barrier_step ?es b0 = Next b" and g: "ba_pc b 1 = BaIn 0" "ba_pc b 2 = BaIn 1"
    and r: "ba_round_end b (ba_ticket b 1) \<le> ba_arrivals b"
    using b0 by (auto simp: barrier_defs ba_round_end_def)
  obtain b' where b': "barrier_step (BaRun 1) b = Next b'" "ba_pc b' 1 = BaOut"
    using barrier_meets [OF b0 b, of 1] g(1) r by auto
  then have "ba_pc b' 2 = BaIn 1" using g by (auto simp: ba_loop_def split: if_splits)
  with b0 b b' show ?thesis by blast
qed

end
