(* ===== verification/Future_Wait.thy ===== *)
theory Future_Wait
  imports Shared_State Blocking_Wait Result
begin

section \<open>Waiting for the result of a future\<close>

text \<open>
  \<open>futures/get.h\<close>, \<open>futures/core/callback.h\<close>: who waits for a future subscribes with an object of its own stack frame that
  is the callback and the place for the result at once. Its \<open>Invoke\<close>, run as a task by the executor of the future, stores the
  result and wakes the owner, who reads it. This theory has what a waiting thread and a waiting fiber (\<open>Fiber_Await\<close>) share, and
  the thread.

  The promise, the executor and the owner run concurrently, in the steps of \<open>Shared_State\<close>: its relation \<open>ct_step\<close>
  is here a function of each side.
\<close>

subsection \<open>The two sides of the contract, one step each\<close>

definition ct_do_set :: "'r \<Rightarrow> ('x, 'c, 'r) contract \<Rightarrow> ('x, 'c, 'r) contract outcome" where
  "ct_do_set r c =
     (case hold_release (ct_promise c) of
        (Inl x, _) \<Rightarrow> Fault x
      | (Inr _, h) \<Rightarrow> Next (c\<lparr>ct_promise := h, ct_producer := PrEmplace r\<rparr>))"

definition ct_do_subscribe :: "'c \<Rightarrow> ('x, 'c, 'r) contract \<Rightarrow> ('x, 'c, 'r) contract outcome" where
  "ct_do_subscribe cb c =
     (case hold_release (ct_future c) of
        (Inl x, _) \<Rightarrow> Fault x
      | (Inr _, h) \<Rightarrow> Next (c\<lparr>ct_future := h, ct_consumer := CoStore cb\<rparr>))"

definition ct_do_get :: "('x, 'c, 'r) contract \<Rightarrow> ('x, 'c, 'r) contract outcome" where
  "ct_do_get c =
     (case hold_release (ct_future c) of
        (Inl x, _) \<Rightarrow> Fault x
      | (Inr _, h) \<Rightarrow> Next (c\<lparr>ct_future := h, ct_consumer := CoGet\<rparr>))"

definition ct_producer_run :: "('x, 'c, 'r) contract \<Rightarrow> ('x, 'c, 'r) contract outcome" where
  "ct_producer_run c =
     (case ct_producer c of
        PrEmplace r \<Rightarrow> Next (c\<lparr>ct_shared := ss_emplace r (ct_shared c), ct_producer := PrProduce\<rparr>)
      | PrProduce \<Rightarrow>
          (case ss_produce (ct_shared c) of
             (Inl x, _) \<Rightarrow> Fault x
           | (Inr second, s') \<Rightarrow> Next (c\<lparr>ct_shared := s', ct_producer := (if second then PrInvoke else PrDone)\<rparr>))
      | PrInvoke \<Rightarrow>
          (case ss_invoke_callback (ct_shared c) of
             Inl x \<Rightarrow> Fault x
           | Inr task \<Rightarrow> Next (c\<lparr>ct_tasks := ct_tasks c @ [task], ct_producer := PrDone\<rparr>))
      | _ \<Rightarrow> Disabled)"

definition ct_consumer_run :: "('x, 'c, 'r) contract \<Rightarrow> ('x, 'c, 'r) contract outcome" where
  "ct_consumer_run c =
     (case ct_consumer c of
        CoStore cb \<Rightarrow>
          (case ss_store_callback (Some cb) (ct_shared c) of
             Inl x \<Rightarrow> Fault x
           | Inr s' \<Rightarrow> Next (c\<lparr>ct_shared := s', ct_consumer := CoConsume\<rparr>))
      | CoConsume \<Rightarrow>
          (case ss_consume (ct_shared c) of
             (Inl x, _) \<Rightarrow> Fault x
           | (Inr second, s') \<Rightarrow> Next (c\<lparr>ct_shared := s', ct_consumer := (if second then CoInvoke else CoDone)\<rparr>))
      | CoInvoke \<Rightarrow>
          (case ss_invoke_callback (ct_shared c) of
             Inl x \<Rightarrow> Fault x
           | Inr task \<Rightarrow> Next (c\<lparr>ct_tasks := ct_tasks c @ [task], ct_consumer := CoDone\<rparr>))
      | CoGet \<Rightarrow>
          (case ss_get_result (ct_shared c) of
             (Inl x, _) \<Rightarrow> Fault x
           | (Inr r, s') \<Rightarrow> Next (c\<lparr>ct_shared := s', ct_consumer := CoGot r\<rparr>))
      | _ \<Rightarrow> Disabled)"

lemmas ct_run_defs = ct_do_set_def ct_do_subscribe_def ct_do_get_def ct_producer_run_def ct_consumer_run_def

text \<open>They are steps of \<open>Shared_State\<close>, so they keep its invariant; each leaves the other side alone.\<close>

lemma ct_do_set_steps: "ct_do_set r c = Next c' \<Longrightarrow> ct_step c (Next c')"
  by (auto simp: ct_do_set_def intro: ct_set split: prod.splits sum.splits)

lemma ct_do_subscribe_steps: "ct_do_subscribe cb c = Next c' \<Longrightarrow> ct_step c (Next c')"
  by (auto simp: ct_do_subscribe_def intro: ct_subscribe split: prod.splits sum.splits)

lemma ct_do_get_steps: "ct_do_get c = Next c' \<Longrightarrow> ct_step c (Next c')"
  by (auto simp: ct_do_get_def intro: ct_get split: prod.splits sum.splits)

lemma ct_producer_run_steps: "ct_producer_run c \<noteq> Disabled \<Longrightarrow> ct_step c (ct_producer_run c)"
  unfolding ct_producer_run_def
  by (auto split: producer.splits prod.splits sum.splits split del: if_split
      intro: ct_emplace ct_produce ct_produce_fault ct_producer_invoke ct_producer_fault)

lemma ct_consumer_run_steps: "ct_consumer_run c \<noteq> Disabled \<Longrightarrow> ct_step c (ct_consumer_run c)"
  unfolding ct_consumer_run_def
  by (auto simp: ss_store_callback_def split: consumer.splits prod.splits sum.splits split del: if_split
      intro: ct_store ct_consume ct_consume_fault ct_consumer_invoke ct_consumer_fault ct_get_result ct_get_fault)

lemma ct_producer_run_same: "ct_producer_run c = Next c' \<Longrightarrow> ct_consumer c' = ct_consumer c \<and> ct_future c' = ct_future c"
  by (auto simp: ct_producer_run_def split: producer.splits prod.splits sum.splits)

lemma ct_consumer_run_same: "ct_consumer_run c = Next c' \<Longrightarrow> ct_producer c' = ct_producer c \<and> ct_promise c' = ct_promise c"
  by (auto simp: ct_consumer_run_def split: consumer.splits prod.splits sum.splits)

text \<open>Only \<open>GetResult\<close> can fail, and only before the result is there.\<close>

lemma ct_producer_run_lands:
  assumes I: "ct_inv c"
  shows "lands_in ct_inv (ct_producer_run c)"
proof (cases "ct_producer_run c")
  case (Next c')
  with ct_inv_step [OF I] ct_producer_run_steps [of c] show ?thesis by simp
next
  case (Fault x)
  with ct_fault [OF I] ct_producer_run_steps [of c] have "ct_consumer c = CoGet" "\<not> ct_produced (ct_producer c)" by auto
  with Fault ss_produce_bits [of "ct_shared c" False] ct_inv_bits [OF I] show ?thesis
    by (cases "ct_producer c") (auto simp: ct_producer_run_def)
qed simp

lemma ct_consumer_run_lands:
  assumes I: "ct_inv c" and g: "ct_consumer c = CoGet \<Longrightarrow> ct_produced (ct_producer c)"
  shows "lands_in ct_inv (ct_consumer_run c)"
proof (cases "ct_consumer_run c")
  case (Next c')
  with ct_inv_step [OF I] ct_consumer_run_steps [of c] show ?thesis by simp
next
  case (Fault x)
  with ct_fault [OF I] ct_consumer_run_steps [of c] g show ?thesis by auto
qed simp

subsection \<open>What a waiting thread and a waiting fiber share\<close>

text \<open>The callback as the executor sees it: given as a task, it is run, or discarded.\<close>

datatype 'r callback_pc = RsIdle | RsInvoke 'r | RsNotify | RsDone | RsDiscarded

record ('x, 'r) awaited =
  aw_contract :: "('x, unit, 'r) contract"
  aw_result :: "'r option"
  aw_callback :: "'r callback_pc"

datatype 'r awaited_event = AeSet 'r | AeProducer | AeSubscriber | AeRun | AeDiscard | AeEmplace

definition aw_do :: "(('x, unit, 'r) contract \<Rightarrow> ('x, unit, 'r) contract outcome) \<Rightarrow> ('x, 'r, 'z) awaited_scheme \<Rightarrow> ('x, 'r, 'z) awaited_scheme outcome" where
  "aw_do f a =
     (case f (aw_contract a) of Next c \<Rightarrow> Next (a\<lparr>aw_contract := c\<rparr>) | Disabled \<Rightarrow> Disabled | Fault x \<Rightarrow> Fault x)"

text \<open>\<open>CallbackBase::Run\<close> moves the result out of the task; \<open>Invoke\<close> begins by putting it in its place. \<open>Discard\<close> is empty.\<close>

definition aw_run :: "('x, 'r, 'z) awaited_scheme \<Rightarrow> ('x, 'r, 'z) awaited_scheme outcome" where
  "aw_run a = (case (aw_callback a, ct_tasks (aw_contract a)) of (RsIdle, (_, _, r) # _) \<Rightarrow> Next (a\<lparr>aw_callback := RsInvoke r\<rparr>) | _ \<Rightarrow> Disabled)"

definition aw_discard :: "('x, 'r, 'z) awaited_scheme \<Rightarrow> ('x, 'r, 'z) awaited_scheme outcome" where
  "aw_discard a = (case (aw_callback a, ct_tasks (aw_contract a)) of (RsIdle, _ # _) \<Rightarrow> Next (a\<lparr>aw_callback := RsDiscarded\<rparr>) | _ \<Rightarrow> Disabled)"

definition aw_emplace :: "('x, 'r, 'z) awaited_scheme \<Rightarrow> ('x, 'r, 'z) awaited_scheme outcome" where
  "aw_emplace a = (case aw_callback a of RsInvoke r \<Rightarrow> Next (a\<lparr>aw_result := Some r, aw_callback := RsNotify\<rparr>) | _ \<Rightarrow> Disabled)"

text \<open>\<open>std::move(*result_)\<close>.\<close>

definition aw_take :: "('x, 'r, 'z) awaited_scheme \<Rightarrow> fault + 'r" where
  "aw_take a = (case aw_result a of None \<Rightarrow> Inl NullDereference | Some r \<Rightarrow> Inr r)"

fun aw_step :: "'r awaited_event \<Rightarrow> ('x, 'r, 'z) awaited_scheme \<Rightarrow> ('x, 'r, 'z) awaited_scheme outcome" where
  "aw_step (AeSet r) a = (if hold_has_state (ct_promise (aw_contract a)) then aw_do (ct_do_set r) a else Disabled)"
| "aw_step AeProducer a = aw_do ct_producer_run a"
| "aw_step AeSubscriber a = (if ct_consumer (aw_contract a) = CoGet then Disabled else aw_do ct_consumer_run a)"
| "aw_step AeRun a = aw_run a"
| "aw_step AeDiscard a = aw_discard a"
| "aw_step AeEmplace a = aw_emplace a"

lemmas aw_defs = aw_do_def aw_run_def aw_discard_def aw_emplace_def aw_take_def

fun rs_emplaced :: "'r callback_pc \<Rightarrow> bool" where
  "rs_emplaced RsNotify = True"
| "rs_emplaced RsDone = True"
| "rs_emplaced _ = False"

definition aw_inv :: "('x, 'r, 'z) awaited_scheme \<Rightarrow> bool" where
  "aw_inv a \<longleftrightarrow>
     ct_inv (aw_contract a) \<and> (aw_callback a \<noteq> RsIdle \<longrightarrow> ct_tasks (aw_contract a) \<noteq> []) \<and>
     (\<forall>r. aw_callback a = RsInvoke r \<longrightarrow> ss_result (ct_shared (aw_contract a)) = Some r) \<and>
     aw_result a = (if rs_emplaced (aw_callback a) then ss_result (ct_shared (aw_contract a)) else ct_got (ct_consumer (aw_contract a)))"

lemma ct_tasks_done:
  assumes I: "ct_inv c" and t: "ct_tasks c \<noteq> []"
  shows "ct_producer c = PrDone \<and> ct_consumer c = CoDone \<and> (\<exists>r. ss_result (ct_shared c) = Some r \<and> ct_tasks c = [(ss_executor (ct_shared c), (), r)])"
proof -
  have d: "ct_producer c = PrDone" "ct_consumer c = CoDone" using ct_invD(6) [OF I] t by (auto simp: ct_tasks_ok_def split: if_splits)
  then obtain r where "ss_result (ct_shared c) = Some r" using ct_inv_result [OF I] by auto
  with d ct_invD(6) [OF I] show ?thesis by (simp add: ct_tasks_ok_def)
qed

lemma awD:
  assumes "aw_inv a"
  shows "ct_inv (aw_contract a)" "aw_callback a \<noteq> RsIdle \<Longrightarrow> ct_tasks (aw_contract a) \<noteq> []"
    "aw_callback a = RsInvoke r \<Longrightarrow> ss_result (ct_shared (aw_contract a)) = Some r"
    "aw_result a = (if rs_emplaced (aw_callback a) then ss_result (ct_shared (aw_contract a)) else ct_got (ct_consumer (aw_contract a)))"
  using assms unfolding aw_inv_def by blast+

lemma aw_started:
  assumes I: "aw_inv a" and c: "aw_callback a \<noteq> RsIdle"
  shows "ct_producer (aw_contract a) = PrDone" "ct_consumer (aw_contract a) = CoDone" "ct_promise (aw_contract a) = None"
    "\<exists>r. ss_result (ct_shared (aw_contract a)) = Some r"
proof -
  note d = ct_tasks_done [OF awD(1) [OF I] awD(2) [OF I c]]
  then show "ct_producer (aw_contract a) = PrDone" "ct_consumer (aw_contract a) = CoDone" "\<exists>r. ss_result (ct_shared (aw_contract a)) = Some r"
    by blast+
  with ct_invD(2) [OF awD(1) [OF I]] show "ct_promise (aw_contract a) = None" by (simp add: ct_holders_ok_def)
qed

text \<open>A step of the contract before the callback has been started.\<close>

lemma aw_inv_contract:
  assumes I: "aw_inv a" and c: "aw_callback a = RsIdle" and c': "ct_inv c'" "ct_got (ct_consumer c') = ct_got (ct_consumer (aw_contract a))"
  shows "aw_inv (a\<lparr>aw_contract := c'\<rparr>)"
  using awD(4) [OF I] c c' by (simp add: aw_inv_def)

lemma ct_consumer_run_got:
  "ct_consumer_run c = Next c' \<Longrightarrow> ct_consumer c \<noteq> CoGet \<Longrightarrow> ct_got (ct_consumer c') = ct_got (ct_consumer c)"
  by (auto simp: ct_consumer_run_def split: consumer.splits prod.splits sum.splits)

lemma aw_do_lands:
  assumes "lands_in P (f (aw_contract a))" "\<And>c. f (aw_contract a) = Next c \<Longrightarrow> P c \<Longrightarrow> Q (a\<lparr>aw_contract := c\<rparr>)"
  shows "lands_in Q (aw_do f a)"
  using assms by (cases "f (aw_contract a)") (simp_all add: aw_do_def)

lemma aw_inv_step:
  assumes I: "aw_inv a"
  shows "lands_in (\<lambda>a'. aw_inv a' \<and> awaited.more a' = awaited.more a) (aw_step e a)"
proof (cases e)
  case (AeSet r)
  show ?thesis
  proof (cases "hold_has_state (ct_promise (aw_contract a))")
    case True
    then have c: "aw_callback a = RsIdle" using aw_started(3) [OF I] by (auto simp: hold_has_state_def)
    have "lands_in (\<lambda>c. ct_inv c \<and> ct_consumer c = ct_consumer (aw_contract a)) (ct_do_set r (aw_contract a))"
      using True ct_do_set_steps [of r "aw_contract a"] ct_inv_step [OF awD(1) [OF I]]
      by (auto simp: ct_do_set_def hold_has_state_def hold_release_def)
    then have "lands_in (\<lambda>a'. aw_inv a' \<and> awaited.more a' = awaited.more a) (aw_do (ct_do_set r) a)"
      by (rule aw_do_lands) (simp add: aw_inv_contract [OF I c])
    then show ?thesis using AeSet True by simp
  qed (simp add: AeSet)
next
  case AeProducer
  show ?thesis
  proof (cases "aw_callback a = RsIdle")
    case True
    have "lands_in (\<lambda>a'. aw_inv a' \<and> awaited.more a' = awaited.more a) (aw_do ct_producer_run a)"
      by (rule aw_do_lands [where f = ct_producer_run, OF ct_producer_run_lands [OF awD(1) [OF I]]])
        (auto intro!: aw_inv_contract [OF I True] dest: ct_producer_run_same)
    then show ?thesis using AeProducer by simp
  qed (use aw_started [OF I] in \<open>simp add: AeProducer aw_do_def ct_producer_run_def\<close>)
next
  case AeSubscriber
  show ?thesis
  proof (cases "aw_callback a = RsIdle \<and> ct_consumer (aw_contract a) \<noteq> CoGet")
    case True
    have "lands_in (\<lambda>a'. aw_inv a' \<and> awaited.more a' = awaited.more a) (aw_do ct_consumer_run a)"
      by (rule aw_do_lands [where f = ct_consumer_run, OF ct_consumer_run_lands [OF awD(1) [OF I]]])
        (use True in \<open>auto intro!: aw_inv_contract [OF I] dest: ct_consumer_run_got\<close>)
    then show ?thesis using AeSubscriber True by simp
  qed (use aw_started [OF I] in \<open>auto simp add: AeSubscriber aw_do_def ct_consumer_run_def\<close>)
next
  case AeRun
  show ?thesis
  proof (cases "aw_callback a = RsIdle \<and> ct_tasks (aw_contract a) \<noteq> []")
    case True
    from ct_tasks_done [OF awD(1) [OF I]] True obtain r where
      r: "ct_consumer (aw_contract a) = CoDone" "ss_result (ct_shared (aw_contract a)) = Some r"
         "ct_tasks (aw_contract a) = [(ss_executor (ct_shared (aw_contract a)), (), r)]" by blast
    with True awD [OF I] show ?thesis by (simp add: AeRun aw_run_def aw_inv_def)
  qed (auto simp: AeRun aw_run_def split: callback_pc.splits list.splits)
next
  case AeDiscard
  show ?thesis
  proof (cases "aw_callback a = RsIdle \<and> ct_tasks (aw_contract a) \<noteq> []")
    case True
    with awD [OF I] show ?thesis by (auto simp: AeDiscard aw_discard_def aw_inv_def split: list.splits)
  qed (auto simp: AeDiscard aw_discard_def split: callback_pc.splits list.splits)
next
  case AeEmplace
  show ?thesis
  proof (cases "aw_callback a")
    case (RsInvoke r)
    with awD [OF I] show ?thesis by (simp add: AeEmplace aw_emplace_def aw_inv_def)
  qed (simp_all add: AeEmplace aw_emplace_def)
qed

text \<open>The subscriber moves on, or not; the end of the callback is not a step of these.\<close>

lemma aw_step_consumer:
  assumes "aw_step e a = Next a'"
  shows "ct_consumer (aw_contract a') = ct_consumer (aw_contract a) \<or>
    (ct_consumer (aw_contract a) \<in> {CoStore (), CoConsume, CoInvoke} \<and> ct_consumer (aw_contract a') \<in> {CoConsume, CoInvoke, CoDone})"
  using assms
  by (cases e) (auto simp: aw_defs ct_do_set_def ct_producer_run_def ct_consumer_run_def
      split: if_splits outcome.splits prod.splits sum.splits producer.splits consumer.splits callback_pc.splits list.splits)

lemma aw_step_done: "aw_inv a \<Longrightarrow> aw_callback a = RsDone \<or> aw_callback a = RsDiscarded \<Longrightarrow> aw_step e a = Disabled"
  using aw_started [of a] ct_invD(2) [OF awD(1), of a]
  by (cases e) (auto simp: aw_defs hold_has_state_def ct_producer_run_def ct_consumer_run_def)

lemma aw_step_callback: "aw_step e a = Next a' \<Longrightarrow> aw_callback a' = RsDone \<longleftrightarrow> aw_callback a = RsDone"
  by (cases e) (auto simp: aw_defs split: if_splits outcome.splits callback_pc.splits list.splits)

text \<open>Once the result is produced it stays so, and the place for it is filled only by the callback.\<close>

lemma aw_step_produced:
  "aw_step e a = Next a' \<Longrightarrow> ct_produced (ct_producer (aw_contract a)) \<Longrightarrow> ct_promise (aw_contract a) = None \<Longrightarrow>
    ct_produced (ct_producer (aw_contract a'))"
  by (cases e) (auto simp: aw_defs hold_has_state_def ct_producer_run_def dest!: ct_consumer_run_same
      split: if_splits outcome.splits callback_pc.splits list.splits producer.splits sum.splits prod.splits)

lemma aw_step_idle_result: "aw_step e a = Next a' \<Longrightarrow> aw_callback a = RsIdle \<Longrightarrow> aw_result a' = aw_result a"
  by (cases e) (auto simp: aw_defs split: if_splits outcome.splits callback_pc.splits list.splits)

lemma aw_done_result:
  assumes "aw_inv a" "aw_callback a = RsDone"
  shows "\<exists>r. ss_result (ct_shared (aw_contract a)) = Some r \<and> aw_result a = Some r"
  using aw_started(4) [OF assms(1)] awD(4) [OF assms(1)] assms(2) by simp

subsection \<open>A thread that waits: BlockingGetter\<close>

text \<open>
  The thread is number 0. It subscribes and then looks at the event until it has been fired; \<open>GtReturned\<close> is what
  \<open>WaitAndGetResult\<close> returns, and then the getter is dead.
\<close>

datatype 'r getter_pc = GtStart | GtWaiting | GtReturned 'r

record ('x, 'r) blocking_getter = "('x, 'r) awaited" +
  bg_event :: thread_event
  bg_pc :: "'r getter_pc"

definition getter_new :: "'x \<Rightarrow> ('x, 'r) blocking_getter" where
  "getter_new x = \<lparr>aw_contract = contract_new x, aw_result = None, aw_callback = RsIdle, bg_event = thread_event_new, bg_pc = GtStart\<rparr>"

datatype 'r getter_event = BgBegin | BgAwaited "'r awaited_event" | BgWait | BgFire "tid option" | BgSpurious

definition bg_begin :: "('x, 'r) blocking_getter \<Rightarrow> ('x, 'r) blocking_getter outcome" where
  "bg_begin g =
     (case bg_pc g of
        GtStart \<Rightarrow> (case aw_do (ct_do_subscribe ()) g of Next g' \<Rightarrow> Next (g'\<lparr>bg_pc := GtWaiting\<rparr>) | Disabled \<Rightarrow> Disabled | Fault x \<Rightarrow> Fault x)
      | _ \<Rightarrow> Disabled)"

text \<open>\<open>Subscribe\<close> has returned: \<open>event_.Wait()\<close>, and \<open>*result_\<close> when it returns.\<close>

definition bg_wait :: "('x, 'r) blocking_getter \<Rightarrow> ('x, 'r) blocking_getter outcome" where
  "bg_wait g =
     (if bg_pc g = GtWaiting \<and> ct_consumer (aw_contract g) = CoDone \<and> 0 \<notin> te_asleep (bg_event g)
      then (case te_wait 0 (bg_event g) of
              (False, ev) \<Rightarrow> Next (g\<lparr>bg_event := ev\<rparr>)
            | (True, ev) \<Rightarrow> (case aw_take g of Inl x \<Rightarrow> Fault x | Inr r \<Rightarrow> Next (g\<lparr>bg_event := ev, bg_pc := GtReturned r\<rparr>)))
      else Disabled)"

text \<open>The rest of \<open>Invoke\<close>.\<close>

definition bg_fire :: "tid option \<Rightarrow> ('x, 'r) blocking_getter \<Rightarrow> ('x, 'r) blocking_getter outcome" where
  "bg_fire wake g =
     (if aw_callback g = RsNotify \<and> wake_ok (te_asleep (bg_event g)) wake
      then Next (g\<lparr>aw_callback := RsDone, bg_event := te_fire wake (bg_event g)\<rparr>) else Disabled)"

definition bg_spurious :: "('x, 'r) blocking_getter \<Rightarrow> ('x, 'r) blocking_getter outcome" where
  "bg_spurious g = (if 0 \<in> te_asleep (bg_event g) then Next (g\<lparr>bg_event := te_spurious 0 (bg_event g)\<rparr>) else Disabled)"

fun getter_step :: "'r getter_event \<Rightarrow> ('x, 'r) blocking_getter \<Rightarrow> ('x, 'r) blocking_getter outcome" where
  "getter_step BgBegin g = bg_begin g"
| "getter_step (BgAwaited e) g = aw_step e g"
| "getter_step BgWait g = bg_wait g"
| "getter_step (BgFire wake) g = bg_fire wake g"
| "getter_step BgSpurious g = bg_spurious g"

lemmas getter_defs = getter_new_def bg_begin_def bg_wait_def bg_fire_def bg_spurious_def

definition bg_inv :: "('x, 'r) blocking_getter \<Rightarrow> bool" where
  "bg_inv g \<longleftrightarrow>
     aw_inv g \<and> (bg_pc g = GtStart \<longleftrightarrow> ct_consumer (aw_contract g) = CoFresh) \<and> ct_consumer (aw_contract g) \<noteq> CoGet \<and> 
     ct_got (ct_consumer (aw_contract g)) = None \<and>
     te_asleep (bg_event g) \<subseteq> {0} \<and> (te_fired (bg_event g) \<longleftrightarrow> aw_callback g = RsDone) \<and>
     (te_fired (bg_event g) \<longrightarrow> te_asleep (bg_event g) = {}) \<and>
     (\<forall>r. bg_pc g = GtReturned r \<longrightarrow> te_fired (bg_event g) \<and> aw_result g = Some r)"

lemma contract_consumer: "ct_consumer (contract_new x) = CoFresh"
  by (simp add: contract_new_def)

lemma bg_inv_new: "bg_inv (getter_new x)"
  by (simp add: bg_inv_def aw_inv_def getter_new_def ct_inv_new contract_consumer thread_event_new_def)

lemma bgD:
  assumes "bg_inv g"
  shows "aw_inv g" "bg_pc g = GtStart \<longleftrightarrow> ct_consumer (aw_contract g) = CoFresh" "ct_consumer (aw_contract g) \<noteq> CoGet"
    "ct_got (ct_consumer (aw_contract g)) = None" "te_asleep (bg_event g) \<subseteq> {0}" "te_fired (bg_event g) \<longleftrightarrow> aw_callback g = RsDone"
    "te_fired (bg_event g) \<Longrightarrow> te_asleep (bg_event g) = {}"
    "bg_pc g = GtReturned r \<Longrightarrow> te_fired (bg_event g)" "bg_pc g = GtReturned r \<Longrightarrow> aw_result g = Some r"
  using assms unfolding bg_inv_def by blast+

lemma bg_more: "awaited.more g' = awaited.more g \<Longrightarrow> bg_event g' = bg_event g \<and> bg_pc g' = bg_pc g"
  by (cases g; cases g') simp

lemma bg_begin_lands:
  assumes I: "bg_inv g"
  shows "lands_in bg_inv (bg_begin g)"
proof (cases "bg_pc g")
  case GtStart
  then have c: "ct_consumer (aw_contract g) = CoFresh" using bgD(2) [OF I] by simp
  then have f: "ct_future (aw_contract g) = Some ()" using ct_invD(2) [OF awD(1) [OF bgD(1) [OF I]]] by (simp add: ct_holders_ok_def)
  let ?c = "(aw_contract g)\<lparr>ct_future := None, ct_consumer := CoStore ()\<rparr>"
  have s: "ct_do_subscribe () (aw_contract g) = Next ?c" using f by (simp add: ct_do_subscribe_def hold_release_def)
  have idle: "aw_callback g = RsIdle" using aw_started(2) [OF bgD(1) [OF I]] c by fastforce
  have "aw_inv (g\<lparr>aw_contract := ?c\<rparr>)"
    using ct_inv_step [OF awD(1) [OF bgD(1) [OF I]] ct_do_subscribe_steps [OF s]] c
    by (intro aw_inv_contract [OF bgD(1) [OF I] idle]) simp_all
  then have "bg_inv (g\<lparr>aw_contract := ?c, bg_pc := GtWaiting\<rparr>)"
    using bgD [OF I] by (simp add: bg_inv_def aw_inv_def)
  then show ?thesis using GtStart s by (simp add: bg_begin_def aw_do_def)
qed (simp_all add: bg_begin_def)

lemma bg_awaited_lands:
  assumes I: "bg_inv g"
  shows "lands_in bg_inv (aw_step e g)"
proof (rule lands_in_mono [OF aw_inv_step [OF bgD(1) [OF I]]])
  fix g' assume s: "aw_step e g = Next g'" and i: "aw_inv g' \<and> awaited.more g' = awaited.more g"
  note c = aw_step_consumer [OF s] and m = bg_more [OF conjunct2 [OF i]] and d = aw_step_callback [OF s]
  have "\<not> te_fired (bg_event g)" using aw_step_done [OF bgD(1) [OF I], of e] s bgD(6) [OF I] by auto
  with c m d i bgD [OF I] show "bg_inv g'" unfolding bg_inv_def by auto
qed

lemma bg_wait_lands:
  assumes I: "bg_inv g"
  shows "lands_in bg_inv (bg_wait g)"
proof (cases "te_fired (bg_event g)")
  case True
  with bgD(6) [OF I] have d: "aw_callback g = RsDone" by simp
  with aw_done_result [OF bgD(1) [OF I]] obtain r where "aw_take g = Inr r" "aw_result g = Some r" by (auto simp: aw_take_def)
  with True d bgD [OF I] show ?thesis by (auto simp: bg_wait_def te_wait_def bg_inv_def aw_inv_def)
next
  case False
  with bgD [OF I] show ?thesis by (auto simp: bg_wait_def te_wait_def bg_inv_def aw_inv_def)
qed

lemma bg_fire_lands:
  assumes I: "bg_inv g"
  shows "lands_in bg_inv (bg_fire wake g)"
proof (cases "aw_callback g = RsNotify \<and> wake_ok (te_asleep (bg_event g)) wake")
  case True
  then have "te_asleep (bg_event g) - set_option wake = {}" using bgD(5) [OF I] by (cases wake) auto
  with True bgD [OF I] show ?thesis by (auto simp: bg_fire_def te_fire_def bg_inv_def aw_inv_def)
qed (auto simp: bg_fire_def)

lemma bg_inv_step: "bg_inv g \<Longrightarrow> lands_in bg_inv (getter_step e g)"
proof (cases e)
  case BgSpurious
  assume "bg_inv g"
  then show ?thesis using BgSpurious by (auto simp: bg_spurious_def te_spurious_def bg_inv_def aw_inv_def)
qed (simp_all add: bg_begin_lands bg_awaited_lands bg_wait_lands bg_fire_lands)

interpretation getter_machine: guarded_machine getter_step "getter_new x" bg_inv for x
  by (rule guarded_machineI) (simp_all add: bg_inv_new bg_inv_step)

text \<open>
  C38. \<open>WaitResult\<close> does not fail, however the promise, the executor and the waiting thread interleave. What it returns is
  the result in the shared state, and by then the callback has ended, so that nobody touches the getter after its death. Once
  the callback has ended the thread is not asleep, and its next look at the event returns.
\<close>

theorem wait_result_returns:
  "case exec getter_step es (getter_new x) of
     Next g \<Rightarrow>
       (\<forall>r. bg_pc g = GtReturned r \<longrightarrow>
          ss_result (ct_shared (aw_contract g)) = Some r \<and> aw_callback g = RsDone \<and> (\<forall>e. aw_step e g = Disabled)) \<and>
       (bg_pc g = GtWaiting \<and> aw_callback g = RsDone \<longrightarrow> (\<exists>g' r. getter_step BgWait g = Next g' \<and> bg_pc g' = GtReturned r))
   | Disabled \<Rightarrow> True
   | Fault y \<Rightarrow> False"
proof (cases "exec getter_step es (getter_new x)")
  case (Next g)
  have I: "bg_inv g" using getter_machine.gm_exec_inv [OF Next] .
  have "ss_result (ct_shared (aw_contract g)) = Some r \<and> aw_callback g = RsDone \<and> aw_step e g = Disabled"
    if "bg_pc g = GtReturned r" for r e
  proof -
    have d: "aw_callback g = RsDone" using bgD(6,8) [OF I] that by simp
    with aw_step_done [OF bgD(1) [OF I]] awD(4) [OF bgD(1) [OF I]] bgD(9) [OF I that] show ?thesis by simp
  qed
  moreover have "\<exists>g' r. getter_step BgWait g = Next g' \<and> bg_pc g' = GtReturned r" if w: "bg_pc g = GtWaiting" "aw_callback g = RsDone"
  proof -
    have "te_fired (bg_event g)" "te_asleep (bg_event g) = {}" using bgD(6,7) [OF I] w by simp_all
    moreover obtain r where "aw_result g = Some r" using aw_done_result [OF bgD(1) [OF I] w(2)] by blast
    ultimately show ?thesis using w aw_started(2) [OF bgD(1) [OF I]] by (auto simp: bg_wait_def te_wait_def aw_take_def)
  qed
  ultimately show ?thesis using Next by simp
next
  case (Fault y)
  with getter_machine.gm_exec_no_fault [of es x y] show ?thesis by simp
qed simp

theorem wait_result_returns_witness:
  "\<exists>g :: (nat, nat) blocking_getter. exec getter_step
     [BgBegin, BgAwaited AeSubscriber, BgAwaited (AeSet 5), BgAwaited AeProducer, BgAwaited AeSubscriber, BgWait, BgSpurious, BgWait,
      BgAwaited AeProducer, BgAwaited AeProducer, BgAwaited AeRun, BgAwaited AeEmplace, BgFire (Some 0), BgWait] (getter_new 3) = Next g \<and>
     bg_pc g = GtReturned 5 \<and> ss_result (ct_shared (aw_contract g)) = Some 5 \<and> aw_callback g = RsDone"
  (is "\<exists>g. exec getter_step ?es ?n = Next g \<and> _")
proof -
  obtain g where g: "exec getter_step ?es ?n = Next g" "bg_pc g = GtReturned 5"
    by (simp add: getter_defs aw_defs ct_run_defs contract_new_def thread_event_new_def te_defs hold_release_def hold_has_state_def
        ss_new_def ss_store_callback_def ss_emplace_def ss_consume_def ss_produce_def ss_invoke_callback_def rv_initial_def
        rv_consume_initial rv_produce_second)
  with wait_result_returns [of ?es "3 :: nat"] show ?thesis by simp
qed

text \<open>\<open>Discard\<close> of the callback does nothing: if the executor discards the task, the thread never returns.\<close>

lemma wait_result_discarded:
  assumes "bg_inv g" "aw_callback g = RsDiscarded" "bg_pc g = GtWaiting" "exec getter_step es g = Next g'"
  shows "bg_pc g' = GtWaiting \<and> aw_callback g' = RsDiscarded"
  using assms(4) assms(1-3)
proof (induction es arbitrary: g)
  case (Cons e es)
  from Cons.prems(1) obtain h where h: "getter_step e g = Next h" "exec getter_step es h = Next g'"
    by (auto simp del: getter_step.simps split: outcome.splits)
  have "bg_inv h" using bg_inv_step [OF Cons.prems(2), of e] h(1) by simp
  moreover have "bg_pc h = GtWaiting \<and> aw_callback h = RsDiscarded"
    using h(1) Cons.prems aw_step_done [OF bgD(1) [OF Cons.prems(2)]] bgD(6) [OF Cons.prems(2)]
    by (cases e) (auto simp: bg_begin_def bg_wait_def bg_fire_def bg_spurious_def te_wait_def split: if_splits)
  ultimately show ?case using Cons.IH [OF h(2)] by blast
qed simp

end
