(* ===== verification/Fiber_Await.thy ===== *)
theory Fiber_Await
  imports Future_Wait Fiber_Core
begin

section \<open>A fiber that waits for a future\<close>

text \<open>
  \<open>fibers/core/await.h\<close>: the \<open>FutureAwaiter\<close> on the stack of a fiber, composed of the contract of \<open>Shared_State\<close>, the callback of
  \<open>Future_Wait\<close> and the fibers, threads and executors of \<open>Fiber_Core\<close>. The fiber that awaits has the number \<open>f\<close>; the
  other fibers, and \<open>f\<close> itself before and after, do anything that \<open>Fiber_Core\<close> allows.
\<close>

datatype 'r await_stage = FaOut | FaGetting | FaSuspending | FaSuspended | FaGot 'r

record ('x, 'r) future_awaiter = "('x, 'r) awaited" +
  fa_core :: fiber_core
  fa_handle :: "nat option"
  fa_stage :: "'r await_stage"

definition await_new :: "nat \<Rightarrow> 'x \<Rightarrow> ('x, 'r) future_awaiter" where
  "await_new threads x = \<lparr>aw_contract = contract_new x, aw_result = None, aw_callback = RsIdle,
     fa_core = fiber_core_init threads, fa_handle = None, fa_stage = FaOut\<rparr>"

datatype 'r await_event =
    FaAwait nat
  | FaGet nat
  | FaCompleted nat
  | FaAwaited "'r awaited_event"
  | FaResume
  | FaReturn nat
  | FaFiber fiber_event

definition fa_current :: "nat \<Rightarrow> nat \<Rightarrow> fiber_core \<Rightarrow> bool" where
  "fa_current f t s \<longleftrightarrow> user_code t s \<and> th_current (fc_threads s ! t) = Some f"

definition fa_at_completed :: "nat \<Rightarrow> nat \<Rightarrow> fiber_core \<Rightarrow> bool" where
  "fa_at_completed f t s \<longleftrightarrow> t < length (fc_threads s) \<and>
     (case th_frames (fc_threads s ! t) of (g, AtCompleted, _) # _ \<Rightarrow> g = f | _ \<Rightarrow> False)"

text \<open>\<open>AwaitReady\<close> up to the look at the state; if there is no result, \<open>self::Suspend\<close>.\<close>

definition fa_await :: "nat \<Rightarrow> nat \<Rightarrow> ('x, 'r) future_awaiter \<Rightarrow> ('x, 'r) future_awaiter outcome" where
  "fa_await f t s =
     (if fa_stage s = FaOut \<and> fa_current f t (fa_core s)
      then (case hold_access (ct_future (aw_contract s)) of
              Inl x \<Rightarrow> Fault x
            | Inr _ \<Rightarrow>
                if ss_has_result (ct_shared (aw_contract s))
                then (case aw_do ct_do_get s of Next s' \<Rightarrow> Next (s'\<lparr>fa_stage := FaGetting\<rparr>) | Disabled \<Rightarrow> Disabled | Fault x \<Rightarrow> Fault x)
                else (case fiber_core_step (FcSuspend t AwAlways) (fa_core s) of
                        Next c \<Rightarrow> Next (s\<lparr>fa_core := c, fa_stage := FaSuspending\<rparr>) | Disabled \<Rightarrow> Disabled | Fault x \<Rightarrow> Fault x))
      else Disabled)"

text \<open>\<open>result_.emplace(std::move(future_).GetResult())\<close>, and \<open>GetResult\<close> of the awaiter.\<close>

definition fa_get :: "nat \<Rightarrow> nat \<Rightarrow> ('x, 'r) future_awaiter \<Rightarrow> ('x, 'r) future_awaiter outcome" where
  "fa_get f t s =
     (if fa_stage s = FaGetting \<and> fa_current f t (fa_core s)
      then (case aw_do ct_consumer_run s of
              Next s' \<Rightarrow>
                (let s'' = s'\<lparr>aw_result := ct_got (ct_consumer (aw_contract s'))\<rparr> in
                 case aw_take s'' of Inl x \<Rightarrow> Fault x | Inr r \<Rightarrow> Next (s''\<lparr>fa_stage := FaGot r\<rparr>))
            | Disabled \<Rightarrow> Disabled
            | Fault x \<Rightarrow> Fault x)
      else Disabled)"

text \<open>\<open>OnCompleted\<close>, on the thread that ran the fiber: \<open>AwaitSuspend\<close> keeps the handle and subscribes.\<close>

definition fa_await_suspend :: "nat \<Rightarrow> nat \<Rightarrow> ('x, 'r) future_awaiter \<Rightarrow> ('x, 'r) future_awaiter outcome" where
  "fa_await_suspend f t s =
     (if fa_stage s = FaSuspending \<and> fa_at_completed f t (fa_core s)
      then (case fiber_core_step (FcCompleted t False) (fa_core s) of
              Next c \<Rightarrow>
                (case aw_do (ct_do_subscribe ()) s of
                   Next s' \<Rightarrow> Next (s'\<lparr>fa_core := c, fa_handle := Some f, fa_stage := FaSuspended\<rparr>) | Disabled \<Rightarrow> Disabled | Fault x \<Rightarrow> Fault x)
            | Disabled \<Rightarrow> Disabled
            | Fault x \<Rightarrow> Fault x)
      else Disabled)"

text \<open>The rest of \<open>Invoke\<close>: \<open>fiber_.Resume()\<close>.\<close>

definition fa_resume :: "nat \<Rightarrow> ('x, 'r) future_awaiter \<Rightarrow> ('x, 'r) future_awaiter outcome" where
  "fa_resume f s =
     (if aw_callback s = RsNotify
      then (case handle_resume (fa_handle s) (fc_unpark f (fa_core s)) of
              Next c \<Rightarrow> Next (s\<lparr>aw_callback := RsDone, fa_core := c, fa_handle := None\<rparr>)
            | Disabled \<Rightarrow> Disabled
            | Fault x \<Rightarrow> Fault x)
      else Disabled)"

definition fa_return :: "nat \<Rightarrow> nat \<Rightarrow> ('x, 'r) future_awaiter \<Rightarrow> ('x, 'r) future_awaiter outcome" where
  "fa_return f t s =
     (if fa_stage s = FaSuspended \<and> fa_current f t (fa_core s)
      then (case aw_take s of Inl x \<Rightarrow> Fault x | Inr r \<Rightarrow> Next (s\<lparr>fa_stage := FaGot r\<rparr>))
      else Disabled)"

text \<open>What else fibers do: while \<open>f\<close> awaits, its code is inside \<open>Await\<close>, and its handle is the awaiter's.\<close>

fun fa_foreign :: "nat \<Rightarrow> fiber_core \<Rightarrow> fiber_event \<Rightarrow> bool" where
  "fa_foreign f s (FcGo x) = True"
| "fa_foreign f s (FcGoCurrent t) = (\<not> fa_current f t s)"
| "fa_foreign f s (FcRun t i) = (\<not> fa_current f t s)"
| "fa_foreign f s (FcStep t) = True"
| "fa_foreign f s (FcSuspend t aw) = (\<not> fa_current f t s \<and> aw \<noteq> AwUnlock f)"
| "fa_foreign f s (FcEnd t thrown) = (\<not> fa_current f t s)"
| "fa_foreign f s (FcCompleted t ready) = (\<not> fa_at_completed f t s)"
| "fa_foreign f s (FcDiscard i) = True"
| "fa_foreign f s (FcSchedule g) = (g \<noteq> f)"
| "fa_foreign f s (FcResume g) = (g \<noteq> f)"

fun fa_inside :: "'r await_stage \<Rightarrow> bool" where
  "fa_inside FaOut = False"
| "fa_inside (FaGot r) = False"
| "fa_inside _ = True"

definition fa_fiber :: "nat \<Rightarrow> fiber_event \<Rightarrow> ('x, 'r) future_awaiter \<Rightarrow> ('x, 'r) future_awaiter outcome" where
  "fa_fiber f e s =
     (if fa_inside (fa_stage s) \<and> \<not> fa_foreign f (fa_core s) e then Disabled
      else (case fiber_core_step e (fa_core s) of Next c \<Rightarrow> Next (s\<lparr>fa_core := c\<rparr>) | Disabled \<Rightarrow> Disabled | Fault x \<Rightarrow> Fault x))"

fun await_step :: "nat \<Rightarrow> 'r await_event \<Rightarrow> ('x, 'r) future_awaiter \<Rightarrow> ('x, 'r) future_awaiter outcome" where
  "await_step f (FaAwait t) s = fa_await f t s"
| "await_step f (FaGet t) s = fa_get f t s"
| "await_step f (FaCompleted t) s = fa_await_suspend f t s"
| "await_step f (FaAwaited e) s = aw_step e s"
| "await_step f FaResume s = fa_resume f s"
| "await_step f (FaReturn t) s = fa_return f t s"
| "await_step f (FaFiber e) s = fa_fiber f e s"

lemmas await_defs = await_new_def fa_current_def fa_at_completed_def fa_await_def fa_get_def fa_await_suspend_def fa_resume_def
  fa_return_def fa_fiber_def

subsection \<open>What other fibers cannot do to this one\<close>

definition fc_place_list :: "fiber_core \<Rightarrow> nat list" where
  "fc_place_list s = map snd (fc_queue s) @ fc_parked s @ concat (map (\<lambda>th. map fst (th_frames th)) (fc_threads s))"

lemma fiber_inv_places:
  assumes "fiber_inv s"
  shows "distinct (fc_place_list s)"
proof -
  from assms obtain Hd where "core_ok Hd (thread_places (fc_threads s)) s" by (auto simp: fiber_inv_def)
  then have le: "count (fiber_places s) g \<le> 1" for g by (simp add: core_ok_places)
  have m: "mset (fc_place_list s) = fiber_places s"
    by (simp add: fc_place_list_def fiber_places_def map_concat comp_def)
  have "count (mset (fc_place_list s)) g = (if g \<in> set (fc_place_list s) then 1 else 0)" for g
  proof (cases "g \<in> set (fc_place_list s)")
    case True
    then have "0 < count (mset (fc_place_list s)) g" by (simp only: count_greater_zero_iff set_mset_mset)
    then have "count (mset (fc_place_list s)) g = 1" using le [of g] unfolding m by linarith
    with True show ?thesis by simp
  next
    case False
    then show ?thesis by (simp add: count_eq_zero_iff)
  qed
  then show ?thesis unfolding distinct_count_atmost_1 by blast
qed

lemma concat_disjoint:
  "distinct (concat xss) \<Longrightarrow> i < j \<Longrightarrow> j < length xss \<Longrightarrow> x \<in> set (xss ! i) \<Longrightarrow> x \<notin> set (xss ! j)"
proof (induction xss arbitrary: i j)
  case (Cons xs xss)
  then obtain k where j: "j = Suc k" by (cases j) auto
  show ?case
  proof (cases i)
    case 0
    with Cons.prems j show ?thesis by (auto dest: nth_mem)
  next
    case (Suc l)
    with Cons j show ?thesis by auto
  qed
qed simp

text \<open>A fiber in a frame of a thread is nowhere else; one that is parked does not run.\<close>

lemma frame_places_apart:
  assumes I: "fiber_inv s" and t: "t < length (fc_threads s)" "(f, p, prev) \<in> set (th_frames (fc_threads s ! t))"
  shows "t' < length (fc_threads s) \<Longrightarrow> t' \<noteq> t \<Longrightarrow> (g, q, r) \<in> set (th_frames (fc_threads s ! t')) \<Longrightarrow> g \<noteq> f"
    and "f \<notin> set (fc_parked s)" and "i < length (fc_queue s) \<Longrightarrow> snd (fc_queue s ! i) \<noteq> f"
proof -
  let ?fss = "map (\<lambda>th. map fst (th_frames th)) (fc_threads s)"
  note d = fiber_inv_places [OF I, unfolded fc_place_list_def]
  have f: "f \<in> set (?fss ! t)" using t by force
  have "?fss ! t \<in> set ?fss" using t(1) by (intro nth_mem) simp
  with f have c: "f \<in> set (concat ?fss)" by (auto simp only: set_concat)
  show "g \<noteq> f" if "t' < length (fc_threads s)" "t' \<noteq> t" "(g, q, r) \<in> set (th_frames (fc_threads s ! t'))"
  proof -
    have g: "g \<in> set (?fss ! t')" using that by force
    have "distinct (concat ?fss)" using d by simp
    from concat_disjoint [OF this, of t t'] concat_disjoint [OF this, of t' t] f g t(1) that(1,2)
    show ?thesis by (cases "t < t'") auto
  qed
  show "f \<notin> set (fc_parked s)" using d c by auto
  show "snd (fc_queue s ! i) \<noteq> f" if "i < length (fc_queue s)"
  proof -
    have "snd (fc_queue s ! i) \<in> set (map snd (fc_queue s))" using that by simp
    with d c show ?thesis by auto
  qed
qed

lemma current_in_frame:
  assumes I: "fiber_inv s" and c: "fa_current f t s"
  shows "t < length (fc_threads s)" "\<exists>prev gs. th_frames (fc_threads s ! t) = (f, AtInside, prev) # gs"
proof -
  show t: "t < length (fc_threads s)" using c by (simp add: fa_current_def user_code_def)
  have "frames_ok (th_frames (fc_threads s ! t)) (th_current (fc_threads s ! t))" using I t by (simp add: fiber_inv_def)
  from frames_current [OF this user_code_top] c show "\<exists>prev gs. th_frames (fc_threads s ! t) = (f, AtInside, prev) # gs"
    by (auto simp: fa_current_def)
qed

lemma parked_not_current: "fiber_inv s \<Longrightarrow> f \<in> set (fc_parked s) \<Longrightarrow> \<not> fa_current f t s"
  using current_in_frame [of s f t] frame_places_apart(2) [of s t f AtInside] by fastforce

text \<open>A parked fiber stays so while others move.\<close>

lemma schedule_parked: "fiber_schedule g s = Next s' \<Longrightarrow> fc_parked s' = fc_parked s"
  by (auto simp: fiber_schedule_def fc_put_def split: option.splits)

lemma resume_parked: "fiber_resume g s = Next s' \<Longrightarrow> fc_parked s' = fc_parked s"
  by (auto simp: fiber_resume_def schedule_parked split: option.splits if_splits)

lemma create_parked: "fiber_create x s = Next s' \<Longrightarrow> fc_parked s' = fc_parked s"
  by (auto simp: fiber_create_def fc_put_def Let_def dest!: schedule_parked split: sum.splits prod.splits)

lemma on_completed_parked: "on_completed aw ready g s = Inr (nxt, s') \<Longrightarrow> set (fc_parked s) \<subseteq> set (fc_parked s')"
  by (cases aw) (auto simp: handle_schedule_def handle_release_def dest!: schedule_parked split: outcome.splits if_splits)

lemma foreign_parked:
  assumes p: "f \<in> set (fc_parked s)" and e: "fa_foreign f s e" and s': "fiber_core_step e s = Next s'"
  shows "f \<in> set (fc_parked s')"
proof (cases e)
  case (FcCompleted t ready)
  with s' p show ?thesis
    by (auto simp: run_fiber_completed_def fiber_destroy_def th_put_def fc_put_def Let_def dest!: on_completed_parked
        split: if_splits list.splits prod.splits run_at.splits option.splits outcome.splits sum.splits)
next
  case (FcSuspend t aw)
  with s' e p show ?thesis
    by (cases aw) (auto simp: fiber_suspend_def fiber_step_return_def fc_unpark_def th_put_def fc_put_def
        split: if_splits list.splits prod.splits run_at.splits option.splits sum.splits)
next
  case (FcSchedule g)
  with s' e p show ?thesis
    by (auto simp: handle_schedule_def handle_release_def fc_unpark_def dest!: schedule_parked split: if_splits)
next
  case (FcResume g)
  with s' e p show ?thesis
    by (auto simp: handle_resume_def handle_release_def fc_unpark_def dest!: resume_parked split: if_splits)
qed (use s' p create_parked in \<open>auto simp: fiber_go_current_def fiber_run_def fiber_step_def fiber_routine_end_def fiber_step_return_def
    fiber_discard_def fiber_destroy_def th_put_def fc_put_def Let_def
    split: if_splits list.splits prod.splits run_at.splits option.splits sum.splits\<close>)

text \<open>The thread \<open>t\<close> has switched out of \<open>f\<close>, which suspended with the awaiter of \<open>Await\<close>; \<open>OnCompleted\<close> is next.\<close>

definition fc_completing :: "nat \<Rightarrow> nat \<Rightarrow> fiber_core \<Rightarrow> bool" where
  "fc_completing f t s \<longleftrightarrow> t < length (fc_threads s) \<and>
     (\<exists>prev gs fb. th_frames (fc_threads s ! t) = (f, AtCompleted, prev) # gs \<and> fc_fibers s f = Some fb \<and>
        fb_awaiter fb = Some AwAlways \<and> fb_state fb = FsSuspended \<and> \<not> ci_completed (fb_coroutine fb))"

definition fc_keeps :: "nat \<Rightarrow> nat \<Rightarrow> fiber_core \<Rightarrow> fiber_core \<Rightarrow> bool" where
  "fc_keeps f t s s' \<longleftrightarrow> fc_fibers s' f = fc_fibers s f \<and> length (fc_threads s') = length (fc_threads s) \<and> fc_threads s' ! t = fc_threads s ! t"

lemma fc_keeps_refl: "fc_keeps f t s s"
  by (simp add: fc_keeps_def)

lemma fc_keeps_trans: "fc_keeps f t s u \<Longrightarrow> fc_keeps f t u v \<Longrightarrow> fc_keeps f t s v"
  by (simp add: fc_keeps_def)

lemma fc_keeps_put:
  "g \<noteq> f \<Longrightarrow> fc_keeps f t s (fc_put g fb s') \<longleftrightarrow> fc_keeps f t s s'"
  "g \<noteq> f \<Longrightarrow> fc_keeps f t (fc_put g fb s) s' \<longleftrightarrow> fc_keeps f t s s'"
  by (simp_all add: fc_keeps_def fc_put_def)

lemma fc_keeps_th: "t' \<noteq> t \<Longrightarrow> fc_keeps f t s (th_put t' fs cur s') \<longleftrightarrow> fc_keeps f t s s'"
  by (simp add: fc_keeps_def th_put_def)

lemma fc_keeps_fields [simp]:
  "fc_keeps f t s (s'\<lparr>fc_queue := q\<rparr>) = fc_keeps f t s s'" "fc_keeps f t s (s'\<lparr>fc_parked := p\<rparr>) = fc_keeps f t s s'"
  "fc_keeps f t (s\<lparr>fc_queue := q\<rparr>) s' = fc_keeps f t s s'" "fc_keeps f t (s\<lparr>fc_parked := p\<rparr>) s' = fc_keeps f t s s'"
  "fc_keeps f t s (fc_unpark g s') = fc_keeps f t s s'" "fc_keeps f t (fc_unpark g s) s' = fc_keeps f t s s'"
  by (simp_all add: fc_keeps_def fc_unpark_def)

lemma schedule_keeps: "fiber_schedule g s = Next s' \<Longrightarrow> g \<noteq> f \<Longrightarrow> fc_keeps f t s s'"
  by (auto simp: fiber_schedule_def fc_keeps_put fc_keeps_refl split: option.splits)

lemma resume_keeps: "fiber_resume g s = Next s' \<Longrightarrow> g \<noteq> f \<Longrightarrow> fc_keeps f t s s'"
  by (auto simp: fiber_resume_def schedule_keeps split: option.splits if_splits)

lemma destroy_keeps: "fiber_destroy g s = Next s' \<Longrightarrow> g \<noteq> f \<Longrightarrow> fc_keeps f t s s'"
  by (auto simp: fiber_destroy_def fc_keeps_def split: option.splits)

lemma create_keeps: "fiber_create x s = Next s' \<Longrightarrow> fc_created s \<noteq> f \<Longrightarrow> fc_keeps f t s s'"
  by (auto simp: fiber_create_def fiber_schedule_def fc_put_def fc_keeps_def Let_def split: sum.splits prod.splits option.splits)

lemma on_completed_keeps: "on_completed aw ready g s = Inr (nxt, s') \<Longrightarrow> g \<noteq> f \<Longrightarrow> fc_keeps f t s s'"
  by (cases aw) (auto simp: handle_schedule_def handle_release_def schedule_keeps fc_keeps_refl split: outcome.splits if_splits)

lemma foreign_keeps:
  assumes I: "fiber_inv s" and c: "fc_completing f t s" and e: "fa_foreign f s e" and s': "fiber_core_step e s = Next s'"
  shows "fc_keeps f t s s'"
proof -
  from c obtain prev gs fb where t: "t < length (fc_threads s)" "th_frames (fc_threads s ! t) = (f, AtCompleted, prev) # gs"
    "fc_fibers s f = Some fb" by (auto simp: fc_completing_def)
  have fr: "(f, AtCompleted, prev) \<in> set (th_frames (fc_threads s ! t))" using t(2) by simp
  note apart = frame_places_apart [OF I t(1) fr]
  have no: "\<not> user_code t s" using t by (simp add: user_code_def)
  have other: "g \<noteq> f" if "t' < length (fc_threads s)" "t' \<noteq> t" "th_frames (fc_threads s ! t') = (g, q, r) # hs" for t' g q r hs
    using apart(1) [of t' g q r] that by simp
  have new: "fc_created s \<noteq> f" using I t(3) by (fastforce simp: fiber_inv_def core_ok_def ids_ok_def)
  have cur: "g \<noteq> f" if "user_code t' s" "th_current (fc_threads s ! t') = Some g" for t' g
    using that no other [of t'] current_in_frame [OF I, of g t'] by (metis fa_current_def)
  show ?thesis
  proof (cases e)
    case (FcGo x)
    with s' create_keeps new show ?thesis by simp
  next
    case (FcGoCurrent t')
    with s' create_keeps new show ?thesis by (auto simp: fiber_go_current_def split: if_splits sum.splits option.splits)
  next
    case (FcRun t' i)
    with s' no show ?thesis by (cases "t' = t") (auto simp: fiber_run_def fc_keeps_th fc_keeps_refl split: if_splits)
  next
    case (FcStep t')
    with s' t(2) other [of t'] show ?thesis
      by (cases "t' = t") (auto simp: fiber_step_def fc_keeps_th fc_keeps_put fc_keeps_refl
          split: if_splits list.splits run_at.splits option.splits sum.splits prod.splits)
  next
    case (FcSuspend t' aw)
    with s' e no cur [of t'] show ?thesis
      by (cases "t' = t"; cases aw) (auto simp: fiber_suspend_def fiber_current_def fiber_step_return_def fc_keeps_th fc_keeps_put fc_keeps_refl fc_unpark_def
          split: if_splits list.splits run_at.splits option.splits sum.splits prod.splits)
  next
    case (FcEnd t' thrown)
    with s' t(2) other [of t'] show ?thesis
      by (cases "t' = t") (auto simp: fiber_routine_end_def fiber_step_return_def fc_keeps_th fc_keeps_put fc_keeps_refl Let_def
          split: if_splits list.splits run_at.splits option.splits sum.splits prod.splits)
  next
    case (FcCompleted t' ready)
    with e t(1,2) have "t' \<noteq> t" by (auto simp: fa_at_completed_def)
    with FcCompleted s' other [of t'] show ?thesis
      by (auto simp: run_fiber_completed_def fc_keeps_th fc_keeps_put fc_keeps_refl Let_def dest!: destroy_keeps [where t = t] on_completed_keeps [where t = t]
          split: if_splits list.splits run_at.splits option.splits sum.splits prod.splits outcome.splits)
  next
    case (FcDiscard i)
    with s' apart(3) [of i] show ?thesis by (auto simp: fiber_discard_def dest!: destroy_keeps [where t = t] split: if_splits)
  next
    case (FcSchedule g)
    with s' e show ?thesis by (auto simp: handle_schedule_def handle_release_def dest!: schedule_keeps [where t = t] split: if_splits)
  next
    case (FcResume g)
    with s' e show ?thesis by (auto simp: handle_resume_def handle_release_def dest!: resume_keeps [where t = t] split: if_splits)
  qed
qed

lemma keeps_completing: "fc_completing f t s \<Longrightarrow> fc_keeps f t s s' \<Longrightarrow> fc_completing f t s'"
  by (simp add: fc_completing_def fc_keeps_def)

subsection \<open>The steps of the fiber itself\<close>

lemma suspend_completing:
  assumes I: "fiber_inv s" and c: "fa_current f t s"
  shows "\<exists>s'. fiber_core_step (FcSuspend t AwAlways) s = Next s' \<and> fiber_inv s' \<and> fc_completing f t s'"
proof -
  obtain prev gs where t: "t < length (fc_threads s)" and fs: "th_frames (fc_threads s ! t) = (f, AtInside, prev) # gs"
    using current_in_frame [OF I c] by blast
  have u: "user_code t s" "th_current (fc_threads s ! t) = Some f" using c by (simp_all add: fa_current_def)
  obtain Hd R where "core_ok Hd (frame_places (th_frames (fc_threads s ! t)) + R) s" using fiber_inv_thread [OF I t] by blast
  then have "core_ok Hd (add_mset (f, PAt AtInside) (frame_places gs + R)) s" using fs by simp
  from core_okD [OF this] obtain fb where fb: "fc_fibers s f = Some fb" "fiber_ok fb (PAt AtInside)" by blast
  let ?fb = "fb\<lparr>fb_awaiter := Some AwAlways, fb_state := FsSuspended, fb_coroutine := impl_suspend () (fb_coroutine fb)\<rparr>"
  let ?s = "th_put t ((f, AtCompleted, None) # gs) prev (fc_put f ?fb s)"
  have s: "fiber_core_step (FcSuspend t AwAlways) s = Next ?s" using u(1) fiber_suspend_eq [OF fs u(2) fb(1)] by simp
  moreover have "fiber_inv ?s" using fiber_inv_event [OF I, of "FcSuspend t AwAlways"] s by simp
  moreover have "fc_completing f t ?s" using t fb(2) by (simp add: fc_completing_def th_put_def fc_put_def impl_suspend_def)
  ultimately show ?thesis by blast
qed

lemma completing_parks:
  assumes I: "fiber_inv s" and c: "fc_completing f t s"
  shows "\<exists>s'. fiber_core_step (FcCompleted t ready) s = Next s' \<and> fiber_inv s' \<and> f \<in> set (fc_parked s')"
proof -
  from c obtain prev gs fb where t: "t < length (fc_threads s)" "th_frames (fc_threads s ! t) = (f, AtCompleted, prev) # gs"
    "fc_fibers s f = Some fb" "fb_awaiter fb = Some AwAlways" "fb_state fb = FsSuspended" "\<not> ci_completed (fb_coroutine fb)"
    by (auto simp: fc_completing_def)
  then obtain s' where s': "fiber_core_step (FcCompleted t ready) s = Next s'" "f \<in> set (fc_parked s')"
    by (simp add: run_fiber_completed_def impl_is_completed_def Let_def th_put_def)
  with fiber_inv_event [OF I, of "FcCompleted t ready"] show ?thesis by (auto simp del: fiber_core_step.simps)
qed

lemma parked_resumes:
  assumes I: "fiber_inv s" and f: "f \<in> set (fc_parked s)"
  shows "\<exists>s'. handle_resume (Some f) (fc_unpark f s) = Next s' \<and> fiber_inv s' \<and> f \<in> snd ` set (fc_queue s')"
proof -
  from I obtain Hd where "core_ok Hd (thread_places (fc_threads s)) s" by (auto simp: fiber_inv_def)
  with core_unpark [OF f] have c: "core_ok Hd (add_mset (f, PParked) (thread_places (fc_threads s))) (fc_unpark f s)" by blast
  from core_resume [OF c] obtain s' where s': "fiber_resume f (fc_unpark f s) = Next s'" by blast
  then have "handle_resume (Some f) (fc_unpark f s) = Next s'" by (simp add: handle_resume_def handle_release_def)
  moreover from this have "fiber_inv s'" using fiber_inv_wake(2) [OF I f] by simp
  moreover have "f \<in> snd ` set (fc_queue s')"
    using s' by (force simp: fiber_resume_def fiber_schedule_def fc_put_def split: option.splits if_splits)
  ultimately show ?thesis by blast
qed

subsection \<open>The invariant\<close>

text \<open>Who has the fiber, in each stage.\<close>

fun fa_stage_ok :: "nat \<Rightarrow> 'r await_stage \<Rightarrow> ('x, 'r) future_awaiter \<Rightarrow> bool" where
  "fa_stage_ok f FaOut s \<longleftrightarrow> ct_consumer (aw_contract s) = CoFresh \<and> fa_handle s = None"
| "fa_stage_ok f FaGetting s \<longleftrightarrow> ct_consumer (aw_contract s) = CoGet \<and> ct_produced (ct_producer (aw_contract s)) \<and> fa_handle s = None"
| "fa_stage_ok f FaSuspending s \<longleftrightarrow> ct_consumer (aw_contract s) = CoFresh \<and> fa_handle s = None \<and> (\<exists>t. fc_completing f t (fa_core s))"
| "fa_stage_ok f FaSuspended s \<longleftrightarrow> ct_consumer (aw_contract s) \<in> {CoStore (), CoConsume, CoInvoke, CoDone} \<and>
     (if aw_callback s = RsDone then fa_handle s = None else fa_handle s = Some f \<and> f \<in> set (fc_parked (fa_core s)))"
| "fa_stage_ok f (FaGot r) s \<longleftrightarrow> aw_result s = Some r \<and> fa_handle s = None \<and>
     (ct_consumer (aw_contract s) = CoGot r \<or> aw_callback s = RsDone)"

definition fa_inv :: "nat \<Rightarrow> ('x, 'r) future_awaiter \<Rightarrow> bool" where
  "fa_inv f s \<longleftrightarrow> aw_inv s \<and> fiber_inv (fa_core s) \<and> fa_stage_ok f (fa_stage s) s"

lemma faD:
  assumes "fa_inv f s"
  shows "aw_inv s" "fiber_inv (fa_core s)" "fa_stage_ok f (fa_stage s) s"
  using assms by (simp_all add: fa_inv_def)

fun fa_lands :: "nat \<Rightarrow> ('x, 'r) future_awaiter outcome \<Rightarrow> bool" where
  "fa_lands f (Next s) \<longleftrightarrow> fa_inv f s"
| "fa_lands f Disabled \<longleftrightarrow> True"
| "fa_lands f (Fault x) \<longleftrightarrow> x = Panic ''Not in a fiber context'' \<or> x = Panic ''std::terminate''"

lemma fa_inv_new: "fa_inv f (await_new threads x)"
  by (simp add: fa_inv_def aw_inv_def await_new_def ct_inv_new contract_consumer fiber_inv_init)

lemma fa_more: "awaited.more s' = awaited.more s \<Longrightarrow> fa_core s' = fa_core s \<and> fa_handle s' = fa_handle s \<and> fa_stage s' = fa_stage s"
  by (cases s; cases s') simp

lemma aw_inv_core [simp]:
  "aw_inv (s\<lparr>fa_core := c\<rparr>) = aw_inv s" "aw_inv (s\<lparr>fa_handle := h\<rparr>) = aw_inv s" "aw_inv (s\<lparr>fa_stage := g\<rparr>) = aw_inv s"
  by (simp_all add: aw_inv_def)

lemma aw_fresh_idle: "aw_inv a \<Longrightarrow> ct_consumer (aw_contract a) \<noteq> CoDone \<Longrightarrow> aw_callback a = RsIdle"
  using aw_started(2) by blast

lemma ct_fresh_future: "ct_inv c \<Longrightarrow> ct_consumer c = CoFresh \<Longrightarrow> ct_future c = Some ()"
  using ct_invD(2) by (fastforce simp: ct_holders_ok_def)

lemma fa_await_lands:
  assumes I: "fa_inv f s"
  shows "fa_lands f (fa_await f t s)"
proof (cases "fa_stage s = FaOut \<and> fa_current f t (fa_core s)")
  case True
  then have c: "ct_consumer (aw_contract s) = CoFresh" "fa_handle s = None" using faD(3) [OF I] by simp_all
  note ci = awD(1) [OF faD(1) [OF I]]
  have f: "ct_future (aw_contract s) = Some ()" using ct_fresh_future [OF ci c(1)] .
  have idle: "aw_callback s = RsIdle" using aw_fresh_idle [OF faD(1) [OF I]] c by simp
  show ?thesis
  proof (cases "ss_has_result (ct_shared (aw_contract s))")
    case has: True
    then have p: "ct_produced (ct_producer (aw_contract s))" using ss_has_result_bits [OF ct_inv_bits [OF ci]] by simp
    let ?c = "(aw_contract s)\<lparr>ct_future := None, ct_consumer := CoGet\<rparr>"
    have g: "ct_do_get (aw_contract s) = Next ?c" using f by (simp add: ct_do_get_def hold_release_def)
    have "aw_inv (s\<lparr>aw_contract := ?c\<rparr>)"
      using ct_inv_step [OF ci ct_do_get_steps [OF g]] c by (intro aw_inv_contract [OF faD(1) [OF I] idle]) simp_all
    then have "fa_inv f (s\<lparr>aw_contract := ?c, fa_stage := FaGetting\<rparr>)" using faD(2) [OF I] c p by (simp add: fa_inv_def)
    then show ?thesis using True has f g by (simp add: fa_await_def hold_access_def aw_do_def)
  next
    case False
    from suspend_completing [OF faD(2) [OF I] conjunct2 [OF True]] obtain k where
      k: "fiber_core_step (FcSuspend t AwAlways) (fa_core s) = Next k" "fiber_inv k" "fc_completing f t k" by blast
    then have "fa_inv f (s\<lparr>fa_core := k, fa_stage := FaSuspending\<rparr>)" using faD(1) [OF I] c by (auto simp: fa_inv_def)
    then show ?thesis using True False f k(1) by (simp add: fa_await_def hold_access_def del: fiber_core_step.simps)
  qed
qed (auto simp: fa_await_def)

lemma fa_get_lands:
  assumes I: "fa_inv f s"
  shows "fa_lands f (fa_get f t s)"
proof (cases "fa_stage s = FaGetting \<and> fa_current f t (fa_core s)")
  case True
  then have c: "ct_consumer (aw_contract s) = CoGet" "ct_produced (ct_producer (aw_contract s))" "fa_handle s = None"
    using faD(3) [OF I] by simp_all
  note ci = awD(1) [OF faD(1) [OF I]]
  obtain r where r: "ss_result (ct_shared (aw_contract s)) = Some r" using ct_inv_result [OF ci c(2)] by blast
  let ?c = "(aw_contract s)\<lparr>ct_shared := (ct_shared (aw_contract s))\<lparr>ss_state := ct_bits True True\<rparr>, ct_consumer := CoGot r\<rparr>"
  have g: "ct_consumer_run (aw_contract s) = Next ?c"
    using ct_get_result_bits [OF ci c(1)] c r by (simp add: ct_consumer_run_def)
  have i: "ct_inv ?c" using ct_consumer_run_lands [OF ci] c(2) g by simp
  have "aw_callback s = RsIdle" using aw_fresh_idle [OF faD(1) [OF I]] c by simp
  then have "fa_inv f (s\<lparr>aw_contract := ?c, aw_result := Some r, fa_stage := FaGot r\<rparr>)"
    using i faD(1,2) [OF I] c by (simp add: fa_inv_def aw_inv_def)
  then show ?thesis using True g by (simp add: fa_get_def aw_do_def aw_take_def)
qed (auto simp: fa_get_def)

lemma fa_await_suspend_lands:
  assumes I: "fa_inv f s"
  shows "fa_lands f (fa_await_suspend f t s)"
proof (cases "fa_stage s = FaSuspending \<and> fa_at_completed f t (fa_core s)")
  case True
  then obtain u where c: "ct_consumer (aw_contract s) = CoFresh" "fa_handle s = None" and u: "fc_completing f u (fa_core s)"
    using faD(3) [OF I] by auto
  note ci = awD(1) [OF faD(1) [OF I]]
  have "u = t"
  proof (rule ccontr)
    assume "u \<noteq> t"
    from u obtain prev gs where "u < length (fc_threads (fa_core s))" "(f, AtCompleted, prev) \<in> set (th_frames (fc_threads (fa_core s) ! u))"
      by (force simp: fc_completing_def)
    from frame_places_apart(1) [OF faD(2) [OF I] this, of t f] \<open>u \<noteq> t\<close> True show False
      by (auto simp: fa_at_completed_def split: list.splits prod.splits run_at.splits)
  qed
  with completing_parks [OF faD(2) [OF I], of f t False] u obtain k where
    k: "fiber_core_step (FcCompleted t False) (fa_core s) = Next k" "fiber_inv k" "f \<in> set (fc_parked k)" by blast
  let ?c = "(aw_contract s)\<lparr>ct_future := None, ct_consumer := CoStore ()\<rparr>"
  have g: "ct_do_subscribe () (aw_contract s) = Next ?c"
    using ct_fresh_future [OF ci c(1)] by (simp add: ct_do_subscribe_def hold_release_def)
  have idle: "aw_callback s = RsIdle" using aw_fresh_idle [OF faD(1) [OF I]] c by simp
  have "aw_inv (s\<lparr>aw_contract := ?c\<rparr>)"
    using ct_inv_step [OF ci ct_do_subscribe_steps [OF g]] c by (intro aw_inv_contract [OF faD(1) [OF I] idle]) simp_all
  then have "fa_inv f (s\<lparr>aw_contract := ?c, fa_core := k, fa_handle := Some f, fa_stage := FaSuspended\<rparr>)"
    using k idle by (simp add: fa_inv_def)
  then show ?thesis using True k(1) g by (simp add: fa_await_suspend_def aw_do_def del: fiber_core_step.simps)
qed (auto simp: fa_await_suspend_def)

text \<open>The callback finds the fiber parked and its handle valid.\<close>

lemma fa_notify_stage:
  assumes I: "fa_inv f s" and n: "aw_callback s = RsNotify"
  shows "fa_stage s = FaSuspended" "fa_handle s = Some f" "f \<in> set (fc_parked (fa_core s))"
proof -
  have "ct_consumer (aw_contract s) = CoDone" using aw_started(2) [OF faD(1) [OF I]] n by simp
  then show "fa_stage s = FaSuspended" using faD(3) [OF I] n by (cases "fa_stage s") auto
  with faD(3) [OF I] n show "fa_handle s = Some f" "f \<in> set (fc_parked (fa_core s))" by simp_all
qed

lemma fa_resume_lands:
  assumes I: "fa_inv f s"
  shows "fa_lands f (fa_resume f s)"
proof (cases "aw_callback s = RsNotify")
  case True
  note st = fa_notify_stage [OF I True]
  from parked_resumes [OF faD(2) [OF I] st(3)] obtain k where
    k: "handle_resume (Some f) (fc_unpark f (fa_core s)) = Next k" "fiber_inv k" by blast
  have "ct_consumer (aw_contract s) = CoDone" using aw_started(2) [OF faD(1) [OF I]] True by simp
  then have "fa_inv f (s\<lparr>aw_callback := RsDone, fa_core := k, fa_handle := None\<rparr>)"
    using faD(1) [OF I] k(2) st(1) True by (simp add: fa_inv_def aw_inv_def)
  then show ?thesis using True st(2) k(1) by (simp add: fa_resume_def)
qed (simp add: fa_resume_def)

lemma fa_back_done:
  assumes I: "fa_inv f s" and "fa_stage s = FaSuspended" "fa_current f t (fa_core s)"
  shows "aw_callback s = RsDone"
  using faD(3) [OF I] assms(2,3) parked_not_current [OF faD(2) [OF I]] by (auto split: if_splits)

lemma fa_return_lands:
  assumes I: "fa_inv f s"
  shows "fa_lands f (fa_return f t s)"
proof (cases "fa_stage s = FaSuspended \<and> fa_current f t (fa_core s)")
  case True
  with fa_back_done [OF I] have d: "aw_callback s = RsDone" by blast
  with aw_done_result [OF faD(1) [OF I]] obtain r where r: "aw_result s = Some r" by blast
  then have "fa_inv f (s\<lparr>fa_stage := FaGot r\<rparr>)" using I d True by (simp add: fa_inv_def)
  then show ?thesis using True r by (simp add: fa_return_def aw_take_def)
qed (auto simp: fa_return_def)

lemma fa_awaited_lands:
  assumes I: "fa_inv f s"
  shows "fa_lands f (aw_step e s)"
proof (cases "aw_step e s")
  case (Next s')
  with aw_inv_step [OF faD(1) [OF I], of e] have i: "aw_inv s'" and m: "awaited.more s' = awaited.more s" by simp_all
  note c = aw_step_consumer [OF Next] and d = aw_step_callback [OF Next]
  have nd: "aw_callback s \<noteq> RsDone" using aw_step_done [OF faD(1) [OF I], of e] Next by auto
  have "fa_stage_ok f (fa_stage s') s'"
  proof (cases "fa_stage s")
    case FaGetting
    then have "ct_consumer (aw_contract s) = CoGet" "ct_produced (ct_producer (aw_contract s))" using faD(3) [OF I] by simp_all
    moreover from this have "ct_promise (aw_contract s) = None"
      using ct_invD(2) [OF awD(1) [OF faD(1) [OF I]]] by (auto simp: ct_holders_ok_def)
    ultimately have "ct_consumer (aw_contract s) = CoGet" "ct_produced (ct_producer (aw_contract s'))"
      using aw_step_produced [OF Next] by blast+
    then show ?thesis using faD(3) [OF I] FaGetting fa_more [OF m] c by auto
  next
    case (FaGot r)
    then have g: "ct_consumer (aw_contract s) = CoGot r" using faD(3) [OF I] nd by simp
    then have "aw_callback s = RsIdle" using aw_fresh_idle [OF faD(1) [OF I]] by simp
    with g c aw_step_idle_result [OF Next] faD(3) [OF I] FaGot fa_more [OF m] show ?thesis by auto
  qed (use faD(3) [OF I] fa_more [OF m] c d nd in auto)
  with i faD(2) [OF I] fa_more [OF m] Next show ?thesis by (simp add: fa_inv_def)
next
  case (Fault x)
  with aw_inv_step [OF faD(1) [OF I], of e] show ?thesis by simp
qed simp

lemma fa_fiber_lands:
  assumes I: "fa_inv f s"
  shows "fa_lands f (fa_fiber f e s)"
proof (cases "fa_inside (fa_stage s) \<and> \<not> fa_foreign f (fa_core s) e")
  case False
  show ?thesis
  proof (cases "fiber_core_step e (fa_core s)")
    case (Next k)
    have k: "fiber_inv k" using fiber_inv_event [OF faD(2) [OF I], of e] Next by simp
    have "fa_stage_ok f (fa_stage s) (s\<lparr>fa_core := k\<rparr>)"
    proof (cases "fa_stage s")
      case FaSuspending
      then have "fa_foreign f (fa_core s) e" using False by simp
      with FaSuspending faD(3) [OF I] foreign_keeps [OF faD(2) [OF I] _ _ Next] keeps_completing show ?thesis by fastforce
    next
      case FaSuspended
      then have "fa_foreign f (fa_core s) e" using False by simp
      with FaSuspended faD(3) [OF I] foreign_parked [OF _ _ Next] show ?thesis by auto
    qed (use faD(3) [OF I] in auto)
    then have "fa_inv f (s\<lparr>fa_core := k\<rparr>)" using faD(1) [OF I] k by (simp add: fa_inv_def)
    then show ?thesis using False Next by (auto simp: fa_fiber_def)
  next
    case (Fault x)
    with False fiber_inv_event [OF faD(2) [OF I], of e] show ?thesis by (auto simp: fa_fiber_def)
  qed (use False in \<open>auto simp: fa_fiber_def\<close>)
qed (auto simp: fa_fiber_def)

lemma fa_inv_step: "fa_inv f s \<Longrightarrow> fa_lands f (await_step f e s)"
  by (cases e) (simp_all add: fa_await_lands fa_get_lands fa_await_suspend_lands fa_resume_lands fa_return_lands fa_awaited_lands fa_fiber_lands)

lemma fa_runs: "fa_inv f s \<Longrightarrow> fa_lands f (exec (await_step f) es s)"
proof (induction es arbitrary: s)
  case (Cons e es)
  from fa_inv_step [OF Cons.prems, of e] Cons.IH show ?case by (cases "await_step f e s") simp_all
qed simp

subsection \<open>Properties\<close>

lemma fa_got_result:
  assumes I: "fa_inv f s" and g: "fa_stage s = FaGot r"
  shows "ss_result (ct_shared (aw_contract s)) = Some r"
proof (cases "aw_callback s = RsDone")
  case True
  with aw_done_result [OF faD(1) [OF I]] faD(3) [OF I] g show ?thesis by auto
next
  case False
  then have "ct_consumer (aw_contract s) = CoGot r" using faD(3) [OF I] g by simp
  then show ?thesis using ct_invD(5) [OF awD(1) [OF faD(1) [OF I]]] by (simp add: ct_got_ok_def)
qed

text \<open>
  C39. A fiber awaits a future among other fibers that do as they please, on any number of threads. What \<open>Await\<close> returns is the
  result in the shared state. While the callback has not resumed it the fiber is parked and runs nowhere; the callback always finds it
  so, whatever the order in which it suspends, subscribes and the promise is set, and puts it in the queue of its executor; and
  when the fiber runs again the result is there. \<open>Await\<close> adds no failure to those of \<open>Fiber_Core\<close>.
\<close>

theorem await_resumes_once:
  "case exec (await_step f) es (await_new threads x) of
     Next s \<Rightarrow>
       (\<forall>r. fa_stage s = FaGot r \<longrightarrow> ss_result (ct_shared (aw_contract s)) = Some r) \<and>
       (fa_stage s = FaSuspended \<and> aw_callback s \<noteq> RsDone \<longrightarrow>
          f \<in> set (fc_parked (fa_core s)) \<and> (\<forall>t. \<not> fa_current f t (fa_core s))) \<and>
       (aw_callback s = RsNotify \<longrightarrow>
          (\<exists>s'. await_step f FaResume s = Next s' \<and> aw_callback s' = RsDone \<and> f \<in> snd ` set (fc_queue (fa_core s')))) \<and>
       (\<forall>t. fa_stage s = FaSuspended \<and> fa_current f t (fa_core s) \<longrightarrow>
          (\<exists>s' r. await_step f (FaReturn t) s = Next s' \<and> fa_stage s' = FaGot r))
   | Disabled \<Rightarrow> True
   | Fault y \<Rightarrow> y = Panic ''Not in a fiber context'' \<or> y = Panic ''std::terminate''"
proof (cases "exec (await_step f) es (await_new threads x)")
  case (Next s)
  with fa_runs [OF fa_inv_new, of f es threads x] have I: "fa_inv f s" by simp
  have "f \<in> set (fc_parked (fa_core s)) \<and> (\<forall>t. \<not> fa_current f t (fa_core s))"
    if "fa_stage s = FaSuspended" "aw_callback s \<noteq> RsDone"
    using faD(3) [OF I] that parked_not_current [OF faD(2) [OF I]] by simp
  moreover have "\<exists>s'. await_step f FaResume s = Next s' \<and> aw_callback s' = RsDone \<and> f \<in> snd ` set (fc_queue (fa_core s'))"
    if n: "aw_callback s = RsNotify"
  proof -
    from parked_resumes [OF faD(2) [OF I] fa_notify_stage(3) [OF I n]] obtain k where
      "handle_resume (Some f) (fc_unpark f (fa_core s)) = Next k" "f \<in> snd ` set (fc_queue k)" by blast
    then show ?thesis by (simp add: fa_resume_def fa_notify_stage(2) [OF I n] n)
  qed
  moreover have "\<exists>s' r. await_step f (FaReturn t) s = Next s' \<and> fa_stage s' = FaGot r"
    if "fa_stage s = FaSuspended" "fa_current f t (fa_core s)" for t
    using aw_done_result [OF faD(1) [OF I] fa_back_done [OF I that]] that by (auto simp: fa_return_def aw_take_def)
  ultimately show ?thesis using Next fa_got_result [OF I] by simp
next
  case (Fault y)
  with fa_runs [OF fa_inv_new, of f es threads x] show ?thesis by simp
qed simp

theorem await_resumes_once_witness:
  "\<exists>s :: (nat, nat) future_awaiter. exec (await_step 0)
     [FaFiber (FcGo 7), FaFiber (FcRun 0 0), FaFiber (FcStep 0), FaAwait 0, FaCompleted 0, FaAwaited AeSubscriber, FaAwaited (AeSet 5),
      FaAwaited AeProducer, FaAwaited AeSubscriber, FaAwaited AeProducer, FaAwaited AeProducer, FaAwaited AeRun, FaAwaited AeEmplace, FaResume,
      FaFiber (FcRun 0 0), FaFiber (FcStep 0), FaReturn 0] (await_new 1 3) = Next s \<and>
     fa_stage s = FaGot 5 \<and> ss_result (ct_shared (aw_contract s)) = Some 5"
  (is "\<exists>s. exec _ ?es ?n = Next s \<and> _")
proof -
  obtain s where s: "exec (await_step 0) ?es ?n = Next s" "fa_stage s = FaGot 5"
    by (simp add: await_defs fiber_defs aw_defs ct_run_defs contract_new_def hold_release_def hold_has_state_def hold_access_def
        impl_new_def impl_switch_in_def impl_suspend_def impl_is_completed_def Let_def atomic_simps
        ss_new_def ss_has_result_def rv_produced_def rv_producer_def ss_store_callback_def ss_emplace_def ss_consume_def ss_produce_def
        ss_invoke_callback_def rv_initial_def rv_consume_initial rv_produce_second)
  with await_resumes_once [of 0 ?es 1 "3 :: nat"] show ?thesis by simp
qed

end
