(* ===== verification/Future_Lite.thy ===== *)
theory Future_Lite
  imports Fiber_Core
begin

section \<open>FutureLite and its ParkingLot\<close>

text \<open>
  \<open>concurrency/future_lite.h\<close>, \<open>concurrency/future_lite.cpp\<close>: one fiber calls \<open>Get\<close>, one thread calls \<open>Set\<close>. The two share the
  result, the pointer of the parking lot and the state of the fiber, with no lock (\<open>mutex_\<close> is never used) and no atomic. A step is
  one access to one of them. The fiber is number 0.

  \<open>fl_context\<close>: the context of the fiber has been saved, so that it can be switched to.
\<close>

datatype 'r get_pc = GlCheck | GlStore | GlSuspend | GlSwitch | GlParked | GlValue | GlReturned 'r
datatype 'r set_pc = SlIdle | SlWake | SlResume nat | SlDone

record 'r future_lite =
  fl_result :: "'r option"
  fl_fiber :: "nat option"
  fl_state :: fiber_state
  fl_get :: "'r get_pc"
  fl_set :: "'r set_pc"

definition future_lite_new :: "'r future_lite" where
  "future_lite_new = \<lparr>fl_result = None, fl_fiber = None, fl_state = FsRunning, fl_get = GlCheck, fl_set = SlIdle\<rparr>"

datatype 'r lite_event = FlGet | FlRunFiber | FlSet 'r | FlWake

text \<open>\<open>Get\<close>, with \<open>ParkingLot::Park\<close> and \<open>Fiber::Suspend\<close>.\<close>

definition fl_get_step :: "'r future_lite \<Rightarrow> 'r future_lite outcome" where
  "fl_get_step s =
     (case fl_get s of
        GlCheck \<Rightarrow> (case fl_result s of Some r \<Rightarrow> Next (s\<lparr>fl_get := GlReturned r\<rparr>) | None \<Rightarrow> Next (s\<lparr>fl_get := GlStore\<rparr>))
      | GlStore \<Rightarrow> Next (s\<lparr>fl_fiber := Some 0, fl_get := GlSuspend\<rparr>)
      | GlSuspend \<Rightarrow> Next (s\<lparr>fl_state := FsSuspended, fl_get := GlSwitch\<rparr>)
      | GlSwitch \<Rightarrow> Next (s\<lparr>fl_get := GlParked\<rparr>)
      | GlValue \<Rightarrow> (case fl_result s of Some r \<Rightarrow> Next (s\<lparr>fl_get := GlReturned r\<rparr>) | None \<Rightarrow> Fault NullDereference)
      | _ \<Rightarrow> Disabled)"

text \<open>A thread of the executor runs the fiber that \<open>Resume\<close> has queued.\<close>

definition fl_run_fiber :: "'r future_lite \<Rightarrow> 'r future_lite outcome" where
  "fl_run_fiber s =
     (if fl_state s \<noteq> FsQueued then Disabled
      else if fl_get s = GlParked then Next (s\<lparr>fl_state := FsRunning, fl_get := GlValue\<rparr>)
      else Fault (Panic ''switch into a running context''))"

definition fl_set_result :: "'r \<Rightarrow> 'r future_lite \<Rightarrow> 'r future_lite outcome" where
  "fl_set_result r s = (if fl_set s = SlIdle then Next (s\<lparr>fl_result := Some r, fl_set := SlWake\<rparr>) else Disabled)"

text \<open>\<open>ParkingLot::Wake\<close>: the exchange, then \<open>Fiber::Resume\<close>.\<close>

definition fl_wake :: "'r future_lite \<Rightarrow> 'r future_lite outcome" where
  "fl_wake s =
     (case fl_set s of
        SlWake \<Rightarrow> Next (s\<lparr>fl_fiber := None, fl_set := (case fl_fiber s of None \<Rightarrow> SlDone | Some f \<Rightarrow> SlResume f)\<rparr>)
      | SlResume f \<Rightarrow>
          if fl_state s \<noteq> FsSuspended then Fault (AssertFailed ''Expected fiber in Suspended state'')
          else Next (s\<lparr>fl_state := FsQueued, fl_set := SlDone\<rparr>)
      | _ \<Rightarrow> Disabled)"

fun lite_step :: "'r lite_event \<Rightarrow> 'r future_lite \<Rightarrow> 'r future_lite outcome" where
  "lite_step FlGet s = fl_get_step s"
| "lite_step FlRunFiber s = fl_run_fiber s"
| "lite_step (FlSet r) s = fl_set_result r s"
| "lite_step FlWake s = fl_wake s"

lemmas lite_defs = future_lite_new_def fl_get_step_def fl_run_fiber_def fl_set_result_def fl_wake_def

text \<open>\<open>Set\<close> between the check and the store of the pointer: nobody wakes the fiber, whatever happens next.\<close>

lemma future_lite_lost_wakeup:
  "\<exists>s. exec lite_step [FlGet, FlSet 5, FlWake, FlGet, FlGet, FlGet] future_lite_new = Next s \<and>
     fl_get s = GlParked \<and> fl_set s = SlDone \<and> fl_result s = Some (5 :: nat) \<and> (\<forall>e. lite_step e s = Disabled)"
proof -
  have "lite_step e s = Disabled" if "fl_get s = GlParked" "fl_set s = SlDone" "fl_state s = FsSuspended" for e and s :: "nat future_lite"
    using that by (cases e) (simp_all add: lite_defs)
  then show ?thesis by (simp add: lite_defs)
qed

text \<open>\<open>Set\<close> between the store of the pointer and \<open>Suspend\<close>: the assertion of \<open>Resume\<close> fails.\<close>

lemma future_lite_asserts:
  "exec lite_step [FlGet, FlGet, FlSet (5 :: nat), FlWake, FlWake] future_lite_new = Fault (AssertFailed ''Expected fiber in Suspended state'')"
  by (simp add: lite_defs)

text \<open>\<open>Set\<close> after \<open>state_ = Suspended\<close> and before the switch: the fiber runs again while it still runs.\<close>

lemma future_lite_runs_twice:
  "exec lite_step [FlGet, FlGet, FlGet, FlSet (5 :: nat), FlWake, FlWake, FlRunFiber] future_lite_new = Fault (Panic ''switch into a running context'')"
  by (simp add: lite_defs)

text \<open>It works when neither call is interrupted by the other, as on an executor with one thread.\<close>

fun fl_between :: "'r get_pc \<Rightarrow> bool" where
  "fl_between GlStore = True"
| "fl_between GlSuspend = True"
| "fl_between GlSwitch = True"
| "fl_between _ = False"

fun fl_turn :: "'r lite_event \<Rightarrow> 'r future_lite \<Rightarrow> bool" where
  "fl_turn FlGet s = (fl_set s = SlIdle \<or> fl_set s = SlDone)"
| "fl_turn FlRunFiber s = (fl_set s = SlIdle \<or> fl_set s = SlDone)"
| "fl_turn _ s = (\<not> fl_between (fl_get s))"

definition lite_serial_step :: "'r lite_event \<Rightarrow> 'r future_lite \<Rightarrow> 'r future_lite outcome" where
  "lite_serial_step e s = (if fl_turn e s then lite_step e s else Disabled)"

fun fl_inv :: "'r get_pc \<Rightarrow> 'r future_lite \<Rightarrow> bool" where
  "fl_inv GlCheck s \<longleftrightarrow> fl_state s = FsRunning \<and> fl_fiber s = None \<and> fl_set s \<noteq> SlResume 0"
| "fl_inv GlStore s \<longleftrightarrow> fl_state s = FsRunning \<and> fl_fiber s = None \<and> fl_set s = SlIdle"
| "fl_inv GlSuspend s \<longleftrightarrow> fl_state s = FsRunning \<and> fl_fiber s = Some 0 \<and> fl_set s = SlIdle"
| "fl_inv GlSwitch s \<longleftrightarrow> fl_state s = FsSuspended \<and> fl_fiber s = Some 0 \<and> fl_set s = SlIdle"
| "fl_inv GlParked s \<longleftrightarrow>
     (case fl_set s of
        SlDone \<Rightarrow> fl_state s = FsQueued \<and> fl_fiber s = None
      | SlResume f \<Rightarrow> fl_state s = FsSuspended \<and> fl_fiber s = None
      | _ \<Rightarrow> fl_state s = FsSuspended \<and> fl_fiber s = Some 0)"
| "fl_inv GlValue s \<longleftrightarrow> fl_state s = FsRunning \<and> fl_set s = SlDone \<and> fl_fiber s = None"
| "fl_inv (GlReturned r) s \<longleftrightarrow> fl_state s = FsRunning \<and> fl_fiber s = None \<and> fl_result s = Some r \<and> fl_set s = SlDone"

definition fl_serial_inv :: "'r future_lite \<Rightarrow> bool" where
  "fl_serial_inv s \<longleftrightarrow> fl_inv (fl_get s) s \<and> (fl_result s = None \<longleftrightarrow> fl_set s = SlIdle) \<and>
     (\<forall>f. fl_set s = SlResume f \<longrightarrow> fl_get s = GlParked)"

lemma fl_serial_step: "fl_serial_inv s \<Longrightarrow> lands_in fl_serial_inv (lite_serial_step e s)"
  by (cases e; cases "fl_get s"; cases "fl_set s"; cases "fl_result s"; cases "fl_fiber s")
    (simp_all add: lite_serial_step_def fl_serial_inv_def lite_defs)

interpretation lite_serial: guarded_machine lite_serial_step future_lite_new fl_serial_inv
  by (rule guarded_machineI, simp add: fl_serial_inv_def future_lite_new_def) (rule fl_serial_step)

lemma future_lite_serial_returns:
  assumes "exec lite_serial_step es future_lite_new = Next s" and "fl_set s = SlDone"
  shows "(\<exists>r. fl_get s = GlReturned r \<and> fl_result s = Some r) \<or> (\<exists>e t. (e = FlGet \<or> e = FlRunFiber) \<and> lite_serial_step e s = Next t)"
proof -
  have "fl_serial_inv s" using lite_serial.gm_exec_inv [OF assms(1)] .
  then show ?thesis using assms(2)
    by (cases "fl_get s"; cases "fl_result s") (auto simp: fl_serial_inv_def lite_serial_step_def lite_defs)
qed

end
