(* ===== verification/Http_Client.thy ===== *)
theory Http_Client
  imports Http_Header Future
begin

section \<open>The HTTP client\<close>

text \<open>
  \<open>net/http.{h,cpp}\<close>, \<open>net/http/request.h\<close>, \<open>net/http/request_builder.h\<close>: requests through the easy interface of libcurl.

  libcurl is not in the repository. It is a parameter \<open>C\<close>, a record of the calls that are made, on a state \<open>'w\<close>; the locale \<open>easy_curl\<close> says
  what its documentation promises, over the view of a table of handles with their options and a network that answers.
  Three things matter here: it copies the URL but keeps the pointer of \<open>CURLOPT_POSTFIELDS\<close>, and reads from there in
  \<open>curl_easy_perform\<close>, up to the size that was set or else to the NUL; calls on a null handle do nothing and
  \<open>curl_easy_perform\<close> of one returns \<open>CURLE_BAD_FUNCTION_ARGUMENT\<close>; a handle is dead after \<open>curl_easy_cleanup\<close>.

  The strings whose \<open>c_str()\<close> is handed to libcurl are numbered buffers that live as long as their owner.
\<close>

subsection \<open>libcurl\<close>

record curl_request =
  cq_url :: string
  cq_body :: "nat option"
  cq_size :: "nat option"
  cq_headers :: "string list"

text \<open>What a transfer leaves: the chunks given to the write callbacks, and what \<open>curl_easy_getinfo\<close> says (\<open>'m\<close> is \<open>double\<close>).\<close>

record 'm curl_transfer =
  tr_code :: int
  tr_header :: "string list"
  tr_url :: string
  tr_content :: "string list"
  tr_size_download :: 'm
  tr_size_upload :: 'm
  tr_speed_download :: 'm
  tr_speed_upload :: 'm
  tr_total_time :: 'm

record ('w, 'm) curl_ops =
  ce_init :: "'w \<Rightarrow> nat option \<times> 'w"
  ce_set_url :: "string \<Rightarrow> nat \<Rightarrow> 'w \<Rightarrow> 'w"
  ce_set_body :: "nat \<Rightarrow> nat \<Rightarrow> 'w \<Rightarrow> 'w"
  ce_set_size :: "nat \<Rightarrow> nat \<Rightarrow> 'w \<Rightarrow> 'w"
  ce_set_headers :: "string list \<Rightarrow> nat \<Rightarrow> 'w \<Rightarrow> 'w"
  ce_cleanup :: "nat \<Rightarrow> 'w \<Rightarrow> 'w"
  ce_alive :: "nat \<Rightarrow> 'w \<Rightarrow> bool"
  ce_body :: "nat \<Rightarrow> 'w \<Rightarrow> (nat \<times> nat option) option"     \<comment> \<open>where \<open>curl_easy_perform\<close> will read, and how much\<close>
  ce_perform :: "string option \<Rightarrow> nat \<Rightarrow> 'w \<Rightarrow> (int + 'm curl_transfer) \<times> 'w"
  ce_strerror :: "int \<Rightarrow> string"

record curl_view =
  vw_handles :: "nat \<Rightarrow> curl_request option"
  vw_sent :: nat

definition curl_put :: "nat \<Rightarrow> curl_request option \<Rightarrow> curl_view \<Rightarrow> curl_view" where
  "curl_put h q v = v\<lparr>vw_handles := (vw_handles v)(h := q)\<rparr>"

definition curl_fresh :: curl_request where
  "curl_fresh = \<lparr>cq_url = [], cq_body = None, cq_size = None, cq_headers = []\<rparr>"

locale easy_curl =
  fixes C :: "('w, 'm) curl_ops" and view :: "'w \<Rightarrow> curl_view"
    and net :: "nat \<Rightarrow> string \<Rightarrow> string option \<Rightarrow> string list \<Rightarrow> int + 'm curl_transfer"
  assumes init_none: "ce_init C w = (None, w') \<Longrightarrow> view w' = view w"
    and init_some: "ce_init C w = (Some h, w') \<Longrightarrow> vw_handles (view w) h = None \<and> view w' = curl_put h (Some curl_fresh) (view w)"
    and alive: "ce_alive C h w \<longleftrightarrow> vw_handles (view w) h \<noteq> None"
    and set_url: "vw_handles (view w) h = Some q \<Longrightarrow> view (ce_set_url C u h w) = curl_put h (Some (q\<lparr>cq_url := u\<rparr>)) (view w)"
    and set_body: "vw_handles (view w) h = Some q \<Longrightarrow> view (ce_set_body C p h w) = curl_put h (Some (q\<lparr>cq_body := Some p\<rparr>)) (view w)"
    and set_size: "vw_handles (view w) h = Some q \<Longrightarrow> view (ce_set_size C n h w) = curl_put h (Some (q\<lparr>cq_size := Some n\<rparr>)) (view w)"
    and set_headers: "vw_handles (view w) h = Some q \<Longrightarrow> view (ce_set_headers C hs h w) = curl_put h (Some (q\<lparr>cq_headers := hs\<rparr>)) (view w)"
    and body: "vw_handles (view w) h = Some q \<Longrightarrow> ce_body C h w = map_option (\<lambda>p. (p, cq_size q)) (cq_body q)"
    and perform: "vw_handles (view w) h = Some q \<Longrightarrow> ce_perform C b h w = (r, w') \<Longrightarrow>
      r = net (vw_sent (view w)) (cq_url q) b (cq_headers q) \<and> view w' = (view w)\<lparr>vw_sent := Suc (vw_sent (view w))\<rparr>"
    and cleanup: "vw_handles (view w) h = Some q \<Longrightarrow> view (ce_cleanup C h w) = curl_put h None (view w)"

subsection \<open>Calls on a handle that may be null\<close>

record 'w net_world =
  nw_curl :: 'w
  nw_buffers :: "nat \<Rightarrow> string option"
  nw_next :: nat

definition buffer_new :: "string \<Rightarrow> 'w net_world \<Rightarrow> nat \<times> 'w net_world" where
  "buffer_new s nw = (nw_next nw, nw\<lparr>nw_buffers := (nw_buffers nw)(nw_next nw \<mapsto> s), nw_next := Suc (nw_next nw)\<rparr>)"

definition buffer_free :: "nat option \<Rightarrow> 'w net_world \<Rightarrow> 'w net_world" where
  "buffer_free p nw = (case p of None \<Rightarrow> nw | Some p \<Rightarrow> nw\<lparr>nw_buffers := (nw_buffers nw)(p := None)\<rparr>)"

definition c_string :: "string \<Rightarrow> string" where
  "c_string s = takeWhile (\<lambda>c. c \<noteq> CHR 0x00) s"

definition easy_do :: "('w, 'm) curl_ops \<Rightarrow> (nat \<Rightarrow> 'w \<Rightarrow> 'w) \<Rightarrow> nat option \<Rightarrow> 'w net_world \<Rightarrow> fault + 'w net_world" where
  "easy_do C f curl nw =
     (case curl of
        None \<Rightarrow> Inr nw
      | Some h \<Rightarrow> if ce_alive C h (nw_curl nw) then Inr (nw\<lparr>nw_curl := f h (nw_curl nw)\<rparr>) else Inl UseAfterFree)"

definition easy_read_body :: "(nat \<times> nat option) option \<Rightarrow> (nat \<Rightarrow> string option) \<Rightarrow> fault + string option" where
  "easy_read_body b buffers =
     (case b of
        None \<Rightarrow> Inr None
      | Some (p, sz) \<Rightarrow>
          (case buffers p of
             None \<Rightarrow> Inl UseAfterFree
           | Some s \<Rightarrow>
               (case sz of
                  None \<Rightarrow> Inr (Some (c_string s))
                | Some n \<Rightarrow> if n \<le> length s then Inr (Some (take n s)) else Inl UseAfterFree)))"

definition curle_bad_function_argument :: int where "curle_bad_function_argument = 43"

definition easy_perform :: "('w, 'm) curl_ops \<Rightarrow> nat option \<Rightarrow> 'w net_world \<Rightarrow> fault + (int + 'm curl_transfer) \<times> 'w net_world" where
  "easy_perform C curl nw =
     (case curl of
        None \<Rightarrow> Inr (Inl curle_bad_function_argument, nw)
      | Some h \<Rightarrow>
          if \<not> ce_alive C h (nw_curl nw) then Inl UseAfterFree
          else sum_bind (easy_read_body (ce_body C h (nw_curl nw)) (nw_buffers nw)) (\<lambda>b.
            let (r, w) = ce_perform C b h (nw_curl nw) in Inr (r, nw\<lparr>nw_curl := w\<rparr>)))"

definition easy_init :: "('w, 'm) curl_ops \<Rightarrow> 'w net_world \<Rightarrow> nat option \<times> 'w net_world" where
  "easy_init C nw = (let (h, w) = ce_init C (nw_curl nw) in (h, nw\<lparr>nw_curl := w\<rparr>))"

text \<open>The metrics and the response, made of what the write callback collected and \<open>curl_easy_getinfo\<close> reported. A \<open>TimeSpan\<close> is its seconds.\<close>

record 'm http_metrics =
  hm_download_bytes :: 'm
  hm_upload_bytes :: 'm
  hm_average_download_speed :: 'm
  hm_average_upload_speed :: 'm
  hm_duration :: 'm

definition http_metrics_of :: "'m curl_transfer \<Rightarrow> 'm http_metrics" where
  "http_metrics_of tr = \<lparr>hm_download_bytes = tr_size_download tr, hm_upload_bytes = tr_size_upload tr,
     hm_average_download_speed = tr_speed_download tr, hm_average_upload_speed = tr_speed_upload tr, hm_duration = tr_total_time tr\<rparr>"

definition http_respond :: "'m curl_transfer \<Rightarrow> fault + 'm http_metrics http_response" where
  "http_respond tr = http_make_response (tr_code tr) (tr_header tr) (http_metrics_of tr) (tr_url tr) (tr_content tr)"

subsection \<open>Http::Get and Http::PostJson\<close>

text \<open>\<open>Inl\<close> of a string: a \<open>BaseException\<close> with this message.\<close>

definition http_finish :: "('w, 'm) curl_ops \<Rightarrow> nat option \<Rightarrow> (int + 'm curl_transfer) \<times> 'w net_world \<Rightarrow>
    fault + (string + 'm http_metrics http_response) \<times> 'w net_world" where
  "http_finish C curl rw =
     (let (r, nw) = rw in
      sum_bind (easy_do C (ce_cleanup C) curl nw) (\<lambda>nw'.
        case r of
          Inl code \<Rightarrow> Inr (Inl (ce_strerror C code), nw')
        | Inr tr \<Rightarrow> sum_bind (http_respond tr) (\<lambda>resp. Inr (Inr resp, nw'))))"

definition http_get :: "('w, 'm) curl_ops \<Rightarrow> string \<Rightarrow> 'w net_world \<Rightarrow> fault + (string + 'm http_metrics http_response) \<times> 'w net_world" where
  "http_get C url nw =
     (let (curl, nw1) = easy_init C nw in
      sum_bind (easy_do C (ce_set_url C (c_string url)) curl nw1) (\<lambda>nw2.
      sum_bind (easy_perform C curl nw2) (http_finish C curl)))"

definition http_post_json :: "('w, 'm) curl_ops \<Rightarrow> string \<Rightarrow> string \<Rightarrow> 'w net_world \<Rightarrow> fault + (string + 'm http_metrics http_response) \<times> 'w net_world" where
  "http_post_json C url json nw =
     (let (p, nw0) = buffer_new json nw; (curl, nw1) = easy_init C nw0 in
      sum_bind (easy_do C (ce_set_url C (c_string url)) curl nw1) (\<lambda>nw2.
      sum_bind (easy_do C (ce_set_body C p) curl nw2) (\<lambda>nw3.
      sum_bind (easy_do C (ce_set_headers C [''Content-Type: application/json'']) curl nw3) (\<lambda>nw4.
      sum_bind (easy_perform C curl nw4) (\<lambda>rw.
      sum_bind (http_finish C curl rw) (\<lambda>(r, nw5). Inr (r, buffer_free (Some p) nw5)))))))"

subsection \<open>HttpRequestBuilder and HttpRequest\<close>

record http_builder =
  hb_curl :: "nat option"
  hb_url :: string
  hb_content :: "nat option"

definition hb_new :: "('w, 'm) curl_ops \<Rightarrow> 'w net_world \<Rightarrow> fault + http_builder \<times> 'w net_world" where
  "hb_new C nw =
     (let (curl, nw') = easy_init C nw in
      if curl = None then Inl (AssertFailed ''curl_'') else Inr (\<lparr>hb_curl = curl, hb_url = [], hb_content = None\<rparr>, nw'))"

definition hb_set_url :: "('w, 'm) curl_ops \<Rightarrow> string \<Rightarrow> http_builder \<times> 'w net_world \<Rightarrow> fault + http_builder \<times> 'w net_world" where
  "hb_set_url C url bw =
     (let (b, nw) = bw in sum_bind (easy_do C (ce_set_url C (c_string url)) (hb_curl b) nw) (\<lambda>nw'. Inr (b\<lparr>hb_url := url\<rparr>, nw')))"

definition hb_get :: "('w, 'm) curl_ops \<Rightarrow> string \<Rightarrow> http_builder \<times> 'w net_world \<Rightarrow> fault + http_builder \<times> 'w net_world" where
  "hb_get = hb_set_url"

text \<open>The body is a string of the builder; assigning it frees the one before.\<close>

definition hb_post :: "('w, 'm) curl_ops \<Rightarrow> string \<Rightarrow> string \<Rightarrow> http_builder \<times> 'w net_world \<Rightarrow> fault + http_builder \<times> 'w net_world" where
  "hb_post C url content bw =
     sum_bind (hb_set_url C url bw) (\<lambda>(b, nw).
       let (p, nw1) = buffer_new content (buffer_free (hb_content b) nw) in
       sum_bind (easy_do C (ce_set_url C (c_string (hb_url b))) (hb_curl b) nw1) (\<lambda>nw2.
       sum_bind (easy_do C (ce_set_body C p) (hb_curl b) nw2) (\<lambda>nw3. Inr (b\<lparr>hb_content := Some p\<rparr>, nw3))))"

text \<open>Here it is the parameter of the call, which is gone when it returns.\<close>

definition hb_set_content :: "('w, 'm) curl_ops \<Rightarrow> string \<Rightarrow> http_builder \<times> 'w net_world \<Rightarrow> fault + http_builder \<times> 'w net_world" where
  "hb_set_content C body bw =
     (let (b, nw) = bw; (p, nw1) = buffer_new body nw in
      sum_bind (easy_do C (ce_set_size C (length body)) (hb_curl b) nw1) (\<lambda>nw2.
      sum_bind (easy_do C (ce_set_body C p) (hb_curl b) nw2) (\<lambda>nw3. Inr (b, buffer_free (Some p) nw3))))"

definition hb_build :: "http_builder \<Rightarrow> fault + nat option \<times> http_builder" where
  "hb_build b = (if hb_curl b = None then Inl (AssertFailed ''curl_'') else Inr (hb_curl b, b\<lparr>hb_curl := None\<rparr>))"

definition hb_destroy :: "('w, 'm) curl_ops \<Rightarrow> http_builder \<times> 'w net_world \<Rightarrow> fault + 'w net_world" where
  "hb_destroy C bw =
     (let (b, nw) = bw in sum_bind (easy_do C (ce_cleanup C) (hb_curl b) nw) (\<lambda>nw'. Inr (buffer_free (hb_content b) nw')))"

text \<open>The moves of \<open>HttpRequest\<close> swap; the moved-from object is destroyed with a null handle.\<close>

definition hq_move :: "nat option \<Rightarrow> nat option \<times> nat option" where
  "hq_move that = (that, None)"

definition hq_move_assign :: "nat option \<Rightarrow> nat option \<Rightarrow> nat option \<times> nat option" where
  "hq_move_assign this that = (that, this)"

definition hq_run :: "('w, 'm) curl_ops \<Rightarrow> nat option \<Rightarrow> 'w net_world \<Rightarrow> fault + (int + 'm http_metrics http_response) \<times> 'w net_world" where
  "hq_run C curl nw =
     sum_bind (easy_perform C curl nw) (\<lambda>(r, nw').
       case r of Inl code \<Rightarrow> Inr (Inl code, nw') | Inr tr \<Rightarrow> sum_bind (http_respond tr) (\<lambda>resp. Inr (Inr resp, nw')))"

definition hq_destroy :: "('w, 'm) curl_ops \<Rightarrow> nat option \<Rightarrow> 'w net_world \<Rightarrow> fault + 'w net_world" where
  "hq_destroy C = easy_do C (ce_cleanup C)"

text \<open>\<open>auto request = HttpRequestBuilder().Get(url).Build(); auto result = request.Run();\<close>\<close>

definition http_builder_get :: "('w, 'm) curl_ops \<Rightarrow> string \<Rightarrow> 'w net_world \<Rightarrow> fault + (int + 'm http_metrics http_response) \<times> 'w net_world" where
  "http_builder_get C url nw =
     sum_bind (hb_new C nw) (\<lambda>bw.
     sum_bind (hb_get C url bw) (\<lambda>(b, nw1).
     sum_bind (hb_build b) (\<lambda>(q, b1).
     sum_bind (hb_destroy C (b1, nw1)) (\<lambda>nw2.
     sum_bind (hq_run C (fst (hq_move q)) nw2) (\<lambda>(r, nw3).
     sum_bind (hq_destroy C (fst (hq_move q)) nw3) (\<lambda>nw4. Inr (r, nw4)))))))"

text \<open>The same with \<open>Post\<close>; with \<open>keep\<close> the builder is a variable that lives until after the run.\<close>

definition http_builder_post :: "('w, 'm) curl_ops \<Rightarrow> bool \<Rightarrow> string \<Rightarrow> string \<Rightarrow> 'w net_world \<Rightarrow> fault + (int + 'm http_metrics http_response) \<times> 'w net_world" where
  "http_builder_post C keep url content nw =
     sum_bind (hb_new C nw) (\<lambda>bw.
     sum_bind (hb_post C url content bw) (\<lambda>(b, nw1).
     sum_bind (hb_build b) (\<lambda>(q, b1).
     sum_bind (if keep then Inr nw1 else hb_destroy C (b1, nw1)) (\<lambda>nw2.
     sum_bind (hq_run C q nw2) (\<lambda>(r, nw3).
     sum_bind (hq_destroy C q nw3) (\<lambda>nw4.
     sum_bind (if keep then hb_destroy C (b1, nw4) else Inr nw4) (\<lambda>nw5. Inr (r, nw5))))))))"

lemmas http_defs =
  easy_init_def easy_perform_def easy_read_body_def buffer_new_def buffer_free_def http_finish_def http_get_def http_post_json_def
  hb_new_def hb_set_url_def hb_get_def hb_post_def hb_set_content_def hb_build_def hb_destroy_def hq_move_def hq_run_def hq_destroy_def
  http_builder_get_def http_builder_post_def

subsection \<open>Asynchronous requests\<close>

text \<open>
  \<open>GetAsync\<close> and \<open>PostJsonAsync\<close> are \<open>futures::Execute\<close> of the synchronous call, \<open>GetStringAsync\<close> takes the content with \<open>Then\<close>. What the
  call comes to when the executor runs it is \<open>outcome\<close>; the value of a future here is a response or a string. The overloads without an
  executor dereference \<open>ThreadPool::Current()\<close>, which is null outside a pool.
\<close>

datatype 'm http_value = HvResponse "'m http_response" | HvString string

definition http_async :: "'x \<Rightarrow> string + 'm http_response \<Rightarrow> ('x, string, 'm http_value) future_expr" where
  "http_async executor outcome = FExecute executor (map_sum id HvResponse outcome)"

definition http_current_async :: "'x option \<Rightarrow> string + 'm http_response \<Rightarrow> fault + ('x, string, 'm http_value) future_expr" where
  "http_current_async current outcome = (case current of None \<Rightarrow> Inl NullDereference | Some x \<Rightarrow> Inr (http_async x outcome))"

fun http_content :: "'m http_value \<Rightarrow> string + 'm http_value" where
  "http_content (HvResponse r) = Inr (HvString (hr_content r))"
| "http_content (HvString s) = Inr (HvString s)"

definition http_get_string_async :: "'x option \<Rightarrow> string + 'm http_response \<Rightarrow> fault + ('x, string, 'm http_value) future_expr" where
  "http_get_string_async current outcome = sum_bind (http_current_async current outcome) (\<lambda>e. Inr (FThen e http_content))"

lemma http_get_string_denotes:
  "http_get_string_async (Some x) outcome = Inr e \<Longrightarrow> fut_denote e = Some (map_sum id (\<lambda>r. HvString (hr_content r)) outcome)"
  by (cases outcome) (auto simp: http_get_string_async_def http_current_async_def http_async_def)

subsection \<open>What a request comes to\<close>

text \<open>\<open>net_same\<close>: no handle and no buffer is left behind, and none that was there is touched.\<close>

definition net_same :: "('w \<Rightarrow> curl_view) \<Rightarrow> 'w net_world \<Rightarrow> 'w net_world \<Rightarrow> bool" where
  "net_same view nw nw' \<longleftrightarrow> vw_handles (view (nw_curl nw')) = vw_handles (view (nw_curl nw)) \<and> nw_buffers nw' = nw_buffers nw"

lemma curl_put_simps [simp]:
  "vw_handles (curl_put h q v) = (vw_handles v)(h := q)" "vw_sent (curl_put h q v) = vw_sent v"
  by (simp_all add: curl_put_def)

lemma curl_fresh_simps [simp]: "cq_url curl_fresh = []" "cq_body curl_fresh = None" "cq_size curl_fresh = None" "cq_headers curl_fresh = []"
  by (simp_all add: curl_fresh_def)

lemma sum_bind_assoc: "sum_bind (sum_bind m f) g = sum_bind m (\<lambda>x. sum_bind (f x) g)"
  by (cases m) simp_all

context easy_curl
begin

lemma easy_do_alive:
  "vw_handles (view (nw_curl nw)) h = Some q \<Longrightarrow> easy_do C f (Some h) nw = Inr (nw\<lparr>nw_curl := f h (nw_curl nw)\<rparr>)"
  by (simp add: easy_do_def alive)

lemma easy_perform_alive:
  assumes "vw_handles (view (nw_curl nw)) h = Some q"
    and "easy_read_body (map_option (\<lambda>p. (p, cq_size q)) (cq_body q)) (nw_buffers nw) = Inr b"
  obtains w where "easy_perform C (Some h) nw = Inr (net (vw_sent (view (nw_curl nw))) (cq_url q) b (cq_headers q), nw\<lparr>nw_curl := w\<rparr>)"
    "vw_handles (view w) = vw_handles (view (nw_curl nw))"
proof -
  obtain r w where rw: "ce_perform C b h (nw_curl nw) = (r, w)" by fastforce
  from perform [OF assms(1) rw] have "r = net (vw_sent (view (nw_curl nw))) (cq_url q) b (cq_headers q)"
    "vw_handles (view w) = vw_handles (view (nw_curl nw))" by simp_all
  with assms rw show thesis by (intro that [of w]) (simp_all add: easy_perform_def alive body [OF assms(1)])
qed

lemma easy_perform_dangling:
  "vw_handles (view (nw_curl nw)) h = Some q \<Longrightarrow> cq_body q = Some p \<Longrightarrow> nw_buffers nw p = None \<Longrightarrow> easy_perform C (Some h) nw = Inl UseAfterFree"
  by (simp add: easy_perform_def alive body easy_read_body_def)

lemma get_no_handle:
  assumes "ce_init C (nw_curl nw) = (None, w)"
  shows "http_get C url nw = Inr (Inl (ce_strerror C curle_bad_function_argument), nw\<lparr>nw_curl := w\<rparr>)"
    and "http_builder_get C url nw = Inl (AssertFailed ''curl_'')"
  using assms by (simp_all add: http_get_def http_builder_get_def easy_init_def easy_do_def easy_perform_def http_finish_def hb_new_def)

lemma curl_cleaned: "vw_handles (view w) h = Some q \<Longrightarrow> vw_handles (view (ce_cleanup C h w)) = (vw_handles (view w))(h := None)"
  using cleanup by simp

lemma get_result:
  assumes i: "ce_init C (nw_curl nw) = (Some h, w)"
  shows "\<exists>nw1. net_same view nw nw1 \<and>
    (let r = net (vw_sent (view (nw_curl nw))) (c_string url) None [] in
     http_get C url nw = (case r of
        Inl code \<Rightarrow> Inr (Inl (ce_strerror C code), nw1)
      | Inr tr \<Rightarrow> sum_bind (http_respond tr) (\<lambda>resp. Inr (Inr resp, nw1))) \<and>
     http_builder_get C url nw = (case r of
        Inl code \<Rightarrow> Inr (Inl code, nw1)
      | Inr tr \<Rightarrow> sum_bind (http_respond tr) (\<lambda>resp. Inr (Inr resp, nw1))))"
proof -
  note v = init_some [OF i]
  let ?w = "ce_set_url C (c_string url) h w" and ?q = "curl_fresh\<lparr>cq_url := c_string url\<rparr>"
  let ?nw = "nw\<lparr>nw_curl := ?w\<rparr>"
  have u: "view ?w = curl_put h (Some ?q) (view w)" by (rule set_url) (simp add: v)
  then have q: "vw_handles (view (nw_curl ?nw)) h = Some ?q" by simp
  obtain w2 where w2: "easy_perform C (Some h) ?nw = Inr (net (vw_sent (view (nw_curl nw))) (c_string url) None [], ?nw\<lparr>nw_curl := w2\<rparr>)"
    "vw_handles (view w2) = vw_handles (view ?w)"
    by (rule easy_perform_alive [OF q, of None]) (simp_all add: easy_read_body_def u v)
  let ?nw1 = "nw\<lparr>nw_curl := ce_cleanup C h w2\<rparr>"
  have w2q: "vw_handles (view w2) h = Some ?q" using w2(2) q by simp
  have "net_same view nw ?nw1" using curl_cleaned [OF w2q] w2(2) u v by (simp add: net_same_def fun_upd_idem)
  moreover have d1: "easy_do C (ce_set_url C (c_string url)) (Some h) (nw\<lparr>nw_curl := w\<rparr>) = Inr ?nw"
    using easy_do_alive [of "nw\<lparr>nw_curl := w\<rparr>" h curl_fresh] v by simp
  moreover have d2: "easy_do C (ce_cleanup C) (Some h) (?nw\<lparr>nw_curl := w2\<rparr>) = Inr ?nw1"
    using easy_do_alive [of "?nw\<lparr>nw_curl := w2\<rparr>" h ?q] w2q by simp
  ultimately show ?thesis
    using i w2(1) by (intro exI [of _ ?nw1]) (auto simp: sum_bind_assoc http_get_def http_builder_get_def http_finish_def easy_init_def hb_new_def hb_get_def
      hb_set_url_def hb_build_def hb_destroy_def hq_move_def hq_run_def hq_destroy_def buffer_free_def easy_do_def Let_def split: sum.splits)
qed

text \<open>\<open>PostJson\<close> sends the text up to its NUL with the one header.\<close>

lemma post_json_result:
  assumes i: "ce_init C (nw_curl nw) = (Some h, w)" and fresh: "nw_buffers nw (nw_next nw) = None"
  shows "\<exists>nw1. net_same view nw nw1 \<and>
    http_post_json C url json nw =
      (case net (vw_sent (view (nw_curl nw))) (c_string url) (Some (c_string json)) [''Content-Type: application/json''] of
        Inl code \<Rightarrow> Inr (Inl (ce_strerror C code), nw1)
      | Inr tr \<Rightarrow> sum_bind (http_respond tr) (\<lambda>resp. Inr (Inr resp, nw1)))"
proof -
  note v = init_some [OF i]
  let ?p = "nw_next nw" and ?hs = "[''Content-Type: application/json'']"
  let ?n = "\<lambda>w. nw\<lparr>nw_buffers := (nw_buffers nw)(?p \<mapsto> json), nw_next := Suc ?p, nw_curl := w\<rparr>"
  let ?w1 = "ce_set_url C (c_string url) h w"
  let ?w2 = "ce_set_body C ?p h ?w1"
  let ?w3 = "ce_set_headers C ?hs h ?w2"
  let ?q1 = "curl_fresh\<lparr>cq_url := c_string url\<rparr>"
  let ?q2 = "?q1\<lparr>cq_body := Some ?p\<rparr>"
  let ?q = "?q2\<lparr>cq_headers := ?hs\<rparr>"
  have u1: "view ?w1 = curl_put h (Some ?q1) (view w)" by (rule set_url) (simp add: v)
  have u2: "view ?w2 = curl_put h (Some ?q2) (view ?w1)" by (rule set_body) (simp add: u1)
  have u3: "view ?w3 = curl_put h (Some ?q) (view ?w2)" by (rule set_headers) (simp add: u2)
  then have q: "vw_handles (view (nw_curl (?n ?w3))) h = Some ?q" by simp
  obtain w4 where w4: "easy_perform C (Some h) (?n ?w3) =
      Inr (net (vw_sent (view (nw_curl nw))) (c_string url) (Some (c_string json)) ?hs, (?n ?w3)\<lparr>nw_curl := w4\<rparr>)"
    "vw_handles (view w4) = vw_handles (view ?w3)"
    by (rule easy_perform_alive [OF q, of "Some (c_string json)"]) (simp_all add: easy_read_body_def u1 u2 u3 v)
  have w4q: "vw_handles (view w4) h = Some ?q" using w4(2) q by simp
  let ?nw1 = "(?n (ce_cleanup C h w4))\<lparr>nw_buffers := ((nw_buffers nw)(?p \<mapsto> json))(?p := None)\<rparr>"
  have "net_same view nw ?nw1" using curl_cleaned [OF w4q] w4(2) u1 u2 u3 v fresh by (simp add: net_same_def fun_upd_idem)
  moreover have "easy_do C f (Some h) (?n w') = Inr (?n (f h w'))" if "vw_handles (view w') h = Some q'" for f w' q'
    using easy_do_alive [of "?n w'" h q'] that by simp
  note d = this [of w] this [of ?w1] this [of ?w2] this [of w4]
  ultimately show ?thesis
    using i w4(1) w4q u1 u2 v d
    by (intro exI [of _ ?nw1]) (auto simp: sum_bind_assoc http_post_json_def http_finish_def easy_init_def buffer_new_def buffer_free_def Let_def split: sum.splits)
qed

text \<open>\<open>Post\<close> of the builder: where the options of the handle point after \<open>Build\<close>.\<close>

definition posted :: "string \<Rightarrow> string \<Rightarrow> nat \<Rightarrow> 'w net_world \<Rightarrow> 'w net_world \<Rightarrow> bool" where
  "posted url content h nw nw' \<longleftrightarrow>
     vw_handles (view (nw_curl nw')) = (vw_handles (view (nw_curl nw)))(h \<mapsto> curl_fresh\<lparr>cq_url := c_string url, cq_body := Some (nw_next nw)\<rparr>) \<and>
     vw_sent (view (nw_curl nw')) = vw_sent (view (nw_curl nw)) \<and> nw_buffers nw' = (nw_buffers nw)(nw_next nw \<mapsto> content)"

lemma post_built:
  assumes i: "ce_init C (nw_curl nw) = (Some h, w)"
  shows "\<exists>nw'. posted url content h nw nw' \<and>
    sum_bind (hb_new C nw) (hb_post C url content) = Inr (\<lparr>hb_curl = Some h, hb_url = url, hb_content = Some (nw_next nw)\<rparr>, nw')"
proof -
  note v = init_some [OF i]
  let ?p = "nw_next nw"
  let ?m = "\<lambda>w. nw\<lparr>nw_curl := w, nw_buffers := (nw_buffers nw)(?p \<mapsto> content), nw_next := Suc ?p\<rparr>"
  let ?w1 = "ce_set_url C (c_string url) h w"
  let ?w2 = "ce_set_url C (c_string url) h ?w1"
  let ?w3 = "ce_set_body C ?p h ?w2"
  let ?q1 = "curl_fresh\<lparr>cq_url := c_string url\<rparr>"
  let ?q = "curl_fresh\<lparr>cq_url := c_string url, cq_body := Some ?p\<rparr>"
  have u1: "view ?w1 = curl_put h (Some ?q1) (view w)" by (rule set_url) (simp add: v)
  have "view ?w2 = curl_put h (Some (?q1\<lparr>cq_url := c_string url\<rparr>)) (view ?w1)" by (rule set_url) (simp add: u1)
  then have u2: "view ?w2 = curl_put h (Some ?q1) (view ?w1)" by simp
  have "view ?w3 = curl_put h (Some (?q1\<lparr>cq_body := Some ?p\<rparr>)) (view ?w2)" by (rule set_body) (simp add: u2)
  then have u3: "view ?w3 = curl_put h (Some ?q) (view ?w2)" by simp
  have a: "ce_alive C h w" "ce_alive C h ?w1" "ce_alive C h ?w2" using v u1 u2 by (simp_all add: alive)
  have "posted url content h nw (?m ?w3)" using u1 u2 u3 v by (simp add: posted_def)
  then show ?thesis
    using i a by (intro exI [of _ "?m ?w3"]) (simp add: hb_new_def hb_post_def hb_set_url_def easy_init_def easy_do_def buffer_new_def buffer_free_def Let_def)
qed

text \<open>If the builder is a temporary, its string is gone when the request runs.\<close>

lemma post_temporary_builder:
  assumes i: "ce_init C (nw_curl nw) = (Some h, w)"
  shows "http_builder_post C False url content nw = Inl UseAfterFree"
proof -
  from post_built [OF i] obtain nw' where p: "posted url content h nw nw'" and
    b: "sum_bind (hb_new C nw) (hb_post C url content) = Inr (\<lparr>hb_curl = Some h, hb_url = url, hb_content = Some (nw_next nw)\<rparr>, nw')" by blast
  let ?n = "nw'\<lparr>nw_buffers := (nw_buffers nw')(nw_next nw := None)\<rparr>"
  have "easy_perform C (Some h) ?n = Inl UseAfterFree"
    by (rule easy_perform_dangling [where p = "nw_next nw" and q = "curl_fresh\<lparr>cq_url := c_string url, cq_body := Some (nw_next nw)\<rparr>"]) (use p in \<open>simp_all add: posted_def\<close>)
  moreover have "http_builder_post C False url content nw =
      sum_bind (sum_bind (hb_new C nw) (hb_post C url content)) (\<lambda>(b, nw1).
        sum_bind (hb_build b) (\<lambda>(q, b1). sum_bind (hb_destroy C (b1, nw1)) (\<lambda>nw2.
        sum_bind (hq_run C q nw2) (\<lambda>(r, nw3). sum_bind (hq_destroy C q nw3) (\<lambda>nw4. Inr (r, nw4))))))"
    by (simp add: http_builder_post_def sum_bind_assoc split_def)
  ultimately show ?thesis by (simp add: b hb_build_def hb_destroy_def easy_do_def buffer_free_def hq_run_def)
qed

text \<open>\<open>SetContent\<close> always leaves a dangling pointer.\<close>

lemma set_content_dangles:
  assumes q: "vw_handles (view (nw_curl nw)) h = Some q" "hb_curl b = Some h"
  shows "\<exists>nw'. hb_set_content C body (b, nw) = Inr (b, nw') \<and> hq_run C (Some h) nw' = Inl UseAfterFree"
proof -
  let ?p = "nw_next nw"
  let ?w1 = "ce_set_size C (length body) h (nw_curl nw)"
  let ?w2 = "ce_set_body C ?p h ?w1"
  let ?n = "nw\<lparr>nw_curl := ?w2, nw_buffers := ((nw_buffers nw)(?p \<mapsto> body))(?p := None), nw_next := Suc ?p\<rparr>"
  have u1: "view ?w1 = curl_put h (Some (q\<lparr>cq_size := Some (length body)\<rparr>)) (view (nw_curl nw))" by (rule set_size [OF q(1)])
  have u2: "view ?w2 = curl_put h (Some (q\<lparr>cq_size := Some (length body), cq_body := Some ?p\<rparr>)) (view ?w1)"
    using set_body [of ?w1 h "q\<lparr>cq_size := Some (length body)\<rparr>" ?p] u1 by simp
  have "easy_perform C (Some h) ?n = Inl UseAfterFree" 
    by (rule easy_perform_dangling [where p = ?p and q = "q\<lparr>cq_size := Some (length body), cq_body := Some ?p\<rparr>"]) (simp_all add: u2)
  moreover have "ce_alive C h (nw_curl nw)" "ce_alive C h ?w1" using q u1 by (simp_all add: alive)
  ultimately show ?thesis using q(2)
    by (intro exI [of _ ?n]) (simp add: hb_set_content_def easy_do_def buffer_new_def buffer_free_def hq_run_def Let_def)
qed

end

subsection \<open>An instance\<close>

text \<open>libcurl as the view itself: a table of handles and a counter. It shows that the laws can hold.\<close>

definition plain_put :: "nat \<Rightarrow> (curl_request \<Rightarrow> curl_request) \<Rightarrow> curl_view \<Rightarrow> curl_view" where
  "plain_put h f v = curl_put h (map_option f (vw_handles v h)) v"

definition plain_curl :: "(nat \<Rightarrow> string \<Rightarrow> string option \<Rightarrow> string list \<Rightarrow> int + 'm curl_transfer) \<Rightarrow> (curl_view, 'm) curl_ops" where
  "plain_curl net = \<lparr>
     ce_init = (\<lambda>v. if vw_handles v (vw_sent v) = None then (Some (vw_sent v), curl_put (vw_sent v) (Some curl_fresh) v) else (None, v)),
     ce_set_url = (\<lambda>u h. plain_put h (cq_url_update (\<lambda>_. u))),
     ce_set_body = (\<lambda>p h. plain_put h (cq_body_update (\<lambda>_. Some p))),
     ce_set_size = (\<lambda>n h. plain_put h (cq_size_update (\<lambda>_. Some n))),
     ce_set_headers = (\<lambda>hs h. plain_put h (cq_headers_update (\<lambda>_. hs))),
     ce_cleanup = (\<lambda>h. curl_put h None),
     ce_alive = (\<lambda>h v. vw_handles v h \<noteq> None),
     ce_body = (\<lambda>h v. case vw_handles v h of None \<Rightarrow> None | Some q \<Rightarrow> map_option (\<lambda>p. (p, cq_size q)) (cq_body q)),
     ce_perform = (\<lambda>b h v. (case vw_handles v h of None \<Rightarrow> Inl curle_bad_function_argument | Some q \<Rightarrow> net (vw_sent v) (cq_url q) b (cq_headers q),
       v\<lparr>vw_sent := Suc (vw_sent v)\<rparr>)),
     ce_strerror = (\<lambda>code. ''error'')\<rparr>"

interpretation plain_easy: easy_curl "plain_curl net" "\<lambda>v. v" net for net
  by unfold_locales (auto simp: plain_curl_def plain_put_def split: if_splits)

text \<open>Without a handle \<open>Get\<close> throws and the builder asserts (\<open>get_no_handle\<close>).\<close>

subsection \<open>Properties\<close>

text \<open>
  C40. When \<open>curl_easy_init\<close> succeeds, a request built with \<open>HttpRequestBuilder\<close> and run is \<open>Http::Get\<close>: the same transfer, the same response, an error of libcurl as a
  code where \<open>Get\<close> throws its message; neither leaves a handle or a buffer behind, whatever the network answers.
\<close>

theorem http_get_equals_builder:
  assumes "easy_curl C view net" and "ce_init C (nw_curl nw) = (Some h, w)"
  shows "\<exists>nw1. net_same view nw nw1 \<and>
    (let r = net (vw_sent (view (nw_curl nw))) (c_string url) None [] in
     http_get C url nw = (case r of
        Inl code \<Rightarrow> Inr (Inl (ce_strerror C code), nw1)
      | Inr tr \<Rightarrow> sum_bind (http_respond tr) (\<lambda>resp. Inr (Inr resp, nw1))) \<and>
     http_builder_get C url nw = (case r of
        Inl code \<Rightarrow> Inr (Inl code, nw1)
      | Inr tr \<Rightarrow> sum_bind (http_respond tr) (\<lambda>resp. Inr (Inr resp, nw1))))"
  by (rule easy_curl.get_result [OF assms])

definition sample_net :: "nat \<Rightarrow> string \<Rightarrow> string option \<Rightarrow> string list \<Rightarrow> int + unit curl_transfer" where
  "sample_net n url b hs =
     (if url = ''a/b'' then Inr \<lparr>tr_code = 200, tr_header = [''HTTP/1.1 200 OK'' @ [newline]], tr_url = url, tr_content = [''o'', ''k''],
       tr_size_download = (), tr_size_upload = (), tr_speed_download = (), tr_speed_upload = (), tr_total_time = ()\<rparr>
      else Inl 6)"

theorem http_get_equals_builder_witness:
  "\<exists>nw1. http_get (plain_curl sample_net) ''x'' \<lparr>nw_curl = \<lparr>vw_handles = Map.empty, vw_sent = 0\<rparr>, nw_buffers = Map.empty, nw_next = 0\<rparr> =
      Inr (Inl ''error'', nw1) \<and> vw_handles (nw_curl nw1) = Map.empty"
proof -
  let ?w = "\<lparr>nw_curl = \<lparr>vw_handles = Map.empty, vw_sent = 0\<rparr>, nw_buffers = Map.empty, nw_next = 0\<rparr>"
  have i: "ce_init (plain_curl sample_net) (nw_curl ?w) = (Some 0, curl_put 0 (Some curl_fresh) (nw_curl ?w))"
    by (simp add: plain_curl_def)
  have "sample_net 0 ''x'' None [] = Inl 6" by (simp add: sample_net_def)
  with http_get_equals_builder [OF plain_easy.easy_curl_axioms i, of "''x''"] show ?thesis
    by (auto simp: net_same_def c_string_def plain_curl_def Let_def)
qed

end
