(* ===== verification/Formatting.thy ===== *)
theory Formatting
  imports String_Reader
begin

section \<open>Texts that are put together\<close>

text \<open>
  \<open>common/string_builder.h\<close>, and the package \<open>fmt\<close>, which is not in the repository: \<open>fmt::format\<close> is the parameter of the locale
  \<open>fmt_package\<close>, whose laws say what it does with text and with a plain replacement field. \<open>plain_fmt\<close> is an instance.
\<close>

subsection \<open>StringBuilder\<close>

record string_builder =
  sb_buffer :: string
  sb_size :: nat

definition sb_new :: string_builder where
  "sb_new = \<lparr>sb_buffer = [], sb_size = 0\<rparr>"

definition sb_append :: "string \<Rightarrow> string_builder \<Rightarrow> string_builder" where
  "sb_append s b = \<lparr>sb_buffer = sb_buffer b @ s, sb_size = sb_size b + length s\<rparr>"

text \<open>\<open>data\<close> is the memory from the pointer on. \<open>write\<close> reads \<open>count\<close> characters of it.\<close>

definition sb_append_data :: "string \<Rightarrow> nat \<Rightarrow> string_builder \<Rightarrow> fault + string_builder" where
  "sb_append_data data count b =
     (if length data < count then Inl UseAfterFree
      else Inr \<lparr>sb_buffer = sb_buffer b @ take count data, sb_size = sb_size b + count\<rparr>)"

text \<open>\<open>operator<<\<close> of a value whose text is \<open>s\<close>; the size is not touched.\<close>

definition sb_put :: "string \<Rightarrow> string_builder \<Rightarrow> string_builder" where
  "sb_put s b = b\<lparr>sb_buffer := sb_buffer b @ s\<rparr>"

definition sb_to_string :: "string_builder \<Rightarrow> string" where
  "sb_to_string b = sb_buffer b"

lemma sb_text [simp]:
  "sb_to_string sb_new = []" "sb_to_string (sb_append s b) = sb_to_string b @ s" "sb_to_string (sb_put s b) = sb_to_string b @ s"
  by (simp_all add: sb_to_string_def sb_new_def sb_append_def sb_put_def)

lemma sb_append_data_append: "sb_append_data (s @ rest) (length s) b = Inr (sb_append s b)"
  by (simp add: sb_append_data_def sb_append_def)

text \<open>The size is the length of the text only as long as \<open>operator<<\<close> is not used.\<close>

definition sb_counts :: "string_builder \<Rightarrow> bool" where
  "sb_counts b \<longleftrightarrow> sb_size b = length (sb_buffer b)"

lemma sb_counts_append: "sb_counts (sb_append s b) = sb_counts b"
  by (simp add: sb_counts_def sb_append_def)

lemma sb_counts_put: "sb_counts b \<Longrightarrow> sb_counts (sb_put s b) \<longleftrightarrow> s = []"
  by (simp add: sb_counts_def sb_put_def)

subsection \<open>The package fmt\<close>

locale fmt_package =
  fixes fmt :: "string \<Rightarrow> string list \<Rightarrow> string"
  assumes fmt_end [simp]: "fmt [] [] = []"
    and fmt_text [simp]: "c \<noteq> CHR ''{'' \<Longrightarrow> c \<noteq> CHR ''}'' \<Longrightarrow> fmt (c # f) args = c # fmt f args"
    and fmt_field [simp]: "fmt (CHR ''{'' # CHR ''}'' # f) (a # args) = a @ fmt f args"

fun plain_fmt :: "string \<Rightarrow> string list \<Rightarrow> string" where
  "plain_fmt [] args = []"
| "plain_fmt (c # f) args =
     (if c = CHR ''{'' then (case args of [] \<Rightarrow> plain_fmt f args | a # rest \<Rightarrow> a @ plain_fmt f rest)
      else if c = CHR ''}'' then plain_fmt f args else c # plain_fmt f args)"

interpretation plain_fmt: fmt_package plain_fmt
  by unfold_locales simp_all

context fmt_package
begin

lemma fmt_plain: "CHR ''{'' \<notin> set s \<Longrightarrow> CHR ''}'' \<notin> set s \<Longrightarrow> fmt (s @ f) args = s @ fmt f args"
  by (induction s) auto

lemma fmt_one: "CHR ''{'' \<notin> set s \<Longrightarrow> CHR ''}'' \<notin> set s \<Longrightarrow> fmt (s @ ''{}'') [a] = s @ a"
  by (simp add: fmt_plain)

end

end
