(* ===== verification/Http_Text.thy ===== *)
theory Http_Text
  imports Http_Client Formatting Result
begin

section \<open>Printing headers and responses, exceptions of the client\<close>

text \<open>
  \<open>net/http/format.h\<close>, \<open>net/http/response.cpp\<close>, \<open>net/http/error.{h,cpp}\<close>. The iteration order of the unordered map of a header is a
  parameter: a list of its entries. The text of a \<open>double\<close> and the conversion to milliseconds are parameters too.
\<close>

subsection \<open>Formatters\<close>

definition format_status :: "(string \<Rightarrow> string list \<Rightarrow> string) \<Rightarrow> http_status \<Rightarrow> string" where
  "format_status fmt st = fmt ''{}'' [http_status_to_string st]"

definition format_metrics :: "(string \<Rightarrow> string list \<Rightarrow> string) \<Rightarrow> ('m \<Rightarrow> string) \<Rightarrow> ('m \<Rightarrow> nat) \<Rightarrow> 'm http_metrics \<Rightarrow> string" where
  "format_metrics fmt text milliseconds m =
     fmt ''[{} Bytes] (~{}ms)'' [text (hm_download_bytes m), decimal_nat (milliseconds (hm_duration m))]"

primrec format_fields :: "(string \<times> string) list \<Rightarrow> string_builder \<Rightarrow> string_builder" where
  "format_fields [] b = b"
| "format_fields (f # fs) b = format_fields fs (sb_put [newline] (sb_put (snd f) (sb_put '': '' (sb_put (fst f) b))))"

definition format_header :: "(string \<Rightarrow> string list \<Rightarrow> string) \<Rightarrow> (string \<times> string) list \<Rightarrow> string" where
  "format_header fmt entries = fmt ''{}'' [sb_to_string (format_fields entries sb_new)]"

definition http_response_to_string ::
  "(string \<Rightarrow> string list \<Rightarrow> string) \<Rightarrow> ('m \<Rightarrow> string) \<Rightarrow> ('m \<Rightarrow> nat) \<Rightarrow> (dictionary \<Rightarrow> (string \<times> string) list) \<Rightarrow>
    'm http_metrics http_response \<Rightarrow> string" where
  "http_response_to_string fmt text milliseconds order r =
     fmt (''<- GET {}'' @ [newline] @ ''-> {} {}'' @ [newline, newline] @ ''{}'' @ [newline] @ ''{}'')
       [hr_url r, format_status fmt (hr_status r), format_metrics fmt text milliseconds (hr_metrics r),
        format_header fmt (order (hr_header r)), hr_content r]"

definition format_response ::
  "(string \<Rightarrow> string list \<Rightarrow> string) \<Rightarrow> ('m \<Rightarrow> string) \<Rightarrow> ('m \<Rightarrow> nat) \<Rightarrow> (dictionary \<Rightarrow> (string \<times> string) list) \<Rightarrow>
    'm http_metrics http_response \<Rightarrow> string" where
  "format_response fmt text milliseconds order r = fmt ''{}'' [http_response_to_string fmt text milliseconds order r]"

lemma format_fields_text: "sb_to_string (format_fields fs b) = sb_to_string b @ concat (map render_field fs)"
  by (induction fs arbitrary: b) (simp_all add: render_field_def)

lemma newline_no_brace: "newline \<noteq> CHR ''{''" "newline \<noteq> CHR ''}''"
  by (simp_all add: newline_def)

context fmt_package
begin

lemma format_status_text: "format_status fmt st = http_status_to_string st"
  by (simp add: format_status_def)

lemma format_header_text: "format_header fmt fs = concat (map render_field fs)"
  by (simp add: format_header_def format_fields_text)

text \<open>A printed header is read back by \<open>HttpHeader::Parse\<close>, whatever the order of the map.\<close>

lemma format_header_parses_back:
  assumes "newline \<notin> set line" and "list_all field_ok fs" and "distinct (map fst fs)"
  shows "header_parse (''HTTP'' @ line @ newline # format_header fmt fs) = Inr (map_of fs)"
proof -
  have "map_of (rev fs) = map_of fs" using assms(3) by (simp add: map_of_inject_set rev_map [symmetric])
  with header_parse_status_line [OF assms(1), of "concat (map render_field fs)"] header_parse_fields [OF assms(2), of "[]" Map.empty]
  show ?thesis by (simp add: format_header_text)
qed

lemma response_text:
  "http_response_to_string fmt text milliseconds order r =
     ''<- GET '' @ hr_url r @ [newline] @ ''-> '' @ http_status_to_string (hr_status r) @ '' '' @
     ''['' @ text (hm_download_bytes (hr_metrics r)) @ '' Bytes] (~'' @ decimal_nat (milliseconds (hm_duration (hr_metrics r))) @ ''ms)'' @
     [newline, newline] @ concat (map render_field (order (hr_header r))) @ [newline] @ hr_content r"
  by (simp add: http_response_to_string_def format_status_text format_header_text format_metrics_def newline_no_brace)

lemma format_response_text: "format_response fmt text milliseconds order r = http_response_to_string fmt text milliseconds order r"
  by (simp add: format_response_def)

end

text \<open>The method that is printed is always GET, also in the response of a POST.\<close>

lemma response_printed_as_get: "take 6 (http_response_to_string plain_fmt text milliseconds order r) = ''<- GET''"
  by (simp add: plain_fmt.response_text)

subsection \<open>Exceptions\<close>

text \<open>\<open>std::error_code::message\<close> asks the category; the one of the client asks libcurl, the others are the argument \<open>others\<close>.\<close>

definition curl_category_name :: string where
  "curl_category_name = ''CurlCategory''"

definition curl_error_code :: "int \<Rightarrow> error_code" where
  "curl_error_code error = \<lparr>ec_value = word_of_int error, ec_category = curl_category_name\<rparr>"

definition curl_category_message :: "('w, 'm) curl_ops \<Rightarrow> i32 \<Rightarrow> string" where
  "curl_category_message ops value = ce_strerror ops (sint value)"

definition error_code_message :: "('w, 'm) curl_ops \<Rightarrow> (error_code \<Rightarrow> string) \<Rightarrow> error_code \<Rightarrow> string" where
  "error_code_message ops others ec =
     (if ec_category ec = curl_category_name then curl_category_message ops (ec_value ec) else others ec)"

record base_exception =
  be_message :: string

record base_code_exception = base_exception +
  bc_error :: error_code

definition base_exception_new :: "string \<Rightarrow> base_exception" where
  "base_exception_new message = \<lparr>be_message = message\<rparr>"

definition base_exception_what :: "'a base_exception_scheme \<Rightarrow> string" where
  "base_exception_what x = takeWhile (\<lambda>c. c \<noteq> CHR 0x00) (be_message x)"

definition base_code_exception_new ::
  "(string \<Rightarrow> string list \<Rightarrow> string) \<Rightarrow> (error_code \<Rightarrow> string) \<Rightarrow> error_code \<Rightarrow> string \<Rightarrow> string \<Rightarrow> base_code_exception" where
  "base_code_exception_new fmt message ec msg url =
     \<lparr>be_message = fmt ''{}, curl_error: {}, url: {}'' [msg, message ec, url], bc_error = ec\<rparr>"

datatype http_exception =
    TimeoutException base_exception
  | SSLException base_code_exception
  | TechnicalError base_code_exception
  | BadArgumentException base_code_exception
  | TooManyRedirectsException base_code_exception
  | NetworkProblemException base_code_exception
  | DNSProblemException base_code_exception
  | AuthFailedException base_code_exception

fun http_what :: "http_exception \<Rightarrow> string" where
  "http_what (TimeoutException x) = base_exception_what x"
| "http_what (SSLException x) = base_exception_what x"
| "http_what (TechnicalError x) = base_exception_what x"
| "http_what (BadArgumentException x) = base_exception_what x"
| "http_what (TooManyRedirectsException x) = base_exception_what x"
| "http_what (NetworkProblemException x) = base_exception_what x"
| "http_what (DNSProblemException x) = base_exception_what x"
| "http_what (AuthFailedException x) = base_exception_what x"

text \<open>A code of libcurl comes back from the category unchanged, so the message is the one of that code.\<close>

lemma curl_error_message:
  "- (2 ^ 31) \<le> error \<Longrightarrow> error < 2 ^ 31 \<Longrightarrow> error_code_message ops others (curl_error_code error) = ce_strerror ops error"
  by (simp add: error_code_message_def curl_error_code_def curl_category_message_def signed_of_int signed_take_bit_int_eq_self)

context fmt_package
begin

lemma code_exception_message:
  "be_message (base_code_exception_new fmt message ec msg url) = msg @ '', curl_error: '' @ message ec @ '', url: '' @ url"
  by (simp add: base_code_exception_new_def)

lemma code_exception_what:
  assumes "CHR 0x00 \<notin> set msg" "CHR 0x00 \<notin> set (message ec)" "CHR 0x00 \<notin> set url"
  shows "base_exception_what (base_code_exception_new fmt message ec msg url) = msg @ '', curl_error: '' @ message ec @ '', url: '' @ url"
  unfolding base_exception_what_def code_exception_message takeWhile_eq_all_conv using assms by auto

end

end
