(* ===== verification/Environment.thy ===== *)
theory Environment
  imports Formatting
begin

section \<open>Conversions, the environment of the process, processor time\<close>

text \<open>
  \<open>common/convert.h\<close>, \<open>common/environment.h\<close>, \<open>common/cpu_time.h\<close>. What the process asks of the operating system is an argument: the
  table of environment variables, and the readings of the clocks.
\<close>

subsection \<open>ConvertTo\<close>

text \<open>
  A \<open>std::string_view\<close> is the text it covers and the memory \<open>after\<close> it. \<open>s.data()\<close> goes to a constructor that reads up to the NUL.
  \<open>extract\<close> is \<open>operator>>\<close> of the type, \<open>None\<close> when it sets \<open>failbit\<close>; \<open>extract_word\<close> is the one of \<open>std::string\<close>.
\<close>

definition c_string :: "string \<Rightarrow> string" where
  "c_string s = takeWhile (\<lambda>c. c \<noteq> CHR 0x00) s"

definition convert_to :: "(string \<Rightarrow> 'a option) \<Rightarrow> string \<Rightarrow> string \<Rightarrow> 'a option" where
  "convert_to extract view after = extract (c_string (view @ after))"

definition extract_word :: "string \<Rightarrow> string option" where
  "extract_word s = (let w = takeWhile (\<lambda>c. \<not> is_space c) (dropWhile is_space s) in if w = [] then None else Some w)"

lemma c_string_text: "CHR 0x00 \<notin> set v \<Longrightarrow> c_string (v @ CHR 0x00 # rest) = v"
  unfolding c_string_def by (subst takeWhile_append2) auto

lemma convert_to_terminated: "CHR 0x00 \<notin> set v \<Longrightarrow> convert_to extract v (CHR 0x00 # rest) = extract v"
  by (simp add: convert_to_def c_string_text)

lemma extract_word_one: "w \<noteq> [] \<Longrightarrow> list_all (\<lambda>c. \<not> is_space c) w \<Longrightarrow> extract_word w = Some w"
  by (cases w) (auto simp: extract_word_def Let_def takeWhile_eq_all_conv list_all_iff)

lemma extract_word_first:
  assumes "list_all is_space ws" "w \<noteq> []" "list_all (\<lambda>c. \<not> is_space c) w" "is_space c"
  shows "extract_word (ws @ w @ c # rest) = Some w"
proof -
  have "dropWhile is_space (ws @ w @ c # rest) = w @ c # rest"
    using assms(1-3) by (cases w) (auto simp: list_all_iff dropWhile_append2)
  moreover have "takeWhile (\<lambda>c. \<not> is_space c) (w @ c # rest) = w"
    using assms(3,4) by (auto simp: list_all_iff takeWhile_append2)
  ultimately show ?thesis using assms(2) by (simp add: extract_word_def Let_def)
qed

lemma extract_word_blank: "extract_word s = None \<longleftrightarrow> list_all is_space s"
proof (cases "dropWhile is_space s")
  case Nil
  then have "list_all is_space s" by (simp add: list_all_iff dropWhile_eq_Nil_conv)
  with Nil show ?thesis by (simp only: extract_word_def) simp
next
  case (Cons c t)
  then have "\<not> is_space c" using hd_dropWhile [of is_space s] by simp
  moreover from Cons have "\<not> list_all is_space s" by (auto simp: list_all_iff simp flip: dropWhile_eq_Nil_conv)
  ultimately show ?thesis using Cons by (simp add: extract_word_def)
qed

text \<open>A view into a longer text is converted with what follows it.\<close>

lemma convert_reads_past_view: "convert_to extract_word ''12'' (''34'' @ [CHR 0x00]) = Some ''1234''"
  by (simp add: convert_to_def c_string_def extract_word_def is_space_def)

subsection \<open>Environment\<close>

type_synonym process_environment = "string \<Rightarrow> string option"

definition env_get :: "(string \<Rightarrow> 'a option) \<Rightarrow> string \<Rightarrow> process_environment \<Rightarrow> 'a option" where
  "env_get convert name env = (case env name of Some value \<Rightarrow> convert value | None \<Rightarrow> None)"

text \<open>The name is the text up to the NUL, which \<open>getenv\<close> reads. \<open>Inr (Inl message)\<close> is the exception; an empty optional that is dereferenced is undefined behaviour.\<close>

definition env_get_string :: "(string \<Rightarrow> string list \<Rightarrow> string) \<Rightarrow> string \<Rightarrow> process_environment \<Rightarrow> fault + (string + string)" where
  "env_get_string fmt name env =
     (case env name of
        Some value \<Rightarrow>
          (case convert_to extract_word value [CHR 0x00] of Some s \<Rightarrow> Inr (Inr s) | None \<Rightarrow> Inl NullDereference)
      | None \<Rightarrow> Inr (Inl (fmt ''failed to find environment variable with name: {}'' [name])))"

text \<open>A value of one word is what the environment holds. Of a value with a space only the first word is left, and a blank one is undefined behaviour.\<close>

lemma env_get_string_word:
  "env name = Some w \<Longrightarrow> CHR 0x00 \<notin> set w \<Longrightarrow> w \<noteq> [] \<Longrightarrow> list_all (\<lambda>c. \<not> is_space c) w \<Longrightarrow> env_get_string fmt name env = Inr (Inr w)"
  by (simp add: env_get_string_def convert_to_terminated extract_word_one)

lemma env_get_string_cut:
  assumes "env name = Some (w @ c # rest)" "CHR 0x00 \<notin> set (w @ c # rest)"
    and "w \<noteq> []" "list_all (\<lambda>c. \<not> is_space c) w" "is_space c"
  shows "env_get_string fmt name env = Inr (Inr w)"
  using assms extract_word_first [of "[]" w c rest] by (simp add: env_get_string_def convert_to_terminated)

lemma env_get_string_blank:
  assumes "env name = Some v" "CHR 0x00 \<notin> set v"
  shows "env_get_string fmt name env = Inl NullDereference \<longleftrightarrow> list_all is_space v"
  using assms extract_word_blank [of v] by (auto simp: env_get_string_def convert_to_terminated split: option.splits)

lemma env_get_string_blank_value: "env_get_string plain_fmt ''HOME'' [''HOME'' \<mapsto> ''''] = Inl NullDereference"
  by (simp add: env_get_string_blank)

context fmt_package
begin

lemma env_get_string_missing:
  "env name = None \<Longrightarrow> env_get_string fmt name env = Inr (Inl (''failed to find environment variable with name: '' @ name))"
  by (simp add: env_get_string_def)

end

lemma env_get_int_missing: "env name = None \<Longrightarrow> env_get convert_to_int name env = None"
  by (simp add: env_get_def)

subsection \<open>Processor time\<close>

text \<open>
  \<open>struct timespec\<close> and \<open>clock_t\<close> hold signed numbers of 64 bits, in which the code does not overflow for the readings assumed below;
  the differences are computed in \<open>uint64_t\<close> and \<open>size_t\<close>. \<open>CLOCKS_PER_SEC\<close> is a million, as POSIX requires. \<open>std::chrono\<close> keeps a signed number of 64 bits.
\<close>

record timespec =
  tv_sec :: int
  tv_nsec :: int

definition timespec_ok :: "timespec \<Rightarrow> bool" where
  "timespec_ok tp \<longleftrightarrow> 0 \<le> tv_sec tp \<and> tv_sec tp < 2 ^ 33 \<and> 0 \<le> tv_nsec tp \<and> tv_nsec tp < 10 ^ 9"

definition to_nanos :: "timespec \<Rightarrow> u64" where
  "to_nanos tp = word_of_int (tv_sec tp * 1000000000 + tv_nsec tp)"

record thread_cpu_timer =
  tct_start :: timespec

definition tct_reset :: "timespec \<Rightarrow> thread_cpu_timer" where
  "tct_reset now = \<lparr>tct_start = now\<rparr>"

definition tct_elapsed_nanos :: "timespec \<Rightarrow> thread_cpu_timer \<Rightarrow> u64" where
  "tct_elapsed_nanos now t = to_nanos now - to_nanos (tct_start t)"

definition tct_elapsed :: "timespec \<Rightarrow> thread_cpu_timer \<Rightarrow> int" where
  "tct_elapsed now t = sint (tct_elapsed_nanos now t)"

record process_cpu_timer =
  start_ts :: int

definition pct_reset :: "int \<Rightarrow> process_cpu_timer" where
  "pct_reset now = \<lparr>start_ts = now\<rparr>"

definition clocks_to_micros :: "u64 \<Rightarrow> u64" where
  "clocks_to_micros clocks = (clocks * 1000000) div 1000000"

definition pct_elapsed_micros :: "int \<Rightarrow> process_cpu_timer \<Rightarrow> u64" where
  "pct_elapsed_micros now t = clocks_to_micros (word_of_int (now - start_ts t))"

definition pct_elapsed :: "int \<Rightarrow> process_cpu_timer \<Rightarrow> int" where
  "pct_elapsed now t = sint (pct_elapsed_micros now t)"

record cpu_time_budget_guard =
  cg_budget :: int      \<comment> \<open>milliseconds\<close>
  cg_timer :: process_cpu_timer

definition cg_new :: "int \<Rightarrow> int \<Rightarrow> cpu_time_budget_guard" where
  "cg_new budget now = \<lparr>cg_budget = budget, cg_timer = pct_reset now\<rparr>"

definition cg_usage :: "int \<Rightarrow> cpu_time_budget_guard \<Rightarrow> int" where
  "cg_usage now g = pct_elapsed now (cg_timer g)"

definition cg_destroy :: "int \<Rightarrow> cpu_time_budget_guard \<Rightarrow> fault + unit" where
  "cg_destroy now g =
     (if pct_elapsed now (cg_timer g) < cg_budget g * 1000 then Inr () else Inl (AssertFailed ''timer_.Elapsed() < budget_''))"

lemma sint_of_small: "0 \<le> i \<Longrightarrow> i < 2 ^ 63 \<Longrightarrow> sint (word_of_int i :: u64) = i"
  by (simp add: signed_of_int signed_take_bit_int_eq_self)

lemma unat_of_int_small: "0 \<le> i \<Longrightarrow> i < 2 ^ 64 \<Longrightarrow> unat (word_of_int i :: u64) = nat i"
  by (simp add: unsigned_of_int take_bit_int_eq_self)

text \<open>The thread timer is exact over the difference of two readings of 272 years, even though the words may wrap.\<close>

lemma thread_timer_exact:
  assumes "timespec_ok start" "timespec_ok now"
    and "tv_sec start * 1000000000 + tv_nsec start \<le> tv_sec now * 1000000000 + tv_nsec now"
  shows "tct_elapsed now (tct_reset start) = (tv_sec now - tv_sec start) * 1000000000 + (tv_nsec now - tv_nsec start)"
proof -
  let ?d = "(tv_sec now - tv_sec start) * 1000000000 + (tv_nsec now - tv_nsec start)"
  have "tct_elapsed_nanos now (tct_reset start) = word_of_int ?d"
    by (simp add: tct_elapsed_nanos_def tct_reset_def to_nanos_def algebra_simps)
  moreover have "0 \<le> ?d" "?d < 2 ^ 63" using assms by (auto simp: timespec_ok_def)
  ultimately show ?thesis by (simp only: tct_elapsed_def sint_of_small)
qed

text \<open>The process timer multiplies before it divides: it is exact up to $2^{64}$ millionths of a tick, about 213 days, and then begins again.\<close>

lemma clocks_to_micros_exact: "unat c * 1000000 < 2 ^ 64 \<Longrightarrow> clocks_to_micros c = c"
proof -
  assume "unat c * 1000000 < 2 ^ 64"
  then have "unat (c * 1000000) = unat c * 1000000" by (simp add: unat_word_ariths)
  then have "unat (clocks_to_micros c) = unat c" by (simp add: clocks_to_micros_def unat_div)
  then show ?thesis by (simp only: word_unat_eq_iff)
qed

lemma process_timer_exact:
  assumes "start \<le> now" "(now - start) * 1000000 < 2 ^ 64"
  shows "pct_elapsed now (pct_reset start) = now - start"
proof -
  have u: "unat (word_of_int (now - start) :: u64) = nat (now - start)"
    using assms unat_of_int_small [of "now - start"] by simp
  then have "clocks_to_micros (word_of_int (now - start)) = word_of_int (now - start)"
    using assms by (intro clocks_to_micros_exact) simp
  moreover have "sint (word_of_int (now - start) :: u64) = now - start" using assms by (intro sint_of_small) auto
  ultimately show ?thesis by (simp only: pct_elapsed_def pct_elapsed_micros_def pct_reset_def process_cpu_timer.simps)
qed

lemma process_timer_wraps: "pct_elapsed 18446744073710 (pct_reset 0) = 0"
  by (simp add: pct_elapsed_def pct_elapsed_micros_def pct_reset_def clocks_to_micros_def)

text \<open>Up to there the guard fails exactly when the budget is used up.\<close>

lemma guard_checks_budget:
  assumes "start \<le> now" "(now - start) * 1000000 < 2 ^ 64"
  shows "cg_destroy now (cg_new budget start) = Inr () \<longleftrightarrow> now - start < budget * 1000"
  using process_timer_exact [OF assms] by (simp add: cg_destroy_def cg_new_def)

end
