(* ===== verification/Files_Data.thy ===== *)
theory Files_Data
  imports String_Reader Result
begin

section \<open>Text files and generated data\<close>

text \<open>
  \<open>filesystem/file.{h,cpp}\<close>, \<open>common/generators/\<close>, \<open>common/random.{h,cpp}\<close>. A file system is a map from paths to texts, with the paths that can be
  opened for writing; \<open>std::getline\<close> and \<open>operator<<\<close> are written out on texts. The engines \<open>std::mt19937\<close> are a state \<open>'s\<close> with a
  function \<open>draw\<close>, \<open>std::uniform_int_distribution\<close> is a parameter with the law of the locale \<open>uniform_int\<close>.
\<close>

subsection \<open>File\<close>

record file_system =
  fs_text :: "string \<Rightarrow> string option"
  fs_writable :: "string \<Rightarrow> bool"

definition file_error :: error_code where
  "file_error = \<lparr>ec_value = 22, ec_category = ''generic''\<rparr>"

text \<open>The loop over \<open>std::getline\<close>: a line ends at a newline or at the end of a text that is not empty.\<close>

function get_lines :: "string \<Rightarrow> string list" where
  "get_lines s =
     (if s = [] then []
      else takeWhile (\<lambda>c. c \<noteq> newline) s # get_lines (drop 1 (dropWhile (\<lambda>c. c \<noteq> newline) s)))"
  by pat_completeness auto
termination
proof (relation "measure length")
  fix s :: string assume "s \<noteq> []"
  then show "(drop 1 (dropWhile (\<lambda>c. c \<noteq> newline) s), s) \<in> measure length"
    using length_dropWhile_le [of "\<lambda>c. c \<noteq> newline" s] by (cases s) (auto simp: less_Suc_eq_le)
qed simp

declare get_lines.simps [simp del]

definition file_read_all_lines :: "string \<Rightarrow> file_system \<Rightarrow> error_code + string list" where
  "file_read_all_lines path fs = (case fs_text fs path of None \<Rightarrow> Inl file_error | Some s \<Rightarrow> Inr (get_lines s))"

definition file_write_all_text :: "string \<Rightarrow> string \<Rightarrow> file_system \<Rightarrow> (error_code + unit) \<times> file_system" where
  "file_write_all_text path txt fs =
     (if fs_writable fs path then (Inr (), fs\<lparr>fs_text := (fs_text fs)(path \<mapsto> txt)\<rparr>) else (Inl file_error, fs))"

definition file_write_all_lines :: "string \<Rightarrow> string list \<Rightarrow> file_system \<Rightarrow> (error_code + unit) \<times> file_system" where
  "file_write_all_lines path lines fs =
     (if fs_writable fs path
      then (Inr (), fs\<lparr>fs_text := (fs_text fs)(path \<mapsto> foldl (\<lambda>txt line. txt @ line @ [newline]) [] lines)\<rparr>)
      else (Inl file_error, fs))"

lemma get_lines_Nil: "get_lines [] = []"
  by (simp add: get_lines.simps)

lemma get_lines_line: "newline \<notin> set line \<Longrightarrow> get_lines (line @ newline # rest) = line # get_lines rest"
  by (subst get_lines.simps) (simp add: takeWhile_append2 dropWhile_append2 split_at_first)

lemma get_lines_end: "newline \<notin> set line \<Longrightarrow> line \<noteq> [] \<Longrightarrow> get_lines line = [line]"
proof -
  assume l: "newline \<notin> set line" "line \<noteq> []"
  then have d: "dropWhile (\<lambda>c. c \<noteq> newline) line = []" "takeWhile (\<lambda>c. c \<noteq> newline) line = line"
    by (auto simp: dropWhile_eq_Nil_conv takeWhile_eq_all_conv)
  have "get_lines line = takeWhile (\<lambda>c. c \<noteq> newline) line # get_lines (drop 1 (dropWhile (\<lambda>c. c \<noteq> newline) line))"
    using l(2) by (subst get_lines.simps) (rule if_not_P)
  then show ?thesis by (simp only: d drop_Nil get_lines_Nil)
qed

lemma written_lines: "foldl (\<lambda>txt line. txt @ line @ [newline]) acc lines = acc @ concat (map (\<lambda>line. line @ [newline]) lines)"
  by (induction lines arbitrary: acc) simp_all

lemma get_lines_written: "\<forall>line\<in>set lines. newline \<notin> set line \<Longrightarrow> get_lines (concat (map (\<lambda>line. line @ [newline]) lines)) = lines"
  by (induction lines) (simp_all add: get_lines.simps [of "[]"] get_lines_line)

text \<open>What \<open>WriteAllLines\<close> wrote is what \<open>ReadAllLines\<close> reads, as long as no line has a newline in it.\<close>

lemma file_lines_roundtrip:
  assumes "fs_writable fs path" and "\<forall>line\<in>set lines. newline \<notin> set line"
  shows "\<exists>fs'. file_write_all_lines path lines fs = (Inr (), fs') \<and> file_read_all_lines path fs' = Inr lines \<and>
    (\<forall>other. other \<noteq> path \<longrightarrow> file_read_all_lines other fs' = file_read_all_lines other fs)"
  using assms by (simp add: file_write_all_lines_def file_read_all_lines_def written_lines get_lines_written)

lemma file_text_lines:
  "fs_writable fs path \<Longrightarrow> file_read_all_lines path (snd (file_write_all_text path txt fs)) = Inr (get_lines txt)"
  by (simp add: file_write_all_text_def file_read_all_lines_def)

subsection \<open>DataGenerator\<close>

record 's data_generator =
  dg_bytes_left :: nat
  dg_twister :: 's

definition dg_has_next :: "'s data_generator \<Rightarrow> bool" where
  "dg_has_next g \<longleftrightarrow> 0 < dg_bytes_left g"

primrec dg_generate_data :: "('s \<Rightarrow> nat \<times> 's) \<Rightarrow> nat \<Rightarrow> 's \<Rightarrow> string \<times> 's" where
  "dg_generate_data draw 0 tw = ([], tw)"
| "dg_generate_data draw (Suc n) tw =
     (let (x, tw1) = draw tw; (rest, tw2) = dg_generate_data draw n tw1 in (char_of (65 + x mod 26) # rest, tw2))"

definition dg_next_chunk :: "('s \<Rightarrow> nat \<times> 's) \<Rightarrow> nat \<Rightarrow> 's data_generator \<Rightarrow> string \<times> 's data_generator" where
  "dg_next_chunk draw limit g =
     (let bytes = min (dg_bytes_left g) limit; (chunk, tw) = dg_generate_data draw bytes (dg_twister g) in
      (chunk, \<lparr>dg_bytes_left = dg_bytes_left g - bytes, dg_twister = tw\<rparr>))"

fun dg_chunks :: "('s \<Rightarrow> nat \<times> 's) \<Rightarrow> nat list \<Rightarrow> 's data_generator \<Rightarrow> string list \<times> 's data_generator" where
  "dg_chunks draw [] g = ([], g)"
| "dg_chunks draw (limit # limits) g =
     (let (chunk, g1) = dg_next_chunk draw limit g; (chunks, g2) = dg_chunks draw limits g1 in (chunk # chunks, g2))"

lemma dg_generate_append:
  "dg_generate_data draw (m + n) tw =
     (let (xs, tw1) = dg_generate_data draw m tw; (ys, tw2) = dg_generate_data draw n tw1 in (xs @ ys, tw2))"
  by (induction m arbitrary: tw) (auto simp: split_def Let_def)

text \<open>The data do not depend on how they are cut: the chunks are the beginning of one sequence, as long as the limits allow.\<close>

lemma dg_chunks_data:
  "dg_chunks draw limits g = (chunks, g') \<Longrightarrow>
   dg_generate_data draw (min (dg_bytes_left g) (sum_list limits)) (dg_twister g) = (concat chunks, dg_twister g') \<and>
   dg_bytes_left g' = dg_bytes_left g - sum_list limits"
proof (induction limits arbitrary: g chunks g')
  case (Cons limit limits)
  obtain chunk g1 where c: "dg_next_chunk draw limit g = (chunk, g1)" by fastforce
  obtain rest where r: "dg_chunks draw limits g1 = (rest, g')" "chunks = chunk # rest" using Cons.prems c by (auto simp: split_def Let_def prod_eq_iff)
  have g1: "dg_generate_data draw (min (dg_bytes_left g) limit) (dg_twister g) = (chunk, dg_twister g1)"
    "dg_bytes_left g1 = dg_bytes_left g - limit" using c by (auto simp: dg_next_chunk_def split_def Let_def)
  have "min (dg_bytes_left g) (sum_list (limit # limits)) = min (dg_bytes_left g) limit + min (dg_bytes_left g1) (sum_list limits)"
    using g1(2) by simp
  with Cons.IH [OF r(1)] g1 r(2) show ?case by (simp only: dg_generate_append) (simp add: split_def Let_def)
qed simp

subsection \<open>RandomGenerator\<close>

text \<open>\<open>twister_()\<close> is 64 bits wide.\<close>

locale uniform_int =
  fixes uniform :: "nat \<Rightarrow> nat \<Rightarrow> 's \<Rightarrow> nat \<times> 's"
  assumes uniform_range: "a \<le> b \<Longrightarrow> a \<le> fst (uniform a b tw) \<and> fst (uniform a b tw) \<le> b"

definition rg_next :: "('s \<Rightarrow> u64 \<times> 's) \<Rightarrow> 's \<Rightarrow> 32 word \<times> 's" where
  "rg_next draw tw = (let (x, tw') = draw tw in (ucast x, tw'))"

definition rg_next_int64 :: "('s \<Rightarrow> u64 \<times> 's) \<Rightarrow> 's \<Rightarrow> u64 \<times> 's" where
  "rg_next_int64 draw tw = draw tw"

definition rg_next_range :: "(nat \<Rightarrow> nat \<Rightarrow> 's \<Rightarrow> nat \<times> 's) \<Rightarrow> nat \<Rightarrow> nat \<Rightarrow> 's \<Rightarrow> fault + nat \<times> 's" where
  "rg_next_range uniform lo hi tw = (if hi < lo then Inl (AssertFailed ''max_value >= min_value'') else Inr (uniform lo hi tw))"

definition rg_next_max :: "(nat \<Rightarrow> nat \<Rightarrow> 's \<Rightarrow> nat \<times> 's) \<Rightarrow> nat \<Rightarrow> 's \<Rightarrow> fault + nat \<times> 's" where
  "rg_next_max uniform hi tw = rg_next_range uniform 0 hi tw"

definition sample_uniform :: "nat \<Rightarrow> nat \<Rightarrow> nat \<Rightarrow> nat \<times> nat" where
  "sample_uniform a b tw = (a + tw mod (b - a + 1), Suc tw)"

interpretation sample_uniform: uniform_int sample_uniform
proof
  fix a b tw :: nat assume "a \<le> b"
  have "tw mod Suc (b - a) < Suc (b - a)" by simp
  then have "tw mod Suc (b - a) \<le> b - a" by simp
  with \<open>a \<le> b\<close> have "a + tw mod Suc (b - a) \<le> b" by linarith
  then show "a \<le> fst (sample_uniform a b tw) \<and> fst (sample_uniform a b tw) \<le> b" by (simp add: sample_uniform_def)
qed

context uniform_int
begin

lemma next_max_range: "\<exists>x tw'. rg_next_max uniform hi tw = Inr (x, tw') \<and> x \<le> hi"
  using uniform_range [of 0 hi tw] by (cases "uniform 0 hi tw") (simp add: rg_next_max_def rg_next_range_def)

end

text \<open>The maximum itself can come out, although it is announced as excluded.\<close>

lemma next_max_reaches: "rg_next_max sample_uniform 5 5 = Inr (5, 6)"
  by (simp add: rg_next_max_def rg_next_range_def sample_uniform_def)

text \<open>\<open>Random\<close> (\<open>common/random.cpp\<close>): every thread has a generator of its own.\<close>

definition random_next :: "('s \<Rightarrow> u64 \<times> 's) \<Rightarrow> tid \<Rightarrow> (tid \<Rightarrow> 's) \<Rightarrow> 32 word \<times> (tid \<Rightarrow> 's)" where
  "random_next draw t G = (let (x, tw) = rg_next draw (G t) in (x, G(t := tw)))"

definition random_next_int64 :: "('s \<Rightarrow> u64 \<times> 's) \<Rightarrow> tid \<Rightarrow> (tid \<Rightarrow> 's) \<Rightarrow> u64 \<times> (tid \<Rightarrow> 's)" where
  "random_next_int64 draw t G = (let (x, tw) = rg_next_int64 draw (G t) in (x, G(t := tw)))"

definition random_next_range ::
  "(nat \<Rightarrow> nat \<Rightarrow> 's \<Rightarrow> nat \<times> 's) \<Rightarrow> nat \<Rightarrow> nat \<Rightarrow> tid \<Rightarrow> (tid \<Rightarrow> 's) \<Rightarrow> fault + nat \<times> (tid \<Rightarrow> 's)" where
  "random_next_range uniform lo hi t G = (case rg_next_range uniform lo hi (G t) of Inl x \<Rightarrow> Inl x | Inr (x, tw) \<Rightarrow> Inr (x, G(t := tw)))"

definition random_next_max :: "(nat \<Rightarrow> nat \<Rightarrow> 's \<Rightarrow> nat \<times> 's) \<Rightarrow> nat \<Rightarrow> tid \<Rightarrow> (tid \<Rightarrow> 's) \<Rightarrow> fault + nat \<times> (tid \<Rightarrow> 's)" where
  "random_next_max uniform hi t G = (case rg_next_max uniform hi (G t) of Inl x \<Rightarrow> Inl x | Inr (x, tw) \<Rightarrow> Inr (x, G(t := tw)))"

text \<open>Calls of different threads commute: neither changes what the other returns.\<close>

lemma random_threads_apart:
  assumes "t \<noteq> u"
  shows "fst (random_next draw u (snd (random_next draw t G))) = fst (random_next draw u G)"
    and "snd (random_next draw u (snd (random_next draw t G))) = snd (random_next draw t (snd (random_next draw u G)))"
  using assms by (auto simp: random_next_def fun_upd_twist split: prod.splits)

lemma random_bad_range: "hi < lo \<Longrightarrow> random_next_range uniform lo hi t G = Inl (AssertFailed ''max_value >= min_value'')"
  by (simp add: random_next_range_def rg_next_range_def)

lemma random_max_is_range: "random_next_max uniform hi t G = random_next_range uniform 0 hi t G"
  by (simp add: random_next_max_def random_next_range_def rg_next_max_def)

end
