(* ===== verification/Pool_Client.thy ===== *)
theory Pool_Client
  imports Thread_Pool
begin

section \<open>What runs on a thread pool\<close>

text \<open>
  A client is a machine that submits nodes to an executor, and whose nodes the executor later runs or discards; fibers
  and strands are clients. \<open>pool_client_step\<close> puts a client and the thread pool together: when the client submits a node the
  pool is inside \<open>Execute\<close>, when a worker takes a node the client begins to run it on that thread, when the pool
  refuses or discards a node so does the client, and a worker goes on only when the client has left its thread. The call of
  \<open>Execute\<close> is an activation of the pool with an identifier of its own: the order in which it goes on is free.
\<close>

subsection \<open>The composition\<close>

text \<open>
  \<open>cl_queued\<close>: the nodes that are submitted and neither started nor discarded. \<open>cl_takes t n e c\<close>: the event \<open>e\<close> begins to run
  the node \<open>n\<close> on thread \<open>t\<close>; \<open>cl_drops n e c\<close>: it discards it. \<open>cl_active\<close>: the thread is inside a node.
\<close>

record ('e, 'c) client_ops =
  cl_step :: "'e \<Rightarrow> 'c \<Rightarrow> 'c outcome"
  cl_queued :: "'c \<Rightarrow> addr multiset"
  cl_active :: "tid \<Rightarrow> 'c \<Rightarrow> bool"
  cl_takes :: "tid \<Rightarrow> addr \<Rightarrow> 'e \<Rightarrow> 'c \<Rightarrow> bool"
  cl_drops :: "addr \<Rightarrow> 'e \<Rightarrow> 'c \<Rightarrow> bool"

datatype pool_effect = PeQuiet | PeStarts tid addr | PeEnds tid | PeDrops addr

definition pool_effect :: "pool_event \<Rightarrow> 'l pool \<Rightarrow> 'l pool \<Rightarrow> pool_effect" where
  "pool_effect e p p' =
     (case e of
        TpEvRun t _ \<Rightarrow>
          (case tp_pc p t of
             TpRun _ \<Rightarrow> PeEnds t
           | _ \<Rightarrow>
               if tp_started p' \<noteq> tp_started p then PeStarts t (last (tp_started p'))
               else if tp_discarded p' \<noteq> tp_discarded p then PeDrops (last (tp_discarded p'))
               else if tp_refused p' \<noteq> tp_refused p then PeDrops (last (tp_refused p'))
               else PeQuiet)
      | _ \<Rightarrow> PeQuiet)"

fun is_execute :: "pool_event \<Rightarrow> bool" where
  "is_execute (TpEvExecute t n) = True"
| "is_execute _ = False"

text \<open>An event of the client, which may submit a node with the activation that is given, or an event of the pool, with what it makes the client do.\<close>

datatype 'e pool_client_event =
    PcClient 'e "(tid \<times> addr) option"
  | PcPool pool_event "'e option"

fun with_client :: "('c \<Rightarrow> 'e \<Rightarrow> bool) \<Rightarrow> ('e, 'c) client_ops \<Rightarrow> 'e option \<Rightarrow> 'c \<Rightarrow> 'c outcome" where
  "with_client ok C None c = Disabled"
| "with_client ok C (Some d) c = (if ok c d then cl_step C d c else Disabled)"

fun pool_client_step :: "'l intrusive \<Rightarrow> ('e, 'c) client_ops \<Rightarrow> 'e pool_client_event \<Rightarrow> 'c \<times> 'l pool \<Rightarrow> ('c \<times> 'l pool) outcome" where
  "pool_client_step L C (PcClient e sub) (c, p) =
     (case cl_step C e c of
        Disabled \<Rightarrow> Disabled
      | Fault x \<Rightarrow> Fault x
      | Next c' \<Rightarrow>
          (case sub of
             None \<Rightarrow> if cl_queued C c' = cl_queued C c then Next (c', p) else Disabled
           | Some (a, n) \<Rightarrow>
               if cl_queued C c' \<noteq> add_mset n (cl_queued C c) then Disabled
               else if tp_busy p n then Fault (AssertFailed ''the node is linked'')
               else (case pool_step L (TpEvExecute a n) p of Disabled \<Rightarrow> Disabled | Fault x \<Rightarrow> Fault x | Next p' \<Rightarrow> Next (c', p'))))"
| "pool_client_step L C (PcPool e ce) (c, p) =
     (if is_execute e then Disabled
      else case pool_step L e p of
        Disabled \<Rightarrow> Disabled
      | Fault x \<Rightarrow> Fault x
      | Next p' \<Rightarrow>
          (case (case pool_effect e p p' of
                   PeQuiet \<Rightarrow> if ce = None then Next c else Disabled
                 | PeEnds t \<Rightarrow> if ce = None \<and> \<not> cl_active C t c then Next c else Disabled
                 | PeStarts t n \<Rightarrow> with_client (\<lambda>c d. cl_takes C t n d c) C ce c
                 | PeDrops n \<Rightarrow> with_client (\<lambda>c d. cl_drops C n d c) C ce c) of
             Disabled \<Rightarrow> Disabled
           | Fault x \<Rightarrow> Fault x
           | Next c' \<Rightarrow> Next (c', p')))"

subsection \<open>What a step of the pool does to the nodes\<close>

definition pool_away :: "'l pool \<Rightarrow> addr multiset" where
  "pool_away p = mset (tp_started p) + mset (tp_discarded p) + mset (tp_refused p)"

fun pool_moves :: "pool_effect \<Rightarrow> 'l pool \<Rightarrow> 'l pool \<Rightarrow> bool" where
  "pool_moves PeQuiet p p' \<longleftrightarrow> pool_away p' = pool_away p \<and> tp_busy p' = tp_busy p"
| "pool_moves (PeEnds t) p p' \<longleftrightarrow> pool_away p' = pool_away p \<and> tp_busy p' = tp_busy p"
| "pool_moves (PeStarts t n) p p' \<longleftrightarrow>
     pool_away p' = add_mset n (pool_away p) \<and> tp_busy p' = (tp_busy p)(n := False) \<and> tp_pc p' t = TpRun n"
| "pool_moves (PeDrops n) p p' \<longleftrightarrow> pool_away p' = add_mset n (pool_away p) \<and> tp_busy p' = (tp_busy p)(n := False)"

definition keeps_running :: "pool_effect \<Rightarrow> 'l pool \<Rightarrow> 'l pool \<Rightarrow> bool" where
  "keeps_running eff p p' \<longleftrightarrow> (\<forall>u n. tp_pc p u = TpRun n \<longrightarrow> eff \<noteq> PeEnds u \<longrightarrow> tp_pc p' u = TpRun n)"

lemmas pool_effect_simps = pool_effect_def pool_away_def keeps_running_def

lemma pool_execute_moves:
  assumes "pool_step L (TpEvExecute a n) p = Next p'"
  shows "tp_submitted p' = tp_submitted p @ [n] \<and> pool_away p' = pool_away p \<and> tp_busy p' = (tp_busy p)(n := True) \<and> keeps_running PeQuiet p p'"
  using assms by (auto simp: pool_effect_simps tp_goto_def split: if_splits)

context intrusive_list
begin

lemma pool_run_moves:
  assumes I: "pool_inv_with rep k xs p" and st: "pool_step L (TpEvRun t wake) p = Next p'"
  shows "tp_submitted p' = tp_submitted p \<and> pool_moves (pool_effect (TpEvRun t wake) p p') p p' \<and>
    keeps_running (pool_effect (TpEvRun t wake) p p') p p'"
proof (cases "tp_pc p t")
  case (TpPut n)
  with st show ?thesis using tp_asleep_iff [OF I]
    by (cases wake)
      (auto simp: tp_execute_def pool_effect_simps bq_put_def tp_wake_pc_def tp_goto_def split: if_splits prod.splits)
next
  case TpTake
  with st show ?thesis
    by (auto simp: tp_worker_routine_def pool_effect_simps bq_take_def tp_goto_def split: if_splits prod.splits)
next
  case (TpRun n)
  with st show ?thesis by (auto simp: tp_worker_routine_def pool_effect_simps tp_goto_def)
next
  case (TpDone w)
  with st show ?thesis by (auto simp: tp_counter_done_def pool_effect_simps tp_goto_def split: prod.splits)
next
  case (TpNotify w)
  with st show ?thesis using tp_wait_asleep_iff [OF I]
    by (auto simp: tp_counter_done_def pool_effect_simps tp_goto_def tp_wake_all_def)
next
  case TpWait
  with st show ?thesis by (auto simp: tp_wait_idle_def pool_effect_simps tp_goto_def split: prod.splits)
next
  case TpStop
  with st show ?thesis using tp_asleep_iff [OF I]
    by (auto simp: tp_stop_def pool_effect_simps tp_goto_def tp_wake_all_def split: if_splits prod.splits)
next
  case TpStopNotify
  with st show ?thesis using tp_wait_asleep_iff [OF I]
    by (auto simp: tp_stop_def pool_effect_simps tp_goto_def tp_wake_all_def)
next
  case TpJoin
  with st show ?thesis by (auto simp: tp_stop_def pool_effect_simps tp_goto_def split: if_splits)
qed (use st in simp_all)

lemma pool_step_moves:
  assumes I: "pool_inv_with rep k xs p" and st: "pool_step L e p = Next p'" and e: "\<not> is_execute e"
  shows "tp_submitted p' = tp_submitted p \<and> pool_moves (pool_effect e p p') p p' \<and> keeps_running (pool_effect e p p') p p'"
proof (cases e)
  case (TpEvRun t wake)
  with pool_run_moves [OF I st [unfolded TpEvRun]] show ?thesis by simp
next
  case (TpEvSpurious t)
  with st show ?thesis by (auto simp: pool_effect_simps tp_goto_def split: pool_pc.splits)
qed (use st e in \<open>auto simp: pool_effect_simps tp_goto_def split: if_splits\<close>)

end

subsection \<open>The contract of a client\<close>

text \<open>
  A client takes nodes out of its queue only when it is told to; a thread gets inside a node only by taking it; and for
  runs up to \<open>bound\<close> no node is queued twice.
\<close>

locale pool_client =
  fixes C :: "('e, 'c) client_ops"
    and init :: 'c
    and bound :: nat
  assumes cl_init: "cl_queued C init = {#}" "\<not> cl_active C t init"
    and cl_take: "cl_takes C t n e c \<Longrightarrow> cl_step C e c = Next c' \<Longrightarrow>
      cl_queued C c = add_mset n (cl_queued C c') \<and> (\<forall>u. cl_active C u c' \<longrightarrow> u = t \<or> cl_active C u c)"
    and cl_drop: "cl_drops C n e c \<Longrightarrow> cl_step C e c = Next c' \<Longrightarrow>
      cl_queued C c = add_mset n (cl_queued C c') \<and> (\<forall>u. cl_active C u c' \<longrightarrow> cl_active C u c)"
    and cl_other: "cl_step C e c = Next c' \<Longrightarrow> cl_queued C c \<subseteq># cl_queued C c' \<Longrightarrow> cl_active C u c' \<Longrightarrow> cl_active C u c"
    and cl_once: "exec (cl_step C) es init = Next c \<Longrightarrow> length es \<le> bound \<Longrightarrow> count (cl_queued C c) n \<le> 1"

text \<open>What holds between client and pool: a node that was submitted is queued at the client or has left the pool's hands.\<close>

definition pool_link :: "('e, 'c) client_ops \<Rightarrow> 'c \<Rightarrow> 'l pool \<Rightarrow> bool" where
  "pool_link C c p \<longleftrightarrow>
     cl_queued C c + pool_away p = mset (tp_submitted p) \<and> (\<forall>n. tp_busy p n \<longleftrightarrow> n \<in># cl_queued C c) \<and>
     (\<forall>t. cl_active C t c \<longrightarrow> (\<exists>n. tp_pc p t = TpRun n))"

context pool_client
begin

lemma link_client:
  assumes l: "pool_link C c p" and st: "cl_step C e c = Next c'" and q: "cl_queued C c' = cl_queued C c"
  shows "pool_link C c' p"
  using l cl_other [OF st] q by (auto simp: pool_link_def)

lemma link_submit:
  assumes l: "pool_link C c p" and st: "cl_step C e c = Next c'" and q: "cl_queued C c' = add_mset n (cl_queued C c)"
    and ex: "pool_step L (TpEvExecute a n) p = Next p'"
  shows "pool_link C c' p'"
proof -
  note m = pool_execute_moves [OF ex]
  have "\<exists>k. tp_pc p' u = TpRun k" if "cl_active C u c'" for u
    using cl_other [OF st _ that] q l m unfolding pool_link_def keeps_running_def by fastforce
  with l q m show ?thesis by (auto simp: pool_link_def)
qed

lemma link_remove:
  assumes l: "pool_link C c p" and q: "cl_queued C c = add_mset n (cl_queued C c')" and once: "count (cl_queued C c) n \<le> 1"
    and sub: "tp_submitted p' = tp_submitted p" and away: "pool_away p' = add_mset n (pool_away p)" and busy: "tp_busy p' = (tp_busy p)(n := False)"
  shows "cl_queued C c' + pool_away p' = mset (tp_submitted p') \<and> (\<forall>m. tp_busy p' m \<longleftrightarrow> m \<in># cl_queued C c')"
proof -
  have "n \<notin># cl_queued C c'" using once by (simp add: q not_in_iff)
  with l show ?thesis by (auto simp: pool_link_def q sub away busy)
qed

lemma link_pool:
  assumes l: "pool_link C c p" and m: "tp_submitted p' = tp_submitted p \<and> pool_moves eff p p' \<and> keeps_running eff p p'"
    and once: "\<And>n. count (cl_queued C c) n \<le> 1"
    and st: "(case eff of
        PeQuiet \<Rightarrow> if ce = None then Next c else Disabled
      | PeEnds t \<Rightarrow> if ce = None \<and> \<not> cl_active C t c then Next c else Disabled
      | PeStarts t n \<Rightarrow> with_client (\<lambda>c d. cl_takes C t n d c) C ce c
      | PeDrops n \<Rightarrow> with_client (\<lambda>c d. cl_drops C n d c) C ce c) = Next c'"
  shows "pool_link C c' p' \<and> (c' = c \<or> (\<exists>d. cl_step C d c = Next c'))"
proof (cases eff)
  case PeQuiet
  with l m st show ?thesis by (auto simp: pool_link_def keeps_running_def split: if_splits)
next
  case (PeEnds t)
  with st have c: "c' = c" "\<not> cl_active C t c" by (auto split: if_splits)
  have "\<exists>k. tp_pc p' u = TpRun k" if "cl_active C u c" for u
    using c(2) that m l by (cases "u = t") (auto simp: PeEnds pool_link_def keeps_running_def)
  with l m c show ?thesis by (auto simp: PeEnds pool_link_def)
next
  case (PeStarts t n)
  with st obtain d where d: "cl_takes C t n d c" "cl_step C d c = Next c'" by (cases ce) (auto split: if_splits)
  have q: "cl_queued C c = add_mset n (cl_queued C c')" and a: "\<forall>u. cl_active C u c' \<longrightarrow> u = t \<or> cl_active C u c"
    using cl_take [OF d] by auto
  have "\<exists>m. tp_pc p' u = TpRun m" if "cl_active C u c'" for u
    using a that m l unfolding PeStarts pool_link_def keeps_running_def by (cases "u = t") fastforce+
  with link_remove [OF l q once, of p'] m d show ?thesis by (auto simp: PeStarts pool_link_def)
next
  case (PeDrops n)
  with st obtain d where d: "cl_drops C n d c" "cl_step C d c = Next c'" by (cases ce) (auto split: if_splits)
  have q: "cl_queued C c = add_mset n (cl_queued C c')" and a: "\<forall>u. cl_active C u c' \<longrightarrow> cl_active C u c"
    using cl_drop [OF d] by auto
  have "\<exists>m. tp_pc p' u = TpRun m" if "cl_active C u c'" for u
    using a that m l unfolding PeDrops pool_link_def keeps_running_def by fastforce
  with link_remove [OF l q once, of p'] m d show ?thesis by (auto simp: PeDrops pool_link_def)
qed

text \<open>
  A run of the composition is a run of the client and a run of the pool. It fails only as the client does: no node that is
  submitted is still linked.
\<close>

definition projected :: "'l intrusive \<Rightarrow> tid list \<Rightarrow> nat \<Rightarrow> 'c \<times> 'l pool \<Rightarrow> bool" where
  "projected L ts k st \<longleftrightarrow> pool_link C (fst st) (snd st) \<and>
     (\<exists>ces pes. length ces \<le> k \<and> length pes \<le> k \<and> exec (cl_step C) ces init = Next (fst st) \<and> exec (pool_step L) pes (pool_init L ts) = Next (snd st))"

lemma projected_init: "projected L ts 0 (init, pool_init L ts)"
proof -
  have "pool_link C init (pool_init L ts)" by (simp add: pool_link_def cl_init pool_away_def pool_init_def)
  then show ?thesis unfolding projected_def by (intro conjI exI [of _ "[]"]) simp_all
qed

lemma projectedI:
  assumes "pool_link C c' p'" "length ces \<le> k" "length pes \<le> k" "exec (cl_step C) ces init = Next c" "exec (pool_step L) pes (pool_init L ts) = Next p"
    and "c' = c \<or> (\<exists>d. cl_step C d c = Next c')" "p' = p \<or> (\<exists>e. pool_step L e p = Next p')"
  shows "projected L ts (Suc k) (c', p')"
proof -
  have "\<exists>ces'. length ces' \<le> Suc k \<and> exec (cl_step C) ces' init = Next c'"
    using assms(2,4,6) by (metis exec_snoc_Next le_SucI length_append_singleton Suc_le_mono)
  moreover have "\<exists>pes'. length pes' \<le> Suc k \<and> exec (pool_step L) pes' (pool_init L ts) = Next p'"
    using assms(3,5,7) by (metis exec_snoc_Next le_SucI length_append_singleton Suc_le_mono)
  ultimately show ?thesis using assms(1) unfolding projected_def by auto
qed

lemma projected_step:
  assumes L: "intrusive_list L rep" and P: "projected L ts k (c, p)" and k: "k < bound" "k < 2 ^ 64"
  shows "case pool_client_step L C e (c, p) of
      Next st \<Rightarrow> projected L ts (Suc k) st
    | Disabled \<Rightarrow> True
    | Fault x \<Rightarrow> \<exists>d. cl_step C d c = Fault x"
proof -
  from P obtain ces pes where l: "pool_link C c p" and ces: "length ces \<le> k" "exec (cl_step C) ces init = Next c"
    and pes: "length pes \<le> k" "exec (pool_step L) pes (pool_init L ts) = Next p" by (auto simp: projected_def)
  from intrusive_list.pool_reach [OF L pes(2)] pes(1) k obtain xs where I: "pool_inv_with rep (length pes) xs p" by auto
  have nf: "pool_step L d p \<noteq> Fault x" for d x
    using intrusive_list.pool_step_inv [OF L pool_invI [OF I], of d] pes(1) k(2) by auto
  have once: "count (cl_queued C c) n \<le> 1" for n using cl_once [OF ces(2)] ces(1) k(1) by simp
  note next_ = projectedI [OF _ ces(1) pes(1) ces(2) pes(2)]
  show ?thesis
  proof (cases e)
    case (PcClient d sub)
    show ?thesis
    proof (cases "cl_step C d c")
      case (Next c')
      show ?thesis
      proof (cases sub)
        case None
        with PcClient Next next_ [OF link_client [OF l Next]] show ?thesis by auto
      next
        case (Some an)
        obtain a n where an: "an = (a, n)" by (cases an)
        show ?thesis
        proof (cases "cl_queued C c' = add_mset n (cl_queued C c)")
          case True
          have "count (cl_queued C c') n \<le> 1"
          proof -
            have "exec (cl_step C) (ces @ [d]) init = Next c'" using ces(2) Next by (auto simp: exec_snoc_Next)
            from cl_once [OF this] show ?thesis using ces(1) k(1) by simp
          qed
          with True have "n \<notin># cl_queued C c" by (simp add: not_in_iff)
          with l have b: "\<not> tp_busy p n" by (simp add: pool_link_def)
          show ?thesis
            using PcClient Next Some an True b nf [of "TpEvExecute a n"] next_ [OF link_submit [OF l Next True]]
            by (cases "pool_step L (TpEvExecute a n) p") (auto simp del: pool_step.simps)
        qed (use PcClient Next Some an in simp)
      qed
    qed (use PcClient in auto)
  next
    case (PcPool d ce)
    show ?thesis
    proof (cases "is_execute d")
      case False
      show ?thesis
      proof (cases "pool_step L d p")
        case (Next p')
        let ?r = "case pool_effect d p p' of
            PeQuiet \<Rightarrow> if ce = None then Next c else Disabled
          | PeEnds t \<Rightarrow> if ce = None \<and> \<not> cl_active C t c then Next c else Disabled
          | PeStarts t n \<Rightarrow> with_client (\<lambda>c d. cl_takes C t n d c) C ce c
          | PeDrops n \<Rightarrow> with_client (\<lambda>c d. cl_drops C n d c) C ce c"
        show ?thesis
        proof (cases ?r)
          case c': (Next c')
          from link_pool [OF l intrusive_list.pool_step_moves [OF L I Next False] once c'] next_ Next
          have "projected L ts (Suc k) (c', p')" by blast
          with PcPool False Next c' show ?thesis by simp
        next
          case Disabled
          with PcPool False Next show ?thesis by simp
        next
          case (Fault x)
          then have "\<exists>d. cl_step C d c = Fault x" by (cases ce) (auto split: pool_effect.splits if_splits)
          with PcPool False Next Fault show ?thesis by simp
        qed
      next
        case (Fault x)
        with nf show ?thesis by blast
      qed (use PcPool False in simp)
    qed (use PcPool in simp)
  qed
qed

lemma projected_run:
  assumes L: "intrusive_list L rep"
  shows "projected L ts k st \<Longrightarrow> k + length es \<le> bound \<Longrightarrow> k + length es \<le> 2 ^ 64 \<Longrightarrow>
    (case exec (pool_client_step L C) es st of
       Next st' \<Rightarrow> projected L ts (k + length es) st'
     | Disabled \<Rightarrow> True
     | Fault x \<Rightarrow> \<exists>ces. length ces \<le> k + length es \<and> exec (cl_step C) ces init = Fault x)"
proof (induction es arbitrary: k st)
  case (Cons e es)
  obtain c p where st: "st = (c, p)" by (cases st)
  have "k < bound" "k < 2 ^ 64" using Cons.prems by auto
  note one = projected_step [OF L Cons.prems(1) [unfolded st] this, of e]
  show ?case
  proof (cases "pool_client_step L C e (c, p)")
    case (Next u)
    with one have "projected L ts (Suc k) u" by simp
    moreover have len: "k + length (e # es) = Suc k + length es" by simp
    ultimately show ?thesis using Cons.IH [of "Suc k" u] Cons.prems unfolding len st exec.simps Next outcome.case by blast
  next
    case (Fault x)
    with one obtain d where d: "cl_step C d c = Fault x" by auto
    from Cons.prems(1) st obtain ces where "length ces \<le> k" "exec (cl_step C) ces init = Next c" by (auto simp: projected_def)
    with d have "length (ces @ [d]) \<le> k + length (e # es) \<and> exec (cl_step C) (ces @ [d]) init = Fault x" by (simp add: exec_append)
    with Fault show ?thesis unfolding st exec.simps by (simp only: outcome.case) blast
  qed (simp add: st)
qed simp

lemmas projected_runs = projected_run [OF _ projected_init, simplified]

text \<open>When \<open>WaitIdle\<close> returns, no node of the client is queued and no thread of the pool is inside one.\<close>

lemma idle_pool_idle_client:
  assumes L: "intrusive_list L rep" and run: "exec (pool_client_step L C) es (init, pool_init L ts) = Next (c, p)"
    and k: "length es \<le> bound" "length es < 2 ^ 64"
    and wait: "tp_pc p t = TpWait" and st: "pool_client_step L C (PcPool (TpEvRun t wake) ce) (c, p) = Next (c', p')" and idle: "tp_pc p' t = TpIdle"
  shows "cl_queued C c' = {#} \<and> (\<forall>u. \<not> cl_active C u c') \<and> c' = c \<and> (\<exists>ces. length ces \<le> length es \<and> exec (cl_step C) ces init = Next c')"
proof -
  from projected_runs [OF L, of es ts] k run have P: "projected L ts (length es) (c, p)" by simp
  then obtain ces pes where l: "pool_link C c p" and ces: "length ces \<le> length es" "exec (cl_step C) ces init = Next c"
    and pes: "length pes \<le> length es" "exec (pool_step L) pes (pool_init L ts) = Next p" by (auto simp: projected_def)
  have p': "pool_step L (TpEvRun t wake) p = Next p'" using st by (auto split: outcome.splits)
  have "length pes < 2 ^ 64" using pes(1) k(2) by simp
  from wait_idle_outstanding [OF L pes(2) this wait p' idle] obtain xs where I: "pool_inv_with rep (length pes) xs p" "tp_outstanding xs p = 0"
    and p'_def: "p' = tp_goto t TpIdle p" by blast
  note out = tp_nothing_outstanding [OF I]
  have "mset (tp_started p) = mset (tp_ran p) + image_mset snd (mset_set (tp_running p))" using tpI_logs [OF I(1)] unfolding tp_logs_ok_def by blast
  then have "pool_away p = mset (tp_submitted p)" using out by (simp add: pool_away_def)
  moreover have "cl_queued C c + pool_away p = mset (tp_submitted p)" using l by (simp only: pool_link_def)
  ultimately have q: "cl_queued C c = {#}" by simp
  have a: "\<not> cl_active C u c" for u using l out unfolding pool_link_def tp_running_def by blast
  have "c' = c" using st p' wait by (auto simp: p'_def pool_effect_def tp_goto_def split: if_splits)
  with q a ces show ?thesis by blast
qed

end

end
