(* ===== verification/Run_Scheduler.thy ===== *)
theory Run_Scheduler
  imports Fiber_Core Pool_Client Strand
begin

section \<open>Fibers and strands on the thread pool\<close>

text \<open>
  \<open>RunScheduler\<close> of \<open>fibers/core/fiber.cpp\<close> starts a fiber on a thread pool and waits until the pool is idle. Here the machine
  of the fibers and the one of a strand are shown to be clients of the pool, so that both run on it step by step.
\<close>

subsection \<open>Fibers as tasks\<close>

text \<open>
  A fiber is its own task node: \<open>ft_node\<close> is its address. An event comes with the address at which \<open>new Fiber\<close> allocates, which
  is not the one of a fiber that lives. All fibers are on the one pool.
\<close>

record fiber_tasks =
  ft_core :: fiber_core
  ft_node :: "nat \<Rightarrow> addr"

definition ft_init :: "nat \<Rightarrow> fiber_tasks" where
  "ft_init n = \<lparr>ft_core = fiber_core_init n, ft_node = (\<lambda>_. 0)\<rparr>"

definition ft_allocated :: "fiber_tasks \<Rightarrow> addr \<Rightarrow> bool" where
  "ft_allocated c a \<longleftrightarrow> (\<exists>f<fc_created (ft_core c). fc_fibers (ft_core c) f \<noteq> None \<and> ft_node c f = a)"

fun ft_step :: "fiber_event \<times> addr \<Rightarrow> fiber_tasks \<Rightarrow> fiber_tasks outcome" where
  "ft_step (e, a) c =
     (case fiber_core_step e (ft_core c) of
        Disabled \<Rightarrow> Disabled
      | Fault x \<Rightarrow> Fault x
      | Next s \<Rightarrow>
          if fc_created s = fc_created (ft_core c) then Next (c\<lparr>ft_core := s\<rparr>)
          else if a = 0 \<or> ft_allocated c a then Disabled
          else Next \<lparr>ft_core = s, ft_node = (ft_node c)(fc_created (ft_core c) := a)\<rparr>)"

definition ft_queued :: "fiber_tasks \<Rightarrow> addr multiset" where
  "ft_queued c = mset (map (ft_node c) (map snd (fc_queue (ft_core c))))"

definition ft_active :: "nat \<Rightarrow> fiber_tasks \<Rightarrow> bool" where
  "ft_active t c \<longleftrightarrow> t < length (fc_threads (ft_core c)) \<and> th_frames (fc_threads (ft_core c) ! t) \<noteq> []"

fun ft_takes :: "nat \<Rightarrow> addr \<Rightarrow> fiber_event \<times> addr \<Rightarrow> fiber_tasks \<Rightarrow> bool" where
  "ft_takes t n (FcRun u i, _) c \<longleftrightarrow>
     u = t \<and> \<not> ft_active t c \<and> i < length (fc_queue (ft_core c)) \<and> ft_node c (snd (fc_queue (ft_core c) ! i)) = n"
| "ft_takes t n _ c \<longleftrightarrow> False"

fun ft_drops :: "addr \<Rightarrow> fiber_event \<times> addr \<Rightarrow> fiber_tasks \<Rightarrow> bool" where
  "ft_drops n (FcDiscard i, _) c \<longleftrightarrow> i < length (fc_queue (ft_core c)) \<and> ft_node c (snd (fc_queue (ft_core c) ! i)) = n"
| "ft_drops n _ c \<longleftrightarrow> False"

definition fiber_client :: "(fiber_event \<times> addr, fiber_tasks) client_ops" where
  "fiber_client = \<lparr>cl_step = ft_step, cl_queued = ft_queued, cl_active = ft_active, cl_takes = ft_takes, cl_drops = ft_drops\<rparr>"

subsection \<open>What a step of the fibers does\<close>

lemma mset_take_out: "i < length xs \<Longrightarrow> mset xs = add_mset (xs ! i) (mset (take i xs @ drop (Suc i) xs))"
  by (subst id_take_nth_drop [of i xs]) simp_all

text \<open>Fibers are created one at a time, and only at the end of the numbers.\<close>

definition grows :: "fiber_core \<Rightarrow> fiber_core \<Rightarrow> bool" where
  "grows s s' \<longleftrightarrow> (fc_created s' = fc_created s \<and> (\<forall>f. fc_fibers s f = None \<longrightarrow> fc_fibers s' f = None)) \<or>
     (fc_created s' = Suc (fc_created s) \<and> (\<forall>f. f \<noteq> fc_created s \<longrightarrow> fc_fibers s f = None \<longrightarrow> fc_fibers s' f = None))"

definition same_frames :: "fiber_core \<Rightarrow> fiber_core \<Rightarrow> bool" where
  "same_frames s s' \<longleftrightarrow> (\<forall>t. t < length (fc_threads s') \<and> th_frames (fc_threads s' ! t) \<noteq> [] \<longrightarrow>
     t < length (fc_threads s) \<and> th_frames (fc_threads s ! t) \<noteq> [])"

definition quiet_change :: "fiber_core \<Rightarrow> fiber_core \<Rightarrow> bool" where
  "quiet_change s s' \<longleftrightarrow> grows s s' \<and> same_frames s s'"

lemmas quiet_simps = quiet_change_def grows_def same_frames_def

lemma quiet_schedule: "fiber_schedule f s = Next s' \<Longrightarrow> quiet_change s s' \<and> fc_threads s' = fc_threads s"
  by (auto simp: fiber_schedule_def fc_put_def quiet_simps split: option.splits if_splits)

lemma quiet_create: "fiber_create x s = Next s' \<Longrightarrow> quiet_change s s'"
  by (auto simp: fiber_create_def fiber_schedule_def fc_put_def quiet_simps Let_def split: sum.splits prod.splits option.splits if_splits)

lemma quiet_go_current: "fiber_go_current t s = Next s' \<Longrightarrow> quiet_change s s'"
  using quiet_create by (auto simp: fiber_go_current_def split: sum.splits option.splits)

lemma quiet_fiber_step: "t < length (fc_threads s) \<Longrightarrow> fiber_step t s = Next s' \<Longrightarrow> quiet_change s s'"
  by (auto simp: fiber_step_def th_put_def fc_put_def quiet_simps nth_list_update split: list.splits prod.splits run_at.splits option.splits sum.splits if_splits)

lemma quiet_suspend: "user_code t s \<Longrightarrow> fiber_suspend t aw s = Next s' \<Longrightarrow> quiet_change s s'"
  by (auto simp: fiber_suspend_def fiber_step_return_def th_put_def fc_put_def user_code_def quiet_simps nth_list_update
      split: list.splits prod.splits run_at.splits option.splits sum.splits if_splits)

lemma quiet_end: "t < length (fc_threads s) \<Longrightarrow> fiber_routine_end t thrown s = Next s' \<Longrightarrow> quiet_change s s'"
  by (auto simp: fiber_routine_end_def fiber_step_return_def th_put_def fc_put_def quiet_simps Let_def nth_list_update
      split: list.splits prod.splits run_at.splits option.splits sum.splits if_splits)

lemma quiet_on_completed:
  assumes "on_completed aw ready f s = Inr (next, s')"
  shows "quiet_change s s' \<and> fc_threads s' = fc_threads s"
proof (cases "s' = s \<or> s' = s\<lparr>fc_parked := f # fc_parked s\<rparr>")
  case True
  then show ?thesis by (auto simp: quiet_simps)
next
  case False
  with assms have "fiber_schedule f s = Next s'"
    by (cases aw) (auto simp: handle_schedule_def handle_release_def split: outcome.splits if_splits)
  then show ?thesis by (rule quiet_schedule)
qed

lemma quiet_completed:
  assumes t: "t < length (fc_threads s)" and st: "run_fiber_completed t ready s = Next s'"
  shows "quiet_change s s'"
proof -
  obtain f p fs where fr: "th_frames (fc_threads s ! t) = (f, AtCompleted, p) # fs"
    using st by (auto simp: run_fiber_completed_def split: list.splits prod.splits run_at.splits)
  obtain fb where fb: "fc_fibers s f = Some fb" using st fr by (auto simp: run_fiber_completed_def split: option.splits)
  have put: "quiet_change s (th_put t frs cur s1)" if "quiet_change s s1" "fc_threads s1 = fc_threads s" for frs cur s1
    using that t fr by (auto simp: th_put_def quiet_simps nth_list_update split: if_splits)
  have one: "quiet_change s (fc_put f fb' s)" for fb' using fb by (auto simp: fc_put_def quiet_simps)
  have trans: "quiet_change s s2" if "quiet_change (fc_put f fb' s) s2" for s2 fb'
    using that fb by (auto simp: fc_put_def quiet_simps split: if_splits) (metis option.distinct(1))+
  show ?thesis
  proof (cases "impl_is_completed (fb_coroutine fb)")
    case True
    let ?s1 = "s\<lparr>fc_allocator := stack_release (fb_stack fb) (fc_allocator s), fc_fibers := (fc_fibers s)(f := None)\<rparr>"
    have "quiet_change s ?s1" by (simp add: quiet_simps)
    with True st fr fb put [of ?s1] show ?thesis by (auto simp: run_fiber_completed_def fiber_destroy_def)
  next
    case False
    show ?thesis
    proof (cases "fb_awaiter fb")
      case None
      with False st fr fb put [OF one] show ?thesis by (auto simp: run_fiber_completed_def fc_put_def split: if_splits)
    next
      case (Some aw)
      with False st fr fb obtain nx s2 where "on_completed aw ready f (fc_put f (fb\<lparr>fb_awaiter := None\<rparr>) s) = Inr (nx, s2)"
        and s': "\<exists>frs. s' = th_put t frs (th_current (fc_threads s ! t)) s2 \<or> s' = th_put t frs (th_current (fc_threads s2 ! t)) s2"
        by (auto simp: run_fiber_completed_def split: if_splits sum.splits)
      from quiet_on_completed [OF this(1)] have "quiet_change s s2" "fc_threads s2 = fc_threads s"
        using trans by (auto simp: fc_put_def)
      with s' put show ?thesis by auto
    qed
  qed
qed

lemma quiet_unpark: "quiet_change (fc_unpark g s) s' \<Longrightarrow> quiet_change s s'"
  by (simp add: fc_unpark_def quiet_simps)

lemma quiet_wake:
  assumes "handle_schedule (Some g) (fc_unpark g s) = Next s' \<or> handle_resume (Some g) (fc_unpark g s) = Next s'"
  shows "quiet_change s s'"
proof -
  from assms have "fiber_schedule g (fc_unpark g s) = Next s'"
    by (auto simp: handle_schedule_def handle_resume_def handle_release_def fiber_resume_def split: option.splits if_splits)
  from conjunct1 [OF quiet_schedule [OF this]] show ?thesis by (rule quiet_unpark)
qed

lemma quiet_suspend_event:
  assumes "fiber_core_step (FcSuspend t aw) s = Next s'"
  shows "quiet_change s s'"
proof -
  from assms have u: "user_code t s" by (simp split: if_splits)
  show ?thesis
  proof (cases "\<exists>g. aw = AwUnlock g")
    case True
    then obtain g where "aw = AwUnlock g" by blast
    with assms u have "fiber_suspend t aw (fc_unpark g s) = Next s'" by (simp split: if_splits)
    moreover have "user_code t (fc_unpark g s)" using u by (simp add: user_code_def fc_unpark_def)
    ultimately have "quiet_change (fc_unpark g s) s'" by (intro quiet_suspend)
    then show ?thesis by (rule quiet_unpark)
  next
    case False
    with assms u have "fiber_suspend t aw s = Next s'" by (cases aw) auto
    with u show ?thesis by (rule quiet_suspend)
  qed
qed

lemma quiet_event:
  assumes "fiber_core_step e s = Next s'" and "\<And>t i. e \<noteq> FcRun t i" and "\<And>i. e \<noteq> FcDiscard i"
  shows "quiet_change s s'"
proof (cases e)
  case (FcSuspend t aw)
  with assms(1) show ?thesis by (simp only: quiet_suspend_event)
next
  case (FcSchedule g)
  with assms(1) show ?thesis by (intro quiet_wake [of g]) (simp split: if_splits)
next
  case (FcResume g)
  with assms(1) show ?thesis by (intro quiet_wake [of g]) (simp split: if_splits)
qed (use assms quiet_create quiet_go_current quiet_fiber_step quiet_end quiet_completed in \<open>auto split: if_splits\<close>)

lemma fiber_run_takes:
  assumes "fiber_run t i s = Next s'"
  shows "i < length (fc_queue s) \<and> fc_queue s' = take i (fc_queue s) @ drop (Suc i) (fc_queue s) \<and> fc_created s' = fc_created s \<and>
    fc_fibers s' = fc_fibers s \<and> (\<forall>u. u < length (fc_threads s') \<and> th_frames (fc_threads s' ! u) \<noteq> [] \<longrightarrow>
      u = t \<or> u < length (fc_threads s) \<and> th_frames (fc_threads s ! u) \<noteq> [])"
  using assms by (auto simp: fiber_run_def th_put_def nth_list_update split: if_splits)

lemma fiber_discard_takes:
  assumes "fiber_discard i s = Next s'"
  shows "i < length (fc_queue s) \<and> fc_queue s' = take i (fc_queue s) @ drop (Suc i) (fc_queue s) \<and> fc_created s' = fc_created s \<and>
    fc_threads s' = fc_threads s \<and> (\<forall>f. fc_fibers s f = None \<longrightarrow> fc_fibers s' f = None)"
  using assms by (auto simp: fiber_discard_def fiber_destroy_def split: if_splits option.splits)

lemma grows_event: "fiber_core_step e s = Next s' \<Longrightarrow> grows s s'"
proof (cases "(\<exists>t i. e = FcRun t i) \<or> (\<exists>i. e = FcDiscard i)")
  case True
  assume "fiber_core_step e s = Next s'"
  with True fiber_run_takes [of _ _ s s'] fiber_discard_takes [of _ s s'] show ?thesis by (auto simp: grows_def split: if_splits)
next
  case False
  assume "fiber_core_step e s = Next s'"
  with False quiet_event [of e s s'] show ?thesis by (auto simp: quiet_change_def)
qed

subsection \<open>Fibers are a client\<close>

lemma queued_take_out:
  assumes "i < length (fc_queue (ft_core c))" "fc_queue (ft_core c') = take i (fc_queue (ft_core c)) @ drop (Suc i) (fc_queue (ft_core c))"
    and "ft_node c' = ft_node c"
  shows "ft_queued c = add_mset (ft_node c (snd (fc_queue (ft_core c) ! i))) (ft_queued c')"
proof -
  have "ft_queued d = image_mset (\<lambda>x. ft_node d (snd x)) (mset (fc_queue (ft_core d)))" for d
    by (simp add: ft_queued_def multiset.map_comp comp_def)
  with mset_take_out [OF assms(1)] assms(2,3) show ?thesis by simp
qed

lemma ft_step_core:
  assumes "ft_step (e, a) c = Next c'"
  shows "fiber_core_step e (ft_core c) = Next (ft_core c') \<and>
    (if fc_created (ft_core c') = fc_created (ft_core c) then ft_node c' = ft_node c
     else a \<noteq> 0 \<and> \<not> ft_allocated c a \<and> ft_node c' = (ft_node c)(fc_created (ft_core c) := a))"
  using assms by (auto split: outcome.splits if_splits)

text \<open>Fibers that live have different addresses.\<close>

definition ft_ok :: "fiber_tasks \<Rightarrow> bool" where
  "ft_ok c \<longleftrightarrow> fiber_inv (ft_core c) \<and> inj_on (ft_node c) {f. fc_fibers (ft_core c) f \<noteq> None}"

lemma fiber_alive_created: "fiber_inv s \<Longrightarrow> fc_fibers s f \<noteq> None \<Longrightarrow> f < fc_created s"
  by (auto simp: fiber_inv_def core_ok_def ids_ok_def)

lemma ft_ok_step:
  assumes ok: "ft_ok c" and st: "ft_step ev c = Next c'"
  shows "ft_ok c'"
proof -
  obtain e a where ev: "ev = (e, a)" by (cases ev)
  note core = ft_step_core [OF st [unfolded ev]]
  have I: "fiber_inv (ft_core c)" and inj: "inj_on (ft_node c) {f. fc_fibers (ft_core c) f \<noteq> None}" using ok by (simp_all add: ft_ok_def)
  have I': "fiber_inv (ft_core c')" using fiber_inv_event [OF I, of e] core by simp
  have g: "grows (ft_core c) (ft_core c')" using core grows_event by blast
  have "inj_on (ft_node c') {f. fc_fibers (ft_core c') f \<noteq> None}"
  proof (cases "fc_created (ft_core c') = fc_created (ft_core c)")
    case True
    then have "{f. fc_fibers (ft_core c') f \<noteq> None} \<subseteq> {f. fc_fibers (ft_core c) f \<noteq> None}" using g by (auto simp: grows_def)
    with True core inj show ?thesis by (auto intro: inj_on_subset)
  next
    case False
    let ?k = "fc_created (ft_core c)"
    have sub: "{f. fc_fibers (ft_core c') f \<noteq> None} \<subseteq> insert ?k {f. fc_fibers (ft_core c) f \<noteq> None}" using g False by (auto simp: grows_def)
    have "a \<noteq> ft_node c f" if "fc_fibers (ft_core c) f \<noteq> None" for f
      using core False that fiber_alive_created [OF I that] by (auto simp: ft_allocated_def)
    moreover have "fc_fibers (ft_core c) ?k = None" using fiber_alive_created [OF I, of ?k] by blast
    ultimately have "inj_on ((ft_node c)(?k := a)) (insert ?k {f. fc_fibers (ft_core c) f \<noteq> None})"
      using inj by (auto simp: inj_on_def)
    from inj_on_subset [OF this sub] core False show ?thesis by simp
  qed
  with I' show ?thesis by (simp add: ft_ok_def)
qed

lemma ft_ok_run: "exec ft_step es (ft_init n) = Next c \<Longrightarrow> ft_ok c"
proof (induction es arbitrary: c rule: rev_induct)
  case Nil
  have "ft_ok (ft_init n)" using fiber_inv_init by (simp add: ft_ok_def ft_init_def inj_on_def) (simp add: fiber_core_init_def)
  with Nil show ?case by (simp add: ft_init_def)
next
  case (snoc e es)
  then obtain u where "exec ft_step es (ft_init n) = Next u" "ft_step e u = Next c" unfolding exec_snoc_Next by blast
  with snoc.IH ft_ok_step show ?case by blast
qed

lemma distinct_if_once: "(\<And>f. count (mset q) f \<le> of_bool (f \<in> A)) \<Longrightarrow> distinct q \<and> set q \<subseteq> A"
proof (induction q)
  case (Cons x q)
  have "count (mset q) f \<le> of_bool (f \<in> A)" for f using Cons.prems [of f] by (cases "x = f") auto
  moreover have "x \<in> A \<and> x \<notin> set q"
    using Cons.prems [of x] by (cases "x \<in> A") (simp_all add: count_mset_0_iff)
  ultimately show ?case using Cons.IH by simp
qed simp

lemma ft_queued_once:
  assumes "ft_ok c"
  shows "count (ft_queued c) n \<le> 1"
proof -
  let ?q = "map snd (fc_queue (ft_core c))" and ?alive = "{f. fc_fibers (ft_core c) f \<noteq> None}"
  from assms obtain Hd where core: "core_ok Hd (thread_places (fc_threads (ft_core c))) (ft_core c)" by (auto simp: ft_ok_def fiber_inv_def)
  have c: "count (mset ?q) f \<le> of_bool (f \<in> ?alive)" for f
    using core_ok_places [OF core, of f] unfolding fiber_places_def count_union by (cases "fc_fibers (ft_core c) f = None"; cases "fiber_held (ft_core c) f") auto
  have q: "distinct ?q" "set ?q \<subseteq> ?alive" using distinct_if_once [OF c] by auto
  have "inj_on (ft_node c) ?alive" using assms by (simp only: ft_ok_def)
  then have "inj_on (ft_node c) (set ?q)" using q(2) by (rule inj_on_subset)
  with q have "distinct (map (ft_node c) ?q)" by (simp only: distinct_map)
  then show ?thesis unfolding ft_queued_def by (simp only: distinct_count_atmost_1) simp
qed

lemma ft_take:
  assumes "ft_takes t n ev c" and st: "ft_step ev c = Next c'"
  shows "ft_queued c = add_mset n (ft_queued c') \<and> (\<forall>u. ft_active u c' \<longrightarrow> u = t \<or> ft_active u c)"
proof -
  from assms(1) obtain i a where ev: "ev = (FcRun t i, a)" and n: "ft_node c (snd (fc_queue (ft_core c) ! i)) = n"
    by (cases "(t, n, ev, c)" rule: ft_takes.cases) auto
  from ft_step_core [OF st [unfolded ev]] have core: "fiber_run t i (ft_core c) = Next (ft_core c')"
    and node: "fc_created (ft_core c') = fc_created (ft_core c) \<longrightarrow> ft_node c' = ft_node c" by (auto split: if_splits)
  note r = fiber_run_takes [OF core]
  with node n queued_take_out [of i c c'] show ?thesis by (auto simp: ft_active_def)
qed

lemma ft_drop:
  assumes "ft_drops n ev c" and st: "ft_step ev c = Next c'"
  shows "ft_queued c = add_mset n (ft_queued c') \<and> (\<forall>u. ft_active u c' \<longrightarrow> ft_active u c)"
proof -
  from assms(1) obtain i a where ev: "ev = (FcDiscard i, a)" and n: "ft_node c (snd (fc_queue (ft_core c) ! i)) = n"
    by (cases "(n, ev, c)" rule: ft_drops.cases) auto
  from ft_step_core [OF st [unfolded ev]] have core: "fiber_discard i (ft_core c) = Next (ft_core c')"
    and node: "fc_created (ft_core c') = fc_created (ft_core c) \<longrightarrow> ft_node c' = ft_node c" by (auto split: if_splits)
  note r = fiber_discard_takes [OF core]
  with node n queued_take_out [of i c c'] show ?thesis by (auto simp: ft_active_def)
qed

lemma ft_other:
  assumes st: "ft_step ev c = Next c'" and sub: "ft_queued c \<subseteq># ft_queued c'" and "ft_active u c'"
  shows "ft_active u c"
proof -
  obtain e a where ev: "ev = (e, a)" by (cases ev)
  from ft_step_core [OF st [unfolded ev]] have core: "fiber_core_step e (ft_core c) = Next (ft_core c')" by simp
  have "length (fc_queue (ft_core c)) \<le> length (fc_queue (ft_core c'))" using size_mset_mono [OF sub] by (simp add: ft_queued_def)
  then have "e \<noteq> FcRun t i" "e \<noteq> FcDiscard i" for t i
    using core fiber_run_takes [of t i "ft_core c" "ft_core c'"] fiber_discard_takes [of i "ft_core c" "ft_core c'"] by (auto split: if_splits)
  with quiet_event [OF core] have "same_frames (ft_core c) (ft_core c')" by (simp add: quiet_change_def)
  with assms(3) show ?thesis by (simp add: same_frames_def ft_active_def)
qed

lemma ft_init_quiet: "ft_queued (ft_init n) = {#}" "\<not> ft_active t (ft_init n)"
  by (simp_all add: ft_queued_def ft_active_def ft_init_def fiber_core_init_def)

interpretation fibers_on_pool: pool_client fiber_client "ft_init n" bound for n bound
proof unfold_locales
  show "count (cl_queued fiber_client c) m \<le> 1" if "exec (cl_step fiber_client) es (ft_init n) = Next c" for es c m
    using that ft_queued_once ft_ok_run by (simp add: fiber_client_def)
qed (use ft_init_quiet ft_take ft_drop ft_other in \<open>simp_all add: fiber_client_def\<close>)

lemma exec_ft_core: "exec ft_step es c = Next c' \<Longrightarrow> exec fiber_core_step (map fst es) (ft_core c) = Next (ft_core c')"
proof (induction es arbitrary: c)
  case (Cons ev es)
  obtain e a where ev: "ev = (e, a)" by (cases ev)
  from Cons.prems obtain d where d: "ft_step ev c = Next d" "exec ft_step es d = Next c'" by (cases "ft_step ev c") auto
  from ft_step_core [OF d(1) [unfolded ev]] Cons.IH [OF d(2)] show ?case by (simp add: ev)
qed simp

lemma exec_ft_fault: "exec ft_step es c = Fault x \<Longrightarrow> exec fiber_core_step (map fst es) (ft_core c) = Fault x"
proof (induction es arbitrary: c)
  case (Cons ev es)
  obtain e a where ev: "ev = (e, a)" by (cases ev)
  show ?case
  proof (cases "ft_step ev c")
    case (Next d)
    with Cons.prems have "exec ft_step es d = Fault x" by simp
    from Cons.IH [OF this] ft_step_core [OF Next [unfolded ev]] show ?thesis by (simp add: ev)
  next
    case (Fault y)
    with Cons.prems ev show ?thesis by (auto split: outcome.splits if_splits)
  qed (use Cons.prems in simp)
qed simp

text \<open>With no fiber in a queue or on a thread, the fibers that live are the parked ones.\<close>

lemma only_parked:
  assumes "ft_ok c" and q: "ft_queued c = {#}" and a: "\<And>u. \<not> ft_active u c"
  shows "distinct (fc_parked (ft_core c)) \<and> set (fc_parked (ft_core c)) = {f. fc_fibers (ft_core c) f \<noteq> None}"
proof -
  let ?s = "ft_core c"
  from assms(1) obtain Hd where core: "core_ok Hd (thread_places (fc_threads ?s)) ?s" by (auto simp: ft_ok_def fiber_inv_def)
  have queue: "fc_queue ?s = []" using q by (simp add: ft_queued_def)
  have fr: "concat (map th_frames (fc_threads ?s)) = []" using a by (auto simp: ft_active_def in_set_conv_nth)
  have places: "fiber_places ?s = mset (fc_parked ?s)" by (simp add: fiber_places_def queue fr)
  have tp: "thread_places (fc_threads ?s) = {#}" using thread_places_fst [of "fc_threads ?s"] fr by simp
  have held: "\<not> fiber_held ?s g" for g
  proof
    assume "fiber_held ?s g"
    then obtain f fb where f: "fc_fibers ?s f = Some fb" "fb_awaiter fb = Some (AwUnlock g)" by (auto simp: fiber_held_def)
    have P: "placed_ok (fc_fibers ?s) (outside Hd ?s)" using core by (simp add: core_ok_def tp)
    have "count (image_mset fst (outside Hd ?s)) f = 1" using placed_count [OF P, of f] f(1) by simp
    then have "f \<in># image_mset fst (outside Hd ?s)" by (simp only: count_greater_zero_iff [symmetric] less_numeral_extra(1))
    then obtain k where k: "(f, k) \<in># outside Hd ?s" by auto
    from placed_okD [OF P k] f have "fiber_ok fb k" by auto
    moreover from k have "k = PParked \<or> k = PHeld" by (auto simp: outside_def queue)
    ultimately show False using f(2) by (auto simp: fiber_ready_def)
  qed
  have c: "count (mset (fc_parked ?s)) f = of_bool (f \<in> {f. fc_fibers ?s f \<noteq> None})" for f
    using core_ok_places [OF core, of f] held [of f] by (simp add: places)
  then have "f \<in> set (fc_parked ?s) \<longleftrightarrow> fc_fibers ?s f \<noteq> None" for f
    using count_mset_0_iff [of "fc_parked ?s" f] by (simp split: if_splits)
  with distinct_if_once [of "fc_parked ?s" "{f. fc_fibers ?s f \<noteq> None}"] c show ?thesis by auto
qed

subsection \<open>RunScheduler\<close>

text \<open>
  \<open>RunScheduler\<close>: the pool with its threads and the first fiber; \<open>run_scheduler_calls\<close> are the calls of the thread \<open>t\<close> that
  executes the function, in their order, the fiber being allocated at \<open>a\<close>.
\<close>

definition run_scheduler_init :: "'l intrusive \<Rightarrow> nat \<Rightarrow> fiber_tasks \<times> 'l pool" where
  "run_scheduler_init L threads = (ft_init threads, pool_init L [0..<threads])"

definition run_scheduler_calls :: "tid \<Rightarrow> addr \<Rightarrow> (fiber_event \<times> addr) pool_client_event list" where
  "run_scheduler_calls t a = [PcClient (FcGo 0, a) (Some (t, a)), PcPool (TpEvWaitIdle t) None, PcPool (TpEvStop t) None]"

definition run_scheduler_step ::
  "'l intrusive \<Rightarrow> (fiber_event \<times> addr) pool_client_event \<Rightarrow> fiber_tasks \<times> 'l pool \<Rightarrow> (fiber_tasks \<times> 'l pool) outcome" where
  "run_scheduler_step L = pool_client_step L fiber_client"

text \<open>\<open>self::IsFiber\<close> and \<open>self::GetFiberId\<close>, and the choice made by \<open>Await\<close> (\<open>futures/await.h\<close>).\<close>

definition is_fiber :: "nat \<Rightarrow> fiber_core \<Rightarrow> bool" where
  "is_fiber t s \<longleftrightarrow> th_current (fc_threads s ! t) \<noteq> None"

definition get_fiber_id :: "nat \<Rightarrow> fiber_core \<Rightarrow> fault + u64" where
  "get_fiber_id t s =
     (case fiber_current t s of
        Inl x \<Rightarrow> Inl x
      | Inr f \<Rightarrow> (case fc_fibers s f of None \<Rightarrow> Inl UseAfterFree | Some fb \<Rightarrow> Inr (fb_id fb)))"

datatype await_way = AwaitSuspends | AwaitBlocks

definition await_chooses :: "nat \<Rightarrow> fiber_core \<Rightarrow> await_way" where
  "await_chooses t s = (if is_fiber t s then AwaitSuspends else AwaitBlocks)"

lemma await_finds_fiber: "await_chooses t s = AwaitSuspends \<longleftrightarrow> (\<exists>f. fiber_current t s = Inr f)"
  by (auto simp: await_chooses_def is_fiber_def fiber_current_def split: option.splits)

lemma fiber_id_fails: "await_chooses t s = AwaitBlocks \<Longrightarrow> get_fiber_id t s = Inl (Panic ''Not in a fiber context'')"
  by (auto simp: await_chooses_def is_fiber_def get_fiber_id_def fiber_current_def split: if_splits)

definition scheduler_run :: "(fiber_event \<times> addr) pool_client_event list" where
  "scheduler_run =
     [PcClient (FcGo 0, 16) (Some (5, 16)), PcPool (TpEvRun 5 None) None, PcPool (TpEvWaitIdle 5) None,
      PcPool (TpEvRun 0 None) (Some (FcRun 0 0, 0)), PcClient (FcStep 0, 0) None, PcClient (FcSuspend 0 AwYield, 0) None,
      PcClient (FcCompleted 0 False, 0) (Some (6, 16)), PcPool (TpEvRun 6 None) None, PcPool (TpEvRun 0 None) None, PcPool (TpEvRun 0 None) None,
      PcPool (TpEvRun 0 None) (Some (FcRun 0 0, 0)), PcClient (FcStep 0, 0) None, PcClient (FcSuspend 0 AwAlways, 0) None,
      PcClient (FcCompleted 0 False, 0) None, PcPool (TpEvRun 0 None) None, PcPool (TpEvRun 0 None) None, PcPool (TpEvRun 0 None) None]"

lemmas client_simps = fiber_client_def ft_queued_def ft_active_def ft_allocated_def ft_init_def pool_effect_def

lemma scheduler_run_result:
  "\<exists>c p. exec (run_scheduler_step ptr_list) scheduler_run (run_scheduler_init ptr_list 1) = Next (c, p) \<and> tp_pc p 5 = TpWait \<and>
     (\<exists>c' p'. run_scheduler_step ptr_list (PcPool (TpEvRun 5 None) None) (c, p) = Next (c', p') \<and> tp_pc p' 5 = TpIdle \<and> fc_parked (ft_core c') = [0])"
  by (simp add: run_scheduler_step_def run_scheduler_init_def scheduler_run_def client_simps fiber_defs impl_defs machine_simps ptr_run_simps atomic_simps Let_def)

lemma scheduler_idle:
  assumes "intrusive_list L rep" and "length es < 2 ^ 64"
    and "exec (run_scheduler_step L) es (run_scheduler_init L threads) = Next (c, p)"
    and "tp_pc p t = TpWait" and "run_scheduler_step L (PcPool (TpEvRun t wake) ce) (c, p) = Next (c', p')" and "tp_pc p' t = TpIdle"
  shows "fc_queue (ft_core c') = [] \<and> (\<forall>th\<in>set (fc_threads (ft_core c')). th_frames th = []) \<and>
    distinct (fc_parked (ft_core c')) \<and> set (fc_parked (ft_core c')) = {f. fc_fibers (ft_core c') f \<noteq> None}"
proof -
  from fibers_on_pool.idle_pool_idle_client [OF assms(1) assms(3) [unfolded run_scheduler_step_def run_scheduler_init_def] order_refl assms(2,4)
      assms(5) [unfolded run_scheduler_step_def] assms(6)]
  obtain ces where q: "ft_queued c' = {#}" and a: "\<And>u. \<not> ft_active u c'" and "exec ft_step ces (ft_init threads) = Next c'"
    by (auto simp: fiber_client_def)
  then have "ft_ok c'" using ft_ok_run by blast
  from only_parked [OF this q a] q a show ?thesis by (auto simp: ft_queued_def ft_active_def in_set_conv_nth)
qed

lemma scheduler_faults:
  assumes "intrusive_list L rep" and "length es < 2 ^ 64"
    and "exec (run_scheduler_step L) es (run_scheduler_init L threads) = Fault x"
  shows "x = Panic ''Not in a fiber context'' \<or> x = Panic ''std::terminate''"
proof -
  from fibers_on_pool.projected_runs [OF assms(1), where es = es and bound = "length es" and n = threads and ts = "[0..<threads]"] assms(2,3)
  obtain ces where "exec ft_step ces (ft_init threads) = Fault x"
    by (auto simp: run_scheduler_step_def run_scheduler_init_def fiber_client_def)
  from exec_ft_fault [OF this] have "exec fiber_core_step (map fst ces) (fiber_core_init threads) = Fault x" by (simp add: ft_init_def)
  with fiber_runs [OF fiber_inv_init, of "map fst ces" threads] show ?thesis by simp
qed

text \<open>A thread that is inside a fiber is a worker of the pool.\<close>

lemma fibers_run_on_workers:
  assumes "intrusive_list L rep" and "length es < 2 ^ 64"
    and "exec (run_scheduler_step L) es (run_scheduler_init L threads) = Next (c, p)" and "ft_active t c"
  shows "tp_current t p"
proof -
  from fibers_on_pool.projected_runs [OF assms(1), where es = es and bound = "length es" and n = threads and ts = "[0..<threads]"] assms(2,3)
  have "fibers_on_pool.projected threads L [0..<threads] (length es) (c, p)"
    by (simp add: run_scheduler_step_def run_scheduler_init_def)
  then obtain pes where l: "pool_link fiber_client c p" and k: "length pes \<le> length es"
    and pool: "exec (pool_step L) pes (pool_init L [0..<threads]) = Next p"
    by (auto simp: fibers_on_pool.projected_def)
  from l assms(4) obtain m where "tp_pc p t = TpRun m" by (auto simp: pool_link_def fiber_client_def)
  with task_runs_on_worker [OF assms(1) pool] k assms(2) show ?thesis by simp
qed

subsection \<open>A strand is a client\<close>

text \<open>The strand is one task node, at the address \<open>a\<close>. An activation is inside it from \<open>SdEvStart\<close> until it has released its reference.\<close>

fun strand_running :: "'l strand_pc \<Rightarrow> bool" where
  "strand_running SdTake \<longleftrightarrow> True"
| "strand_running (SdLoop _ _) \<longleftrightarrow> True"
| "strand_running (SdTask _ _ _) \<longleftrightarrow> True"
| "strand_running SdAgain \<longleftrightarrow> True"
| "strand_running SdRelease \<longleftrightarrow> True"
| "strand_running _ \<longleftrightarrow> False"

definition strand_client :: "'l intrusive \<Rightarrow> addr \<Rightarrow> (strand_event, 'l strand) client_ops" where
  "strand_client L a =
     \<lparr>cl_step = strand_step L, cl_queued = (\<lambda>s. replicate_mset (sd_scheduled s) a), cl_active = (\<lambda>t s. strand_running (sd_pc s t)),
      cl_takes = (\<lambda>t n e s. n = a \<and> e = SdEvStart t), cl_drops = (\<lambda>n e s. n = a \<and> (\<exists>t. e = SdEvDiscard t))\<rparr>"

lemma strand_other:
  assumes st: "strand_step L e s = Next s'" and sub: "sd_scheduled s \<le> sd_scheduled s'" and r: "strand_running (sd_pc s' u)"
  shows "strand_running (sd_pc s u)"
proof (cases e)
  case (SdEvRun t spurious)
  with st r show ?thesis
    by (cases "sd_pc s t"; cases "u = t")
      (auto simp: Let_def sd_execute_def sd_run_def sd_return_def sd_goto_def sd_run_next_batch_def sd_release_ref_def split: if_splits prod.splits option.splits)
qed (use st sub r in \<open>auto simp: sd_goto_def sd_discard_def sd_release_ref_def split: if_splits prod.splits option.splits\<close>)

lemma strand_start:
  "strand_step L (SdEvStart t) s = Next s' \<Longrightarrow>
    sd_scheduled s = Suc (sd_scheduled s') \<and> (\<forall>u. strand_running (sd_pc s' u) \<longrightarrow> u = t \<or> strand_running (sd_pc s u))"
  by (auto simp: sd_goto_def split: if_splits)

lemma strand_discards:
  "strand_step L (SdEvDiscard t) s = Next s' \<Longrightarrow>
    sd_scheduled s = Suc (sd_scheduled s') \<and> (\<forall>u. strand_running (sd_pc s' u) \<longrightarrow> strand_running (sd_pc s u))"
  by (auto simp: sd_discard_def split: if_splits prod.splits option.splits)

sublocale intrusive_list \<subseteq> strand_on_pool: pool_client "strand_client L a" strand_init "2 ^ 61" for a
proof unfold_locales
  show "count (cl_queued (strand_client L a) s) m \<le> 1"
    if "exec (cl_step (strand_client L a)) es strand_init = Next s" "length es \<le> 2 ^ 61" for es s m
    using that strand_scheduled_once by (simp add: strand_client_def)
  show "cl_active (strand_client L a) u s"
    if "cl_step (strand_client L a) e s = Next s'" "cl_queued (strand_client L a) s \<subseteq># cl_queued (strand_client L a) s'"
      "cl_active (strand_client L a) u s'" for e s s' u
    using that strand_other [of L e s s' u] size_mset_mono [OF that(2)] by (simp add: strand_client_def)
qed (auto simp: strand_client_def strand_init_def simp del: strand_step.simps dest!: strand_start strand_discards)

definition strand_on_pool_step ::
  "'l intrusive \<Rightarrow> addr \<Rightarrow> strand_event pool_client_event \<Rightarrow> 'l strand \<times> 'l pool \<Rightarrow> ('l strand \<times> 'l pool) outcome" where
  "strand_on_pool_step L a = pool_client_step L (strand_client L a)"

context intrusive_list
begin

lemma strand_ran_when_idle:
  assumes "exec (strand_on_pool_step L a) es (strand_init, pool_init L ts) = Next (s, p)" and "length es \<le> 2 ^ 61"
    and "tp_pc p t = TpWait" and "strand_on_pool_step L a (PcPool (TpEvRun t wake) ce) (s, p) = Next (s', p')" and "tp_pc p' t = TpIdle"
    and "sd_callers s' = {}" and "sd_discarded s' = []"
  shows "sd_ran s' = sd_submitted s'"
proof -
  have "length es < 2 ^ 64" using assms(2) by simp
  from strand_on_pool.idle_pool_idle_client [OF intrusive_list_axioms assms(1) [unfolded strand_on_pool_step_def] assms(2) this assms(3)
      assms(4) [unfolded strand_on_pool_step_def] assms(5)]
  obtain ces where q: "sd_scheduled s' = 0" and r: "\<And>u. \<not> strand_running (sd_pc s' u)"
    and ces: "exec (strand_step L) ces strand_init = Next s'" "length ces \<le> 2 ^ 61"
    using assms(2) by (auto simp: strand_client_def)
  have "sd_pc s' u = SdIdle" for u
    using r [of u] strand_no_callers [OF ces assms(6), of u] by (cases "sd_pc s' u") auto
  with strand_all_ran [OF ces _ q assms(7)] show ?thesis by blast
qed

end

definition strand_on_pool_run :: "strand_event pool_client_event list" where
  "strand_on_pool_run =
     [PcClient (SdEvExecute 7 32) None, PcClient (SdEvRun 7 False) None, PcClient (SdEvRun 7 False) None, PcClient (SdEvRun 7 False) (Some (7, 16)),
      PcPool (TpEvRun 7 None) None, PcPool (TpEvWaitIdle 9) None, PcPool (TpEvRun 0 None) (Some (SdEvStart 0)),
      PcClient (SdEvRun 0 False) None, PcClient (SdEvRun 0 False) None,
      PcClient (SdEvExecute 8 32) None, PcClient (SdEvRun 8 False) None, PcClient (SdEvRun 8 False) None,
      PcClient (SdEvRun 0 False) None, PcClient (SdEvRun 0 False) None, PcClient (SdEvRun 0 False) (Some (8, 16)), PcClient (SdEvRun 0 False) None,
      PcPool (TpEvRun 8 None) None, PcPool (TpEvRun 0 None) None, PcPool (TpEvRun 0 None) None, PcPool (TpEvRun 0 None) (Some (SdEvStart 0)),
      PcClient (SdEvRun 0 False) None, PcClient (SdEvRun 0 False) None, PcClient (SdEvRun 0 False) None, PcClient (SdEvRun 0 False) None,
      PcClient (SdEvRun 0 False) None, PcPool (TpEvRun 0 None) None, PcPool (TpEvRun 0 None) None, PcPool (TpEvRun 0 None) None]"

lemma strand_on_pool_result:
  "\<exists>s p. exec (strand_on_pool_step ptr_list 16) strand_on_pool_run (strand_init, pool_init ptr_list [0]) = Next (s, p) \<and> tp_pc p 9 = TpWait \<and>
     (\<exists>s' p'. strand_on_pool_step ptr_list 16 (PcPool (TpEvRun 9 None) None) (s, p) = Next (s', p') \<and> tp_pc p' 9 = TpIdle \<and>
        sd_callers s' = {} \<and> sd_discarded s' = [] \<and> sd_ran s' = [32, 32])"
  by (simp add: strand_on_pool_step_def strand_on_pool_run_def strand_client_def pool_effect_def machine_simps ptr_run_simps atomic_simps Let_def)

subsection \<open>Properties\<close>

text \<open>
  C6. When \<open>WaitIdle\<close> returns in \<open>RunScheduler\<close>, whatever the fibers did on the threads of the pool, no fiber is queued
  and none is on a thread; the fibers that live are exactly those parked behind a handle, each behind one. No step
  fails but by a call from outside a fiber or an exception that leaves a routine; in particular no task is linked
  twice, although a fiber that yields is submitted again while its thread is still inside \<open>Run\<close>.
\<close>

theorem run_scheduler_idle:
  assumes "intrusive_list L rep" and "length es < 2 ^ 64"
  shows "case exec (run_scheduler_step L) es (run_scheduler_init L threads) of
      Next (c, p) \<Rightarrow>
        \<forall>t wake ce c' p'. tp_pc p t = TpWait \<longrightarrow> run_scheduler_step L (PcPool (TpEvRun t wake) ce) (c, p) = Next (c', p') \<longrightarrow> tp_pc p' t = TpIdle \<longrightarrow>
          fc_queue (ft_core c') = [] \<and> (\<forall>th\<in>set (fc_threads (ft_core c')). th_frames th = []) \<and>
          distinct (fc_parked (ft_core c')) \<and> set (fc_parked (ft_core c')) = {f. fc_fibers (ft_core c') f \<noteq> None}
    | Disabled \<Rightarrow> True
    | Fault x \<Rightarrow> x = Panic ''Not in a fiber context'' \<or> x = Panic ''std::terminate''"
proof (cases "exec (run_scheduler_step L) es (run_scheduler_init L threads)")
  case (Next st)
  obtain c p where cp: "st = (c, p)" by (cases st)
  have "fc_queue (ft_core c') = [] \<and> (\<forall>th\<in>set (fc_threads (ft_core c')). th_frames th = []) \<and>
      distinct (fc_parked (ft_core c')) \<and> set (fc_parked (ft_core c')) = {f. fc_fibers (ft_core c') f \<noteq> None}"
    if "tp_pc p t = TpWait" "run_scheduler_step L (PcPool (TpEvRun t wake) ce) (c, p) = Next (c', p')" "tp_pc p' t = TpIdle" for t wake ce c' p'
    using scheduler_idle [OF assms Next [unfolded cp] that] .
  with Next cp show ?thesis by simp
next
  case (Fault x)
  with scheduler_faults [OF assms Fault] show ?thesis by simp
qed simp

theorem run_scheduler_idle_witness:
  "\<exists>c p c' p'. exec (run_scheduler_step ptr_list) scheduler_run (run_scheduler_init ptr_list 1) = Next (c, p) \<and>
     run_scheduler_step ptr_list (PcPool (TpEvRun 5 None) None) (c, p) = Next (c', p') \<and> fc_queue (ft_core c') = [] \<and>
     {f. fc_fibers (ft_core c') f \<noteq> None} = {0}"
proof -
  from scheduler_run_result obtain c p c' p' where r: "exec (run_scheduler_step ptr_list) scheduler_run (run_scheduler_init ptr_list 1) = Next (c, p)"
    "tp_pc p 5 = TpWait" "run_scheduler_step ptr_list (PcPool (TpEvRun 5 None) None) (c, p) = Next (c', p')" "tp_pc p' 5 = TpIdle"
    "fc_parked (ft_core c') = [0]" by blast
  have k: "length scheduler_run < 2 ^ 64" by (simp add: scheduler_run_def)
  from run_scheduler_idle [OF ptr.intrusive_list_axioms k, of 1] r(1) have
    "\<forall>t wake ce c' p'. tp_pc p t = TpWait \<longrightarrow> run_scheduler_step ptr_list (PcPool (TpEvRun t wake) ce) (c, p) = Next (c', p') \<longrightarrow> tp_pc p' t = TpIdle \<longrightarrow>
      fc_queue (ft_core c') = [] \<and> (\<forall>th\<in>set (fc_threads (ft_core c')). th_frames th = []) \<and>
      distinct (fc_parked (ft_core c')) \<and> set (fc_parked (ft_core c')) = {f. fc_fibers (ft_core c') f \<noteq> None}"
    by simp
  with r(2-4) have "fc_queue (ft_core c') = []" "set (fc_parked (ft_core c')) = {f. fc_fibers (ft_core c') f \<noteq> None}" by blast+
  with r show ?thesis by auto
qed

text \<open>
  C7. A strand on the thread pool: when \<open>WaitIdle\<close> of the pool returns and no thread is inside \<open>Strand::Execute\<close>, every
  task submitted to the strand has run, in order, unless the pool discarded the strand.
\<close>

theorem strand_idle_with_pool:
  assumes "intrusive_list L rep" and "exec (strand_on_pool_step L a) es (strand_init, pool_init L ts) = Next (s, p)" and "length es \<le> 2 ^ 61"
    and "tp_pc p t = TpWait" and "strand_on_pool_step L a (PcPool (TpEvRun t wake) ce) (s, p) = Next (s', p')" and "tp_pc p' t = TpIdle"
    and "sd_callers s' = {}" and "sd_discarded s' = []"
  shows "sd_ran s' = sd_submitted s'"
  by (rule intrusive_list.strand_ran_when_idle [OF assms])

theorem strand_idle_with_pool_witness:
  "\<exists>s p s' p'. exec (strand_on_pool_step ptr_list 16) strand_on_pool_run (strand_init, pool_init ptr_list [0]) = Next (s, p) \<and>
     strand_on_pool_step ptr_list 16 (PcPool (TpEvRun 9 None) None) (s, p) = Next (s', p') \<and> sd_submitted s' = [32, 32]"
proof -
  from strand_on_pool_result obtain s p s' p' where
    r: "exec (strand_on_pool_step ptr_list 16) strand_on_pool_run (strand_init, pool_init ptr_list [0]) = Next (s, p)" "tp_pc p 9 = TpWait"
      "strand_on_pool_step ptr_list 16 (PcPool (TpEvRun 9 None) None) (s, p) = Next (s', p')" "tp_pc p' 9 = TpIdle"
      "sd_callers s' = {}" "sd_discarded s' = []" "sd_ran s' = [32, 32]" by blast
  have "length strand_on_pool_run \<le> 2 ^ 61" by (simp add: strand_on_pool_run_def)
  from strand_idle_with_pool [OF ptr.intrusive_list_axioms r(1) this r(2-6)] r show ?thesis by auto
qed

end
