(* ===== verification/Coroutine_Result.thy ===== *)
theory Coroutine_Result
  imports Result
begin

section \<open>Where the result of a stackless coroutine goes\<close>

text \<open>
  \<open>examples/stackless_coroutine/std_future.h\<close>, a coroutine whose return object is a \<open>std::future\<close>, and the promise of \<open>Task\<close>
  (\<open>coroutine/stackless/task.h\<close>), which keeps the result in its frame.
\<close>

subsection \<open>A coroutine that returns a std::future\<close>

text \<open>
  \<open>sf_cell\<close> is the state that the \<open>std::promise\<close> in the frame shares with the future. A second result throws
  \<open>promise_already_satisfied\<close>; a promise destroyed without a result stores \<open>broken_promise\<close>; \<open>get\<close> may be called once.
\<close>

datatype 'e sf_thrown = Thrown 'e | AlreadySatisfied | BrokenPromise

datatype sf_frame = SfRuns | SfSuspended | SfFinal | SfGone

record ('v, 'e) sf_state =
  sf_frame :: sf_frame
  sf_cell :: "('e sf_thrown + 'v) option"
  sf_future :: bool

text \<open>\<open>get_return_object\<close> takes the future, and \<open>initial_suspend\<close> does not suspend.\<close>

definition sf_call :: "('v, 'e) sf_state" where
  "sf_call = \<lparr>sf_frame = SfRuns, sf_cell = None, sf_future = True\<rparr>"

text \<open>\<open>set_value\<close> and \<open>set_exception\<close> of \<open>std::promise\<close>; \<open>None\<close>: they throw.\<close>

definition std_promise_set :: "'e sf_thrown + 'v \<Rightarrow> ('v, 'e) sf_state \<Rightarrow> ('v, 'e) sf_state option" where
  "std_promise_set r s = (if sf_cell s = None then Some (s\<lparr>sf_cell := Some r\<rparr>) else None)"

definition sf_set_exception :: "'e \<Rightarrow> ('v, 'e) sf_state \<Rightarrow> ('v, 'e) sf_state option" where
  "sf_set_exception e = std_promise_set (Inl (Thrown e))"

definition sf_unhandled_exception :: "'e sf_thrown \<Rightarrow> ('v, 'e) sf_state \<Rightarrow> ('v, 'e) sf_state option" where
  "sf_unhandled_exception current = std_promise_set (Inl current)"

definition sf_return_value :: "'v \<Rightarrow> ('v, 'e) sf_state \<Rightarrow> ('v, 'e) sf_state option" where
  "sf_return_value v = std_promise_set (Inr v)"

definition sf_return_void :: "(unit, 'e) sf_state \<Rightarrow> (unit, 'e) sf_state option" where
  "sf_return_void = std_promise_set (Inr ())"

text \<open>The frame goes, with the promise in it.\<close>

definition sf_drop_frame :: "('v, 'e) sf_state \<Rightarrow> ('v, 'e) sf_state" where
  "sf_drop_frame s =
     s\<lparr>sf_frame := SfGone, sf_cell := (case sf_cell s of None \<Rightarrow> Some (Inl BrokenPromise) | Some r \<Rightarrow> Some r)\<rparr>"

text \<open>
  The body ends. What \<open>return_value\<close> throws is thrown in the body. \<open>final_suspend\<close> does not suspend; when
  \<open>unhandled_exception\<close> throws, the exception leaves \<open>resume\<close> (the flag) and the frame stays at its final suspend point.
\<close>

definition sf_finish_thrown :: "'e sf_thrown \<Rightarrow> ('v, 'e) sf_state \<Rightarrow> bool \<times> ('v, 'e) sf_state" where
  "sf_finish_thrown e s =
     (case sf_unhandled_exception e s of Some s' \<Rightarrow> (False, sf_drop_frame s') | None \<Rightarrow> (True, s\<lparr>sf_frame := SfFinal\<rparr>))"

fun sf_finish :: "'e + 'v \<Rightarrow> ('v, 'e) sf_state \<Rightarrow> bool \<times> ('v, 'e) sf_state" where
  "sf_finish (Inr v) s =
     (case sf_return_value v s of Some s' \<Rightarrow> (False, sf_drop_frame s') | None \<Rightarrow> sf_finish_thrown AlreadySatisfied s)"
| "sf_finish (Inl e) s = sf_finish_thrown (Thrown e) s"

datatype ('v, 'e) sf_event =
    SfAwait                   \<comment> \<open>\<open>co_await\<close> suspends the body\<close>
  | SfResume
  | SfSet 'e                  \<comment> \<open>somebody calls \<open>set_exception\<close> of the promise\<close>
  | SfEnd "'e + 'v"           \<comment> \<open>the body returns or throws\<close>
  | SfDestroy                 \<comment> \<open>\<open>handle.destroy()\<close>\<close>
  | SfGet                     \<comment> \<open>\<open>get\<close> of the future returns\<close>

fun sf_step :: "('v, 'e) sf_event \<Rightarrow> ('v, 'e) sf_state \<Rightarrow> ('v, 'e) sf_state outcome" where
  "sf_step SfAwait s = (if sf_frame s = SfRuns then Next (s\<lparr>sf_frame := SfSuspended\<rparr>) else Disabled)"
| "sf_step SfResume s = (if sf_frame s = SfSuspended then Next (s\<lparr>sf_frame := SfRuns\<rparr>) else Fault UseAfterFree)"
| "sf_step (SfSet e) s =
     (if sf_frame s = SfGone then Fault UseAfterFree
      else case sf_set_exception e s of Some s' \<Rightarrow> Next s' | None \<Rightarrow> Fault (Panic ''promise_already_satisfied''))"
| "sf_step (SfEnd r) s = (if sf_frame s = SfRuns then Next (snd (sf_finish r s)) else Disabled)"
| "sf_step SfDestroy s = (if sf_frame s \<in> {SfSuspended, SfFinal} then Next (sf_drop_frame s) else Fault UseAfterFree)"
| "sf_step SfGet s = (if sf_future s \<and> sf_cell s \<noteq> None then Next (s\<lparr>sf_future := False\<rparr>) else Disabled)"

lemmas sf_simps =
  std_promise_set_def sf_set_exception_def sf_unhandled_exception_def sf_return_value_def sf_return_void_def sf_drop_frame_def
  sf_finish_thrown_def

text \<open>A result that is there stays, whatever happens to the coroutine.\<close>

lemma cell_stays: "sf_step e s = Next s' \<Longrightarrow> sf_cell s = Some r \<Longrightarrow> sf_cell s' = Some r"
proof (cases e)
  case (SfEnd x)
  then show "sf_step e s = Next s' \<Longrightarrow> sf_cell s = Some r \<Longrightarrow> ?thesis" by (cases x) (auto simp: sf_simps split: if_splits)
qed (auto simp: sf_simps split: if_splits option.splits)

text \<open>A coroutine leaves no future without a result: when its frame is gone, \<open>get\<close> returns or throws.\<close>

definition sf_settled :: "('v, 'e) sf_state \<Rightarrow> bool" where
  "sf_settled s \<longleftrightarrow> (sf_frame s \<in> {SfGone, SfFinal} \<longrightarrow> sf_cell s \<noteq> None)"

lemma sf_settled_init: "sf_settled sf_call"
  by (simp add: sf_settled_def sf_call_def)

lemma sf_settled_step: "sf_step e s = Next s' \<Longrightarrow> sf_settled s \<Longrightarrow> sf_settled s'"
proof (cases e)
  case (SfEnd x)
  then show "sf_step e s = Next s' \<Longrightarrow> sf_settled s \<Longrightarrow> ?thesis"
    by (cases x) (auto simp: sf_simps sf_settled_def split: if_splits option.splits)
qed (auto simp: sf_simps sf_settled_def split: if_splits option.splits)

lemma future_always_settled: "exec sf_step es sf_call = Next s \<Longrightarrow> sf_frame s \<in> {SfGone, SfFinal} \<Longrightarrow> \<exists>r. sf_cell s = Some r"
proof -
  have "exec sf_step es u = Next s \<Longrightarrow> sf_settled u \<Longrightarrow> sf_settled s" for u :: "('a, 'b) sf_state"
    by (induction es arbitrary: u) (auto split: outcome.splits intro: sf_settled_step)
  then show "exec sf_step es sf_call = Next s \<Longrightarrow> sf_frame s \<in> {SfGone, SfFinal} \<Longrightarrow> ?thesis"
    using sf_settled_init unfolding sf_settled_def by blast
qed

text \<open>The body alone decides the result: what it returns or throws reaches \<open>get\<close>, after any number of suspensions.\<close>

lemma awaits_keep: "exec sf_step (concat (replicate k [SfAwait, SfResume])) sf_call = Next sf_call"
  by (induction k) (simp_all add: sf_call_def)

lemma future_gets_result:
  "exec sf_step (concat (replicate k [SfAwait, SfResume]) @ [SfEnd r]) sf_call =
     Next \<lparr>sf_frame = SfGone, sf_cell = Some (case r of Inl e \<Rightarrow> Inl (Thrown e) | Inr v \<Rightarrow> Inr v), sf_future = True\<rparr>"
  by (cases r) (simp_all add: exec_append awaits_keep, simp_all add: sf_call_def sf_simps)

text \<open>After \<open>set_exception\<close> the end of the body throws out of \<open>resume\<close>, and the frame stays.\<close>

lemma set_exception_leaks:
  "\<exists>s. exec sf_step [SfSet e, SfEnd r] sf_call = Next s \<and> sf_frame s = SfFinal \<and> sf_cell s = Some (Inl (Thrown e))"
  by (cases r) (simp_all add: sf_call_def sf_simps)

subsection \<open>The result of a Task\<close>

text \<open>The promise of \<open>Task\<close> has a \<open>std::optional<Status>\<close>, which every result overwrites.\<close>

type_synonym 'e task_result = "'e status option"

definition task_set_exception :: "'e option \<Rightarrow> 'e task_result \<Rightarrow> ('e, 'e task_result) call" where
  "task_set_exception ex _ = call_bind (mk_fail (HoldsException ex)) (\<lambda>f. call_bind (status_fail f) (\<lambda>st. Returns (Some st)))"

definition task_unhandled_exception :: "'e option \<Rightarrow> 'e task_result \<Rightarrow> ('e, 'e task_result) call" where
  "task_unhandled_exception current _ = call_bind (status_fail (mk_current_exception current)) (\<lambda>st. Returns (Some st))"

definition task_return_void :: "'e task_result \<Rightarrow> ('e, 'e task_result) call" where
  "task_return_void _ = Returns (Some status_ok)"

fun task_body_ends :: "'e + unit \<Rightarrow> 'e task_result \<Rightarrow> ('e, 'e task_result) call" where
  "task_body_ends (Inr _) r = task_return_void r"
| "task_body_ends (Inl e) r = task_unhandled_exception (Some e) r"

text \<open>No result is refused, unlike by a \<open>std::promise\<close>: the end of the body replaces what \<open>set_exception\<close> stored.\<close>

lemma task_body_decides:
  "call_bind (task_set_exception ex r) (task_body_ends b) = Returns (Some (case b of Inl e \<Rightarrow> mk_throw e | Inr _ \<Rightarrow> status_ok))"
  by (cases b) (simp_all add: task_set_exception_def task_unhandled_exception_def task_return_void_def mk_fail_def status_fail_def
    mk_current_exception_def mk_throw_def)

text \<open>After \<open>set_exception\<close> and a normal return the two promises hold different results.\<close>

lemma task_and_future_differ:
  "call_bind (task_set_exception (Some e) None) (task_body_ends (Inr ())) = Returns (Some status_ok)"
  "\<exists>s. exec sf_step [SfSet e, SfEnd (Inr ())] sf_call = Next s \<and> sf_cell s = Some (Inl (Thrown e))"
  using set_exception_leaks [of e "Inr ()"] by (auto simp: task_body_decides)

end
