(* ===== verification/Sender_Receiver.thy ===== *)
theory Sender_Receiver
  imports Prelude "HOL-Library.Multiset"
begin

section \<open>The example of senders and receivers\<close>

text \<open>
  \<open>examples/sender_receiver/main.cpp\<close>: receivers, senders, a pool run by hand whose operation states are its task nodes, and
  coroutines that await its scheduler. \<open>ThenSender\<close> is left out: its \<open>Connect\<close> calls \<open>Submit\<close> of the sender, which no sender has,
  so it cannot be instantiated.
\<close>

subsection \<open>Receivers and Just\<close>

text \<open>What a call of a receiver does: the functor, or \<open>std::abort\<close>.\<close>

datatype 'v signal = SetValue 'v | SetError | SetDone

fun functor_receive :: "('v \<Rightarrow> 's \<Rightarrow> 's outcome) \<Rightarrow> 'v signal \<Rightarrow> 's \<Rightarrow> 's outcome" where
  "functor_receive f (SetValue v) s = f v s"
| "functor_receive f SetError s = Fault (Panic ''std::abort'')"
| "functor_receive f SetDone s = Fault (Panic ''std::abort'')"

fun empty_receive :: "'v signal \<Rightarrow> 's \<Rightarrow> 's outcome" where
  "empty_receive (SetValue v) s = Next s"
| "empty_receive SetError s = Next s"
| "empty_receive SetDone s = Next s"

definition just_connect :: "'v \<Rightarrow> ('v signal \<Rightarrow> 's \<Rightarrow> 's outcome) \<Rightarrow> 's \<Rightarrow> 's outcome" where
  "just_connect v receive s = receive (SetValue v) s"

lemma just_delivers: "just_connect v (functor_receive f) s = f v s"
  by (simp add: just_connect_def)

subsection \<open>The pool\<close>

text \<open>
  A receiver of the pool is what its \<open>SetValue\<close> does to the pool: it connects and starts further operation states and destroys
  some. \<open>ow_recv\<close> is the receiver of an operation state that exists. \<open>ow_ran\<close> records what was run.
\<close>

datatype op_action = ConnectOp addr "op_action list" | StartOp addr | DestroyOp addr

record op_world =
  ow_head :: addr
  ow_next :: links
  ow_recv :: "addr \<Rightarrow> op_action list option"
  ow_ran :: "addr list"

definition op_world_init :: op_world where
  "op_world_init = \<lparr>ow_head = 0, ow_next = (\<lambda>_. 0), ow_recv = Map.empty, ow_ran = []\<rparr>"

definition sr_submit :: "addr \<Rightarrow> op_world \<Rightarrow> op_world" where
  "sr_submit n w = w\<lparr>ow_next := (ow_next w)(n := ow_head w), ow_head := n\<rparr>"

definition pool_connect :: "addr \<Rightarrow> op_action list \<Rightarrow> op_world \<Rightarrow> op_world outcome" where
  "pool_connect n receiver w =
     (if n = 0 \<or> ow_recv w n \<noteq> None then Disabled
      else Next (w\<lparr>ow_recv := (ow_recv w)(n \<mapsto> receiver), ow_next := (ow_next w)(n := 0)\<rparr>))"

definition op_start :: "addr \<Rightarrow> op_world \<Rightarrow> op_world outcome" where
  "op_start n w = (if ow_recv w n = None then Fault UseAfterFree else Next (sr_submit n w))"

definition op_destroy :: "addr \<Rightarrow> op_world \<Rightarrow> op_world outcome" where
  "op_destroy n w = (if ow_recv w n = None then Fault UseAfterFree else Next (w\<lparr>ow_recv := (ow_recv w)(n := None)\<rparr>))"

fun op_action_step :: "op_action \<Rightarrow> op_world \<Rightarrow> op_world outcome" where
  "op_action_step (ConnectOp n receiver) w = pool_connect n receiver w"
| "op_action_step (StartOp n) w = op_start n w"
| "op_action_step (DestroyOp n) w = op_destroy n w"

definition op_run :: "addr \<Rightarrow> op_world \<Rightarrow> op_world outcome" where
  "op_run n w =
     (case ow_recv w n of
        None \<Rightarrow> Fault UseAfterFree
      | Some receiver \<Rightarrow> exec op_action_step receiver (w\<lparr>ow_ran := ow_ran w @ [n]\<rparr>))"

text \<open>\<open>RunAll\<close>; \<open>None\<close> if it does not return.\<close>

partial_function (option) sr_run_all :: "op_world \<Rightarrow> op_world outcome option" where
  "sr_run_all w =
     (if ow_head w = 0 then Some (Next w)
      else if ow_recv w (ow_head w) = None then Some (Fault UseAfterFree)
      else case op_run (ow_head w) (w\<lparr>ow_head := ow_next w (ow_head w)\<rparr>) of
        Next w' \<Rightarrow> sr_run_all w'
      | r \<Rightarrow> Some r)"

subsection \<open>Every operation is run once, depth first\<close>

text \<open>
  Operations that start operations: a tree. The operation state of a node is destroyed at the end of its own run, as the one in
  the frame of a coroutine is that goes on to its end.
\<close>

datatype op_tree = OpTree (op_root: addr) (op_children: "op_tree list")

primrec tree_actions :: "op_tree \<Rightarrow> op_action list" where
  "tree_actions (OpTree n cs) =
     concat (map (\<lambda>(c, as). [ConnectOp (op_root c) as, StartOp (op_root c)]) (map (\<lambda>c. (c, tree_actions c)) cs)) @ [DestroyOp n]"

primrec tree_nodes :: "op_tree \<Rightarrow> addr list" where
  "tree_nodes (OpTree n cs) = n # concat (map tree_nodes cs)"

primrec tree_order :: "op_tree \<Rightarrow> addr list" where
  "tree_order (OpTree n cs) = n # concat (rev (map tree_order cs))"

definition forest_nodes :: "op_tree list \<Rightarrow> addr list" where
  "forest_nodes ts = concat (map tree_nodes ts)"

definition start_all :: "op_tree list \<Rightarrow> op_action list" where
  "start_all cs = concat (map (\<lambda>c. [ConnectOp (op_root c) (tree_actions c), StartOp (op_root c)]) cs)"

lemma tree_actions_root: "tree_actions (OpTree n cs) = start_all cs @ [DestroyOp n]"
  by (simp add: start_all_def comp_def)

lemma root_in_nodes: "op_root t \<in> set (tree_nodes t)"
  by (cases t) simp

lemma forest_nodes_simps [simp]:
  "forest_nodes [] = []" "forest_nodes (t # ts) = tree_nodes t @ forest_nodes ts" "forest_nodes (ts @ us) = forest_nodes ts @ forest_nodes us"
  by (simp_all add: forest_nodes_def)

lemma tree_nodes_forest [simp]: "tree_nodes (OpTree n cs) = n # forest_nodes cs"
  by (simp add: forest_nodes_def)

declare tree_nodes.simps [simp del] tree_actions.simps [simp del]

lemma nodes_in_forest: "t \<in> set ts \<Longrightarrow> m \<in> set (tree_nodes t) \<Longrightarrow> m \<in> set (forest_nodes ts)"
  by (auto simp: forest_nodes_def)

lemma roots_in_forest: "set (map op_root ts) \<subseteq> set (forest_nodes ts)"
  using root_in_nodes by (auto intro: nodes_in_forest)

lemma roots_distinct: "distinct (forest_nodes ts) \<Longrightarrow> distinct (map op_root ts)"
proof (induction ts)
  case (Cons t ts)
  then have "set (tree_nodes t) \<inter> set (forest_nodes ts) = {}" by simp
  with root_in_nodes [of t] roots_in_forest [of ts] have "op_root t \<notin> set (map op_root ts)" by blast
  with Cons show ?case by simp
qed simp

lemma forest_rev: "mset (forest_nodes (rev cs)) = mset (forest_nodes cs)"
  by (induction cs) simp_all

lemma forest_rev_set [simp]: "set (forest_nodes (rev cs)) = set (forest_nodes cs)"
  using forest_rev by (rule mset_eq_setD)

lemma forest_rev_distinct [simp]: "distinct (forest_nodes (rev cs)) \<longleftrightarrow> distinct (forest_nodes cs)"
  using forest_rev by (rule mset_eq_imp_distinct_iff)

fun stacked :: "op_world \<Rightarrow> addr \<Rightarrow> op_tree list \<Rightarrow> bool" where
  "stacked w h [] \<longleftrightarrow> h = 0"
| "stacked w h (t # ts) \<longleftrightarrow> h = op_root t \<and> h \<noteq> 0 \<and> ow_recv w h = Some (tree_actions t) \<and> stacked w (ow_next w h) ts"

text \<open>The nodes of a forest are not null and distinct, and of its trees only the roots may exist yet.\<close>

definition fresh_nodes :: "op_world \<Rightarrow> op_tree list \<Rightarrow> bool" where
  "fresh_nodes w ts \<longleftrightarrow> distinct (forest_nodes ts) \<and> 0 \<notin> set (forest_nodes ts) \<and>
     (\<forall>t\<in>set ts. \<forall>c\<in>set (op_children t). \<forall>n\<in>set (tree_nodes c). ow_recv w n = None)"

lemma stacked_frame:
  "stacked w h ts \<Longrightarrow> (\<And>t. t \<in> set ts \<Longrightarrow> ow_recv w' (op_root t) = ow_recv w (op_root t) \<and> ow_next w' (op_root t) = ow_next w (op_root t)) \<Longrightarrow>
    stacked w' h ts"
  by (induction ts arbitrary: h) auto

lemma start_all_steps:
  assumes "stacked w (ow_head w) ts" and "distinct (forest_nodes cs @ map op_root ts)" and "0 \<notin> set (forest_nodes cs)"
    and "\<And>c n. c \<in> set cs \<Longrightarrow> n \<in> set (tree_nodes c) \<Longrightarrow> ow_recv w n = None"
  shows "\<exists>w'. exec op_action_step (start_all cs) w = Next w' \<and> stacked w' (ow_head w') (rev cs @ ts) \<and> ow_ran w' = ow_ran w \<and>
    (\<forall>n. n \<notin> op_root ` set cs \<longrightarrow> ow_recv w' n = ow_recv w n)"
  using assms
proof (induction cs arbitrary: w ts)
  case (Cons c cs)
  let ?n = "op_root c"
  let ?w = "w\<lparr>ow_recv := (ow_recv w)(?n \<mapsto> tree_actions c), ow_next := (ow_next w)(?n := ow_head w), ow_head := ?n\<rparr>"
  have n: "?n \<noteq> 0" "ow_recv w ?n = None" using Cons.prems(3,4) root_in_nodes [of c] by force+
  have steps: "exec op_action_step (start_all (c # cs)) w = exec op_action_step (start_all cs) ?w"
    using n by (simp add: start_all_def pool_connect_def op_start_def sr_submit_def)
  have sep: "set (forest_nodes (c # cs)) \<inter> set (map op_root ts) = {}" and dc: "distinct (forest_nodes (c # cs))" and dt: "distinct (map op_root ts)"
    using Cons.prems(2) unfolding distinct_append by blast+
  have inn: "?n \<in> set (forest_nodes (c # cs))" using root_in_nodes [of c] by simp
  have notin: "?n \<notin> set (map op_root ts)" using sep inn by (meson disjoint_iff)
  then have out: "op_root t \<noteq> ?n" if "t \<in> set ts" for t using that by (metis image_eqI list.set_map)
  have "stacked ?w (ow_head w) ts" by (rule stacked_frame [OF Cons.prems(1)]) (use out in auto)
  then have s: "stacked ?w (ow_head ?w) (c # ts)" using n by simp
  have away: "set (tree_nodes c) \<inter> set (forest_nodes cs) = {}" using dc by simp
  then have nn: "?n \<notin> set (tree_nodes d)" if "d \<in> set cs" for d
    using nodes_in_forest [OF that] root_in_nodes [of c] by (meson disjoint_iff)
  have "?n \<notin> set (forest_nodes cs)" using away root_in_nodes [of c] by (meson disjoint_iff)
  with dc dt sep notin have d: "distinct (forest_nodes cs @ map op_root (c # ts))" by (simp add: Int_Un_distrib2)
  have none: "ow_recv ?w m = None" if "e \<in> set cs" "m \<in> set (tree_nodes e)" for e m
    using Cons.prems(4) [of e m] that nn by auto
  have z: "0 \<notin> set (forest_nodes cs)" using Cons.prems(3) by simp
  have "\<exists>w'. exec op_action_step (start_all cs) ?w = Next w' \<and> stacked w' (ow_head w') (rev cs @ c # ts) \<and> ow_ran w' = ow_ran ?w \<and>
      (\<forall>m. m \<notin> op_root ` set cs \<longrightarrow> ow_recv w' m = ow_recv ?w m)"
    by (rule Cons.IH [OF s d z]) (rule none)
  then obtain w' where w': "exec op_action_step (start_all cs) ?w = Next w'"
    "stacked w' (ow_head w') (rev cs @ c # ts)" "ow_ran w' = ow_ran w" "\<forall>m. m \<notin> op_root ` set cs \<longrightarrow> ow_recv w' m = ow_recv ?w m" by auto
  with steps have "exec op_action_step (start_all (c # cs)) w = Next w'" by simp
  with w'(2-4) show ?case by (intro exI [of _ w']) auto
qed (simp add: start_all_def)

lemma root_once: "distinct (forest_nodes ts) \<Longrightarrow> t \<in> set ts \<Longrightarrow> u \<in> set ts \<Longrightarrow> op_root u \<notin> set (forest_nodes (op_children t))"
proof (induction ts)
  case (Cons x ts)
  have sep: "set (tree_nodes x) \<inter> set (forest_nodes ts) = {}" and dx: "distinct (tree_nodes x)" using Cons.prems(1) by auto
  have inside: "set (forest_nodes (op_children v)) \<subseteq> set (tree_nodes v)" for v by (cases v) auto
  have roots: "v \<in> set ts \<Longrightarrow> set (tree_nodes v) \<subseteq> set (forest_nodes ts)" for v using nodes_in_forest by blast
  have self: "op_root x \<notin> set (forest_nodes (op_children x))" using dx by (cases x) simp
  from Cons.prems(2,3) consider "t = x" "u = x" | "t = x" "u \<in> set ts" | "t \<in> set ts" "u = x" | "t \<in> set ts" "u \<in> set ts" by auto
  then show ?case
  proof cases
    case 2
    with roots [of u] root_in_nodes [of u] inside [of x] sep show ?thesis by (meson disjoint_iff subsetD)
  next
    case 3
    with roots [of t] root_in_nodes [of x] inside [of t] sep show ?thesis by (meson disjoint_iff subsetD)
  qed (use self Cons in auto)
qed simp

lemma run_head:
  assumes s: "stacked w (ow_head w) (OpTree n cs # ts)" and f: "fresh_nodes w (OpTree n cs # ts)"
  shows "\<exists>w'. op_run n (w\<lparr>ow_head := ow_next w n\<rparr>) = Next w' \<and> stacked w' (ow_head w') (rev cs @ ts) \<and> fresh_nodes w' (rev cs @ ts) \<and>
    ow_ran w' = ow_ran w @ [n]"
proof -
  let ?w = "w\<lparr>ow_head := ow_next w n, ow_ran := ow_ran w @ [n]\<rparr>"
  have "distinct (n # forest_nodes cs @ forest_nodes ts)" using f by (simp add: fresh_nodes_def tree_nodes_forest)
  then have n: "n \<notin> set (forest_nodes cs)" "n \<notin> set (forest_nodes ts)" and d: "distinct (forest_nodes cs)" "distinct (forest_nodes ts)"
      and sep: "set (forest_nodes cs) \<inter> set (forest_nodes ts) = {}" by auto
  have z: "0 \<notin> set (forest_nodes cs)" "0 \<notin> set (forest_nodes ts)" using f by (simp_all add: fresh_nodes_def tree_nodes_forest)
  have none: "ow_recv w m = None" if "c \<in> set cs" "m \<in> set (tree_nodes c)" for c m using f that by (auto simp: fresh_nodes_def)
  have none_ts: "ow_recv w m = None" if "t \<in> set ts" "c \<in> set (op_children t)" "m \<in> set (tree_nodes c)" for t c m
    using f that by (auto simp: fresh_nodes_def)
  have "stacked w (ow_next w n) ts" using s by auto
  then have "stacked ?w (ow_next w n) ts" by (rule stacked_frame) simp
  then have st: "stacked ?w (ow_head ?w) ts" by simp
  have dr: "distinct (forest_nodes cs @ map op_root ts)" using d sep roots_distinct [OF d(2)] roots_in_forest [of ts] by auto
  from start_all_steps [OF st dr z(1)] none obtain w1 where w1: "exec op_action_step (start_all cs) ?w = Next w1"
    "stacked w1 (ow_head w1) (rev cs @ ts)" "ow_ran w1 = ow_ran w @ [n]" and recv: "\<And>m. m \<notin> op_root ` set cs \<Longrightarrow> ow_recv w1 m = ow_recv w m"
    by auto
  have inner: "op_root c \<in> set (forest_nodes cs)" if "c \<in> set cs" for c using roots_in_forest [of cs] that by auto
  then have "n \<notin> op_root ` set cs" using n(1) by auto
  then have "ow_recv w1 n = Some (start_all cs @ [DestroyOp n])" using recv [of n] s tree_actions_root [of n cs] by auto
  then have "op_run n (w\<lparr>ow_head := ow_next w n\<rparr>) = Next (w1\<lparr>ow_recv := (ow_recv w1)(n := None)\<rparr>)" (is "_ = Next ?w'")
    using w1(1) s tree_actions_root [of n cs]
    by (auto simp: op_run_def exec_append op_destroy_def)
  moreover have "op_root t \<noteq> n" if "t \<in> set (rev cs @ ts)" for t
    using that inner n roots_in_forest [of ts] by auto
  then have "stacked ?w' (ow_head w1) (rev cs @ ts)" by (intro stacked_frame [OF w1(2)]) auto
  then have "stacked ?w' (ow_head ?w') (rev cs @ ts)" by simp
  moreover have "ow_recv ?w' m = None" if "t \<in> set (rev cs @ ts)" "c \<in> set (op_children t)" "m \<in> set (tree_nodes c)" for t c m
  proof -
    have m: "m \<in> set (forest_nodes (op_children t))" using nodes_in_forest [OF that(2,3)] .
    have mt: "m \<in> set (tree_nodes t)" using m by (cases t) simp
    have "ow_recv w m = None"
    proof (cases "t \<in> set cs")
      case True
      then show ?thesis using none mt by blast
    next
      case False
      then show ?thesis using none_ts that by auto
    qed
    moreover have "m \<notin> op_root ` set cs"
    proof
      assume "m \<in> op_root ` set cs"
      then obtain c where c: "c \<in> set cs" "m = op_root c" by auto
      show False
      proof (cases "t \<in> set cs")
        case True
        then show ?thesis using root_once [OF d(1) True c(1)] m c(2) by simp
      next
        case False
        then have "m \<in> set (forest_nodes ts)" using that(1) mt nodes_in_forest by auto
        with inner [OF c(1)] c(2) sep show ?thesis by auto
      qed
    qed
    ultimately show ?thesis using recv by simp
  qed
  ultimately show ?thesis using w1(3) d sep z by (intro exI [of _ ?w']) (auto simp: fresh_nodes_def)
qed

lemma stacked_start: "stacked w (ow_head w) [] \<longleftrightarrow> ow_head w = 0"
  by simp

lemma run_all_next:
  "ow_head w \<noteq> 0 \<Longrightarrow> ow_recv w (ow_head w) \<noteq> None \<Longrightarrow> op_run (ow_head w) (w\<lparr>ow_head := ow_next w (ow_head w)\<rparr>) = Next w' \<Longrightarrow>
    sr_run_all w = sr_run_all w'"
  by (subst sr_run_all.simps) auto

lemma run_all_stacked:
  "stacked w (ow_head w) ts \<Longrightarrow> fresh_nodes w ts \<Longrightarrow>
    \<exists>w'. sr_run_all w = Some (Next w') \<and> ow_head w' = 0 \<and> ow_ran w' = ow_ran w @ concat (map tree_order ts)"
proof (induction "length (forest_nodes ts)" arbitrary: w ts rule: less_induct)
  case less
  show ?case
  proof (cases ts)
    case Nil
    then show ?thesis using less.prems(1) by (simp add: sr_run_all.simps)
  next
    case (Cons t us)
    obtain n cs where t: "t = OpTree n cs" by (cases t)
    have head: "ow_head w = n" "n \<noteq> 0" "ow_recv w n \<noteq> None" using less.prems(1) Cons t by auto
    from run_head [of w n cs us] less.prems Cons t obtain w1 where w1: "op_run n (w\<lparr>ow_head := ow_next w n\<rparr>) = Next w1"
      "stacked w1 (ow_head w1) (rev cs @ us)" "fresh_nodes w1 (rev cs @ us)" "ow_ran w1 = ow_ran w @ [n]" by auto
    have "length (forest_nodes (rev cs)) = length (forest_nodes cs)" using forest_rev [of cs] by (rule mset_eq_length)
    then have "length (forest_nodes (rev cs @ us)) < length (forest_nodes ts)" using Cons t by simp
    from less.hyps [OF this w1(2,3)] obtain w' where w': "sr_run_all w1 = Some (Next w')" "ow_head w' = 0"
      "ow_ran w' = ow_ran w1 @ concat (map tree_order (rev cs @ us))" by auto
    have "sr_run_all w = sr_run_all w1" using run_all_next [of w w1] head w1(1) by simp
    with w' w1(4) Cons t show ?thesis by (intro exI [of _ w']) (simp add: rev_map)
  qed
qed

text \<open>What was started on an empty pool is run: each operation and all that it leads to, the one started last first.\<close>

lemma run_all_depth_first:
  assumes "distinct (forest_nodes ts)" and "0 \<notin> set (forest_nodes ts)"
  shows "\<exists>w w'. exec op_action_step (start_all ts) op_world_init = Next w \<and> sr_run_all w = Some (Next w') \<and> ow_head w' = 0 \<and>
    ow_ran w' = concat (map tree_order (rev ts))"
proof -
  have s: "stacked op_world_init (ow_head op_world_init) []" by (simp add: op_world_init_def)
  have d: "distinct (forest_nodes ts @ map op_root [])" using assms(1) by simp
  have e: "ow_recv op_world_init n = None" for n by (simp add: op_world_init_def)
  obtain w where w: "exec op_action_step (start_all ts) op_world_init = Next w" "stacked w (ow_head w) (rev ts)" "ow_ran w = []"
    and recv: "\<And>n. n \<notin> op_root ` set ts \<Longrightarrow> ow_recv w n = None"
    using start_all_steps [OF s d assms(2) e] by (auto simp: op_world_init_def)
  have "ow_recv w n = None" if "t \<in> set (rev ts)" "c \<in> set (op_children t)" "n \<in> set (tree_nodes c)" for t c n
  proof (rule recv, rule notI)
    assume "n \<in> op_root ` set ts"
    then obtain u where "u \<in> set ts" "n = op_root u" by auto
    with root_once [OF assms(1), of t u] nodes_in_forest [OF that(2,3)] that(1) show False by simp
  qed
  then have "fresh_nodes w (rev ts)" using assms by (auto simp: fresh_nodes_def)
  from run_all_stacked [OF w(2) this] w show ?thesis by auto
qed

subsection \<open>An operation state started twice\<close>

text \<open>The node is linked to itself, and \<open>RunAll\<close> never returns when nothing is destroyed.\<close>

lemma started_twice_hangs:
  assumes "ow_head w = n" and "n \<noteq> 0" and "ow_next w n = n" and "ow_recv w n = Some []"
  shows "sr_run_all w \<noteq> Some r"
proof
  assume "sr_run_all w = Some r"
  then have "\<not> (ow_head w = n \<and> ow_next w n = n \<and> ow_recv w n = Some [])"
  proof (rule sr_run_all.raw_induct [where P = "\<lambda>w r. \<not> (ow_head w = n \<and> ow_next w n = n \<and> ow_recv w n = Some [])", rotated])
    fix f w r
    assume ih: "\<And>w r. f w = Some r \<Longrightarrow> \<not> (ow_head w = n \<and> ow_next w n = n \<and> ow_recv w n = Some [])"
      and body: "(if ow_head w = 0 then Some (Next w) else if ow_recv w (ow_head w) = None then Some (Fault UseAfterFree)
        else case op_run (ow_head w) (w\<lparr>ow_head := ow_next w (ow_head w)\<rparr>) of Next w' \<Rightarrow> f w' | r \<Rightarrow> Some r) = Some r"
    show "\<not> (ow_head w = n \<and> ow_next w n = n \<and> ow_recv w n = Some [])"
    proof
      assume *: "ow_head w = n \<and> ow_next w n = n \<and> ow_recv w n = Some []"
      with body assms(2) have "f (w\<lparr>ow_head := n, ow_ran := ow_ran w @ [n]\<rparr>) = Some r" by (simp add: op_run_def)
      from ih [OF this] * show False by simp
    qed
  qed
  with assms show False by simp
qed

subsection \<open>A coroutine that awaits the scheduler\<close>

text \<open>
  \<open>ThreadPoolAwaiter\<close>: the operation state lies in the frame of the coroutine, at \<open>n\<close>. Its receiver resumes the coroutine,
  which destroys the awaiter with the operation state in it and goes on to its next \<open>co_await\<close>.
\<close>

definition sr_await_ready :: bool where
  "sr_await_ready = False"

definition sr_await_suspend :: "addr \<Rightarrow> op_action list \<Rightarrow> op_action list" where
  "sr_await_suspend n rest = [ConnectOp n (DestroyOp n # rest), StartOp n]"

primrec sr_coroutine :: "addr \<Rightarrow> nat \<Rightarrow> op_action list" where
  "sr_coroutine n 0 = []"
| "sr_coroutine n (Suc awaits) = (if sr_await_ready then sr_coroutine n awaits else sr_await_suspend n (sr_coroutine n awaits))"

lemma run_all_empty: "ow_head w = 0 \<Longrightarrow> sr_run_all w = Some (Next w)"
  by (simp add: sr_run_all.simps)

lemma coroutine_runs:
  assumes "n \<noteq> 0" and "ow_head w = 0" and "ow_recv w n = None"
  shows "\<exists>w1 w2. exec op_action_step (sr_coroutine n awaits) w = Next w1 \<and> sr_run_all w1 = Some (Next w2) \<and> ow_head w2 = 0 \<and>
    ow_recv w2 n = None \<and> ow_ran w2 = ow_ran w @ replicate awaits n"
  using assms
proof (induction awaits arbitrary: w)
  case 0
  then show ?case by (simp add: run_all_empty)
next
  case (Suc awaits)
  let ?rest = "DestroyOp n # sr_coroutine n awaits"
  let ?w1 = "w\<lparr>ow_recv := (ow_recv w)(n \<mapsto> ?rest), ow_next := (ow_next w)(n := 0), ow_head := n\<rparr>"
  let ?w = "w\<lparr>ow_next := (ow_next w)(n := 0), ow_head := 0, ow_ran := ow_ran w @ [n], ow_recv := (ow_recv w)(n := None)\<rparr>"
  have "exec op_action_step (sr_coroutine n (Suc awaits)) w = Next ?w1"
    using Suc.prems by (simp add: sr_await_ready_def sr_await_suspend_def pool_connect_def op_start_def sr_submit_def)
  moreover have "ow_head ?w = 0" "ow_recv ?w n = None" using Suc.prems by simp_all
  from Suc.IH [OF Suc.prems(1) this] obtain w1 w2 where w: "exec op_action_step (sr_coroutine n awaits) ?w = Next w1"
    "sr_run_all w1 = Some (Next w2)" "ow_head w2 = 0" "ow_recv w2 n = None" "ow_ran w2 = ow_ran ?w @ replicate awaits n" by blast
  have "op_run n (?w1\<lparr>ow_head := 0\<rparr>) = exec op_action_step (sr_coroutine n awaits) ?w"
    using Suc.prems by (simp add: op_run_def op_destroy_def)
  with w have "sr_run_all ?w1 = sr_run_all w1" using Suc.prems(1) by (intro run_all_next) simp_all
  ultimately show ?case using w by auto
qed

subsection \<open>Function\<close>

text \<open>
  A \<open>Function\<close> owns its storage through a raw pointer. \<open>ff_live\<close> is the storage that exists, \<open>ff_calls\<close> what was invoked. The
  address that \<open>new\<close> returns is an argument. The class declares no copy, so a copy is the pointer.
\<close>

record 'f fn_world =
  ff_live :: "addr \<Rightarrow> 'f option"
  ff_calls :: "'f list"

definition fn_make :: "addr \<Rightarrow> 'f \<Rightarrow> 'f fn_world \<Rightarrow> 'f fn_world outcome" where
  "fn_make p f w = (if p = 0 \<or> ff_live w p \<noteq> None then Disabled else Next (w\<lparr>ff_live := (ff_live w)(p \<mapsto> f)\<rparr>))"

definition fn_call :: "addr \<Rightarrow> 'f fn_world \<Rightarrow> 'f fn_world outcome" where
  "fn_call p w = (case ff_live w p of None \<Rightarrow> Fault UseAfterFree | Some f \<Rightarrow> Next (w\<lparr>ff_calls := ff_calls w @ [f]\<rparr>))"

definition fn_delete :: "addr \<Rightarrow> 'f fn_world \<Rightarrow> 'f fn_world outcome" where
  "fn_delete p w = (case ff_live w p of None \<Rightarrow> Fault UseAfterFree | Some f \<Rightarrow> Next (w\<lparr>ff_live := (ff_live w)(p := None)\<rparr>))"

lemma function_lifetime:
  assumes "p \<noteq> 0" and "ff_live w p = None"
  shows "\<exists>w'. exec (\<lambda>step. step) (fn_make p f # replicate k (fn_call p) @ [fn_delete p]) w = Next w' \<and>
    ff_live w' = ff_live w \<and> ff_calls w' = ff_calls w @ replicate k f"
proof -
  have calls: "ff_live u p = Some f \<Longrightarrow> exec (\<lambda>step. step) (replicate k (fn_call p)) u = Next (u\<lparr>ff_calls := ff_calls u @ replicate k f\<rparr>)"
    for u :: "'a fn_world" and k by (induction k arbitrary: u) (simp_all add: fn_call_def)
  show ?thesis using assms by (simp add: fn_make_def exec_append calls fn_delete_def fun_upd_idem)
qed

lemma copied_function_deletes_twice:
  assumes "p \<noteq> 0" and "ff_live w p = None"
  shows "exec (\<lambda>step. step) [fn_make p f, fn_delete p, fn_delete p] w = Fault UseAfterFree"
  using assms by (simp add: fn_make_def fn_delete_def)

end
