(* ===== verification/Spec2Isabelle.thy ===== *)
theory Spec2Isabelle
  imports Intrusive_List Fiber_Mutex Strand Result Http_Header Thread_Pool Stamped_Ptr Future Executors Coroutine Ref_Counting
    One_Shot_Event Stackless Stackless_Sync Fiber_Core Lockfree_Fifo Condvar Fiber_Await Future_Lite
    Http_Text Environment Files_Data Run_Scheduler Coroutine_Result Sender_Receiver
begin

text \<open>
  A verification of \<open>magic-core\<close>, a C++20 library for concurrency (\<open>src/src/magic/\<close>): executors, futures, stackful and
  stackless coroutines, fibers, and the lock-free structures they rest on. This theory imports the others and says what
  each of them holds.

  \<^bold>\<open>The program.\<close> A task (\<open>executors/task.h\<close>) is given to an executor: the thread pool, a strand over another executor, the
  manual or the inline executor. A future is the consumer half of a shared state whose producer half is a promise; its
  callbacks are tasks on an executor. A fiber is a stackful coroutine that is stepped as a task of its executor;
  fibers wait for a mutex, an event or a wait group by parking themselves in a lock-free list. Coroutines of the language
  (\<open>coroutine/stackless/\<close>) do the same, but are resumed inside the call that wakes them. \<open>Result<T>\<close> carries values and
  errors everywhere.

  \<^bold>\<open>Form of the model.\<close> Objects are records with the fields of the source, enumerations and words at their machine width,
  failures are values: a failed assertion, a panic, a use after free, a null dereference or a walk that does not end is
  \<open>Fault\<close> (\<open>Prelude\<close>). A concurrent component is a step function \<open>event \<Rightarrow> state \<Rightarrow> outcome\<close>, executable, run over an
  explicit list of events by \<open>exec\<close>. One event is one access to shared memory, or one critical section of a
  \<open>std::mutex\<close>, with the thread-local code up to the next one; which thread moves, where an object is allocated, whether a weak
  exchange fails without reason and which sleeper a \<open>notify_one\<close> wakes is in the event, so a theorem about every list of
  events is one about every interleaving. A program counter type (\<open>mutex_pc\<close>, \<open>strand_pc\<close>, \<open>ls_pc\<close>, ...) names the program points
  of one call. Memory is sequentially consistent: memory orders are not modelled.

  \<^bold>\<open>Theories.\<close>
  \<^item> \<open>Prelude\<close>: words, faults, \<open>exec\<close>, atomics, counters; the locales \<open>counted_machine\<close> (an invariant for a bounded number of
    steps), \<open>guarded_machine\<close> (for runs of any length) and \<open>machine_refinement\<close> (steps simulate an abstract machine);
    \<open>avoids\<close>, the runs that do not make a certain step in a certain state.
  \<^item> \<open>Intrusive_List\<close>: the intrusive list of the package \<open>wheels\<close>, which is not in the repository, as the parameter
    \<open>L\<close> with the laws \<open>intrusive_list L rep\<close>; \<open>ptr_list\<close> is an instance on links, used by the witnesses.
  \<^item> \<open>Fiber_Mutex\<close> (\<open>fibers/sync/mutex.h\<close>): \<open>mutex_step\<close>. Mutual exclusion, hand-over to a waiter, no failure.
  \<^item> \<open>Lockfree_Queue\<close>, \<open>Strand\<close> (\<open>concurrency/lockfree/lockfree_intrusive_*.h\<close>, \<open>executors/strand.*\<close>): \<open>strand_step\<close>. Refinement of a
    serial executor, nothing lost, destruction, and what a discard leaves behind.
  \<^item> \<open>Result\<close> (\<open>common/result.h\<close>, \<open>common/result/\<close>): \<open>Error\<close>, \<open>ValueStorage\<close>, \<open>Result<T>\<close> on checked storage, \<open>make_result\<close>. No misuse of
    the storage in programs that do not move an object onto itself.
  \<^item> \<open>String_Reader\<close>, \<open>Http_Header\<close> (\<open>common/string_reader.h\<close>, \<open>common/convert.h\<close>, \<open>net/http/header.*\<close>, \<open>status.*\<close>, \<open>response.h\<close>): the
    parsers, with round trips; \<open>std::from_chars\<close> and the syntax of \<open>std::stod\<close> are written out. \<open>Http_Client\<close> (\<open>net/http.*\<close>, \<open>request.h\<close>, \<open>request_builder.h\<close>): requests over libcurl, which is the parameter of
    the locale \<open>easy_curl\<close>. \<open>Formatting\<close>, \<open>Http_Text\<close> (\<open>common/string_builder.h\<close>, \<open>net/http/format.h\<close>, \<open>response.cpp\<close>, \<open>error.*\<close>): printing over
    the package \<open>fmt\<close>, the locale \<open>fmt_package\<close>; a printed header is parsed back. \<open>Environment\<close> (\<open>common/environment.h\<close>, \<open>convert.h\<close>,
    \<open>cpu_time.h\<close>): conversions of variables, processor time in words. \<open>Files_Data\<close> (\<open>filesystem/file.*\<close>, \<open>common/generators/\<close>): text files, generated data.
  \<^item> \<open>Blocking_Queue\<close>, \<open>Thread_Pool\<close> (\<open>concurrency/blocking_queue.h\<close>, \<open>concurrency/intrusive/blocking_queue.h\<close>,
    \<open>concurrency/atomic_counter.h\<close>, \<open>executors/thread_pool.*\<close>): \<open>pool_step\<close>. Order of tasks, wake-ups, \<open>WaitIdle\<close>, \<open>Stop\<close>.
  \<^item> \<open>Stamped_Ptr\<close> (\<open>concurrency/lockfree/stamped_ptr.h\<close>): packing of a pointer and a stamp in 64 bits; the locale
    \<open>atomic_cell\<close> is the contract of an atomic variable.
  \<^item> \<open>Lockfree_Stack\<close> (\<open>concurrency/lockfree/stack.h\<close>): \<open>ls_step\<close>, a stack whose nodes are reclaimed by split reference counts, on
    top of \<open>Stamped_Ptr\<close>. Linearizability: the history of calls and returns is one of a plain stack with atomic operations (\<open>as_step\<close>);
    conservation of values, no use after free and no leak although addresses are reused. \<open>Lockfree_Fifo\<close>
    (\<open>concurrency/lockfree/queue.h\<close>): the queue of two such stacks, taken as lists with atomic operations.
  \<^item> \<open>Shared_State\<close>, \<open>Future\<close> (\<open>concurrency/rendezvous.h\<close>, \<open>futures/\<close>): the rendezvous of producer and consumer step by step, and
    pipelines of \<open>Then\<close>, \<open>Via\<close>, \<open>Recover\<close>, ... against what they denote.
  \<^item> \<open>Executors\<close> (\<open>executors/manual.*\<close>, \<open>inline.cpp\<close>, \<open>detail/default_task.h\<close>): termination and order of \<open>RunAll\<close>, limits.
  \<^item> \<open>Coroutine\<close> (\<open>coroutine/core/\<close>, \<open>coroutine.*\<close>, \<open>generator.h\<close>, \<open>processor.h\<close>): nesting of stackful coroutines; a generator is the
    list it sends, a processor reads the list it is fed.
  \<^item> \<open>Ref_Counting\<close> (\<open>common/refer/\<close>, \<open>common/shared_ptr.h\<close>): the locale \<open>handle_counter\<close> for both families of counted pointers.
  \<^item> \<open>One_Shot_Event\<close> (\<open>fibers/sync/oneshotevent.h\<close>, \<open>wait_group.h\<close>): \<open>event_step\<close>, \<open>wait_group_step\<close>. \<open>Fire\<close> wakes all, in runs where
    no call of it starts between the two exchanges of another (\<open>ev_overlap\<close>); with such a call it fails.
  \<^item> \<open>Stackless\<close>, \<open>Stackless_Sync\<close> (\<open>coroutine/stackless/\<close>): the life of a coroutine frame; mutex, event and wait group, which lead to
    the states of the fiber versions and resume exactly whom those schedule, and the nesting of \<open>resume\<close> calls (locale \<open>resumer\<close>).
  \<^item> \<open>Fiber_Core\<close> (\<open>fibers/core/\<close>, \<open>fibers/api.h\<close>): \<open>fiber_core_step\<close>. A fiber is in one place at a time; stacks and ids.
  \<^item> \<open>Futex\<close>, \<open>Condvar\<close> (\<open>concurrency/spinlock.h\<close>, \<open>fibers/sync/detail/futex.h\<close>, \<open>fibers/sync/condvar.*\<close>): \<open>futex_step\<close>; \<open>condvar_step\<close>,
    which moves a futex and a mutex. No notification is lost, in runs where no fiber returns from its wait before the thread that
    suspended it has ended the \<open>unlock\<close> in \<open>AwaitSuspend\<close> (\<open>fx_early\<close>, \<open>cv_early\<close>); the steps are those of the code, and with such
    a return the spin lock admits two holders and a dead awaiter is written.
  \<^item> \<open>Blocking_Wait\<close> (\<open>concurrency/oneshotevent.h\<close>, \<open>concurrency/barrier.h\<close>): threads that wait on a condition variable; \<open>barrier_step\<close>.
  \<^item> \<open>Future_Wait\<close> (\<open>futures/get.h\<close>, \<open>futures/core/callback.h\<close>): \<open>getter_step\<close>, a thread that waits for a future, composed of \<open>Shared_State\<close>
    and \<open>Blocking_Wait\<close>. \<open>Fiber_Await\<close> (\<open>fibers/core/await.h\<close>): \<open>await_step\<close>, a fiber that does, composed of \<open>Shared_State\<close> and
    \<open>Fiber_Core\<close>.
  \<^item> \<open>Pool_Client\<close>: \<open>pool_client_step\<close>, the thread pool and a machine that gives it task nodes, moving together; the locale \<open>pool_client\<close>
    is what such a machine promises (its nodes are not submitted twice, it is on a thread only inside a node), and from it follows that
    both machines only do what they do alone, that no node is linked twice, and that an idle pool means an idle client.
    \<open>Run_Scheduler\<close> (\<open>RunScheduler\<close>, \<open>self\<close> in \<open>fibers/core/fiber.cpp\<close>, \<open>futures/await.h\<close>) interprets it for the fibers of \<open>Fiber_Core\<close> and
    for a \<open>Strand\<close>: \<open>run_scheduler_step\<close>, \<open>strand_on_pool_step\<close>.
  \<^item> \<open>Coroutine_Result\<close> (\<open>coroutine/stackless/task.h\<close>, \<open>examples/stackless_coroutine/std_future.h\<close>): what becomes of the result of a
    coroutine. \<open>Sender_Receiver\<close> (\<open>examples/sender_receiver/main.cpp\<close>): \<open>sr_run_all\<close>, operation states that are run depth first.
  \<^item> \<open>Future_Lite\<close> (\<open>concurrency/future_lite.*\<close>): what an unsynchronised future allows, and when it works.

  \<^bold>\<open>How it fits together.\<close> Each concurrent component has an invariant over its state and, where needed, ghost lists
  (\<open>strand_inv\<close>, \<open>mutex_inv\<close>, \<open>ls_inv_with\<close>, ...), one lemma per operation that preserves it, and one of the three machine
  locales to carry it along runs. The fields \<open>_submitted\<close>, \<open>_ran\<close>, \<open>_put\<close>, \<open>_got\<close>, \<open>_log\<close>, \<open>_fired\<close> and the like record what happened
  and are read by no operation. Components are composed where the code composes them: a condition variable moves a futex and a
  mutex, an awaited future its shared state and the fibers, a scheduler its pool and the fibers or the strand on it; the theorem about the
  composition is drawn from the invariants of the parts. Properties are numbered C1, C2, ... and have a witness that runs them on a concrete list
  of events.

  \<^bold>\<open>Bounds.\<close> Runs are unbounded except where a machine integer could wrap: the strand's counter ($2^{61}$ steps), the pool's
  ($2^{64}$), the epoch of the futex and the generation of the barrier ($2^{64}$), \<open>SharedPtr\<close> ($2^{31}$ references), ids of fibers ($2^{64}$ fibers). The stamps of the lock-free
  stack have 16 bits; its runs may be of any length, but must avoid \<open>ls_wraps\<close>, the acquisition of a node whose stamp is already the largest. Fuel is used for walks over links (\<open>chain\<close>, \<open>drain\<close>, \<open>ls_destroy_self\<close>); the theorems show that it suffices.

  \<^bold>\<open>Not modelled.\<close> Weak memory; the context switch itself (package \<open>sure\<close>); what libcurl does;
  arithmetic on \<open>double\<close> (the value that \<open>std::stod\<close> computes from the text of a number, which is a parameter; \<open>Stopwatch\<close>, \<open>TimeSpan\<close>); compile-time traits; the examples other than the two
  above, which print and measure. The manifest lists these parts.
\<close>

end
